(* ===== verification/Prelude.thy ===== *)
theory Prelude
  imports Main "HOL-Library.Word"
begin

text \<open>
  Shared vocabulary of the development: the machine types, 64-bit arithmetic on
  natural numbers with the wrap-around written out, the error values of the library
  (\<^verbatim>\<open>buffer_error.h\<close> and \<^verbatim>\<open>spec_assert.h\<close>), the sequencing of fallible steps, and
  the memory-copy primitive with its lemmas.
\<close>

unbundle bit_operations_syntax

type_synonym u8 = "8 word"
type_synonym u32 = "32 word"
type_synonym u64 = "64 word"
type_synonym bytes = "8 word list"

named_theorems arith64 \<open>equations that remove the 64-bit wrap-around where no overflow happens\<close>
named_theorems mem_simps \<open>reading a memory image after writing it\<close>

subsection \<open>64-bit unsigned arithmetic on natural numbers\<close>

text \<open>
  Lengths, offsets and counters of the library are \<^verbatim>\<open>uint64_t\<close>. They are natural
  numbers below \<open>2 ^ 64\<close>, and every addition and subtraction of the code is one of the
  following, which wrap as the hardware does.
\<close>

definition two64 :: nat where
  "two64 = 2 ^ 64"

definition add64 :: "nat \<Rightarrow> nat \<Rightarrow> nat" where
  "add64 a b = (a + b) mod two64"

definition sub64 :: "nat \<Rightarrow> nat \<Rightarrow> nat" where
  "sub64 a b = (a + (two64 - b mod two64)) mod two64"

definition mul64 :: "nat \<Rightarrow> nat \<Rightarrow> nat" where
  "mul64 a b = (a * b) mod two64"

lemma two64_pos [simp]: "0 < two64"
  by (simp add: two64_def)

lemma two64_eq: "two64 = 18446744073709551616"
  by (simp add: two64_def)

lemma add64_small [arith64]: "a + b < two64 \<Longrightarrow> add64 a b = a + b"
  by (simp add: add64_def)

lemma sub64_small [arith64]: "b \<le> a \<Longrightarrow> a < two64 \<Longrightarrow> sub64 a b = a - b"
proof -
  assume "b \<le> a" "a < two64"
  then have "a + (two64 - b mod two64) = two64 + (a - b)" by simp
  then show ?thesis using \<open>a < two64\<close> by (simp add: sub64_def)
qed

lemma mul64_small [arith64]: "a * b < two64 \<Longrightarrow> mul64 a b = a * b"
  by (simp add: mul64_def)

lemma add64_bound [simp]: "add64 a b < two64"
  by (simp add: add64_def)

lemma sub64_bound [simp]: "sub64 a b < two64"
  by (simp add: sub64_def)

lemma sub64_zero: "a < two64 \<Longrightarrow> sub64 a 0 = a"
  by (simp add: arith64)

lemma add64_zero: "a < two64 \<Longrightarrow> add64 a 0 = a"
  by (simp add: arith64)

text \<open>Subtraction undoes addition even when the addition wraps, and the other way round.\<close>

lemma add64_sub64_cancel:
  assumes "a < two64" shows "sub64 (add64 a b) b = a"
proof -
  have "b mod two64 \<le> two64" using two64_pos mod_less_divisor less_imp_le by blast
  then have "a + b mod two64 + (two64 - b mod two64) = a + two64" by simp
  moreover have "(a + b + (two64 - b mod two64)) mod two64
      = (a + b mod two64 + (two64 - b mod two64)) mod two64"
    by (rule mod_add_cong) (simp_all add: mod_add_right_eq)
  ultimately have "(a + b + (two64 - b mod two64)) mod two64 = a"
    using assms by simp
  then show ?thesis
    unfolding sub64_def add64_def by (simp only: mod_add_left_eq)
qed

subsection \<open>Errors, and sequencing of fallible steps\<close>

text \<open>
  The exceptions of \<^verbatim>\<open>buffer_error.h\<close>, the failure of a \<^verbatim>\<open>spec_assert\<close> (the process
  aborts), and \<open>Undefined\<close> for an access the language gives no meaning to: a null
  dereference, the use of a destroyed object, reading the list's root as a node.
\<close>

datatype exn =
    Bad_alloc
  | End_of_buffer
  | Malformed_input
  | Assert_failed
  | Undefined

definition ebind :: "exn + 'a \<Rightarrow> ('a \<Rightarrow> exn + 'b) \<Rightarrow> exn + 'b" where
  "ebind m f = (case m of Inl e \<Rightarrow> Inl e | Inr x \<Rightarrow> f x)"

definition spec_assert :: "bool \<Rightarrow> exn + unit" where
  "spec_assert c = (if c then Inr () else Inl Assert_failed)"

lemma ebind_simps [simp]:
  "ebind (Inl e) f = Inl e"
  "ebind (Inr x) f = f x"
  by (simp_all add: ebind_def)

lemma ebind_Inr_iff: "ebind m f = Inr y \<longleftrightarrow> (\<exists>x. m = Inr x \<and> f x = Inr y)"
  by (cases m) auto

lemma ebind_Inl_iff:
  "ebind m f = Inl e \<longleftrightarrow> m = Inl e \<or> (\<exists>x. m = Inr x \<and> f x = Inl e)"
  by (cases m) auto

lemma ebind_assoc: "ebind (ebind m f) g = ebind m (\<lambda>x. ebind (f x) g)"
  by (cases m) auto

lemma spec_assert_simps [simp]:
  "c \<Longrightarrow> spec_assert c = Inr ()"
  "\<not> c \<Longrightarrow> spec_assert c = Inl Assert_failed"
  by (simp_all add: spec_assert_def)

lemma spec_assert_Inr_iff [simp]: "spec_assert c = Inr u \<longleftrightarrow> c"
  by (simp add: spec_assert_def)

definition of_option :: "exn \<Rightarrow> 'a option \<Rightarrow> exn + 'a" where
  "of_option e m = (case m of None \<Rightarrow> Inl e | Some x \<Rightarrow> Inr x)"

lemma of_option_simps [simp]:
  "of_option e None = Inl e"
  "of_option e (Some x) = Inr x"
  by (simp_all add: of_option_def)

lemma of_option_Inr_iff [simp]: "of_option e m = Inr x \<longleftrightarrow> m = Some x"
  by (cases m) auto

subsection \<open>Memory images\<close>

text \<open>
  A block of memory is the list of its bytes. \<open>seg off len\<close> reads a range of it and
  \<open>write_at off bs\<close> is \<^verbatim>\<open>memcpy\<close> into it; both are used inside the block only.
\<close>

definition seg :: "nat \<Rightarrow> nat \<Rightarrow> 'a list \<Rightarrow> 'a list" where
  "seg off len xs = take len (drop off xs)"

definition write_at :: "nat \<Rightarrow> 'a list \<Rightarrow> 'a list \<Rightarrow> 'a list" where
  "write_at off bs xs = take off xs @ bs @ drop (off + length bs) xs"

lemma length_seg [simp]: "off + len \<le> length xs \<Longrightarrow> length (seg off len xs) = len"
  by (simp add: seg_def)

lemma seg_zero [simp]: "seg off 0 xs = []"
  by (simp add: seg_def)

lemma seg_all [simp]: "seg 0 (length xs) xs = xs"
  by (simp add: seg_def)

lemma nth_seg: "off + len \<le> length xs \<Longrightarrow> i < len \<Longrightarrow> seg off len xs ! i = xs ! (off + i)"
  by (simp add: seg_def)

lemma seg_append_seg:
  "seg off (a + b) xs = seg off a xs @ seg (off + a) b xs"
  by (simp add: seg_def take_add add.commute)

lemma seg_seg: "i + k \<le> len \<Longrightarrow> seg i k (seg off len xs) = seg (off + i) k xs"
  by (simp add: seg_def drop_take min_def add.commute)

lemma take_seg: "k \<le> len \<Longrightarrow> take k (seg off len xs) = seg off k xs"
  by (simp add: seg_def min_def)

lemma drop_seg: "k \<le> len \<Longrightarrow> drop k (seg off len xs) = seg (off + k) (len - k) xs"
  by (simp add: seg_def drop_take add.commute)

lemma length_write_at [simp]:
  "off + length bs \<le> length xs \<Longrightarrow> length (write_at off bs xs) = length xs"
  by (simp add: write_at_def)

lemma write_at_Nil [simp]: "write_at off [] xs = xs"
  by (simp add: write_at_def)

lemma nth_write_at:
  assumes "off + length bs \<le> length xs" "i < length xs"
  shows "write_at off bs xs ! i =
    (if off \<le> i \<and> i < off + length bs then bs ! (i - off) else xs ! i)"
  using assms by (auto simp: write_at_def nth_append)

lemma seg_write_at_same [mem_simps]:
  "off + length bs \<le> length xs \<Longrightarrow> seg off (length bs) (write_at off bs xs) = bs"
  by (simp add: seg_def write_at_def)

lemma seg_write_at_before [mem_simps]:
  assumes "o1 + l1 \<le> off" "off + length bs \<le> length xs"
  shows "seg o1 l1 (write_at off bs xs) = seg o1 l1 xs"
  by (rule nth_equalityI) (use assms in \<open>auto simp: nth_seg nth_write_at\<close>)

lemma seg_write_at_after [mem_simps]:
  assumes "off + length bs \<le> o1" "off + length bs \<le> length xs"
  shows "seg o1 l1 (write_at off bs xs) = seg o1 l1 xs"
  using assms by (simp add: seg_def write_at_def min_def)

lemma seg_write_at_inside [mem_simps]:
  assumes "o1 \<le> off" "off + length bs \<le> o1 + l1" "o1 + l1 \<le> length xs"
  shows "seg o1 l1 (write_at off bs xs) = write_at (off - o1) bs (seg o1 l1 xs)"
  by (rule nth_equalityI) (use assms in \<open>auto simp: nth_seg nth_write_at add.commute\<close>)

lemma write_at_write_at_adj:
  assumes "off + length bs + length cs \<le> length xs"
  shows "write_at (off + length bs) cs (write_at off bs xs) = write_at off (bs @ cs) xs"
  by (rule nth_equalityI) (use assms in \<open>auto simp: nth_write_at nth_append\<close>)

lemma sum_list_map_eq: "(\<And>x. x \<in> set xs \<Longrightarrow> f x = g x) \<Longrightarrow> sum_list (map f xs) = sum_list (map g xs)"
  by (metis map_eq_conv)

lemma concat_map_eq: "(\<And>x. x \<in> set xs \<Longrightarrow> f x = g x) \<Longrightarrow> concat (map f xs) = concat (map g xs)"
  by (metis map_eq_conv)

lemma length_concat_map: "length (concat (map f xs)) = sum_list (map (\<lambda>x. length (f x)) xs)"
  by (induction xs) auto

end
