(* ===== verification/Crc32c_Spec.thy ===== *)
theory Crc32c_Spec
  imports Crc32c_Tables
begin

text \<open>
  The reference for every CRC routine of the library: the reflected CRC-32C register
  (polynomial \<open>0x82F63B78\<close>) clocked one bit at a time. Clocking is linear over XOR, which
  carries the slicing tables, the zero-run table and the CRC cache of the buffer list.
\<close>

unbundle bit_operations_syntax

subsection \<open>The bit-serial register\<close>

definition crc_bit :: "u32 \<Rightarrow> u32" where
  "crc_bit c = (if bit c 0 then drop_bit 1 c XOR 0x82F63B78 else drop_bit 1 c)"

definition crc_bits :: "nat \<Rightarrow> u32 \<Rightarrow> u32" where
  "crc_bits n c = (crc_bit ^^ n) c"

definition crc_byte_ref :: "u32 \<Rightarrow> u8 \<Rightarrow> u32" where
  "crc_byte_ref c b = crc_bits 8 (c XOR ucast b)"

definition crc_ref :: "u32 \<Rightarrow> bytes \<Rightarrow> u32" where
  "crc_ref c bs = foldl crc_byte_ref c bs"

lemma crc_ref_Nil [simp]: "crc_ref c [] = c"
  by (simp add: crc_ref_def)

lemma crc_ref_Cons [simp]: "crc_ref c (b # bs) = crc_ref (crc_byte_ref c b) bs"
  by (simp add: crc_ref_def)

lemma crc_ref_append: "crc_ref c (xs @ ys) = crc_ref (crc_ref c xs) ys"
  by (simp add: crc_ref_def)

lemma crc_bits_0 [simp]: "crc_bits 0 c = c"
  by (simp add: crc_bits_def)

lemma crc_bits_Suc: "crc_bits (Suc n) c = crc_bits n (crc_bit c)"
  by (simp add: crc_bits_def funpow_Suc_right del: funpow.simps)

lemma crc_bits_add: "crc_bits (m + n) c = crc_bits m (crc_bits n c)"
  by (simp add: crc_bits_def funpow_add)

lemma crc_bits_8: "crc_bits 8 c =
    crc_bit (crc_bit (crc_bit (crc_bit (crc_bit (crc_bit (crc_bit (crc_bit c)))))))"
  by (simp add: crc_bits_def eval_nat_numeral)

subsection \<open>Linearity\<close>

lemma crc_bit_xor: "crc_bit (x XOR y) = crc_bit x XOR crc_bit y"
  by (rule bit_eqI) (auto simp: crc_bit_def bit_simps)

lemma crc_bits_xor: "crc_bits n (x XOR y) = crc_bits n x XOR crc_bits n y"
  by (induction n arbitrary: x y) (simp_all add: crc_bits_Suc crc_bit_xor)

lemma crc_bit_zero [simp]: "crc_bit 0 = 0"
  by (simp add: crc_bit_def)

lemma crc_bits_zero [simp]: "crc_bits n 0 = 0"
  by (induction n) (simp_all add: crc_bits_Suc)

text \<open>Clocking a register whose low bits are clear only shifts it.\<close>

lemma crc_bits_shift: "(\<And>i. i < n \<Longrightarrow> \<not> bit c i) \<Longrightarrow> crc_bits n c = drop_bit n c"
proof (induction n arbitrary: c)
  case 0
  then show ?case by simp
next
  case (Suc n)
  have "crc_bit c = drop_bit 1 c" using Suc.prems [of 0] by (simp add: crc_bit_def)
  moreover have "crc_bits n (drop_bit 1 c) = drop_bit n (drop_bit 1 c)"
    by (rule Suc.IH) (use Suc.prems in \<open>auto simp: bit_simps\<close>)
  ultimately show ?case by (simp add: crc_bits_Suc)
qed

definition xor_bytes :: "bytes \<Rightarrow> bytes \<Rightarrow> bytes" where
  "xor_bytes xs ys = map2 (\<lambda>x y. x XOR y) xs ys"

lemma ucast_xor8: "(ucast (x XOR y) :: u32) = ucast (x :: u8) XOR ucast y"
  by (rule bit_eqI) (auto simp: bit_simps)

lemma crc_ref_xor:
  "length xs = length ys \<Longrightarrow>
   crc_ref (c XOR d) (xor_bytes xs ys) = crc_ref c xs XOR crc_ref d ys"
proof (induction xs ys arbitrary: c d rule: list_induct2)
  case Nil
  then show ?case by (simp add: xor_bytes_def)
next
  case (Cons x xs y ys)
  have "crc_byte_ref (c XOR d) (x XOR y) = crc_byte_ref c x XOR crc_byte_ref d y"
    by (simp add: crc_byte_ref_def ucast_xor8 crc_bits_xor [symmetric] xor.assoc xor.left_commute)
  then show ?case using Cons.IH by (simp add: xor_bytes_def)
qed

lemma xor_bytes_zeros: "xor_bytes xs (replicate (length xs) 0) = xs"
  by (induction xs) (simp_all add: xor_bytes_def)

lemma crc_ref_change_init:
  "crc_ref (c XOR d) xs = crc_ref c xs XOR crc_ref d (replicate (length xs) 0)"
  using crc_ref_xor [of xs "replicate (length xs) 0" c d] by (simp add: xor_bytes_zeros)

lemma crc_ref_zeros: "crc_ref c (replicate n 0) = crc_bits (8 * n) c"
proof (induction n arbitrary: c)
  case 0
  then show ?case by simp
next
  case (Suc n)
  have "crc_ref c (replicate (Suc n) 0) = crc_bits (8 * n) (crc_bits 8 c)"
    using Suc.IH by (simp add: crc_byte_ref_def)
  then show ?case by (simp add: crc_bits_add [symmetric] add.commute)
qed

subsection \<open>Tables of linear maps\<close>

text \<open>
  The table of a linear map over all \<open>2 ^ k\<close> indices is determined by its values at the
  powers of two: the second half of it is the first half with one value added.
\<close>

definition expand :: "u32 list \<Rightarrow> u32 list" where
  "expand bs = foldl (\<lambda>acc b. acc @ map (\<lambda>x. x XOR b) acc) [0] bs"

lemma of_nat_plus_power:
  assumes "i < 2 ^ k"
  shows "(of_nat (i + 2 ^ k) :: u32) = of_nat i XOR 2 ^ k"
proof (rule bit_eqI)
  have disj: "\<not> bit i n \<or> \<not> bit ((2::nat) ^ k) n" for n
    using assms by (metis bit_push_bit_iff bit_take_bit_iff linorder_neqE_nat nat_neq_iff
        take_bit_nat_eq_self bit_exp_iff order.strict_iff_order)
  then have "i + 2 ^ k = (i OR 2 ^ k)" by (rule disjunctive_add)
  also have "\<dots> = (i XOR 2 ^ k)"
    by (rule bit_eqI) (use disj in \<open>auto simp only: bit_or_iff bit_xor_iff\<close>)
  finally have sum: "i + 2 ^ k = (i XOR 2 ^ k)" .
  fix n
  show "bit (of_nat (i + 2 ^ k) :: u32) n = bit (of_nat i XOR 2 ^ k :: u32) n"
    if "possible_bit TYPE(u32) n"
    using that by (simp only: sum) (auto simp: bit_simps bit_of_nat_iff)
qed

lemma expand_linear:
  fixes f :: "u32 \<Rightarrow> u32"
  assumes lin: "\<And>x y. f (x XOR y) = f x XOR f y" and zero: "f 0 = 0"
  shows "expand (map (\<lambda>j. f (2 ^ j)) [0..<k]) = map (\<lambda>i. f (of_nat i)) [0..<2 ^ k]"
proof (induction k)
  case 0
  then show ?case by (simp add: expand_def zero)
next
  case (Suc k)
  have "[0..<2 ^ Suc k] = [0..<2 ^ k] @ map (\<lambda>i. i + 2 ^ k) [0..<2 ^ k]"
    by (simp add: map_add_upt mult_2 upt_add_eq_append [symmetric] del: upt_Suc)
  moreover have "expand (map (\<lambda>j. f (2 ^ j)) [0..<Suc k]) =
      expand (map (\<lambda>j. f (2 ^ j)) [0..<k]) @
      map (\<lambda>x. x XOR f (2 ^ k)) (expand (map (\<lambda>j. f (2 ^ j)) [0..<k]))"
    by (simp add: expand_def)
  moreover have "f (of_nat i) XOR f (2 ^ k) = f (of_nat (i + 2 ^ k))" if "i < 2 ^ k" for i
    by (simp only: of_nat_plus_power [OF that] lin)
  ultimately show ?case using Suc by simp
qed

end
