(* ===== verification/Crc32c_Sctp.thy ===== *)
theory Crc32c_Sctp
  imports Crc32c_Spec
begin

text \<open>
  The software CRC of \<^verbatim>\<open>common/crc32/sctp_crc32.c\<close> (slicing by eight, little endian) and
  the byte-table CRC of \<^verbatim>\<open>crc32c_intel_baseline.c\<close>. The tables are shown to be what the
  slicing needs, and each routine to agree with the bit-serial reference.
\<close>

unbundle bit_operations_syntax

subsection \<open>What the tables hold\<close>

definition bits_table :: "nat \<Rightarrow> u32 list" where
  "bits_table n = map (\<lambda>i. crc_bits n (of_nat i)) [0..<256]"

definition basis :: "nat \<Rightarrow> u32 list" where
  "basis n = map (\<lambda>j. crc_bits n (2 ^ j)) [0..<8]"

lemma bits_table_expand: "bits_table n = expand (basis n)"
  using expand_linear [of "crc_bits n" 8] by (simp add: basis_def bits_table_def crc_bits_xor)

lemma basis_step: "basis (8 + n) = map (crc_bits 8) (basis n)"
  by (simp add: basis_def crc_bits_add [symmetric] comp_def)

lemma basis_8: "basis 8 =
    [0xF26B8303, 0xE13B70F7, 0xC79A971F, 0x8AD958CF, 0x105EC76F, 0x20BD8EDE, 0x417B1DBC, 0x82F63B78]"
  by (simp add: basis_def upt_rec crc_bits_8 crc_bit_def)

lemma basis_16: "basis 16 =
    [0x13A29877, 0x274530EE, 0x4E8A61DC, 0x9D14C3B8, 0x3FC5F181, 0x7F8BE302, 0xFF17C604, 0xFBC3FAF9]"
  using basis_step [of 8] by (simp add: basis_8 crc_bits_8 crc_bit_def)

lemma basis_24: "basis 24 =
    [0xA541927E, 0x4F6F520D, 0x9EDEA41A, 0x38513EC5, 0x70A27D8A, 0xE144FB14, 0xC76580D9, 0x8B277743]"
  using basis_step [of 16] by (simp add: basis_16 crc_bits_8 crc_bit_def)

lemma basis_32: "basis 32 =
    [0xDD45AAB8, 0xBF672381, 0x7B2231F3, 0xF64463E6, 0xE964B13D, 0xD725148B, 0xABA65FE7, 0x52A0C93F]"
  using basis_step [of 24] by (simp add: basis_24 crc_bits_8 crc_bit_def)

lemma basis_40: "basis 40 =
    [0x38116FAC, 0x7022DF58, 0xE045BEB0, 0xC5670B91, 0x8F2261D3, 0x1BA8B557, 0x37516AAE, 0x6EA2D55C]"
  using basis_step [of 32] by (simp add: basis_32 crc_bits_8 crc_bit_def)

lemma basis_48: "basis 48 =
    [0xEF306B19, 0xDB8CA0C3, 0xB2F53777, 0x6006181F, 0xC00C303E, 0x85F4168D, 0x0E045BEB, 0x1C08B7D6]"
  using basis_step [of 40] by (simp add: basis_40 crc_bits_8 crc_bit_def)

lemma basis_56: "basis 56 =
    [0x68032CC8, 0xD0065990, 0xA5E0C5D1, 0x4E2DFD53, 0x9C5BFAA6, 0x3D5B83BD, 0x7AB7077A, 0xF56E0EF4]"
  using basis_step [of 48] by (simp add: basis_48 crc_bits_8 crc_bit_def)

lemma basis_64: "basis 64 =
    [0x493C7D27, 0x9278FA4E, 0x211D826D, 0x423B04DA, 0x847609B4, 0x0D006599, 0x1A00CB32, 0x34019664]"
  using basis_step [of 56] by (simp add: basis_56 crc_bits_8 crc_bit_def)

lemma sctp_crc_tableil8_o32_bits: "sctp_crc_tableil8_o32 = bits_table 8"
  by (simp add: sctp_crc_tableil8_o32_def bits_table_expand basis_8 expand_def)

lemma sctp_crc_tableil8_o40_bits: "sctp_crc_tableil8_o40 = bits_table 16"
  by (simp add: sctp_crc_tableil8_o40_def bits_table_expand basis_16 expand_def)

lemma sctp_crc_tableil8_o48_bits: "sctp_crc_tableil8_o48 = bits_table 24"
  by (simp add: sctp_crc_tableil8_o48_def bits_table_expand basis_24 expand_def)

lemma sctp_crc_tableil8_o56_bits: "sctp_crc_tableil8_o56 = bits_table 32"
  by (simp add: sctp_crc_tableil8_o56_def bits_table_expand basis_32 expand_def)

lemma sctp_crc_tableil8_o64_bits: "sctp_crc_tableil8_o64 = bits_table 40"
  by (simp add: sctp_crc_tableil8_o64_def bits_table_expand basis_40 expand_def)

lemma sctp_crc_tableil8_o72_bits: "sctp_crc_tableil8_o72 = bits_table 48"
  by (simp add: sctp_crc_tableil8_o72_def bits_table_expand basis_48 expand_def)

lemma sctp_crc_tableil8_o80_bits: "sctp_crc_tableil8_o80 = bits_table 56"
  by (simp add: sctp_crc_tableil8_o80_def bits_table_expand basis_56 expand_def)

lemma sctp_crc_tableil8_o88_bits: "sctp_crc_tableil8_o88 = bits_table 64"
  by (simp add: sctp_crc_tableil8_o88_def bits_table_expand basis_64 expand_def)

lemma sctp_crc_c_bits: "sctp_crc_c = bits_table 8"
  by (simp add: sctp_crc_c_def bits_table_expand basis_8 expand_def)

lemma crc32_table_iscsi_base_bits: "map ucast crc32_table_iscsi_base = bits_table 8"
  by (simp add: crc32_table_iscsi_base_def bits_table_expand basis_8 expand_def)

lemmas table_bits =
  sctp_crc_tableil8_o32_bits sctp_crc_tableil8_o40_bits sctp_crc_tableil8_o48_bits
  sctp_crc_tableil8_o56_bits sctp_crc_tableil8_o64_bits sctp_crc_tableil8_o72_bits
  sctp_crc_tableil8_o80_bits sctp_crc_tableil8_o88_bits

lemma nth_bits_table: "unat x < 256 \<Longrightarrow> bits_table n ! unat x = crc_bits n (x :: u32)"
  by (simp add: bits_table_def)

lemma unat_low_byte: "unat (x AND 0xFF :: u32) < 256"
proof -
  have "x AND 0xFF = take_bit 8 x" by (simp add: take_bit_eq_mask mask_eq_decr_exp)
  moreover have "unat (take_bit 8 x) = unat x mod 256"
    by (simp only: unsigned_take_bit_eq) (simp add: take_bit_eq_mod)
  ultimately show ?thesis by simp
qed

lemma nth_bits_table_byte [simp]:
  "bits_table n ! unat (x AND 0xFF :: u32) = crc_bits n (x AND 0xFF)"
  by (rule nth_bits_table) (rule unat_low_byte)

lemma bit_low_byte_mask: "bit (0xFF :: u32) i \<longleftrightarrow> i < 8"
proof -
  have "(0xFF :: u32) = mask 8" by (simp add: mask_eq_decr_exp)
  then show ?thesis by (simp only: bit_mask_iff) auto
qed

text \<open>One table step of the bytewise algorithm is eight clocks of the register.\<close>

lemma crc_bits_8_split: "crc_bits 8 x = crc_bits 8 (x AND 0xFF) XOR drop_bit 8 x"
proof -
  have "x = (x AND 0xFF) XOR (x AND NOT 0xFF)"
    by (rule bit_eqI) (auto simp: bit_simps)
  then have "crc_bits 8 x = crc_bits 8 (x AND 0xFF) XOR crc_bits 8 (x AND NOT 0xFF)"
    by (metis crc_bits_xor)
  moreover have "\<not> bit (x AND NOT 0xFF) i" if "i < 8" for i
    using that by (simp only: bit_and_iff bit_not_iff bit_low_byte_mask simp_thms)
  then have "crc_bits 8 (x AND NOT 0xFF) = drop_bit 8 (x AND NOT 0xFF)"
    by (rule crc_bits_shift)
  moreover have "drop_bit 8 (x AND NOT 0xFF) = drop_bit 8 x"
    by (rule bit_eqI, simp only: bit_drop_bit_eq comp_apply bit_and_iff bit_not_iff
        bit_low_byte_mask) (auto dest: bit_imp_le_length)
  ultimately show ?thesis by simp
qed

lemma ucast_byte_drop: "drop_bit 8 (ucast (b :: u8) :: u32) = 0"
  by (rule bit_eqI) (auto simp: bit_simps dest: bit_imp_le_length)

lemma table_step: "crc_bits 8 ((c XOR ucast b) AND 0xFF) XOR drop_bit 8 c = crc_byte_ref c b"
  using crc_bits_8_split [of "c XOR ucast b"]
  by (simp add: crc_byte_ref_def drop_bit_xor ucast_byte_drop)

subsection \<open>Slicing by eight\<close>

text \<open>
  The loops over single bytes (the bytes before the first aligned word and those after
  the last full group), and the little-endian load of a 32-bit word.
\<close>

fun sb8_bytes :: "u32 \<Rightarrow> bytes \<Rightarrow> u32" where
  "sb8_bytes crc [] = crc"
| "sb8_bytes crc (b # p) =
     sb8_bytes (sctp_crc_tableil8_o32 ! unat ((crc XOR ucast b) AND 0xFF) XOR drop_bit 8 crc) p"

definition load_le32 :: "bytes \<Rightarrow> u32" where
  "load_le32 p = ucast (p ! 0) XOR push_bit 8 (ucast (p ! 1))
     XOR push_bit 16 (ucast (p ! 2)) XOR push_bit 24 (ucast (p ! 3))"

text \<open>One round of the main loop: eight bytes, the first four mixed into the register.\<close>

definition sb8_round :: "u32 \<Rightarrow> bytes \<Rightarrow> u32" where
  "sb8_round crc p =
    (let crc = crc XOR load_le32 p;
         p = drop 4 p;
         term1 = sctp_crc_tableil8_o88 ! unat (crc AND 0xFF)
           XOR sctp_crc_tableil8_o80 ! unat (drop_bit 8 crc AND 0xFF);
         term2 = drop_bit 16 crc;
         crc = term1 XOR sctp_crc_tableil8_o72 ! unat (term2 AND 0xFF)
           XOR sctp_crc_tableil8_o64 ! unat (drop_bit 8 term2 AND 0xFF);
         term1 = sctp_crc_tableil8_o56 ! unat (load_le32 p AND 0xFF)
           XOR sctp_crc_tableil8_o48 ! unat (drop_bit 8 (load_le32 p) AND 0xFF);
         term2 = drop_bit 16 (load_le32 p)
     in crc XOR term1
          XOR sctp_crc_tableil8_o40 ! unat (term2 AND 0xFF)
          XOR sctp_crc_tableil8_o32 ! unat (drop_bit 8 term2 AND 0xFF))"

fun sb8_rounds :: "nat \<Rightarrow> u32 \<Rightarrow> bytes \<Rightarrow> u32" where
  "sb8_rounds 0 crc p = crc"
| "sb8_rounds (Suc n) crc p = sb8_rounds n (sb8_round crc p) (drop 8 p)"

definition sctp_crc32c_sb8_64_bit :: "u32 \<Rightarrow> bytes \<Rightarrow> nat \<Rightarrow> nat \<Rightarrow> u32" where
  "sctp_crc32c_sb8_64_bit crc p_buf len offset =
    (let init_bytes = (4 - offset) mod 4;
         init_bytes = (if init_bytes > len then len else init_bytes);
         running_length = ((len - init_bytes) div 8) * 8;
         end_bytes = len - init_bytes - running_length;
         crc = sb8_bytes crc (take init_bytes p_buf);
         crc = sb8_rounds (running_length div 8) crc (drop init_bytes p_buf)
     in sb8_bytes crc (take end_bytes (drop (init_bytes + running_length) p_buf)))"

text \<open>The variant for a null buffer feeds zero bytes without reading any.\<close>

fun sb8_bytes_zero :: "nat \<Rightarrow> u32 \<Rightarrow> u32" where
  "sb8_bytes_zero 0 crc = crc"
| "sb8_bytes_zero (Suc n) crc =
     sb8_bytes_zero n (sctp_crc_tableil8_o32 ! unat (crc AND 0xFF) XOR drop_bit 8 crc)"

definition sb8_round_zero :: "u32 \<Rightarrow> u32" where
  "sb8_round_zero crc =
    (let term1 = sctp_crc_tableil8_o88 ! unat (crc AND 0xFF)
           XOR sctp_crc_tableil8_o80 ! unat (drop_bit 8 crc AND 0xFF);
         term2 = drop_bit 16 crc;
         crc = term1 XOR sctp_crc_tableil8_o72 ! unat (term2 AND 0xFF)
           XOR sctp_crc_tableil8_o64 ! unat (drop_bit 8 term2 AND 0xFF);
         term1 = sctp_crc_tableil8_o56 ! 0 XOR sctp_crc_tableil8_o48 ! 0;
         term2 = 0
     in crc XOR term1
          XOR sctp_crc_tableil8_o40 ! unat (term2 AND 0xFF :: u32)
          XOR sctp_crc_tableil8_o32 ! unat (drop_bit 8 term2 AND 0xFF))"

fun sb8_rounds_zero :: "nat \<Rightarrow> u32 \<Rightarrow> u32" where
  "sb8_rounds_zero 0 crc = crc"
| "sb8_rounds_zero (Suc n) crc = sb8_rounds_zero n (sb8_round_zero crc)"

definition sctp_crc32c_sb8_64_bit_zero :: "u32 \<Rightarrow> nat \<Rightarrow> nat \<Rightarrow> u32" where
  "sctp_crc32c_sb8_64_bit_zero crc len offset =
    (let init_bytes = (4 - offset) mod 4;
         init_bytes = (if init_bytes > len then len else init_bytes);
         running_length = ((len - init_bytes) div 8) * 8;
         end_bytes = len - init_bytes - running_length;
         crc = sb8_bytes_zero init_bytes crc;
         crc = sb8_rounds_zero (running_length div 8) crc
     in sb8_bytes_zero end_bytes crc)"

text \<open>
  A buffer argument is its address and the bytes readable from it; \<open>None\<close> is the null
  pointer, whose address is 0. \<^verbatim>\<open>length\<close> is an \<^verbatim>\<open>unsigned int\<close>.
\<close>

type_synonym crc_buffer = "(nat \<times> bytes) option"

definition update_crc32 :: "u32 \<Rightarrow> crc_buffer \<Rightarrow> nat \<Rightarrow> u32" where
  "update_crc32 crc32c buffer len =
    (if len = 0 then crc32c
     else case buffer of
       Some (addr, bs) \<Rightarrow> sctp_crc32c_sb8_64_bit crc32c bs len (addr mod 4)
     | None \<Rightarrow> sctp_crc32c_sb8_64_bit_zero crc32c len 0)"

definition crc32c_sctp :: "u32 \<Rightarrow> crc_buffer \<Rightarrow> nat \<Rightarrow> u32" where
  "crc32c_sctp crc data len = update_crc32 crc data len"

subsection \<open>Slicing agrees with the reference\<close>

lemma sb8_bytes_eq: "sb8_bytes crc p = crc_ref crc p"
  by (induction crc p rule: sb8_bytes.induct)
    (simp_all add: sctp_crc_tableil8_o32_bits table_step)

lemma sb8_bytes_zero_eq: "sb8_bytes_zero n crc = crc_ref crc (replicate n 0)"
proof (induction n crc rule: sb8_bytes_zero.induct)
  case (2 n crc)
  then show ?case
    using table_step [of crc 0] by (simp add: sctp_crc_tableil8_o32_bits)
qed simp

text \<open>A register value is the sum of its four bytes, each moved to the low end by clocks.\<close>

lemma crc_bits_push: "k + 8 \<le> 32 \<Longrightarrow> k \<le> n \<Longrightarrow>
    crc_bits n (push_bit k (ucast (b :: u8))) = crc_bits (n - k) (ucast b :: u32)"
proof -
  assume k: "k + 8 \<le> 32" "k \<le> n"
  have "crc_bits n (push_bit k (ucast b :: u32)) =
      crc_bits (n - k) (crc_bits k (push_bit k (ucast b)))"
    using crc_bits_add [of "n - k" k] k by simp
  also have "crc_bits k (push_bit k (ucast b :: u32)) = drop_bit k (push_bit k (ucast b))"
    by (rule crc_bits_shift) (simp add: bit_simps)
  also have "\<dots> = ucast b"
    by (rule bit_eqI) (use k in \<open>auto simp: bit_simps dest: bit_imp_le_length\<close>)
  finally show ?thesis .
qed

lemma crc_bits_four_bytes:
  fixes x :: u32 assumes "24 \<le> n"
  shows "crc_bits n x = crc_bits n (x AND 0xFF) XOR crc_bits (n - 8) (drop_bit 8 x AND 0xFF)
    XOR crc_bits (n - 16) (drop_bit 16 x AND 0xFF) XOR crc_bits (n - 24) (drop_bit 24 x AND 0xFF)"
proof -
  have m: "(0xFF :: u32) = mask 8" by (simp add: mask_eq_decr_exp)
  have b: "y AND 0xFF = ucast (ucast y :: u8)" for y :: u32
    by (rule bit_eqI) (auto simp: m bit_simps)
  have "x = (x AND 0xFF) XOR push_bit 8 (drop_bit 8 x AND 0xFF)
      XOR push_bit 16 (drop_bit 16 x AND 0xFF) XOR push_bit 24 (drop_bit 24 x AND 0xFF)"
    by (rule bit_eqI) (auto simp: m bit_simps)
  then have "crc_bits n x = crc_bits n ((x AND 0xFF) XOR push_bit 8 (drop_bit 8 x AND 0xFF)
      XOR push_bit 16 (drop_bit 16 x AND 0xFF) XOR push_bit 24 (drop_bit 24 x AND 0xFF))"
    by (rule arg_cong)
  then show ?thesis using assms by (simp add: crc_bits_xor b crc_bits_push)
qed

lemma crc_ref_4:
  "crc_ref c [b0, b1, b2, b3] = crc_bits 32 (c XOR load_le32 [b0, b1, b2, b3])"
  by (simp add: crc_byte_ref_def load_le32_def crc_bits_xor crc_bits_push
      crc_bits_add [symmetric] xor.assoc)

lemma crc_ref_4_list:
  assumes "4 \<le> length p"
  shows "crc_ref c (take 4 p) = crc_bits 32 (c XOR load_le32 p)"
proof -
  obtain b0 b1 b2 b3 q where "p = b0 # b1 # b2 # b3 # q"
    using assms by (auto simp: numeral_eq_Suc Suc_le_length_iff)
  then show ?thesis using crc_ref_4 [of c b0 b1 b2 b3] by (simp add: load_le32_def)
qed

lemma crc_bits_table_sums:
  "bits_table 64 ! unat (x AND 0xFF) XOR bits_table 56 ! unat (drop_bit 8 x AND 0xFF)
    XOR bits_table 48 ! unat (drop_bit 16 x AND 0xFF)
    XOR bits_table 40 ! unat (drop_bit 24 x AND 0xFF) = crc_bits 64 x"
  "bits_table 32 ! unat (x AND 0xFF) XOR bits_table 24 ! unat (drop_bit 8 x AND 0xFF)
    XOR bits_table 16 ! unat (drop_bit 16 x AND 0xFF)
    XOR bits_table 8 ! unat (drop_bit 24 x AND 0xFF) = crc_bits 32 x"
  using crc_bits_four_bytes [of 64 x] crc_bits_four_bytes [of 32 x] by simp_all

lemma sb8_round_eq:
  assumes "8 \<le> length p"
  shows "sb8_round crc p = crc_ref crc (take 8 p)"
proof -
  let ?x = "crc XOR load_le32 p" and ?y = "load_le32 (drop 4 p)"
  have "take 8 p = take 4 p @ take 4 (drop 4 p)"
    using take_add [of 4 4 p] by simp
  then have "crc_ref crc (take 8 p) = crc_bits 32 (crc_bits 32 ?x XOR ?y)"
    using assms by (simp add: crc_ref_append crc_ref_4_list)
  also have "\<dots> = crc_bits 64 ?x XOR crc_bits 32 ?y"
    using crc_bits_add [of 32 32 ?x] by (simp add: crc_bits_xor)
  also have "\<dots> = sb8_round crc p"
    unfolding sb8_round_def Let_def table_bits
    by (simp only: drop_bit_drop_bit xor.assoc crc_bits_table_sums [symmetric] arith_simps)
  finally show ?thesis by simp
qed

lemma sb8_rounds_eq: "8 * n \<le> length p \<Longrightarrow> sb8_rounds n crc p = crc_ref crc (take (8 * n) p)"
proof (induction n crc p rule: sb8_rounds.induct)
  case (2 n crc p)
  have "take (8 * Suc n) p = take 8 p @ take (8 * n) (drop 8 p)"
    using take_add [of 8 "8 * n" p] by simp
  with 2 show ?case by (simp add: sb8_round_eq crc_ref_append)
qed simp

lemma sb8_round_zero_eq: "sb8_round_zero crc = crc_ref crc (replicate 8 0)"
proof -
  have "sb8_round_zero crc = sb8_round crc (replicate 8 0)"
    by (simp add: sb8_round_zero_def sb8_round_def load_le32_def Let_def)
  then show ?thesis by (simp add: sb8_round_eq)
qed

lemma sb8_rounds_zero_eq: "sb8_rounds_zero n crc = crc_ref crc (replicate (8 * n) 0)"
proof (induction n crc rule: sb8_rounds_zero.induct)
  case (2 n crc)
  have "replicate (8 * Suc n) 0 = replicate 8 0 @ (replicate (8 * n) 0 :: bytes)"
    by (simp add: replicate_add [symmetric])
  with 2 show ?case by (simp add: sb8_round_zero_eq crc_ref_append)
qed simp

lemma split_lengths:
  fixes len :: nat assumes "i \<le> len"
  shows "i + (len - i) div 8 * 8 + (len - i - (len - i) div 8 * 8) = len"
    and "8 * ((len - i) div 8 * 8 div 8) = (len - i) div 8 * 8"
  using assms by simp_all

lemma sctp_sb8_eq:
  assumes "len \<le> length bs"
  shows "sctp_crc32c_sb8_64_bit crc bs len offset = crc_ref crc (take len bs)"
proof -
  define i where "i = (if (4 - offset) mod 4 > len then len else (4 - offset) mod 4)"
  define r where "r = (len - i) div 8 * 8"
  have i: "i \<le> len" by (simp add: i_def)
  have r: "i + r + (len - i - r) = len" "8 * (r div 8) = r" "(len - i) div 8 = r div 8"
    "r div 8 * 8 = r"
    using split_lengths [OF i] by (simp_all add: r_def)
  have "take len bs = take i bs @ take r (drop i bs) @ take (len - i - r) (drop (i + r) bs)"
    using take_add [of i "r + (len - i - r)" bs] take_add [of r "len - i - r" "drop i bs"] r
    by (simp add: add.assoc add.commute)
  moreover have "r \<le> length bs - i" using r assms by linarith
  ultimately show ?thesis
    by (simp add: r(2-) sctp_crc32c_sb8_64_bit_def Let_def sb8_bytes_eq sb8_rounds_eq
        crc_ref_append flip: i_def r_def)
qed

lemma sctp_sb8_zero_eq: "sctp_crc32c_sb8_64_bit_zero crc len offset = crc_ref crc (replicate len 0)"
proof -
  define i where "i = (if (4 - offset) mod 4 > len then len else (4 - offset) mod 4)"
  define r where "r = (len - i) div 8 * 8"
  have i: "i \<le> len" by (simp add: i_def)
  have r: "i + r + (len - i - r) = len" "8 * (r div 8) = r" "(len - i) div 8 = r div 8"
    "r div 8 * 8 = r"
    using split_lengths [OF i] by (simp_all add: r_def)
  have "replicate len 0 = replicate i 0 @ replicate r 0 @ (replicate (len - i - r) 0 :: bytes)"
    using r(1) by (simp add: replicate_add [symmetric] add.assoc)
  then show ?thesis
    by (simp add: r(2-) sctp_crc32c_sb8_64_bit_zero_def Let_def sb8_bytes_zero_eq
        sb8_rounds_zero_eq crc_ref_append flip: i_def r_def)
qed

subsection \<open>The contract of a CRC routine\<close>

text \<open>
  What callers of the function pointer \<^verbatim>\<open>crc32c_func\<close> rely on: the CRC of the first
  \<open>len\<close> bytes of a buffer wherever it is in memory, and the CRC of \<open>len\<close> zero bytes for
  the null pointer.
\<close>

locale crc32c_routine =
  fixes func :: "u32 \<Rightarrow> crc_buffer \<Rightarrow> nat \<Rightarrow> u32"
  assumes func_data: "len \<le> length bs \<Longrightarrow> func crc (Some (addr, bs)) len = crc_ref crc (take len bs)"
    and func_null: "func crc None len = crc_ref crc (replicate len 0)"
begin

text \<open>Feeding a buffer in two pieces is feeding it at once.\<close>

lemma func_split:
  "func (func crc (Some (a, xs)) (length xs)) (Some (b, ys)) (length ys)
    = func crc (Some (c, xs @ ys)) (length xs + length ys)"
  by (simp add: func_data crc_ref_append)

text \<open>The identity behind the CRC cache: a CRC for one initial value gives it for any other.\<close>

lemma func_adjust:
  assumes "len \<le> length bs"
  shows "func crc (Some (a, bs)) len XOR func (crc XOR crc') None len
    = func crc' (Some (b, bs)) len"
proof -
  have "crc_ref crc' (take len bs) =
      crc_ref crc (take len bs) XOR crc_ref (crc XOR crc') (replicate len 0)"
    using crc_ref_change_init [of crc "crc XOR crc'" "take len bs"] assms
    by (simp add: min_def)
  then show ?thesis using assms by (simp add: func_data func_null)
qed

end

interpretation sctp: crc32c_routine crc32c_sctp
  by unfold_locales
    (auto simp: crc32c_sctp_def update_crc32_def sctp_sb8_eq sctp_sb8_zero_eq)

text \<open>
  C8 (equivalence). The slicing-by-eight CRC equals the bit-serial CRC-32C register for
  every buffer, every length and every alignment of the buffer's address.
\<close>

theorem crc32c_sctp_is_crc32c:
  "len \<le> length bs \<Longrightarrow> crc32c_sctp crc (Some (addr, bs)) len = crc_ref crc (take len bs)"
  by (rule sctp.func_data)

theorem crc32c_sctp_is_crc32c_witness:
  "crc32c_sctp 0xFFFFFFFF (Some (3, [49, 50, 51, 52, 53, 54, 55, 56, 57])) 9 = 0x1CF96D7C"
proof -
  have "crc_ref 0xFFFFFFFF [49, 50, 51, 52, 53, 54, 55, 56, 57] = 0x1CF96D7C"
    by (simp add: crc_byte_ref_def crc_bits_8 crc_bit_def)
  then show ?thesis
    using crc32c_sctp_is_crc32c [of 9 "[49, 50, 51, 52, 53, 54, 55, 56, 57]" "0xFFFFFFFF" 3] by simp
qed

end
