(* ===== verification/Intarith.thy ===== *)
theory Intarith
  imports Prelude
begin

text \<open>
  The integer helpers of \<^verbatim>\<open>include/intarith.h\<close> and \<^verbatim>\<open>common/buffer/page.cc\<close>: rounding to a
  multiple (at \<^verbatim>\<open>uint64_t\<close>, the type every caller uses), alignment to a power of two,
  and bit counting. A division by zero is undefined, as in C++.
\<close>

unbundle bit_operations_syntax

subsection \<open>Rounding\<close>

definition div_round_up :: "nat \<Rightarrow> nat \<Rightarrow> exn + nat" where
  "div_round_up n d =
     (if d = 0 then Inl Undefined else Inr (sub64 (add64 n d) 1 div d))"

definition round_up_to :: "nat \<Rightarrow> nat \<Rightarrow> exn + nat" where
  "round_up_to n d =
     (if d = 0 then Inl Undefined
      else Inr (if n mod d \<noteq> 0 then sub64 (add64 n d) (n mod d) else n))"

text \<open>\<^verbatim>\<open>1 << y\<close> is an \<^verbatim>\<open>int\<close>: it is defined for shifts below 31 only.\<close>

definition shift_round_up :: "nat \<Rightarrow> nat \<Rightarrow> exn + nat" where
  "shift_round_up x y =
     (if 31 \<le> y then Inl Undefined else Inr (sub64 (add64 x (2 ^ y)) 1 div 2 ^ y))"

text \<open>The least multiple of \<open>d\<close> that is at least \<open>n\<close>.\<close>

definition ceil_multiple :: "nat \<Rightarrow> nat \<Rightarrow> nat" where
  "ceil_multiple n d = (if n mod d = 0 then n else n + (d - n mod d))"

lemma next_multiple:
  assumes "0 < (d::nat)"
  shows "n + (d - n mod d) = d * (n div d + 1)"
proof -
  have "n mod d < d" using assms by simp
  moreover have "n = d * (n div d) + n mod d" by simp
  ultimately have "n + (d - n mod d) = d * (n div d) + d" by linarith
  then show ?thesis by simp
qed

lemma ceil_multiple_props:
  assumes "0 < d"
  shows "n \<le> ceil_multiple n d" and "ceil_multiple n d < n + d"
    and "d dvd ceil_multiple n d" and "\<And>m. n \<le> m \<Longrightarrow> d dvd m \<Longrightarrow> ceil_multiple n d \<le> m"
proof -
  have lt: "n mod d < d" using assms by simp
  show "n \<le> ceil_multiple n d" by (simp add: ceil_multiple_def)
  show "ceil_multiple n d < n + d" using assms lt by (auto simp: ceil_multiple_def)
  have eq: "n + (d - n mod d) = d * (n div d + 1)"
    by (rule next_multiple [OF assms])
  show dv: "d dvd ceil_multiple n d"
    unfolding ceil_multiple_def eq by (auto simp: mod_eq_0_iff_dvd)
  fix m assume "n \<le> m" "d dvd m"
  show "ceil_multiple n d \<le> m"
  proof (cases "n mod d = 0")
    case True then show ?thesis using \<open>n \<le> m\<close> by (simp add: ceil_multiple_def)
  next
    case False
    obtain k where k: "m = d * k" using \<open>d dvd m\<close> by blast
    have "d * (n div d) < m" using \<open>n \<le> m\<close> False mult_div_mod_eq [of d n] by linarith
    then have "n div d < k" using k by simp
    then have "d * (n div d + 1) \<le> d * k" by (intro mult_le_mono) simp_all
    then show ?thesis using False eq k by (simp add: ceil_multiple_def)
  qed
qed

lemma round_up_to_eq:
  assumes "0 < d" "n + d < two64"
  shows "round_up_to n d = Inr (ceil_multiple n d)"
proof -
  have "n mod d < d" using assms by simp
  moreover have "sub64 (n + d) (n mod d) = n + d - n mod d"
    by (rule sub64_small) (use \<open>n mod d < d\<close> assms in linarith)+
  ultimately show ?thesis using assms by (simp add: round_up_to_def ceil_multiple_def add64_small)
qed

lemma div_round_up_eq:
  assumes "0 < d" "n + d < two64"
  shows "div_round_up n d = Inr (ceil_multiple n d div d)"
proof -
  have lt: "n mod d < d" using assms by simp
  have "(n + d - 1) div d = ceil_multiple n d div d"
  proof (cases "n mod d = 0")
    case True
    then obtain q where "n = d * q" by (metis dvd_def mod_eq_0_iff_dvd)
    moreover have "(d * q + d - 1) div d = q"
      using assms(1) by (simp add: div_nat_eqI)
    ultimately show ?thesis using assms(1) by (simp add: ceil_multiple_def)
  next
    case False
    have "n + (d - n mod d) = d * (n div d + 1)"
      by (rule next_multiple [OF assms(1)])
    moreover have "(n + d - 1) div d = n div d + 1"
    proof -
      have "n + d - 1 = d * (n div d + 1) + (n mod d - 1)"
        using False mod_less_eq_dividend [of n d] mult_div_mod_eq [of d n]
        by (simp only: distrib_left mult_1_right)
      moreover have "n mod d - 1 < d" using lt by simp
      ultimately show ?thesis by (simp only: div_mult_self4 div_less)
    qed
    ultimately show ?thesis using False assms(1) by (simp add: ceil_multiple_def)
  qed
  then show ?thesis using assms by (simp add: div_round_up_def arith64)
qed

text \<open>
  C29 (bounds). Without overflow \<^verbatim>\<open>round_up_to\<close> returns the least multiple of the divisor
  that is not below its argument, so an allocation rounded up never shrinks and never
  grows by a whole unit.
\<close>

theorem round_up_to_least_multiple:
  assumes "0 < d" "n + d < two64"
  shows "\<exists>r. round_up_to n d = Inr r \<and> n \<le> r \<and> r < n + d \<and> d dvd r \<and>
    (\<forall>m. n \<le> m \<and> d dvd m \<longrightarrow> r \<le> m)"
  using round_up_to_eq [OF assms] ceil_multiple_props [OF assms(1)] by auto

theorem round_up_to_least_multiple_witness:
  "\<exists>r. round_up_to 4097 4096 = Inr r \<and> 4097 \<le> r \<and> r < 4097 + 4096 \<and> 4096 dvd r \<and>
    (\<forall>m. 4097 \<le> m \<and> 4096 dvd m \<longrightarrow> r \<le> m)"
  by (rule round_up_to_least_multiple) (simp_all add: two64_def)

subsection \<open>Alignment to powers of two\<close>

definition isp2 :: "'a::len word \<Rightarrow> bool" where
  "isp2 x \<longleftrightarrow> x AND (x - 1) = 0"

definition p2align :: "'a::len word \<Rightarrow> 'a word \<Rightarrow> 'a word" where
  "p2align x align = x AND - align"

definition p2phase :: "'a::len word \<Rightarrow> 'a word \<Rightarrow> 'a word" where
  "p2phase x align = x AND (align - 1)"

definition p2nphase :: "'a::len word \<Rightarrow> 'a word \<Rightarrow> 'a word" where
  "p2nphase x align = (- x) AND (align - 1)"

definition p2roundup :: "'a::len word \<Rightarrow> 'a word \<Rightarrow> 'a word" where
  "p2roundup x align = - ((- x) AND - align)"

lemma p2phase_mask: "p2phase x (2 ^ k) = take_bit k (x :: 'a::len word)"
  by (simp add: p2phase_def take_bit_eq_mask mask_eq_decr_exp)

lemma p2align_plus_p2phase: "p2align x (2 ^ k) + p2phase x (2 ^ k) = (x :: 'a::len word)"
proof -
  have "p2align x (2 ^ k) = x AND NOT (mask k)"
    by (simp add: p2align_def minus_exp_eq_not_mask)
  moreover have "p2phase x (2 ^ k) = x AND mask k"
    by (simp add: p2phase_def mask_eq_decr_exp)
  moreover have "(x AND NOT (mask k)) + (x AND mask k) = x"
  proof -
    have "(x AND NOT (mask k)) + (x AND mask k) = (x AND NOT (mask k)) OR (x AND mask k)"
      by (rule disjunctive_add) (simp add: bit_simps)
    also have "\<dots> = x" by (rule bit_eqI) (auto simp: bit_simps)
    finally show ?thesis .
  qed
  ultimately show ?thesis by simp
qed

lemma p2align_eq: "p2align x (2 ^ k) = (x :: 'a::len word) - take_bit k x"
  using p2align_plus_p2phase [of x k] by (simp add: p2phase_mask eq_diff_eq)

lemma p2roundup_eq: "p2roundup x (2 ^ k) = (x :: 'a::len word) + take_bit k (- x)"
  using p2align_eq [of "- x" k] by (simp add: p2roundup_def p2align_def)

text \<open>
  For a power of two the bit tricks of \<^verbatim>\<open>intarith.h\<close> are division with
  remainder: \<^verbatim>\<open>p2align\<close> subtracts the remainder, \<^verbatim>\<open>p2phase\<close> is the remainder, and
  \<^verbatim>\<open>p2roundup\<close> adds what \<^verbatim>\<open>p2nphase\<close> says is missing.
\<close>

lemma p2_family_is_division:
  fixes x :: "'a::len word"
  shows "unat (p2phase x (2 ^ k)) = unat x mod 2 ^ k
    \<and> unat (p2align x (2 ^ k)) = unat x - unat x mod 2 ^ k
    \<and> p2roundup x (2 ^ k) = x + p2nphase x (2 ^ k)"
proof (intro conjI)
  have ph: "unat (take_bit k x) = unat x mod 2 ^ k"
    by (simp only: unsigned_take_bit_eq) (simp add: take_bit_eq_mod)
  show "unat (p2phase x (2 ^ k)) = unat x mod 2 ^ k" by (simp add: p2phase_mask ph)
  have "take_bit k x \<le> x" by (simp add: word_le_nat_alt ph)
  then show "unat (p2align x (2 ^ k)) = unat x - unat x mod 2 ^ k"
    by (simp add: p2align_eq unat_sub ph)
  have "p2nphase x (2 ^ k) = take_bit k (- x)"
    using p2phase_mask [of "- x" k] by (simp add: p2nphase_def p2phase_def)
  then show "p2roundup x (2 ^ k) = x + p2nphase x (2 ^ k)" by (simp add: p2roundup_eq)
qed

subsection \<open>Counting bits\<close>

text \<open>
  The compiler's \<^verbatim>\<open>__builtin_ctz\<close> and \<^verbatim>\<open>__builtin_clz\<close> count from the low and the high end
  of an \<^verbatim>\<open>unsigned\<close> (32 bits), the \<^verbatim>\<open>l\<close> variants of an \<^verbatim>\<open>unsigned long\<close> (64 bits). The
  overload for small types passes its argument to the 32-bit builtin.
\<close>

definition builtin_ctz :: "'a::len word \<Rightarrow> nat" where
  "builtin_ctz v = length (takeWhile (\<lambda>i. \<not> bit v i) [0..<LENGTH('a)])"

definition builtin_clz :: "'a::len word \<Rightarrow> nat" where
  "builtin_clz v = length (takeWhile (\<lambda>i. \<not> bit v (LENGTH('a) - 1 - i)) [0..<LENGTH('a)])"

definition ctz_small :: "'a::len word \<Rightarrow> nat" where
  "ctz_small v = (if v = 0 then LENGTH('a) else builtin_ctz (ucast v :: u32))"

definition ctz_long :: "u64 \<Rightarrow> nat" where
  "ctz_long v = (if v = 0 then 64 else builtin_ctz v)"

definition clz_small :: "'a::len word \<Rightarrow> nat" where
  "clz_small v = (if v = 0 then LENGTH('a) else builtin_clz (ucast v :: u32))"

definition clz_long :: "u64 \<Rightarrow> nat" where
  "clz_long v = (if v = 0 then 64 else builtin_clz v)"

text \<open>The result is \<^verbatim>\<open>unsigned\<close>: the subtraction wraps at 32 bits.\<close>

definition cbits_small :: "'a::len word \<Rightarrow> u32" where
  "cbits_small v =
     (if v = 0 then 0 else of_nat LENGTH('a) - of_nat (builtin_clz (ucast v :: u32)))"

definition cbits_long :: "u64 \<Rightarrow> u32" where
  "cbits_long v = (if v = 0 then 0 else 64 - of_nat (builtin_clz v))"

text \<open>\<^verbatim>\<open>spec_get_bits_of\<close> counts by shifting right until nothing is left.\<close>

lemma unat_shift1: "unat (drop_bit 1 v) = unat v div 2"
  by (simp only: unat_drop_bit_eq) (simp add: drop_bit_eq_div)

function spec_get_bits_loop :: "u64 \<Rightarrow> nat \<Rightarrow> nat" where
  "spec_get_bits_loop v n = (if v = 0 then n else spec_get_bits_loop (drop_bit 1 v) (Suc n))"
  by pat_completeness auto
termination
proof (relation "measure (\<lambda>(v, n). unat v)")
  fix v :: u64 and n :: nat
  assume "v \<noteq> 0"
  then have "0 < unat v" by (simp add: unat_gt_0)
  then have "unat v div 2 < unat v" by simp
  then show "((drop_bit 1 v, Suc n), v, n) \<in> measure (\<lambda>(v, n). unat v)"
    by (simp only: in_measure case_prod_conv unat_shift1)
qed simp

declare spec_get_bits_loop.simps [simp del]

definition spec_get_bits_of :: "u64 \<Rightarrow> nat" where
  "spec_get_bits_of v = spec_get_bits_loop v 0"

text \<open>The number of binary digits.\<close>

fun bit_length :: "nat \<Rightarrow> nat" where
  "bit_length n = (if n = 0 then 0 else Suc (bit_length (n div 2)))"

declare bit_length.simps [simp del]

lemma bit_length_bounds: "n < 2 ^ bit_length n \<and> (n \<noteq> 0 \<longrightarrow> 2 ^ (bit_length n - 1) \<le> n)"
proof (induction n rule: bit_length.induct)
  case (1 n)
  show ?case
  proof (cases "n < 2")
    case True
    then have "n = 0 \<or> n = 1" by auto
    moreover have "bit_length 0 = 0" "bit_length 1 = 1"
      by (simp_all add: bit_length.simps [of 0] bit_length.simps [of "Suc 0"])
    ultimately show ?thesis by auto
  next
    case False
    then have n2: "n div 2 \<noteq> 0" by auto
    then obtain k where k: "bit_length (n div 2) = Suc k"
      by (subst (asm) bit_length.simps [of "n div 2"]) (metis bit_length.simps)
    have bl: "bit_length n = Suc (Suc k)" using False k by (simp add: bit_length.simps [of n])
    have "n div 2 < 2 ^ Suc k" "2 ^ k \<le> n div 2"
      using "1.IH" False n2 k by auto
    then show ?thesis unfolding bl by simp arith
  qed
qed

lemma spec_get_bits_loop_eq: "spec_get_bits_loop v n = bit_length (unat v) + n"
proof (induction v n rule: spec_get_bits_loop.induct)
  case (1 v n)
  show ?case
  proof (cases "v = 0")
    case True
    then show ?thesis by (simp add: spec_get_bits_loop.simps [of 0] bit_length.simps [of 0])
  next
    case False
    then have "unat v \<noteq> 0" by (simp add: unat_eq_zero)
    with 1 False show ?thesis
      by (simp add: spec_get_bits_loop.simps [of v] bit_length.simps [of "unat v"]
          unat_shift1 del: One_nat_def)
  qed
qed

text \<open>
  The shift loop of \<^verbatim>\<open>spec_get_bits_of\<close> returns, and what it returns is
  the number of binary digits: for the page size minus one this is the page shift.
\<close>

lemma spec_get_bits_of_digits:
  "unat v < 2 ^ spec_get_bits_of v \<and> (v \<noteq> 0 \<longrightarrow> 2 ^ (spec_get_bits_of v - 1) \<le> unat v)"
  using bit_length_bounds [of "unat v"]
  by (auto simp: spec_get_bits_of_def spec_get_bits_loop_eq unat_eq_zero)

lemma spec_get_bits_of_digits_witness:
  "unat (4095 :: u64) < 2 ^ spec_get_bits_of 4095 \<and>
   (2 :: nat) ^ (spec_get_bits_of 4095 - 1) \<le> unat (4095 :: u64)"
  using spec_get_bits_of_digits [of 4095] by simp

end
