(* ===== verification/Crc32c.thy ===== *)
theory Crc32c
  imports Crc32c_Sctp Intarith
begin

text \<open>
  The entry points of \<^verbatim>\<open>common/crc32/crc32c.cc\<close>, \<^verbatim>\<open>include/crc32/crc32c.h\<close>,
  \<^verbatim>\<open>crc32c_intel_baseline.c\<close> and \<^verbatim>\<open>crc32c_intel_fast.c\<close>: the choice of a routine, the
  logarithmic CRC of a run of zeros with its table, and \<^verbatim>\<open>spec_crc32c\<close>. The two assembly
  routines are parameters.
\<close>

unbundle bit_operations_syntax

subsection \<open>The byte-table baseline\<close>

definition baseline_index :: "u32 \<Rightarrow> u8 \<Rightarrow> nat" where
  "baseline_index crc b = unat ((crc AND 0xFF) XOR ucast b)"

fun baseline_bytes :: "u32 \<Rightarrow> bytes \<Rightarrow> u32" where
  "baseline_bytes crc [] = crc"
| "baseline_bytes crc (b # p) =
     baseline_bytes (ucast (ucast (drop_bit 8 crc)
       XOR crc32_table_iscsi_base ! baseline_index crc b)) p"

fun baseline_zeros :: "nat \<Rightarrow> u32 \<Rightarrow> u32" where
  "baseline_zeros 0 crc = crc"
| "baseline_zeros (Suc n) crc =
     baseline_zeros n (ucast (ucast (drop_bit 8 crc)
       XOR crc32_table_iscsi_base ! unat (crc AND 0xFF)))"

definition crc32c_intel_baseline :: "u32 \<Rightarrow> crc_buffer \<Rightarrow> nat \<Rightarrow> u32" where
  "crc32c_intel_baseline crc_init buffer len =
    (case buffer of
       Some (addr, bs) \<Rightarrow> baseline_bytes crc_init (take len bs)
     | None \<Rightarrow> baseline_zeros len crc_init)"

lemma length_iscsi_base [simp]: "length crc32_table_iscsi_base = 256"
  by (simp add: crc32_table_iscsi_base_def)

lemma nth_iscsi_base:
  "unat (x :: u32) < 256 \<Longrightarrow> ucast (crc32_table_iscsi_base ! unat x) = crc_bits 8 x"
  using nth_bits_table [of x 8]
  by (simp flip: crc32_table_iscsi_base_bits)

lemma ucast_xor64: "(ucast ((ucast a :: u64) XOR b) :: u32) = a XOR ucast b"
  by (rule bit_eqI) (auto simp: bit_simps)

lemma baseline_index_eq: "baseline_index crc b = unat ((crc XOR ucast b) AND 0xFF)"
proof -
  have "(crc AND 0xFF) XOR ucast b = (crc XOR ucast b) AND 0xFF"
    by (rule bit_eqI, simp only: bit_xor_iff bit_and_iff bit_low_byte_mask bit_ucast_iff)
      (auto dest: bit_imp_le_length)
  then show ?thesis by (simp add: baseline_index_def)
qed

lemma baseline_step:
  "ucast (ucast (drop_bit 8 crc) XOR crc32_table_iscsi_base ! baseline_index crc b)
    = crc_byte_ref crc b"
  using table_step [of crc b]
  by (simp only: ucast_xor64 baseline_index_eq nth_iscsi_base [OF unat_low_byte] xor.commute)

lemma baseline_bytes_eq: "baseline_bytes crc p = crc_ref crc p"
  by (induction crc p rule: baseline_bytes.induct) (simp_all only: baseline_bytes.simps
      baseline_step crc_ref_Nil crc_ref_Cons)

lemma baseline_zeros_eq: "baseline_zeros n crc = crc_ref crc (replicate n 0)"
proof (induction n crc rule: baseline_zeros.induct)
  case (2 n crc)
  have "baseline_index crc 0 = unat (crc AND 0xFF)" by (simp add: baseline_index_def)
  then show ?case using 2 baseline_step [of crc 0] by simp
qed simp

interpretation baseline: crc32c_routine crc32c_intel_baseline
  by unfold_locales
    (simp_all add: crc32c_intel_baseline_def baseline_bytes_eq baseline_zeros_eq)

text \<open>
  The two software routines, slicing by eight and byte table, return the
  same CRC for every input, null buffers included, so the probing of the processor never
  changes a checksum.
\<close>

lemma sctp_equals_baseline:
  assumes "case data of None \<Rightarrow> True | Some (addr, bs) \<Rightarrow> len \<le> length bs"
  shows "crc32c_sctp crc data len = crc32c_intel_baseline crc data len"
  using assms by (cases data) (auto simp: sctp.func_data sctp.func_null
      baseline.func_data baseline.func_null)

lemma sctp_equals_baseline_witness:
  "crc32c_sctp 7 (Some (5, [1, 2, 3])) 2 = crc32c_intel_baseline 7 (Some (5, [1, 2, 3])) 2"
  by (rule sctp_equals_baseline) simp

subsection \<open>The assembly-backed routine\<close>

text \<open>
  \<^verbatim>\<open>crc32c_intel_fast\<close> hands the assembly whole words up to the last 8-byte boundary of
  the buffer's address and finishes with the baseline. \<open>iscsi_00\<close> and \<open>iscsi_zero_00\<close>
  stand for \<^verbatim>\<open>crc32_iscsi_00\<close> and \<^verbatim>\<open>crc32_iscsi_zero_00\<close> (buffer, length, register).
\<close>

definition crc32c_intel_fast ::
    "(nat \<times> bytes \<Rightarrow> nat \<Rightarrow> u32 \<Rightarrow> u32) \<Rightarrow> (nat \<Rightarrow> u32 \<Rightarrow> u32) \<Rightarrow>
     u32 \<Rightarrow> crc_buffer \<Rightarrow> nat \<Rightarrow> u32" where
  "crc32c_intel_fast iscsi_00 iscsi_zero_00 crc buffer len =
    (case buffer of
       None \<Rightarrow> iscsi_zero_00 len crc
     | Some (addr, bs) \<Rightarrow>
         if len < 16 then crc32c_intel_baseline crc buffer len
         else
           let left = (addr + len) mod 8;
               len = len - left;
               v = iscsi_00 (addr, bs) len crc
           in if left \<noteq> 0
              then crc32c_intel_baseline v (Some (addr + len, drop len bs)) left
              else v)"

text \<open>
  What the code relies on the assembly for. It reads whole words, so \<open>crc32_iscsi_00\<close> is trusted only
  with at least nine bytes that end on a word boundary; for anything else it may give any result.
\<close>

definition asm_ok :: "(nat \<times> bytes \<Rightarrow> nat \<Rightarrow> u32 \<Rightarrow> u32) \<Rightarrow> (nat \<Rightarrow> u32 \<Rightarrow> u32) \<Rightarrow> bool" where
  "asm_ok iscsi_00 iscsi_zero_00 \<longleftrightarrow>
    (\<forall>a bs n c. 8 < n \<longrightarrow> n \<le> length bs \<longrightarrow> (a + n) mod 8 = 0 \<longrightarrow> iscsi_00 (a, bs) n c = crc_ref c (take n bs)) \<and>
    (\<forall>n c. iscsi_zero_00 n c = crc_ref c (replicate n 0))"

lemma asm_okD:
  assumes "asm_ok iscsi_00 iscsi_zero_00"
  shows "8 < n \<Longrightarrow> n \<le> length bs \<Longrightarrow> (a + n) mod 8 = 0 \<Longrightarrow> iscsi_00 (a, bs) n c = crc_ref c (take n bs)"
    "iscsi_zero_00 n c = crc_ref c (replicate n 0)"
  using assms by (simp_all add: asm_ok_def)

text \<open>The split at the last word boundary.\<close>

lemma word_split:
  fixes addr len :: nat
  defines "n \<equiv> len - (addr + len) mod 8"
  assumes "16 \<le> len"
  shows "8 < n" "n + (addr + len) mod 8 = len" "(addr + n) mod 8 = 0"
proof -
  have m: "(addr + len) mod 8 < 8" by simp
  then show "8 < n" "n + (addr + len) mod 8 = len" using assms(2) unfolding n_def by linarith+
  have "addr + n = addr + len - (addr + len) mod 8" using m assms(2) unfolding n_def by linarith
  then show "(addr + n) mod 8 = 0" by simp
qed

lemma fast_data:
  assumes "asm_ok iscsi_00 iscsi_zero_00" "len \<le> length bs"
  shows "crc32c_intel_fast iscsi_00 iscsi_zero_00 crc (Some (addr, bs)) len = crc_ref crc (take len bs)"
proof (cases "len < 16")
  case True
  then show ?thesis using assms(2) by (simp add: crc32c_intel_fast_def baseline.func_data)
next
  case False
  define left where "left = (addr + len) mod 8"
  define n where "n = len - left"
  have split: "8 < n" "n + left = len" "(addr + n) mod 8 = 0"
    using word_split [of len addr] False unfolding n_def left_def by simp_all
  have asm: "iscsi_00 (addr, bs) n crc = crc_ref crc (take n bs)"
    by (rule asm_okD(1) [OF assms(1) split(1) _ split(3)]) (use split(2) assms(2) in linarith)
  have rest: "left \<le> length (drop n bs)" using split(2) assms(2) by simp
  have "take len bs = take n bs @ take left (drop n bs)" using take_add [of n left bs] split(2) by simp
  then have fed: "crc_ref crc (take len bs) = crc_ref (crc_ref crc (take n bs)) (take left (drop n bs))"
    by (simp add: crc_ref_append)
  show ?thesis
  proof (cases "left = 0")
    case True
    then show ?thesis using False asm split(2) by (simp add: crc32c_intel_fast_def left_def)
  next
    case left: False
    have "crc32c_intel_fast iscsi_00 iscsi_zero_00 crc (Some (addr, bs)) len =
        crc32c_intel_baseline (iscsi_00 (addr, bs) n crc) (Some (addr + n, drop n bs)) left"
      using False left by (simp add: crc32c_intel_fast_def Let_def flip: left_def n_def)
    then show ?thesis unfolding asm fed baseline.func_data [OF rest] .
  qed
qed

lemma fast_null:
  "asm_ok iscsi_00 iscsi_zero_00 \<Longrightarrow>
    crc32c_intel_fast iscsi_00 iscsi_zero_00 crc None len = crc_ref crc (replicate len 0)"
  by (simp add: crc32c_intel_fast_def asm_okD(2))

text \<open>So it is one of the routines the rest relies on.\<close>

lemma fast_routine: "asm_ok iscsi_00 iscsi_zero_00 \<Longrightarrow> crc32c_routine (crc32c_intel_fast iscsi_00 iscsi_zero_00)"
  by unfold_locales (simp_all add: fast_data fast_null)

text \<open>
  C28 (refinement). The routine around the assembly computes the CRC of its bytes for every length
  and alignment, and of as many zeros where the buffer is null, although the assembly itself is
  trusted only with at least nine bytes that end on a word boundary: every call keeps to that,
  and the split loses and repeats no byte.
\<close>

theorem crc32c_intel_fast_correct:
  assumes "asm_ok iscsi_00 iscsi_zero_00" "len \<le> length bs"
  shows "crc32c_intel_fast iscsi_00 iscsi_zero_00 crc (Some (addr, bs)) len = crc_ref crc (take len bs) \<and>
    crc32c_intel_fast iscsi_00 iscsi_zero_00 crc None zeros = crc_ref crc (replicate zeros 0)"
  using fast_data [OF assms] fast_null [OF assms(1)] by simp

text \<open>An assembly that answers 0 whenever it is not to be trusted.\<close>

definition wary_iscsi_00 :: "nat \<times> bytes \<Rightarrow> nat \<Rightarrow> u32 \<Rightarrow> u32" where
  "wary_iscsi_00 b n c = (if 8 < n \<and> (fst b + n) mod 8 = 0 then crc_ref c (take n (snd b)) else 0)"

theorem crc32c_intel_fast_correct_witness:
  "crc32c_intel_fast wary_iscsi_00 (\<lambda>n c. crc_ref c (replicate n 0)) 0 (Some (3, replicate 20 1)) 18
      = crc_ref 0 (take 18 (replicate 20 1)) \<and>
    crc32c_intel_fast wary_iscsi_00 (\<lambda>n c. crc_ref c (replicate n 0)) 0 None 20 = crc_ref 0 (replicate 20 0)"
  by (rule crc32c_intel_fast_correct) (simp_all add: asm_ok_def wary_iscsi_00_def)

text \<open>The routine is chosen once, from the processor's SSE 4.2 flag and the build.\<close>

definition choose_crc32 ::
    "bool \<Rightarrow> bool \<Rightarrow> (u32 \<Rightarrow> crc_buffer \<Rightarrow> nat \<Rightarrow> u32) \<Rightarrow> u32 \<Rightarrow> crc_buffer \<Rightarrow> nat \<Rightarrow> u32" where
  "choose_crc32 arch_intel_sse42 crc32c_intel_fast_exists fast =
     (if arch_intel_sse42 \<and> crc32c_intel_fast_exists then fast else crc32c_sctp)"

lemma choose_crc32_routine:
  "crc32c_routine fast \<Longrightarrow> crc32c_routine (choose_crc32 sse exists fast)"
  by (simp add: choose_crc32_def sctp.crc32c_routine_axioms)

subsection \<open>Runs of zeros\<close>

text \<open>
  The inner loop of \<^verbatim>\<open>crc32c_zeros\<close>: the sum of the row's entries at the set bits of the
  register. Reading past the row's end would be undefined; it is \<open>None\<close> here.
\<close>

fun turbo_apply :: "u32 list \<Rightarrow> u32 \<Rightarrow> u32 \<Rightarrow> u32 option" where
  "turbo_apply [] crc_initial crc1 = (if crc_initial = 0 then Some crc1 else None)"
| "turbo_apply (p # ptr) crc_initial crc1 =
     (if crc_initial = 0 then Some crc1
      else let mask = NOT ((crc_initial AND 1) - 1)
           in turbo_apply ptr (drop_bit 1 crc_initial) (crc1 XOR (mask AND p)))"

fun zeros_loop :: "nat \<Rightarrow> nat \<Rightarrow> u32 \<Rightarrow> u32 option" where
  "zeros_loop rng len crc_initial =
    (if len = 0 then Some crc_initial
     else case (if len mod 2 = 1
                then if rng < length crc_turbo_table
                     then turbo_apply (crc_turbo_table ! rng) crc_initial 0
                     else None
                else Some crc_initial) of
            None \<Rightarrow> None
          | Some crc \<Rightarrow> zeros_loop (rng + 1) (len div 2) crc)"

declare zeros_loop.simps [simp del]

text \<open>
  \<^verbatim>\<open>spec_crc32c\<close> and \<^verbatim>\<open>crc32c_zeros\<close> call each other: long runs of zeros go to the table,
  which hands its remainder below 16 back.
\<close>

function spec_crc32c :: "(u32 \<Rightarrow> crc_buffer \<Rightarrow> nat \<Rightarrow> u32) \<Rightarrow> u32 \<Rightarrow> crc_buffer \<Rightarrow> nat \<Rightarrow> u32 option"
  and crc32c_zeros :: "(u32 \<Rightarrow> crc_buffer \<Rightarrow> nat \<Rightarrow> u32) \<Rightarrow> u32 \<Rightarrow> nat \<Rightarrow> u32 option" where
  "spec_crc32c func crc data len =
    (if data = None \<and> len > 16 then crc32c_zeros func crc len
     else Some (func crc data len))"
| "crc32c_zeros func crc_initial len =
    (let remainder = len mod 16
     in case zeros_loop 4 (len div 16) crc_initial of
          None \<Rightarrow> None
        | Some crc \<Rightarrow>
            if remainder > 0 then spec_crc32c func crc None remainder else Some crc)"
  by pat_completeness auto
termination
  by (relation "measure (case_sum (\<lambda>(func, crc, data, len). if len > 16 then 2 else 0)
      (\<lambda>(func, crc, len). 1))") auto

declare spec_crc32c.simps [simp del] crc32c_zeros.simps [simp del]

subsection \<open>What the rows of the table hold\<close>

text \<open>Row \<open>r\<close> is the effect of \<open>2 ^ r\<close> zero bytes on each bit of the register.\<close>

definition bits_row :: "nat \<Rightarrow> u32 list" where
  "bits_row n = map (\<lambda>j. crc_bits n (2 ^ j)) [0..<32]"

fun xor_sel :: "u32 list \<Rightarrow> u32 \<Rightarrow> nat \<Rightarrow> u32 \<Rightarrow> u32" where
  "xor_sel [] x i acc = acc"
| "xor_sel (p # ps) x i acc = xor_sel ps x (Suc i) (if bit x i then acc XOR p else acc)"

lemma turbo_shape: "length crc_turbo_table = 32" "list_all (\<lambda>row. length row = 32) crc_turbo_table"
  by (simp_all add: crc_turbo_table_def)

lemma turbo_first: "last (crc_turbo_table ! 0) = crc_bits 8 (2 ^ 31)"
  by (simp add: crc_turbo_table_def crc_bits_8 crc_bit_def)

lemma turbo_chains: "list_all (successively (\<lambda>a b. crc_bit b = a)) crc_turbo_table"
  by (simp add: crc_turbo_table_def crc_bit_def)

lemma turbo_next: "successively (\<lambda>r r'. xor_sel r (last r) 0 0 = last r') crc_turbo_table"
  by (simp add: crc_turbo_table_def)

lemma push_drop_step:
  "push_bit i (drop_bit i x) =
    (if bit x i then 2 ^ i else 0) XOR push_bit (Suc i) (drop_bit (Suc i) (x :: u32))"
proof (rule bit_eqI)
  fix n
  consider "n < i" | "n = i" | "i < n" by linarith
  then show "bit (push_bit i (drop_bit i x)) n =
      bit ((if bit x i then 2 ^ i else 0) XOR push_bit (Suc i) (drop_bit (Suc i) x)) n"
    by cases (auto simp: bit_simps simp del: push_bit_Suc dest: bit_imp_le_length)
qed

lemma xor_sel_row:
  fixes f :: "u32 \<Rightarrow> u32"
  assumes lin: "\<And>x y. f (x XOR y) = f x XOR f y" and zero: "f 0 = 0" and "i \<le> 32"
  shows "xor_sel (map (\<lambda>j. f (2 ^ j)) [i..<32]) x i acc = acc XOR f (push_bit i (drop_bit i x))"
  using \<open>i \<le> 32\<close>
proof (induction i arbitrary: acc rule: inc_induct)
  case base
  have "drop_bit 32 x = 0" by (rule bit_eqI) (auto simp: bit_simps dest: bit_imp_le_length)
  then show ?case by (simp add: zero)
next
  case (step i)
  then show ?case
    by (simp add: upt_conv_Cons push_drop_step [of i x] lin zero xor.assoc del: upt_Suc)
qed

lemma turbo_apply_row:
  fixes f :: "u32 \<Rightarrow> u32"
  assumes lin: "\<And>x y. f (x XOR y) = f x XOR f y" and zero: "f 0 = 0" and "i \<le> 32"
  shows "turbo_apply (map (\<lambda>j. f (2 ^ j)) [i..<32]) (drop_bit i x) acc
    = Some (acc XOR f (push_bit i (drop_bit i x)))"
  using \<open>i \<le> 32\<close>
proof (induction i arbitrary: acc rule: inc_induct)
  case base
  have "drop_bit 32 x = 0" by (rule bit_eqI) (auto simp: bit_simps dest: bit_imp_le_length)
  then show ?case by (simp add: zero)
next
  case (step i)
  have "(drop_bit i x) AND 1 = (if bit x i then 1 else 0)"
    by (rule bit_eqI) (auto simp: bit_simps intro: gr0I)
  moreover have "drop_bit 1 (drop_bit i x) = drop_bit (Suc i) x"
    by (simp add: drop_bit_drop_bit)
  ultimately have next_bit: "drop_bit i x \<noteq> 0 \<Longrightarrow>
      turbo_apply (map (\<lambda>j. f (2 ^ j)) [i..<32]) (drop_bit i x) acc =
      turbo_apply (map (\<lambda>j. f (2 ^ j)) [Suc i..<32]) (drop_bit (Suc i) x)
        (acc XOR (if bit x i then f (2 ^ i) else 0))"
    using step.hyps by (simp add: upt_conv_Cons Let_def del: upt_Suc)
  show ?case
  proof (cases "drop_bit i x = 0")
    case True
    then show ?thesis using step.hyps by (simp add: upt_conv_Cons zero del: upt_Suc)
  next
    case False
    have "f (push_bit i (drop_bit i x)) =
        (if bit x i then f (2 ^ i) else 0) XOR f (push_bit (Suc i) (drop_bit (Suc i) x))"
      by (simp add: push_drop_step [of i x] lin zero del: push_bit_Suc)
    then show ?thesis
      by (simp add: next_bit [OF False] step.IH xor.assoc del: push_bit_Suc)
  qed
qed

lemma crc_bits_bit: "crc_bits n (crc_bit c) = crc_bit (crc_bits n c)"
  by (simp add: crc_bits_def funpow_swap1)

lemma crc_bit_power: "Suc j < 32 \<Longrightarrow> crc_bit (2 ^ Suc j) = 2 ^ j"
proof -
  assume "Suc j < 32"
  then have "drop_bit 1 (2 ^ Suc j :: u32) = 2 ^ j"
    by (intro bit_eqI) (auto simp: bit_simps)
  moreover have "\<not> bit (2 ^ Suc j :: u32) 0" by (simp add: bit_simps)
  ultimately show ?thesis by (simp add: crc_bit_def del: power_Suc)
qed

lemma chain_row:
  assumes len: "length row = 32" and chain: "successively (\<lambda>a b. crc_bit b = a) row"
    and last: "last row = crc_bits n (2 ^ 31)"
  shows "row = bits_row n"
proof (rule nth_equalityI)
  show "length row = length (bits_row n)" by (simp add: len bits_row_def)
  have down_row: "row ! (31 - k) = crc_bits n (2 ^ (31 - k))" if "k \<le> 31" for k
    using that
  proof (induction k)
    case 0
    have "row \<noteq> []" using len by auto
    then show ?case using last len by (simp add: last_conv_nth)
  next
    case (Suc k)
    then have j: "31 - k = Suc (31 - Suc k)" by simp
    have "row ! (31 - Suc k) = crc_bit (row ! Suc (31 - Suc k))"
      using chain len Suc.prems by (auto simp: successively_conv_nth)
    also have "\<dots> = crc_bits n (crc_bit (2 ^ Suc (31 - Suc k)))"
      using Suc.IH Suc.prems unfolding j by (simp only: crc_bits_bit)
    also have "\<dots> = crc_bits n (2 ^ (31 - Suc k))" by (subst crc_bit_power) simp_all
    finally show ?case .
  qed
  show "row ! i = bits_row n ! i" if "i < length row" for i
    using down_row [of "31 - i"] that len by (simp add: bits_row_def)
qed

lemma turbo_row_props:
  assumes "r < 32"
  shows "length (crc_turbo_table ! r) = 32"
    and "successively (\<lambda>a b. crc_bit b = a) (crc_turbo_table ! r)"
  using assms turbo_shape turbo_chains by (auto simp: list_all_length)

lemma turbo_row: "r < 32 \<Longrightarrow> crc_turbo_table ! r = bits_row (8 * 2 ^ r)"
proof (induction r)
  case 0
  show ?case
    by (rule chain_row) (simp_all add: turbo_row_props turbo_first [simplified])
next
  case (Suc r)
  let ?n = "8 * 2 ^ r :: nat"
  have row: "crc_turbo_table ! r = bits_row ?n" using Suc by simp
  have "last (crc_turbo_table ! Suc r) = xor_sel (bits_row ?n) (last (bits_row ?n)) 0 0"
    using turbo_next Suc.prems turbo_shape(1) by (auto simp: successively_conv_nth row [symmetric])
  also have "\<dots> = crc_bits ?n (last (bits_row ?n))"
    using xor_sel_row [of "crc_bits ?n" 0] by (simp add: bits_row_def crc_bits_xor)
  also have "last (bits_row ?n) = crc_bits ?n (2 ^ 31)"
    by (simp add: bits_row_def last_map)
  also have "crc_bits ?n (crc_bits ?n (2 ^ 31)) = crc_bits (8 * 2 ^ Suc r) (2 ^ 31)"
    by (simp only: crc_bits_add [symmetric]) (simp add: mult_2_right)
  finally show ?case
    using Suc.prems by (intro chain_row) (simp_all add: turbo_row_props)
qed

lemma turbo_apply_bits: "r < 32 \<Longrightarrow> turbo_apply (crc_turbo_table ! r) crc 0 = Some (crc_bits (8 * 2 ^ r) crc)"
  using turbo_apply_row [of "crc_bits (8 * 2 ^ r)" 0 crc 0]
  by (simp add: turbo_row bits_row_def crc_bits_xor)

lemma zeros_loop_eq:
  "len * 2 ^ rng < 2 ^ 32 \<Longrightarrow> zeros_loop rng len crc = Some (crc_bits (8 * (2 ^ rng * len)) crc)"
proof (induction rng len crc rule: zeros_loop.induct)
  case (1 rng len crc)
  show ?case
  proof (cases "len = 0")
    case True
    then show ?thesis by (simp add: zeros_loop.simps [of rng])
  next
    case False
    then have "(2::nat) ^ rng \<le> len * 2 ^ rng" by simp
    then have "(2::nat) ^ rng < 2 ^ 32" using 1(2) by (rule le_less_trans)
    then have rng: "rng < 32" by (rule power_less_imp_less_exp [rotated]) simp
    let ?c = "if len mod 2 = 1 then crc_bits (8 * 2 ^ rng) crc else crc"
    have "len div 2 * 2 * 2 ^ rng \<le> len * 2 ^ rng" by (intro mult_le_mono1) simp
    then have small: "len div 2 * 2 ^ (rng + 1) < 2 ^ 32"
      using 1(2) by (simp only: power_add power_one_right mult.assoc mult.commute [of _ 2]
          mult.left_commute)
    have IH: "zeros_loop (rng + 1) (len div 2) ?c
        = Some (crc_bits (8 * (2 ^ (rng + 1) * (len div 2))) ?c)"
      by (rule 1(1) [OF False _ small]) (simp add: turbo_shape rng turbo_apply_bits)
    have "crc_bits (8 * (2 ^ (rng + 1) * (len div 2))) ?c = crc_bits (8 * (2 ^ rng * len)) crc"
    proof (cases "len mod 2 = 1")
      case True
      have "2 ^ rng * len = 2 ^ (rng + 1) * (len div 2) + 2 ^ rng"
        using True mult_div_mod_eq [of 2 len]
        by (metis mult.assoc distrib_left mult.right_neutral power_add power_one_right)
      then show ?thesis using True
        by (simp only: refl if_True crc_bits_add [symmetric] distrib_left)
    next
      case False
      then have "len = 2 * (len div 2)" by presburger
      then have "2 ^ rng * len = 2 ^ (rng + 1) * (len div 2)"
        by (metis mult.assoc power_add power_one_right)
      then show ?thesis using False by (simp only: if_False)
    qed
    then show ?thesis
      using False IH by (auto simp: zeros_loop.simps [of rng len] turbo_shape rng turbo_apply_bits
          simp del: power_Suc split: if_splits)
  qed
qed

context crc32c_routine
begin

lemma zeros_correct:
  assumes "len < 2 ^ 32"
  shows "crc32c_zeros func crc len = Some (crc_ref crc (replicate len 0))"
proof -
  have "len div 16 * 2 ^ 4 < 2 ^ 32"
    using assms le_less_trans [of "len div 16 * 16" len] by simp
  then have loop: "zeros_loop 4 (len div 16) crc = Some (crc_bits (8 * (16 * (len div 16))) crc)"
    by (subst zeros_loop_eq) simp_all
  have "spec_crc32c func c None (len mod 16) = Some (crc_bits (8 * (len mod 16)) c)" for c
  proof -
    have "\<not> 16 < len mod 16" by (simp add: not_less less_imp_le)
    then show ?thesis by (simp add: spec_crc32c.simps func_null crc_ref_zeros)
  qed
  moreover have "crc_bits (8 * (len mod 16)) (crc_bits (8 * (16 * (len div 16))) crc)
      = crc_bits (8 * len) crc"
    by (simp only: crc_bits_add [symmetric] distrib_left [symmetric]) simp
  moreover have "crc_bits (8 * (16 * (len div 16))) crc = crc_bits (8 * len) crc"
    if "len mod 16 = 0"
    using that by (metis add.right_neutral mult_div_mod_eq)
  ultimately show ?thesis
    by (simp add: crc32c_zeros.simps loop Let_def crc_ref_zeros)
qed

lemma spec_crc32c_data:
  "len \<le> length bs \<Longrightarrow> spec_crc32c func crc (Some (addr, bs)) len = Some (crc_ref crc (take len bs))"
  by (simp add: spec_crc32c.simps func_data)

lemma spec_crc32c_null:
  "len < 2 ^ 32 \<Longrightarrow> spec_crc32c func crc None len = Some (crc_ref crc (replicate len 0))"
  by (simp add: spec_crc32c.simps zeros_correct func_null)

end

text \<open>
  C27 (functional). The logarithmic \<^verbatim>\<open>crc32c_zeros\<close> returns, never reads outside its table,
  and gives the CRC of a buffer of that many zero bytes, for every 32-bit length.
\<close>

theorem crc32c_zeros_correct:
  "len < 2 ^ 32 \<Longrightarrow> crc32c_zeros crc32c_sctp crc len
    = Some (crc32c_sctp crc (Some (addr, replicate len 0)) len)"
  by (simp add: sctp.zeros_correct sctp.func_data)

theorem crc32c_zeros_correct_witness:
  "crc32c_zeros crc32c_sctp 0xDEADBEEF 1000000
    = Some (crc32c_sctp 0xDEADBEEF (Some (64, replicate 1000000 0)) 1000000)"
  by (rule crc32c_zeros_correct) simp

end
