(* ===== verification/Mempool.thy ===== *)
theory Mempool
  imports Prelude
begin

text \<open>
  The memory accounting of \<^verbatim>\<open>include/mempool/mempool.h\<close> and \<^verbatim>\<open>common/buffer/mempool.cc\<close>: a
  pool is 32 shards of two wrapping 64-bit counters and a table of object types. A
  thread adjusts one shard, chosen from its id; a reader sums them all.
\<close>

unbundle bit_operations_syntax

subsection \<open>State\<close>

datatype pool_type_id = Mempool_buffer_anon | Mempool_buffer_meta | Mempool_unittest_1

definition num_shards :: nat where
  "num_shards = 32"

record shard_t =
  allocated_bytes :: u64
  allocated_items :: u64

record object_attr =
  type_name :: string
  item_size :: nat
  object_items :: u64

record pool_type =
  shards :: "shard_t list"
  object_type_map :: "string \<rightharpoonup> object_attr"

definition empty_pool :: pool_type where
  "empty_pool = \<lparr>shards = replicate num_shards \<lparr>allocated_bytes = 0, allocated_items = 0\<rparr>,
     object_type_map = Map.empty\<rparr>"

fun get_pool_name :: "pool_type_id \<Rightarrow> string" where
  "get_pool_name Mempool_buffer_anon = ''buffer_anon''"
| "get_pool_name Mempool_buffer_meta = ''buffer_meta''"
| "get_pool_name Mempool_unittest_1 = ''unittest_1''"

type_synonym pool_table = "pool_type_id \<Rightarrow> pool_type"

definition get_pool :: "pool_table \<Rightarrow> pool_type_id \<Rightarrow> pool_type" where
  "get_pool table pool_index = table pool_index"

subsection \<open>Operations\<close>

text \<open>\<open>tid\<close> is \<^verbatim>\<open>pthread_self()\<close> read as a number.\<close>

definition pick_a_shard :: "nat \<Rightarrow> nat" where
  "pick_a_shard tid = (drop_bit 3 tid) AND (num_shards - 1)"

definition upd_shard :: "nat \<Rightarrow> (shard_t \<Rightarrow> shard_t) \<Rightarrow> pool_type \<Rightarrow> pool_type" where
  "upd_shard i f p = p\<lparr>shards := (shards p)[i := f (shards p ! i)]\<rparr>"

text \<open>Both arguments are \<^verbatim>\<open>ssize_t\<close>; adding them to the unsigned counters wraps.\<close>

definition adjust_count :: "nat \<Rightarrow> int \<Rightarrow> int \<Rightarrow> pool_type \<Rightarrow> pool_type" where
  "adjust_count tid adjust_items adjust_bytes p =
    upd_shard (pick_a_shard tid)
      (\<lambda>s. s\<lparr>allocated_items := allocated_items s + word_of_int adjust_items,
             allocated_bytes := allocated_bytes s + word_of_int adjust_bytes\<rparr>) p"

text \<open>A negative sum would be an unbalanced release; the readers report 0 then.\<close>

definition pool_allocated_bytes :: "pool_type \<Rightarrow> nat" where
  "pool_allocated_bytes p =
    (let result = sum_list (map allocated_bytes (shards p))
     in if sint result < 0 then 0 else unat result)"

definition pool_allocated_items :: "pool_type \<Rightarrow> nat" where
  "pool_allocated_items p =
    (let result = sum_list (map allocated_items (shards p))
     in if sint result < 0 then 0 else unat result)"

definition get_type :: "string \<Rightarrow> nat \<Rightarrow> pool_type \<Rightarrow> pool_type" where
  "get_type name sz p =
    (case object_type_map p name of
       Some t \<Rightarrow> p
     | None \<Rightarrow> p\<lparr>object_type_map := (object_type_map p)(name \<mapsto>
         \<lparr>type_name = name, item_size = sz, object_items = 0\<rparr>)\<rparr>)"

definition bump_type :: "string option \<Rightarrow> int \<Rightarrow> pool_type \<Rightarrow> pool_type" where
  "bump_type type n p =
    (case type of
       None \<Rightarrow> p
     | Some name \<Rightarrow>
         (case object_type_map p name of
            None \<Rightarrow> p
          | Some t \<Rightarrow> p\<lparr>object_type_map := (object_type_map p)(name \<mapsto>
              t\<lparr>object_items := object_items t + word_of_int n\<rparr>)\<rparr>))"

text \<open>
  The STL allocator: \<^verbatim>\<open>init\<close> registers the type in debug mode or when forced; \<open>type\<close> is the
  registered type's name, or \<open>None\<close> for the null pointer.
\<close>

definition allocator_init :: "bool \<Rightarrow> bool \<Rightarrow> string \<Rightarrow> nat \<Rightarrow> pool_type \<Rightarrow> string option \<times> pool_type" where
  "allocator_init debug_mode force_register name sz p =
    (if debug_mode \<or> force_register then (Some name, get_type name sz p) else (None, p))"

definition allocate :: "nat \<Rightarrow> string option \<Rightarrow> nat \<Rightarrow> nat \<Rightarrow> pool_type \<Rightarrow> pool_type" where
  "allocate tid type sz n p =
    bump_type type (int n)
      (upd_shard (pick_a_shard tid)
        (\<lambda>s. s\<lparr>allocated_bytes := allocated_bytes s + of_nat (mul64 sz n),
               allocated_items := allocated_items s + of_nat n\<rparr>) p)"

definition deallocate :: "nat \<Rightarrow> string option \<Rightarrow> nat \<Rightarrow> nat \<Rightarrow> pool_type \<Rightarrow> pool_type" where
  "deallocate tid type sz n p =
    bump_type type (- int n)
      (upd_shard (pick_a_shard tid)
        (\<lambda>s. s\<lparr>allocated_bytes := allocated_bytes s - of_nat (mul64 sz n),
               allocated_items := allocated_items s - of_nat n\<rparr>) p)"

text \<open>The aligned pair takes its memory from \<^verbatim>\<open>posix_memalign\<close>, a parameter; \<open>None\<close> is an error.\<close>

definition allocate_aligned ::
    "(nat \<Rightarrow> nat \<Rightarrow> nat option) \<Rightarrow> nat \<Rightarrow> string option \<Rightarrow> nat \<Rightarrow> nat \<Rightarrow> nat \<Rightarrow> pool_type \<Rightarrow> exn + nat \<times> pool_type" where
  "allocate_aligned posix_memalign tid type sz n align p =
    (case posix_memalign align (mul64 sz n) of
       None \<Rightarrow> Inl Bad_alloc
     | Some r \<Rightarrow>
         Inr (r, bump_type type (int n)
           (upd_shard (pick_a_shard tid)
             (\<lambda>s. s\<lparr>allocated_bytes := allocated_bytes s + of_nat (mul64 sz n),
                    allocated_items := allocated_items s + of_nat n\<rparr>) p)))"

definition deallocate_aligned :: "nat \<Rightarrow> string option \<Rightarrow> nat \<Rightarrow> nat \<Rightarrow> pool_type \<Rightarrow> pool_type" where
  "deallocate_aligned tid type sz n p =
    bump_type type (- int n)
      (upd_shard (pick_a_shard tid)
        (\<lambda>s. s\<lparr>allocated_bytes := allocated_bytes s - of_nat (mul64 sz n),
               allocated_items := allocated_items s - of_nat n\<rparr>) p)"

text \<open>All allocators are equal, so containers may exchange memory.\<close>

definition allocator_equal :: "string option \<Rightarrow> string option \<Rightarrow> bool" where
  "allocator_equal a b = True"

definition allocator_not_equal :: "string option \<Rightarrow> string option \<Rightarrow> bool" where
  "allocator_not_equal a b = False"

text \<open>\<^verbatim>\<open>operator new\<close> and \<^verbatim>\<open>delete\<close> of a class with a pool of its own; those of arrays abort.\<close>

definition object_new :: "nat \<Rightarrow> string option \<Rightarrow> nat \<Rightarrow> pool_type \<Rightarrow> pool_type" where
  "object_new tid type sz p = allocate tid type sz 1 p"

definition object_delete :: "nat \<Rightarrow> string option \<Rightarrow> nat \<Rightarrow> pool_type \<Rightarrow> pool_type" where
  "object_delete tid type sz p = deallocate tid type sz 1 p"

definition array_new :: "nat \<Rightarrow> pool_type \<Rightarrow> exn + pool_type" where
  "array_new sz p = Inl Assert_failed"

definition array_delete :: "pool_type \<Rightarrow> exn + pool_type" where
  "array_delete p = Inl Assert_failed"

text \<open>Vectors with the standard allocator against vectors of a pool, in both orders.\<close>

definition vector_equal :: "'a list \<Rightarrow> 'a list \<Rightarrow> bool" where
  "vector_equal lhs rhs \<longleftrightarrow> length lhs = length rhs \<and> list_all2 (=) lhs rhs"

definition vector_not_equal :: "'a list \<Rightarrow> 'a list \<Rightarrow> bool" where
  "vector_not_equal lhs rhs \<longleftrightarrow> \<not> vector_equal lhs rhs"

definition pool_vector_equal :: "'a list \<Rightarrow> 'a list \<Rightarrow> bool" where
  "pool_vector_equal lhs rhs \<longleftrightarrow> vector_equal rhs lhs"

definition pool_vector_not_equal :: "'a list \<Rightarrow> 'a list \<Rightarrow> bool" where
  "pool_vector_not_equal lhs rhs \<longleftrightarrow> \<not> pool_vector_equal lhs rhs"

subsection \<open>Sums over the shards\<close>

definition wf_pool :: "pool_type \<Rightarrow> bool" where
  "wf_pool p \<longleftrightarrow> length (shards p) = num_shards"

definition sum_bytes :: "pool_type \<Rightarrow> u64" where
  "sum_bytes p = sum_list (map allocated_bytes (shards p))"

definition sum_items :: "pool_type \<Rightarrow> u64" where
  "sum_items p = sum_list (map allocated_items (shards p))"

lemma pick_a_shard_bound: "pick_a_shard tid < num_shards"
proof -
  have "pick_a_shard tid = take_bit 5 (drop_bit 3 tid)"
    by (simp add: pick_a_shard_def num_shards_def take_bit_eq_mask mask_eq_exp_minus_1)
  then show ?thesis
    using take_bit_nat_less_exp [of 5 "drop_bit 3 tid"] by (simp add: num_shards_def)
qed

lemma wf_empty_pool [simp]: "wf_pool empty_pool"
  by (simp add: wf_pool_def empty_pool_def)

lemma sums_empty_pool [simp]: "sum_bytes empty_pool = 0" "sum_items empty_pool = 0"
  by (simp_all add: sum_bytes_def sum_items_def empty_pool_def sum_list_replicate)

lemma wf_upd_shard [simp]: "wf_pool (upd_shard i f p) = wf_pool p"
  by (simp add: wf_pool_def upd_shard_def)

lemma sum_list_map_upd:
  fixes f :: "'a \<Rightarrow> 'b::ab_group_add"
  assumes "i < length xs"
  shows "sum_list (map f (xs[i := y])) = sum_list (map f xs) - f (xs ! i) + f y"
  using assms by (induction xs arbitrary: i) (auto simp: algebra_simps split: nat.split)

lemma sums_upd_shard:
  assumes "wf_pool p" "i < num_shards"
  shows "sum_bytes (upd_shard i f p)
      = sum_bytes p - allocated_bytes (shards p ! i) + allocated_bytes (f (shards p ! i))"
    and "sum_items (upd_shard i f p)
      = sum_items p - allocated_items (shards p ! i) + allocated_items (f (shards p ! i))"
  using assms
  by (simp_all add: sum_bytes_def sum_items_def upd_shard_def wf_pool_def sum_list_map_upd)

lemma sums_bump_type [simp]:
  "sum_bytes (bump_type t n p) = sum_bytes p" "sum_items (bump_type t n p) = sum_items p"
  "wf_pool (bump_type t n p) = wf_pool p"
  by (simp_all add: bump_type_def sum_bytes_def sum_items_def wf_pool_def split: option.splits)

lemma sums_adjust_count [simp]:
  assumes "wf_pool p"
  shows "sum_bytes (adjust_count tid ni nb p) = sum_bytes p + word_of_int nb"
    and "sum_items (adjust_count tid ni nb p) = sum_items p + word_of_int ni"
    and "wf_pool (adjust_count tid ni nb p)"
  using assms by (simp_all add: adjust_count_def sums_upd_shard pick_a_shard_bound)

text \<open>
  Whichever threads allocate and release, on whichever shards, releasing
  what was allocated restores the pool's totals: only the sum over the shards matters.
\<close>

lemma allocate_deallocate_balance:
  assumes "wf_pool p"
  shows "sum_bytes (deallocate tid2 type2 sz n (allocate tid1 type1 sz n p)) = sum_bytes p
    \<and> sum_items (deallocate tid2 type2 sz n (allocate tid1 type1 sz n p)) = sum_items p"
  using assms by (simp add: allocate_def deallocate_def sums_upd_shard pick_a_shard_bound)

lemma allocate_deallocate_balance_witness:
  "sum_bytes (deallocate 800 None 24 3 (allocate 8 (Some ''T'') 24 3 empty_pool)) = 0
    \<and> sum_items (deallocate 800 None 24 3 (allocate 8 (Some ''T'') 24 3 empty_pool)) = 0"
  using allocate_deallocate_balance [of empty_pool 800 None 24 3 8 "Some ''T''"]
  by simp

text \<open>The two pairs count alike, so what one allocated the other's release takes out of the totals again.\<close>

lemma aligned_balance:
  assumes "wf_pool p" "allocate_aligned mm tid1 type1 sz n align p = Inr (r, p')"
  shows "sum_bytes (deallocate_aligned tid2 type2 sz n p') = sum_bytes p"
    "sum_items (deallocate_aligned tid2 type2 sz n p') = sum_items p"
    "p' = allocate tid1 type1 sz n p" "deallocate_aligned = deallocate"
proof -
  show p': "p' = allocate tid1 type1 sz n p"
    using assms(2) by (simp add: allocate_aligned_def allocate_def split: option.splits)
  show d: "deallocate_aligned = deallocate" by (intro ext) (simp add: deallocate_aligned_def deallocate_def)
  show "sum_bytes (deallocate_aligned tid2 type2 sz n p') = sum_bytes p"
    "sum_items (deallocate_aligned tid2 type2 sz n p') = sum_items p"
    using allocate_deallocate_balance [OF assms(1)] p' d by simp_all
qed

lemma vectors_equal:
  "vector_equal xs ys \<longleftrightarrow> xs = ys" "vector_not_equal xs ys \<longleftrightarrow> xs \<noteq> ys"
  "pool_vector_equal xs ys \<longleftrightarrow> xs = ys" "pool_vector_not_equal xs ys \<longleftrightarrow> xs \<noteq> ys"
  by (auto simp: vector_equal_def vector_not_equal_def pool_vector_equal_def pool_vector_not_equal_def list.rel_eq)

end
