(* ===== verification/Buffer_Raw.thy ===== *)
theory Buffer_Raw
  imports Mempool Intarith
begin

text \<open>
  The memory of the buffer library: the reference-counted raw buffers of
  \<^verbatim>\<open>include/buffer/buffer_raw*.h\<close>, the store that holds them together with the
  \<^verbatim>\<open>buffer::ptr\<close> objects that refer to them, and the creation functions of
  \<^verbatim>\<open>common/buffer/buffer_create.cc\<close>.
\<close>

unbundle bit_operations_syntax

subsection \<open>The store\<close>

text \<open>The concrete classes derived from \<^verbatim>\<open>buffer::raw\<close>, with their own fields.\<close>

datatype raw_kind =
    Raw_char
  | Raw_claimed_char
  | Raw_combined nat
  | Raw_malloc
  | Raw_posix_aligned nat
  | Raw_static
  | Raw_claim_buffer

text \<open>
  \<^verbatim>\<open>m_data\<close> is the address \<open>r_addr\<close> together with the bytes stored there. The default
  value of \<^verbatim>\<open>last_crc_offset\<close> is the pair of the largest \<^verbatim>\<open>size_t\<close>.
\<close>

record raw =
  r_kind :: raw_kind
  r_addr :: nat
  r_data :: bytes
  r_len :: nat
  r_nref :: nat
  r_pool :: pool_type_id
  r_crc_offset :: "nat \<times> nat"
  r_crc_val :: "u32 \<times> u32"

record ptr =
  p_raw :: "nat option"
  p_off :: nat
  p_len :: nat

text \<open>
  What the platform decides: \<open>e_alloc i al n\<close> is the address the \<open>i\<close>-th allocation of
  \<open>n\<close> bytes at alignment \<open>al\<close> gets (\<open>None\<close> if the allocator fails), \<open>e_junk i k\<close> the
  value of the \<open>k\<close>-th uninitialised byte of it, \<open>e_page\<close> the page size.
\<close>

record env =
  e_alloc :: "nat \<Rightarrow> nat \<Rightarrow> nat \<Rightarrow> nat option"
  e_junk :: "nat \<Rightarrow> nat \<Rightarrow> u8"
  e_page :: nat

text \<open>
  Raw buffers and \<^verbatim>\<open>ptr\<close> objects live in the store under numbers that are never reused;
  a node of a buffer list is a \<^verbatim>\<open>ptr\<close> object. \<open>m_tid\<close> is the running thread.
\<close>

record mem =
  m_raws :: "nat \<rightharpoonup> raw"
  m_ptrs :: "nat \<rightharpoonup> ptr"
  m_next :: nat
  m_pools :: pool_table
  m_tid :: nat
  m_env :: env

definition no_crc :: "nat \<times> nat" where
  "no_crc = (two64 - 1, two64 - 1)"

subsection \<open>Raw buffers\<close>

text \<open>\<^verbatim>\<open>-(int)m_len\<close>: the length is cut to 32 bits, read as signed, and negated.\<close>

definition neg_int :: "nat \<Rightarrow> int" where
  "neg_int len = sint (- (of_nat len :: u32))"

definition pool_adjust :: "pool_type_id \<Rightarrow> int \<Rightarrow> int \<Rightarrow> mem \<Rightarrow> mem" where
  "pool_adjust t items bts m =
     m\<lparr>m_pools := (m_pools m)(t := adjust_count (m_tid m) items bts (get_pool (m_pools m) t))\<rparr>"

text \<open>The constructor of the base class, on memory already obtained.\<close>

definition raw_init :: "raw_kind \<Rightarrow> nat \<Rightarrow> bytes \<Rightarrow> nat \<Rightarrow> pool_type_id \<Rightarrow> mem \<Rightarrow> nat \<times> mem" where
  "raw_init kind addr data len pool m =
    (let r = m_next m;
         w = \<lparr>r_kind = kind, r_addr = addr, r_data = data, r_len = len, r_nref = 0,
              r_pool = pool, r_crc_offset = no_crc, r_crc_val = (0, 0)\<rparr>
     in (r, pool_adjust pool 1 (int len)
              (m\<lparr>m_raws := (m_raws m)(r \<mapsto> w), m_next := Suc r\<rparr>)))"

definition raw_at :: "mem \<Rightarrow> nat \<Rightarrow> exn + raw" where
  "raw_at m r = of_option Undefined (m_raws m r)"

definition upd_raw :: "nat \<Rightarrow> (raw \<Rightarrow> raw) \<Rightarrow> mem \<Rightarrow> mem" where
  "upd_raw r f m = m\<lparr>m_raws := (m_raws m)(r := map_option f (m_raws m r))\<rparr>"

text \<open>\<^verbatim>\<open>delete\<close> of a raw: its destructor takes it out of the accounting.\<close>

definition raw_delete :: "nat \<Rightarrow> mem \<Rightarrow> exn + mem" where
  "raw_delete r m =
    ebind (raw_at m r) (\<lambda>w.
      Inr ((pool_adjust (r_pool w) (-1) (neg_int (r_len w)) m)\<lparr>m_raws := (m_raws m)(r := None)\<rparr>))"

definition raw_set_len :: "nat \<Rightarrow> nat \<Rightarrow> mem \<Rightarrow> exn + mem" where
  "raw_set_len r len m =
    ebind (raw_at m r) (\<lambda>w.
      let m = pool_adjust (r_pool w) (-1) (neg_int (r_len w)) m;
          m = upd_raw r (\<lambda>w. w\<lparr>r_len := len\<rparr>) m
      in Inr (pool_adjust (r_pool w) 1 (int len) m))"

definition raw_reassign_to_mempool :: "nat \<Rightarrow> pool_type_id \<Rightarrow> mem \<Rightarrow> exn + mem" where
  "raw_reassign_to_mempool r t m =
    ebind (raw_at m r) (\<lambda>w.
      if t = r_pool w then Inr m
      else
        let m = pool_adjust (r_pool w) (-1) (neg_int (r_len w)) m;
            m = upd_raw r (\<lambda>w. w\<lparr>r_pool := t\<rparr>) m
        in Inr (pool_adjust t 1 (int (r_len w)) m))"

definition raw_try_assign_to_mempool :: "nat \<Rightarrow> pool_type_id \<Rightarrow> mem \<Rightarrow> exn + mem" where
  "raw_try_assign_to_mempool r t m =
    ebind (raw_at m r) (\<lambda>w.
      if r_pool w = Mempool_buffer_anon then raw_reassign_to_mempool r t m else Inr m)"

definition raw_get_crc :: "raw \<Rightarrow> nat \<times> nat \<Rightarrow> (u32 \<times> u32) option" where
  "raw_get_crc w fromto = (if r_crc_offset w = fromto then Some (r_crc_val w) else None)"

definition raw_set_crc :: "nat \<Rightarrow> nat \<times> nat \<Rightarrow> u32 \<times> u32 \<Rightarrow> mem \<Rightarrow> mem" where
  "raw_set_crc r fromto crc m = upd_raw r (\<lambda>w. w\<lparr>r_crc_offset := fromto, r_crc_val := crc\<rparr>) m"

definition raw_invalidate_crc :: "nat \<Rightarrow> mem \<Rightarrow> mem" where
  "raw_invalidate_crc r m = upd_raw r (\<lambda>w. w\<lparr>r_crc_offset := no_crc\<rparr>) m"

text \<open>\<^verbatim>\<open>memcpy\<close> or \<^verbatim>\<open>memset\<close> into a raw's memory; outside the block it is undefined.\<close>

definition raw_write :: "nat \<Rightarrow> nat \<Rightarrow> bytes \<Rightarrow> mem \<Rightarrow> exn + mem" where
  "raw_write r off bs m =
    ebind (raw_at m r) (\<lambda>w.
      if off + length bs \<le> length (r_data w)
      then Inr (upd_raw r (\<lambda>w. w\<lparr>r_data := write_at off bs (r_data w)\<rparr>) m)
      else Inl Undefined)"

subsection \<open>Allocation\<close>

text \<open>
  An allocation either fails (a null pointer counts as failure, as in the code) or yields
  an address and a block of uninitialised bytes. \<^verbatim>\<open>malloc\<close> and \<^verbatim>\<open>new char[]\<close> align to 16.
\<close>

definition alloc_addr :: "mem \<Rightarrow> nat \<Rightarrow> nat \<Rightarrow> exn + nat" where
  "alloc_addr m align len =
    (case e_alloc (m_env m) (m_next m) align len of
       None \<Rightarrow> Inl Bad_alloc
     | Some a \<Rightarrow> if a = 0 then Inl Bad_alloc else Inr a)"

definition junk :: "mem \<Rightarrow> nat \<Rightarrow> bytes" where
  "junk m len = map (e_junk (m_env m) (m_next m)) [0..<len]"

text \<open>\<^verbatim>\<open>sizeof(raw_combined)\<close> and its alignment on x86-64.\<close>

definition sizeof_raw_combined :: nat where
  "sizeof_raw_combined = 112"

definition alignof_raw_combined :: nat where
  "alignof_raw_combined = 8"

text \<open>
  One block for data and control object; the control object sits after the data. A total
  size that wraps would place it outside the block.
\<close>

definition raw_combined_create :: "nat \<Rightarrow> nat \<Rightarrow> pool_type_id \<Rightarrow> mem \<Rightarrow> exn + nat \<times> mem" where
  "raw_combined_create len alignment pool m =
    (let alignment = (if alignment = 0 then 8 else alignment) in
     ebind (round_up_to sizeof_raw_combined alignof_raw_combined) (\<lambda>rawlen.
     ebind (round_up_to len alignof_raw_combined) (\<lambda>datalen.
     ebind (alloc_addr m alignment (add64 rawlen datalen)) (\<lambda>a.
       if datalen < len \<or> two64 \<le> rawlen + datalen then Inl Undefined
       else Inr (raw_init (Raw_combined alignment) a (junk m len) len pool m)))))"

definition raw_posix_aligned_new :: "nat \<Rightarrow> nat \<Rightarrow> mem \<Rightarrow> exn + nat \<times> mem" where
  "raw_posix_aligned_new len alignment m =
    ebind (spec_assert (8 \<le> alignment \<and> alignment AND (alignment - 1) = 0)) (\<lambda>_.
    ebind (alloc_addr m alignment len) (\<lambda>a.
      Inr (raw_init (Raw_posix_aligned alignment) a (junk m len) len Mempool_buffer_anon m)))"

definition raw_char_new :: "nat \<Rightarrow> mem \<Rightarrow> exn + nat \<times> mem" where
  "raw_char_new len m =
    (if len \<noteq> 0
     then ebind (alloc_addr m 16 len) (\<lambda>a.
            Inr (raw_init Raw_char a (junk m len) len Mempool_buffer_anon m))
     else Inr (raw_init Raw_char 0 [] len Mempool_buffer_anon m))"

definition raw_malloc_new :: "nat \<Rightarrow> mem \<Rightarrow> exn + nat \<times> mem" where
  "raw_malloc_new len m =
    (if len \<noteq> 0
     then ebind (alloc_addr m 16 len) (\<lambda>a.
            Inr (raw_init Raw_malloc a (junk m len) len Mempool_buffer_anon m))
     else Inr (raw_init Raw_malloc 0 [] len Mempool_buffer_anon m))"

subsection \<open>Creation functions\<close>

definition create_aligned_in_mempool ::
    "nat \<Rightarrow> nat \<Rightarrow> pool_type_id \<Rightarrow> mem \<Rightarrow> exn + nat \<times> mem" where
  "create_aligned_in_mempool len alignment mempool_type_id m =
    (if alignment AND (e_page (m_env m) - 1) = 0 \<or> len \<ge> e_page (m_env m) * 2
     then raw_posix_aligned_new len alignment m
     else raw_combined_create len alignment mempool_type_id m)"

definition create_in_mempool :: "nat \<Rightarrow> pool_type_id \<Rightarrow> mem \<Rightarrow> exn + nat \<times> mem" where
  "create_in_mempool len mempool_type_id m = create_aligned_in_mempool len 8 mempool_type_id m"

definition create_aligned :: "nat \<Rightarrow> nat \<Rightarrow> mem \<Rightarrow> exn + nat \<times> mem" where
  "create_aligned len alignment m = create_aligned_in_mempool len alignment Mempool_buffer_anon m"

definition create_raw :: "nat \<Rightarrow> mem \<Rightarrow> exn + nat \<times> mem" where
  "create_raw len m = create_aligned len 8 m"

definition create_filled :: "nat \<Rightarrow> u8 \<Rightarrow> mem \<Rightarrow> exn + nat \<times> mem" where
  "create_filled len c m =
    ebind (create_aligned len 8 m) (\<lambda>(r, m).
    ebind (raw_write r 0 (replicate len c) m) (\<lambda>m. Inr (r, m)))"

definition create_page_aligned :: "nat \<Rightarrow> mem \<Rightarrow> exn + nat \<times> mem" where
  "create_page_aligned len m = create_aligned len (e_page (m_env m)) m"

definition create_small_page_aligned :: "nat \<Rightarrow> mem \<Rightarrow> exn + nat \<times> mem" where
  "create_small_page_aligned len m =
    (if len < e_page (m_env m) then create_aligned len 4096 m
     else create_aligned len (e_page (m_env m)) m)"

definition copy_raw :: "bytes \<Rightarrow> mem \<Rightarrow> exn + nat \<times> mem" where
  "copy_raw buf m =
    ebind (create_aligned (length buf) 8 m) (\<lambda>(r, m).
    ebind (raw_write r 0 buf m) (\<lambda>m. Inr (r, m)))"

text \<open>Memory of the caller, given by its address and contents: the constructors, then the functions.\<close>

definition raw_claimed_char_new :: "nat \<Rightarrow> bytes \<Rightarrow> mem \<Rightarrow> nat \<times> mem" where
  "raw_claimed_char_new addr buf m = raw_init Raw_claimed_char addr buf (length buf) Mempool_buffer_anon m"

definition raw_malloc_of :: "nat \<Rightarrow> bytes \<Rightarrow> mem \<Rightarrow> nat \<times> mem" where
  "raw_malloc_of addr buf m = raw_init Raw_malloc addr buf (length buf) Mempool_buffer_anon m"

definition raw_static_new :: "nat \<Rightarrow> bytes \<Rightarrow> mem \<Rightarrow> nat \<times> mem" where
  "raw_static_new addr buf m = raw_init Raw_static addr buf (length buf) Mempool_buffer_anon m"

definition raw_claim_buffer_new :: "nat \<Rightarrow> bytes \<Rightarrow> mem \<Rightarrow> nat \<times> mem" where
  "raw_claim_buffer_new addr buf m = raw_init Raw_claim_buffer addr buf (length buf) Mempool_buffer_anon m"

definition claim_char :: "nat \<Rightarrow> bytes \<Rightarrow> mem \<Rightarrow> exn + nat \<times> mem" where
  "claim_char addr buf m = Inr (raw_claimed_char_new addr buf m)"

definition create_malloc :: "nat \<Rightarrow> mem \<Rightarrow> exn + nat \<times> mem" where
  "create_malloc len m = raw_malloc_new len m"

definition claim_malloc :: "nat \<Rightarrow> bytes \<Rightarrow> mem \<Rightarrow> exn + nat \<times> mem" where
  "claim_malloc addr buf m = Inr (raw_malloc_of addr buf m)"

definition create_static :: "nat \<Rightarrow> bytes \<Rightarrow> mem \<Rightarrow> exn + nat \<times> mem" where
  "create_static addr buf m = Inr (raw_static_new addr buf m)"

definition claim_buffer :: "nat \<Rightarrow> bytes \<Rightarrow> mem \<Rightarrow> exn + nat \<times> mem" where
  "claim_buffer addr buf m = Inr (raw_claim_buffer_new addr buf m)"

text \<open>\<^verbatim>\<open>raw::clone\<close>: a new raw of the class's choice, then a copy of all bytes.\<close>

definition raw_clone_empty :: "raw \<Rightarrow> mem \<Rightarrow> exn + nat \<times> mem" where
  "raw_clone_empty w m =
    (case r_kind w of
       Raw_combined alignment \<Rightarrow> raw_combined_create (r_len w) alignment Mempool_buffer_anon m
     | Raw_malloc \<Rightarrow> raw_malloc_new (r_len w) m
     | Raw_posix_aligned alignment \<Rightarrow> raw_posix_aligned_new (r_len w) alignment m
     | _ \<Rightarrow> raw_char_new (r_len w) m)"

definition raw_clone :: "nat \<Rightarrow> mem \<Rightarrow> exn + nat \<times> mem" where
  "raw_clone r m =
    ebind (raw_at m r) (\<lambda>w.
    ebind (raw_clone_empty w m) (\<lambda>(r', m).
    ebind (raw_write r' 0 (take (r_len w) (r_data w)) m) (\<lambda>m. Inr (r', m))))"

end
