(* ===== verification/Inline_Memory.thy ===== *)
theory Inline_Memory
  imports Prelude
begin

text \<open>
  \<^verbatim>\<open>include/inline_memory.h\<close>: the inlined small copy and the zero test that reads 16, 4 and
  1 bytes at a time. Both are shown to be what a plain loop over the bytes does.
\<close>

unbundle bit_operations_syntax

subsection \<open>Copying small blocks\<close>

text \<open>
  The loops of the default branch: words of 8, then of 4, then bytes, each copied at
  \<open>cursor\<close>. The buffers are blocks of memory; the result is the destination.
\<close>

function copy_step :: "nat \<Rightarrow> bytes \<Rightarrow> nat \<Rightarrow> nat \<Rightarrow> bytes \<Rightarrow> nat \<times> nat \<times> bytes" where
  "copy_step k src cursor len dest =
    (if 0 < k \<and> k \<le> len
     then copy_step k src (cursor + k) (len - k) (write_at cursor (seg cursor k src) dest)
     else (cursor, len, dest))"
  by pat_completeness auto
termination by (relation "measure (\<lambda>(k, src, cursor, len, dest). len)") auto

declare copy_step.simps [simp del]

definition copy_loops :: "bytes \<Rightarrow> nat \<Rightarrow> bytes \<Rightarrow> bytes" where
  "copy_loops src len dest =
    (let (cursor, len, dest) = copy_step 8 src 0 len dest;
         (cursor, len, dest) = copy_step 4 src cursor len dest;
         (cursor, len, dest) = copy_step 1 src cursor len dest
     in dest)"

definition maybe_inline_memcpy :: "bytes \<Rightarrow> bytes \<Rightarrow> nat \<Rightarrow> nat \<Rightarrow> bytes" where
  "maybe_inline_memcpy dest src len small_len =
    (if len > small_len then write_at 0 (take len src) dest
     else if len = 8 then write_at 0 (take 8 src) dest
     else if len = 4 then write_at 0 (take 4 src) dest
     else if len = 3 then write_at 0 (take 3 src) dest
     else if len = 2 then write_at 0 (take 2 src) dest
     else if len = 1 then write_at 0 (take 1 src) dest
     else copy_loops src len dest)"

lemma copy_step_eq:
  assumes "0 < k" "cursor + len \<le> length src" "cursor + len \<le> length dest"
  shows "\<exists>n. copy_step k src cursor len dest =
      (cursor + n, len - n, write_at cursor (seg cursor n src) dest) \<and> n \<le> len \<and> len - n < k"
  using assms
proof (induction k src cursor len dest rule: copy_step.induct)
  case (1 k src cursor len dest)
  show ?case
  proof (cases "k \<le> len")
    case False
    then show ?thesis using 1 by (intro exI [of _ 0]) (simp add: copy_step.simps [of k])
  next
    case True
    let ?d = "write_at cursor (seg cursor k src) dest"
    have "cursor + k + (len - k) \<le> length ?d" using True 1 by simp
    then obtain n where n: "copy_step k src (cursor + k) (len - k) ?d =
        (cursor + k + n, len - k - n, write_at (cursor + k) (seg (cursor + k) n src) ?d)"
        "n \<le> len - k" "len - k - n < k"
      using 1 True by (metis (no_types, lifting) add.assoc le_add_diff_inverse)
    have "write_at (cursor + k) (seg (cursor + k) n src) ?d =
        write_at cursor (seg cursor (k + n) src) dest"
      using write_at_write_at_adj [of cursor "seg cursor k src" "seg (cursor + k) n src" dest]
        1 True n by (simp add: seg_append_seg)
    then show ?thesis using n 1 True
      by (intro exI [of _ "k + n"]) (simp add: copy_step.simps [of k src cursor len] add.assoc)
  qed
qed

lemma copy_loops_eq:
  assumes "len \<le> length src" "len \<le> length dest"
  shows "copy_loops src len dest = write_at 0 (take len src) dest"
proof -
  obtain a where a: "copy_step 8 src 0 len dest = (a, len - a, write_at 0 (seg 0 a src) dest)"
      "a \<le> len" using copy_step_eq [of 8 0 len src dest] assms by auto
  let ?d = "write_at 0 (seg 0 a src) dest"
  obtain b where b: "copy_step 4 src a (len - a) ?d =
      (a + b, len - a - b, write_at a (seg a b src) ?d)" "b \<le> len - a"
    using copy_step_eq [of 4 a "len - a" src ?d] assms a by auto
  have d: "write_at a (seg a b src) ?d = write_at 0 (seg 0 (a + b) src) dest"
    using write_at_write_at_adj [of 0 "seg 0 a src" "seg a b src" dest] assms a b
    by (simp add: seg_append_seg)
  let ?e = "write_at 0 (seg 0 (a + b) src) dest"
  obtain c where c: "copy_step 1 src (a + b) (len - a - b) ?e =
      (a + b + c, len - a - b - c, write_at (a + b) (seg (a + b) c src) ?e)"
      "c \<le> len - a - b" "len - a - b - c < 1"
    using copy_step_eq [of 1 "a + b" "len - a - b" src ?e] assms a b by auto
  have "a + b + c = len" using a b c by linarith
  moreover have "write_at (a + b) (seg (a + b) c src) ?e = write_at 0 (seg 0 (a + b + c) src) dest"
    using write_at_write_at_adj [of 0 "seg 0 (a + b) src" "seg (a + b) c src" dest] assms a b c
    by (simp add: seg_append_seg)
  ultimately show ?thesis
    using a b c d by (simp add: copy_loops_def seg_def)
qed

text \<open>
  Whatever the threshold, the inlined copy moves exactly the bytes
  \<^verbatim>\<open>memcpy\<close> moves.
\<close>

lemma maybe_inline_memcpy_is_memcpy:
  assumes "len \<le> length src" "len \<le> length dest"
  shows "maybe_inline_memcpy dest src len small_len = write_at 0 (take len src) dest"
  using assms by (auto simp: maybe_inline_memcpy_def copy_loops_eq)

lemma maybe_inline_memcpy_is_memcpy_witness:
  "maybe_inline_memcpy (replicate 15 0) [1, 2, 3, 4, 5, 6, 7, 8, 9, 10, 11, 12, 13] 13 32
    = [1, 2, 3, 4, 5, 6, 7, 8, 9, 10, 11, 12, 13, 0, 0]"
  by (subst maybe_inline_memcpy_is_memcpy) (simp_all add: write_at_def numeral_eq_Suc)

subsection \<open>Testing a block for zeros\<close>

text \<open>Reading \<open>k\<close> bytes as one integer and comparing it with 0.\<close>

definition word_is_zero :: "bytes \<Rightarrow> bool" where
  "word_is_zero bs \<longleftrightarrow> list_all (\<lambda>b. b = 0) bs"

text \<open>
  The loop to the next 16-byte boundary: \<open>None\<close> when a byte is not zero, otherwise the
  address reached and what is left. It runs only with at least 16 bytes.
\<close>

fun zero_head :: "nat \<Rightarrow> bytes \<Rightarrow> (nat \<times> bytes) option" where
  "zero_head addr [] = Some (addr, [])"
| "zero_head addr (b # bs) =
     (if addr mod 16 = 0 then Some (addr, b # bs)
      else if b \<noteq> 0 then None else zero_head (addr + 1) bs)"

text \<open>The loops over 16-byte and 4-byte words, and over single bytes.\<close>

fun zero_words :: "nat \<Rightarrow> nat \<Rightarrow> bytes \<Rightarrow> bytes option" where
  "zero_words k 0 bs = Some bs"
| "zero_words k (Suc n) bs =
     (if \<not> word_is_zero (take k bs) then None else zero_words k n (drop k bs))"

definition mem_is_zero :: "nat \<Rightarrow> bytes \<Rightarrow> bool" where
  "mem_is_zero addr data =
    (let len = length data;
         head = (if len div 16 > 0
                 then case zero_head addr data of
                        None \<Rightarrow> None
                      | Some (a, d) \<Rightarrow> zero_words 16 (length d div 16) d
                 else Some data)
     in case head of
          None \<Rightarrow> False
        | Some d \<Rightarrow>
            (case zero_words 4 (length d div 4) d of
               None \<Rightarrow> False
             | Some d \<Rightarrow> zero_words 1 (length d) d \<noteq> None))"

abbreviation all_zero :: "bytes \<Rightarrow> bool" where
  "all_zero bs \<equiv> \<forall>b \<in> set bs. b = 0"

lemma word_is_zero_iff: "word_is_zero bs \<longleftrightarrow> all_zero bs"
  by (simp add: word_is_zero_def list_all_iff)

lemma zero_head_None: "zero_head a bs = None \<Longrightarrow> \<not> all_zero bs"
  by (induction a bs rule: zero_head.induct) (auto split: if_splits)

lemma zero_head_Some: "zero_head a bs = Some (a', d) \<Longrightarrow> all_zero bs \<longleftrightarrow> all_zero d"
  by (induction a bs rule: zero_head.induct) (auto split: if_splits)

lemma all_zero_take_drop: "all_zero bs \<longleftrightarrow> all_zero (take k bs) \<and> all_zero (drop k bs)"
  by (metis Un_iff append_take_drop_id set_append)

lemma zero_words_None: "zero_words k n bs = None \<Longrightarrow> \<not> all_zero bs"
proof (induction k n bs rule: zero_words.induct)
  case (2 k n bs)
  then show ?case using all_zero_take_drop [of bs k]
    by (auto simp: word_is_zero_iff split: if_splits)
qed simp

lemma zero_words_Some: "zero_words k n bs = Some d \<Longrightarrow> all_zero bs \<longleftrightarrow> all_zero d"
proof (induction k n bs rule: zero_words.induct)
  case (2 k n bs)
  then show ?case using all_zero_take_drop [of bs k]
    by (auto simp: word_is_zero_iff split: if_splits)
qed simp

lemma zero_words_length: "zero_words k n bs = Some d \<Longrightarrow> length d = length bs - k * n"
  by (induction k n bs rule: zero_words.induct) (auto simp: algebra_simps split: if_splits)

lemma mem_is_zero_iff: "mem_is_zero addr data \<longleftrightarrow> all_zero data"
proof -
  have ones: "zero_words 1 (length d) d \<noteq> None \<longleftrightarrow> all_zero d" for d
  proof (cases "zero_words 1 (length d) d")
    case None
    then show ?thesis by (auto dest: zero_words_None)
  next
    case (Some e)
    then show ?thesis using zero_words_length [OF Some] zero_words_Some [OF Some] by simp
  qed
  have tail: "(case zero_words 4 (length d div 4) d of
      None \<Rightarrow> False | Some d \<Rightarrow> zero_words 1 (length d) d \<noteq> None) \<longleftrightarrow> all_zero d" for d
    by (cases "zero_words 4 (length d div 4) d")
      (simp_all only: option.case ones zero_words_Some zero_words_None simp_thms)
  have words: "(case zero_words 16 (length d div 16) d of
      None \<Rightarrow> False | Some d \<Rightarrow> all_zero d) \<longleftrightarrow> all_zero d" for d
    by (cases "zero_words 16 (length d div 16) d")
      (simp_all only: option.case zero_words_Some zero_words_None simp_thms)
  have head: "(case (case zero_head addr data of
        None \<Rightarrow> None | Some (a, d) \<Rightarrow> zero_words 16 (length d div 16) d) of
      None \<Rightarrow> False | Some d \<Rightarrow> all_zero d) \<longleftrightarrow> all_zero data"
  proof (cases "zero_head addr data")
    case None
    then show ?thesis using zero_head_None [OF None] by simp
  next
    case (Some ad)
    obtain a d where ad: "ad = (a, d)" by (cases ad)
    have "all_zero data \<longleftrightarrow> all_zero d" using Some unfolding ad by (rule zero_head_Some)
    then show ?thesis using words [of d] Some ad by simp
  qed
  show ?thesis unfolding mem_is_zero_def Let_def tail using head by simp
qed

text \<open>
  The zero test with its three word sizes answers whether every byte
  is zero, for every length and alignment of the block.
\<close>

lemma mem_is_zero_all: "mem_is_zero addr data \<longleftrightarrow> data = replicate (length data) 0"
  unfolding mem_is_zero_iff by (metis in_set_replicate replicate_length_same)

end
