(* ===== verification/Buffer_Ptr.thy ===== *)
theory Buffer_Ptr
  imports Buffer_Raw Inline_Memory
begin

text \<open>
  \<^verbatim>\<open>buffer::ptr\<close> of \<^verbatim>\<open>buffer_ptr.h\<close> and \<^verbatim>\<open>buffer_ptr.cc\<close>: a window of a raw buffer that owns
  one reference to it. Every \<^verbatim>\<open>ptr\<close> object is in the store under a number; the operations
  take that number, so that copies, moves and assignments show which object changed.
\<close>

unbundle bit_operations_syntax

subsection \<open>Objects and references\<close>

definition null_ptr :: ptr where
  "null_ptr = \<lparr>p_raw = None, p_off = 0, p_len = 0\<rparr>"

definition ptr_at :: "mem \<Rightarrow> nat \<Rightarrow> exn + ptr" where
  "ptr_at m i = of_option Undefined (m_ptrs m i)"

definition obj_new :: "ptr \<Rightarrow> mem \<Rightarrow> nat \<times> mem" where
  "obj_new p m = (m_next m, m\<lparr>m_ptrs := (m_ptrs m)(m_next m \<mapsto> p), m_next := Suc (m_next m)\<rparr>)"

definition obj_set :: "nat \<Rightarrow> ptr \<Rightarrow> mem \<Rightarrow> mem" where
  "obj_set i p m = m\<lparr>m_ptrs := (m_ptrs m)(i \<mapsto> p)\<rparr>"

definition raw_ref :: "nat \<Rightarrow> mem \<Rightarrow> mem" where
  "raw_ref r m = upd_raw r (\<lambda>w. w\<lparr>r_nref := r_nref w + 1\<rparr>) m"

text \<open>
  Dropping one reference; the last one deletes the raw. The counter is as wide as an
  address and counts objects in memory, so only the decrement of 0 wraps.
\<close>

definition raw_unref :: "nat \<Rightarrow> mem \<Rightarrow> exn + mem" where
  "raw_unref r m =
    ebind (raw_at m r) (\<lambda>w.
      if r_nref w = 1 then raw_delete r m
      else let n = (if r_nref w = 0 then two64 - 1 else r_nref w - 1);
               m = upd_raw r (\<lambda>w. w\<lparr>r_nref := n\<rparr>) m
           in if n = 0 then raw_delete r m else Inr m)"

text \<open>\<^verbatim>\<open>ptr::release\<close> leaves offset and length alone.\<close>

definition ptr_release :: "nat \<Rightarrow> mem \<Rightarrow> exn + mem" where
  "ptr_release i m =
    ebind (ptr_at m i) (\<lambda>p.
      let m = obj_set i (p\<lparr>p_raw := None\<rparr>) m
      in case p_raw p of None \<Rightarrow> Inr m | Some r \<Rightarrow> raw_unref r m)"

subsection \<open>Constructors, destructor, assignment\<close>

definition ptr_default :: "mem \<Rightarrow> nat \<times> mem" where
  "ptr_default m = obj_new null_ptr m"

definition ptr_of_raw :: "nat \<Rightarrow> mem \<Rightarrow> exn + nat \<times> mem" where
  "ptr_of_raw r m =
    ebind (raw_at m r) (\<lambda>w.
      Inr (obj_new \<lparr>p_raw = Some r, p_off = 0, p_len = r_len w\<rparr>
             (upd_raw r (\<lambda>w. w\<lparr>r_nref := 1\<rparr>) m)))"

definition ptr_of_len :: "nat \<Rightarrow> mem \<Rightarrow> exn + nat \<times> mem" where
  "ptr_of_len len m =
    ebind (create_raw len m) (\<lambda>(r, m).
      Inr (obj_new \<lparr>p_raw = Some r, p_off = 0, p_len = len\<rparr>
             (upd_raw r (\<lambda>w. w\<lparr>r_nref := 1\<rparr>) m)))"

definition ptr_of_bytes :: "bytes \<Rightarrow> mem \<Rightarrow> exn + nat \<times> mem" where
  "ptr_of_bytes buf m =
    ebind (copy_raw buf m) (\<lambda>(r, m).
      Inr (obj_new \<lparr>p_raw = Some r, p_off = 0, p_len = length buf\<rparr>
             (upd_raw r (\<lambda>w. w\<lparr>r_nref := 1\<rparr>) m)))"

definition ptr_copy :: "nat \<Rightarrow> mem \<Rightarrow> exn + nat \<times> mem" where
  "ptr_copy i m =
    ebind (ptr_at m i) (\<lambda>p.
      Inr (obj_new p (case p_raw p of None \<Rightarrow> m | Some r \<Rightarrow> raw_ref r m)))"

definition ptr_move :: "nat \<Rightarrow> mem \<Rightarrow> exn + nat \<times> mem" where
  "ptr_move i m =
    ebind (ptr_at m i) (\<lambda>p. Inr (obj_new p (obj_set i null_ptr m)))"

definition ptr_sub :: "nat \<Rightarrow> nat \<Rightarrow> nat \<Rightarrow> mem \<Rightarrow> exn + nat \<times> mem" where
  "ptr_sub i offset len m =
    ebind (ptr_at m i) (\<lambda>p.
    ebind (spec_assert (add64 offset len \<le> p_len p)) (\<lambda>_.
    ebind (spec_assert (p_raw p \<noteq> None)) (\<lambda>_.
      Inr (obj_new \<lparr>p_raw = p_raw p, p_off = add64 (p_off p) offset, p_len = len\<rparr>
             (raw_ref (the (p_raw p)) m)))))"

definition ptr_with_raw :: "nat \<Rightarrow> nat \<Rightarrow> mem \<Rightarrow> exn + nat \<times> mem" where
  "ptr_with_raw i r m =
    ebind (ptr_at m i) (\<lambda>p.
      Inr (obj_new \<lparr>p_raw = Some r, p_off = p_off p, p_len = p_len p\<rparr>
             (upd_raw r (\<lambda>w. w\<lparr>r_nref := 1\<rparr>) m)))"

definition ptr_destroy :: "nat \<Rightarrow> mem \<Rightarrow> exn + mem" where
  "ptr_destroy i m =
    ebind (ptr_release i m) (\<lambda>m. Inr (m\<lparr>m_ptrs := (m_ptrs m)(i := None)\<rparr>))"

text \<open>
  Copy assignment takes the new reference before it releases the old one, so assigning
  an object to itself is harmless. After the release it reads the source's offset and
  length again.
\<close>

definition ptr_assign :: "nat \<Rightarrow> nat \<Rightarrow> mem \<Rightarrow> exn + mem" where
  "ptr_assign i j m =
    ebind (ptr_at m j) (\<lambda>q.
    let m = (case p_raw q of None \<Rightarrow> m | Some r \<Rightarrow> raw_ref r m) in
    ebind (ptr_release i m) (\<lambda>m.
    ebind (ptr_at m j) (\<lambda>q'.
      Inr (obj_set i
        (case p_raw q of
           Some r \<Rightarrow> \<lparr>p_raw = Some r, p_off = p_off q', p_len = p_len q'\<rparr>
         | None \<Rightarrow> null_ptr) m))))"

text \<open>Move assignment releases first, then looks at the source.\<close>

definition ptr_assign_move :: "nat \<Rightarrow> nat \<Rightarrow> mem \<Rightarrow> exn + mem" where
  "ptr_assign_move i j m =
    ebind (ptr_release i m) (\<lambda>m.
    ebind (ptr_at m j) (\<lambda>q.
      Inr (case p_raw q of
             Some r \<Rightarrow> obj_set j null_ptr (obj_set i q m)
           | None \<Rightarrow> obj_set i null_ptr m)))"

definition ptr_swap :: "nat \<Rightarrow> nat \<Rightarrow> mem \<Rightarrow> exn + mem" where
  "ptr_swap i j m =
    ebind (ptr_at m i) (\<lambda>p.
    ebind (ptr_at m j) (\<lambda>q. Inr (obj_set j p (obj_set i q m))))"

subsection \<open>Observers\<close>

definition ptr_raw :: "mem \<Rightarrow> nat \<Rightarrow> exn + nat" where
  "ptr_raw m i =
    ebind (ptr_at m i) (\<lambda>p. of_option Assert_failed (p_raw p))"

definition ptr_length :: "mem \<Rightarrow> nat \<Rightarrow> exn + nat" where
  "ptr_length m i = ebind (ptr_at m i) (\<lambda>p. Inr (p_len p))"

definition ptr_end :: "ptr \<Rightarrow> nat" where
  "ptr_end p = add64 (p_off p) (p_len p)"

definition have_raw :: "ptr \<Rightarrow> bool" where
  "have_raw p \<longleftrightarrow> p_raw p \<noteq> None"

definition raw_length :: "mem \<Rightarrow> nat \<Rightarrow> exn + nat" where
  "raw_length m i = ebind (ptr_raw m i) (\<lambda>r. ebind (raw_at m r) (\<lambda>w. Inr (r_len w)))"

definition raw_nref :: "mem \<Rightarrow> nat \<Rightarrow> exn + nat" where
  "raw_nref m i = ebind (ptr_raw m i) (\<lambda>r. ebind (raw_at m r) (\<lambda>w. Inr (r_nref w)))"

definition is_partial :: "mem \<Rightarrow> nat \<Rightarrow> exn + bool" where
  "is_partial m i =
    ebind (ptr_at m i) (\<lambda>p.
      if \<not> have_raw p then Inr False
      else ebind (raw_length m i) (\<lambda>n. Inr (0 < p_off p \<or> ptr_end p < n)))"

text \<open>\<^verbatim>\<open>c_str()\<close> as a raw and a position in it, and as an address.\<close>

definition c_str :: "mem \<Rightarrow> nat \<Rightarrow> exn + nat \<times> nat" where
  "c_str m i = ebind (ptr_raw m i) (\<lambda>r. ebind (ptr_at m i) (\<lambda>p. Inr (r, p_off p)))"

definition end_c_str :: "mem \<Rightarrow> nat \<Rightarrow> exn + nat \<times> nat" where
  "end_c_str m i = ebind (ptr_raw m i) (\<lambda>r. ebind (ptr_at m i) (\<lambda>p. Inr (r, p_off p + p_len p)))"

definition c_str_addr :: "mem \<Rightarrow> nat \<Rightarrow> exn + nat" where
  "c_str_addr m i =
    ebind (c_str m i) (\<lambda>(r, off). ebind (raw_at m r) (\<lambda>w. Inr (add64 (r_addr w) off)))"

definition ptr_is_aligned :: "mem \<Rightarrow> nat \<Rightarrow> nat \<Rightarrow> exn + bool" where
  "ptr_is_aligned m i align =
    ebind (c_str_addr m i) (\<lambda>a. Inr (a AND (sub64 align 1) = 0))"

definition is_n_align_sized :: "mem \<Rightarrow> nat \<Rightarrow> nat \<Rightarrow> exn + bool" where
  "is_n_align_sized m i align =
    ebind (ptr_at m i) (\<lambda>p.
      if align = 0 then Inl Undefined else Inr (p_len p mod align = 0))"

definition unused_tail_length :: "mem \<Rightarrow> ptr \<Rightarrow> exn + nat" where
  "unused_tail_length m p =
    (case p_raw p of
       None \<Rightarrow> Inr 0
     | Some r \<Rightarrow> ebind (raw_at m r) (\<lambda>w. Inr (sub64 (r_len w) (add64 (p_off p) (p_len p)))))"

definition ptr_wasted :: "mem \<Rightarrow> nat \<Rightarrow> exn + nat" where
  "ptr_wasted m i =
    ebind (ptr_at m i) (\<lambda>p.
    ebind (of_option Undefined (p_raw p)) (\<lambda>r.
    ebind (raw_at m r) (\<lambda>w. Inr (sub64 (r_len w) (p_len p)))))"

text \<open>Reading \<open>len\<close> bytes at a position of a raw.\<close>

definition raw_read :: "mem \<Rightarrow> nat \<Rightarrow> nat \<Rightarrow> nat \<Rightarrow> exn + bytes" where
  "raw_read m r off len =
    ebind (raw_at m r) (\<lambda>w.
      if off + len \<le> length (r_data w) then Inr (seg off len (r_data w)) else Inl Undefined)"

definition ptr_index :: "mem \<Rightarrow> nat \<Rightarrow> nat \<Rightarrow> exn + u8" where
  "ptr_index m i pos =
    ebind (ptr_at m i) (\<lambda>p.
    ebind (of_option Assert_failed (p_raw p)) (\<lambda>r.
    ebind (spec_assert (pos < p_len p)) (\<lambda>_.
    ebind (raw_read m r (add64 (p_off p) pos) 1) (\<lambda>bs. Inr (hd bs)))))"

definition ptr_copy_out :: "mem \<Rightarrow> nat \<Rightarrow> nat \<Rightarrow> nat \<Rightarrow> exn + bytes" where
  "ptr_copy_out m i offset len =
    ebind (ptr_at m i) (\<lambda>p.
    ebind (of_option Assert_failed (p_raw p)) (\<lambda>r.
      if add64 offset len > p_len p then Inl End_of_buffer
      else raw_read m r (add64 (p_off p) offset) len))"

text \<open>All bytes of a \<^verbatim>\<open>ptr\<close>, as code reading from \<^verbatim>\<open>c_str()\<close> sees them.\<close>

definition ptr_read :: "mem \<Rightarrow> nat \<Rightarrow> exn + bytes" where
  "ptr_read m i =
    ebind (ptr_at m i) (\<lambda>p.
    ebind (of_option Assert_failed (p_raw p)) (\<lambda>r. raw_read m r (p_off p) (p_len p)))"

text \<open>\<^verbatim>\<open>memcmp\<close> of equally long blocks: the sign of the first differing byte.\<close>

fun memcmp :: "bytes \<Rightarrow> bytes \<Rightarrow> int" where
  "memcmp (x # xs) (y # ys) = (if x = y then memcmp xs ys else if x < y then -1 else 1)"
| "memcmp _ _ = 0"

definition ptr_cmp :: "mem \<Rightarrow> nat \<Rightarrow> nat \<Rightarrow> exn + int" where
  "ptr_cmp m i j =
    ebind (ptr_at m i) (\<lambda>p.
    ebind (ptr_at m j) (\<lambda>q.
    let len = (if p_len p < p_len q then p_len p else p_len q) in
    ebind (if len \<noteq> 0
           then ebind (ptr_raw m i) (\<lambda>r. ebind (raw_read m r (p_off p) len) (\<lambda>xs.
                ebind (ptr_raw m j) (\<lambda>s. ebind (raw_read m s (p_off q) len) (\<lambda>ys.
                  Inr (memcmp xs ys)))))
           else Inr 0) (\<lambda>rst.
      Inr (if rst \<noteq> 0 then rst
           else if p_len p < p_len q then -1 else if p_len p > p_len q then 1 else 0))))"

definition ptr_is_zero :: "mem \<Rightarrow> nat \<Rightarrow> exn + bool" where
  "ptr_is_zero m i =
    ebind (c_str_addr m i) (\<lambda>a. ebind (ptr_read m i) (\<lambda>bs. Inr (mem_is_zero a bs)))"

subsection \<open>Mutators\<close>

definition ptr_copy_in :: "nat \<Rightarrow> nat \<Rightarrow> bytes \<Rightarrow> bool \<Rightarrow> mem \<Rightarrow> exn + mem" where
  "ptr_copy_in i offset src crc_reset m =
    ebind (ptr_at m i) (\<lambda>p.
    ebind (of_option Assert_failed (p_raw p)) (\<lambda>r.
    ebind (spec_assert (offset \<le> p_len p)) (\<lambda>_.
    ebind (spec_assert (add64 offset (length src) \<le> p_len p)) (\<lambda>_.
      let m = (if crc_reset then raw_invalidate_crc r m else m)
      in raw_write r (add64 (p_off p) offset) src m))))"

definition set_offset :: "nat \<Rightarrow> nat \<Rightarrow> mem \<Rightarrow> exn + mem" where
  "set_offset i offset m =
    ebind (raw_length m i) (\<lambda>n.
    ebind (spec_assert (n \<ge> offset)) (\<lambda>_.
    ebind (ptr_at m i) (\<lambda>p. Inr (obj_set i (p\<lparr>p_off := offset\<rparr>) m))))"

definition set_length :: "nat \<Rightarrow> nat \<Rightarrow> mem \<Rightarrow> exn + mem" where
  "set_length i len m =
    ebind (raw_length m i) (\<lambda>n.
    ebind (spec_assert (n \<ge> len)) (\<lambda>_.
    ebind (ptr_at m i) (\<lambda>p. Inr (obj_set i (p\<lparr>p_len := len\<rparr>) m))))"

text \<open>\<^verbatim>\<open>append\<close> of one byte, of a block, and of zeros differ in how they store only.\<close>

definition ptr_append :: "nat \<Rightarrow> bytes \<Rightarrow> mem \<Rightarrow> exn + nat \<times> mem" where
  "ptr_append i src m =
    ebind (ptr_at m i) (\<lambda>p.
    ebind (of_option Assert_failed (p_raw p)) (\<lambda>r.
    ebind (unused_tail_length m p) (\<lambda>n.
    ebind (spec_assert (length src \<le> n)) (\<lambda>_.
    ebind (raw_write r (add64 (p_off p) (p_len p)) src m) (\<lambda>m.
      let len = add64 (p_len p) (length src)
      in Inr (add64 (p_off p) len, obj_set i (p\<lparr>p_len := len\<rparr>) m))))))"

definition ptr_append_char :: "nat \<Rightarrow> u8 \<Rightarrow> mem \<Rightarrow> exn + nat \<times> mem" where
  "ptr_append_char i c m = ptr_append i [c] m"

definition append_zeros :: "nat \<Rightarrow> nat \<Rightarrow> mem \<Rightarrow> exn + nat \<times> mem" where
  "append_zeros i len m = ptr_append i (replicate len 0) m"

definition ptr_zero :: "nat \<Rightarrow> bool \<Rightarrow> mem \<Rightarrow> exn + mem" where
  "ptr_zero i crc_reset m =
    ebind (ptr_at m i) (\<lambda>p.
    ebind (if crc_reset
           then ebind (of_option Undefined (p_raw p)) (\<lambda>r. Inr (raw_invalidate_crc r m))
           else Inr m) (\<lambda>m.
    ebind (ptr_raw m i) (\<lambda>r. raw_write r (p_off p) (replicate (p_len p) 0) m)))"

definition ptr_zero_range :: "nat \<Rightarrow> nat \<Rightarrow> nat \<Rightarrow> bool \<Rightarrow> mem \<Rightarrow> exn + mem" where
  "ptr_zero_range i offset len crc_reset m =
    ebind (ptr_at m i) (\<lambda>p.
    ebind (spec_assert (add64 offset len \<le> p_len p)) (\<lambda>_.
    ebind (if crc_reset
           then ebind (of_option Undefined (p_raw p)) (\<lambda>r. Inr (raw_invalidate_crc r m))
           else Inr m) (\<lambda>m.
    ebind (ptr_raw m i) (\<lambda>r. raw_write r (p_off p + offset) (replicate len 0) m))))"

definition ptr_clone :: "nat \<Rightarrow> mem \<Rightarrow> exn + nat \<times> mem" where
  "ptr_clone i m =
    ebind (ptr_at m i) (\<lambda>p. ebind (of_option Undefined (p_raw p)) (\<lambda>r. raw_clone r m))"

definition ptr_get_mempool_type :: "mem \<Rightarrow> ptr \<Rightarrow> exn + pool_type_id" where
  "ptr_get_mempool_type m p =
    (case p_raw p of
       None \<Rightarrow> Inr Mempool_buffer_anon
     | Some r \<Rightarrow> ebind (raw_at m r) (\<lambda>w. Inr (r_pool w)))"

definition ptr_reassign_to_mempool :: "nat \<Rightarrow> pool_type_id \<Rightarrow> mem \<Rightarrow> exn + mem" where
  "ptr_reassign_to_mempool i t m =
    ebind (ptr_at m i) (\<lambda>p.
      case p_raw p of None \<Rightarrow> Inr m | Some r \<Rightarrow> raw_reassign_to_mempool r t m)"

definition ptr_try_assign_to_mempool :: "nat \<Rightarrow> pool_type_id \<Rightarrow> mem \<Rightarrow> exn + mem" where
  "ptr_try_assign_to_mempool i t m =
    ebind (ptr_at m i) (\<lambda>p.
      case p_raw p of None \<Rightarrow> Inr m | Some r \<Rightarrow> raw_try_assign_to_mempool r t m)"

end
