(* ===== verification/Buffer_Mem.thy ===== *)
theory Buffer_Mem
  imports Buffer_Ptr
begin

text \<open>
  The invariant of the store: every raw's reference counter is the number of \<^verbatim>\<open>ptr\<close>
  objects that hold it, no object holds a raw that was deleted, and no object's window
  leaves its raw. Each primitive of \<^verbatim>\<open>Buffer_Raw\<close> and \<^verbatim>\<open>Buffer_Ptr\<close> has one lemma here
  that says how it moves the invariant, and one that says what it leaves alone.
\<close>

named_theorems ptr_ops \<open>definitions of the primitives, for unfolding an operation\<close>
named_theorems frame \<open>what the primitives leave alone\<close>

subsection \<open>The invariant\<close>

definition refset :: "mem \<Rightarrow> nat \<Rightarrow> nat set" where
  "refset m r = {i. \<exists>p. m_ptrs m i = Some p \<and> p_raw p = Some r}"

definition wf_raw :: "raw \<Rightarrow> bool" where
  "wf_raw w \<longleftrightarrow> length (r_data w) = r_len w \<and> r_len w < two64"

definition wf_ptr :: "mem \<Rightarrow> ptr \<Rightarrow> bool" where
  "wf_ptr m p \<longleftrightarrow> (\<forall>r. p_raw p = Some r \<longrightarrow>
     (\<exists>w. m_raws m r = Some w \<and> p_off p + p_len p \<le> r_len w))"

text \<open>
  \<open>d r\<close> is the number of references of \<open>r\<close> an operation holds in a local variable at the
  moment; between operations it is 0.
\<close>

definition wf_core :: "(nat \<Rightarrow> int) \<Rightarrow> mem \<Rightarrow> bool" where
  "wf_core d m \<longleftrightarrow>
     finite (dom (m_ptrs m)) \<and>
     (\<forall>i p. m_ptrs m i = Some p \<longrightarrow> i < m_next m \<and> wf_ptr m p) \<and>
     (\<forall>r w. m_raws m r = Some w \<longrightarrow>
        r < m_next m \<and> wf_raw w \<and> int (r_nref w) = int (card (refset m r)) + d r)"

definition null_ok :: "mem \<Rightarrow> bool" where
  "null_ok m \<longleftrightarrow> (\<forall>i p. m_ptrs m i = Some p \<longrightarrow> p_raw p = None \<longrightarrow> p = null_ptr)"

text \<open>The raws without a reference are the ones in \<open>R\<close>: created, not yet in a \<^verbatim>\<open>ptr\<close>.\<close>

definition flying :: "nat set \<Rightarrow> mem \<Rightarrow> bool" where
  "flying R m \<longleftrightarrow> (\<forall>r w. m_raws m r = Some w \<longrightarrow> r_nref w = 0 \<longrightarrow> r \<in> R)"

definition wf_fl :: "nat set \<Rightarrow> mem \<Rightarrow> bool" where
  "wf_fl R m \<longleftrightarrow> wf_core (\<lambda>_. 0) m \<and> null_ok m \<and> flying R m"

abbreviation wf_mem :: "mem \<Rightarrow> bool" where
  "wf_mem m \<equiv> wf_fl {} m"

lemmas wf_defs = wf_core_def null_ok_def flying_def wf_fl_def wf_ptr_def wf_raw_def

lemma wf_coreI:
  assumes "finite (dom (m_ptrs m))"
    and "\<And>i p. m_ptrs m i = Some p \<Longrightarrow> i < m_next m \<and> wf_ptr m p"
    and "\<And>r w. m_raws m r = Some w \<Longrightarrow>
      r < m_next m \<and> wf_raw w \<and> int (r_nref w) = int (card (refset m r)) + d r"
  shows "wf_core d m"
  using assms unfolding wf_core_def by blast

lemma wf_coreD:
  assumes "wf_core d m"
  shows "finite (dom (m_ptrs m))"
    and "m_ptrs m i = Some p \<Longrightarrow> i < m_next m"
    and "m_ptrs m i = Some p \<Longrightarrow> wf_ptr m p"
    and "m_raws m r = Some w \<Longrightarrow> r < m_next m"
    and "m_raws m r = Some w \<Longrightarrow> wf_raw w"
    and "m_raws m r = Some w \<Longrightarrow> int (r_nref w) = int (card (refset m r)) + d r"
  using assms unfolding wf_core_def by blast+

lemma finite_refset: "wf_core d m \<Longrightarrow> finite (refset m r)"
  by (rule finite_subset [OF _ wf_coreD(1)]) (auto simp: refset_def)

lemma wf_core_fresh:
  assumes "wf_core d m"
  shows "m_ptrs m (m_next m) = None" "m_raws m (m_next m) = None" "refset m (m_next m) = {}"
proof -
  show "m_ptrs m (m_next m) = None" "m_raws m (m_next m) = None"
    using wf_coreD(2,4) [OF assms] by (meson less_irrefl not_None_eq)+
  then show "refset m (m_next m) = {}"
    using wf_coreD(3) [OF assms] unfolding refset_def wf_ptr_def by force
qed

lemma wf_core_cong:
  assumes "wf_core d m" "\<And>r. m_raws m r \<noteq> None \<Longrightarrow> d' r = d r"
  shows "wf_core d' m"
  using assms unfolding wf_core_def by (metis option.distinct(1))

subsection \<open>The primitives and the invariant\<close>

lemma refset_obj_set:
  "refset (obj_set i p m) r = (if p_raw p = Some r then insert i (refset m r) else refset m r - {i})"
  by (auto simp: refset_def obj_set_def)

lemma obj_set_sel [simp]:
  "m_ptrs (obj_set i p m) = (m_ptrs m)(i \<mapsto> p)" "m_raws (obj_set i p m) = m_raws m"
  "m_next (obj_set i p m) = m_next m" "m_env (obj_set i p m) = m_env m"
  by (simp_all add: obj_set_def)

lemma obj_new_sel [simp]:
  "fst (obj_new p m) = m_next m" "m_ptrs (snd (obj_new p m)) = (m_ptrs m)(m_next m \<mapsto> p)"
  "m_raws (snd (obj_new p m)) = m_raws m" "m_next (snd (obj_new p m)) = Suc (m_next m)"
  "m_env (snd (obj_new p m)) = m_env m"
  by (simp_all add: obj_new_def)

lemma refset_upd_raw [simp]: "refset (upd_raw r f m) = refset m"
  by (simp add: refset_def upd_raw_def fun_eq_iff)

lemma refset_m_raws [simp]: "refset (m\<lparr>m_raws := x\<rparr>) = refset m"
  by (simp add: refset_def fun_eq_iff)

lemma refset_m_pools [simp]: "refset (m\<lparr>m_pools := x\<rparr>) = refset m"
  by (simp add: refset_def fun_eq_iff)

lemma m_ptrs_upd_raw [simp]: "m_ptrs (upd_raw r f m) = m_ptrs m"
  by (simp add: upd_raw_def)

lemma m_next_upd_raw [simp]: "m_next (upd_raw r f m) = m_next m"
  by (simp add: upd_raw_def)

lemma m_env_upd_raw [simp]: "m_env (upd_raw r f m) = m_env m"
  by (simp add: upd_raw_def)

lemma m_raws_upd_raw: "m_raws (upd_raw r f m) = (m_raws m)(r := map_option f (m_raws m r))"
  by (simp add: upd_raw_def)

lemma pool_adjust_sel [simp]:
  "m_ptrs (pool_adjust t a b m) = m_ptrs m" "m_raws (pool_adjust t a b m) = m_raws m"
  "m_next (pool_adjust t a b m) = m_next m" "m_env (pool_adjust t a b m) = m_env m"
  "refset (pool_adjust t a b m) = refset m"
  by (simp_all add: pool_adjust_def)

definition new_raw :: "raw_kind \<Rightarrow> nat \<Rightarrow> bytes \<Rightarrow> pool_type_id \<Rightarrow> raw" where
  "new_raw k a data t = \<lparr>r_kind = k, r_addr = a, r_data = data, r_len = length data, r_nref = 0,
     r_pool = t, r_crc_offset = no_crc, r_crc_val = (0, 0)\<rparr>"

lemma new_raw_sel [simp]:
  "r_data (new_raw k a data t) = data" "r_len (new_raw k a data t) = length data"
  "r_nref (new_raw k a data t) = 0" "r_crc_offset (new_raw k a data t) = no_crc"
  "r_addr (new_raw k a data t) = a" "r_pool (new_raw k a data t) = t"
  "r_kind (new_raw k a data t) = k"
  by (simp_all add: new_raw_def)

lemma raw_init_sel:
  "fst (raw_init k a data len t m) = m_next m"
  "m_ptrs (snd (raw_init k a data len t m)) = m_ptrs m"
  "m_next (snd (raw_init k a data len t m)) = Suc (m_next m)"
  "m_env (snd (raw_init k a data len t m)) = m_env m"
  "refset (snd (raw_init k a data len t m)) = refset m"
  "length data = len \<Longrightarrow> m_raws (snd (raw_init k a data len t m)) = (m_raws m)(m_next m \<mapsto> new_raw k a data t)"
  by (simp_all add: raw_init_def Let_def new_raw_def refset_def fun_eq_iff)

lemma wf_core_pool_adjust [simp]: "wf_core d (pool_adjust t a b m) = wf_core d m"
  by (simp add: wf_core_def wf_ptr_def)

lemma wf_core_upd_raw:
  assumes "wf_core d m"
    and "\<And>w. m_raws m r = Some w \<Longrightarrow>
      wf_raw (f w) \<and> r_len (f w) = r_len w \<and> int (r_nref (f w)) = int (r_nref w) + k"
  shows "wf_core (d(r := d r + k)) (upd_raw r f m)"
proof (rule wf_coreI, goal_cases)
  case 1
  then show ?case using wf_coreD(1) [OF assms(1)] by simp
next
  case (2 i p)
  then have "wf_ptr m p" "i < m_next m" using wf_coreD(2,3) [OF assms(1)] by auto
  then show ?case using assms(2) by (auto simp: wf_ptr_def m_raws_upd_raw)
next
  case (3 s w)
  show ?case
  proof (cases "s = r")
    case True
    then obtain w0 where w0: "m_raws m r = Some w0" "w = f w0"
      using 3 by (auto simp: m_raws_upd_raw)
    then show ?thesis using assms(2) [OF w0(1)] wf_coreD(4,6) [OF assms(1) w0(1)] True by simp
  next
    case False
    then have "m_raws m s = Some w" using 3 by (simp add: m_raws_upd_raw)
    then show ?thesis using wf_coreD(4-6) [OF assms(1)] False by simp
  qed
qed

lemma wf_core_upd_raw_same:
  assumes "wf_core d m"
    and "\<And>w. m_raws m r = Some w \<Longrightarrow>
      wf_raw (f w) \<and> r_len (f w) = r_len w \<and> r_nref (f w) = r_nref w"
  shows "wf_core d (upd_raw r f m)"
  using wf_core_upd_raw [of d m r f 0] assms by simp

lemma wf_core_raw_ref:
  assumes "wf_core d m"
  shows "wf_core (d(r := d r + 1)) (raw_ref r m)"
  unfolding raw_ref_def
  by (rule wf_core_upd_raw [OF assms]) (auto dest: wf_coreD(5) [OF assms] simp: wf_raw_def)

definition holds :: "ptr \<Rightarrow> nat \<Rightarrow> int" where
  "holds p r = (if p_raw p = Some r then 1 else 0)"

lemma wf_core_obj_set:
  assumes "wf_core d m" "m_ptrs m i = Some p0" "wf_ptr m p"
  shows "wf_core (\<lambda>r. d r + holds p0 r - holds p r) (obj_set i p m)"
proof (rule wf_coreI, goal_cases)
  case 1
  then show ?case using wf_coreD(1) [OF assms(1)] by (simp add: obj_set_def)
next
  case (2 j q)
  then show ?case using wf_coreD(2,3) [OF assms(1)] assms(2,3)
    by (auto simp: obj_set_def wf_ptr_def split: if_splits)
next
  case (3 r w)
  then have w: "m_raws m r = Some w" by (simp add: obj_set_def)
  have fin: "finite (refset m r)" by (rule finite_refset [OF assms(1)])
  have mem: "i \<in> refset m r \<longleftrightarrow> p_raw p0 = Some r" using assms(2) by (simp add: refset_def)
  have "int (card (refset (obj_set i p m) r)) = int (card (refset m r)) - holds p0 r + holds p r"
    using fin mem card_gt_0_iff [of "refset m r"]
    by (auto simp: refset_obj_set holds_def card_insert_if card_Diff_singleton_if)
  then show ?case using wf_coreD(4-6) [OF assms(1) w] by (simp add: obj_set_def)
qed

lemma wf_core_obj_new:
  assumes "wf_core d m" "wf_ptr m p"
  shows "wf_core (\<lambda>r. d r - holds p r) (snd (obj_new p m))"
proof (rule wf_coreI, goal_cases)
  case 1
  then show ?case using wf_coreD(1) [OF assms(1)] by (simp add: obj_new_def)
next
  case (2 j q)
  then show ?case using wf_coreD(2,3) [OF assms(1)] assms(2)
    by (auto simp: obj_new_def wf_ptr_def less_Suc_eq split: if_splits)
next
  case (3 r w)
  then have w: "m_raws m r = Some w" by (simp add: obj_new_def)
  have fin: "finite (refset m r)" by (rule finite_refset [OF assms(1)])
  have new: "m_next m \<notin> refset m r"
    using wf_core_fresh(1) [OF assms(1)] by (simp add: refset_def)
  have "refset (snd (obj_new p m)) r
      = (if p_raw p = Some r then insert (m_next m) (refset m r) else refset m r)"
    using new by (auto simp: refset_def obj_new_def)
  then have "int (card (refset (snd (obj_new p m)) r)) = int (card (refset m r)) + holds p r"
    using fin new by (simp add: holds_def)
  then show ?case using wf_coreD(4-6) [OF assms(1) w] by (simp add: obj_new_def)
qed

definition obj_del :: "nat \<Rightarrow> mem \<Rightarrow> mem" where
  "obj_del i m = m\<lparr>m_ptrs := (m_ptrs m)(i := None)\<rparr>"

lemma wf_core_obj_del:
  assumes "wf_core d m" "m_ptrs m i = Some p0" "p_raw p0 = None"
  shows "wf_core d (obj_del i m)"
proof -
  have "refset (obj_del i m) = refset m"
    using assms(2,3) by (auto simp: refset_def obj_del_def fun_eq_iff)
  then show ?thesis
    using assms(1) unfolding wf_core_def wf_ptr_def
    by (auto simp: obj_del_def split: if_splits)
qed

lemma wf_core_raw_init:
  assumes "wf_core d m" "length data = len" "len < two64"
  shows "wf_core (d(m_next m := 0)) (snd (raw_init k a data len t m))"
proof (rule wf_coreI, goal_cases)
  case 1
  then show ?case using wf_coreD(1) [OF assms(1)] by (simp add: raw_init_sel)
next
  case (2 j q)
  then have "m_ptrs m j = Some q" by (simp add: raw_init_sel)
  then have "wf_ptr m q" "j < m_next m" using wf_coreD(2,3) [OF assms(1)] by auto
  then show ?case using wf_core_fresh(2) [OF assms(1)]
    by (force simp: wf_ptr_def raw_init_sel assms(2))
next
  case (3 r w)
  show ?case
  proof (cases "r = m_next m")
    case True
    then show ?thesis using 3 assms(2,3) wf_core_fresh(3) [OF assms(1)]
      by (auto simp: raw_init_sel wf_raw_def)
  next
    case False
    then have "m_raws m r = Some w" using 3 by (simp add: raw_init_sel assms(2))
    then show ?thesis using wf_coreD(4-6) [OF assms(1)] False
      by (auto simp: raw_init_sel intro: less_SucI)
  qed
qed

lemma raw_unref_cases:
  assumes "wf_core d m" "m_raws m r = Some w" "1 \<le> d r"
  shows "raw_unref r m =
    Inr (if r_nref w = 1
         then (pool_adjust (r_pool w) (-1) (neg_int (r_len w)) m)\<lparr>m_raws := (m_raws m)(r := None)\<rparr>
         else upd_raw r (\<lambda>w. w\<lparr>r_nref := r_nref w - 1\<rparr>) m)"
proof -
  have "1 \<le> r_nref w" using wf_coreD(6) [OF assms(1,2)] assms(3) by simp
  moreover have "upd_raw r (\<lambda>w'. w'\<lparr>r_nref := r_nref w - 1\<rparr>) m
      = upd_raw r (\<lambda>w. w\<lparr>r_nref := r_nref w - 1\<rparr>) m"
    using assms(2) by (simp add: upd_raw_def)
  ultimately show ?thesis
    using assms(2) by (auto simp: raw_unref_def raw_at_def raw_delete_def)
qed

lemma wf_core_raw_unref:
  assumes "wf_core d m" "m_raws m r = Some w" "1 \<le> d r"
  shows "\<exists>m'. raw_unref r m = Inr m' \<and> wf_core (d(r := d r - 1)) m'"
proof (cases "r_nref w = 1")
  case True
  have "card (refset m r) = 0" using wf_coreD(6) [OF assms(1,2)] assms(3) True by simp
  then have none: "refset m r = {}" using finite_refset [OF assms(1)] by simp
  let ?m = "(pool_adjust (r_pool w) (-1) (neg_int (r_len w)) m)\<lparr>m_raws := (m_raws m)(r := None)\<rparr>"
  have "wf_core (d(r := d r - 1)) ?m"
  proof (rule wf_coreI, goal_cases)
    case 1
    then show ?case using wf_coreD(1) [OF assms(1)] by simp
  next
    case (2 i p)
    then have "wf_ptr m p" "i < m_next m" "p_raw p \<noteq> Some r"
      using wf_coreD(2,3) [OF assms(1)] none by (auto simp: refset_def)
    then show ?case by (auto simp: wf_ptr_def)
  next
    case (3 s w')
    then have "m_raws m s = Some w'" "s \<noteq> r" by (auto split: if_splits)
    then show ?case using wf_coreD(4-6) [OF assms(1)] by simp
  qed
  then show ?thesis using raw_unref_cases [OF assms] True by simp
next
  case False
  have "wf_core (d(r := d r + (-1))) (upd_raw r (\<lambda>w. w\<lparr>r_nref := r_nref w - 1\<rparr>) m)"
  proof (rule wf_core_upd_raw [OF assms(1)])
    fix v assume "m_raws m r = Some v"
    then show "wf_raw (v\<lparr>r_nref := r_nref v - 1\<rparr>) \<and> r_len (v\<lparr>r_nref := r_nref v - 1\<rparr>) = r_len v
      \<and> int (r_nref (v\<lparr>r_nref := r_nref v - 1\<rparr>)) = int (r_nref v) + -1"
      using wf_coreD(5,6) [OF assms(1), of r v] assms(3) by (simp add: wf_raw_def)
  qed
  then show ?thesis using raw_unref_cases [OF assms] False by simp
qed

subsection \<open>What an operation leaves alone\<close>

text \<open>
  A step is quiet when the raws it leaves in the store have kept everything but their
  counter and their pool, except for raws it created.
\<close>

definition same_raw :: "raw \<Rightarrow> raw \<Rightarrow> bool" where
  "same_raw w w' \<longleftrightarrow> w' = w\<lparr>r_nref := r_nref w', r_pool := r_pool w'\<rparr>"

definition quiet :: "mem \<Rightarrow> mem \<Rightarrow> bool" where
  "quiet m m' \<longleftrightarrow> m_env m' = m_env m \<and> m_next m \<le> m_next m' \<and>
     (\<forall>r w'. m_raws m' r = Some w' \<longrightarrow>
        m_next m \<le> r \<or> (\<exists>w. m_raws m r = Some w \<and> same_raw w w'))"

definition ptr_bytes :: "mem \<Rightarrow> ptr \<Rightarrow> bytes" where
  "ptr_bytes m p =
    (case p_raw p of
       None \<Rightarrow> []
     | Some r \<Rightarrow> (case m_raws m r of
         None \<Rightarrow> [] | Some w \<Rightarrow> seg (p_off p) (p_len p) (r_data w)))"

definition node_bytes :: "mem \<Rightarrow> nat \<Rightarrow> bytes" where
  "node_bytes m i = (case m_ptrs m i of None \<Rightarrow> [] | Some p \<Rightarrow> ptr_bytes m p)"

definition keeps :: "nat set \<Rightarrow> mem \<Rightarrow> mem \<Rightarrow> bool" where
  "keeps I m m' \<longleftrightarrow> m_env m' = m_env m \<and> m_next m \<le> m_next m' \<and>
     (\<forall>i \<in> I. m_ptrs m' i = m_ptrs m i \<and> node_bytes m' i = node_bytes m i)"

lemma same_raw_refl [simp]: "same_raw w w"
  by (simp add: same_raw_def)

lemma same_raw_sel:
  assumes "same_raw w w'"
  shows "r_data w' = r_data w" "r_len w' = r_len w" "r_addr w' = r_addr w" "r_kind w' = r_kind w"
    "r_crc_offset w' = r_crc_offset w" "r_crc_val w' = r_crc_val w"
  using assms unfolding same_raw_def by (metis raw.select_convs raw.surjective raw.update_convs)+

lemma same_raw_trans: "same_raw u v \<Longrightarrow> same_raw v w \<Longrightarrow> same_raw u w"
  unfolding same_raw_def by (cases u; cases v; cases w) simp

lemma same_raw_upd [simp]: "same_raw w (w\<lparr>r_nref := n\<rparr>)" "same_raw w (w\<lparr>r_pool := t\<rparr>)"
  by (simp_all add: same_raw_def)

lemma quiet_refl [simp]: "quiet m m"
  by (simp add: quiet_def)

lemma quiet_trans:
  assumes "quiet m m'" "quiet m' m''"
  shows "quiet m m''"
  unfolding quiet_def
proof (intro conjI allI impI)
  show "m_env m'' = m_env m" "m_next m \<le> m_next m''" using assms by (auto simp: quiet_def)
  fix r w'' assume r: "m_raws m'' r = Some w''"
  show "m_next m \<le> r \<or> (\<exists>w. m_raws m r = Some w \<and> same_raw w w'')"
  proof (cases "m_next m \<le> r")
    case False
    then have "r < m_next m'" using assms(1) by (simp add: quiet_def)
    then obtain w' where "m_raws m' r = Some w'" "same_raw w' w''"
      using assms(2) r unfolding quiet_def by (meson not_le)
    then show ?thesis using assms(1) False unfolding quiet_def by (meson same_raw_trans)
  qed simp
qed

lemma keeps_refl [simp]: "keeps I m m"
  by (simp add: keeps_def)

lemma keeps_trans: "keeps I m m' \<Longrightarrow> keeps I m' m'' \<Longrightarrow> keeps I m m''"
  by (auto simp: keeps_def)

lemma keeps_mono: "keeps I m m' \<Longrightarrow> J \<subseteq> I \<Longrightarrow> keeps J m m'"
  by (auto simp: keeps_def)

lemma keepsD:
  assumes "keeps I m m'"
  shows "i \<in> I \<Longrightarrow> m_ptrs m' i = m_ptrs m i" "i \<in> I \<Longrightarrow> node_bytes m' i = node_bytes m i"
    "m_env m' = m_env m" "m_next m \<le> m_next m'"
  using assms by (auto simp: keeps_def)

lemma ptr_bytes_quiet:
  assumes "quiet m m'" "wf_core d m" "m_ptrs m i = Some p" "wf_ptr m' p"
  shows "ptr_bytes m' p = ptr_bytes m p"
proof (cases "p_raw p")
  case (Some r)
  obtain w where w: "m_raws m r = Some w"
    using wf_coreD(3) [OF assms(2,3)] Some by (auto simp: wf_ptr_def)
  obtain w' where w': "m_raws m' r = Some w'" using assms(4) Some by (auto simp: wf_ptr_def)
  have "m_next m \<le> r \<or> (\<exists>w. m_raws m r = Some w \<and> same_raw w w')"
    using assms(1) w' unfolding quiet_def by blast
  then have "same_raw w w'" using wf_coreD(4) [OF assms(2) w] w by simp
  then show ?thesis using w w' Some by (simp add: ptr_bytes_def same_raw_sel)
qed (simp add: ptr_bytes_def)

lemma keeps_quiet:
  assumes q: "quiet m m'" and wf: "wf_core d m" "wf_core d' m'"
    and same: "\<And>i. i \<in> I \<Longrightarrow> m_ptrs m' i = m_ptrs m i"
  shows "keeps I m m'"
proof -
  have "node_bytes m' i = node_bytes m i" if i: "i \<in> I" for i
  proof (cases "m_ptrs m i")
    case None
    then show ?thesis using same [OF i] by (simp add: node_bytes_def)
  next
    case (Some p)
    then have wp: "wf_ptr m p" "wf_ptr m' p"
      using wf_coreD(3) [OF wf(1)] wf_coreD(3) [OF wf(2)] same [OF i] by auto
    have "ptr_bytes m' p = ptr_bytes m p"
    proof (cases "p_raw p")
      case (Some r)
      then obtain w w' where w: "m_raws m r = Some w" "m_raws m' r = Some w'"
        using wp by (auto simp: wf_ptr_def)
      have "m_next m \<le> r \<or> (\<exists>w. m_raws m r = Some w \<and> same_raw w w')"
        using q w(2) unfolding quiet_def by blast
      then have "same_raw w w'" using wf_coreD(4) [OF wf(1) w(1)] w(1) by simp
      then show ?thesis using Some w by (simp add: ptr_bytes_def same_raw_sel)
    qed (simp add: ptr_bytes_def)
    then show ?thesis using Some same [OF i] by (simp add: node_bytes_def)
  qed
  then show ?thesis using q same by (simp add: keeps_def quiet_def)
qed

subsection \<open>Releasing and taking references\<close>

lemma quiet_simple:
  "quiet m (obj_set i p m)" "quiet m (snd (obj_new p m))" "quiet m (obj_del i m)"
  "quiet m (pool_adjust t a b m)" "quiet m (raw_ref r m)"
  by (auto simp: quiet_def obj_set_def obj_new_def obj_del_def raw_ref_def upd_raw_def
      split: if_splits)

lemma quiet_raw_unref:
  assumes "wf_core d m" "m_raws m r = Some w" "1 \<le> d r" "raw_unref r m = Inr m'"
  shows "quiet m m'" "m_ptrs m' = m_ptrs m" "m_next m' = m_next m"
    "m_raws m' = (m_raws m)(r := if r_nref w = 1 then None else Some (w\<lparr>r_nref := r_nref w - 1\<rparr>))"
  using assms(2,4) raw_unref_cases [OF assms(1-3)]
  by (auto simp: quiet_def upd_raw_def split: if_splits)

lemma flying_raw_ref: "flying R m \<Longrightarrow> flying R (raw_ref r m)"
  by (auto simp: flying_def raw_ref_def upd_raw_def split: if_splits)

lemma flying_simple [simp]:
  "flying R (obj_set i p m) = flying R m" "flying R (snd (obj_new p m)) = flying R m"
  "flying R (obj_del i m) = flying R m" "flying R (pool_adjust t a b m) = flying R m"
  by (simp_all add: flying_def obj_set_def obj_new_def obj_del_def)

lemma flying_raw_unref:
  assumes "wf_core d m" "m_raws m r = Some w" "1 \<le> d r" "raw_unref r m = Inr m'" "flying R m"
  shows "flying R m'"
proof -
  have "1 \<le> r_nref w" using wf_coreD(6) [OF assms(1,2)] assms(3) by simp
  then show ?thesis using assms(5) quiet_raw_unref(4) [OF assms(1-4)]
    by (auto simp: flying_def split: if_splits)
qed

text \<open>The state after \<^verbatim>\<open>release\<close>: the object holds nothing and the counts are exact.\<close>

lemma ptr_release_spec:
  assumes "wf_core d m" "flying R m" "m_ptrs m i = Some p" "\<And>r. p_raw p = Some r \<Longrightarrow> 0 \<le> d r"
  shows "\<exists>m'. ptr_release i m = Inr m' \<and> wf_core d m' \<and> flying R m' \<and> quiet m m' \<and>
    m_ptrs m' = (m_ptrs m)(i \<mapsto> p\<lparr>p_raw := None\<rparr>) \<and> m_next m' = m_next m \<and>
    (\<forall>s w. m_raws m s = Some w \<longrightarrow> 1 \<le> d s \<longrightarrow> (\<exists>w'. m_raws m' s = Some w' \<and> r_len w' = r_len w))"
proof (cases "p_raw p")
  case None
  then have "ptr_release i m = Inr (obj_set i (p\<lparr>p_raw := None\<rparr>) m)"
    using assms(3) by (simp add: ptr_release_def ptr_at_def)
  moreover have "wf_core d (obj_set i (p\<lparr>p_raw := None\<rparr>) m)"
    using wf_core_obj_set [OF assms(1,3), of "p\<lparr>p_raw := None\<rparr>"] None
    by (simp add: holds_def wf_ptr_def)
  ultimately show ?thesis using assms(2) quiet_simple(1) by simp
next
  case (Some r)
  let ?m = "obj_set i (p\<lparr>p_raw := None\<rparr>) m"
  have rel: "ptr_release i m = raw_unref r ?m"
    using assms(3) Some by (simp add: ptr_release_def ptr_at_def)
  obtain w where w: "m_raws m r = Some w"
    using wf_coreD(3) [OF assms(1,3)] Some by (auto simp: wf_ptr_def)
  have wf: "wf_core (d(r := d r + 1)) ?m"
    by (rule wf_core_cong [OF wf_core_obj_set [OF assms(1,3)]])
      (use Some in \<open>auto simp: holds_def wf_ptr_def\<close>)
  have w': "m_raws ?m r = Some w" using w by (simp add: obj_set_def)
  have one: "1 \<le> (d(r := d r + 1)) r" using assms(4) Some by simp
  have eq: "(d(r := d r + 1))(r := (d(r := d r + 1)) r - 1) = d" by (simp add: fun_eq_iff)
  obtain m' where m': "raw_unref r ?m = Inr m'" "wf_core d m'"
    using wf_core_raw_unref [OF wf w' one] unfolding eq by blast
  have "flying R ?m" using assms(2) by simp
  then have "flying R m'" by (rule flying_raw_unref [OF wf w' one m'(1)])
  moreover have "quiet m m'"
    using quiet_raw_unref(1) [OF wf w' one m'(1)] quiet_simple(1) quiet_trans by blast
  moreover have "r_nref w \<noteq> 1" if "1 \<le> d r"
    using wf_coreD(6) [OF wf w'] that by simp
  then have "\<exists>v'. m_raws m' s = Some v' \<and> r_len v' = r_len v"
    if "m_raws m s = Some v" "1 \<le> d s" for s v
    using quiet_raw_unref(4) [OF wf w' one m'(1)] that w by (cases "s = r") auto
  ultimately show ?thesis
    using rel m' quiet_raw_unref(2,3) [OF wf w' one m'(1)] by auto
qed

end
