(* ===== verification/Ptr_Ops.thy ===== *)
theory Ptr_Ops
  imports Buffer_Mem
begin

text \<open>
  What each operation on \<^verbatim>\<open>ptr\<close> objects does to the store: its outcome, the object table
  afterwards, and that the reference counts stay exact. Allocation is covered under the
  assumption that the platform's allocator does not fail.
\<close>

unbundle bit_operations_syntax

subsection \<open>Copies, moves, destruction\<close>

lemma wf_flD:
  assumes "wf_fl R m"
  shows "wf_core (\<lambda>_. 0) m" "null_ok m" "flying R m"
  using assms by (auto simp: wf_fl_def)

lemma keeps_wf_fl:
  assumes "quiet m m'" "wf_fl R m" "wf_fl R' m'" "\<And>i. i \<in> I \<Longrightarrow> m_ptrs m' i = m_ptrs m i"
  shows "keeps I m m'"
  using keeps_quiet [OF assms(1) wf_flD(1) [OF assms(2)] wf_flD(1) [OF assms(3)]] assms(4) by blast

lemma node_bytes_ptr: "m_ptrs m i = Some p \<Longrightarrow> node_bytes m i = ptr_bytes m p"
  by (simp add: node_bytes_def)

lemma ptr_bytes_eq:
  "m_raws m r = Some w \<Longrightarrow> p_raw p = Some r \<Longrightarrow> ptr_bytes m p = seg (p_off p) (p_len p) (r_data w)"
  by (simp add: ptr_bytes_def)

lemma wf_ptr_raw:
  assumes "wf_core d m" "m_ptrs m i = Some p" "p_raw p = Some r"
  shows "\<exists>w. m_raws m r = Some w \<and> p_off p + p_len p \<le> r_len w \<and> wf_raw w \<and>
    length (r_data w) = r_len w \<and> r_len w < two64"
  using wf_coreD(3) [OF assms(1,2)] wf_coreD(5) [OF assms(1)] assms(3)
  by (auto simp: wf_ptr_def wf_raw_def)

lemma length_ptr_bytes:
  assumes "wf_core d m" "m_ptrs m i = Some p" "p_raw p \<noteq> None"
  shows "length (node_bytes m i) = p_len p"
proof -
  obtain r where "p_raw p = Some r" using assms(3) by blast
  then show ?thesis using wf_ptr_raw [OF assms(1,2)] assms(2)
    by (auto simp: node_bytes_def ptr_bytes_def)
qed

lemma length_node_bytes:
  assumes "wf_fl R m" "m_ptrs m i = Some p"
  shows "length (node_bytes m i) = p_len p"
proof (cases "p_raw p")
  case None
  then have "p = null_ptr" using wf_flD(2) [OF assms(1)] assms(2) by (simp add: null_ok_def)
  then show ?thesis using assms(2) by (simp add: null_ptr_def node_bytes_def ptr_bytes_def)
qed (use length_ptr_bytes [OF wf_flD(1) [OF assms(1)] assms(2)] in auto)

lemma len_pos_raw:
  assumes "wf_fl R m" "m_ptrs m i = Some p" "p_len p \<noteq> 0"
  shows "p_raw p \<noteq> None"
proof
  assume "p_raw p = None"
  then have "p = null_ptr" using wf_flD(2) [OF assms(1)] assms(2) by (simp add: null_ok_def)
  then show False using assms(3) by (simp add: null_ptr_def)
qed

lemma ptr_destroy_spec:
  assumes "wf_fl R m" "m_ptrs m i = Some p"
  shows "\<exists>m'. ptr_destroy i m = Inr m' \<and> wf_fl R m' \<and> quiet m m' \<and>
    m_ptrs m' = (m_ptrs m)(i := None) \<and> m_next m' = m_next m"
proof -
  obtain m1 where m1: "ptr_release i m = Inr m1" "wf_core (\<lambda>_. 0) m1" "flying R m1" "quiet m m1"
    "m_ptrs m1 = (m_ptrs m)(i \<mapsto> p\<lparr>p_raw := None\<rparr>)" "m_next m1 = m_next m"
    using ptr_release_spec [OF wf_flD(1,3) [OF assms(1)] assms(2)] by auto
  let ?m = "m1\<lparr>m_ptrs := (m_ptrs m1)(i := None)\<rparr>"
  have d: "?m = obj_del i m1" by (simp add: obj_del_def)
  have "wf_core (\<lambda>_. 0) ?m"
    unfolding d by (rule wf_core_obj_del [OF m1(2), of _ "p\<lparr>p_raw := None\<rparr>"]) (simp_all add: m1(5))
  moreover have "null_ok ?m"
    using wf_flD(2) [OF assms(1)] by (auto simp: null_ok_def m1(5) split: if_splits)
  moreover have "flying R ?m" unfolding d using m1(3) by simp
  moreover have "quiet m ?m" unfolding d using m1(4) quiet_simple(3) quiet_trans by blast
  ultimately show ?thesis using m1(1,5,6) by (simp add: ptr_destroy_def wf_fl_def)
qed

lemma new_holder:
  assumes "wf_fl R m" "wf_ptr m p" "p_raw p = Some r"
  shows "wf_fl R (snd (obj_new p (raw_ref r m)))" "quiet m (snd (obj_new p (raw_ref r m)))"
proof -
  have "wf_ptr (raw_ref r m) p"
    using assms(2) by (auto simp: wf_ptr_def raw_ref_def m_raws_upd_raw)
  then have "wf_core (\<lambda>s. ((\<lambda>_. 0)(r := 0 + 1)) s - holds p s) (snd (obj_new p (raw_ref r m)))"
    by (rule wf_core_obj_new [OF wf_core_raw_ref [OF wf_flD(1) [OF assms(1)]]])
  then have "wf_core (\<lambda>_. 0) (snd (obj_new p (raw_ref r m)))"
    by (rule wf_core_cong) (use assms(3) in \<open>simp add: holds_def\<close>)
  moreover have "null_ok (snd (obj_new p (raw_ref r m)))"
    using wf_flD(2) [OF assms(1)] assms(3) by (auto simp: null_ok_def raw_ref_def)
  ultimately show "wf_fl R (snd (obj_new p (raw_ref r m)))"
    using flying_raw_ref [OF wf_flD(3) [OF assms(1)]] by (simp add: wf_fl_def)
  show "quiet m (snd (obj_new p (raw_ref r m)))"
    using quiet_simple(2,5) quiet_trans by blast
qed

lemma new_null:
  assumes "wf_fl R m"
  shows "wf_fl R (snd (obj_new null_ptr m))" "quiet m (snd (obj_new null_ptr m))"
proof -
  have "wf_core (\<lambda>r. 0 - holds null_ptr r) (snd (obj_new null_ptr m))"
    by (rule wf_core_obj_new [OF wf_flD(1) [OF assms]]) (simp add: wf_ptr_def null_ptr_def)
  then have "wf_core (\<lambda>_. 0) (snd (obj_new null_ptr m))"
    by (rule wf_core_cong) (simp add: holds_def null_ptr_def)
  then show "wf_fl R (snd (obj_new null_ptr m))"
    using wf_flD(2,3) [OF assms] by (auto simp: wf_fl_def null_ok_def)
  show "quiet m (snd (obj_new null_ptr m))" by (rule quiet_simple)
qed

lemma ptr_copy_spec:
  assumes "wf_fl R m" "m_ptrs m i = Some p"
  shows "\<exists>m'. ptr_copy i m = Inr (m_next m, m') \<and> wf_fl R m' \<and> quiet m m' \<and>
    m_ptrs m' = (m_ptrs m)(m_next m \<mapsto> p) \<and> m_next m' = Suc (m_next m)"
proof (cases "p_raw p")
  case None
  then have p: "p = null_ptr" using wf_flD(2) [OF assms(1)] assms(2) by (simp add: null_ok_def)
  have "ptr_copy i m = Inr (obj_new null_ptr m)"
    using assms(2) None p by (simp add: ptr_copy_def ptr_at_def)
  then show ?thesis using new_null [OF assms(1)] p
    by (metis obj_new_sel(1,2,4) prod.collapse)
next
  case (Some r)
  then have "ptr_copy i m = Inr (obj_new p (raw_ref r m))"
    using assms(2) by (simp add: ptr_copy_def ptr_at_def)
  moreover have "wf_ptr m p" using wf_coreD(3) [OF wf_flD(1) [OF assms(1)] assms(2)] .
  ultimately show ?thesis using new_holder [OF assms(1) _ Some]
    by (intro exI [of _ "snd (obj_new p (raw_ref r m))"])
      (simp add: prod_eq_iff raw_ref_def)
qed

lemma ptr_sub_spec:
  assumes "wf_fl R m" "m_ptrs m i = Some p" "p_raw p = Some r" "off + len \<le> p_len p"
  shows "\<exists>m'. ptr_sub i off len m = Inr (m_next m, m') \<and> wf_fl R m' \<and> quiet m m' \<and>
    m_ptrs m' = (m_ptrs m)(m_next m \<mapsto> \<lparr>p_raw = Some r, p_off = p_off p + off, p_len = len\<rparr>) \<and>
    m_next m' = Suc (m_next m)"
proof -
  obtain w where w: "m_raws m r = Some w" "p_off p + p_len p \<le> r_len w" "r_len w < two64"
    using wf_ptr_raw [OF wf_flD(1) [OF assms(1)] assms(2,3)] by auto
  let ?p = "\<lparr>p_raw = Some r, p_off = p_off p + off, p_len = len\<rparr>"
  have "ptr_sub i off len m = Inr (obj_new ?p (raw_ref r m))"
    using assms(2-4) w by (simp add: ptr_sub_def ptr_at_def arith64)
  moreover have "wf_ptr m ?p" using w assms(4) by (simp add: wf_ptr_def)
  ultimately show ?thesis using new_holder [OF assms(1), of ?p r]
    by (intro exI [of _ "snd (obj_new ?p (raw_ref r m))"])
      (simp add: prod_eq_iff raw_ref_def)
qed

lemma obj_set_two:
  assumes "wf_fl R m" "m_ptrs m i = Some p" "m_ptrs m j = Some q" "i \<noteq> j"
    and "wf_ptr m p'" "wf_ptr m q'"
    and "\<And>r. holds p' r + holds q' r = holds p r + holds q r"
    and "p_raw p' = None \<Longrightarrow> p' = null_ptr" "p_raw q' = None \<Longrightarrow> q' = null_ptr"
  shows "wf_fl R (obj_set j q' (obj_set i p' m))" "quiet m (obj_set j q' (obj_set i p' m))"
proof -
  have a: "wf_core (\<lambda>r. 0 + holds p r - holds p' r) (obj_set i p' m)"
    by (rule wf_core_obj_set [OF wf_flD(1) [OF assms(1)] assms(2,5)])
  have b: "m_ptrs (obj_set i p' m) j = Some q" using assms(3,4) by simp
  have c: "wf_ptr (obj_set i p' m) q'" using assms(6) by (simp add: wf_ptr_def)
  have "wf_core (\<lambda>_. 0) (obj_set j q' (obj_set i p' m))"
  proof (rule wf_core_cong [OF wf_core_obj_set [OF a b c]])
    fix r
    show "0 = 0 + holds p r - holds p' r + holds q r - holds q' r" using assms(7) [of r] by simp
  qed
  moreover have "null_ok (obj_set j q' (obj_set i p' m))"
    using wf_flD(2) [OF assms(1)] assms(8,9) by (simp add: null_ok_def)
  ultimately show "wf_fl R (obj_set j q' (obj_set i p' m))"
    using wf_flD(3) [OF assms(1)] by (simp add: wf_fl_def)
  show "quiet m (obj_set j q' (obj_set i p' m))"
    using quiet_simple(1) quiet_trans by blast
qed

lemma wf_ptr_null [simp]: "wf_ptr m null_ptr"
  by (simp add: wf_ptr_def null_ptr_def)

lemma holds_null [simp]: "holds null_ptr r = 0"
  by (simp add: holds_def null_ptr_def)

lemma ptr_swap_spec:
  assumes "wf_fl R m" "m_ptrs m i = Some p" "m_ptrs m j = Some q"
  shows "\<exists>m'. ptr_swap i j m = Inr m' \<and> wf_fl R m' \<and> quiet m m' \<and>
    m_ptrs m' = (m_ptrs m)(i \<mapsto> q, j \<mapsto> p) \<and> m_next m' = m_next m"
proof (cases "i = j")
  case True
  then have "ptr_swap i j m = Inr m"
    using assms(2,3) by (simp add: ptr_swap_def ptr_at_def obj_set_def fun_upd_idem)
  then show ?thesis using assms True by (simp add: fun_upd_idem)
next
  case False
  have wf: "wf_ptr m p" "wf_ptr m q" using wf_coreD(3) [OF wf_flD(1) [OF assms(1)]] assms by auto
  have nl: "p_raw p = None \<Longrightarrow> p = null_ptr" "p_raw q = None \<Longrightarrow> q = null_ptr"
    using wf_flD(2) [OF assms(1)] assms(2,3) by (auto simp: null_ok_def)
  have "ptr_swap i j m = Inr (obj_set j p (obj_set i q m))"
    using assms(2,3) by (simp add: ptr_swap_def ptr_at_def)
  then show ?thesis
    using obj_set_two [OF assms(1-3) False wf(2,1) _ nl(2,1)] by simp
qed

lemma ptr_move_spec:
  assumes "wf_fl R m" "m_ptrs m i = Some p"
  shows "\<exists>m'. ptr_move i m = Inr (m_next m, m') \<and> wf_fl R m' \<and> quiet m m' \<and>
    m_ptrs m' = (m_ptrs m)(i \<mapsto> null_ptr, m_next m \<mapsto> p) \<and> m_next m' = Suc (m_next m)"
proof -
  let ?m1 = "obj_set i null_ptr m"
  have wf: "wf_core (\<lambda>r. 0 + holds p r - holds null_ptr r) ?m1"
    by (rule wf_core_obj_set [OF wf_flD(1) [OF assms(1)] assms(2) wf_ptr_null])
  have "wf_ptr ?m1 p" using wf_coreD(3) [OF wf_flD(1) [OF assms(1)] assms(2)] by (simp add: wf_ptr_def)
  then have "wf_core (\<lambda>_. 0) (snd (obj_new p ?m1))"
    by (rule wf_core_cong [OF wf_core_obj_new [OF wf]]) simp
  moreover have "null_ok (snd (obj_new p ?m1))"
    using wf_flD(2) [OF assms(1)] assms(2) by (auto simp: null_ok_def)
  moreover have "quiet m (snd (obj_new p ?m1))" using quiet_simple(1,2) quiet_trans by blast
  ultimately show ?thesis using wf_flD(3) [OF assms(1)] assms(2)
    by (intro exI [of _ "snd (obj_new p ?m1)"])
      (simp add: ptr_move_def ptr_at_def wf_fl_def prod_eq_iff)
qed

text \<open>Assignment replaces what the target held, whatever the two objects share.\<close>

lemma ptr_assign_spec:
  assumes "wf_fl R m" "m_ptrs m i = Some p" "m_ptrs m j = Some q"
  shows "\<exists>m'. ptr_assign i j m = Inr m' \<and> wf_fl R m' \<and> quiet m m' \<and>
    m_ptrs m' = (m_ptrs m)(i \<mapsto> q) \<and> m_next m' = m_next m"
proof (cases "p_raw q")
  case None
  then have q: "q = null_ptr" using wf_flD(2) [OF assms(1)] assms(3) by (simp add: null_ok_def)
  obtain m1 where m1: "ptr_release i m = Inr m1" "wf_core (\<lambda>_. 0) m1" "flying R m1" "quiet m m1"
    "m_ptrs m1 = (m_ptrs m)(i \<mapsto> p\<lparr>p_raw := None\<rparr>)" "m_next m1 = m_next m"
    using ptr_release_spec [OF wf_flD(1,3) [OF assms(1)] assms(2)] by auto
  have old: "m_ptrs m1 i = Some (p\<lparr>p_raw := None\<rparr>)" by (simp add: m1(5))
  have "wf_core (\<lambda>_. 0) (obj_set i null_ptr m1)"
    by (rule wf_core_cong [OF wf_core_obj_set [OF m1(2) old wf_ptr_null]])
        (simp add: holds_def null_ptr_def)
  moreover have "null_ok (obj_set i null_ptr m1)"
    using wf_flD(2) [OF assms(1)] by (auto simp: null_ok_def m1(5))
  ultimately have "wf_fl R (obj_set i null_ptr m1)" using m1(3) by (simp add: wf_fl_def)
  moreover have "quiet m (obj_set i null_ptr m1)" using m1(4) quiet_simple(1) quiet_trans by blast
  moreover have "ptr_assign i j m = Inr (obj_set i null_ptr m1)"
    using assms(3) None m1(1,5) by (simp add: ptr_assign_def ptr_at_def)
  ultimately show ?thesis using q m1(5,6) by simp
next
  case (Some r)
  let ?d = "(\<lambda>_. 0)(r := 0 + 1) :: nat \<Rightarrow> int" and ?m = "raw_ref r m"
  have wf: "wf_core ?d ?m" by (rule wf_core_raw_ref [OF wf_flD(1) [OF assms(1)]])
  have fl: "flying R ?m" by (rule flying_raw_ref [OF wf_flD(3) [OF assms(1)]])
  have pi: "m_ptrs ?m i = Some p" using assms(2) by (simp add: raw_ref_def)
  obtain w where w: "m_raws m r = Some w" "p_off q + p_len q \<le> r_len w"
    using wf_ptr_raw [OF wf_flD(1) [OF assms(1)] assms(3) Some] by auto
  obtain m1 where m1: "ptr_release i ?m = Inr m1" "wf_core ?d m1" "flying R m1" "quiet ?m m1"
    "m_ptrs m1 = (m_ptrs ?m)(i \<mapsto> p\<lparr>p_raw := None\<rparr>)" "m_next m1 = m_next ?m"
    "\<exists>w'. m_raws m1 r = Some w' \<and> r_len w' = r_len w"
  proof -
    have "0 \<le> ?d s" for s by simp
    then obtain m1 where m1: "ptr_release i ?m = Inr m1" "wf_core ?d m1" "flying R m1" "quiet ?m m1"
      "m_ptrs m1 = (m_ptrs ?m)(i \<mapsto> p\<lparr>p_raw := None\<rparr>)" "m_next m1 = m_next ?m"
      "\<And>s w. m_raws ?m s = Some w \<Longrightarrow> 1 \<le> ?d s \<Longrightarrow> \<exists>w'. m_raws m1 s = Some w' \<and> r_len w' = r_len w"
      using ptr_release_spec [OF wf fl pi] by blast
    have "m_raws ?m r = Some (w\<lparr>r_nref := r_nref w + 1\<rparr>)"
      using w(1) by (simp add: raw_ref_def m_raws_upd_raw)
    then show ?thesis using that [OF m1(1-6)] m1(7) [of r] by simp
  qed
  have old: "m_ptrs m1 i = Some (p\<lparr>p_raw := None\<rparr>)" by (simp add: m1(5))
  have "wf_ptr m1 q" using m1(7) w(2) Some by (auto simp: wf_ptr_def)
  then have "wf_core (\<lambda>_. 0) (obj_set i q m1)"
    by (rule wf_core_cong [OF wf_core_obj_set [OF m1(2) old]]) (use Some in \<open>simp add: holds_def\<close>)
  moreover have "null_ok (obj_set i q m1)"
    using wf_flD(2) [OF assms(1)] Some by (auto simp: null_ok_def m1(5) raw_ref_def)
  ultimately have "wf_fl R (obj_set i q m1)" using m1(3) by (simp add: wf_fl_def)
  moreover have "quiet m (obj_set i q m1)" using m1(4) quiet_simple(1,5) quiet_trans by blast
  moreover have "ptr_assign i j m = Inr (obj_set i q m1)"
  proof -
    have q: "\<lparr>p_raw = Some r, p_off = p_off q, p_len = p_len q\<rparr> = q" using Some by simp
    have "ptr_assign i j m = Inr (obj_set i \<lparr>p_raw = Some r, p_off = p_off q, p_len = p_len q\<rparr> m1)"
      using assms(2,3) Some m1(1,5)
      by (cases "i = j") (simp_all add: ptr_assign_def ptr_at_def raw_ref_def)
    then show ?thesis unfolding q .
  qed
  ultimately show ?thesis using m1(5,6) by (simp add: raw_ref_def)
qed

text \<open>A \<^verbatim>\<open>ptr\<close> assigned to itself by a move ends up empty.\<close>

lemma ptr_assign_move_spec:
  assumes "wf_fl R m" "m_ptrs m i = Some p" "m_ptrs m j = Some q"
  shows "\<exists>m'. ptr_assign_move i j m = Inr m' \<and> wf_fl R m' \<and> quiet m m' \<and>
    m_ptrs m' = (if i = j then (m_ptrs m)(i \<mapsto> null_ptr)
                 else (m_ptrs m)(i \<mapsto> q, j \<mapsto> null_ptr)) \<and> m_next m' = m_next m"
proof -
  obtain m1 where m1: "ptr_release i m = Inr m1" "wf_core (\<lambda>_. 0) m1" "flying R m1" "quiet m m1"
    "m_ptrs m1 = (m_ptrs m)(i \<mapsto> p\<lparr>p_raw := None\<rparr>)" "m_next m1 = m_next m"
    using ptr_release_spec [OF wf_flD(1,3) [OF assms(1)] assms(2)] by auto
  have old: "m_ptrs m1 i = Some (p\<lparr>p_raw := None\<rparr>)" by (simp add: m1(5))
  show ?thesis
  proof (cases "i \<noteq> j \<and> p_raw q \<noteq> None")
    case True
    have mj: "m_ptrs m1 j = Some q" using True assms(3) m1(5) by simp
    have wq: "wf_ptr m1 q" using wf_coreD(3) [OF m1(2) mj] .
    have a: "wf_core (\<lambda>r. 0 + holds (p\<lparr>p_raw := None\<rparr>) r - holds q r) (obj_set i q m1)"
      by (rule wf_core_obj_set [OF m1(2) old wq])
    have b: "m_ptrs (obj_set i q m1) j = Some q" using mj True by simp
    have "wf_core (\<lambda>_. 0) (obj_set j null_ptr (obj_set i q m1))"
      by (rule wf_core_cong [OF wf_core_obj_set [OF a b wf_ptr_null]])
        (simp add: holds_def null_ptr_def)
    moreover have "null_ok (obj_set j null_ptr (obj_set i q m1))"
      using wf_flD(2) [OF assms(1)] True by (auto simp: null_ok_def m1(5))
    ultimately have "wf_fl R (obj_set j null_ptr (obj_set i q m1))"
      using m1(3) by (simp add: wf_fl_def)
    moreover have "quiet m (obj_set j null_ptr (obj_set i q m1))"
      using m1(4) quiet_simple(1) quiet_trans by blast
    moreover have "ptr_assign_move i j m = Inr (obj_set j null_ptr (obj_set i q m1))"
      using True m1(1) mj by (auto simp: ptr_assign_move_def ptr_at_def)
    ultimately show ?thesis using m1(5,6) True by simp
  next
    case False
    have "wf_core (\<lambda>_. 0) (obj_set i null_ptr m1)"
      by (rule wf_core_cong [OF wf_core_obj_set [OF m1(2) old wf_ptr_null]])
        (simp add: holds_def null_ptr_def)
    moreover have nl: "null_ok (obj_set i null_ptr m1)"
      using wf_flD(2) [OF assms(1)] by (auto simp: null_ok_def m1(5))
    ultimately have "wf_fl R (obj_set i null_ptr m1)" using m1(3) by (simp add: wf_fl_def)
    moreover have "quiet m (obj_set i null_ptr m1)" using m1(4) quiet_simple(1) quiet_trans by blast
    moreover have "ptr_assign_move i j m = Inr (obj_set i null_ptr m1)"
      using False m1(1,5) assms(3) by (auto simp: ptr_assign_move_def ptr_at_def)
    moreover have "i \<noteq> j \<Longrightarrow> q = null_ptr"
      using False wf_flD(2) [OF assms(1)] assms(3) by (auto simp: null_ok_def)
    then have "(if i = j then (m_ptrs m)(i \<mapsto> null_ptr)
        else (m_ptrs m)(i \<mapsto> q, j \<mapsto> null_ptr)) = (m_ptrs m)(i \<mapsto> null_ptr)"
      using assms(3) by (auto simp: fun_eq_iff)
    ultimately show ?thesis using m1(5,6) by simp
  qed
qed

end
