(* ===== verification/Ptr_New.thy ===== *)
theory Ptr_New
  imports Ptr_Ops
begin

text \<open>
  Creation of raws and of the \<^verbatim>\<open>ptr\<close> objects that take them over, and what copying bytes
  in and out of an object does. The platform is assumed to behave as POSIX says:
  \<open>env_ok\<close> states that allocations at a power-of-two alignment succeed and are aligned.
\<close>

unbundle bit_operations_syntax

definition env_ok :: "env \<Rightarrow> bool" where
  "env_ok e \<longleftrightarrow>
     (\<exists>k. 12 \<le> k \<and> k < 63 \<and> e_page e = 2 ^ k) \<and>
     (\<forall>i n k. 3 \<le> k \<longrightarrow> (\<exists>a. e_alloc e i (2 ^ k) n = Some a \<and> 0 < a \<and> 2 ^ k dvd a))"

text \<open>A platform of this kind: it hands out multiples of the alignment.\<close>

definition demo_env :: env where
  "demo_env = \<lparr>e_alloc = (\<lambda>i al n. Some (al * Suc i)), e_junk = (\<lambda>i k. 0xcc), e_page = 4096\<rparr>"

definition empty_mem :: "env \<Rightarrow> mem" where
  "empty_mem e = \<lparr>m_raws = Map.empty, m_ptrs = Map.empty, m_next = 0,
     m_pools = (\<lambda>_. empty_pool), m_tid = 0, m_env = e\<rparr>"

lemma env_ok_demo: "env_ok demo_env"
  unfolding env_ok_def demo_env_def by (auto intro: exI [of _ 12])

lemma wf_empty_mem [simp]: "wf_mem (empty_mem e)"
  by (simp add: wf_defs empty_mem_def)

lemma empty_mem_sel [simp]:
  "m_env (empty_mem e) = e" "m_ptrs (empty_mem e) = Map.empty" "m_raws (empty_mem e) = Map.empty"
  by (simp_all add: empty_mem_def)

lemma env_ok_alloc:
  assumes "env_ok (m_env m)" "3 \<le> k"
  shows "\<exists>a. alloc_addr m (2 ^ k) n = Inr a \<and> 2 ^ k dvd a"
proof -
  obtain a where "e_alloc (m_env m) (m_next m) (2 ^ k) n = Some a" "0 < a" "2 ^ k dvd a"
    using assms unfolding env_ok_def by blast
  then show ?thesis by (simp add: alloc_addr_def)
qed

lemma env_ok_page:
  assumes "env_ok e"
  shows "\<exists>k. 12 \<le> k \<and> k < 63 \<and> e_page e = 2 ^ k" "4096 \<le> e_page e" "e_page e < two64"
proof -
  show k: "\<exists>k. 12 \<le> k \<and> k < 63 \<and> e_page e = 2 ^ k" using assms by (simp add: env_ok_def)
  then obtain k where k: "12 \<le> k" "k < 63" "e_page e = 2 ^ k" by blast
  have "(4096::nat) = 2 ^ 12" by simp
  also have "\<dots> \<le> 2 ^ k" by (rule power_increasing) (use k in auto)
  finally show "4096 \<le> e_page e" using k(3) by simp
  show "e_page e < two64"
    unfolding k(3) two64_def by (rule power_strict_increasing) (use k in auto)
qed

subsection \<open>New raws\<close>

definition created :: "nat \<Rightarrow> bytes \<Rightarrow> mem \<Rightarrow> mem \<Rightarrow> bool" where
  "created al data m m' \<longleftrightarrow>
     (\<exists>k a t. al dvd a \<and> m_raws m' = (m_raws m)(m_next m \<mapsto> new_raw k a data t)) \<and>
     m_ptrs m' = m_ptrs m \<and> m_next m' = Suc (m_next m) \<and> m_env m' = m_env m"

lemma created_raw_init:
  "al dvd a \<Longrightarrow> length data = len \<Longrightarrow> created al data m (snd (raw_init k a data len t m))"
  by (auto simp: created_def raw_init_sel)

lemma length_junk [simp]: "length (junk m len) = len"
  by (simp add: junk_def)

lemma raw_combined_create_ok:
  assumes "env_ok (m_env m)" "alignment = 0 \<and> k = 3 \<or> alignment = 2 ^ k \<and> 3 \<le> k" "len < 2 ^ 63"
  shows "\<exists>data m'. raw_combined_create len alignment pool m = Inr (m_next m, m') \<and>
    created (2 ^ k) data m m' \<and> length data = len"
proof -
  have al: "(if alignment = 0 then 8 else alignment) = 2 ^ k" "3 \<le> k" using assms(2) by auto
  obtain a where a: "alloc_addr m (2 ^ k) (add64 112 (ceil_multiple len 8)) = Inr a" "2 ^ k dvd a"
    using env_ok_alloc [OF assms(1) al(2)] by blast
  have r: "round_up_to 112 8 = Inr 112" by (simp add: round_up_to_def)
  have d: "round_up_to len 8 = Inr (ceil_multiple len 8)"
    by (rule round_up_to_eq) (use assms(3) in \<open>simp_all add: two64_def\<close>)
  have b: "len \<le> ceil_multiple len 8" "112 + ceil_multiple len 8 < two64"
    using ceil_multiple_props(1,2) [of 8 len] assms(3) by (simp_all add: two64_def)
  have "raw_combined_create len alignment pool m
      = Inr (raw_init (Raw_combined (2 ^ k)) a (junk m len) len pool m)"
    using r d b a(1) unfolding raw_combined_create_def al(1) Let_def
    by (simp add: sizeof_raw_combined_def alignof_raw_combined_def)
  then show ?thesis using created_raw_init [OF a(2) length_junk]
    by (metis length_junk prod.collapse raw_init_sel(1))
qed

lemma raw_posix_aligned_new_ok:
  assumes "env_ok (m_env m)" "3 \<le> k"
  shows "\<exists>data m'. raw_posix_aligned_new len (2 ^ k) m = Inr (m_next m, m') \<and>
    created (2 ^ k) data m m' \<and> length data = len"
proof -
  obtain a where a: "alloc_addr m (2 ^ k) len = Inr a" "2 ^ k dvd a"
    using env_ok_alloc [OF assms] by blast
  have "(2::nat) ^ 3 \<le> 2 ^ k" by (rule power_increasing) (use assms(2) in auto)
  moreover have "(2::nat) ^ k AND (2 ^ k - 1) = 0"
    using take_bit_eq_mask [of k "2 ^ k :: nat"] by (simp add: mask_eq_exp_minus_1)
  ultimately have "raw_posix_aligned_new len (2 ^ k) m
      = Inr (raw_init (Raw_posix_aligned (2 ^ k)) a (junk m len) len Mempool_buffer_anon m)"
    using a(1) by (simp add: raw_posix_aligned_new_def)
  then show ?thesis using created_raw_init [OF a(2) length_junk]
    by (metis length_junk prod.collapse raw_init_sel(1))
qed

lemma create_aligned_ok:
  assumes "env_ok (m_env m)" "3 \<le> k" "len < 2 ^ 63"
  shows "\<exists>data m'. create_aligned len (2 ^ k) m = Inr (m_next m, m') \<and>
    created (2 ^ k) data m m' \<and> length data = len"
  using raw_combined_create_ok [OF assms(1) _ assms(3), of "2 ^ k" k Mempool_buffer_anon]
    raw_posix_aligned_new_ok [OF assms(1,2), of len] assms(2)
  unfolding create_aligned_def create_aligned_in_mempool_def by auto

lemma create_raw_ok:
  assumes "env_ok (m_env m)" "len < 2 ^ 63"
  shows "\<exists>data m'. create_raw len m = Inr (m_next m, m') \<and> created 8 data m m' \<and> length data = len"
  using create_aligned_ok [OF assms(1) order_refl assms(2)] by (simp add: create_raw_def)

lemma create_page_aligned_ok:
  assumes "env_ok (m_env m)" "len < 2 ^ 63"
  shows "\<exists>data m'. create_page_aligned len m = Inr (m_next m, m') \<and>
    created (e_page (m_env m)) data m m' \<and> length data = len"
proof -
  obtain k where "12 \<le> k" "e_page (m_env m) = 2 ^ k" using env_ok_page(1) [OF assms(1)] by blast
  then show ?thesis using create_aligned_ok [OF assms(1) _ assms(2), of k]
    by (simp add: create_page_aligned_def)
qed

lemma created_write:
  assumes "created al data m m'" "off + length bs \<le> length data"
  shows "\<exists>m''. raw_write (m_next m) off bs m' = Inr m'' \<and> created al (write_at off bs data) m m''"
proof -
  obtain k a t where w: "al dvd a" "m_raws m' = (m_raws m)(m_next m \<mapsto> new_raw k a data t)"
    using assms(1) by (auto simp: created_def)
  have "raw_write (m_next m) off bs m'
      = Inr (upd_raw (m_next m) (\<lambda>w. w\<lparr>r_data := write_at off bs (r_data w)\<rparr>) m')"
    using assms(2) w(2) by (simp add: raw_write_def raw_at_def)
  moreover have "m_raws (upd_raw (m_next m) (\<lambda>w. w\<lparr>r_data := write_at off bs (r_data w)\<rparr>) m')
      = (m_raws m)(m_next m \<mapsto> new_raw k a (write_at off bs data) t)"
    using w(2) assms(2) by (simp add: m_raws_upd_raw new_raw_def)
  ultimately show ?thesis using assms(1) w(1) unfolding created_def by (auto simp: m_raws_upd_raw)
qed

lemma copy_raw_ok:
  assumes "env_ok (m_env m)" "length buf < 2 ^ 63"
  shows "\<exists>m'. copy_raw buf m = Inr (m_next m, m') \<and> created 8 buf m m'"
proof -
  obtain data m1 where m1: "create_aligned (length buf) 8 m = Inr (m_next m, m1)"
    "created 8 data m m1" "length data = length buf"
    using create_aligned_ok [OF assms(1) order_refl assms(2)] by auto
  obtain m2 where "raw_write (m_next m) 0 buf m1 = Inr m2" "created 8 (write_at 0 buf data) m m2"
    using created_write [OF m1(2), of 0 buf] m1(3) by auto
  moreover have "write_at 0 buf data = buf" using m1(3) by (simp add: write_at_def)
  ultimately show ?thesis using m1(1) by (simp add: copy_raw_def)
qed

lemma wf_created:
  assumes "created al data m m'" "wf_fl R m" "length data < two64"
  shows "wf_fl (insert (m_next m) R) m'" "quiet m m'"
proof -
  obtain k a t where w: "m_raws m' = (m_raws m)(m_next m \<mapsto> new_raw k a data t)"
    and s: "m_ptrs m' = m_ptrs m" "m_next m' = Suc (m_next m)" "m_env m' = m_env m"
    using assms(1) by (auto simp: created_def)
  let ?m = "snd (raw_init k a data (length data) t m)"
  have "wf_core ((\<lambda>_. 0)(m_next m := 0)) ?m"
    by (rule wf_core_raw_init [OF wf_flD(1) [OF assms(2)] refl assms(3)])
  then have "wf_core (\<lambda>_. 0) ?m" by (rule wf_core_cong) simp
  moreover have "m_raws m' = m_raws ?m" "m_ptrs m' = m_ptrs ?m" "m_next m' = m_next ?m"
    using w s by (simp_all add: raw_init_sel)
  moreover from this have "refset m' = refset ?m" by (simp add: refset_def fun_eq_iff)
  ultimately have "wf_core (\<lambda>_. 0) m'" by (simp add: wf_core_def wf_ptr_def)
  then show "wf_fl (insert (m_next m) R) m'"
    using wf_flD(2,3) [OF assms(2)] w s by (auto simp: wf_fl_def null_ok_def flying_def)
  show "quiet m m'" using w s by (auto simp: quiet_def split: if_splits)
qed

subsection \<open>A new object for a new raw\<close>

definition fresh_ptr :: "nat \<Rightarrow> bytes \<Rightarrow> mem \<Rightarrow> mem \<Rightarrow> bool" where
  "fresh_ptr al data m m' \<longleftrightarrow>
     (\<exists>k a t. al dvd a \<and>
        m_raws m' = (m_raws m)(m_next m \<mapsto> (new_raw k a data t)\<lparr>r_nref := 1\<rparr>)) \<and>
     m_ptrs m' = (m_ptrs m)(Suc (m_next m) \<mapsto>
        \<lparr>p_raw = Some (m_next m), p_off = 0, p_len = length data\<rparr>) \<and>
     m_next m' = Suc (Suc (m_next m)) \<and> m_env m' = m_env m"

lemma created_ptr_of_raw:
  assumes "created al data m m1" "wf_fl R m" "length data < two64"
  shows "\<exists>m'. ptr_of_raw (m_next m) m1 = Inr (Suc (m_next m), m') \<and>
    fresh_ptr al data m m' \<and> wf_fl R m' \<and> quiet m m'"
proof -
  obtain k a t where w: "al dvd a" "m_raws m1 = (m_raws m)(m_next m \<mapsto> new_raw k a data t)"
    and s: "m_ptrs m1 = m_ptrs m" "m_next m1 = Suc (m_next m)" "m_env m1 = m_env m"
    using assms(1) by (auto simp: created_def)
  let ?r = "m_next m" and ?p = "\<lparr>p_raw = Some (m_next m), p_off = 0, p_len = length data\<rparr>"
  let ?m2 = "upd_raw ?r (\<lambda>w. w\<lparr>r_nref := 1\<rparr>) m1"
  let ?m3 = "snd (obj_new ?p ?m2)"
  note wf1 = wf_created [OF assms]
  have "wf_core ((\<lambda>_. 0)(?r := 0 + 1)) ?m2"
    by (rule wf_core_upd_raw [OF wf_flD(1) [OF wf1(1)]])
      (use w(2) assms(3) in \<open>auto simp: wf_raw_def\<close>)
  moreover have "wf_ptr ?m2 ?p" using w(2) by (simp add: wf_ptr_def m_raws_upd_raw)
  ultimately have "wf_core (\<lambda>_. 0) ?m3"
    by (rule wf_core_cong [OF wf_core_obj_new]) (simp add: holds_def)
  moreover have "null_ok ?m3" using wf_flD(2) [OF wf1(1)] by (auto simp: null_ok_def)
  moreover have "flying R ?m3"
    using wf_flD(3) [OF wf1(1)] by (auto simp: flying_def m_raws_upd_raw split: if_splits)
  ultimately have wf3: "wf_fl R ?m3" by (simp add: wf_fl_def)
  have q: "quiet m ?m3" using w(2) s by (auto simp: quiet_def m_raws_upd_raw split: if_splits)
  have "fresh_ptr al data m ?m3"
    using w s unfolding fresh_ptr_def by (auto simp: m_raws_upd_raw)
  moreover have "ptr_of_raw ?r m1 = Inr (Suc ?r, ?m3)"
    using w(2) s by (simp add: ptr_of_raw_def raw_at_def prod_eq_iff)
  ultimately show ?thesis using wf3 q by blast
qed

lemma fresh_ptr_bytes:
  "fresh_ptr al data m m' \<Longrightarrow> node_bytes m' (Suc (m_next m)) = data"
  by (auto simp: fresh_ptr_def node_bytes_def ptr_bytes_def)

lemma ptr_of_bytes_ok:
  assumes "wf_fl R m" "env_ok (m_env m)" "length buf < 2 ^ 63"
  shows "\<exists>m'. ptr_of_bytes buf m = Inr (Suc (m_next m), m') \<and> fresh_ptr 8 buf m m' \<and>
    wf_fl R m' \<and> quiet m m'"
proof -
  obtain m1 where m1: "copy_raw buf m = Inr (m_next m, m1)" "created 8 buf m m1"
    using copy_raw_ok [OF assms(2,3)] by blast
  have lt: "length buf < two64" using assms(3) by (simp add: two64_def)
  have "r_len w = length buf" if "m_raws m1 (m_next m) = Some w" for w
    using m1(2) that by (auto simp: created_def)
  then have "ptr_of_bytes buf m = ptr_of_raw (m_next m) m1"
    using m1 by (auto simp: ptr_of_bytes_def ptr_of_raw_def created_def raw_at_def)
  then show ?thesis using created_ptr_of_raw [OF m1(2) assms(1) lt] by simp
qed

lemma ptr_of_len_ok:
  assumes "wf_fl R m" "env_ok (m_env m)" "len < 2 ^ 63"
  shows "\<exists>data m'. ptr_of_len len m = Inr (Suc (m_next m), m') \<and> fresh_ptr 8 data m m' \<and>
    length data = len \<and> wf_fl R m' \<and> quiet m m'"
proof -
  obtain data m1 where m1: "create_raw len m = Inr (m_next m, m1)" "created 8 data m m1"
    "length data = len"
    using create_raw_ok [OF assms(2,3)] by blast
  have lt: "length data < two64" using assms(3) m1(3) by (simp add: two64_def)
  have "r_len w = len" if "m_raws m1 (m_next m) = Some w" for w
    using m1(2,3) that by (auto simp: created_def)
  then have "ptr_of_len len m = ptr_of_raw (m_next m) m1"
    using m1 by (auto simp: ptr_of_len_def ptr_of_raw_def created_def raw_at_def)
  then show ?thesis using created_ptr_of_raw [OF m1(2) assms(1) lt] m1(3) by auto
qed

end
