(* ===== verification/Ptr_Write.thy ===== *)
theory Ptr_Write
  imports Ptr_New
begin

text \<open>
  What writing through a \<^verbatim>\<open>ptr\<close> does: the bytes of the object itself, and the objects
  whose bytes stay as they were. Two objects may share a raw; a write is visible through
  exactly those whose window meets the bytes written.
\<close>

subsection \<open>Writing into a raw\<close>

lemma seg_write_at_disjoint:
  assumes "off + length bs \<le> length xs" "o1 + l1 \<le> off \<or> off + length bs \<le> o1 \<or> l1 = 0"
  shows "seg o1 l1 (write_at off bs xs) = seg o1 l1 xs"
  using assms seg_write_at_before [of o1 l1 off bs xs] seg_write_at_after [of off bs o1 xs l1]
  by auto

definition clear_of :: "nat \<Rightarrow> nat \<Rightarrow> nat \<Rightarrow> ptr \<Rightarrow> bool" where
  "clear_of r off len q \<longleftrightarrow>
     p_raw q = Some r \<longrightarrow> p_len q = 0 \<or> p_off q + p_len q \<le> off \<or> off + len \<le> p_off q"

definition raw_put :: "nat \<Rightarrow> nat \<Rightarrow> bytes \<Rightarrow> mem \<Rightarrow> mem" where
  "raw_put r off bs m = upd_raw r (\<lambda>w. w\<lparr>r_data := write_at off bs (r_data w)\<rparr>) m"

lemma raw_put_sel [simp]:
  "m_ptrs (raw_put r off bs m) = m_ptrs m" "m_next (raw_put r off bs m) = m_next m"
  "m_env (raw_put r off bs m) = m_env m"
  by (simp_all add: raw_put_def)

lemma raw_write_ok:
  assumes "m_raws m r = Some w" "wf_raw w" "off + length bs \<le> r_len w"
  shows "raw_write r off bs m = Inr (raw_put r off bs m)"
  using assms by (simp add: raw_write_def raw_at_def raw_put_def wf_raw_def)

lemma raw_put_len:
  assumes "m_raws m s = Some v"
  shows "\<exists>v'. m_raws (raw_put r off bs m) s = Some v' \<and> r_len v' = r_len v \<and> r_nref v' = r_nref v"
  using assms by (auto simp: raw_put_def m_raws_upd_raw)

lemma wf_raw_put:
  assumes "wf_fl R m" "m_raws m r = Some w" "off + length bs \<le> r_len w"
  shows "wf_fl R (raw_put r off bs m)"
proof -
  have "wf_core (\<lambda>_. 0) (raw_put r off bs m)"
    unfolding raw_put_def
    by (rule wf_core_upd_raw_same [OF wf_flD(1) [OF assms(1)]])
      (use assms(2,3) wf_coreD(5) [OF wf_flD(1) [OF assms(1)]] in \<open>auto simp: wf_raw_def\<close>)
  then show ?thesis
    using wf_flD(2,3) [OF assms(1)]
    by (auto simp: wf_fl_def null_ok_def flying_def raw_put_def m_raws_upd_raw split: if_splits)
qed

lemma ptr_bytes_raw_put:
  assumes "wf_core d m" "m_raws m r = Some w" "off + length bs \<le> r_len w" "clear_of r off (length bs) q"
  shows "ptr_bytes (raw_put r off bs m) q = ptr_bytes m q"
proof (cases "p_raw q = Some r")
  case True
  have "length (r_data w) = r_len w" using wf_coreD(5) [OF assms(1,2)] by (simp add: wf_raw_def)
  then show ?thesis using assms(2-4) True
    by (auto simp: ptr_bytes_def raw_put_def m_raws_upd_raw clear_of_def seg_write_at_disjoint)
qed (auto simp: ptr_bytes_def raw_put_def m_raws_upd_raw split: option.split)

lemma keeps_raw_put:
  assumes "wf_core d m" "m_raws m r = Some w" "off + length bs \<le> r_len w"
    and "\<And>i q. i \<in> I \<Longrightarrow> m_ptrs m i = Some q \<Longrightarrow> clear_of r off (length bs) q"
  shows "keeps I m (raw_put r off bs m)"
  using ptr_bytes_raw_put [OF assms(1-3)] assms(4)
  by (auto simp: keeps_def node_bytes_def split: option.split)

text \<open>Through a window: the bytes of the object change in place.\<close>

lemma ptr_bytes_poke:
  assumes "m_raws m r = Some w" "wf_raw w" "p_raw p = Some r" "p_off p + p_len p \<le> r_len w"
    and "off + length bs \<le> p_len p"
  shows "ptr_bytes (raw_put r (p_off p + off) bs m) p = write_at off bs (ptr_bytes m p)"
  using assms seg_write_at_inside [of "p_off p" "p_off p + off" bs "p_len p" "r_data w"]
  by (simp add: ptr_bytes_def raw_put_def m_raws_upd_raw wf_raw_def)

lemma wf_invalidate:
  assumes "wf_fl R m"
  shows "wf_fl R (raw_invalidate_crc r m)" "ptr_bytes (raw_invalidate_crc r m) = ptr_bytes m"
    "m_ptrs (raw_invalidate_crc r m) = m_ptrs m" "m_next (raw_invalidate_crc r m) = m_next m"
    "m_env (raw_invalidate_crc r m) = m_env m"
    "m_raws m s = Some w \<Longrightarrow>
      \<exists>w'. m_raws (raw_invalidate_crc r m) s = Some w' \<and> r_len w' = r_len w \<and> r_data w' = r_data w"
proof -
  have "wf_core (\<lambda>_. 0) (raw_invalidate_crc r m)"
    unfolding raw_invalidate_crc_def
    by (rule wf_core_upd_raw_same [OF wf_flD(1) [OF assms]])
      (use wf_coreD(5) [OF wf_flD(1) [OF assms]] in \<open>auto simp: wf_raw_def\<close>)
  then show "wf_fl R (raw_invalidate_crc r m)"
    using wf_flD(2,3) [OF assms]
    by (auto simp: wf_fl_def null_ok_def flying_def raw_invalidate_crc_def m_raws_upd_raw split: if_splits)
  show "ptr_bytes (raw_invalidate_crc r m) = ptr_bytes m"
    by (auto simp: fun_eq_iff ptr_bytes_def raw_invalidate_crc_def m_raws_upd_raw split: option.split)
qed (auto simp: raw_invalidate_crc_def m_raws_upd_raw)

lemma keeps_invalidate: "wf_fl R m \<Longrightarrow> keeps I m (raw_invalidate_crc r m)"
  using wf_invalidate [of R m r] by (auto simp: keeps_def node_bytes_def split: option.split)

subsection \<open>Changing an object's window\<close>

lemma obj_resize:
  assumes "wf_fl R m" "m_ptrs m i = Some p" "p_raw p = Some r" "m_raws m r = Some w"
    and "off + len \<le> r_len w"
  defines "m' \<equiv> obj_set i (p\<lparr>p_off := off, p_len := len\<rparr>) m"
  shows "wf_fl R m'" "quiet m m'"
proof -
  have "wf_ptr m (p\<lparr>p_off := off, p_len := len\<rparr>)" using assms(3-5) by (simp add: wf_ptr_def)
  then have "wf_core (\<lambda>_. 0) m'"
    unfolding m'_def
    by (rule wf_core_cong [OF wf_core_obj_set [OF wf_flD(1) [OF assms(1)] assms(2)]])
      (simp add: holds_def)
  moreover have "null_ok m'" using wf_flD(2) [OF assms(1)] assms(3) by (simp add: m'_def null_ok_def)
  ultimately show "wf_fl R m'" using wf_flD(3) [OF assms(1)] by (simp add: wf_fl_def m'_def)
  show "quiet m m'" unfolding m'_def by (rule quiet_simple)
qed

lemma set_length_ok:
  assumes "wf_fl R m" "m_ptrs m i = Some p" "p_raw p = Some r" "m_raws m r = Some w"
    and "p_off p + len \<le> r_len w"
  shows "\<exists>m'. set_length i len m = Inr m' \<and> wf_fl R m' \<and> quiet m m' \<and> m_raws m' = m_raws m \<and>
    m_ptrs m' = (m_ptrs m)(i \<mapsto> p\<lparr>p_len := len\<rparr>) \<and> m_next m' = m_next m"
proof -
  have "p\<lparr>p_off := p_off p, p_len := len\<rparr> = p\<lparr>p_len := len\<rparr>" by simp
  moreover have "set_length i len m = Inr (obj_set i (p\<lparr>p_len := len\<rparr>) m)"
    using assms(2-5) by (simp add: set_length_def raw_length_def ptr_raw_def ptr_at_def raw_at_def)
  ultimately show ?thesis using obj_resize [OF assms(1-4), of "p_off p" len] assms(5) by simp
qed

lemma set_offset_ok:
  assumes "wf_fl R m" "m_ptrs m i = Some p" "p_raw p = Some r" "m_raws m r = Some w"
    and "off + p_len p \<le> r_len w"
  shows "\<exists>m'. set_offset i off m = Inr m' \<and> wf_fl R m' \<and> quiet m m' \<and> m_raws m' = m_raws m \<and>
    m_ptrs m' = (m_ptrs m)(i \<mapsto> p\<lparr>p_off := off\<rparr>) \<and> m_next m' = m_next m"
proof -
  have "p\<lparr>p_off := off, p_len := p_len p\<rparr> = p\<lparr>p_off := off\<rparr>" by simp
  moreover have "set_offset i off m = Inr (obj_set i (p\<lparr>p_off := off\<rparr>) m)"
    using assms(2-5) by (simp add: set_offset_def raw_length_def ptr_raw_def ptr_at_def raw_at_def)
  ultimately show ?thesis using obj_resize [OF assms(1-4), of off "p_len p"] assms(5) by simp
qed

lemma unused_tail_length_ok:
  assumes "wf_fl R m" "m_ptrs m i = Some p" "p_raw p = Some r" "m_raws m r = Some w"
  shows "unused_tail_length m p = Inr (r_len w - (p_off p + p_len p))"
proof -
  have "p_off p + p_len p \<le> r_len w" "r_len w < two64"
    using wf_ptr_raw [OF wf_flD(1) [OF assms(1)] assms(2,3)] assms(4) by auto
  then show ?thesis using assms(3,4) by (simp add: unused_tail_length_def raw_at_def arith64)
qed

subsection \<open>Appending at the end of a window\<close>

lemma ptr_append_ok:
  assumes "wf_fl R m" "m_ptrs m i = Some p" "p_raw p = Some r" "m_raws m r = Some w"
    and "p_off p + p_len p + length src \<le> r_len w"
  defines "e \<equiv> p_off p + p_len p"
  shows "\<exists>m'. ptr_append i src m = Inr (e + length src, m') \<and> wf_fl R m' \<and>
    m_ptrs m' = (m_ptrs m)(i \<mapsto> p\<lparr>p_len := p_len p + length src\<rparr>) \<and> m_next m' = m_next m \<and>
    m_env m' = m_env m \<and>
    (\<exists>w'. m_raws m' r = Some w' \<and> r_len w' = r_len w) \<and>
    node_bytes m' i = node_bytes m i @ src \<and>
    (\<forall>I. i \<notin> I \<longrightarrow> (\<forall>j\<in>I. \<forall>q. m_ptrs m j = Some q \<longrightarrow> clear_of r e (length src) q) \<longrightarrow>
         keeps I m m')"
proof -
  have wfw: "wf_raw w" using wf_coreD(5) [OF wf_flD(1) [OF assms(1)] assms(4)] .
  then have lt: "r_len w < two64" by (simp add: wf_raw_def)
  let ?m1 = "raw_put r e src m" and ?q = "p\<lparr>p_len := p_len p + length src\<rparr>"
  let ?m2 = "obj_set i ?q ?m1"
  have wf1: "wf_fl R ?m1" by (rule wf_raw_put [OF assms(1,4)]) (use assms(5) in \<open>simp add: e_def\<close>)
  obtain w1 where w1: "m_raws ?m1 r = Some w1" "r_len w1 = r_len w"
    using raw_put_len [OF assms(4)] by blast
  have p1: "m_ptrs ?m1 i = Some p" using assms(2) by simp
  have eq: "p\<lparr>p_off := p_off p, p_len := p_len p + length src\<rparr> = ?q" by simp
  have wf2: "wf_fl R ?m2" "quiet ?m1 ?m2"
    using obj_resize [OF wf1 p1 assms(3) w1(1), of "p_off p" "p_len p + length src"] assms(5) w1(2)
    unfolding eq by auto
  have "ptr_append i src m = Inr (e + length src, ?m2)"
    using assms(2-5) lt raw_write_ok [OF assms(4) wfw, of e src]
      unused_tail_length_ok [OF assms(1-4)]
    by (simp add: ptr_append_def ptr_at_def arith64 e_def add.assoc Let_def)
  moreover have "node_bytes ?m2 i = node_bytes m i @ src"
  proof -
    have "node_bytes ?m2 i = seg (p_off p) (p_len p + length src) (write_at e src (r_data w))"
      using assms(3,4) by (simp add: node_bytes_def ptr_bytes_def raw_put_def m_raws_upd_raw)
    also have "\<dots> = seg (p_off p) (p_len p) (write_at e src (r_data w)) @
        seg e (length src) (write_at e src (r_data w))"
      by (simp add: seg_append_seg e_def)
    also have "\<dots> = seg (p_off p) (p_len p) (r_data w) @ src"
      using assms(5) wfw by (simp add: seg_write_at_disjoint seg_write_at_same e_def wf_raw_def)
    finally show ?thesis using assms(2-4) by (simp add: node_bytes_def ptr_bytes_def)
  qed
  moreover have "keeps I m ?m2"
    if "i \<notin> I" "\<forall>j\<in>I. \<forall>q. m_ptrs m j = Some q \<longrightarrow> clear_of r e (length src) q" for I
  proof -
    have "keeps I m ?m1"
      by (rule keeps_raw_put [OF wf_flD(1) [OF assms(1)] assms(4)])
        (use assms(5) that in \<open>auto simp: e_def\<close>)
    moreover have "keeps I ?m1 ?m2"
      by (rule keeps_wf_fl [OF wf2(2) wf1 wf2(1)]) (use that(1) in auto)
    ultimately show ?thesis by (rule keeps_trans)
  qed
  ultimately show ?thesis using wf2(1) w1 by auto
qed

subsection \<open>Reading and writing inside the window\<close>

lemma raw_read_ok:
  assumes "wf_fl R m" "m_ptrs m i = Some p" "p_raw p = Some r" "off + len \<le> p_len p"
  shows "raw_read m r (p_off p + off) len = Inr (seg off len (node_bytes m i))"
proof -
  obtain w where w: "m_raws m r = Some w" "p_off p + p_len p \<le> r_len w" "length (r_data w) = r_len w"
    using wf_ptr_raw [OF wf_flD(1) [OF assms(1)] assms(2,3)] by auto
  then show ?thesis using assms(2-4)
    by (simp add: raw_read_def raw_at_def node_bytes_def ptr_bytes_def seg_seg)
qed

lemma wf_ptr_bound:
  assumes "wf_fl R m" "m_ptrs m i = Some p" "p_raw p = Some r"
  shows "p_off p + p_len p < two64"
  using wf_ptr_raw [OF wf_flD(1) [OF assms(1)] assms(2,3)] by auto

lemma ptr_read_ok:
  assumes "wf_fl R m" "m_ptrs m i = Some p" "p_raw p = Some r"
  shows "ptr_read m i = Inr (node_bytes m i)"
  using raw_read_ok [OF assms, of 0 "p_len p"] length_node_bytes [OF assms(1,2)] assms(2,3)
  by (simp add: ptr_read_def ptr_at_def) (metis seg_all)

lemma ptr_copy_out_ok:
  assumes "wf_fl R m" "m_ptrs m i = Some p" "p_raw p = Some r" "off + len \<le> p_len p"
  shows "ptr_copy_out m i off len = Inr (seg off len (node_bytes m i))"
  using raw_read_ok [OF assms] wf_ptr_bound [OF assms(1-3)] assms
  by (simp add: ptr_copy_out_def ptr_at_def arith64)

lemma ptr_index_ok:
  assumes "wf_fl R m" "m_ptrs m i = Some p" "p_raw p = Some r" "pos < p_len p"
  shows "ptr_index m i pos = Inr (node_bytes m i ! pos)"
proof -
  have "seg pos 1 (node_bytes m i) = [node_bytes m i ! pos]"
    using assms(4) length_node_bytes [OF assms(1,2)] by (simp add: seg_def take_Suc hd_drop_conv_nth)
  then show ?thesis
    using raw_read_ok [OF assms(1-3), of pos 1] wf_ptr_bound [OF assms(1-3)] assms
    by (simp add: ptr_index_def ptr_at_def arith64)
qed

lemma ptr_poke_ok:
  assumes "wf_fl R m" "m_ptrs m i = Some p" "p_raw p = Some r" "off + length src \<le> p_len p"
  shows "\<exists>m'. raw_write r (p_off p + off) src m = Inr m' \<and> wf_fl R m' \<and> m_ptrs m' = m_ptrs m \<and>
    m_next m' = m_next m \<and> m_env m' = m_env m \<and>
    node_bytes m' i = write_at off src (node_bytes m i) \<and>
    (\<forall>I. (\<forall>j\<in>I. \<forall>q. m_ptrs m j = Some q \<longrightarrow> clear_of r (p_off p + off) (length src) q) \<longrightarrow>
         keeps I m m')"
proof -
  obtain w where w: "m_raws m r = Some w" "p_off p + p_len p \<le> r_len w" "wf_raw w"
    using wf_ptr_raw [OF wf_flD(1) [OF assms(1)] assms(2,3)] by auto
  have fit: "p_off p + off + length src \<le> r_len w" using w(2) assms(4) by simp
  let ?m = "raw_put r (p_off p + off) src m"
  have "node_bytes ?m i = write_at off src (node_bytes m i)"
    using ptr_bytes_poke [OF w(1,3) assms(3) w(2) assms(4)] assms(2) by (simp add: node_bytes_def)
  then show ?thesis
    using raw_write_ok [OF w(1,3) fit] wf_raw_put [OF assms(1) w(1) fit]
      keeps_raw_put [OF wf_flD(1) [OF assms(1)] w(1) fit]
    by auto
qed

lemma ptr_copy_in_ok:
  assumes "wf_fl R m" "m_ptrs m i = Some p" "p_raw p = Some r" "off + length src \<le> p_len p"
  shows "\<exists>m'. ptr_copy_in i off src crc_reset m = Inr m' \<and> wf_fl R m' \<and> m_ptrs m' = m_ptrs m \<and>
    m_next m' = m_next m \<and> m_env m' = m_env m \<and>
    node_bytes m' i = write_at off src (node_bytes m i) \<and>
    (\<forall>I. (\<forall>j\<in>I. \<forall>q. m_ptrs m j = Some q \<longrightarrow> clear_of r (p_off p + off) (length src) q) \<longrightarrow>
         keeps I m m')"
proof -
  let ?m = "if crc_reset then raw_invalidate_crc r m else m"
  have wf: "wf_fl R ?m" "m_ptrs ?m = m_ptrs m" "node_bytes ?m i = node_bytes m i"
    "m_next ?m = m_next m" "m_env ?m = m_env m" and k: "keeps I m ?m" for I
    using assms(1) wf_invalidate [OF assms(1), of r] keeps_invalidate [OF assms(1), of I r]
    by (auto simp: node_bytes_def split: option.split)
  have "ptr_copy_in i off src crc_reset m = raw_write r (p_off p + off) src ?m"
    using assms(2-4) wf_ptr_bound [OF assms(1-3)]
    by (simp add: ptr_copy_in_def ptr_at_def arith64)
  moreover have pm: "m_ptrs ?m i = Some p" using assms(2) wf(2) by simp
  moreover obtain m' where m': "raw_write r (p_off p + off) src ?m = Inr m'" "wf_fl R m'"
    "m_ptrs m' = m_ptrs ?m" "m_next m' = m_next ?m" "m_env m' = m_env ?m"
    "node_bytes m' i = write_at off src (node_bytes ?m i)"
    "\<And>I. \<forall>j\<in>I. \<forall>q. m_ptrs ?m j = Some q \<longrightarrow> clear_of r (p_off p + off) (length src) q \<Longrightarrow>
       keeps I ?m m'"
    using ptr_poke_ok [OF wf(1) pm assms(3,4)] by blast
  moreover have "keeps I m m'"
    if "\<forall>j\<in>I. \<forall>q. m_ptrs m j = Some q \<longrightarrow> clear_of r (p_off p + off) (length src) q" for I
    using keeps_trans [OF k m'(7)] that unfolding wf(2) by blast
  ultimately show ?thesis unfolding wf(2-5) by auto
qed

end
