(* ===== verification/Buffer_List.thy ===== *)
theory Buffer_List
  imports Ptr_Write
begin

text \<open>
  \<^verbatim>\<open>buffer::list\<close> of \<^verbatim>\<open>buffer_list.h\<close> and \<^verbatim>\<open>buffer_list.cc\<close>: construction, copying, and
  everything that appends. A list is the sequence of its nodes, each a \<^verbatim>\<open>ptr\<close> object of
  the store; the pointer structure that holds the sequence is the subject of \<open>Buffers_Chain\<close>.
\<close>

record blist =
  bufs :: "nat list"
  tail_cache :: "nat option"
  b_len :: nat
  b_num :: nat

text \<open>
  \<^verbatim>\<open>_tail_pnode_cache\<close> is \<open>None\<close> where it points to \<^verbatim>\<open>always_empty_bptr\<close>, which has no raw
  and no length.
\<close>

definition blist_new :: blist where
  "blist_new = \<lparr>bufs = [], tail_cache = None, b_len = 0, b_num = 0\<rparr>"

definition buffer_append_size :: nat where
  "buffer_append_size = 4096 - sizeof_raw_combined"

definition buffer_alloc_unit :: nat where
  "buffer_alloc_unit = 4096"

subsection \<open>Nodes of the low level list\<close>

text \<open>\<^verbatim>\<open>front()\<close> and \<^verbatim>\<open>back()\<close> of an empty list would be the list's own root.\<close>

definition blist_front :: "blist \<Rightarrow> exn + nat" where
  "blist_front b = (case bufs b of [] \<Rightarrow> Inl Undefined | i # _ \<Rightarrow> Inr i)"

definition blist_back :: "blist \<Rightarrow> exn + nat" where
  "blist_back b = (if bufs b = [] then Inl Undefined else Inr (last (bufs b)))"

definition is_back :: "blist \<Rightarrow> nat \<Rightarrow> bool" where
  "is_back b c \<longleftrightarrow> bufs b \<noteq> [] \<and> last (bufs b) = c"

fun clear_and_dispose :: "nat list \<Rightarrow> mem \<Rightarrow> exn + mem" where
  "clear_and_dispose [] m = Inr m"
| "clear_and_dispose (i # is) m = ebind (ptr_destroy i m) (clear_and_dispose is)"

text \<open>One clone of every node, as \<^verbatim>\<open>clone_from\<close>, \<^verbatim>\<open>share\<close> and \<^verbatim>\<open>append\<close> of a list make them.\<close>

fun clone_nodes :: "nat list \<Rightarrow> mem \<Rightarrow> exn + nat list \<times> mem" where
  "clone_nodes [] m = Inr ([], m)"
| "clone_nodes (i # is) m =
     ebind (ptr_copy i m) (\<lambda>(k, m).
     ebind (clone_nodes is m) (\<lambda>(ks, m). Inr (k # ks, m)))"

definition blist_mempool_type :: "mem \<Rightarrow> blist \<Rightarrow> exn + pool_type_id" where
  "blist_mempool_type m b =
    (if bufs b = [] then Inr Mempool_buffer_anon
     else ebind (ptr_at m (last (bufs b))) (ptr_get_mempool_type m))"

fun nodes_reassign :: "(nat \<Rightarrow> pool_type_id \<Rightarrow> mem \<Rightarrow> exn + mem) \<Rightarrow> pool_type_id \<Rightarrow> nat list \<Rightarrow> mem \<Rightarrow> exn + mem" where
  "nodes_reassign f t [] m = Inr m"
| "nodes_reassign f t (i # is) m =
     ebind (ptr_at m i) (\<lambda>p.
     ebind (of_option Undefined (p_raw p)) (\<lambda>r.
     ebind (f r t m) (nodes_reassign f t is)))"

definition blist_reassign_to_mempool :: "blist \<Rightarrow> pool_type_id \<Rightarrow> mem \<Rightarrow> exn + mem" where
  "blist_reassign_to_mempool b t m = nodes_reassign raw_reassign_to_mempool t (bufs b) m"

definition blist_try_assign_to_mempool :: "blist \<Rightarrow> pool_type_id \<Rightarrow> mem \<Rightarrow> exn + mem" where
  "blist_try_assign_to_mempool b t m = nodes_reassign raw_try_assign_to_mempool t (bufs b) m"

subsection \<open>Construction, assignment, swap\<close>

definition blist_clear :: "blist \<Rightarrow> mem \<Rightarrow> exn + blist \<times> mem" where
  "blist_clear b m = ebind (clear_and_dispose (bufs b) m) (\<lambda>m. Inr (blist_new, m))"

definition blist_destroy :: "blist \<Rightarrow> mem \<Rightarrow> exn + mem" where
  "blist_destroy b m = clear_and_dispose (bufs b) m"

definition blist_copy :: "blist \<Rightarrow> mem \<Rightarrow> exn + blist \<times> mem" where
  "blist_copy other m =
    ebind (clone_nodes (bufs other) m) (\<lambda>(ks, m).
      Inr (\<lparr>bufs = ks, tail_cache = None, b_len = b_len other, b_num = b_num other\<rparr>, m))"

text \<open>The moved-from list is empty; the new list takes its nodes and its cached tail.\<close>

definition blist_move :: "blist \<Rightarrow> blist \<times> blist" where
  "blist_move other = (other, blist_new)"

text \<open>
  Both assignments are between different lists. A list copied onto itself is left alone; moved
  onto itself it is emptied by the \<^verbatim>\<open>clear\<close> of the moved-from list.
\<close>

definition blist_assign :: "blist \<Rightarrow> blist \<Rightarrow> mem \<Rightarrow> exn + blist \<times> mem" where
  "blist_assign b other m =
    ebind (clear_and_dispose (bufs b) m) (\<lambda>m. blist_copy other m)"

definition blist_assign_move :: "blist \<Rightarrow> blist \<Rightarrow> mem \<Rightarrow> exn + (blist \<times> blist) \<times> mem" where
  "blist_assign_move b other m =
    ebind (clear_and_dispose (bufs b) m) (\<lambda>m. Inr ((other, blist_new), m))"

definition blist_assign_move_self :: "blist \<Rightarrow> mem \<Rightarrow> exn + blist \<times> mem" where
  "blist_assign_move_self b m = blist_clear b m"

definition blist_swap :: "blist \<Rightarrow> blist \<Rightarrow> blist \<times> blist" where
  "blist_swap b other = (other, b)"

definition blist_share :: "blist \<Rightarrow> blist \<Rightarrow> mem \<Rightarrow> exn + blist \<times> mem" where
  "blist_share b other m =
    ebind (blist_clear b m) (\<lambda>(b, m).
    ebind (clone_nodes (bufs other) m) (\<lambda>(ks, m).
      Inr (b\<lparr>bufs := ks, b_len := b_len other, b_num := b_num other\<rparr>, m)))"

subsection \<open>Adding whole nodes\<close>

definition blist_push_back :: "nat \<Rightarrow> blist \<Rightarrow> mem \<Rightarrow> exn + blist \<times> mem" where
  "blist_push_back i b m =
    ebind (ptr_at m i) (\<lambda>p.
      if p_len p = 0 then Inr (b, m)
      else ebind (ptr_copy i m) (\<lambda>(k, m).
        Inr (b\<lparr>bufs := bufs b @ [k], b_len := add64 (b_len b) (p_len p),
               b_num := add64 (b_num b) 1\<rparr>, m)))"

definition blist_push_back_move :: "nat \<Rightarrow> blist \<Rightarrow> mem \<Rightarrow> exn + blist \<times> mem" where
  "blist_push_back_move i b m =
    ebind (ptr_at m i) (\<lambda>p.
      if p_len p = 0 then Inr (b, m)
      else ebind (ptr_move i m) (\<lambda>(k, m).
        Inr (b\<lparr>bufs := bufs b @ [k], tail_cache := None, b_len := add64 (b_len b) (p_len p),
               b_num := add64 (b_num b) 1\<rparr>, m)))"

text \<open>A node of length 0 handed over is destroyed with its owner.\<close>

definition blist_push_back_node :: "nat \<Rightarrow> blist \<Rightarrow> mem \<Rightarrow> exn + blist \<times> mem" where
  "blist_push_back_node i b m =
    ebind (ptr_at m i) (\<lambda>p.
      if p_len p = 0 then ebind (ptr_destroy i m) (\<lambda>m. Inr (b, m))
      else Inr (b\<lparr>bufs := bufs b @ [i], tail_cache := Some i, b_len := add64 (b_len b) (p_len p),
                  b_num := add64 (b_num b) 1\<rparr>, m))"

definition blist_push_back_raw :: "nat \<Rightarrow> blist \<Rightarrow> mem \<Rightarrow> exn + blist \<times> mem" where
  "blist_push_back_raw r b m =
    ebind (ptr_of_raw r m) (\<lambda>(k, m).
    ebind (ptr_length m k) (\<lambda>n.
      Inr (b\<lparr>bufs := bufs b @ [k], tail_cache := Some k, b_len := add64 (b_len b) n,
             b_num := add64 (b_num b) 1\<rparr>, m)))"

text \<open>A new last node that becomes the cached tail; the list's length is unchanged.\<close>

definition add_tail :: "nat \<Rightarrow> blist \<Rightarrow> blist" where
  "add_tail k b = b\<lparr>bufs := bufs b @ [k], tail_cache := Some k, b_num := add64 (b_num b) 1\<rparr>"

definition get_append_buffer_unused_tail_length :: "mem \<Rightarrow> blist \<Rightarrow> exn + nat" where
  "get_append_buffer_unused_tail_length m b =
    (case tail_cache b of
       None \<Rightarrow> Inr 0
     | Some c \<Rightarrow> ebind (ptr_at m c) (unused_tail_length m))"

text \<open>A raw of a page or more with an empty node on it.\<close>

definition new_append_raw :: "nat \<Rightarrow> blist \<Rightarrow> mem \<Rightarrow> exn + nat \<times> (blist \<times> mem)" where
  "new_append_raw alen b m =
    ebind (blist_mempool_type m b) (\<lambda>t.
    ebind (raw_combined_create alen 0 t m) (\<lambda>(r, m).
    ebind (ptr_of_raw r m) (\<lambda>(k, m).
    ebind (set_length k 0 m) (\<lambda>m. Inr (k, add_tail k b, m)))))"

definition refill_append_space :: "nat \<Rightarrow> blist \<Rightarrow> mem \<Rightarrow> exn + nat \<times> (blist \<times> mem)" where
  "refill_append_space len b m =
    ebind (round_up_to len 8) (\<lambda>n.
    let need = add64 n sizeof_raw_combined in
    ebind (round_up_to need buffer_alloc_unit) (\<lambda>n.
      new_append_raw (sub64 n sizeof_raw_combined) b m))"

text \<open>
  When the cached tail is no longer the last node, its free space is still the list's to
  use: a new empty node that starts where the cached one ends is linked at the end.
\<close>

definition resync_tail :: "blist \<Rightarrow> mem \<Rightarrow> exn + blist \<times> mem" where
  "resync_tail b m =
    ebind (of_option Assert_failed (tail_cache b)) (\<lambda>c.
      if is_back b c then Inr (b, m)
      else
        ebind (ptr_length m c) (\<lambda>n.
        ebind (ptr_sub c n 0 m) (\<lambda>(k, m). Inr (add_tail k b, m))))"

subsection \<open>Appending bytes\<close>

definition tail_append :: "bytes \<Rightarrow> blist \<Rightarrow> mem \<Rightarrow> exn + mem" where
  "tail_append data b m =
    ebind (of_option Assert_failed (tail_cache b)) (\<lambda>c.
    ebind (ptr_append c data m) (\<lambda>(_, m). Inr m))"

definition blist_append_char :: "u8 \<Rightarrow> blist \<Rightarrow> mem \<Rightarrow> exn + blist \<times> mem" where
  "blist_append_char c b m =
    ebind (get_append_buffer_unused_tail_length m b) (\<lambda>gap.
    ebind (if gap = 0
           then ebind (new_append_raw buffer_append_size b m) (\<lambda>(_, b, m). Inr (b, m))
           else resync_tail b m) (\<lambda>(b, m).
    ebind (tail_append [c] b m) (\<lambda>m. Inr (b\<lparr>b_len := add64 (b_len b) 1\<rparr>, m))))"

definition blist_append :: "bytes \<Rightarrow> blist \<Rightarrow> mem \<Rightarrow> exn + blist \<times> mem" where
  "blist_append data b m =
    (let len = length data;
         b = b\<lparr>b_len := add64 (b_len b) len\<rparr> in
     ebind (get_append_buffer_unused_tail_length m b) (\<lambda>unused.
     let first = min len unused in
     ebind (if first \<noteq> 0
            then ebind (resync_tail b m) (\<lambda>(b, m).
                 ebind (tail_append (take first data) b m) (\<lambda>m. Inr (b, m)))
            else Inr (b, m)) (\<lambda>(b, m).
     let left = len - first in
       if left \<noteq> 0
       then ebind (refill_append_space left b m) (\<lambda>(k, b, m).
            ebind (ptr_append k (drop first data) m) (\<lambda>(_, m). Inr (b, m)))
       else Inr (b, m))))"

definition blist_append_ptr :: "nat \<Rightarrow> blist \<Rightarrow> mem \<Rightarrow> exn + blist \<times> mem" where
  "blist_append_ptr i b m = blist_push_back i b m"

definition blist_append_ptr_move :: "nat \<Rightarrow> blist \<Rightarrow> mem \<Rightarrow> exn + blist \<times> mem" where
  "blist_append_ptr_move i b m = blist_push_back_move i b m"

text \<open>A range of a \<^verbatim>\<open>ptr\<close>: it extends the last node when it continues it in the same raw.\<close>

definition blist_append_range :: "nat \<Rightarrow> nat \<Rightarrow> nat \<Rightarrow> blist \<Rightarrow> mem \<Rightarrow> exn + blist \<times> mem" where
  "blist_append_range i off len b m =
    ebind (ptr_at m i) (\<lambda>p.
    ebind (spec_assert (add64 len off \<le> p_len p)) (\<lambda>_.
    let fresh =
      ebind (ptr_sub i off len m) (\<lambda>(k, m).
        Inr (b\<lparr>bufs := bufs b @ [k], b_len := add64 (b_len b) len, b_num := add64 (b_num b) 1\<rparr>, m))
    in if bufs b \<noteq> []
       then
         ebind (ptr_at m (last (bufs b))) (\<lambda>t.
           if p_raw t = p_raw p \<and> ptr_end t = add64 (p_off p) off
           then ebind (set_length (last (bufs b)) (add64 (p_len t) len) m) (\<lambda>m.
                  Inr (b\<lparr>b_len := add64 (b_len b) len\<rparr>, m))
           else fresh)
       else fresh))"

definition blist_append_list :: "blist \<Rightarrow> blist \<Rightarrow> mem \<Rightarrow> exn + blist \<times> mem" where
  "blist_append_list other b m =
    ebind (clone_nodes (bufs other) m) (\<lambda>(ks, m).
      Inr (b\<lparr>bufs := bufs b @ ks, b_len := add64 (b_len b) (b_len other),
             b_num := add64 (b_num b) (b_num other)\<rparr>, m))"

text \<open>The lines of an input stream; a line that is not empty gets its newline back.\<close>

fun append_lines :: "bytes list \<Rightarrow> blist \<Rightarrow> mem \<Rightarrow> exn + blist \<times> mem" where
  "append_lines [] b m = Inr (b, m)"
| "append_lines (s # ss) b m =
     ebind (blist_append s b m) (\<lambda>(b, m).
     ebind (if s \<noteq> [] then blist_append [0x0a] b m else Inr (b, m)) (\<lambda>(b, m).
       append_lines ss b m))"

text \<open>The position of a hole, as a raw and an offset in it.\<close>

definition blist_append_hole :: "nat \<Rightarrow> blist \<Rightarrow> mem \<Rightarrow> exn + (nat \<times> nat) \<times> (blist \<times> mem)" where
  "blist_append_hole len b m =
    (let b = b\<lparr>b_len := add64 (b_len b) len\<rparr> in
     ebind (get_append_buffer_unused_tail_length m b) (\<lambda>unused.
       if unused < len
       then ebind (refill_append_space len b m) (\<lambda>(k, b, m).
            ebind (set_length k len m) (\<lambda>m.
            ebind (c_str m k) (\<lambda>pos. Inr (pos, b, m))))
       else
         ebind (resync_tail b m) (\<lambda>(b, m).
         ebind (of_option Undefined (tail_cache b)) (\<lambda>c.
         ebind (ptr_length m c) (\<lambda>n.
         ebind (set_length c (add64 n len) m) (\<lambda>m.
         ebind (end_c_str m c) (\<lambda>(r, e). Inr ((r, e - len), b, m))))))))"

definition blist_append_zero :: "nat \<Rightarrow> blist \<Rightarrow> mem \<Rightarrow> exn + blist \<times> mem" where
  "blist_append_zero len b m =
    (let b = b\<lparr>b_len := add64 (b_len b) len\<rparr> in
     ebind (get_append_buffer_unused_tail_length m b) (\<lambda>unused.
     let first = min len unused in
     ebind (if first \<noteq> 0
            then ebind (resync_tail b m) (\<lambda>(b, m).
                 ebind (of_option Assert_failed (tail_cache b)) (\<lambda>c.
                 ebind (append_zeros c first m) (\<lambda>(_, m). Inr (b, m))))
            else Inr (b, m)) (\<lambda>(b, m).
     let left = len - first in
       if left \<noteq> 0
       then ebind (refill_append_space left b m) (\<lambda>(k, b, m).
            ebind (set_length k left m) (\<lambda>m.
            ebind (ptr_zero k False m) (\<lambda>m. Inr (b, m))))
       else Inr (b, m))))"

definition blist_prepend_zero :: "nat \<Rightarrow> blist \<Rightarrow> mem \<Rightarrow> exn + blist \<times> mem" where
  "blist_prepend_zero len b m =
    ebind (ptr_of_len len m) (\<lambda>(k, m).
    ebind (ptr_zero k False m) (\<lambda>m.
      Inr (b\<lparr>bufs := k # bufs b, b_len := add64 (b_len b) len, b_num := add64 (b_num b) 1\<rparr>, m)))"

subsection \<open>Reserving and claiming\<close>

definition blist_reserve :: "nat \<Rightarrow> blist \<Rightarrow> mem \<Rightarrow> exn + blist \<times> mem" where
  "blist_reserve pre_alloc_size b m =
    ebind (get_append_buffer_unused_tail_length m b) (\<lambda>unused.
      if unused < pre_alloc_size
      then ebind (create_page_aligned pre_alloc_size m) (\<lambda>(r, m).
           ebind (ptr_of_raw r m) (\<lambda>(k, m).
           ebind (set_length k 0 m) (\<lambda>m. Inr (add_tail k b, m))))
      else Inr (b, m))"

definition blist_prealloc :: "nat \<Rightarrow> mem \<Rightarrow> exn + blist \<times> mem" where
  "blist_prealloc pre_alloc_size m = blist_reserve pre_alloc_size blist_new m"

text \<open>
  Space for direct writes: the node that owns it and the position of its first byte. The
  writer adds what it used to that node's length and to the list's.
\<close>

definition obtain_contiguous_space ::
    "nat \<Rightarrow> blist \<Rightarrow> mem \<Rightarrow> exn + (nat \<times> (nat \<times> nat)) \<times> (blist \<times> mem)" where
  "obtain_contiguous_space len b m =
    ebind (get_append_buffer_unused_tail_length m b) (\<lambda>unused.
      if unused < len
      then ebind (create_raw len m) (\<lambda>(r, m).
           ebind (ptr_of_raw r m) (\<lambda>(k, m).
           ebind (set_length k 0 m) (\<lambda>m.
           ebind (c_str m k) (\<lambda>pos. Inr ((k, pos), add_tail k b, m)))))
      else
        ebind (resync_tail b m) (\<lambda>(b, m).
        ebind (of_option Undefined (tail_cache b)) (\<lambda>c.
        ebind (end_c_str m c) (\<lambda>pos. Inr ((c, pos), b, m)))))"

definition claim_append :: "blist \<Rightarrow> blist \<Rightarrow> blist \<times> blist" where
  "claim_append other b =
    (b\<lparr>bufs := bufs b @ bufs other, b_len := add64 (b_len b) (b_len other),
       b_num := add64 (b_num b) (b_num other)\<rparr>, blist_new)"

fun append_nodes :: "nat list \<Rightarrow> blist \<Rightarrow> mem \<Rightarrow> exn + blist \<times> mem" where
  "append_nodes [] b m = Inr (b, m)"
| "append_nodes (i # is) b m =
     ebind (ptr_length m i) (\<lambda>n.
     ebind (blist_append_range i 0 n b m) (\<lambda>(b, m). append_nodes is b m))"

definition claim_append_piecewise :: "blist \<Rightarrow> blist \<Rightarrow> mem \<Rightarrow> exn + (blist \<times> blist) \<times> mem" where
  "claim_append_piecewise other b m =
    ebind (append_nodes (bufs other) b m) (\<lambda>(b, m).
    ebind (blist_clear other m) (\<lambda>(other, m). Inr ((b, other), m)))"

definition static_from_mem :: "nat \<Rightarrow> bytes \<Rightarrow> mem \<Rightarrow> exn + blist \<times> mem" where
  "static_from_mem addr c m =
    ebind (create_static addr c m) (\<lambda>(r, m).
    ebind (ptr_of_raw r m) (\<lambda>(k, m). blist_push_back_node k blist_new m))"

end
