(* ===== verification/Buffer_List_Spec.thy ===== *)
theory Buffer_List_Spec
  imports Buffer_List
begin

text \<open>
  The contract of \<^verbatim>\<open>buffer::list\<close>: a list stands for a sequence of bytes. An operation is
  right when the bytes afterwards are the ones it promises, the list's own length and node
  count agree with them, every \<^verbatim>\<open>ptr\<close> outside the list still shows the bytes it showed, no
  node is left behind, and the reference counts of the store stay exact.
\<close>

subsection \<open>The contract\<close>

definition bl_bytes :: "mem \<Rightarrow> blist \<Rightarrow> bytes" where
  "bl_bytes m b = concat (map (node_bytes m) (bufs b))"

text \<open>Nobody but the list sees the part of the tail's raw behind the tail's end.\<close>

definition tail_free :: "mem \<Rightarrow> nat \<Rightarrow> bool" where
  "tail_free m c \<longleftrightarrow> (\<forall>p r j q. m_ptrs m c = Some p \<longrightarrow> p_raw p = Some r \<longrightarrow> j \<noteq> c \<longrightarrow>
     m_ptrs m j = Some q \<longrightarrow> p_raw q = Some r \<longrightarrow>
     p_len q = 0 \<or> p_off q + p_len q \<le> p_off p + p_len p)"

definition has_raw :: "mem \<Rightarrow> nat \<Rightarrow> bool" where
  "has_raw m i \<longleftrightarrow> (\<exists>p r. m_ptrs m i = Some p \<and> p_raw p = Some r)"

definition wf_nodes :: "mem \<Rightarrow> blist \<Rightarrow> bool" where
  "wf_nodes m b \<longleftrightarrow> distinct (bufs b) \<and> (\<forall>i \<in> set (bufs b). has_raw m i) \<and>
     b_num b = length (bufs b) \<and>
     (\<forall>c. tail_cache b = Some c \<longrightarrow> c \<in> set (bufs b) \<and> tail_free m c)"

definition wf_list :: "mem \<Rightarrow> blist \<Rightarrow> bool" where
  "wf_list m b \<longleftrightarrow> wf_nodes m b \<and> b_len b = length (bl_bytes m b)"

definition others :: "mem \<Rightarrow> blist \<Rightarrow> nat set" where
  "others m b = dom (m_ptrs m) - set (bufs b)"

definition turns :: "blist \<Rightarrow> mem \<Rightarrow> bytes \<Rightarrow> blist \<Rightarrow> mem \<Rightarrow> bool" where
  "turns b m bs b' m' \<longleftrightarrow> wf_mem m' \<and> wf_nodes m' b' \<and> bl_bytes m' b' = bs \<and>
     keeps (others m b) m m' \<and> others m' b' = others m b"

definition becomes :: "blist \<Rightarrow> mem \<Rightarrow> bytes \<Rightarrow> blist \<Rightarrow> mem \<Rightarrow> bool" where
  "becomes b m bs b' m' \<longleftrightarrow> turns b m bs b' m' \<and> b_len b' = length bs"

text \<open>
  What the operations are run in: a sound store on a working platform, and a list that is
  far from the limits of 64-bit arithmetic.
\<close>

definition ready :: "blist \<Rightarrow> mem \<Rightarrow> bool" where
  "ready b m \<longleftrightarrow> wf_mem m \<and> env_ok (m_env m) \<and> wf_list m b \<and>
     b_len b < 2 ^ 62 \<and> length (bufs b) < 2 ^ 62"

lemma turns_trans:
  "turns b m bs b1 m1 \<Longrightarrow> turns b1 m1 bs' b2 m2 \<Longrightarrow> turns b m bs' b2 m2"
  unfolding turns_def by (metis keeps_trans)

lemma turnsD:
  assumes "turns b m bs b' m'"
  shows "wf_mem m'" "wf_nodes m' b'" "bl_bytes m' b' = bs" "m_env m' = m_env m"
    "keeps (others m b) m m'" "others m' b' = others m b"
  using assms by (auto simp: turns_def keeps_def)

lemma becomes_wf: "becomes b m bs b' m' \<Longrightarrow> wf_list m' b'"
  by (simp add: becomes_def turns_def wf_list_def)

lemma wf_nodesD:
  assumes "wf_nodes m b"
  shows "distinct (bufs b)" "i \<in> set (bufs b) \<Longrightarrow> has_raw m i" "b_num b = length (bufs b)"
    "tail_cache b = Some c \<Longrightarrow> c \<in> set (bufs b)" "tail_cache b = Some c \<Longrightarrow> tail_free m c"
    "set (bufs b) \<subseteq> dom (m_ptrs m)"
  using assms by (auto simp: wf_nodes_def has_raw_def)

lemma readyD:
  assumes "ready b m"
  shows "wf_mem m" "env_ok (m_env m)" "wf_nodes m b" "b_len b = length (bl_bytes m b)"
    "b_len b < 2 ^ 62" "length (bufs b) < 2 ^ 62"
  using assms by (auto simp: ready_def wf_list_def)

lemma wf_nodes_len [simp]: "wf_nodes m (b\<lparr>b_len := n\<rparr>) = wf_nodes m b"
  by (simp add: wf_nodes_def)

lemma bl_bytes_len [simp]: "bl_bytes m (b\<lparr>b_len := n\<rparr>) = bl_bytes m b"
  by (simp add: bl_bytes_def)

lemma others_len [simp]: "others m (b\<lparr>b_len := n\<rparr>) = others m b"
  by (simp add: others_def)

lemma turns_len [simp]:
  "turns (b\<lparr>b_len := n\<rparr>) m bs b' m' = turns b m bs b' m'"
  "turns b m bs (b'\<lparr>b_len := n\<rparr>) m' = turns b m bs b' m'"
  by (simp_all add: turns_def)

lemma turns_refl: "wf_mem m \<Longrightarrow> wf_nodes m b \<Longrightarrow> turns b m (bl_bytes m b) b m"
  by (simp add: turns_def)

lemma bl_bytes_add_node: "bl_bytes m (b\<lparr>bufs := bufs b @ [k]\<rparr>) = bl_bytes m b @ node_bytes m k"
  by (simp add: bl_bytes_def)

lemma bl_bytes_new [simp]: "bl_bytes m blist_new = []"
  by (simp add: bl_bytes_def blist_new_def)

lemma wf_list_new [simp]: "wf_list m blist_new"
  by (simp add: wf_list_def wf_nodes_def blist_new_def bl_bytes_def)

lemma ready_new: "wf_mem m \<Longrightarrow> env_ok (m_env m) \<Longrightarrow> ready blist_new m"
  by (simp add: ready_def) (simp add: blist_new_def)

lemma bl_bytes_keeps:
  "keeps I m m' \<Longrightarrow> set (bufs b) \<subseteq> I \<Longrightarrow> bl_bytes m' b = bl_bytes m b"
  unfolding bl_bytes_def by (intro concat_map_eq) (auto simp: keeps_def)

lemma has_raw_keeps: "keeps I m m' \<Longrightarrow> i \<in> I \<Longrightarrow> has_raw m' i = has_raw m i"
  by (simp add: keeps_def has_raw_def)

lemma tail_freeD:
  assumes "tail_free m c" "m_ptrs m c = Some p" "p_raw p = Some r" "j \<noteq> c"
    "m_ptrs m j = Some q" "p_raw q = Some r"
  shows "p_len q = 0 \<or> p_off q + p_len q \<le> p_off p + p_len p"
  using assms unfolding tail_free_def by blast

lemma tail_free_mono:
  assumes "tail_free m c" "m_ptrs m' c = m_ptrs m c"
    and "\<And>j q p r. m_ptrs m' j = Some q \<Longrightarrow> j \<noteq> c \<Longrightarrow> m_ptrs m' j \<noteq> m_ptrs m j \<Longrightarrow>
      m_ptrs m c = Some p \<Longrightarrow> p_raw p = Some r \<Longrightarrow> p_raw q = Some r \<Longrightarrow>
      p_len q = 0 \<or> p_off q + p_len q \<le> p_off p + p_len p"
  shows "tail_free m' c"
  unfolding tail_free_def
proof (intro allI impI)
  fix p r j q
  assume h: "m_ptrs m' c = Some p" "p_raw p = Some r" "j \<noteq> c" "m_ptrs m' j = Some q" "p_raw q = Some r"
  show "p_len q = 0 \<or> p_off q + p_len q \<le> p_off p + p_len p"
  proof (cases "m_ptrs m' j = m_ptrs m j")
    case True
    then show ?thesis using assms(1,2) h unfolding tail_free_def by metis
  next
    case False
    then show ?thesis using assms(2,3) h by metis
  qed
qed

subsection \<open>Adding a node\<close>

text \<open>The general step: a fresh object that holds a raw becomes the last node.\<close>

lemma link_fresh:
  assumes wf: "wf_mem m" "wf_nodes m b" "wf_mem m'"
    and q: "quiet m m'" and p: "m_ptrs m' = (m_ptrs m)(k \<mapsto> p)" "m_ptrs m k = None"
    and r: "p_raw p \<noteq> None" and num: "length (bufs b) < 2 ^ 63"
    and b': "bufs b' = bufs b @ [k]" "b_num b' = add64 (b_num b) 1"
    and t: "\<And>c. tail_cache b' = Some c \<Longrightarrow> c = k \<and> tail_free m' k \<or>
      tail_cache b = Some c \<and> tail_free m' c"
  shows "turns b m (bl_bytes m b @ node_bytes m' k) b' m'"
proof -
  have keep: "keeps (dom (m_ptrs m)) m m'"
    by (rule keeps_wf_fl [OF q wf(1,3)]) (use p in auto)
  have sub: "set (bufs b) \<subseteq> dom (m_ptrs m)" by (rule wf_nodesD [OF wf(2)])
  then have k: "k \<notin> set (bufs b)" using p(2) by auto
  have "add64 (b_num b) 1 = length (bufs b) + 1"
    using num wf_nodesD(3) [OF wf(2)] by (simp add: arith64 two64_def)
  moreover have "has_raw m' i" if "i \<in> set (bufs b')" for i
    using that b'(1) p r wf_nodesD(2) [OF wf(2)] k by (auto simp: has_raw_def)
  moreover have "c \<in> set (bufs b') \<and> tail_free m' c" if "tail_cache b' = Some c" for c
    using t [OF that] b'(1) wf_nodesD(4) [OF wf(2)] by auto
  ultimately have "wf_nodes m' b'"
    using wf_nodesD(1) [OF wf(2)] k b' by (simp add: wf_nodes_def)
  moreover have "bl_bytes m' b' = bl_bytes m b @ node_bytes m' k"
    using bl_bytes_keeps [OF keep sub] by (simp add: bl_bytes_def b'(1))
  moreover have "others m' b' = others m b" using p b'(1) k by (auto simp: others_def)
  moreover have "keeps (others m b) m m'"
    by (rule keeps_mono [OF keep]) (auto simp: others_def)
  ultimately show ?thesis using wf(3) by (simp add: turns_def)
qed

lemma tail_free_fresh_raw:
  assumes "wf_core d m" "m_ptrs m' = (m_ptrs m)(k \<mapsto> p)" "p_raw p = Some (m_next m)"
  shows "tail_free m' k"
proof -
  have "p_raw q \<noteq> Some (m_next m)" if "m_ptrs m j = Some q" for j q
    using that wf_core_fresh(3) [OF assms(1)] by (auto simp: refset_def)
  then show ?thesis using assms(2,3) by (auto simp: tail_free_def)
qed

lemma fresh_ptr_frees:
  assumes "wf_mem m" "fresh_ptr al data m m'"
  shows "m_ptrs m (Suc (m_next m)) = None" "tail_free m' (Suc (m_next m))"
    "tail_free m c \<Longrightarrow> has_raw m c \<Longrightarrow> tail_free m' c"
proof -
  let ?p = "\<lparr>p_raw = Some (m_next m), p_off = 0, p_len = length data\<rparr>"
  note wf = wf_flD(1) [OF assms(1)]
  have p: "m_ptrs m' = (m_ptrs m)(Suc (m_next m) \<mapsto> ?p)" using assms(2) by (simp add: fresh_ptr_def)
  show n: "m_ptrs m (Suc (m_next m)) = None"
    using wf_coreD(2) [OF wf, of "Suc (m_next m)"] by (cases "m_ptrs m (Suc (m_next m))") auto
  show "tail_free m' (Suc (m_next m))" by (rule tail_free_fresh_raw [OF wf p]) simp
  assume c: "tail_free m c" "has_raw m c"
  have "p_raw q \<noteq> Some (m_next m)" if "m_ptrs m j = Some q" for j q
    using that wf_core_fresh(3) [OF wf] by (auto simp: refset_def)
  then show "tail_free m' c"
    using c p n by (auto intro!: tail_free_mono [OF c(1)] simp: has_raw_def split: if_splits)
qed

end
