(* ===== verification/Buffer_List_Ops.thy ===== *)
theory Buffer_List_Ops
  imports Buffer_List_Spec
begin

text \<open>
  The operations of \<^verbatim>\<open>buffer::list\<close> that read, compare, cut and rearrange: indexing, \<^verbatim>\<open>c_str\<close>,
  \<^verbatim>\<open>to_str\<close>, \<^verbatim>\<open>substr_of\<close>, \<^verbatim>\<open>splice\<close>, \<^verbatim>\<open>zero\<close>, the alignment predicates, \<^verbatim>\<open>contents_equal\<close>,
  \<^verbatim>\<open>get_wasted_space\<close> and the rebuilds. The list's root is not a node: code that reads it as
  one is \<open>Undefined\<close>.
\<close>

unbundle bit_operations_syntax

lemma ebind_cong [fundef_cong]:
  "m = m' \<Longrightarrow> (\<And>x. m' = Inr x \<Longrightarrow> f x = g x) \<Longrightarrow> ebind m f = ebind m' g"
  by (cases m') auto

subsection \<open>Reading\<close>

fun nodes_index :: "mem \<Rightarrow> nat list \<Rightarrow> nat \<Rightarrow> exn + u8" where
  "nodes_index m [] pos = Inl Assert_failed"
| "nodes_index m (i # is) pos =
     ebind (ptr_length m i) (\<lambda>n.
       if pos \<ge> n then nodes_index m is (sub64 pos n) else ptr_index m i pos)"

definition blist_index :: "mem \<Rightarrow> blist \<Rightarrow> nat \<Rightarrow> exn + u8" where
  "blist_index m b pos = (if pos \<ge> b_len b then Inl End_of_buffer else nodes_index m (bufs b) pos)"

text \<open>\<^verbatim>\<open>to_str\<close> and \<^verbatim>\<open>write_stream\<close> produce the nodes' bytes in order; empty nodes are skipped.\<close>

fun nodes_str :: "mem \<Rightarrow> nat list \<Rightarrow> exn + bytes" where
  "nodes_str m [] = Inr []"
| "nodes_str m (i # is) =
     ebind (ptr_length m i) (\<lambda>n.
     ebind (if n \<noteq> 0 then ptr_read m i else Inr []) (\<lambda>s.
     ebind (nodes_str m is) (\<lambda>t. Inr (s @ t))))"

definition to_str :: "mem \<Rightarrow> blist \<Rightarrow> exn + bytes" where
  "to_str m b = nodes_str m (bufs b)"

definition write_stream :: "mem \<Rightarrow> blist \<Rightarrow> exn + bytes" where
  "write_stream m b = nodes_str m (bufs b)"

fun nodes_all :: "(nat \<Rightarrow> exn + bool) \<Rightarrow> nat list \<Rightarrow> exn + bool" where
  "nodes_all f [] = Inr True"
| "nodes_all f (i # is) = ebind (f i) (\<lambda>c. if c then nodes_all f is else Inr False)"

definition blist_is_aligned :: "mem \<Rightarrow> blist \<Rightarrow> nat \<Rightarrow> exn + bool" where
  "blist_is_aligned m b align = nodes_all (\<lambda>i. ptr_is_aligned m i align) (bufs b)"

definition blist_is_page_aligned :: "mem \<Rightarrow> blist \<Rightarrow> exn + bool" where
  "blist_is_page_aligned m b = blist_is_aligned m b (e_page (m_env m))"

definition blist_is_n_align_sized :: "mem \<Rightarrow> blist \<Rightarrow> nat \<Rightarrow> exn + bool" where
  "blist_is_n_align_sized m b align = nodes_all (\<lambda>i. is_n_align_sized m i align) (bufs b)"

definition blist_is_n_page_sized :: "mem \<Rightarrow> blist \<Rightarrow> exn + bool" where
  "blist_is_n_page_sized m b = blist_is_n_align_sized m b (e_page (m_env m))"

definition node_aligned_both :: "mem \<Rightarrow> nat \<Rightarrow> nat \<Rightarrow> nat \<Rightarrow> exn + bool" where
  "node_aligned_both m align_size align_memory i =
    ebind (ptr_is_aligned m i align_memory) (\<lambda>a.
      if a then is_n_align_sized m i align_size else Inr False)"

definition is_aligned_size_and_memory :: "mem \<Rightarrow> blist \<Rightarrow> nat \<Rightarrow> nat \<Rightarrow> exn + bool" where
  "is_aligned_size_and_memory m b align_size align_memory =
    nodes_all (node_aligned_both m align_size align_memory) (bufs b)"

definition blist_is_zero :: "mem \<Rightarrow> blist \<Rightarrow> exn + bool" where
  "blist_is_zero m b = nodes_all (ptr_is_zero m) (bufs b)"

definition is_contiguous :: "blist \<Rightarrow> bool" where
  "is_contiguous b \<longleftrightarrow> b_num b \<le> 1"

definition is_provided_buffer :: "mem \<Rightarrow> blist \<Rightarrow> nat \<Rightarrow> exn + bool" where
  "is_provided_buffer m b dst =
    (if bufs b = [] then Inr False
     else if \<not> is_contiguous b then Inr False
     else ebind (blist_front b) (\<lambda>i. ebind (c_str_addr m i) (\<lambda>a. Inr (a = dst))))"

text \<open>Distinct raws of the nodes, found by sorting them; a null raw counts nothing.\<close>

fun nodes_raws :: "mem \<Rightarrow> nat list \<Rightarrow> exn + nat list" where
  "nodes_raws m [] = Inr []"
| "nodes_raws m (i # is) =
     ebind (ptr_at m i) (\<lambda>p.
     ebind (nodes_raws m is) (\<lambda>rs.
       Inr (case p_raw p of None \<Rightarrow> rs | Some r \<Rightarrow> r # rs)))"

fun sum_raw_lens :: "mem \<Rightarrow> nat list \<Rightarrow> nat \<Rightarrow> exn + nat" where
  "sum_raw_lens m [] tot = Inr tot"
| "sum_raw_lens m (r # rs) tot =
     ebind (raw_at m r) (\<lambda>w. sum_raw_lens m rs (add64 tot (r_len w)))"

definition get_wasted_space :: "mem \<Rightarrow> blist \<Rightarrow> exn + nat" where
  "get_wasted_space m b =
    (if b_num b = 1 then ebind (blist_back b) (ptr_wasted m)
     else
       ebind (nodes_raws m (bufs b)) (\<lambda>rs.
       ebind (sum_raw_lens m (remdups_adj (sort rs)) 0) (\<lambda>tot.
         Inr (if tot \<le> b_len b then 0 else sub64 tot (b_len b)))))"

subsection \<open>Comparing contents\<close>

definition node_read :: "mem \<Rightarrow> nat \<Rightarrow> nat \<Rightarrow> nat \<Rightarrow> exn + bytes" where
  "node_read m i off len =
    ebind (c_str m i) (\<lambda>(r, s). raw_read m r (s + off) len)"

text \<open>
  One round of the comparison loop of \<^verbatim>\<open>contents_equal(const buffer_list&)\<close>: the answer, or
  the position after it. The second test of the code advances the other list's node when
  its offset is \<^emph>\<open>beyond\<close> the node's length.
\<close>

definition contents_round ::
    "mem \<Rightarrow> nat list \<Rightarrow> nat \<Rightarrow> nat list \<Rightarrow> nat \<Rightarrow> exn + bool + (nat list \<times> nat \<times> nat list \<times> nat)" where
  "contents_round m ts toff os ooff =
    (case ts of
       [] \<Rightarrow> Inr (Inl True)
     | t # ts' \<Rightarrow>
       (case os of
          [] \<Rightarrow> Inl Undefined
        | oo # os' \<Rightarrow>
          ebind (ptr_length m t) (\<lambda>tn.
          ebind (ptr_length m oo) (\<lambda>on.
          let len = (if sub64 tn toff > sub64 on ooff then sub64 on ooff else sub64 tn toff) in
          ebind (node_read m t toff len) (\<lambda>xs.
          ebind (node_read m oo ooff len) (\<lambda>ys.
            if xs \<noteq> ys then Inr (Inl False)
            else
              let toff = add64 toff len;
                  ooff = add64 ooff len;
                  (ts, toff) = (if toff = tn then (ts', 0) else (t # ts', toff));
                  (os, ooff) = (if ooff > on then (os', 0) else (oo # os', ooff))
              in Inr (Inr (ts, toff, os, ooff))))))))"

text \<open>The loop; \<open>None\<close> when it never ends.\<close>

partial_function (option) contents_loop ::
    "mem \<Rightarrow> nat list \<Rightarrow> nat \<Rightarrow> nat list \<Rightarrow> nat \<Rightarrow> (exn + bool) option" where
  "contents_loop m ts toff os ooff =
    (case contents_round m ts toff os ooff of
       Inl e \<Rightarrow> Some (Inl e)
     | Inr (Inl c) \<Rightarrow> Some (Inr c)
     | Inr (Inr (ts, toff, os, ooff)) \<Rightarrow> contents_loop m ts toff os ooff)"

definition contents_equal :: "mem \<Rightarrow> blist \<Rightarrow> blist \<Rightarrow> (exn + bool) option" where
  "contents_equal m b other =
    (if b_len b \<noteq> b_len other then Some (Inr False)
     else contents_loop m (bufs b) 0 (bufs other) 0)"

fun contents_equal_nodes :: "mem \<Rightarrow> nat list \<Rightarrow> bytes \<Rightarrow> exn + bool" where
  "contents_equal_nodes m [] other = Inr False"
| "contents_equal_nodes m (i # is) other =
     ebind (ptr_length m i) (\<lambda>n.
     let round_length = min (length other) n in
     ebind (node_read m i 0 round_length) (\<lambda>xs.
       if xs \<noteq> take round_length other then Inr False
       else let other = drop round_length other
            in if other = [] then Inr True else contents_equal_nodes m is other))"

definition contents_equal_raw :: "mem \<Rightarrow> blist \<Rightarrow> bytes \<Rightarrow> exn + bool" where
  "contents_equal_raw m b other =
    (if b_len b \<noteq> length other then Inr False else contents_equal_nodes m (bufs b) other)"

subsection \<open>Zeroing\<close>

fun nodes_zero :: "nat list \<Rightarrow> mem \<Rightarrow> exn + mem" where
  "nodes_zero [] m = Inr m"
| "nodes_zero (i # is) m = ebind (ptr_zero i True m) (nodes_zero is)"

definition blist_zero :: "blist \<Rightarrow> mem \<Rightarrow> exn + mem" where
  "blist_zero b m = nodes_zero (bufs b) m"

fun nodes_zero_range :: "nat \<Rightarrow> nat \<Rightarrow> nat \<Rightarrow> nat list \<Rightarrow> mem \<Rightarrow> exn + mem" where
  "nodes_zero_range off len pos [] m = Inr m"
| "nodes_zero_range off len pos (i # is) m =
     (if add64 off len \<le> pos then Inr m
      else
        ebind (ptr_length m i) (\<lambda>n.
          if n = 0 \<or> add64 pos n \<le> off then nodes_zero_range off len (add64 pos n) is m
          else
            ebind (if pos \<ge> off \<and> add64 pos n < add64 off len then ptr_zero i True m
                   else if pos \<ge> off then ptr_zero_range i 0 (sub64 (add64 off len) pos) True m
                   else if add64 pos n \<le> add64 off len
                     then ptr_zero_range i (sub64 off pos) (sub64 n (sub64 off pos)) True m
                   else ptr_zero_range i (sub64 off pos) len True m)
              (nodes_zero_range off len (add64 pos n) is)))"

definition blist_zero_range :: "nat \<Rightarrow> nat \<Rightarrow> blist \<Rightarrow> mem \<Rightarrow> exn + mem" where
  "blist_zero_range off len b m =
    ebind (spec_assert (add64 off len \<le> b_len b)) (\<lambda>_. nodes_zero_range off len 0 (bufs b) m)"

subsection \<open>Rebuilding\<close>

fun nodes_invalidate :: "nat list \<Rightarrow> mem \<Rightarrow> exn + mem" where
  "nodes_invalidate [] m = Inr m"
| "nodes_invalidate (i # is) m =
     ebind (ptr_at m i) (\<lambda>p.
       nodes_invalidate is (case p_raw p of None \<Rightarrow> m | Some r \<Rightarrow> raw_invalidate_crc r m))"

definition invalidate_crc :: "blist \<Rightarrow> mem \<Rightarrow> exn + mem" where
  "invalidate_crc b m = nodes_invalidate (bufs b) m"

fun copy_nodes_in :: "nat \<Rightarrow> nat \<Rightarrow> nat list \<Rightarrow> mem \<Rightarrow> exn + mem" where
  "copy_nodes_in nb pos [] m = Inr m"
| "copy_nodes_in nb pos (i # is) m =
     ebind (ptr_read m i) (\<lambda>bs.
     ebind (ptr_copy_in nb pos bs False m) (copy_nodes_in nb (add64 pos (length bs)) is))"

text \<open>
  \<^verbatim>\<open>rebuild(nb)\<close>: the nodes are copied into the new node, which replaces them. An empty new
  node is not linked and dies with its owner.
\<close>

definition rebuild_with :: "nat \<Rightarrow> blist \<Rightarrow> mem \<Rightarrow> exn + blist \<times> mem" where
  "rebuild_with nb b m =
    ebind (copy_nodes_in nb 0 (bufs b) m) (\<lambda>m.
    ebind (clear_and_dispose (bufs b) m) (\<lambda>m.
    ebind (ptr_length m nb) (\<lambda>n.
      if n \<noteq> 0
      then let b = b\<lparr>bufs := [nb], tail_cache := Some nb, b_num := 1\<rparr>
           in ebind (invalidate_crc b m) (\<lambda>m. Inr (b, m))
      else ebind (ptr_destroy nb m) (\<lambda>m.
             Inr (b\<lparr>bufs := [], tail_cache := None, b_num := 0\<rparr>, m)))))"

definition blist_rebuild :: "blist \<Rightarrow> mem \<Rightarrow> exn + blist \<times> mem" where
  "blist_rebuild b m =
    (if b_len b = 0
     then ebind (clear_and_dispose (bufs b) m) (\<lambda>m.
            Inr (b\<lparr>bufs := [], tail_cache := None, b_num := 0\<rparr>, m))
     else
       ebind (if b_len b AND (e_page (m_env m) - 1) = 0
              then create_page_aligned (b_len b) m
              else create_raw (b_len b) m) (\<lambda>(r, m).
       ebind (ptr_of_raw r m) (\<lambda>(k, m). rebuild_with k b m)))"

text \<open>
  The nodes that follow an unaligned one and are merged with it: all up to the first that
  is aligned and sized right when the merged length is a multiple too.
\<close>

fun take_unaligned ::
    "mem \<Rightarrow> nat \<Rightarrow> nat \<Rightarrow> nat \<Rightarrow> nat list \<Rightarrow> exn + (nat list \<times> nat \<times> nat list)" where
  "take_unaligned m align_size align_memory n [] = Inr ([], n, [])"
| "take_unaligned m align_size align_memory n (i # is) =
     ebind (node_aligned_both m align_size align_memory i) (\<lambda>ok.
     ebind (if \<not> ok then Inr True
            else if align_size = 0 then Inl Undefined else Inr (n mod align_size \<noteq> 0)) (\<lambda>more.
       if more
       then ebind (ptr_length m i) (\<lambda>k.
            ebind (take_unaligned m align_size align_memory (add64 n k) is) (\<lambda>(us, n, rest).
              Inr (i # us, n, rest)))
       else Inr ([], n, i # is)))"

lemma take_unaligned_length:
  "take_unaligned m a c n is = Inr (us, n', rest) \<Longrightarrow> length rest \<le> length is"
proof (induction m a c n "is" arbitrary: us n' rest rule: take_unaligned.induct)
  case (2 m a c n i js)
  then show ?case by (auto simp: ebind_Inr_iff split: if_splits) fastforce+
qed simp

text \<open>One merged run: it becomes one node that keeps its memory alone.\<close>

definition merge_run ::
    "nat \<Rightarrow> nat list \<Rightarrow> nat \<Rightarrow> bool \<Rightarrow> mem \<Rightarrow> exn + nat \<times> bool \<times> mem" where
  "merge_run align_memory run tot must_rebuild m =
    (let u = \<lparr>bufs = run, tail_cache = None, b_len = tot, b_num = length run\<rparr> in
     ebind (if is_contiguous u
            then ebind (blist_front u) (\<lambda>i. ptr_is_aligned m i align_memory)
            else Inr False) (\<lambda>fine.
     ebind (if fine then Inr (must_rebuild, u, m)
            else
              ebind (create_aligned tot align_memory m) (\<lambda>(r, m).
              ebind (ptr_of_raw r m) (\<lambda>(nb, m).
              ebind (rebuild_with nb u m) (\<lambda>(u, m). Inr (True, u, m))))) (\<lambda>(must_rebuild, u, m).
     ebind (blist_front u) (\<lambda>i.
     ebind (ptr_copy i m) (\<lambda>(k, m).
     ebind (blist_destroy u m) (\<lambda>m. Inr (k, must_rebuild, m)))))))"

text \<open>\<open>pre\<close> holds the nodes already passed, \<open>num\<close> the node count.\<close>

function rebuild_loop ::
    "nat \<Rightarrow> nat \<Rightarrow> nat list \<Rightarrow> nat list \<Rightarrow> nat \<Rightarrow> bool \<Rightarrow> mem
      \<Rightarrow> exn + nat list \<times> nat \<times> bool \<times> mem" where
  "rebuild_loop align_size align_memory pre [] num must_rebuild m = Inr (pre, num, must_rebuild, m)"
| "rebuild_loop align_size align_memory pre (i # is) num must_rebuild m =
     ebind (node_aligned_both m align_size align_memory i) (\<lambda>ok.
       if ok then rebuild_loop align_size align_memory (pre @ [i]) is num must_rebuild m
       else
         ebind (ptr_length m i) (\<lambda>n.
         ebind (take_unaligned m align_size align_memory n is) (\<lambda>(us, tot, rest).
         ebind (merge_run align_memory (i # us) tot must_rebuild m) (\<lambda>(k, must_rebuild, m).
           rebuild_loop align_size align_memory (pre @ [k]) rest
             (add64 (sub64 num (length (i # us))) 1) must_rebuild m))))"
  by pat_completeness auto
termination
  by (relation "measure (\<lambda>(_, _, _, is, _). length is)")
    (auto dest: take_unaligned_length)

definition rebuild_aligned_size_and_memory ::
    "nat \<Rightarrow> nat \<Rightarrow> nat \<Rightarrow> blist \<Rightarrow> mem \<Rightarrow> exn + bool \<times> blist \<times> mem" where
  "rebuild_aligned_size_and_memory align_size align_memory max_buffers b m =
    ebind (if max_buffers \<noteq> 0 \<and> b_num b > max_buffers \<and> b_len b > mul64 max_buffers align_size
           then ebind (round_up_to (b_len b) max_buffers) (\<lambda>n.
                  round_up_to (n div max_buffers) align_size)
           else Inr align_size) (\<lambda>align_size.
    ebind (rebuild_loop align_size align_memory [] (bufs b) (b_num b) False m)
      (\<lambda>(ns, num, must_rebuild, m). Inr (must_rebuild, b\<lparr>bufs := ns, b_num := num\<rparr>, m)))"

definition rebuild_aligned :: "nat \<Rightarrow> blist \<Rightarrow> mem \<Rightarrow> exn + bool \<times> blist \<times> mem" where
  "rebuild_aligned align b m = rebuild_aligned_size_and_memory align align 0 b m"

definition rebuild_page_aligned :: "blist \<Rightarrow> mem \<Rightarrow> exn + bool \<times> blist \<times> mem" where
  "rebuild_page_aligned b m = rebuild_aligned (e_page (m_env m)) b m"

text \<open>The position of the contents in one piece, \<open>None\<close> for the null pointer.\<close>

definition blist_c_str :: "blist \<Rightarrow> mem \<Rightarrow> exn + (nat \<times> nat) option \<times> blist \<times> mem" where
  "blist_c_str b m =
    (if bufs b = [] then Inr (None, b, m)
     else
       ebind (if length (bufs b) > 1 then blist_rebuild b m else Inr (b, m)) (\<lambda>(b, m).
       ebind (blist_front b) (\<lambda>i.
       ebind (c_str m i) (\<lambda>pos. Inr (Some pos, b, m)))))"

subsection \<open>Cutting\<close>

fun substr_skip :: "mem \<Rightarrow> nat \<Rightarrow> nat list \<Rightarrow> exn + nat \<times> nat list" where
  "substr_skip m off [] = (if off > 0 then Inl Undefined else Inr (off, []))"
| "substr_skip m off (i # is) =
     (if off > 0
      then ebind (ptr_length m i) (\<lambda>n.
             if off \<ge> n then substr_skip m (sub64 off n) is else Inr (off, i # is))
      else Inr (off, i # is))"

text \<open>The condition \<^verbatim>\<open>len >= 0\<close> of the loop always holds: only its \<^verbatim>\<open>break\<close> leaves it.\<close>

fun substr_take :: "nat \<Rightarrow> nat \<Rightarrow> nat list \<Rightarrow> blist \<Rightarrow> mem \<Rightarrow> exn + blist \<times> mem" where
  "substr_take off len [] b m = Inl Undefined"
| "substr_take off len (i # is) b m =
     ebind (ptr_length m i) (\<lambda>n.
       if add64 off len < n
       then ebind (ptr_sub i off len m) (\<lambda>(k, m).
              Inr (b\<lparr>bufs := bufs b @ [k], b_len := add64 (b_len b) len,
                     b_num := add64 (b_num b) 1\<rparr>, m))
       else
         let create_len = sub64 n off in
         ebind (ptr_sub i off create_len m) (\<lambda>(k, m).
           substr_take 0 (sub64 len create_len) is
             (b\<lparr>bufs := bufs b @ [k], b_len := add64 (b_len b) create_len,
                b_num := add64 (b_num b) 1\<rparr>) m))"

definition substr_of :: "blist \<Rightarrow> nat \<Rightarrow> nat \<Rightarrow> blist \<Rightarrow> mem \<Rightarrow> exn + blist \<times> mem" where
  "substr_of other off len b m =
    (if add64 off len > b_len other then Inl End_of_buffer
     else
       ebind (blist_clear b m) (\<lambda>(b, m).
       ebind (substr_skip m off (bufs other)) (\<lambda>(off, cur).
       ebind (spec_assert (len = 0 \<or> cur \<noteq> [])) (\<lambda>_. substr_take off len cur b m))))"

fun splice_skip :: "mem \<Rightarrow> nat \<Rightarrow> nat list \<Rightarrow> nat list \<Rightarrow> exn + nat \<times> nat list \<times> nat list" where
  "splice_skip m off pre [] = (if off > 0 then Inl Assert_failed else Inr (off, pre, []))"
| "splice_skip m off pre (i # is) =
     (if off > 0
      then ebind (ptr_length m i) (\<lambda>n.
             if off \<ge> n then splice_skip m (sub64 off n) (pre @ [i]) is
             else Inr (off, pre, i # is))
      else Inr (off, pre, i # is))"

text \<open>\<open>claim\<close> is the list that takes the bytes cut out, if there is one.\<close>

definition claim_range :: "nat \<Rightarrow> nat \<Rightarrow> nat \<Rightarrow> blist option \<Rightarrow> mem \<Rightarrow> exn + blist option \<times> mem" where
  "claim_range i off len claim m =
    (case claim of
       None \<Rightarrow> Inr (None, m)
     | Some c \<Rightarrow> ebind (blist_append_range i off len c m) (\<lambda>(c, m). Inr (Some c, m)))"

fun splice_cut ::
    "nat \<Rightarrow> nat \<Rightarrow> nat list \<Rightarrow> nat list \<Rightarrow> nat \<times> nat \<Rightarrow> blist option \<Rightarrow> mem
      \<Rightarrow> exn + nat list \<times> (nat \<times> nat) \<times> blist option \<times> mem" where
  "splice_cut off len pre [] (tot, num) claim m =
     (if len > 0 then Inl Undefined else Inr (pre, (tot, num), claim, m))"
| "splice_cut off len pre (i # is) (tot, num) claim m =
     (if len = 0 then Inr (pre @ i # is, (tot, num), claim, m)
      else
        ebind (ptr_length m i) (\<lambda>n.
          if add64 off len < n
          then ebind (claim_range i off len claim m) (\<lambda>(claim, m).
               ebind (ptr_at m i) (\<lambda>p.
               ebind (set_offset i (add64 (add64 off len) (p_off p)) m) (\<lambda>m.
               ebind (set_length i (sub64 n (add64 len off)) m) (\<lambda>m.
                 Inr (pre @ i # is, (sub64 tot (add64 off len), num), claim, m)))))
          else
            let create_len = sub64 n off in
            ebind (claim_range i off create_len claim m) (\<lambda>(claim, m).
            ebind (ptr_destroy i m) (\<lambda>m.
              splice_cut 0 (sub64 len create_len) pre is (sub64 tot n, sub64 num 1) claim m))))"

text \<open>The front part of the first node touched, kept in a window of its own.\<close>

definition front_part :: "nat \<Rightarrow> nat list \<Rightarrow> nat list \<Rightarrow> nat \<Rightarrow> nat \<Rightarrow> mem
    \<Rightarrow> exn + nat list \<times> (nat \<times> nat) \<times> mem" where
  "front_part off pre cur tot num m =
    (if off \<noteq> 0
     then (case cur of
             [] \<Rightarrow> Inl Undefined
           | i # _ \<Rightarrow> ebind (ptr_sub i 0 off m) (\<lambda>(k, m).
               Inr (pre @ [k], (add64 tot off, add64 num 1), m)))
     else Inr (pre, (tot, num), m))"

definition blist_splice ::
    "nat \<Rightarrow> nat \<Rightarrow> blist option \<Rightarrow> blist \<Rightarrow> mem \<Rightarrow> exn + blist \<times> blist option \<times> mem" where
  "blist_splice off len claim b m =
    (if len = 0 then Inr (b, claim, m)
     else if off \<ge> b_len b then Inl End_of_buffer
     else
       ebind (splice_skip m off [] (bufs b)) (\<lambda>(off, pre, cur).
       ebind (front_part off pre cur (b_len b) (b_num b) m) (\<lambda>(pre, sz, m).
       ebind (splice_cut off len pre cur sz claim m) (\<lambda>(ns, (tot, num), claim, m).
         Inr (\<lparr>bufs = ns, tail_cache = None, b_len = tot, b_num = num\<rparr>, claim, m)))))"

text \<open>Writing a range to a stream goes through \<^verbatim>\<open>substr_of\<close>.\<close>

definition blist_write :: "nat \<Rightarrow> nat \<Rightarrow> blist \<Rightarrow> mem \<Rightarrow> exn + bytes \<times> mem" where
  "blist_write off len b m =
    ebind (substr_of b off len blist_new m) (\<lambda>(s, m).
    ebind (nodes_str m (bufs s)) (\<lambda>out.
    ebind (blist_destroy s m) (\<lambda>m. Inr (out, m))))"

end
