(* ===== verification/Buffer_Read.thy ===== *)
theory Buffer_Read
  imports Buffer_List_Ops
begin

text \<open>
  Reading a list gives its bytes: indexing, \<^verbatim>\<open>to_str\<close>, the comparison with a block of memory,
  the zero test. The comparison of two lists leaves its loop only on a difference or when
  the other list is one node.
\<close>

subsection \<open>Nodes and bytes\<close>

lemma nodes_raw:
  assumes "wf_mem m" "wf_nodes m b" "i \<in> set (bufs b)"
  obtains p r where "m_ptrs m i = Some p" "p_raw p = Some r" "length (node_bytes m i) = p_len p"
    "p_len p < two64"
proof -
  obtain p r where p: "m_ptrs m i = Some p" "p_raw p = Some r"
    using wf_nodesD(2) [OF assms(2,3)] unfolding has_raw_def by blast
  then show ?thesis using that length_node_bytes [OF assms(1) p(1)] wf_ptr_bound [OF assms(1) p] by simp
qed

lemma ptr_length_bytes:
  assumes "wf_mem m" "has_raw m i"
  shows "ptr_length m i = Inr (length (node_bytes m i))" "length (node_bytes m i) < two64"
proof -
  obtain p r where p: "m_ptrs m i = Some p" "p_raw p = Some r"
    using assms(2) unfolding has_raw_def by blast
  then show "ptr_length m i = Inr (length (node_bytes m i))" "length (node_bytes m i) < two64"
    using length_node_bytes [OF assms(1) p(1)] wf_ptr_bound [OF assms(1) p]
    by (simp_all add: ptr_length_def ptr_at_def)
qed

lemma ptr_read_bytes:
  assumes "wf_mem m" "has_raw m i"
  shows "ptr_read m i = Inr (node_bytes m i)"
  using assms ptr_read_ok [OF assms(1)] unfolding has_raw_def by blast

lemma node_read_bytes:
  assumes "wf_mem m" "has_raw m i" "off + len \<le> length (node_bytes m i)"
  shows "node_read m i off len = Inr (seg off len (node_bytes m i))"
proof -
  obtain p r where p: "m_ptrs m i = Some p" "p_raw p = Some r"
    using assms(2) unfolding has_raw_def by blast
  then show ?thesis
    using raw_read_ok [OF assms(1) p] assms(3) length_node_bytes [OF assms(1) p(1)]
    by (simp add: node_read_def c_str_def ptr_raw_def ptr_at_def)
qed

definition cat_bytes :: "mem \<Rightarrow> nat list \<Rightarrow> bytes" where
  "cat_bytes m is = concat (map (node_bytes m) is)"

lemma cat_bytes_simps [simp]:
  "cat_bytes m [] = []"
  "cat_bytes m (i # is) = node_bytes m i @ cat_bytes m is"
  "cat_bytes m (is @ js) = cat_bytes m is @ cat_bytes m js"
  by (simp_all add: cat_bytes_def)

lemma bl_bytes_cat: "bl_bytes m b = cat_bytes m (bufs b)"
  by (simp add: bl_bytes_def cat_bytes_def)

lemma has_raw_index:
  assumes "wf_mem m" "has_raw m i" "pos < length (node_bytes m i)"
  shows "ptr_index m i pos = Inr (node_bytes m i ! pos)"
proof -
  obtain p r where p: "m_ptrs m i = Some p" "p_raw p = Some r"
    using assms(2) unfolding has_raw_def by blast
  then show ?thesis using ptr_index_ok [OF assms(1) p] assms(3) length_node_bytes [OF assms(1) p(1)]
    by simp
qed

lemma nodes_index_bytes:
  assumes "wf_mem m" "\<forall>i \<in> set is. has_raw m i" "pos < length (cat_bytes m is)" "pos < two64"
  shows "nodes_index m is pos = Inr (cat_bytes m is ! pos)"
  using assms(2-)
proof (induction "is" arbitrary: pos)
  case (Cons i js)
  then show ?case
    using ptr_length_bytes [OF assms(1), of i] has_raw_index [OF assms(1), of i pos]
    by (auto simp: nth_append arith64)
qed simp

lemma nodes_str_bytes:
  assumes "wf_mem m" "\<forall>i \<in> set is. has_raw m i"
  shows "nodes_str m is = Inr (cat_bytes m is)"
  using assms(2)
  by (induction "is") (auto simp: ptr_length_bytes [OF assms(1)] ptr_read_bytes [OF assms(1)])

lemma wf_listD:
  assumes "wf_list m b"
  shows "wf_nodes m b" "\<forall>i \<in> set (bufs b). has_raw m i" "b_len b = length (cat_bytes m (bufs b))"
  using assms by (auto simp: wf_list_def wf_nodes_def bl_bytes_cat)

lemma blist_index_bytes:
  assumes "wf_mem m" "wf_list m b" "b_len b < two64"
  shows "blist_index m b pos = (if pos < b_len b then Inr (bl_bytes m b ! pos) else Inl End_of_buffer)"
  using nodes_index_bytes [OF assms(1) wf_listD(2) [OF assms(2)], of pos] wf_listD(3) [OF assms(2)]
    assms(3)
  by (simp add: blist_index_def bl_bytes_cat)

lemma to_str_bytes: "wf_mem m \<Longrightarrow> wf_list m b \<Longrightarrow> to_str m b = Inr (bl_bytes m b)"
  by (simp add: to_str_def bl_bytes_cat nodes_str_bytes wf_listD)

subsection \<open>Comparing with a block\<close>

lemma contents_equal_nodes_bytes:
  assumes "wf_mem m" "\<forall>i \<in> set is. has_raw m i" "length other = length (cat_bytes m is)" "other \<noteq> []"
  shows "contents_equal_nodes m is other = Inr (other = cat_bytes m is)"
  using assms(2-)
proof (induction "is" arbitrary: other)
  case (Cons i js)
  let ?x = "node_bytes m i"
  have n: "ptr_length m i = Inr (length ?x)" "min (length other) (length ?x) = length ?x"
    using ptr_length_bytes [OF assms(1), of i] Cons.prems by auto
  have r: "node_read m i 0 (length ?x) = Inr ?x"
    using node_read_bytes [OF assms(1), of i 0 "length ?x"] Cons.prems(1) by simp
  have split: "other = ?x @ cat_bytes m js \<longleftrightarrow>
      take (length ?x) other = ?x \<and> drop (length ?x) other = cat_bytes m js"
    by (metis append_eq_conv_conj)
  have seg: "seg 0 (length ?x) ?x = ?x" by simp
  have eq: "contents_equal_nodes m (i # js) other =
    (if ?x \<noteq> take (length ?x) other then Inr False
     else if drop (length ?x) other = [] then Inr True
     else contents_equal_nodes m js (drop (length ?x) other))"
    unfolding contents_equal_nodes.simps n(1) ebind_simps Let_def n(2) r ..
  show ?case
  proof (cases "?x = take (length ?x) other")
    case False
    then show ?thesis unfolding eq cat_bytes_simps split by (simp add: eq_commute)
  next
    case True
    show ?thesis
    proof (cases "drop (length ?x) other = []")
      case nil: True
      then have "cat_bytes m js = []" using Cons.prems(2) by simp
      then show ?thesis unfolding eq cat_bytes_simps split using True nil by simp
    next
      case False
      have "contents_equal_nodes m js (drop (length ?x) other)
          = Inr (drop (length ?x) other = cat_bytes m js)"
        by (rule Cons.IH) (use Cons.prems False in auto)
      then show ?thesis unfolding eq cat_bytes_simps split using True False by simp
    qed
  qed
qed simp

subsection \<open>Comparing two lists\<close>

text \<open>
  The position in the other list never leaves its first node, so the bytes compared all
  come from that node: past its end there are none left to compare.
\<close>

lemma contents_round_eq:
  assumes "wf_mem m" "has_raw m oo" "has_raw m t"
    and "ooff \<le> length (node_bytes m oo)" "toff \<le> length (node_bytes m t)"
  defines "len \<equiv> min (length (node_bytes m t) - toff) (length (node_bytes m oo) - ooff)"
  shows "contents_round m (t # tt) toff (oo # os) ooff =
    (if seg toff len (node_bytes m t) \<noteq> seg ooff len (node_bytes m oo) then Inr (Inl False)
     else if toff + len = length (node_bytes m t) then Inr (Inr (tt, 0, oo # os, ooff + len))
     else Inr (Inr (t # tt, toff + len, oo # os, ooff + len)))"
proof -
  let ?x = "node_bytes m t" and ?y = "node_bytes m oo"
  note lt = ptr_length_bytes [OF assms(1,3)] and lo = ptr_length_bytes [OF assms(1,2)]
  have d: "sub64 (length ?x) toff = length ?x - toff" "sub64 (length ?y) ooff = length ?y - ooff"
    using assms(4,5) lt(2) lo(2) by (simp_all add: arith64)
  have len: "(if length ?x - toff > length ?y - ooff then length ?y - ooff else length ?x - toff) = len"
    by (simp add: len_def min_def)
  have fit: "toff + len \<le> length ?x" "ooff + len \<le> length ?y"
    using assms(4,5) by (auto simp: len_def)
  have a: "add64 toff len = toff + len" "add64 ooff len = ooff + len"
    using fit lt(2) lo(2) by (simp_all add: arith64)
  have over: "\<not> ooff + len > length ?y" using fit(2) by simp
  show ?thesis
    unfolding contents_round_def list.case lt(1) lo(1) ebind_simps Let_def d len a
      node_read_bytes [OF assms(1,3) fit(1)] node_read_bytes [OF assms(1,2) fit(2)] if_not_P [OF over]
    by simp
qed

text \<open>The loop is stuck when the other list's node ends before this list does.\<close>

definition stuck :: "mem \<Rightarrow> nat list \<Rightarrow> nat \<Rightarrow> nat list \<Rightarrow> nat \<Rightarrow> bool" where
  "stuck m ts toff os ooff \<longleftrightarrow> wf_mem m \<and> os \<noteq> [] \<and> has_raw m (hd os) \<and>
     (\<forall>i \<in> set ts. has_raw m i) \<and> ooff \<le> length (node_bytes m (hd os)) \<and>
     (ts \<noteq> [] \<longrightarrow> toff \<le> length (node_bytes m (hd ts))) \<and>
     length (node_bytes m (hd os)) - ooff < length (drop toff (cat_bytes m ts))"

lemma drop_take_step:
  assumes "take k (drop a (x @ ys)) = zs" "n \<le> k" "a + n \<le> length x"
  shows "seg a n x = take n zs" "take (k - n) (drop (a + n) (x @ ys)) = drop n zs"
proof -
  have "take n zs = take n (drop a (x @ ys))" using assms(1,2) by (auto simp: min_def)
  then show "seg a n x = take n zs" using assms(3) by (simp add: seg_def)
  show "take (k - n) (drop (a + n) (x @ ys)) = drop n zs"
    unfolding assms(1) [symmetric] by (simp only: drop_take drop_drop add.commute)
qed

lemma stuck_round:
  assumes "stuck m ts toff os ooff"
  shows "contents_round m ts toff os ooff = Inr (Inl False) \<or>
    (\<exists>ts' toff' ooff'. contents_round m ts toff os ooff = Inr (Inr (ts', toff', os, ooff')) \<and>
       stuck m ts' toff' os ooff')"
    and "take (length (node_bytes m (hd os)) - ooff) (drop toff (cat_bytes m ts))
        = drop ooff (node_bytes m (hd os)) \<Longrightarrow>
      \<exists>ts' toff' ooff'. contents_round m ts toff os ooff = Inr (Inr (ts', toff', os, ooff')) \<and>
       stuck m ts' toff' os ooff' \<and>
       take (length (node_bytes m (hd os)) - ooff') (drop toff' (cat_bytes m ts'))
        = drop ooff' (node_bytes m (hd os))"
proof -
  obtain oo os0 where os: "os = oo # os0" using assms by (cases os) (auto simp: stuck_def)
  obtain t tt where ts: "ts = t # tt" using assms by (cases ts) (auto simp: stuck_def)
  let ?x = "node_bytes m t" and ?y = "node_bytes m oo"
  define len where "len = min (length ?x - toff) (length ?y - ooff)"
  have h: "wf_mem m" "has_raw m oo" "has_raw m t" "ooff \<le> length ?y" "toff \<le> length ?x"
    "length ?y - ooff < length ?x + length (cat_bytes m tt) - toff" "\<forall>i \<in> set tt. has_raw m i"
    using assms by (auto simp: stuck_def os ts)
  have fit: "toff + len \<le> length ?x" "len \<le> length ?y - ooff" using h(5) by (auto simp: len_def)
  have eq: "contents_round m ts toff os ooff =
    (if seg toff len ?x \<noteq> seg ooff len ?y then Inr (Inl False)
     else if toff + len = length ?x then Inr (Inr (tt, 0, os, ooff + len))
     else Inr (Inr (t # tt, toff + len, os, ooff + len)))"
    unfolding ts os len_def by (rule contents_round_eq [OF h(1-5)])
  have fin: "stuck m tt 0 os (ooff + len)" if "toff + len = length ?x"
    using assms h fit(2) that by (auto simp: stuck_def os ts)
  have more: "stuck m (t # tt) (toff + len) os (ooff + len)"
    using assms h fit by (auto simp: stuck_def os ts)
  show "contents_round m ts toff os ooff = Inr (Inl False) \<or>
    (\<exists>ts' toff' ooff'. contents_round m ts toff os ooff = Inr (Inr (ts', toff', os, ooff')) \<and>
       stuck m ts' toff' os ooff')"
    unfolding eq using fin more by auto
  assume "take (length (node_bytes m (hd os)) - ooff) (drop toff (cat_bytes m ts))
        = drop ooff (node_bytes m (hd os))"
  then have s: "take (length ?y - ooff) (drop toff (?x @ cat_bytes m tt)) = drop ooff ?y"
    by (simp only: os ts list.sel cat_bytes_simps)
  note st = drop_take_step [OF s fit(2,1)]
  have same: "seg toff len ?x = seg ooff len ?y" using st(1) by (simp add: seg_def)
  have rest: "take (length ?y - (ooff + len)) (drop (toff + len) (?x @ cat_bytes m tt))
      = drop (ooff + len) ?y"
    using st(2) by (simp add: add.commute)
  show "\<exists>ts' toff' ooff'. contents_round m ts toff os ooff = Inr (Inr (ts', toff', os, ooff')) \<and>
       stuck m ts' toff' os ooff' \<and>
       take (length (node_bytes m (hd os)) - ooff') (drop toff' (cat_bytes m ts'))
        = drop ooff' (node_bytes m (hd os))"
  proof (cases "toff + len = length ?x")
    case True
    then show ?thesis unfolding eq using same fin rest by (auto simp: os)
  next
    case False
    then show ?thesis unfolding eq using same more rest by (auto simp: os)
  qed
qed

lemma stuck_never_true:
  assumes "contents_loop m ts toff os ooff = Some c"
  shows "stuck m ts toff os ooff \<longrightarrow> c = Inr False \<and>
    take (length (node_bytes m (hd os)) - ooff) (drop toff (cat_bytes m ts))
      \<noteq> drop ooff (node_bytes m (hd os))"
proof (rule contents_loop.raw_induct [of "\<lambda>m ts toff os ooff c. stuck m ts toff os ooff \<longrightarrow>
      c = Inr False \<and> take (length (node_bytes m (hd os)) - ooff) (drop toff (cat_bytes m ts))
      \<noteq> drop ooff (node_bytes m (hd os))", OF _ assms])
  fix loop m ts toff os ooff c
  assume IH: "\<And>m ts toff os ooff c. loop m ts toff os ooff = Some c \<Longrightarrow>
      stuck m ts toff os ooff \<longrightarrow> c = Inr False \<and>
      take (length (node_bytes m (hd os)) - ooff) (drop toff (cat_bytes m ts))
        \<noteq> drop ooff (node_bytes m (hd os))"
    and step: "(case contents_round m ts toff os ooff of
       Inl e \<Rightarrow> Some (Inl e)
     | Inr (Inl c) \<Rightarrow> Some (Inr c)
     | Inr (Inr (ts, toff, os, ooff)) \<Rightarrow> loop m ts toff os ooff) = Some c"
  show "stuck m ts toff os ooff \<longrightarrow> c = Inr False \<and>
      take (length (node_bytes m (hd os)) - ooff) (drop toff (cat_bytes m ts))
        \<noteq> drop ooff (node_bytes m (hd os))"
  proof
    assume s: "stuck m ts toff os ooff"
    have "c = Inr False" using stuck_round(1) [OF s] step IH by auto
    moreover have "take (length (node_bytes m (hd os)) - ooff) (drop toff (cat_bytes m ts))
        \<noteq> drop ooff (node_bytes m (hd os))"
      using stuck_round(2) [OF s] step IH by auto
    ultimately show "c = Inr False \<and>
      take (length (node_bytes m (hd os)) - ooff) (drop toff (cat_bytes m ts))
        \<noteq> drop ooff (node_bytes m (hd os))" ..
  qed
qed

text \<open>Two lists of equal contents, the second in several nodes: the call does not return.\<close>

lemma contents_equal_hangs:
  assumes "wf_mem m" "wf_list m b" "wf_list m other" "bl_bytes m b = bl_bytes m other"
    and "bufs other = oo # os" "length (node_bytes m oo) < b_len b"
  shows "contents_equal m b other = None"
proof (cases "contents_equal m b other")
  case (Some c)
  have len: "b_len b = b_len other" using assms(2-4) by (simp add: wf_list_def)
  have raws: "\<forall>i \<in> set (bufs b). has_raw m i" "has_raw m oo"
    using wf_listD(2) [OF assms(2)] wf_listD(2) [OF assms(3)] assms(5) by simp_all
  have "stuck m (bufs b) 0 (bufs other) 0"
    using assms(1,5,6) raws wf_listD(3) [OF assms(2)] by (simp add: stuck_def)
  moreover have "take (length (node_bytes m oo)) (cat_bytes m (bufs b)) = node_bytes m oo"
    using assms(4,5) by (simp add: bl_bytes_cat)
  ultimately show ?thesis
    using stuck_never_true Some len assms(5) unfolding contents_equal_def by fastforce
qed

text \<open>When the other list starts with a node that holds as many bytes, the answer is right.\<close>

lemma contents_loop_one:
  assumes "wf_mem m" "\<forall>i \<in> set ts. has_raw m i" "has_raw m oo" "ooff \<le> length (node_bytes m oo)"
    and "length (cat_bytes m ts) = length (node_bytes m oo) - ooff"
  shows "contents_loop m ts 0 (oo # os) ooff = Some (Inr (cat_bytes m ts = drop ooff (node_bytes m oo)))"
  using assms(2,4,5)
proof (induction ts arbitrary: ooff)
  case Nil
  then show ?case by (subst contents_loop.simps) (simp add: contents_round_def)
next
  case (Cons t tt)
  let ?x = "node_bytes m t" and ?y = "node_bytes m oo"
  have t: "has_raw m t" "\<forall>i \<in> set tt. has_raw m i" using Cons.prems(1) by simp_all
  have len: "min (length ?x - 0) (length ?y - ooff) = length ?x" using Cons.prems(3) by simp
  have split: "?x @ cat_bytes m tt = drop ooff ?y \<longleftrightarrow>
      ?x = seg ooff (length ?x) ?y \<and> cat_bytes m tt = drop (ooff + length ?x) ?y"
    using append_eq_conv_conj [of ?x "cat_bytes m tt" "drop ooff ?y"]
    by (auto simp: seg_def add.commute)
  have eq: "contents_round m (t # tt) 0 (oo # os) ooff =
    (if ?x \<noteq> seg ooff (length ?x) ?y then Inr (Inl False)
     else Inr (Inr (tt, 0, oo # os, ooff + length ?x)))"
    using contents_round_eq [OF assms(1,3) t(1) Cons.prems(2), of 0 tt os] unfolding len by simp
  show ?case
  proof (cases "?x = seg ooff (length ?x) ?y")
    case False
    then show ?thesis by (subst contents_loop.simps) (simp add: eq split)
  next
    case True
    have "contents_loop m tt 0 (oo # os) (ooff + length ?x) =
        Some (Inr (cat_bytes m tt = drop (ooff + length ?x) ?y))"
      by (rule Cons.IH) (use t(2) Cons.prems(2,3) in auto)
    then show ?thesis using True by (subst contents_loop.simps) (simp add: eq split)
  qed
qed

lemma contents_equal_one:
  assumes "wf_mem m" "wf_list m b" "wf_list m other"
    and "bufs other = oo # os" "length (node_bytes m oo) = b_len other"
  shows "contents_equal m b other = Some (Inr (bl_bytes m b = bl_bytes m other))"
proof -
  have raws: "\<forall>i \<in> set (bufs b). has_raw m i" "has_raw m oo"
    using wf_listD(2) [OF assms(2)] wf_listD(2) [OF assms(3)] assms(4) by simp_all
  have nil: "cat_bytes m os = []" using wf_listD(3) [OF assms(3)] assms(4,5) by simp
  show ?thesis
  proof (cases "b_len b = b_len other")
    case False
    then have "bl_bytes m b \<noteq> bl_bytes m other" using assms(2,3) by (auto simp: wf_list_def)
    then show ?thesis using False by (simp add: contents_equal_def)
  next
    case True
    have "length (cat_bytes m (bufs b)) = length (node_bytes m oo) - 0"
      using True assms(5) wf_listD(3) [OF assms(2)] by simp
    from contents_loop_one [OF assms(1) raws le0 this, of os]
    show ?thesis using True assms(4) nil by (simp add: contents_equal_def bl_bytes_cat)
  qed
qed

end
