(* ===== verification/Buffer_Append.thy ===== *)
theory Buffer_Append
  imports Buffer_List_Spec
begin

text \<open>
  Appending keeps the contract: every form of \<^verbatim>\<open>append\<close>, \<^verbatim>\<open>append_zero\<close>, \<^verbatim>\<open>append_hole\<close>,
  \<^verbatim>\<open>prepend_zero\<close> and \<^verbatim>\<open>reserve\<close> succeeds on a ready list and adds exactly its bytes.
\<close>

subsection \<open>Space behind a node\<close>

definition room :: "mem \<Rightarrow> nat \<Rightarrow> nat" where
  "room m k =
    (case m_ptrs m k of
       None \<Rightarrow> 0
     | Some p \<Rightarrow> (case p_raw p of
         None \<Rightarrow> 0
       | Some r \<Rightarrow> (case m_raws m r of
           None \<Rightarrow> 0 | Some w \<Rightarrow> r_len w - (p_off p + p_len p))))"

lemma room_eq:
  "m_ptrs m k = Some p \<Longrightarrow> p_raw p = Some r \<Longrightarrow> m_raws m r = Some w \<Longrightarrow>
    room m k = r_len w - (p_off p + p_len p)"
  by (simp add: room_def)

lemma has_rawE:
  assumes "has_raw m i" "wf_mem m"
  obtains p r w where "m_ptrs m i = Some p" "p_raw p = Some r" "m_raws m r = Some w"
    "p_off p + p_len p \<le> r_len w" "r_len w < two64" "wf_raw w"
    "room m i = r_len w - (p_off p + p_len p)"
proof -
  obtain p r where p: "m_ptrs m i = Some p" "p_raw p = Some r"
    using assms(1) by (auto simp: has_raw_def)
  obtain w where "m_raws m r = Some w" "p_off p + p_len p \<le> r_len w" "r_len w < two64" "wf_raw w"
    using wf_ptr_raw [OF wf_flD(1) [OF assms(2)] p] by auto
  then show ?thesis using that [OF p] room_eq [OF p] by simp
qed

lemma unused_tail_room:
  assumes "wf_mem m" "wf_nodes m b"
  shows "get_append_buffer_unused_tail_length m b =
    Inr (case tail_cache b of None \<Rightarrow> 0 | Some c \<Rightarrow> room m c)"
proof (cases "tail_cache b")
  case (Some c)
  have "has_raw m c" using wf_nodesD(2,4) [OF assms(2)] Some by blast
  then obtain p r w where p: "m_ptrs m c = Some p" "p_raw p = Some r" "m_raws m r = Some w"
    "room m c = r_len w - (p_off p + p_len p)"
    by (rule has_rawE [OF _ assms(1)])
  then show ?thesis using Some unused_tail_length_ok [OF assms(1) p(1-3)]
    by (simp add: get_append_buffer_unused_tail_length_def ptr_at_def)
qed (simp add: get_append_buffer_unused_tail_length_def)

subsection \<open>A new tail\<close>

lemma add_tail_sel [simp]:
  "bufs (add_tail k b) = bufs b @ [k]" "tail_cache (add_tail k b) = Some k"
  "b_len (add_tail k b) = b_len b" "b_num (add_tail k b) = add64 (b_num b) 1"
  by (simp_all add: add_tail_def)

lemma is_back_add_tail [simp]: "is_back (add_tail k b) k"
  by (simp add: is_back_def)

lemma link_new_tail:
  assumes wf: "wf_mem m" "wf_nodes m b" and num: "length (bufs b) < 2 ^ 63"
    and cr: "created al data m m1" "length data < 2 ^ 63"
  shows "\<exists>k m2 m3. ptr_of_raw (m_next m) m1 = Inr (k, m2) \<and> set_length k 0 m2 = Inr m3 \<and>
    turns b m (bl_bytes m b) (add_tail k b) m3 \<and> room m3 k = length data \<and>
    m_ptrs m3 k = Some \<lparr>p_raw = Some (m_next m), p_off = 0, p_len = 0\<rparr>"
proof -
  let ?k = "Suc (m_next m)" and ?p = "\<lparr>p_raw = Some (m_next m), p_off = 0, p_len = 0\<rparr>"
  have lt: "length data < two64" using cr(2) by (simp add: two64_def)
  obtain m2 where m2: "ptr_of_raw (m_next m) m1 = Inr (?k, m2)" "fresh_ptr al data m m2"
    "wf_mem m2" "quiet m m2"
    using created_ptr_of_raw [OF cr(1) wf(1) lt] by blast
  let ?q = "\<lparr>p_raw = Some (m_next m), p_off = 0, p_len = length data\<rparr>"
  obtain k a t where w: "m_raws m2 (m_next m) = Some ((new_raw k a data t)\<lparr>r_nref := 1\<rparr>)"
    and q: "m_ptrs m2 ?k = Some ?q"
    using m2(2) by (auto simp: fresh_ptr_def)
  obtain m3 where m3: "set_length ?k 0 m2 = Inr m3" "wf_mem m3" "quiet m2 m3"
    "m_raws m3 = m_raws m2" "m_ptrs m3 = (m_ptrs m2)(?k \<mapsto> ?q\<lparr>p_len := 0\<rparr>)"
    using set_length_ok [OF m2(3) q _ w, of 0] by auto
  have p3: "m_ptrs m3 = (m_ptrs m)(?k \<mapsto> ?p)" using m2(2) m3(5) by (simp add: fresh_ptr_def)
  have none: "m_ptrs m ?k = None" by (rule fresh_ptr_frees(1) [OF wf(1) m2(2)])
  have "tail_free m3 ?k" by (rule tail_free_fresh_raw [OF wf_flD(1) [OF wf(1)] p3]) simp
  then have "turns b m (bl_bytes m b @ node_bytes m3 ?k) (add_tail ?k b) m3"
    by (intro link_fresh [OF wf m3(2) quiet_trans [OF m2(4) m3(3)] p3 none _ num]) simp_all
  moreover have "node_bytes m3 ?k = []"
    by (auto simp: node_bytes_def ptr_bytes_def p3 split: option.split)
  moreover have "room m3 ?k = length data" using w p3 by (simp add: room_def m3(4))
  ultimately show ?thesis using m2(1) m3(1) p3 by auto
qed

lemma blist_mempool_type_ok:
  assumes "wf_mem m" "wf_nodes m b"
  shows "\<exists>t. blist_mempool_type m b = Inr t"
proof (cases "bufs b = []")
  case False
  then have "has_raw m (last (bufs b))" by (intro wf_nodesD(2) [OF assms(2)]) simp
  then show ?thesis
    by (rule has_rawE [OF _ assms(1)])
      (use False in \<open>simp add: blist_mempool_type_def ptr_get_mempool_type_def ptr_at_def raw_at_def\<close>)
qed (simp add: blist_mempool_type_def)

lemma new_append_raw_ok:
  assumes wf: "wf_mem m" "wf_nodes m b" "env_ok (m_env m)" and num: "length (bufs b) < 2 ^ 63"
    and alen: "alen < 2 ^ 63"
  shows "\<exists>k m'. new_append_raw alen b m = Inr (k, add_tail k b, m') \<and>
    turns b m (bl_bytes m b) (add_tail k b) m' \<and> room m' k = alen \<and>
    m_ptrs m' k = Some \<lparr>p_raw = Some (m_next m), p_off = 0, p_len = 0\<rparr>"
proof -
  obtain t where t: "blist_mempool_type m b = Inr t" using blist_mempool_type_ok [OF wf(1,2)] by blast
  obtain data m1 where m1: "raw_combined_create alen 0 t m = Inr (m_next m, m1)"
    "created (2 ^ 3) data m m1" "length data = alen"
    using raw_combined_create_ok [OF wf(3) _ alen, of 0 3 t] by auto
  show ?thesis
    using link_new_tail [OF wf(1,2) num m1(2)] alen m1(3) t m1(1)
    by (auto simp: new_append_raw_def)
qed

lemma refill_append_space_ok:
  assumes wf: "wf_mem m" "wf_nodes m b" "env_ok (m_env m)" and num: "length (bufs b) < 2 ^ 63"
    and len: "len < 2 ^ 62"
  shows "\<exists>k m'. refill_append_space len b m = Inr (k, add_tail k b, m') \<and>
    turns b m (bl_bytes m b) (add_tail k b) m' \<and> len \<le> room m' k \<and>
    m_ptrs m' k = Some \<lparr>p_raw = Some (m_next m), p_off = 0, p_len = 0\<rparr>"
proof -
  let ?n = "ceil_multiple len 8" and ?a = "ceil_multiple (ceil_multiple len 8 + 112) 4096"
  have n: "len \<le> ?n" "?n < len + 8" by (rule ceil_multiple_props; simp)+
  have a: "?n + 112 \<le> ?a" "?a < ?n + 112 + 4096" by (rule ceil_multiple_props; simp)+
  have "round_up_to len 8 = Inr ?n"
    by (rule round_up_to_eq) (use len in \<open>simp_all add: two64_def\<close>)
  moreover have "add64 ?n 112 = ?n + 112" using n len by (simp add: arith64 two64_def)
  moreover have "round_up_to (?n + 112) 4096 = Inr ?a"
    by (rule round_up_to_eq) (use n len in \<open>simp_all add: two64_def\<close>)
  moreover have "sub64 ?a 112 = ?a - 112" using n a len by (intro sub64_small) (auto simp: two64_def)
  ultimately have "refill_append_space len b m = new_append_raw (?a - 112) b m"
    by (simp add: refill_append_space_def sizeof_raw_combined_def buffer_alloc_unit_def)
  moreover have "?a - 112 < 2 ^ 63" "len \<le> ?a - 112" using n a len by simp_all
  ultimately show ?thesis using new_append_raw_ok [OF wf num, of "?a - 112"] by auto
qed

lemma resync_tail_ok:
  assumes wf: "wf_mem m" "wf_nodes m b" and num: "length (bufs b) < 2 ^ 63"
    and c: "tail_cache b = Some c"
  shows "\<exists>c' b' m'. resync_tail b m = Inr (b', m') \<and> turns b m (bl_bytes m b) b' m' \<and>
    tail_cache b' = Some c' \<and> is_back b' c' \<and> room m' c' = room m c \<and> b_len b' = b_len b \<and>
    length (bufs b') \<le> length (bufs b) + 1"
proof (cases "is_back b c")
  case True
  then have "resync_tail b m = Inr (b, m)" using c by (simp add: resync_tail_def)
  then show ?thesis using turns_refl [OF wf] c True by auto
next
  case False
  have "has_raw m c" using wf_nodesD(2,4) [OF wf(2)] c by blast
  then obtain p r w where p: "m_ptrs m c = Some p" "p_raw p = Some r" "m_raws m r = Some w"
    "room m c = r_len w - (p_off p + p_len p)"
    by (rule has_rawE [OF _ wf(1)])
  let ?k = "m_next m" and ?q = "\<lparr>p_raw = Some r, p_off = p_off p + p_len p, p_len = 0\<rparr>"
  obtain m' where m': "ptr_sub c (p_len p) 0 m = Inr (?k, m')" "wf_mem m'" "quiet m m'"
    "m_ptrs m' = (m_ptrs m)(?k \<mapsto> ?q)"
    using ptr_sub_spec [OF wf(1) p(1,2), of "p_len p" 0] by auto
  have none: "m_ptrs m ?k = None" by (rule wf_core_fresh [OF wf_flD(1) [OF wf(1)]])
  have free: "tail_free m c" using wf_nodesD(5) [OF wf(2)] c by blast
  have "tail_free m' ?k"
    unfolding tail_free_def
  proof (intro allI impI)
    fix p' r' j q
    assume h: "m_ptrs m' ?k = Some p'" "p_raw p' = Some r'" "j \<noteq> ?k" "m_ptrs m' j = Some q"
      "p_raw q = Some r'"
    then have "p' = ?q" "m_ptrs m j = Some q" by (simp_all add: m'(4))
    moreover from this h(2) have "r' = r" by simp
    ultimately have "p' = ?q" "m_ptrs m j = Some q" "r' = r" by auto
    then show "p_len q = 0 \<or> p_off q + p_len q \<le> p_off p' + p_len p'"
      using free p(1,2) h(5) unfolding tail_free_def by (cases "j = c") auto
  qed
  then have "turns b m (bl_bytes m b @ node_bytes m' ?k) (add_tail ?k b) m'"
    by (intro link_fresh [OF wf m'(2,3,4) none _ num]) simp_all
  moreover have "node_bytes m' ?k = []"
    by (auto simp: node_bytes_def ptr_bytes_def m'(4) split: option.split)
  moreover have "resync_tail b m = Inr (add_tail ?k b, m')"
    using c False p(1) m'(1) by (simp add: resync_tail_def ptr_length_def ptr_at_def)
  moreover have "room m' ?k = room m c"
  proof -
    obtain w' where w': "m_raws m' r = Some w'"
      using wf_ptr_raw [OF wf_flD(1) [OF m'(2)], of ?k ?q r] by (auto simp: m'(4))
    have "r < m_next m" using wf_coreD(4) [OF wf_flD(1) [OF wf(1)] p(3)] .
    then have "same_raw w w'"
      using m'(3) w' p(3) unfolding quiet_def by (metis not_le option.inject)
    then show ?thesis using p(4) w' by (simp add: room_def m'(4) same_raw_sel)
  qed
  ultimately show ?thesis by (intro exI [of _ ?k] exI) auto
qed

subsection \<open>Growing the last node\<close>

lemma last_split: "is_back b c \<Longrightarrow> bufs b = butlast (bufs b) @ [c]"
  by (auto simp: is_back_def)

lemma grow_last:
  assumes wf: "wf_mem m" "wf_nodes m b" "wf_mem m'"
    and c: "is_back b c" "m_ptrs m c = Some p"
    and p': "m_ptrs m' = (m_ptrs m)(c \<mapsto> p\<lparr>p_len := n\<rparr>)"
    and bytes: "node_bytes m' c = node_bytes m c @ data"
    and keep: "keeps (dom (m_ptrs m) - {c}) m m'"
    and free: "\<And>t. tail_cache b = Some t \<Longrightarrow> tail_free m' t"
  shows "turns b m (bl_bytes m b @ data) b m'"
proof -
  have cin: "c \<in> set (bufs b)" using c(1) by (auto simp: is_back_def)
  have "has_raw m' i" if "i \<in> set (bufs b)" for i
    using wf_nodesD(2) [OF wf(2) that] c(2) by (auto simp: has_raw_def p')
  then have nodes: "wf_nodes m' b"
    using wf(2) free by (auto simp: wf_nodes_def)
  have sub: "set (bufs b) \<subseteq> dom (m_ptrs m)" by (rule wf_nodesD [OF wf(2)])
  have "c \<notin> set (butlast (bufs b))"
    using last_split [OF c(1)] wf_nodesD(1) [OF wf(2)] by (metis distinct_append disjoint_iff list.set_intros(1))
  then have same: "map (node_bytes m') (butlast (bufs b)) = map (node_bytes m) (butlast (bufs b))"
    using sub by (intro map_cong refl keepsD(2) [OF keep]) (auto dest: in_set_butlastD)
  have "concat (map (node_bytes m') (butlast (bufs b) @ [c]))
      = concat (map (node_bytes m) (butlast (bufs b) @ [c])) @ data"
    by (simp add: same bytes)
  then have "bl_bytes m' b = bl_bytes m b @ data"
    unfolding bl_bytes_def using last_split [OF c(1)] by metis
  moreover have "keeps (others m b) m m'"
    by (rule keeps_mono [OF keep]) (use cin in \<open>auto simp: others_def\<close>)
  moreover have "others m' b = others m b" using cin p' by (auto simp: others_def)
  ultimately show ?thesis using wf(3) nodes by (simp add: turns_def)
qed

lemma grow_back:
  assumes wf: "wf_mem m" "wf_nodes m b" "wf_mem m'"
    and c: "is_back b c" "tail_cache b = Some c" "m_ptrs m c = Some p"
    and p': "m_ptrs m' = (m_ptrs m)(c \<mapsto> p\<lparr>p_len := n\<rparr>)" "p_len p \<le> n"
    and bytes: "node_bytes m' c = node_bytes m c @ data"
    and keep: "keeps (dom (m_ptrs m) - {c}) m m'"
  shows "turns b m (bl_bytes m b @ data) b m'"
proof (rule grow_last [OF wf c(1,3) p'(1) bytes keep])
  fix t assume "tail_cache b = Some t"
  then have "t = c" "tail_free m c" using c(2) wf_nodesD(5) [OF wf(2)] by auto
  then show "tail_free m' t" using p' c(3) unfolding tail_free_def by fastforce
qed

lemma append_at_back:
  assumes wf: "wf_mem m" "wf_nodes m b"
    and c: "is_back b c" "tail_cache b = Some c" and len: "length data \<le> room m c"
  shows "\<exists>e m'. ptr_append c data m = Inr (e, m') \<and> turns b m (bl_bytes m b @ data) b m'"
proof -
  have "has_raw m c" using wf_nodesD(2,4) [OF wf(2)] c(2) by blast
  then obtain p r w where p: "m_ptrs m c = Some p" "p_raw p = Some r" "m_raws m r = Some w"
    "p_off p + p_len p \<le> r_len w" "room m c = r_len w - (p_off p + p_len p)"
    by (rule has_rawE [OF _ wf(1)])
  have fit: "p_off p + p_len p + length data \<le> r_len w" using len p(4,5) by simp
  have free: "tail_free m c" using wf_nodesD(5) [OF wf(2)] c(2) by blast
  obtain e m' where m': "ptr_append c data m = Inr (e, m')" "wf_mem m'"
    "m_ptrs m' = (m_ptrs m)(c \<mapsto> p\<lparr>p_len := p_len p + length data\<rparr>)"
    "node_bytes m' c = node_bytes m c @ data"
    and keep: "\<And>I. c \<notin> I \<Longrightarrow> \<forall>j\<in>I. \<forall>q. m_ptrs m j = Some q \<longrightarrow>
      clear_of r (p_off p + p_len p) (length data) q \<Longrightarrow> keeps I m m'"
    using ptr_append_ok [OF wf(1) p(1-3) fit] by auto
  have "keeps (dom (m_ptrs m) - {c}) m m'"
    by (rule keep) (use free p(1,2) in \<open>auto simp: tail_free_def clear_of_def\<close>)
  then show ?thesis using grow_back [OF wf m'(2) c p(1) m'(3) _ m'(4)] m'(1) by auto
qed

text \<open>Growing the window only: the bytes behind it become part of the list.\<close>

lemma widen_at_back:
  assumes wf: "wf_mem m" "wf_nodes m b"
    and c: "is_back b c" "tail_cache b = Some c" and len: "n \<le> room m c"
    and p: "m_ptrs m c = Some p"
  shows "\<exists>data m'. set_length c (p_len p + n) m = Inr m' \<and> length data = n \<and>
    turns b m (bl_bytes m b @ data) b m' \<and> m_ptrs m' = (m_ptrs m)(c \<mapsto> p\<lparr>p_len := p_len p + n\<rparr>)"
proof -
  have "has_raw m c" using wf_nodesD(2,4) [OF wf(2)] c(2) by blast
  then obtain r w where r: "p_raw p = Some r" "m_raws m r = Some w"
    "p_off p + p_len p \<le> r_len w" "room m c = r_len w - (p_off p + p_len p)" "wf_raw w"
    by (rule has_rawE [OF _ wf(1)]) (use p in simp)
  have fit: "p_off p + (p_len p + n) \<le> r_len w" using len r(3,4) by simp
  obtain m' where m': "set_length c (p_len p + n) m = Inr m'" "wf_mem m'" "quiet m m'"
    "m_raws m' = m_raws m" "m_ptrs m' = (m_ptrs m)(c \<mapsto> p\<lparr>p_len := p_len p + n\<rparr>)"
    using set_length_ok [OF wf(1) p r(1,2) fit] by auto
  let ?d = "seg (p_off p + p_len p) n (r_data w)"
  have "node_bytes m' c = node_bytes m c @ ?d"
    using r(1,2) p by (simp add: node_bytes_def ptr_bytes_def m'(4,5) seg_append_seg)
  moreover have "keeps (dom (m_ptrs m) - {c}) m m'"
    by (rule keeps_wf_fl [OF m'(3) wf(1) m'(2)]) (simp add: m'(5))
  ultimately have "turns b m (bl_bytes m b @ ?d) b m'"
    using grow_back [OF wf m'(2) c p m'(5)] by simp
  moreover have "length ?d = n" using fit r(5) by (simp add: wf_raw_def)
  ultimately show ?thesis using m'(1,5) by auto
qed

subsection \<open>The append operations\<close>

lemma sum_small: "ready b m \<Longrightarrow> n < 2 ^ 62 \<Longrightarrow> add64 (b_len b) n = length (bl_bytes m b) + n"
  using readyD(4,5) [of b m] by (simp add: arith64 two64_def)

text \<open>Filling the cached tail with a prefix, when there is room for one.\<close>

lemma fill_tail:
  assumes wf: "wf_mem m" "wf_nodes m b" and num: "length (bufs b) < 2 ^ 63"
    and c: "tail_cache b = Some c" and len: "length data \<le> room m c"
  shows "\<exists>b' m1 m' c' e. resync_tail b m = Inr (b', m1) \<and> tail_cache b' = Some c' \<and>
    ptr_append c' data m1 = Inr (e, m') \<and> turns b m (bl_bytes m b @ data) b' m' \<and>
    b_len b' = b_len b \<and> length (bufs b') \<le> length (bufs b) + 1"
proof -
  obtain c' b' m1 where r: "resync_tail b m = Inr (b', m1)" "turns b m (bl_bytes m b) b' m1"
    "tail_cache b' = Some c'" "is_back b' c'" "room m1 c' = room m c" "b_len b' = b_len b"
    "length (bufs b') \<le> length (bufs b) + 1"
    using resync_tail_ok [OF wf num c] by blast
  have fit: "length data \<le> room m1 c'" using len r(5) by simp
  obtain e m' where "ptr_append c' data m1 = Inr (e, m')"
    "turns b' m1 (bl_bytes m1 b' @ data) b' m'"
    using append_at_back [OF turnsD(1,2) [OF r(2)] r(4,3) fit] by blast
  then show ?thesis using r turns_trans [OF r(2)] turnsD(3) [OF r(2)] by metis
qed

text \<open>Both halves of \<^verbatim>\<open>append\<close>: what fits behind the tail, then a new raw for the rest.\<close>

lemma append_split:
  assumes wf: "wf_mem m" "wf_nodes m b" "env_ok (m_env m)" and num: "length (bufs b) < 2 ^ 62"
    and len: "length data < 2 ^ 62"
    and u: "u = (case tail_cache b of None \<Rightarrow> 0 | Some c \<Rightarrow> room m c)"
  shows "\<exists>b' m'.
    ebind (if min (length data) u \<noteq> 0
           then ebind (resync_tail b m) (\<lambda>(b, m).
                ebind (tail_append (take (min (length data) u) data) b m) (\<lambda>m. Inr (b, m)))
           else Inr (b, m)) (\<lambda>(b, m).
      let left = length data - min (length data) u in
      if left \<noteq> 0
      then ebind (refill_append_space left b m) (\<lambda>(k, b, m).
           ebind (ptr_append k (drop (min (length data) u) data) m) (\<lambda>(_, m). Inr (b, m)))
      else Inr (b, m)) = Inr (b', m') \<and>
    turns b m (bl_bytes m b @ data) b' m' \<and> b_len b' = b_len b"
proof -
  let ?f = "min (length data) u"
  have num': "length (bufs b) < 2 ^ 63" using num by simp
  obtain b1 m1 where one: "(if ?f \<noteq> 0
           then ebind (resync_tail b m) (\<lambda>(b, m).
                ebind (tail_append (take ?f data) b m) (\<lambda>m. Inr (b, m)))
           else Inr (b, m)) = Inr (b1, m1)"
    "turns b m (bl_bytes m b @ take ?f data) b1 m1" "b_len b1 = b_len b"
    "length (bufs b1) < 2 ^ 63"
  proof (cases "?f = 0")
    case True
    then show ?thesis using that turns_refl [OF wf(1,2)] num by auto
  next
    case False
    then obtain c where c: "tail_cache b = Some c" using u by (cases "tail_cache b") auto
    have fit: "length (take ?f data) \<le> room m c" using u c by simp
    obtain b' m2 m' c' e where "resync_tail b m = Inr (b', m2)" "tail_cache b' = Some c'"
      "ptr_append c' (take ?f data) m2 = Inr (e, m')"
      "turns b m (bl_bytes m b @ take ?f data) b' m'" "b_len b' = b_len b"
      "length (bufs b') \<le> length (bufs b) + 1"
      using fill_tail [OF wf(1,2) num' c fit] by blast
    then show ?thesis using that False num by (simp add: tail_append_def)
  qed
  show ?thesis
  proof (cases "length data - ?f = 0")
    case True
    then show ?thesis using one by (auto simp: Let_def)
  next
    case False
    have num1: "length (bufs b1) < 2 ^ 63" by (rule one(4))
    note t1 = turnsD [OF one(2)]
    have env1: "env_ok (m_env m1)" using wf(3) t1(4) by simp
    obtain k m2 where r: "refill_append_space (length data - ?f) b1 m1 = Inr (k, add_tail k b1, m2)"
      "turns b1 m1 (bl_bytes m1 b1) (add_tail k b1) m2" "length data - ?f \<le> room m2 k"
      using refill_append_space_ok [OF t1(1,2) env1 num1, of "length data - ?f"] len by force
    have fit: "length (drop ?f data) \<le> room m2 k" using r(3) by simp
    obtain e m3 where a: "ptr_append k (drop ?f data) m2 = Inr (e, m3)"
      "turns (add_tail k b1) m2 (bl_bytes m2 (add_tail k b1) @ drop ?f data) (add_tail k b1) m3"
      using append_at_back [OF turnsD(1,2) [OF r(2)] is_back_add_tail _ fit] by auto
    have "bl_bytes m2 (add_tail k b1) @ drop ?f data = bl_bytes m b @ data"
      using turnsD(3) [OF r(2)] t1(3) by (metis append_assoc append_take_drop_id)
    then have "turns b m (bl_bytes m b @ data) (add_tail k b1) m3"
      using turns_trans [OF one(2) turns_trans [OF r(2) a(2)]] by simp
    then show ?thesis using one(1,3) r(1) a(1) False by (simp add: Let_def)
  qed
qed

lemma blist_append_ok:
  assumes "ready b m" "length data < 2 ^ 62"
  shows "\<exists>b' m'. blist_append data b m = Inr (b', m') \<and> becomes b m (bl_bytes m b @ data) b' m'"
proof -
  let ?b = "b\<lparr>b_len := add64 (b_len b) (length data)\<rparr>"
  let ?u = "case tail_cache b of None \<Rightarrow> 0 | Some c \<Rightarrow> room m c"
  note r = readyD [OF assms(1)]
  have wf: "wf_nodes m ?b" using r(3) by simp
  have u: "get_append_buffer_unused_tail_length m ?b = Inr ?u"
    using unused_tail_room [OF r(1) wf] by simp
  have num: "length (bufs ?b) < 2 ^ 62" using r(6) by simp
  obtain b' m' where "blist_append data b m = Inr (b', m')"
    "turns ?b m (bl_bytes m ?b @ data) b' m'" "b_len b' = b_len ?b"
    using append_split [OF r(1) wf r(2) num assms(2), of ?u]
    unfolding blist_append_def Let_def u by auto
  then show ?thesis using sum_small [OF assms] by (auto simp: becomes_def)
qed

end
