(* ===== verification/Buffer_Nodes.thy ===== *)
theory Buffer_Nodes
  imports Buffer_Append
begin

text \<open>
  The operations that add, clone or drop whole nodes: \<^verbatim>\<open>clear\<close>, copying and assigning lists,
  \<^verbatim>\<open>share\<close>, \<^verbatim>\<open>push_back\<close>, appending a \<^verbatim>\<open>ptr\<close>, a range of one or another list, and claiming
  another list's nodes.
\<close>

subsection \<open>Dropping nodes\<close>

lemma clear_and_dispose_spec:
  assumes "wf_mem m" "distinct is" "set is \<subseteq> dom (m_ptrs m)"
  shows "\<exists>m'. clear_and_dispose is m = Inr m' \<and> wf_mem m' \<and> quiet m m' \<and>
    m_ptrs m' = (\<lambda>i. if i \<in> set is then None else m_ptrs m i) \<and> m_next m' = m_next m"
  using assms
proof (induction "is" arbitrary: m)
  case (Cons i js)
  obtain p where p: "m_ptrs m i = Some p" using Cons.prems(3) by auto
  obtain m1 where m1: "ptr_destroy i m = Inr m1" "wf_mem m1" "quiet m m1"
    "m_ptrs m1 = (m_ptrs m)(i := None)" "m_next m1 = m_next m"
    using ptr_destroy_spec [OF Cons.prems(1) p] by blast
  have sub: "set js \<subseteq> dom (m_ptrs m1)" using Cons.prems(2,3) m1(4) by auto
  obtain m' where m': "clear_and_dispose js m1 = Inr m'" "wf_mem m'" "quiet m1 m'"
    "m_ptrs m' = (\<lambda>i. if i \<in> set js then None else m_ptrs m1 i)" "m_next m' = m_next m1"
    using Cons.IH [OF m1(2) _ sub] Cons.prems(2) by auto
  then show ?case
    using m1(1,4,5) quiet_trans [OF m1(3) m'(3)] by (auto simp: fun_eq_iff)
qed auto

lemma no_new_windows:
  assumes "tail_free m c" "has_raw m c" "m_ptrs m' c = m_ptrs m c"
    and "\<And>j q. m_ptrs m' j = Some q \<Longrightarrow> j \<noteq> c \<Longrightarrow> p_raw q \<noteq> None \<Longrightarrow> \<exists>j'. m_ptrs m j' = Some q"
  shows "tail_free m' c"
  unfolding tail_free_def
proof (intro allI impI)
  fix p r j q
  assume h: "m_ptrs m' c = Some p" "p_raw p = Some r" "j \<noteq> c" "m_ptrs m' j = Some q" "p_raw q = Some r"
  then obtain j' where j': "m_ptrs m j' = Some q" using assms(4) by blast
  have c: "m_ptrs m c = Some p" using assms(3) h(1) by simp
  show "p_len q = 0 \<or> p_off q + p_len q \<le> p_off p + p_len p"
  proof (cases "j' = c")
    case True
    then show ?thesis using c j' by simp
  next
    case False
    then show ?thesis using assms(1) c h(2,5) j' unfolding tail_free_def by blast
  qed
qed

lemma wf_nodes_frame:
  assumes "wf_nodes m b" "keeps (set (bufs b)) m m'"
    and "\<And>j q c. tail_cache b = Some c \<Longrightarrow> m_ptrs m' j = Some q \<Longrightarrow> j \<noteq> c \<Longrightarrow>
      p_raw q \<noteq> None \<Longrightarrow> \<exists>j'. m_ptrs m j' = Some q"
  shows "wf_nodes m' b" "bl_bytes m' b = bl_bytes m b"
proof -
  have "tail_free m' c" if "tail_cache b = Some c" for c
  proof (rule no_new_windows)
    have c: "c \<in> set (bufs b)" using wf_nodesD(4) [OF assms(1) that] .
    show "tail_free m c" "has_raw m c" using wf_nodesD(2,5) [OF assms(1)] that c by auto
    show "m_ptrs m' c = m_ptrs m c" using keepsD(1) [OF assms(2) c] .
  qed (use assms(3) that in auto)
  then show "wf_nodes m' b"
    using assms(1) has_raw_keeps [OF assms(2)] by (auto simp: wf_nodes_def)
  show "bl_bytes m' b = bl_bytes m b" by (rule bl_bytes_keeps [OF assms(2)]) simp
qed

lemma blist_clear_ok:
  assumes "wf_mem m" "wf_nodes m b"
  shows "\<exists>m'. blist_clear b m = Inr (blist_new, m') \<and> becomes b m [] blist_new m' \<and> quiet m m' \<and>
    clear_and_dispose (bufs b) m = Inr m' \<and>
    m_ptrs m' = (\<lambda>i. if i \<in> set (bufs b) then None else m_ptrs m i)"
proof -
  obtain m' where m': "clear_and_dispose (bufs b) m = Inr m'" "wf_mem m'" "quiet m m'"
    "m_ptrs m' = (\<lambda>i. if i \<in> set (bufs b) then None else m_ptrs m i)"
    using clear_and_dispose_spec [OF assms(1) wf_nodesD(1,6) [OF assms(2)]] by blast
  have "keeps (others m b) m m'"
    by (rule keeps_wf_fl [OF m'(3) assms(1) m'(2)]) (auto simp: m'(4) others_def)
  moreover have "others m' blist_new = others m b"
    by (auto simp: others_def m'(4) blist_new_def split: if_splits)
  moreover have "wf_nodes m' blist_new" by (simp add: wf_nodes_def blist_new_def)
  ultimately have "becomes b m [] blist_new m'"
    using m'(2) by (simp add: becomes_def turns_def) (simp add: blist_new_def)
  then show ?thesis using m' by (simp add: blist_clear_def)
qed

subsection \<open>Cloning nodes\<close>

lemma clone_nodes_spec:
  assumes "wf_mem m" "set is \<subseteq> dom (m_ptrs m)"
  shows "\<exists>ks m'. clone_nodes is m = Inr (ks, m') \<and> wf_mem m' \<and> quiet m m' \<and>
    distinct ks \<and> set ks \<inter> dom (m_ptrs m) = {} \<and> length ks = length is \<and>
    dom (m_ptrs m') = dom (m_ptrs m) \<union> set ks \<and>
    (\<forall>j \<in> dom (m_ptrs m). m_ptrs m' j = m_ptrs m j) \<and> map (m_ptrs m') ks = map (m_ptrs m) is"
  using assms
proof (induction "is" arbitrary: m)
  case (Cons i js)
  obtain p where p: "m_ptrs m i = Some p" using Cons.prems(2) by auto
  let ?k = "m_next m"
  obtain m1 where m1: "ptr_copy i m = Inr (?k, m1)" "wf_mem m1" "quiet m m1"
    "m_ptrs m1 = (m_ptrs m)(?k \<mapsto> p)"
    using ptr_copy_spec [OF Cons.prems(1) p] by blast
  have none: "m_ptrs m ?k = None" by (rule wf_core_fresh [OF wf_flD(1) [OF Cons.prems(1)]])
  have sub: "set js \<subseteq> dom (m_ptrs m1)" using Cons.prems(2) m1(4) by auto
  obtain ks m' where m': "clone_nodes js m1 = Inr (ks, m')" "wf_mem m'" "quiet m1 m'"
    "distinct ks" "set ks \<inter> dom (m_ptrs m1) = {}" "length ks = length js"
    "dom (m_ptrs m') = dom (m_ptrs m1) \<union> set ks"
    "\<forall>j \<in> dom (m_ptrs m1). m_ptrs m' j = m_ptrs m1 j" "map (m_ptrs m') ks = map (m_ptrs m1) js"
    using Cons.IH [OF m1(2) sub] by blast
  have k: "?k \<notin> set ks" "?k \<notin> set js" using m'(5) m1(4) none Cons.prems(2) by auto
  have "map (m_ptrs m') (?k # ks) = map (m_ptrs m) (i # js)"
    using m'(8,9) m1(4) p k(2) by auto
  moreover have "\<forall>j \<in> dom (m_ptrs m). m_ptrs m' j = m_ptrs m j"
    using m'(8) m1(4) none by (auto simp: domIff)
  moreover have "set (?k # ks) \<inter> dom (m_ptrs m) = {}" using m'(5) m1(4) none by auto
  moreover have "dom (m_ptrs m') = dom (m_ptrs m) \<union> set (?k # ks)" using m'(7) m1(4) by auto
  moreover have "clone_nodes (i # js) m = Inr (?k # ks, m')" using m1(1) m'(1) by simp
  moreover have "distinct (?k # ks)" "length (?k # ks) = length (i # js)" using m'(4,6) k by auto
  ultimately show ?case using m'(2) quiet_trans [OF m1(3) m'(3)] by blast
qed auto

text \<open>Cloning changes no byte of any object, and the clones show what the originals show.\<close>

lemma clone_nodes_bytes:
  assumes "wf_mem m" "wf_mem m'" "quiet m m'"
    and "\<forall>j \<in> dom (m_ptrs m). m_ptrs m' j = m_ptrs m j"
    and "map (m_ptrs m') ks = map (m_ptrs m) is" "set is \<subseteq> dom (m_ptrs m)"
  shows "keeps (dom (m_ptrs m)) m m'" "map (node_bytes m') ks = map (node_bytes m) is"
proof -
  show k: "keeps (dom (m_ptrs m)) m m'"
    by (rule keeps_wf_fl [OF assms(3,1,2)]) (use assms(4) in auto)
  have len: "length ks = length is" using assms(5) by (metis length_map)
  show "map (node_bytes m') ks = map (node_bytes m) is"
  proof (rule nth_equalityI)
    fix n assume "n < length (map (node_bytes m') ks)"
    then have n: "n < length ks" "n < length is" using len by auto
    then have eq: "m_ptrs m' (ks ! n) = m_ptrs m (is ! n)" using assms(5) by (metis nth_map)
    obtain p where p: "m_ptrs m (is ! n) = Some p" using n(2) assms(6) nth_mem by blast
    then have "wf_ptr m' p" using wf_coreD(3) [OF wf_flD(1) [OF assms(2)]] eq by simp
    then have "ptr_bytes m' p = ptr_bytes m p"
      by (rule ptr_bytes_quiet [OF assms(3) wf_flD(1) [OF assms(1)] p])
    then show "map (node_bytes m') ks ! n = map (node_bytes m) is ! n"
      using n p eq by (simp add: node_bytes_def)
  qed (use len in simp)
qed

lemma clone_nodes_ok:
  assumes "wf_mem m" "\<forall>i \<in> set is. has_raw m i"
  shows "\<exists>ks m'. clone_nodes is m = Inr (ks, m') \<and> wf_mem m' \<and> quiet m m' \<and>
    distinct ks \<and> set ks \<inter> dom (m_ptrs m) = {} \<and> length ks = length is \<and>
    dom (m_ptrs m') = dom (m_ptrs m) \<union> set ks \<and> (\<forall>k \<in> set ks. has_raw m' k) \<and>
    (\<forall>j \<in> dom (m_ptrs m). m_ptrs m' j = m_ptrs m j) \<and>
    (\<forall>j q. m_ptrs m' j = Some q \<longrightarrow> (\<exists>j'. m_ptrs m j' = Some q)) \<and>
    keeps (dom (m_ptrs m)) m m' \<and> map (node_bytes m') ks = map (node_bytes m) is"
proof -
  have sub: "set is \<subseteq> dom (m_ptrs m)" using assms(2) by (auto simp: has_raw_def)
  obtain ks m' where m': "clone_nodes is m = Inr (ks, m')" "wf_mem m'" "quiet m m'"
    "distinct ks" "set ks \<inter> dom (m_ptrs m) = {}" "length ks = length is"
    "dom (m_ptrs m') = dom (m_ptrs m) \<union> set ks"
    "\<forall>j \<in> dom (m_ptrs m). m_ptrs m' j = m_ptrs m j" "map (m_ptrs m') ks = map (m_ptrs m) is"
    using clone_nodes_spec [OF assms(1) sub] by blast
  have orig: "\<exists>i \<in> set is. m_ptrs m' k = m_ptrs m i" if k: "k \<in> set ks" for k
  proof -
    obtain n where n: "n < length ks" "ks ! n = k" using k by (auto simp: in_set_conv_nth)
    then have "m_ptrs m' k = m_ptrs m (is ! n)" using m'(6,9) by (metis nth_map)
    then show ?thesis using n(1) m'(6) nth_mem by metis
  qed
  then have "\<forall>k \<in> set ks. has_raw m' k" using assms(2) by (force simp: has_raw_def)
  moreover have "\<exists>j'. m_ptrs m j' = Some q" if "m_ptrs m' j = Some q" for j q
    using m'(7,8) orig that by (metis Un_iff domI)
  ultimately show ?thesis
    using m'(1-8) clone_nodes_bytes [OF assms(1) m'(2,3,8,9) sub] by blast
qed

subsection \<open>Lists made of clones\<close>

lemma bl_bytes_map: "bl_bytes m b = concat (map (node_bytes m) (bufs b))"
  by (simp add: bl_bytes_def)

lemma wf_nodes_raws: "wf_nodes m b \<Longrightarrow> \<forall>i \<in> set (bufs b). has_raw m i"
  by (simp add: wf_nodes_def)

text \<open>A copy shows the same bytes; the original and everything else stay as they are.\<close>

lemma blist_copy_ok:
  assumes "wf_mem m" "wf_list m other"
  shows "\<exists>b' m'. blist_copy other m = Inr (b', m') \<and>
    becomes blist_new m (bl_bytes m other) b' m' \<and> wf_list m' other \<and>
    bl_bytes m' other = bl_bytes m other \<and> tail_cache b' = None"
proof -
  have wfn: "wf_nodes m other" and len: "b_len other = length (bl_bytes m other)"
    using assms(2) by (auto simp: wf_list_def)
  obtain ks m' where m': "clone_nodes (bufs other) m = Inr (ks, m')" "wf_mem m'"
    "distinct ks" "set ks \<inter> dom (m_ptrs m) = {}" "length ks = length (bufs other)"
    "dom (m_ptrs m') = dom (m_ptrs m) \<union> set ks" "\<forall>k \<in> set ks. has_raw m' k"
    "\<forall>j q. m_ptrs m' j = Some q \<longrightarrow> (\<exists>j'. m_ptrs m j' = Some q)"
    "keeps (dom (m_ptrs m)) m m'" "map (node_bytes m') ks = map (node_bytes m) (bufs other)"
    using clone_nodes_ok [OF assms(1) wf_nodes_raws [OF wfn]] by blast
  let ?b = "\<lparr>bufs = ks, tail_cache = None, b_len = b_len other, b_num = b_num other\<rparr>"
  have "wf_nodes m' ?b"
    using m'(3,5,7) wf_nodesD(3) [OF wfn] by (simp add: wf_nodes_def)
  moreover have "bl_bytes m' ?b = bl_bytes m other" using m'(10) by (simp add: bl_bytes_def)
  moreover have "others m' ?b = others m blist_new"
    using m'(4,6) by (auto simp: others_def blist_new_def)
  moreover have "keeps (others m blist_new) m m'"
    by (rule keeps_mono [OF m'(9)]) (auto simp: others_def)
  ultimately have "becomes blist_new m (bl_bytes m other) ?b m'"
    using m'(2) len by (simp add: becomes_def turns_def)
  moreover have "keeps (set (bufs other)) m m'"
    by (rule keeps_mono [OF m'(9)]) (use wf_nodesD(6) [OF wfn] in auto)
  then have "wf_nodes m' other" "bl_bytes m' other = bl_bytes m other"
    using wf_nodes_frame [OF wfn] m'(8) by blast+
  ultimately show ?thesis using m'(1) len by (simp add: blist_copy_def wf_list_def)
qed

text \<open>Different lists share no node.\<close>

definition apart :: "blist \<Rightarrow> blist \<Rightarrow> bool" where
  "apart b other \<longleftrightarrow> set (bufs b) \<inter> set (bufs other) = {}"

lemma keeps_apart:
  assumes "keeps (others m b) m m'" "apart b other" "wf_nodes m other"
  shows "keeps (set (bufs other)) m m'"
  by (rule keeps_mono [OF assms(1)])
    (use assms(2) wf_nodesD(6) [OF assms(3)] in \<open>auto simp: apart_def others_def\<close>)

lemma blist_assign_ok:
  assumes "wf_mem m" "wf_nodes m b" "wf_list m other" "apart b other"
  shows "\<exists>b' m'. blist_assign b other m = Inr (b', m') \<and>
    becomes b m (bl_bytes m other) b' m' \<and> wf_list m' other \<and>
    bl_bytes m' other = bl_bytes m other"
proof -
  have wfn: "wf_nodes m other" and len: "b_len other = length (bl_bytes m other)"
    using assms(3) by (auto simp: wf_list_def)
  obtain m1 where m1: "clear_and_dispose (bufs b) m = Inr m1" "becomes b m [] blist_new m1"
    "m_ptrs m1 = (\<lambda>i. if i \<in> set (bufs b) then None else m_ptrs m i)"
    using blist_clear_ok [OF assms(1,2)] by blast
  have t1: "turns b m [] blist_new m1" using m1(2) by (simp add: becomes_def)
  have k: "keeps (set (bufs other)) m m1" by (rule keeps_apart [OF turnsD(5) [OF t1] assms(4) wfn])
  have "wf_nodes m1 other" "bl_bytes m1 other = bl_bytes m other"
    using wf_nodes_frame [OF wfn k] m1(3) by (metis option.distinct(1))+
  moreover from this have "wf_list m1 other" using len by (simp add: wf_list_def)
  then obtain b' m' where "blist_copy other m1 = Inr (b', m')"
    "becomes blist_new m1 (bl_bytes m1 other) b' m'" "wf_list m' other"
    "bl_bytes m' other = bl_bytes m1 other"
    using blist_copy_ok [OF turnsD(1) [OF t1]] by blast
  ultimately show ?thesis using m1(1) turns_trans [OF t1]
    by (simp add: blist_assign_def becomes_def)
qed

lemma blist_share_ok:
  assumes "wf_mem m" "wf_nodes m b" "wf_list m other" "apart b other"
  shows "\<exists>b' m'. blist_share b other m = Inr (b', m') \<and>
    becomes b m (bl_bytes m other) b' m' \<and> wf_list m' other \<and>
    bl_bytes m' other = bl_bytes m other"
proof -
  obtain b' m' where *: "blist_assign b other m = Inr (b', m')"
    "becomes b m (bl_bytes m other) b' m'" "wf_list m' other"
    "bl_bytes m' other = bl_bytes m other"
    using blist_assign_ok [OF assms] by blast
  have "blist_share b other m = blist_assign b other m"
    by (cases "clear_and_dispose (bufs b) m")
      (auto simp: blist_share_def blist_assign_def blist_copy_def blist_clear_def blist_new_def)
  then show ?thesis using * by auto
qed

subsection \<open>Appending nodes\<close>

lemma blist_append_list_ok:
  assumes "ready b m" "wf_list m other" "apart b other"
    and "b_len other < 2 ^ 62" "length (bufs other) < 2 ^ 62"
  shows "\<exists>b' m'. blist_append_list other b m = Inr (b', m') \<and>
    becomes b m (bl_bytes m b @ bl_bytes m other) b' m' \<and> wf_list m' other \<and>
    bl_bytes m' other = bl_bytes m other"
proof -
  note r = readyD [OF assms(1)]
  have wfn: "wf_nodes m other" and len: "b_len other = length (bl_bytes m other)"
    using assms(2) by (auto simp: wf_list_def)
  obtain ks m' where m': "clone_nodes (bufs other) m = Inr (ks, m')" "wf_mem m'"
    "distinct ks" "set ks \<inter> dom (m_ptrs m) = {}" "length ks = length (bufs other)"
    "dom (m_ptrs m') = dom (m_ptrs m) \<union> set ks" "\<forall>k \<in> set ks. has_raw m' k"
    "\<forall>j q. m_ptrs m' j = Some q \<longrightarrow> (\<exists>j'. m_ptrs m j' = Some q)"
    "keeps (dom (m_ptrs m)) m m'" "map (node_bytes m') ks = map (node_bytes m) (bufs other)"
    using clone_nodes_ok [OF r(1) wf_nodes_raws [OF wfn]] by blast
  let ?b = "b\<lparr>bufs := bufs b @ ks, b_len := add64 (b_len b) (b_len other),
    b_num := add64 (b_num b) (b_num other)\<rparr>"
  have subs: "set (bufs b) \<subseteq> dom (m_ptrs m)" "set (bufs other) \<subseteq> dom (m_ptrs m)"
    using wf_nodesD(6) r(3) wfn by auto
  have kb: "keeps (set (bufs b)) m m'" "keeps (set (bufs other)) m m'"
    by (rule keeps_mono [OF m'(9)], rule subs)+
  have nb: "wf_nodes m' b" "bl_bytes m' b = bl_bytes m b"
    using wf_nodes_frame [OF r(3) kb(1)] m'(8) by blast+
  have no: "wf_nodes m' other" "bl_bytes m' other = bl_bytes m other"
    using wf_nodes_frame [OF wfn kb(2)] m'(8) by blast+
  have num: "b_num ?b = length (bufs ?b)"
    using wf_nodesD(3) [OF r(3)] wf_nodesD(3) [OF wfn] r(6) assms(5) m'(5)
    by (simp add: arith64 two64_def)
  have "wf_nodes m' ?b"
    using nb(1) m'(3,4,7) subs(1) num by (auto simp: wf_nodes_def)
  moreover have "bl_bytes m' ?b = bl_bytes m b @ bl_bytes m other"
    using nb(2) m'(10) by (simp add: bl_bytes_def)
  moreover have "others m' ?b = others m b" using m'(4,6) by (auto simp: others_def)
  moreover have "keeps (others m b) m m'"
    by (rule keeps_mono [OF m'(9)]) (auto simp: others_def)
  moreover have "b_len ?b = length (bl_bytes m b @ bl_bytes m other)"
    using sum_small [OF assms(1), of "b_len other"] assms(4) len by simp
  ultimately have "becomes b m (bl_bytes m b @ bl_bytes m other) ?b m'"
    using m'(2) by (simp add: becomes_def turns_def)
  then show ?thesis using m'(1) no len by (simp add: blist_append_list_def wf_list_def)
qed

text \<open>Claiming moves the nodes themselves; the other list is empty afterwards.\<close>

lemma claim_append_ok:
  assumes "ready b m" "wf_list m other" "apart b other"
    and "b_len other < 2 ^ 62" "length (bufs other) < 2 ^ 62"
  defines "b' \<equiv> fst (claim_append other b)"
  shows "wf_list m b'" "bl_bytes m b' = bl_bytes m b @ bl_bytes m other"
    "snd (claim_append other b) = blist_new" "others m b' = others m b - set (bufs other)"
proof -
  note r = readyD [OF assms(1)]
  have wfn: "wf_nodes m other" and len: "b_len other = length (bl_bytes m other)"
    using assms(2) by (auto simp: wf_list_def)
  have "b_num b' = length (bufs b')"
    using wf_nodesD(3) [OF r(3)] wf_nodesD(3) [OF wfn] r(6) assms(5)
    by (simp add: b'_def claim_append_def arith64 two64_def)
  then have "wf_nodes m b'"
    using r(3) wfn assms(3) by (auto simp: wf_nodes_def apart_def b'_def claim_append_def)
  moreover show bb: "bl_bytes m b' = bl_bytes m b @ bl_bytes m other"
    by (simp add: b'_def claim_append_def bl_bytes_def)
  moreover have "b_len b' = length (bl_bytes m b')"
    using sum_small [OF assms(1), of "b_len other"] assms(4) len bb
    by (simp add: b'_def claim_append_def)
  ultimately show "wf_list m b'" by (simp add: wf_list_def)
  show "snd (claim_append other b) = blist_new" by (simp add: claim_append_def)
  show "others m b' = others m b - set (bufs other)"
    by (auto simp: b'_def claim_append_def others_def)
qed

text \<open>A node that shares the raw of an existing object: \<^verbatim>\<open>push_back\<close> of a \<^verbatim>\<open>ptr\<close>.\<close>

lemma blist_push_back_ok:
  assumes "ready b m" "m_ptrs m i = Some p" "p_len p < 2 ^ 62"
  shows "\<exists>b' m'. blist_push_back i b m = Inr (b', m') \<and>
    becomes b m (bl_bytes m b @ node_bytes m i) b' m'"
proof (cases "p_len p = 0")
  case True
  then have "node_bytes m i = []" using length_node_bytes [OF readyD(1) [OF assms(1)] assms(2)] by simp
  then show ?thesis
    using True assms(2) turns_refl [OF readyD(1,3) [OF assms(1)]] readyD(4) [OF assms(1)]
    by (simp add: blist_push_back_def ptr_at_def becomes_def)
next
  case False
  note r = readyD [OF assms(1)]
  have raw: "p_raw p \<noteq> None" by (rule len_pos_raw [OF r(1) assms(2) False])
  let ?k = "m_next m"
  obtain m' where m': "ptr_copy i m = Inr (?k, m')" "wf_mem m'" "quiet m m'"
    "m_ptrs m' = (m_ptrs m)(?k \<mapsto> p)"
    using ptr_copy_spec [OF r(1) assms(2)] by blast
  have none: "m_ptrs m ?k = None" by (rule wf_core_fresh [OF wf_flD(1) [OF r(1)]])
  let ?b = "b\<lparr>bufs := bufs b @ [?k], b_len := add64 (b_len b) (p_len p), b_num := add64 (b_num b) 1\<rparr>"
  have "turns b m (bl_bytes m b @ node_bytes m' ?k) ?b m'"
  proof (rule link_fresh [OF r(1,3) m'(2,3,4) none raw])
    fix c assume "tail_cache ?b = Some c"
    then have c: "tail_cache b = Some c" by simp
    have "tail_free m' c"
      by (rule no_new_windows [OF wf_nodesD(5) [OF r(3) c] wf_nodesD(2) [OF r(3) wf_nodesD(4) [OF r(3) c]]])
        (use m'(4) assms(2) none wf_nodesD(2) [OF r(3) wf_nodesD(4) [OF r(3) c]] in
          \<open>auto simp: has_raw_def split: if_splits\<close>)
    then show "c = ?k \<and> tail_free m' ?k \<or> tail_cache b = Some c \<and> tail_free m' c" using c by simp
  qed (use r(6) in simp_all)
  moreover have "node_bytes m' ?k = node_bytes m i"
  proof -
    have "m_ptrs m' ?k = Some p" by (simp add: m'(4))
    then have "wf_ptr m' p" by (rule wf_coreD(3) [OF wf_flD(1) [OF m'(2)]])
    then show ?thesis
      using ptr_bytes_quiet [OF m'(3) wf_flD(1) [OF r(1)] assms(2)] assms(2)
      by (simp add: node_bytes_def m'(4))
  qed
  moreover have "b_len ?b = length (bl_bytes m b @ node_bytes m i)"
    using sum_small [OF assms(1,3)] length_node_bytes [OF r(1) assms(2)] by simp
  ultimately show ?thesis using False assms(2) m'(1)
    by (simp add: blist_push_back_def ptr_at_def becomes_def)
qed

end
