(* ===== verification/Buffer_Append_Ops.thy ===== *)
theory Buffer_Append_Ops
  imports Buffer_Nodes
begin

text \<open>
  The remaining appends: one byte, zeros, a hole to be filled later, a range of a \<^verbatim>\<open>ptr\<close>,
  zeros in front, reserved space, and the piecewise claim that merges adjacent ranges.
\<close>

subsection \<open>Single bytes, zeros and holes\<close>

lemma blist_append_char_ok:
  assumes "ready b m"
  shows "\<exists>b' m'. blist_append_char c b m = Inr (b', m') \<and> becomes b m (bl_bytes m b @ [c]) b' m'"
proof -
  note r = readyD [OF assms]
  have num: "length (bufs b) < 2 ^ 63" using r(6) by simp
  let ?u = "case tail_cache b of None \<Rightarrow> 0 | Some t \<Rightarrow> room m t"
  have u: "get_append_buffer_unused_tail_length m b = Inr ?u" by (rule unused_tail_room [OF r(1,3)])
  obtain b1 m1 t where one: "(if ?u = 0
      then ebind (new_append_raw buffer_append_size b m) (\<lambda>(_, b, m). Inr (b, m))
      else resync_tail b m) = Inr (b1, m1)"
    "turns b m (bl_bytes m b) b1 m1" "tail_cache b1 = Some t" "is_back b1 t" "1 \<le> room m1 t"
    "b_len b1 = b_len b"
  proof (cases "?u = 0")
    case True
    obtain k m1 where "new_append_raw buffer_append_size b m = Inr (k, add_tail k b, m1)"
      "turns b m (bl_bytes m b) (add_tail k b) m1" "room m1 k = buffer_append_size"
      using new_append_raw_ok [OF r(1,3,2) num, of buffer_append_size]
      by (auto simp: buffer_append_size_def sizeof_raw_combined_def)
    then show ?thesis using that True
      by (simp add: buffer_append_size_def sizeof_raw_combined_def)
  next
    case False
    then obtain t where t: "tail_cache b = Some t" by (cases "tail_cache b") auto
    then show ?thesis using that resync_tail_ok [OF r(1,3) num t] False by auto
  qed
  obtain e m2 where two: "ptr_append t [c] m1 = Inr (e, m2)"
    "turns b1 m1 (bl_bytes m1 b1 @ [c]) b1 m2"
    using append_at_back [OF turnsD(1,2) [OF one(2)] one(4,3), of "[c]"] one(5) by auto
  have "blist_append_char c b m = Inr (b1\<lparr>b_len := add64 (b_len b1) 1\<rparr>, m2)"
    using u one(1,3) two(1) by (simp add: blist_append_char_def tail_append_def)
  moreover have "turns b m (bl_bytes m b @ [c]) b1 m2"
    using turns_trans [OF one(2) two(2)] turnsD(3) [OF one(2)] by simp
  ultimately show ?thesis using sum_small [OF assms, of 1] one(6) by (auto simp: becomes_def)
qed

text \<open>A new empty tail is widened and then set to zero.\<close>

lemma zero_new_tail:
  assumes wf: "wf_mem m" "wf_nodes m b"
    and c: "is_back b k" "tail_cache b = Some k" and len: "len \<le> room m k"
    and p: "m_ptrs m k = Some p" "p_len p = 0"
  shows "\<exists>m1 m2. set_length k len m = Inr m1 \<and> ptr_zero k False m1 = Inr m2 \<and>
    turns b m (bl_bytes m b @ replicate len 0) b m2"
proof -
  have "has_raw m k" using wf_nodesD(2,4) [OF wf(2)] c(2) by blast
  then obtain r w where r: "p_raw p = Some r" "m_raws m r = Some w"
    "p_off p + p_len p \<le> r_len w" "room m k = r_len w - (p_off p + p_len p)"
    by (rule has_rawE [OF _ wf(1)]) (use p(1) in simp)
  have free: "tail_free m k" using wf_nodesD(5) [OF wf(2)] c(2) by blast
  let ?p = "p\<lparr>p_len := len\<rparr>"
  have fit: "p_off p + len \<le> r_len w" using len r(3,4) p(2) by simp
  obtain m1 where m1: "set_length k len m = Inr m1" "wf_mem m1" "quiet m m1"
    "m_ptrs m1 = (m_ptrs m)(k \<mapsto> ?p)"
    using set_length_ok [OF wf(1) p(1) r(1,2) fit] by auto
  have p1: "m_ptrs m1 k = Some ?p" "p_raw ?p = Some r" "0 + length (replicate len (0::u8)) \<le> p_len ?p"
    using m1(4) r(1) by auto
  obtain m2 where m2: "raw_write r (p_off ?p + 0) (replicate len 0) m1 = Inr m2" "wf_mem m2"
    "m_ptrs m2 = m_ptrs m1" "node_bytes m2 k = write_at 0 (replicate len 0) (node_bytes m1 k)"
    and keep: "\<And>I. \<forall>j\<in>I. \<forall>q. m_ptrs m1 j = Some q \<longrightarrow>
      clear_of r (p_off ?p + 0) (length (replicate len (0::u8))) q \<Longrightarrow> keeps I m1 m2"
    using ptr_poke_ok [OF m1(2) p1] by blast
  have bytes: "node_bytes m2 k = node_bytes m k @ replicate len 0"
    using m2(4) length_node_bytes [OF m1(2) p1(1)] length_node_bytes [OF wf(1) p(1)] p(2)
    by (simp add: write_at_def)
  have "keeps (dom (m_ptrs m) - {k}) m m1" by (rule keeps_wf_fl [OF m1(3) wf(1) m1(2)]) (simp add: m1(4))
  moreover have "keeps (dom (m_ptrs m) - {k}) m1 m2"
    by (rule keep) (use free p r(1) m1(4) in \<open>auto simp: tail_free_def clear_of_def\<close>)
  ultimately have keep2: "keeps (dom (m_ptrs m) - {k}) m m2" by (rule keeps_trans)
  have "turns b m (bl_bytes m b @ replicate len 0) b m2"
    by (rule grow_back [OF wf m2(2) c p(1) _ _ bytes keep2]) (simp_all add: m2(3) m1(4) p(2))
  moreover have "ptr_zero k False m1 = Inr m2"
    using p1 m2(1) by (simp add: ptr_zero_def ptr_at_def ptr_raw_def)
  ultimately show ?thesis using m1(1) by blast
qed

lemma blist_append_zero_ok:
  assumes "ready b m" "len < 2 ^ 62"
  shows "\<exists>b' m'. blist_append_zero len b m = Inr (b', m') \<and>
    becomes b m (bl_bytes m b @ replicate len 0) b' m'"
proof -
  let ?b = "b\<lparr>b_len := add64 (b_len b) len\<rparr>"
  define u where "u = (case tail_cache b of None \<Rightarrow> 0 | Some c \<Rightarrow> room m c)"
  define f where "f = min len u"
  note r = readyD [OF assms(1)]
  have wf: "wf_nodes m ?b" using r(3) by simp
  have u: "get_append_buffer_unused_tail_length m ?b = Inr u"
    using unused_tail_room [OF r(1) wf] by (simp add: u_def)
  have num: "length (bufs ?b) < 2 ^ 63" using r(6) by simp
  obtain b1 m1 where one: "(if f \<noteq> 0
           then ebind (resync_tail ?b m) (\<lambda>(b, m).
                ebind (of_option Assert_failed (tail_cache b)) (\<lambda>c.
                ebind (append_zeros c f m) (\<lambda>(_, m). Inr (b, m))))
           else Inr (?b, m)) = Inr (b1, m1)"
    "turns b m (bl_bytes m b @ replicate f 0) b1 m1" "b_len b1 = b_len ?b" "length (bufs b1) < 2 ^ 63"
  proof (cases "f = 0")
    case True
    then show ?thesis using that turns_refl [OF r(1,3)] num by auto
  next
    case False
    then obtain c where c: "tail_cache b = Some c" by (cases "tail_cache b") (auto simp: f_def u_def)
    then have fit: "length (replicate f (0::u8)) \<le> room m c" by (simp add: f_def u_def)
    obtain b' m2 m' c' e where "resync_tail ?b m = Inr (b', m2)" "tail_cache b' = Some c'"
      "ptr_append c' (replicate f 0) m2 = Inr (e, m')" "turns ?b m (bl_bytes m ?b @ replicate f 0) b' m'"
      "b_len b' = b_len ?b" "length (bufs b') \<le> length (bufs ?b) + 1"
      using fill_tail [OF r(1) wf num _ fit] c by auto
    then show ?thesis using that False r(6) by (simp add: append_zeros_def)
  qed
  note t1 = turnsD [OF one(2)]
  have env1: "env_ok (m_env m1)" using r(2) t1(4) by simp
  have lenf: "replicate f 0 @ replicate (len - f) 0 = (replicate len 0 :: bytes)"
    by (simp add: f_def flip: replicate_add)
  have sum: "b_len ?b = length (bl_bytes m b @ replicate len (0::u8))" using sum_small [OF assms] by simp
  show ?thesis
  proof (cases "len - f = 0")
    case True
    have "blist_append_zero len b m = Inr (b1, m1)"
      unfolding blist_append_zero_def Let_def u ebind_simps f_def [symmetric] one(1)
      using True by simp
    then show ?thesis using one(2,3) sum lenf True by (auto simp: becomes_def)
  next
    case False
    have small: "len - f < 2 ^ 62" using assms(2) by linarith
    obtain k m2 where a: "refill_append_space (len - f) b1 m1 = Inr (k, add_tail k b1, m2)"
      "turns b1 m1 (bl_bytes m1 b1) (add_tail k b1) m2" "len - f \<le> room m2 k"
      "m_ptrs m2 k = Some \<lparr>p_raw = Some (m_next m1), p_off = 0, p_len = 0\<rparr>"
      using refill_append_space_ok [OF t1(1,2) env1 one(4) small] by auto
    obtain m3 m4 where z: "set_length k (len - f) m2 = Inr m3" "ptr_zero k False m3 = Inr m4"
      "turns (add_tail k b1) m2 (bl_bytes m2 (add_tail k b1) @ replicate (len - f) 0) (add_tail k b1) m4"
      using zero_new_tail [OF turnsD(1,2) [OF a(2)] is_back_add_tail _ a(3,4)] by auto
    have "blist_append_zero len b m = Inr (add_tail k b1, m4)"
      unfolding blist_append_zero_def Let_def u ebind_simps f_def [symmetric] one(1)
      using a(1) z(1,2) False by simp
    moreover have "turns b m (bl_bytes m b @ replicate len 0) (add_tail k b1) m4"
      using turns_trans [OF one(2) turns_trans [OF a(2) z(3)]] turnsD(3) [OF a(2)] t1(3) lenf
      by simp
    ultimately show ?thesis using one(3) sum by (auto simp: becomes_def)
  qed
qed

text \<open>A hole adds \<open>len\<close> bytes of unspecified value and says where they are.\<close>

lemma blist_append_hole_ok:
  assumes "ready b m" "len < 2 ^ 62" "0 < len \<or> tail_cache b \<noteq> None"
  shows "\<exists>data pos b' m'. blist_append_hole len b m = Inr (pos, b', m') \<and> length data = len \<and>
    becomes b m (bl_bytes m b @ data) b' m'"
proof -
  let ?b = "b\<lparr>b_len := add64 (b_len b) len\<rparr>"
  define u where "u = (case tail_cache b of None \<Rightarrow> 0 | Some c \<Rightarrow> room m c)"
  note r = readyD [OF assms(1)]
  have wf: "wf_nodes m ?b" using r(3) by simp
  have u: "get_append_buffer_unused_tail_length m ?b = Inr u"
    using unused_tail_room [OF r(1) wf] by (simp add: u_def)
  have num: "length (bufs ?b) < 2 ^ 63" using r(6) by simp
  show ?thesis
  proof (cases "u < len")
    case True
    obtain k m2 where a: "refill_append_space len ?b m = Inr (k, add_tail k ?b, m2)"
      "turns ?b m (bl_bytes m ?b) (add_tail k ?b) m2" "len \<le> room m2 k"
      "m_ptrs m2 k = Some \<lparr>p_raw = Some (m_next m), p_off = 0, p_len = 0\<rparr>"
      using refill_append_space_ok [OF r(1) wf r(2) num assms(2)] by auto
    obtain data m3 where w: "set_length k len m2 = Inr m3" "length data = len"
      "turns (add_tail k ?b) m2 (bl_bytes m2 (add_tail k ?b) @ data) (add_tail k ?b) m3"
      "m_ptrs m3 k = Some \<lparr>p_raw = Some (m_next m), p_off = 0, p_len = len\<rparr>"
      using widen_at_back [OF turnsD(1,2) [OF a(2)] is_back_add_tail _ a(3,4)] by auto
    have "blist_append_hole len b m = Inr ((m_next m, 0), add_tail k ?b, m3)"
      using u True a(1) w(1,4)
      by (simp add: blist_append_hole_def c_str_def ptr_raw_def ptr_at_def)
    moreover have "becomes b m (bl_bytes m b @ data) (add_tail k ?b) m3"
      using turns_trans [OF a(2) w(3)] turnsD(3) [OF a(2)] sum_small [OF assms(1,2)] w(2)
      by (simp add: becomes_def)
    ultimately show ?thesis using w(2) by blast
  next
    case False
    show ?thesis
    proof (cases "tail_cache b")
      case None
      then show ?thesis using False assms(3) by (simp add: u_def)
    next
      case (Some c)
      obtain c' b1 m1 where s: "resync_tail ?b m = Inr (b1, m1)"
        "turns ?b m (bl_bytes m ?b) b1 m1" "tail_cache b1 = Some c'" "is_back b1 c'"
        "room m1 c' = room m c" "b_len b1 = b_len ?b"
        using resync_tail_ok [OF r(1) wf num, of c] Some by auto
      note t1 = turnsD [OF s(2)]
      have fit: "len \<le> room m1 c'" using False Some s(5) by (simp add: u_def)
      obtain p q where p: "m_ptrs m1 c' = Some p" "p_raw p = Some q"
        using wf_nodesD(2) [OF t1(2) wf_nodesD(4) [OF t1(2) s(3)]] unfolding has_raw_def by blast
      obtain data m2 where w: "set_length c' (p_len p + len) m1 = Inr m2" "length data = len"
        "turns b1 m1 (bl_bytes m1 b1 @ data) b1 m2"
        "m_ptrs m2 = (m_ptrs m1)(c' \<mapsto> p\<lparr>p_len := p_len p + len\<rparr>)"
        using widen_at_back [OF t1(1,2) s(4,3) fit p(1)] by blast
      have "add64 (p_len p) len = p_len p + len"
        using wf_ptr_bound [OF turnsD(1) [OF w(3)], of c' _ q] w(4) p(2) by (simp add: arith64)
      then have "blist_append_hole len b m = Inr ((q, p_off p + (p_len p + len) - len), b1, m2)"
        using u False s(1,3) p w(1,4)
        by (simp add: blist_append_hole_def end_c_str_def ptr_raw_def ptr_at_def ptr_length_def)
      moreover have "becomes b m (bl_bytes m b @ data) b1 m2"
        using turns_trans [OF s(2) w(3)] t1(3) s(6) sum_small [OF assms(1,2)] w(2)
        by (simp add: becomes_def)
      ultimately show ?thesis using w(2) by blast
    qed
  qed
qed

subsection \<open>Reserved space\<close>

lemma blist_reserve_ok:
  assumes "ready b m" "n < 2 ^ 62"
  shows "\<exists>b' m'. blist_reserve n b m = Inr (b', m') \<and> becomes b m (bl_bytes m b) b' m' \<and>
    (0 < n \<longrightarrow> (\<exists>c. tail_cache b' = Some c \<and> n \<le> room m' c))"
proof -
  note r = readyD [OF assms(1)]
  define u where "u = (case tail_cache b of None \<Rightarrow> 0 | Some c \<Rightarrow> room m c)"
  have u: "get_append_buffer_unused_tail_length m b = Inr u"
    using unused_tail_room [OF r(1,3)] by (simp add: u_def)
  have num: "length (bufs b) < 2 ^ 63" using r(6) by simp
  show ?thesis
  proof (cases "u < n")
    case True
    obtain data m1 where m1: "create_page_aligned n m = Inr (m_next m, m1)"
      "created (e_page (m_env m)) data m m1" "length data = n"
      using create_page_aligned_ok [OF r(2), of n] assms(2) by auto
    have small: "length data < 2 ^ 63" using assms(2) m1(3) by simp
    obtain k m2 m3 where "ptr_of_raw (m_next m) m1 = Inr (k, m2)" "set_length k 0 m2 = Inr m3"
      "turns b m (bl_bytes m b) (add_tail k b) m3" "room m3 k = length data"
      using link_new_tail [OF r(1,3) num m1(2) small] by blast
    then show ?thesis using u True m1(1,3) r(4)
      by (simp add: blist_reserve_def becomes_def)
  next
    case False
    then have "blist_reserve n b m = Inr (b, m)" using u by (simp add: blist_reserve_def)
    moreover have "\<exists>c. tail_cache b = Some c \<and> n \<le> room m c" if "0 < n"
      using False that by (cases "tail_cache b") (auto simp: u_def)
    ultimately show ?thesis using turns_refl [OF r(1,3)] r(4) by (simp add: becomes_def)
  qed
qed

text \<open>Space of length 0 on a list that has no tail yet: the library aborts.\<close>

lemma no_tail_aborts:
  assumes "tail_cache b = None"
  shows "obtain_contiguous_space 0 b m = Inl Assert_failed"
    "blist_append_hole 0 b m = Inl Assert_failed"
  using assms
  by (simp_all add: obtain_contiguous_space_def blist_append_hole_def resync_tail_def
      get_append_buffer_unused_tail_length_def)

lemma obtain_contiguous_space_ok:
  assumes "ready b m" "len < 2 ^ 62" "0 < len \<or> tail_cache b \<noteq> None"
  shows "\<exists>c p r b' m'. obtain_contiguous_space len b m = Inr ((c, (r, p_off p + p_len p)), b', m') \<and>
    becomes b m (bl_bytes m b) b' m' \<and> tail_cache b' = Some c \<and> is_back b' c \<and>
    len \<le> room m' c \<and> m_ptrs m' c = Some p \<and> p_raw p = Some r"
proof -
  note r = readyD [OF assms(1)]
  define u where "u = (case tail_cache b of None \<Rightarrow> 0 | Some c \<Rightarrow> room m c)"
  have u: "get_append_buffer_unused_tail_length m b = Inr u"
    using unused_tail_room [OF r(1,3)] by (simp add: u_def)
  have num: "length (bufs b) < 2 ^ 63" using r(6) by simp
  show ?thesis
  proof (cases "u < len")
    case True
    obtain data m1 where m1: "create_raw len m = Inr (m_next m, m1)"
      "created 8 data m m1" "length data = len"
      using create_raw_ok [OF r(2), of len] assms(2) by auto
    have small: "length data < 2 ^ 63" using assms(2) m1(3) by simp
    let ?p = "\<lparr>p_raw = Some (m_next m), p_off = 0, p_len = 0\<rparr>"
    obtain k m2 m3 where k: "ptr_of_raw (m_next m) m1 = Inr (k, m2)" "set_length k 0 m2 = Inr m3"
      "turns b m (bl_bytes m b) (add_tail k b) m3" "room m3 k = length data" "m_ptrs m3 k = Some ?p"
      using link_new_tail [OF r(1,3) num m1(2) small] by blast
    then have "obtain_contiguous_space len b m
        = Inr ((k, (m_next m, p_off ?p + p_len ?p)), add_tail k b, m3)"
      using u True m1(1)
      by (simp add: obtain_contiguous_space_def c_str_def ptr_raw_def ptr_at_def)
    then show ?thesis using k(3-5) m1(3) r(4)
      by (intro exI [of _ k] exI [of _ ?p] exI [of _ "m_next m"]) (auto simp: becomes_def)
  next
    case False
    then obtain c where c: "tail_cache b = Some c" using assms(3) by (auto simp: u_def split: option.splits)
    obtain c' b1 m1 where s: "resync_tail b m = Inr (b1, m1)" "turns b m (bl_bytes m b) b1 m1"
      "tail_cache b1 = Some c'" "is_back b1 c'" "room m1 c' = room m c" "b_len b1 = b_len b"
      using resync_tail_ok [OF r(1,3) num c] by auto
    note t1 = turnsD [OF s(2)]
    obtain p q where p: "m_ptrs m1 c' = Some p" "p_raw p = Some q"
      using wf_nodesD(2) [OF t1(2) wf_nodesD(4) [OF t1(2) s(3)]] unfolding has_raw_def by blast
    have "obtain_contiguous_space len b m = Inr ((c', (q, p_off p + p_len p)), b1, m1)"
      using u False s(1,3) p
      by (simp add: obtain_contiguous_space_def end_c_str_def ptr_raw_def ptr_at_def)
    then show ?thesis using s p False c r(4)
      by (intro exI [of _ c'] exI [of _ p] exI [of _ q]) (auto simp: becomes_def u_def)
  qed
qed

subsection \<open>Ranges of a \<^verbatim>\<open>ptr\<close>\<close>

lemma node_bytes_range:
  assumes "wf_mem m" "m_ptrs m i = Some p" "p_raw p = Some r" "m_raws m r = Some w" "off + len \<le> p_len p"
  shows "seg (p_off p + off) len (r_data w) = seg off len (node_bytes m i)"
  using assms by (simp add: node_bytes_def ptr_bytes_def seg_seg)

lemma blist_append_range_ok:
  assumes "ready b m" "m_ptrs m i = Some p" "p_raw p = Some r" "off + len \<le> p_len p" "len < 2 ^ 62"
  shows "\<exists>b' m'. blist_append_range i off len b m = Inr (b', m') \<and>
    becomes b m (bl_bytes m b @ seg off len (node_bytes m i)) b' m'"
proof -
  note rd = readyD [OF assms(1)]
  obtain w where w: "m_raws m r = Some w" "p_off p + p_len p \<le> r_len w" "r_len w < two64" "wf_raw w"
    using wf_ptr_raw [OF wf_flD(1) [OF rd(1)] assms(2,3)] by auto
  let ?bs = "seg off len (node_bytes m i)"
  have len: "length ?bs = len" using length_node_bytes [OF rd(1) assms(2)] assms(4) by simp
  have a: "add64 len off = off + len" "add64 (p_off p) off = p_off p + off"
    using w assms(4) by (simp_all add: arith64)
  have sum: "add64 (b_len b) len = length (bl_bytes m b @ ?bs)"
    using sum_small [OF assms(1,5)] len by simp
  let ?k = "m_next m" and ?q = "\<lparr>p_raw = Some r, p_off = p_off p + off, p_len = len\<rparr>"
  let ?bf = "b\<lparr>bufs := bufs b @ [?k], b_len := add64 (b_len b) len, b_num := add64 (b_num b) 1\<rparr>"
  obtain mf where mf: "ptr_sub i off len m = Inr (?k, mf)" "wf_mem mf" "quiet m mf"
    "m_ptrs mf = (m_ptrs m)(?k \<mapsto> ?q)"
    using ptr_sub_spec [OF rd(1) assms(2-4)] by blast
  have none: "m_ptrs m ?k = None" by (rule wf_core_fresh [OF wf_flD(1) [OF rd(1)]])
  \<comment> \<open>no window reaches behind the tail when the new one lies inside \<open>p\<close>\<close>
  have behind: "len = 0 \<or> p_off p + off + len \<le> p_off t + p_len t"
    if "tail_cache b = Some c" "m_ptrs m c = Some t" "p_raw t = Some r" for c t
  proof (cases "c = i")
    case True
    then show ?thesis using that(2) assms(2,4) by simp
  next
    case False
    then have "p_len p = 0 \<or> p_off p + p_len p \<le> p_off t + p_len t"
      using tail_freeD [OF wf_nodesD(5) [OF rd(3) that(1)] that(2,3) _ assms(2,3)] by auto
    then show ?thesis using assms(4) by auto
  qed
  have fresh: "becomes b m (bl_bytes m b @ ?bs) ?bf mf"
  proof -
    have "turns b m (bl_bytes m b @ node_bytes mf ?k) ?bf mf"
    proof (rule link_fresh [OF rd(1,3) mf(2,3,4) none])
      fix c assume "tail_cache ?bf = Some c"
      then have c: "tail_cache b = Some c" by simp
      have hc: "has_raw m c" by (rule wf_nodesD(2) [OF rd(3) wf_nodesD(4) [OF rd(3) c]])
      have "tail_free mf c"
      proof (rule tail_free_mono [OF wf_nodesD(5) [OF rd(3) c]])
        show "m_ptrs mf c = m_ptrs m c" using mf(4) none hc by (auto simp: has_raw_def)
      next
        fix j q t s
        assume h: "m_ptrs mf j = Some q" "m_ptrs mf j \<noteq> m_ptrs m j" "m_ptrs m c = Some t"
          "p_raw t = Some s" "p_raw q = Some s"
        then have "q = ?q" by (auto simp: mf(4) split: if_splits)
        then show "p_len q = 0 \<or> p_off q + p_len q \<le> p_off t + p_len t"
          using behind [OF c h(3)] h(4,5) by auto
      qed
      then show "c = ?k \<and> tail_free mf ?k \<or> tail_cache b = Some c \<and> tail_free mf c" using c by simp
    qed (use rd(6) in simp_all)
    moreover have "node_bytes mf ?k = ?bs"
    proof -
      obtain w' where w': "m_raws mf r = Some w'"
        using wf_ptr_raw [OF wf_flD(1) [OF mf(2)], of ?k ?q r] by (auto simp: mf(4))
      have "m_next m \<le> r \<or> (\<exists>w. m_raws m r = Some w \<and> same_raw w w')"
        using mf(3) w' unfolding quiet_def by blast
      then have "r_data w' = r_data w"
        using wf_coreD(4) [OF wf_flD(1) [OF rd(1)] w(1)] w(1) by (auto simp: same_raw_sel)
      then show ?thesis using node_bytes_range [OF rd(1) assms(2,3) w(1) assms(4)] w'
        by (simp add: node_bytes_def ptr_bytes_def mf(4))
    qed
    ultimately show ?thesis using sum by (simp add: becomes_def)
  qed
  have goto_fresh: ?thesis if "blist_append_range i off len b m =
      ebind (ptr_sub i off len m) (\<lambda>(k, m).
        Inr (b\<lparr>bufs := bufs b @ [k], b_len := add64 (b_len b) len, b_num := add64 (b_num b) 1\<rparr>, m))"
    using that fresh mf(1) by simp
  show ?thesis
  proof (cases "bufs b = []")
    case True
    then show ?thesis using assms(2,4) a
      by (intro goto_fresh) (simp add: blist_append_range_def ptr_at_def Let_def)
  next
    case False
    let ?l = "last (bufs b)"
    have isb: "is_back b ?l" using False by (simp add: is_back_def)
    obtain t s where t: "m_ptrs m ?l = Some t" "p_raw t = Some s"
      using wf_nodesD(2) [OF rd(3), of ?l] False unfolding has_raw_def by auto
    have bt: "p_off t + p_len t < two64" by (rule wf_ptr_bound [OF rd(1) t])
    show ?thesis
    proof (cases "s = r \<and> p_off t + p_len t = p_off p + off")
      case False
      then show ?thesis using \<open>bufs b \<noteq> []\<close> assms(2-4) a t bt
        by (intro goto_fresh) (auto simp: blist_append_range_def ptr_at_def Let_def ptr_end_def arith64)
    next
      case True
      have fit: "p_off t + (p_len t + len) \<le> r_len w" using True w(2) assms(4) by simp
      have tr: "p_raw t = Some r" using t(2) True by simp
      let ?t = "t\<lparr>p_len := p_len t + len\<rparr>"
      obtain m' where m': "set_length ?l (p_len t + len) m = Inr m'" "wf_mem m'" "quiet m m'"
        "m_raws m' = m_raws m" "m_ptrs m' = (m_ptrs m)(?l \<mapsto> ?t)"
        using set_length_ok [OF rd(1) t(1) tr w(1) fit] by blast
      have keep: "keeps (dom (m_ptrs m) - {?l}) m m'"
        by (rule keeps_wf_fl [OF m'(3) rd(1) m'(2)]) (simp add: m'(5))
      have bytes: "node_bytes m' ?l = node_bytes m ?l @ ?bs"
        using node_bytes_range [OF rd(1) assms(2,3) w(1) assms(4)] True tr t(1) w(1)
        by (simp add: node_bytes_def ptr_bytes_def m'(4,5) seg_append_seg)
      have "turns b m (bl_bytes m b @ ?bs) b m'"
      proof (rule grow_last [OF rd(1,3) m'(2) isb t(1) m'(5) bytes keep])
        fix c assume c: "tail_cache b = Some c"
        note free = wf_nodesD(5) [OF rd(3) c]
        show "tail_free m' c"
        proof (cases "c = ?l")
          case True
          then show ?thesis using free t(1) m'(5) unfolding tail_free_def by fastforce
        next
          case False
          show ?thesis
          proof (rule tail_free_mono [OF free])
            show "m_ptrs m' c = m_ptrs m c" using False m'(5) by simp
          next
            fix j q u v
            assume h: "m_ptrs m' j = Some q" "m_ptrs m' j \<noteq> m_ptrs m j" "m_ptrs m c = Some u"
              "p_raw u = Some v" "p_raw q = Some v"
            then have j: "j = ?l" "q = ?t" using m'(5) by (auto split: if_splits)
            have old: "p_len t = 0 \<or> p_off t + p_len t \<le> p_off u + p_len u"
              using free False h(3-5) j tr t(1) unfolding tail_free_def by auto
            show "p_len q = 0 \<or> p_off q + p_len q \<le> p_off u + p_len u"
              using behind [OF c h(3)] old h(4,5) j tr \<open>s = r \<and> p_off t + p_len t = p_off p + off\<close>
              by auto
          qed
        qed
      qed
      moreover have "blist_append_range i off len b m = Inr (b\<lparr>b_len := add64 (b_len b) len\<rparr>, m')"
      proof -
        have "add64 (p_len t) len = p_len t + len" using fit w(3) by (simp add: arith64)
        then show ?thesis using \<open>bufs b \<noteq> []\<close> assms(2-4) a t bt True m'(1)
          by (simp add: blist_append_range_def ptr_at_def Let_def ptr_end_def arith64)
      qed
      ultimately show ?thesis using sum by (auto simp: becomes_def)
    qed
  qed
qed

end
