(* ===== verification/Buffer_Cut.thy ===== *)
theory Buffer_Cut
  imports Buffer_Read Buffer_Append_Ops
begin

text \<open>
  Rebuilding, \<^verbatim>\<open>c_str\<close>, \<^verbatim>\<open>substr_of\<close> and \<^verbatim>\<open>splice\<close> keep the contract: a rebuilt list shows the
  same bytes in one piece, a sublist shows its range, and a splice takes exactly a range out.
\<close>

subsection \<open>Rebuilding\<close>

definition alone :: "mem \<Rightarrow> nat \<Rightarrow> nat \<Rightarrow> bool" where
  "alone m nb r \<longleftrightarrow> (\<forall>j q. m_ptrs m j = Some q \<longrightarrow> p_raw q = Some r \<longrightarrow> j = nb)"

lemma alone_tail_free:
  assumes "alone m nb r" "m_ptrs m nb = Some p" "p_raw p = Some r"
  shows "tail_free m nb"
  using assms unfolding tail_free_def alone_def by (metis option.inject)

lemma cat_bytes_keeps:
  "keeps I m m' \<Longrightarrow> set is \<subseteq> I \<Longrightarrow> cat_bytes m' is = cat_bytes m is"
  unfolding cat_bytes_def by (intro concat_map_eq) (auto simp: keeps_def)

lemma write_at_join:
  assumes "pos + length xs + length ys \<le> length zs"
  shows "write_at (pos + length xs) ys (write_at pos xs zs) = write_at pos (xs @ ys) zs"
  using write_at_write_at_adj [OF assms] .

lemma copy_nodes_in_ok:
  assumes "wf_mem m" "\<forall>i \<in> set is. has_raw m i" "nb \<notin> set is"
    and "m_ptrs m nb = Some p" "p_raw p = Some r" "alone m nb r"
    and "pos + length (cat_bytes m is) \<le> p_len p"
  shows "\<exists>m'. copy_nodes_in nb pos is m = Inr m' \<and> wf_mem m' \<and> m_ptrs m' = m_ptrs m \<and>
    m_next m' = m_next m \<and> m_env m' = m_env m \<and>
    node_bytes m' nb = write_at pos (cat_bytes m is) (node_bytes m nb) \<and>
    keeps (dom (m_ptrs m) - {nb}) m m'"
  using assms
proof (induction "is" arbitrary: m pos)
  case (Cons i js)
  note wf = Cons.prems(1)
  let ?x = "node_bytes m i"
  have i: "ptr_read m i = Inr ?x" using ptr_read_bytes [OF wf] Cons.prems(2) by simp
  have fit: "pos + length ?x \<le> p_len p" using Cons.prems(7) by simp
  have lt: "add64 pos (length ?x) = pos + length ?x"
    using fit wf_ptr_bound [OF wf Cons.prems(4,5)] by (simp add: arith64)
  obtain m1 where m1: "ptr_copy_in nb pos ?x False m = Inr m1" "wf_mem m1" "m_ptrs m1 = m_ptrs m"
    "m_next m1 = m_next m" "m_env m1 = m_env m"
    "node_bytes m1 nb = write_at pos ?x (node_bytes m nb)"
    and k: "\<And>I. \<forall>j\<in>I. \<forall>q. m_ptrs m j = Some q \<longrightarrow> clear_of r (p_off p + pos) (length ?x) q \<Longrightarrow>
      keeps I m m1"
    using ptr_copy_in_ok [OF wf Cons.prems(4,5) fit, of False] by blast
  have keep: "keeps (dom (m_ptrs m) - {nb}) m m1"
    by (rule k) (use Cons.prems(6) in \<open>auto simp: alone_def clear_of_def\<close>)
  have sub: "set js \<subseteq> dom (m_ptrs m) - {nb}" using Cons.prems(2,3) by (auto simp: has_raw_def)
  have cat: "cat_bytes m1 js = cat_bytes m js" by (rule cat_bytes_keeps [OF keep sub])
  have "\<exists>m'. copy_nodes_in nb (pos + length ?x) js m1 = Inr m' \<and> wf_mem m' \<and> m_ptrs m' = m_ptrs m1 \<and>
    m_next m' = m_next m1 \<and> m_env m' = m_env m1 \<and>
    node_bytes m' nb = write_at (pos + length ?x) (cat_bytes m1 js) (node_bytes m1 nb) \<and>
    keeps (dom (m_ptrs m1) - {nb}) m1 m'"
  proof (rule Cons.IH [OF m1(2)])
    show "\<forall>i \<in> set js. has_raw m1 i" using Cons.prems(2) m1(3) by (simp add: has_raw_def)
    show "nb \<notin> set js" using Cons.prems(3) by simp
    show "m_ptrs m1 nb = Some p" using Cons.prems(4) m1(3) by simp
    show "p_raw p = Some r" by (rule Cons.prems(5))
    show "alone m1 nb r" using Cons.prems(6) m1(3) by (simp add: alone_def)
    show "pos + length ?x + length (cat_bytes m1 js) \<le> p_len p"
      using Cons.prems(7) cat by simp
  qed
  then obtain m' where m': "copy_nodes_in nb (pos + length ?x) js m1 = Inr m'" "wf_mem m'"
    "m_ptrs m' = m_ptrs m1" "m_next m' = m_next m1" "m_env m' = m_env m1"
    "node_bytes m' nb = write_at (pos + length ?x) (cat_bytes m1 js) (node_bytes m1 nb)"
    "keeps (dom (m_ptrs m1) - {nb}) m1 m'"
    by blast
  have "node_bytes m' nb = write_at pos (cat_bytes m (i # js)) (node_bytes m nb)"
    using write_at_join [of pos ?x "cat_bytes m js" "node_bytes m nb"] Cons.prems(7)
      length_node_bytes [OF wf Cons.prems(4)] by (simp add: m'(6) m1(6) cat)
  moreover have "keeps (dom (m_ptrs m) - {nb}) m m'"
    using keeps_trans [OF keep] m'(7) m1(3) by simp
  moreover have "copy_nodes_in nb pos (i # js) m = Inr m'" using i m1(1) m'(1) lt by simp
  ultimately show ?case using m'(2-5) m1(3-5) by (intro exI [of _ m']) simp
qed auto

lemma rebuild_with_ok:
  assumes wf: "wf_mem m" "wf_nodes m b" and nb: "nb \<notin> set (bufs b)" "m_ptrs m nb = Some p"
    "p_raw p = Some r" "alone m nb r" and len: "p_len p = length (bl_bytes m b)" "p_len p \<noteq> 0"
  shows "\<exists>b' m'. rebuild_with nb b m = Inr (b', m') \<and> wf_mem m' \<and> wf_nodes m' b' \<and>
    bl_bytes m' b' = bl_bytes m b \<and> bufs b' = [nb] \<and> tail_cache b' = Some nb \<and> b_len b' = b_len b \<and>
    m_ptrs m' = (\<lambda>i. if i \<in> set (bufs b) then None else m_ptrs m i) \<and>
    keeps (dom (m_ptrs m) - insert nb (set (bufs b))) m m' \<and> m_next m' = m_next m"
proof -
  have raws: "\<forall>i \<in> set (bufs b). has_raw m i" using wf_nodesD(2) [OF wf(2)] by blast
  have fit: "0 + length (cat_bytes m (bufs b)) \<le> p_len p" using len(1) by (simp add: bl_bytes_cat)
  obtain m1 where m1: "copy_nodes_in nb 0 (bufs b) m = Inr m1" "wf_mem m1" "m_ptrs m1 = m_ptrs m"
    "m_next m1 = m_next m" "node_bytes m1 nb = write_at 0 (cat_bytes m (bufs b)) (node_bytes m nb)"
    "keeps (dom (m_ptrs m) - {nb}) m m1"
    using copy_nodes_in_ok [OF wf(1) raws nb fit] by blast
  have full: "node_bytes m1 nb = bl_bytes m b"
    using m1(5) length_node_bytes [OF wf(1) nb(2)] len(1) by (simp add: write_at_def bl_bytes_cat)
  have sub: "set (bufs b) \<subseteq> dom (m_ptrs m1)" using wf_nodesD(6) [OF wf(2)] m1(3) by simp
  obtain m2 where m2: "clear_and_dispose (bufs b) m1 = Inr m2" "wf_mem m2" "quiet m1 m2"
    "m_ptrs m2 = (\<lambda>i. if i \<in> set (bufs b) then None else m_ptrs m1 i)" "m_next m2 = m_next m1"
    using clear_and_dispose_spec [OF m1(2) wf_nodesD(1) [OF wf(2)] sub] by blast
  have k2: "keeps (dom (m_ptrs m) - set (bufs b)) m1 m2"
    by (rule keeps_wf_fl [OF m2(3) m1(2) m2(2)]) (simp add: m2(4))
  have p2: "m_ptrs m2 nb = Some p" using m2(4) m1(3) nb(1,2) by simp
  have b2: "node_bytes m2 nb = bl_bytes m b"
    using keepsD(2) [OF k2, of nb] nb(1,2) full by auto
  let ?b = "b\<lparr>bufs := [nb], tail_cache := Some nb, b_num := 1\<rparr>" and ?m = "raw_invalidate_crc r m2"
  note inv = wf_invalidate [OF m2(2), of r]
  have "rebuild_with nb b m = Inr (?b, ?m)"
    using m1(1) m2(1) p2 len(2) nb(3)
    by (simp add: rebuild_with_def ptr_length_def ptr_at_def invalidate_crc_def Let_def)
  moreover have "alone ?m nb r"
    using nb(4) m2(4) m1(3) inv(3) by (simp add: alone_def)
  then have "tail_free ?m nb" by (rule alone_tail_free) (use p2 nb(3) inv(3) in simp_all)
  then have "wf_nodes ?m ?b" using p2 nb(3) inv(3) by (simp add: wf_nodes_def has_raw_def)
  moreover have "bl_bytes ?m ?b = bl_bytes m b"
    using b2 inv(2,3) p2 by (simp add: bl_bytes_def node_bytes_def)
  moreover have "keeps (dom (m_ptrs m) - insert nb (set (bufs b))) m ?m"
  proof -
    have "keeps (dom (m_ptrs m) - insert nb (set (bufs b))) m m1"
      by (rule keeps_mono [OF m1(6)]) auto
    moreover have "keeps (dom (m_ptrs m) - insert nb (set (bufs b))) m1 m2"
      by (rule keeps_mono [OF k2]) auto
    ultimately show ?thesis using keeps_invalidate [OF m2(2)] keeps_trans by blast
  qed
  moreover have "m_ptrs ?m = (\<lambda>i. if i \<in> set (bufs b) then None else m_ptrs m i)"
    using inv(3) m2(4) unfolding m1(3) by simp
  ultimately show ?thesis using inv(1,4) m2(5) m1(4)
    by (intro exI [of _ ?b] exI [of _ ?m]) simp
qed

lemma fresh_ptr_alone:
  assumes "wf_mem m" "fresh_ptr al data m m'"
  shows "alone m' (Suc (m_next m)) (m_next m)"
proof -
  have "p_raw q \<noteq> Some (m_next m)" if "m_ptrs m j = Some q" for j q
    using that wf_core_fresh(3) [OF wf_flD(1) [OF assms(1)]] by (auto simp: refset_def)
  then show ?thesis using assms(2) by (auto simp: alone_def fresh_ptr_def split: if_splits)
qed

text \<open>No object got a window of a raw that was there before.\<close>

definition old_windows :: "mem \<Rightarrow> mem \<Rightarrow> bool" where
  "old_windows m m' \<longleftrightarrow> (\<forall>j q r. m_ptrs m' j = Some q \<longrightarrow> p_raw q = Some r \<longrightarrow> r < m_next m \<longrightarrow> m_ptrs m j = Some q)"

lemma blist_rebuild_ok:
  assumes "ready b m"
  shows "\<exists>b' m'. blist_rebuild b m = Inr (b', m') \<and> becomes b m (bl_bytes m b) b' m' \<and>
    length (bufs b') \<le> 1 \<and> (b_len b \<noteq> 0 \<longrightarrow> length (bufs b') = 1) \<and>
    (b_len b = 0 \<longrightarrow> bufs b' = []) \<and> old_windows m m'"
proof (cases "b_len b = 0")
  case True
  note r = readyD [OF assms]
  obtain m' where m': "clear_and_dispose (bufs b) m = Inr m'" "becomes b m [] blist_new m'"
    "m_ptrs m' = (\<lambda>i. if i \<in> set (bufs b) then None else m_ptrs m i)"
    using blist_clear_ok [OF r(1,3)] by blast
  have "old_windows m m'" by (simp add: old_windows_def m'(3))
  let ?b = "b\<lparr>bufs := [], tail_cache := None, b_num := 0\<rparr>"
  have eq: "?b = blist_new" using True by (simp add: blist_new_def)
  have "blist_rebuild b m = Inr (?b, m')" using True m'(1) by (simp add: blist_rebuild_def)
  then show ?thesis using m'(2) r(4) True \<open>old_windows m m'\<close> unfolding eq by (simp add: blist_new_def)
next
  case False
  note r = readyD [OF assms]
  have small: "b_len b < 2 ^ 63" using r(5) by simp
  obtain al data m1 where c: "(if b_len b AND (e_page (m_env m) - 1) = 0
              then create_page_aligned (b_len b) m
              else create_raw (b_len b) m) = Inr (m_next m, m1)"
    "created al data m m1" "length data = b_len b"
    using create_page_aligned_ok [OF r(2) small] create_raw_ok [OF r(2) small] by metis
  have lt: "length data < two64" using c(3) small by (simp add: two64_def)
  obtain m2 where m2: "ptr_of_raw (m_next m) m1 = Inr (Suc (m_next m), m2)"
    "fresh_ptr al data m m2" "wf_mem m2" "quiet m m2"
    using created_ptr_of_raw [OF c(2) r(1) lt] by blast
  let ?k = "Suc (m_next m)" and ?p = "\<lparr>p_raw = Some (m_next m), p_off = 0, p_len = length data\<rparr>"
  have none: "m_ptrs m ?k = None" by (rule fresh_ptr_frees(1) [OF r(1) m2(2)])
  have p: "m_ptrs m2 = (m_ptrs m)(?k \<mapsto> ?p)" using m2(2) by (simp add: fresh_ptr_def)
  have sub: "set (bufs b) \<subseteq> dom (m_ptrs m)" by (rule wf_nodesD(6) [OF r(3)])
  have k2: "keeps (dom (m_ptrs m)) m m2"
    by (rule keeps_wf_fl [OF m2(4) r(1) m2(3)]) (use p none in \<open>auto simp: domIff\<close>)
  have kin: "?k \<notin> set (bufs b)" using sub none by auto
  have raw2: "has_raw m2 i" if "i \<in> set (bufs b)" for i
    using has_raw_keeps [OF k2 subsetD [OF sub that]] wf_nodesD(2) [OF r(3) that] by simp
  have nodes2: "wf_nodes m2 b"
    using r(3) fresh_ptr_frees(3) [OF r(1) m2(2)] raw2 by (auto simp: wf_nodes_def)
  have bytes2: "bl_bytes m2 b = bl_bytes m b" by (rule bl_bytes_keeps [OF k2 sub])
  obtain b' m' where m': "rebuild_with ?k b m2 = Inr (b', m')" "wf_mem m'" "wf_nodes m' b'"
    "bl_bytes m' b' = bl_bytes m2 b" "bufs b' = [?k]" "b_len b' = b_len b"
    "m_ptrs m' = (\<lambda>i. if i \<in> set (bufs b) then None else m_ptrs m2 i)"
    "keeps (dom (m_ptrs m2) - insert ?k (set (bufs b))) m2 m'"
    using rebuild_with_ok [OF m2(3) nodes2 kin _ _ fresh_ptr_alone [OF r(1) m2(2)], of ?p]
      p c(3) r(4) False bytes2 by auto
  have "others m' b' = others m b"
    using none by (auto simp: others_def m'(5,7) p split: if_splits)
  moreover have "keeps (others m b) m m'"
  proof (rule keeps_trans)
    show "keeps (others m b) m m2" by (rule keeps_mono [OF k2]) (auto simp: others_def)
    show "keeps (others m b) m2 m'"
      by (rule keeps_mono [OF m'(8)]) (use p none in \<open>auto simp: others_def\<close>)
  qed
  ultimately have "becomes b m (bl_bytes m b) b' m'"
    using m'(2-4,6) bytes2 r(4) by (simp add: becomes_def turns_def)
  moreover have "blist_rebuild b m = Inr (b', m')"
    using False c(1) m2(1) m'(1) by (simp add: blist_rebuild_def)
  moreover have "old_windows m m'" using p by (auto simp: old_windows_def m'(7) split: if_splits)
  ultimately show ?thesis using m'(5) False by simp
qed

end
