(* ===== verification/Buffer_Substr.thy ===== *)
theory Buffer_Substr
  imports Buffer_Cut
begin

text \<open>
  \<^verbatim>\<open>substr_of\<close> builds a list of windows into another list's memory: it shows exactly the range
  asked for when the range ends before the other list does.
\<close>

subsection \<open>New windows into old memory\<close>

definition shares :: "mem \<Rightarrow> mem \<Rightarrow> bool" where
  "shares m m' \<longleftrightarrow> (\<forall>j q. m_ptrs m' j = Some q \<longrightarrow> p_raw q \<noteq> None \<longrightarrow>
     (\<exists>j' q'. m_ptrs m j' = Some q' \<and> p_raw q' = p_raw q \<and>
        p_off q' \<le> p_off q \<and> p_off q + p_len q \<le> p_off q' + p_len q'))"

definition extends :: "mem \<Rightarrow> mem \<Rightarrow> nat list \<Rightarrow> bool" where
  "extends m m' ks \<longleftrightarrow> wf_mem m' \<and> distinct ks \<and> set ks \<inter> dom (m_ptrs m) = {} \<and>
     dom (m_ptrs m') = dom (m_ptrs m) \<union> set ks \<and> (\<forall>k \<in> set ks. has_raw m' k) \<and>
     keeps (dom (m_ptrs m)) m m' \<and> shares m m'"

lemma sharesD:
  assumes "shares m m'" "m_ptrs m' j = Some q" "p_raw q = Some r"
  obtains j' q' where "m_ptrs m j' = Some q'" "p_raw q' = Some r"
    "p_off q' \<le> p_off q" "p_off q + p_len q \<le> p_off q' + p_len q'"
  using assms unfolding shares_def by (metis option.distinct(1))

lemma shares_trans:
  assumes "shares m m1" "shares m1 m2"
  shows "shares m m2"
  unfolding shares_def
proof (intro allI impI)
  fix j q assume "m_ptrs m2 j = Some q" "p_raw q \<noteq> None"
  then obtain j1 q1 where 1: "m_ptrs m1 j1 = Some q1" "p_raw q1 = p_raw q"
    "p_off q1 \<le> p_off q" "p_off q + p_len q \<le> p_off q1 + p_len q1"
    using assms(2) unfolding shares_def by blast
  then obtain j' q' where 2: "m_ptrs m j' = Some q'" "p_raw q' = p_raw q1"
    "p_off q' \<le> p_off q1" "p_off q1 + p_len q1 \<le> p_off q' + p_len q'"
    using assms(1) \<open>p_raw q \<noteq> None\<close> unfolding shares_def by metis
  show "\<exists>j' q'. m_ptrs m j' = Some q' \<and> p_raw q' = p_raw q \<and>
        p_off q' \<le> p_off q \<and> p_off q + p_len q \<le> p_off q' + p_len q'"
    by (rule exI [of _ j'], rule exI [of _ q']) (use 1 2 in simp)
qed

lemma extends_refl: "wf_mem m \<Longrightarrow> extends m m []"
  by (auto simp: extends_def shares_def)

lemma extends_trans:
  assumes "extends m m1 ks" "extends m1 m2 ls"
  shows "extends m m2 (ks @ ls)"
proof -
  have "has_raw m2 k" if "k \<in> set ks" for k
  proof -
    have "k \<in> dom (m_ptrs m1)" using that assms(1) by (auto simp: extends_def)
    then have "has_raw m2 k = has_raw m1 k"
      using assms(2) has_raw_keeps [of "dom (m_ptrs m1)" m1 m2 k] by (simp add: extends_def)
    then show ?thesis using that assms(1) by (simp add: extends_def)
  qed
  moreover have "keeps (dom (m_ptrs m)) m m2"
  proof (rule keeps_trans)
    show "keeps (dom (m_ptrs m)) m m1" using assms(1) by (simp add: extends_def)
    show "keeps (dom (m_ptrs m)) m1 m2"
      by (rule keeps_mono [of "dom (m_ptrs m1)"]) (use assms in \<open>simp_all add: extends_def\<close>)
  qed
  moreover have "shares m m2"
    using assms by (auto simp: extends_def intro: shares_trans)
  ultimately show ?thesis using assms unfolding extends_def by auto
qed

lemma shares_tail_free:
  assumes "shares m m'" "m_ptrs m' c = m_ptrs m c" "tail_free m c"
  shows "tail_free m' c"
  unfolding tail_free_def
proof (intro allI impI)
  fix p r j q
  assume h: "m_ptrs m' c = Some p" "p_raw p = Some r" "j \<noteq> c" "m_ptrs m' j = Some q"
    "p_raw q = Some r"
  obtain j' q' where q': "m_ptrs m j' = Some q'" "p_raw q' = Some r"
    "p_off q' \<le> p_off q" "p_off q + p_len q \<le> p_off q' + p_len q'"
    by (rule sharesD [OF assms(1) h(4,5)])
  have p: "m_ptrs m c = Some p" using assms(2) h(1) by simp
  show "p_len q = 0 \<or> p_off q + p_len q \<le> p_off p + p_len p"
  proof (cases "j' = c")
    case True
    then show ?thesis using p q' by simp
  next
    case False
    then show ?thesis using tail_freeD [OF assms(3) p h(2) False q'(1,2)] q'(3,4) by linarith
  qed
qed

lemma wf_list_shares:
  assumes "shares m m'" "keeps (set (bufs b)) m m'" "wf_list m b"
  shows "wf_list m' b" "bl_bytes m' b = bl_bytes m b"
proof -
  note wf = wf_listD(1) [OF assms(3)]
  show b: "bl_bytes m' b = bl_bytes m b" by (rule bl_bytes_keeps [OF assms(2)]) simp
  have "has_raw m' i" if "i \<in> set (bufs b)" for i
    using has_raw_keeps [OF assms(2) that] wf_nodesD(2) [OF wf that] by simp
  moreover have "tail_free m' c" if "tail_cache b = Some c" for c
    using shares_tail_free [OF assms(1) keepsD(1) [OF assms(2) wf_nodesD(4) [OF wf that]]]
      wf_nodesD(5) [OF wf that] .
  ultimately show "wf_list m' b"
    using b assms(3) wf_nodesD(1,3,4) [OF wf] by (simp add: wf_list_def wf_nodes_def)
qed

lemma extends_wf_list:
  assumes "extends m m' ks" "wf_list m b"
  shows "wf_list m' b" "bl_bytes m' b = bl_bytes m b"
proof -
  have "keeps (set (bufs b)) m m'"
    by (rule keeps_mono [of "dom (m_ptrs m)"])
      (use assms(1) wf_nodesD(6) [OF wf_listD(1) [OF assms(2)]] in \<open>auto simp: extends_def\<close>)
  moreover have "shares m m'" using assms(1) by (simp add: extends_def)
  ultimately show "wf_list m' b" "bl_bytes m' b = bl_bytes m b"
    using wf_list_shares assms(2) by blast+
qed

lemma extends_cat:
  assumes "extends m m' ks" "\<forall>i \<in> set is. has_raw m i"
  shows "cat_bytes m' is = cat_bytes m is" "\<forall>i \<in> set is. has_raw m' i"
proof -
  have sub: "set is \<subseteq> dom (m_ptrs m)" using assms(2) by (auto simp: has_raw_def)
  have k: "keeps (dom (m_ptrs m)) m m'" using assms(1) by (simp add: extends_def)
  show "cat_bytes m' is = cat_bytes m is" by (rule cat_bytes_keeps [OF k sub])
  show "\<forall>i \<in> set is. has_raw m' i" using has_raw_keeps [OF k] sub assms(2) by blast
qed

lemma ptr_sub_extends:
  assumes "wf_mem m" "has_raw m i" "off + len \<le> length (node_bytes m i)"
  shows "\<exists>m'. ptr_sub i off len m = Inr (m_next m, m') \<and> extends m m' [m_next m] \<and>
    node_bytes m' (m_next m) = seg off len (node_bytes m i)"
proof -
  obtain p r where p: "m_ptrs m i = Some p" "p_raw p = Some r"
    using assms(2) unfolding has_raw_def by blast
  have fit: "off + len \<le> p_len p" using assms(3) length_node_bytes [OF assms(1) p(1)] by simp
  let ?q = "\<lparr>p_raw = Some r, p_off = p_off p + off, p_len = len\<rparr>" and ?k = "m_next m"
  obtain m' where m': "ptr_sub i off len m = Inr (?k, m')" "wf_mem m'" "quiet m m'"
    "m_ptrs m' = (m_ptrs m)(?k \<mapsto> ?q)"
    using ptr_sub_spec [OF assms(1) p fit] by blast
  have none: "m_ptrs m ?k = None" by (rule wf_core_fresh [OF wf_flD(1) [OF assms(1)]])
  have k: "keeps (dom (m_ptrs m)) m m'"
    by (rule keeps_wf_fl [OF m'(3) assms(1) m'(2)]) (use m'(4) none in auto)
  have "shares m m'"
    unfolding shares_def
  proof (intro allI impI)
    fix j q assume j: "m_ptrs m' j = Some q"
    show "\<exists>j' q'. m_ptrs m j' = Some q' \<and> p_raw q' = p_raw q \<and>
        p_off q' \<le> p_off q \<and> p_off q + p_len q \<le> p_off q' + p_len q'"
    proof (cases "j = ?k")
      case True
      then have "q = ?q" using j m'(4) by simp
      then show ?thesis using p fit by (intro exI [of _ i] exI [of _ p]) simp
    next
      case False
      then show ?thesis using j m'(4) by (intro exI [of _ j] exI [of _ q]) simp
    qed
  qed
  then have "extends m m' [?k]"
    using m'(2,4) none k by (auto simp: extends_def has_raw_def)
  moreover have "node_bytes m' ?k = seg off len (node_bytes m i)"
  proof -
    have "m_ptrs m' i = Some p" using p(1) none by (auto simp: m'(4))
    then have "wf_ptr m' p" by (rule wf_coreD(3) [OF wf_flD(1) [OF m'(2)]])
    then have same: "ptr_bytes m' p = ptr_bytes m p"
      by (rule ptr_bytes_quiet [OF m'(3) wf_flD(1) [OF assms(1)] p(1)])
    obtain w where w: "m_raws m' r = Some w"
      using \<open>wf_ptr m' p\<close> p(2) by (auto simp: wf_ptr_def)
    have "node_bytes m' ?k = seg (p_off p + off) len (r_data w)"
      using m'(4) w by (simp add: node_bytes_def ptr_bytes_def)
    also have "\<dots> = seg off len (ptr_bytes m' p)" using p(2) w fit by (simp add: ptr_bytes_def seg_seg)
    finally show ?thesis using same p(1) by (simp add: node_bytes_def)
  qed
  ultimately show ?thesis using m'(1) by blast
qed

subsection \<open>The range\<close>

lemma substr_skip_ok:
  assumes "wf_mem m" "\<forall>i \<in> set is. has_raw m i" "off < length (cat_bytes m is)" "off < two64"
  shows "\<exists>off' cur. substr_skip m off is = Inr (off', cur) \<and> cur \<noteq> [] \<and> (\<exists>pre. is = pre @ cur) \<and>
    off' \<le> length (node_bytes m (hd cur)) \<and> drop off' (cat_bytes m cur) = drop off (cat_bytes m is)"
  using assms(2-)
proof (induction "is" arbitrary: off)
  case (Cons i js)
  let ?x = "node_bytes m i"
  have n: "ptr_length m i = Inr (length ?x)" using ptr_length_bytes [OF assms(1)] Cons.prems(1) by simp
  show ?case
  proof (cases "off > 0 \<and> off \<ge> length ?x")
    case False
    then have "substr_skip m off (i # js) = Inr (off, i # js)" using n by auto
    then show ?thesis using False by auto
  next
    case True
    have d: "sub64 off (length ?x) = off - length ?x"
      using True Cons.prems(3) by (simp add: arith64)
    have "\<exists>off' cur. substr_skip m (off - length ?x) js = Inr (off', cur) \<and> cur \<noteq> [] \<and>
      (\<exists>pre. js = pre @ cur) \<and> off' \<le> length (node_bytes m (hd cur)) \<and>
      drop off' (cat_bytes m cur) = drop (off - length ?x) (cat_bytes m js)"
      by (rule Cons.IH) (use Cons.prems True in auto)
    then obtain off' cur pre where IH: "substr_skip m (off - length ?x) js = Inr (off', cur)" "cur \<noteq> []"
      "js = pre @ cur" "off' \<le> length (node_bytes m (hd cur))"
      "drop off' (cat_bytes m cur) = drop (off - length ?x) (cat_bytes m js)"
      by blast
    have "substr_skip m off (i # js) = Inr (off', cur)" using True n d IH(1) by simp
    moreover have "drop off' (cat_bytes m cur) = drop off (cat_bytes m (i # js))"
      using True IH(5) by simp
    moreover have "i # js = (i # pre) @ cur" using IH(3) by simp
    ultimately show ?thesis using IH(2,4) by blast
  qed
qed simp

lemma seg_append:
  assumes "off \<le> length xs" "length xs - off \<le> len"
  shows "seg off len (xs @ ys) = seg off (length xs - off) xs @ seg 0 (len - (length xs - off)) ys"
  using assms by (simp add: seg_def)

lemma substr_take_ok:
  assumes "wf_mem m" "\<forall>i \<in> set is. has_raw m i" "off + len < length (cat_bytes m is)"
    and "is \<noteq> [] \<Longrightarrow> off \<le> length (node_bytes m (hd is))"
    and "b_len b + len < two64" "b_num b + length is < two64" "off + len < two64"
  shows "\<exists>ks m'. substr_take off len is b m = Inr (b\<lparr>bufs := bufs b @ ks, b_len := b_len b + len,
      b_num := b_num b + length ks\<rparr>, m') \<and> extends m m' ks \<and> cat_bytes m' ks = seg off len (cat_bytes m is)"
  using assms
proof (induction "is" arbitrary: off len b m)
  case (Cons i js)
  let ?x = "node_bytes m i" and ?k = "m_next m"
  note wf = Cons.prems(1)
  have i: "has_raw m i" "\<forall>j \<in> set js. has_raw m j" and oi: "off \<le> length ?x"
    using Cons.prems(2,4) by auto
  note n = ptr_length_bytes [OF wf i(1)]
  have num: "add64 (b_num b) 1 = b_num b + 1" using Cons.prems(6) by (simp add: arith64)
  show ?case
  proof (cases "off + len < length ?x")
    case True
    have a: "add64 off len = off + len" "add64 (b_len b) len = b_len b + len"
      using True n(2) Cons.prems(5) by (simp_all add: arith64)
    obtain m' where m': "ptr_sub i off len m = Inr (?k, m')" "extends m m' [?k]"
      "node_bytes m' ?k = seg off len ?x"
      using ptr_sub_extends [OF wf i(1), of off len] True by auto
    have "substr_take off len (i # js) b m = Inr (b\<lparr>bufs := bufs b @ [?k], b_len := b_len b + len,
        b_num := b_num b + length [?k]\<rparr>, m')"
      using True n(1) a num m'(1) by simp
    moreover have "cat_bytes m' [?k] = seg off len (cat_bytes m (i # js))"
      using m'(3) True by (simp add: seg_def)
    ultimately show ?thesis using m'(2) by blast
  next
    case False
    let ?c = "length ?x - off"
    have c: "?c \<le> len" using False by simp
    have big: "off + len < two64" "len < two64" using Cons.prems(5,7) oi n(2) by simp_all
    have a: "add64 off len = off + len" "sub64 (length ?x) off = ?c" "sub64 len ?c = len - ?c"
      "add64 (b_len b) ?c = b_len b + ?c"
      using big oi n(2) c Cons.prems(5) by (simp_all add: arith64)
    obtain m1 where m1: "ptr_sub i off ?c m = Inr (?k, m1)" "extends m m1 [?k]"
      "node_bytes m1 ?k = seg off ?c ?x"
      using ptr_sub_extends [OF wf i(1), of off ?c] oi by auto
    note cat = extends_cat [OF m1(2) i(2)]
    let ?b = "b\<lparr>bufs := bufs b @ [?k], b_len := b_len b + ?c, b_num := b_num b + 1\<rparr>"
    have "\<exists>ks m'. substr_take 0 (len - ?c) js ?b m1 = Inr (?b\<lparr>bufs := bufs ?b @ ks,
        b_len := b_len ?b + (len - ?c), b_num := b_num ?b + length ks\<rparr>, m') \<and> extends m1 m' ks \<and>
      cat_bytes m' ks = seg 0 (len - ?c) (cat_bytes m1 js)"
    proof (rule Cons.IH [OF _ cat(2)])
      show "wf_mem m1" using m1(2) by (simp add: extends_def)
      show "0 + (len - ?c) < length (cat_bytes m1 js)" using Cons.prems(3) cat(1) oi c by simp
    qed (use Cons.prems(5,6,7) c in simp_all)
    then obtain ks m' where m': "substr_take 0 (len - ?c) js ?b m1 = Inr (?b\<lparr>bufs := bufs ?b @ ks,
        b_len := b_len ?b + (len - ?c), b_num := b_num ?b + length ks\<rparr>, m')" "extends m1 m' ks"
      "cat_bytes m' ks = seg 0 (len - ?c) (cat_bytes m1 js)"
      by blast
    have "substr_take off len (i # js) b m = Inr (b\<lparr>bufs := bufs b @ ?k # ks, b_len := b_len b + len,
        b_num := b_num b + length (?k # ks)\<rparr>, m')"
      using False n(1) a num m1(1) m'(1) c by (simp add: Let_def)
    moreover have "extends m m' (?k # ks)" using extends_trans [OF m1(2) m'(2)] by simp
    moreover have "cat_bytes m' (?k # ks) = seg off len (cat_bytes m (i # js))"
    proof -
      have "node_bytes m' ?k = node_bytes m1 ?k"
        using keepsD(2) [of "dom (m_ptrs m1)" m1 m' ?k] m1(2) m'(2) by (auto simp: extends_def)
      then show ?thesis using m1(3) m'(3) cat(1) seg_append [OF oi c] by simp
    qed
    ultimately show ?thesis by blast
  qed
qed simp

lemma clear_other:
  assumes "wf_mem m" "wf_nodes m b" "wf_list m other" "apart b other"
  obtains m1 where "blist_clear b m = Inr (blist_new, m1)" "wf_mem m1" "wf_list m1 other"
    "bl_bytes m1 other = bl_bytes m other" "becomes b m [] blist_new m1" "shares m m1"
proof -
  note wfn = wf_listD(1) [OF assms(3)]
  obtain m1 where m1: "blist_clear b m = Inr (blist_new, m1)" "becomes b m [] blist_new m1"
    "m_ptrs m1 = (\<lambda>i. if i \<in> set (bufs b) then None else m_ptrs m i)"
    using blist_clear_ok [OF assms(1,2)] by blast
  have t: "turns b m [] blist_new m1" using m1(2) by (simp add: becomes_def)
  have k: "keeps (set (bufs other)) m m1" by (rule keeps_apart [OF turnsD(5) [OF t] assms(4) wfn])
  have o: "wf_nodes m1 other" "bl_bytes m1 other = bl_bytes m other"
    using wf_nodes_frame [OF wfn k] m1(3) by (metis option.distinct(1))+
  then have "wf_list m1 other" using assms(3) by (simp add: wf_list_def)
  moreover have "shares m m1"
    unfolding shares_def m1(3) by (metis option.distinct(1) order_refl)
  ultimately show ?thesis using that m1(1,2) o(2) turnsD(1) [OF t] by blast
qed

lemma extends_becomes:
  assumes "extends m m' ks" "cat_bytes m' ks = bs"
    and "b' = blist_new\<lparr>bufs := ks, b_len := length bs, b_num := length ks\<rparr>"
  shows "becomes blist_new m bs b' m'"
proof -
  have k: "keeps (others m blist_new) m m'"
    by (rule keeps_mono [of "dom (m_ptrs m)"])
      (use assms(1) in \<open>auto simp: extends_def others_def\<close>)
  have "wf_nodes m' b'"
    using assms(1,3) by (simp add: wf_nodes_def extends_def blist_new_def)
  moreover have "others m' b' = others m blist_new"
    using assms(1,3) by (auto simp: others_def blist_new_def extends_def)
  moreover have "bl_bytes m' b' = bs" using assms(2,3) by (simp add: bl_bytes_cat)
  ultimately show ?thesis using k assms(1,3)
    by (simp add: becomes_def turns_def extends_def)
qed

lemma substr_of_ok:
  assumes wf: "wf_mem m" "wf_nodes m b" "wf_list m other" "apart b other"
    and lim: "off + len < b_len other" "b_len other < two64" "length (bufs other) < two64"
  shows "\<exists>b' m'. substr_of other off len b m = Inr (b', m') \<and>
    becomes b m (seg off len (bl_bytes m other)) b' m' \<and> wf_list m' other \<and>
    bl_bytes m' other = bl_bytes m other \<and> shares m m'"
proof -
  obtain m1 where m1: "blist_clear b m = Inr (blist_new, m1)" "wf_mem m1" "wf_list m1 other"
    "bl_bytes m1 other = bl_bytes m other" "becomes b m [] blist_new m1" "shares m m1"
    using clear_other [OF wf] by blast
  note raws = wf_listD(2) [OF m1(3)] and len = wf_listD(3) [OF m1(3)]
  obtain off' cur pre where s: "substr_skip m1 off (bufs other) = Inr (off', cur)" "cur \<noteq> []"
    "bufs other = pre @ cur" "off' \<le> length (node_bytes m1 (hd cur))"
    "drop off' (cat_bytes m1 cur) = drop off (cat_bytes m1 (bufs other))"
    using substr_skip_ok [OF m1(2) raws, of off] lim len by auto
  have cur: "\<forall>i \<in> set cur. has_raw m1 i" using raws s(3) by simp
  have "length (cat_bytes m1 cur) - off' = length (cat_bytes m1 (bufs other)) - off"
    using arg_cong [OF s(5), of length] by simp
  then have fit: "off' + len < length (cat_bytes m1 cur)" using lim len by simp
  have small: "off' + len < two64" "length cur < two64" using fit lim len s(3) by simp_all
  have seg: "seg off' len (cat_bytes m1 cur) = seg off len (bl_bytes m other)"
    using s(5) m1(4) by (simp add: seg_def bl_bytes_cat)
  have n: "length (seg off len (bl_bytes m other)) = len"
    using lim(1) m1(4) len by (simp add: bl_bytes_cat)
  let ?b = "\<lambda>ks. blist_new\<lparr>bufs := ks, b_len := len, b_num := length ks\<rparr>"
  obtain ks m' where m': "substr_take off' len cur blist_new m1 = Inr (blist_new\<lparr>bufs := bufs blist_new @ ks,
      b_len := b_len blist_new + len, b_num := b_num blist_new + length ks\<rparr>, m')"
    "extends m1 m' ks" "cat_bytes m' ks = seg off' len (cat_bytes m1 cur)"
    using substr_take_ok [OF m1(2) cur fit s(4), of blist_new] small by (auto simp: blist_new_def)
  have new: "bufs blist_new = []" "b_len blist_new = 0" "b_num blist_new = 0"
    by (simp_all add: blist_new_def)
  have t: "becomes blist_new m1 (seg off len (bl_bytes m other)) (?b ks) m'"
    by (rule extends_becomes [OF m'(2)]) (simp_all add: m'(3) seg n)
  have "substr_of other off len b m = Inr (?b ks, m')"
    using m1(1) s(1,2) m'(1) lim by (simp add: substr_of_def arith64 new)
  moreover have "becomes b m (seg off len (bl_bytes m other)) (?b ks) m'"
    using t m1(5) turns_trans [of b m "[]" blist_new m1] by (simp add: becomes_def)
  moreover have "shares m m'" using shares_trans [OF m1(6)] m'(2) by (simp add: extends_def)
  ultimately show ?thesis using extends_wf_list [OF m'(2) m1(3)] m1(4) by auto
qed

text \<open>A range that ends where the other list ends: the loop goes on to read the root as a node.\<close>

lemma substr_take_end:
  assumes "wf_mem m" "\<forall>i \<in> set is. has_raw m i" "off + len = length (cat_bytes m is)"
    and "is \<noteq> [] \<Longrightarrow> off \<le> length (node_bytes m (hd is))" "off + len < two64"
  shows "substr_take off len is b m = Inl Undefined"
  using assms
proof (induction "is" arbitrary: off len b m)
  case (Cons i js)
  let ?x = "node_bytes m i" and ?k = "m_next m"
  note wf = Cons.prems(1)
  have i: "has_raw m i" "\<forall>j \<in> set js. has_raw m j" and oi: "off \<le> length ?x"
    using Cons.prems(2,4) by auto
  let ?c = "length ?x - off"
  note n = ptr_length_bytes [OF wf i(1)]
  have c: "?c \<le> len" "\<not> off + len < length ?x" using Cons.prems(3) by simp_all
  have a: "add64 off len = off + len" "sub64 (length ?x) off = ?c" "sub64 len ?c = len - ?c"
    using oi n(2) c Cons.prems(5) by (simp_all add: arith64)
  obtain m1 where m1: "ptr_sub i off ?c m = Inr (?k, m1)" "extends m m1 [?k]"
    using ptr_sub_extends [OF wf i(1), of off ?c] oi by auto
  note cat = extends_cat [OF m1(2) i(2)]
  have "substr_take 0 (len - ?c) js b1 m1 = Inl Undefined" for b1
  proof (rule Cons.IH [OF _ cat(2)])
    show "wf_mem m1" using m1(2) by (simp add: extends_def)
    show "0 + (len - ?c) = length (cat_bytes m1 js)" using Cons.prems(3) cat(1) oi by simp
  qed (use Cons.prems(5) in simp_all)
  then show ?case using c(2) n(1) a m1(1) by (simp add: Let_def)
qed simp

lemma substr_of_end:
  assumes wf: "wf_mem m" "wf_nodes m b" "wf_list m other" "apart b other"
    and lim: "off + len = b_len other" "len \<noteq> 0" "b_len other < two64"
  shows "substr_of other off len b m = Inl Undefined"
proof -
  obtain m1 where m1: "blist_clear b m = Inr (blist_new, m1)" "wf_mem m1" "wf_list m1 other"
    using clear_other [OF wf] by blast
  note raws = wf_listD(2) [OF m1(3)] and len = wf_listD(3) [OF m1(3)]
  obtain off' cur pre where s: "substr_skip m1 off (bufs other) = Inr (off', cur)" "cur \<noteq> []"
    "bufs other = pre @ cur" "off' \<le> length (node_bytes m1 (hd cur))"
    "drop off' (cat_bytes m1 cur) = drop off (cat_bytes m1 (bufs other))"
    using substr_skip_ok [OF m1(2) raws, of off] lim len by auto
  have cur: "\<forall>i \<in> set cur. has_raw m1 i" using raws s(3) by simp
  have "length (cat_bytes m1 cur) - off' = length (cat_bytes m1 (bufs other)) - off"
    using arg_cong [OF s(5), of length] by simp
  then have fit: "off' + len = length (cat_bytes m1 cur)" using lim len by simp
  have "off' + len < two64" using fit lim len s(3) by simp
  then have "substr_take off' len cur blist_new m1 = Inl Undefined"
    using substr_take_end [OF m1(2) cur fit s(4)] by simp
  then show ?thesis using m1(1) s(1,2) lim by (simp add: substr_of_def arith64)
qed

lemma substr_of_beyond:
  "b_len other < off + len \<Longrightarrow> off + len < two64 \<Longrightarrow> substr_of other off len b m = Inl End_of_buffer"
  by (simp add: substr_of_def arith64)

end
