(* ===== verification/Windows.thy ===== *)
theory Windows
  imports Buffer_Substr
begin

text \<open>
  How far the windows of a raw reach. A list writes behind its cached tail only, so what
  endangers the tails of the others is a window that ends later than all windows of its raw
  did before. \<open>tidy R m m'\<close> says that no such window appeared between the stores \<open>m\<close> and \<open>m'\<close>,
  but on the raws of \<open>R\<close> and on new ones.
\<close>

subsection \<open>Windows\<close>

definition tidy :: "nat set \<Rightarrow> mem \<Rightarrow> mem \<Rightarrow> bool" where
  "tidy R m m' \<longleftrightarrow> m_next m \<le> m_next m' \<and>
     (\<forall>j q r. m_ptrs m' j = Some q \<longrightarrow> p_raw q = Some r \<longrightarrow> p_len q \<noteq> 0 \<longrightarrow> r < m_next m \<longrightarrow> r \<notin> R \<longrightarrow>
        (\<exists>j' q'. m_ptrs m j' = Some q' \<and> p_raw q' = Some r \<and> p_len q' \<noteq> 0 \<and>
           p_off q + p_len q \<le> p_off q' + p_len q'))"

lemma tidyD:
  assumes "tidy R m m'" "m_ptrs m' j = Some q" "p_raw q = Some r" "p_len q \<noteq> 0"
    "r < m_next m" "r \<notin> R"
  obtains j' q' where "m_ptrs m j' = Some q'" "p_raw q' = Some r" "p_len q' \<noteq> 0"
    "p_off q + p_len q \<le> p_off q' + p_len q'"
  using assms unfolding tidy_def by blast

lemma tidy_next: "tidy R m m' \<Longrightarrow> m_next m \<le> m_next m'"
  by (simp add: tidy_def)

text \<open>Every window is one of the old ones.\<close>

lemma tidy_old:
  assumes "m_next m \<le> m_next m'"
    and "\<And>j q. m_ptrs m' j = Some q \<Longrightarrow> p_raw q \<noteq> None \<Longrightarrow> p_len q \<noteq> 0 \<Longrightarrow> \<exists>j'. m_ptrs m j' = Some q"
  shows "tidy R m m'"
  unfolding tidy_def using assms by (metis option.distinct(1) order_refl)

lemma tidy_refl [simp]: "tidy R m m"
  by (rule tidy_old) auto

lemma tidy_same: "m_ptrs m' = m_ptrs m \<Longrightarrow> m_next m \<le> m_next m' \<Longrightarrow> tidy R m m'"
  by (rule tidy_old) auto

lemma tidy_trans:
  assumes "tidy R m m1" "tidy S m1 m2" "\<And>s. s \<in> S \<Longrightarrow> s < m_next m \<Longrightarrow> s \<in> R"
  shows "tidy R m m2"
  unfolding tidy_def
proof (intro conjI allI impI)
  show "m_next m \<le> m_next m2" using tidy_next [OF assms(1)] tidy_next [OF assms(2)] by simp
  fix j q r
  assume h: "m_ptrs m2 j = Some q" "p_raw q = Some r" "p_len q \<noteq> 0" "r < m_next m" "r \<notin> R"
  have "r < m_next m1" "r \<notin> S" using h(4,5) tidy_next [OF assms(1)] assms(3) by auto
  then obtain j1 q1 where 1: "m_ptrs m1 j1 = Some q1" "p_raw q1 = Some r" "p_len q1 \<noteq> 0"
    "p_off q + p_len q \<le> p_off q1 + p_len q1"
    using tidyD [OF assms(2) h(1-3)] by blast
  obtain j' q' where "m_ptrs m j' = Some q'" "p_raw q' = Some r" "p_len q' \<noteq> 0"
    "p_off q1 + p_len q1 \<le> p_off q' + p_len q'"
    using tidyD [OF assms(1) 1(1-3) h(4,5)] by blast
  then show "\<exists>j' q'. m_ptrs m j' = Some q' \<and> p_raw q' = Some r \<and> p_len q' \<noteq> 0 \<and>
      p_off q + p_len q \<le> p_off q' + p_len q'"
    using 1(4) order_trans by blast
qed

lemma tidy_mono: "tidy R m m' \<Longrightarrow> R \<subseteq> S \<Longrightarrow> tidy S m m'"
  unfolding tidy_def by blast

text \<open>One object was set; its window is empty, or on a raw that is not protected.\<close>

lemma tidy_set:
  assumes "m_next m \<le> m_next m'" "m_ptrs m' = (m_ptrs m)(k := Some p)"
    and "p_len p = 0 \<or> (\<forall>r. p_raw p = Some r \<longrightarrow> m_next m \<le> r \<or> r \<in> R)"
  shows "tidy R m m'"
  unfolding tidy_def
proof (intro conjI allI impI)
  show "m_next m \<le> m_next m'" by (rule assms(1))
  fix j q r
  assume h: "m_ptrs m' j = Some q" "p_raw q = Some r" "p_len q \<noteq> 0" "r < m_next m" "r \<notin> R"
  have "j \<noteq> k" using h assms(2,3) by auto
  then have "m_ptrs m j = Some q" using h(1) assms(2) by simp
  then show "\<exists>j' q'. m_ptrs m j' = Some q' \<and> p_raw q' = Some r \<and> p_len q' \<noteq> 0 \<and>
      p_off q + p_len q \<le> p_off q' + p_len q'"
    using h(2,3) by blast
qed

lemma shares_tidy: "shares m m' \<Longrightarrow> m_next m \<le> m_next m' \<Longrightarrow> tidy R m m'"
  unfolding tidy_def
proof (intro conjI allI impI)
  fix j q r
  assume s: "shares m m'" and h: "m_ptrs m' j = Some q" "p_raw q = Some r" "p_len q \<noteq> 0"
  show "\<exists>j' q'. m_ptrs m j' = Some q' \<and> p_raw q' = Some r \<and> p_len q' \<noteq> 0 \<and>
      p_off q + p_len q \<le> p_off q' + p_len q'"
  proof (rule sharesD [OF s h(1,2)])
    fix j' q'
    assume "m_ptrs m j' = Some q'" "p_raw q' = Some r" "p_off q' \<le> p_off q"
      "p_off q + p_len q \<le> p_off q' + p_len q'"
    then show ?thesis using h(3) by (intro exI [of _ j'] exI [of _ q']) auto
  qed
qed

text \<open>What protects the tail of a list that the operation leaves alone.\<close>

lemma tidy_tail_free:
  assumes "tidy R m m'" "tail_free m c" "m_ptrs m' c = m_ptrs m c" "m_ptrs m c = Some p"
    "p_raw p = Some r" "r < m_next m" "r \<notin> R"
  shows "tail_free m' c"
  unfolding tail_free_def
proof (intro allI impI)
  fix p' r' j q
  assume h: "m_ptrs m' c = Some p'" "p_raw p' = Some r'" "j \<noteq> c" "m_ptrs m' j = Some q" "p_raw q = Some r'"
  have eq: "p' = p" "r' = r" using h(1,2) assms(3-5) by auto
  show "p_len q = 0 \<or> p_off q + p_len q \<le> p_off p' + p_len p'"
  proof (cases "p_len q = 0")
    case False
    note nz = this
    have qr: "p_raw q = Some r" using h(5) eq by simp
    obtain j' q' where q': "m_ptrs m j' = Some q'" "p_raw q' = Some r" "p_len q' \<noteq> 0"
      "p_off q + p_len q \<le> p_off q' + p_len q'"
      by (rule tidyD [OF assms(1) h(4) qr nz assms(6,7)])
    have "p_off q' + p_len q' \<le> p_off p + p_len p"
    proof (cases "j' = c")
      case False
      then show ?thesis using tail_freeD [OF assms(2,4,5) False q'(1,2)] q'(3) by simp
    qed (use q'(1) assms(4) in simp)
    then show ?thesis using q'(4) eq by simp
  qed simp
qed

subsection \<open>The raw of a list's tail\<close>

definition tail_raws :: "mem \<Rightarrow> blist \<Rightarrow> nat set" where
  "tail_raws m b = {r. \<exists>c p. tail_cache b = Some c \<and> m_ptrs m c = Some p \<and> p_raw p = Some r}"

lemma tail_raws_len [simp]: "tail_raws m (b\<lparr>b_len := n\<rparr>) = tail_raws m b"
  by (simp add: tail_raws_def)

lemma tail_raws_none: "tail_cache b = None \<Longrightarrow> tail_raws m b = {}"
  by (simp add: tail_raws_def)

lemma tail_raws_same:
  "tail_cache b' = tail_cache b \<Longrightarrow> (\<And>c. tail_cache b = Some c \<Longrightarrow> m_ptrs m' c = m_ptrs m c) \<Longrightarrow>
    tail_raws m' b' = tail_raws m b"
  unfolding tail_raws_def by metis

lemma tail_raws_below: "wf_mem m \<Longrightarrow> tail_raws m b \<subseteq> {..<m_next m}"
  using wf_ptr_raw [OF wf_flD(1), of "{}" m] wf_coreD(4) [OF wf_flD(1), of "{}" m]
  unfolding tail_raws_def by fastforce

lemma ptr_sub_id: "ptr_sub i off len m = Inr (k, m') \<Longrightarrow> k = m_next m"
  by (auto simp: ptr_sub_def obj_new_def raw_ref_def upd_raw_def ebind_Inr_iff split: option.splits)

text \<open>A range of an object is appended: the window that shows it ends inside the object's.\<close>

lemma append_range_tidy:
  assumes "blist_append_range i off len b m = Inr (b', m')"
    and "wf_mem m" "m_ptrs m i = Some p" "p_raw p = Some r" "off + len \<le> p_len p"
    and "wf_nodes m b"
  shows "tidy {} m m'" "tail_raws m' b' = tail_raws m b"
proof -
  have lim: "p_off p + p_len p < two64" by (rule wf_ptr_bound [OF assms(2-4)])
  have a: "add64 len off = off + len" "add64 (p_off p) off = p_off p + off"
    using lim assms(5) by (simp_all add: arith64)
  have none: "m_ptrs m (m_next m) = None" by (rule wf_core_fresh [OF wf_flD(1) [OF assms(2)]])
  consider (fresh) "ptr_sub i off len m = Inr (m_next m, m')" "tail_cache b' = tail_cache b"
    | (grown) t where "bufs b \<noteq> []" "m_ptrs m (last (bufs b)) = Some t" "p_raw t = Some r"
      "ptr_end t = p_off p + off" "set_length (last (bufs b)) (add64 (p_len t) len) m = Inr m'"
      "tail_cache b' = tail_cache b"
    using assms(1,3,4) a ptr_sub_id
    by (auto simp: blist_append_range_def ebind_Inr_iff ptr_at_def Let_def split: if_splits)
  then have "tidy {} m m' \<and> tail_raws m' b' = tail_raws m b"
  proof cases
    case fresh
    obtain m1 where m1: "ptr_sub i off len m = Inr (m_next m, m1)" "extends m m1 [m_next m]"
      using ptr_sub_extends [OF assms(2), of i off len] assms(3-5) length_node_bytes [OF assms(2,3)]
      by (auto simp: has_raw_def)
    then have e: "extends m m' [m_next m]" using fresh(1) by simp
    have k: "keeps (dom (m_ptrs m)) m m'" "shares m m'" using e by (auto simp: extends_def)
    have "m_ptrs m' c = m_ptrs m c" if "tail_cache b = Some c" for c
      using keepsD(1) [OF k(1)] wf_nodesD(4,6) [OF assms(6)] that by blast
    then show ?thesis using shares_tidy [OF k(2)] k(1) tail_raws_same [OF fresh(2)]
      by (auto simp: keeps_def)
  next
    case grown
    let ?l = "last (bufs b)"
    have bt: "p_off t + p_len t < two64" by (rule wf_ptr_bound [OF assms(2) grown(2,3)])
    then have t: "p_off t + p_len t = p_off p + off" using grown(4) by (simp add: ptr_end_def arith64)
    then have n: "add64 (p_len t) len = p_len t + len" using lim assms(5) by (simp add: arith64)
    have p': "m_ptrs m' = (m_ptrs m)(?l \<mapsto> t\<lparr>p_len := p_len t + len\<rparr>)" "m_next m' = m_next m"
      using grown(2,5) n by (auto simp: set_length_def ebind_Inr_iff ptr_at_def)
    have "tidy {} m m'"
      unfolding tidy_def
    proof (intro conjI allI impI)
      fix j q s
      assume h: "m_ptrs m' j = Some q" "p_raw q = Some s" "p_len q \<noteq> 0"
      show "\<exists>j' q'. m_ptrs m j' = Some q' \<and> p_raw q' = Some s \<and> p_len q' \<noteq> 0 \<and>
          p_off q + p_len q \<le> p_off q' + p_len q'"
      proof (cases "j = ?l \<and> len \<noteq> 0")
        case True
        then show ?thesis using h p'(1) grown(3) assms(3-5) t
          by (intro exI [of _ i] exI [of _ p]) auto
      next
        case False
        then have "m_ptrs m j = Some q" using h p'(1) grown(2) by (auto split: if_splits)
        then show ?thesis using h by blast
      qed
    qed (simp add: p'(2))
    moreover have "tail_raws m' b' = tail_raws m b"
      using grown(2,6) p'(1) by (auto simp: tail_raws_def split: if_splits)
    ultimately show ?thesis by simp
  qed
  then show "tidy {} m m'" "tail_raws m' b' = tail_raws m b" by auto
qed

end
