(* ===== verification/Buffer_Splice.thy ===== *)
theory Buffer_Splice
  imports Windows
begin

text \<open>
  \<^verbatim>\<open>splice\<close> takes a range out of a list: what is left is the bytes before and after it, the
  list it is claimed by gains exactly the range, and nothing else changes.
\<close>

subsection \<open>The list that claims the range\<close>

definition claim_nodes :: "blist option \<Rightarrow> nat set" where
  "claim_nodes cl = (case cl of None \<Rightarrow> {} | Some c \<Rightarrow> set (bufs c))"

definition claim_ok :: "mem \<Rightarrow> blist option \<Rightarrow> nat \<Rightarrow> nat \<Rightarrow> bool" where
  "claim_ok m cl len n \<longleftrightarrow> (case cl of None \<Rightarrow> True
     | Some c \<Rightarrow> wf_list m c \<and> b_len c + len < 2 ^ 62 \<and> length (bufs c) + n < 2 ^ 62)"

definition gains :: "blist option \<Rightarrow> mem \<Rightarrow> bytes \<Rightarrow> blist option \<Rightarrow> mem \<Rightarrow> bool" where
  "gains cl m bs cl' m' \<longleftrightarrow> (case cl of None \<Rightarrow> cl' = None
     | Some c \<Rightarrow> \<exists>c'. cl' = Some c' \<and> wf_list m' c' \<and> bl_bytes m' c' = bl_bytes m c @ bs)"

definition claim_tails :: "mem \<Rightarrow> blist option \<Rightarrow> nat set" where
  "claim_tails m cl = (case cl of None \<Rightarrow> {} | Some c \<Rightarrow> tail_raws m c)"

text \<open>
  Everything but the nodes in \<open>I\<close> and the claiming list stays, no window reaches further than
  one did, and the claiming list's tail is where it was.
\<close>

definition aside :: "nat set \<Rightarrow> blist option \<Rightarrow> mem \<Rightarrow> blist option \<Rightarrow> mem \<Rightarrow> bool" where
  "aside I cl m cl' m' \<longleftrightarrow> wf_mem m' \<and> keeps (dom (m_ptrs m) - I - claim_nodes cl) m m' \<and>
     claim_nodes cl' \<subseteq> claim_nodes cl \<union> {m_next m..} \<and> tidy {} m m' \<and>
     claim_tails m' cl' = claim_tails m cl"

lemma append_range_nodes:
  assumes "blist_append_range i off len b m = Inr (b', m')"
  shows "bufs b' = bufs b \<or> bufs b' = bufs b @ [m_next m]"
  using assms unfolding blist_append_range_def
  by (auto simp: ebind_Inr_iff Let_def dest: ptr_sub_id split: if_splits option.splits)

lemma claim_range_ok:
  assumes wf: "wf_mem m" "env_ok (m_env m)" "has_raw m i" "off + len \<le> length (node_bytes m i)"
    and cl: "claim_ok m cl (len + k) (Suc n)" "i \<notin> claim_nodes cl"
  shows "\<exists>cl' m'. claim_range i off len cl m = Inr (cl', m') \<and>
    gains cl m (seg off len (node_bytes m i)) cl' m' \<and> claim_ok m' cl' k n \<and> aside {} cl m cl' m' \<and>
    dom (m_ptrs m') - claim_nodes cl' = dom (m_ptrs m) - claim_nodes cl"
proof (cases cl)
  case None
  then show ?thesis using wf(1)
    by (simp add: claim_range_def gains_def claim_ok_def aside_def claim_nodes_def claim_tails_def)
next
  case (Some c)
  obtain p r where p: "m_ptrs m i = Some p" "p_raw p = Some r"
    using wf(3) unfolding has_raw_def by blast
  have c: "wf_list m c" "b_len c + (len + k) < 2 ^ 62" "length (bufs c) + Suc n < 2 ^ 62"
    using cl(1) Some by (simp_all add: claim_ok_def)
  have fit: "off + len \<le> p_len p" "len < 2 ^ 62" and len: "length (seg off len (node_bytes m i)) = len"
    using wf(4) length_node_bytes [OF wf(1) p(1)] c(2) by simp_all
  have rd: "ready c m" using wf(1,2) c by (simp add: ready_def)
  obtain c' m' where m': "blist_append_range i off len c m = Inr (c', m')"
    "becomes c m (bl_bytes m c @ seg off len (node_bytes m i)) c' m'"
    using blist_append_range_ok [OF rd p fit] by blast
  note t = turnsD [of c m "bl_bytes m c @ seg off len (node_bytes m i)" c' m']
  have t': "turns c m (bl_bytes m c @ seg off len (node_bytes m i)) c' m'"
    using m'(2) by (simp add: becomes_def)
  have "b_len c' = b_len c + len"
    using m'(2) readyD(4) [OF rd] len by (simp add: becomes_def)
  then have "claim_ok m' (Some c') k n"
    using becomes_wf [OF m'(2)] append_range_nodes [OF m'(1)] c by (auto simp: claim_ok_def)
  moreover have "set (bufs c') \<subseteq> set (bufs c) \<union> {m_next m..}"
    using append_range_nodes [OF m'(1)] by auto
  ultimately show ?thesis
    using Some m'(1) becomes_wf [OF m'(2)] t(1,3,5,6) [OF t']
      append_range_tidy [OF m'(1) wf(1) p fit(1) readyD(3) [OF rd]]
    by (simp add: claim_range_def gains_def aside_def claim_nodes_def claim_tails_def others_def)
qed

lemma gains_trans:
  "gains cl m xs cl1 m1 \<Longrightarrow> gains cl1 m1 ys cl2 m2 \<Longrightarrow> gains cl m (xs @ ys) cl2 m2"
  by (auto simp: gains_def split: option.splits)

lemma gains_later:
  assumes "gains cl m bs cl' m1" "shares m1 m2" "keeps (claim_nodes cl') m1 m2"
  shows "gains cl m bs cl' m2"
  using assms wf_list_shares [OF assms(2)]
  by (auto simp: gains_def claim_nodes_def split: option.splits)

lemma claim_ok_later:
  assumes "claim_ok m1 cl k n" "shares m1 m2" "keeps (claim_nodes cl) m1 m2"
  shows "claim_ok m2 cl k n"
  using assms wf_list_shares(1) [OF assms(2)]
  by (auto simp: claim_ok_def claim_nodes_def split: option.splits)

lemma wf_mem_dom: "wf_mem m \<Longrightarrow> x \<in> dom (m_ptrs m) \<Longrightarrow> x < m_next m"
  using wf_coreD(2) [OF wf_flD(1)] by blast

lemma aside_trans:
  assumes "aside I cl m cl1 m1" "aside J cl1 m1 cl2 m2" "I \<subseteq> K" "J \<subseteq> K" "wf_mem m"
    and "dom (m_ptrs m) - K - claim_nodes cl \<subseteq> dom (m_ptrs m1)"
  shows "aside K cl m cl2 m2"
proof -
  have next1: "m_next m \<le> m_next m1" using assms(1) by (auto simp: aside_def keeps_def)
  have out: "x \<notin> claim_nodes cl1" if "x \<in> dom (m_ptrs m)" "x \<notin> claim_nodes cl" for x
    using assms(1) that wf_mem_dom [OF assms(5) that(1)] unfolding aside_def by auto
  have "keeps (dom (m_ptrs m) - K - claim_nodes cl) m m1"
    by (rule keeps_mono [of "dom (m_ptrs m) - I - claim_nodes cl"])
      (use assms(1,3) in \<open>auto simp: aside_def\<close>)
  moreover have "keeps (dom (m_ptrs m) - K - claim_nodes cl) m1 m2"
    by (rule keeps_mono [of "dom (m_ptrs m1) - J - claim_nodes cl1"])
      (use assms(2,4,6) out in \<open>auto simp: aside_def\<close>)
  moreover have "claim_nodes cl2 \<subseteq> claim_nodes cl \<union> {m_next m..}"
    using assms(1,2) next1 unfolding aside_def by fastforce
  moreover have "tidy {} m m2"
    by (rule tidy_trans [of _ _ m1]) (use assms(1,2) in \<open>auto simp: aside_def\<close>)
  moreover have "claim_tails m2 cl2 = claim_tails m cl" using assms(1,2) by (simp add: aside_def)
  ultimately show ?thesis using assms(2) keeps_trans unfolding aside_def by blast
qed

lemma claim_tails_keeps:
  assumes "claim_ok m cl k n" "keeps (claim_nodes cl) m m'"
  shows "claim_tails m' cl = claim_tails m cl"
proof (cases cl)
  case (Some c)
  have "wf_list m c" using assms(1) Some by (simp add: claim_ok_def)
  then have "t \<in> claim_nodes cl" if "tail_cache c = Some t" for t
    using wf_nodesD(4) [OF wf_listD(1) that] Some by (simp add: claim_nodes_def)
  then have "m_ptrs m' t = m_ptrs m t" if "tail_cache c = Some t" for t
    using keepsD(1) [OF assms(2)] that by blast
  then show ?thesis using Some tail_raws_same [of c c m' m] by (simp add: claim_tails_def)
qed (simp add: claim_tails_def)

subsection \<open>The nodes of the range\<close>

text \<open>A node loses its front: the new window lies in the old one.\<close>

lemma shrink_front_ok:
  assumes "wf_mem m" "has_raw m i" "k \<le> length (node_bytes m i)"
  shows "\<exists>p m1 m'. ptr_at m i = Inr p \<and> set_offset i (k + p_off p) m = Inr m1 \<and>
    set_length i (length (node_bytes m i) - k) m1 = Inr m' \<and> wf_mem m' \<and> shares m m' \<and>
    keeps (dom (m_ptrs m) - {i}) m m' \<and> has_raw m' i \<and> dom (m_ptrs m') = dom (m_ptrs m) \<and>
    node_bytes m' i = drop k (node_bytes m i) \<and> k + p_off p < two64"
proof -
  obtain p r where p: "m_ptrs m i = Some p" "p_raw p = Some r"
    using assms(2) unfolding has_raw_def by blast
  obtain w where w: "m_raws m r = Some w" "p_off p + p_len p \<le> r_len w" "r_len w < two64"
    using wf_ptr_raw [OF wf_flD(1) [OF assms(1)] p] by auto
  have n: "length (node_bytes m i) = p_len p" by (rule length_node_bytes [OF assms(1) p(1)])
  let ?q = "p\<lparr>p_off := k + p_off p, p_len := p_len p - k\<rparr>"
  let ?m1 = "obj_set i (p\<lparr>p_off := k + p_off p\<rparr>) m" and ?m' = "obj_set i ?q m"
  have fit: "k + p_off p + (p_len p - k) \<le> r_len w" "k + p_off p \<le> r_len w" "p_len p - k \<le> r_len w"
    using w(2) assms(3) n by simp_all
  note o = obj_resize [OF assms(1) p w(1) fit(1)]
  have "set_offset i (k + p_off p) m = Inr ?m1"
    using p w(1) fit(2) by (simp add: set_offset_def raw_length_def ptr_raw_def ptr_at_def raw_at_def)
  moreover have "set_length i (p_len p - k) ?m1 = Inr ?m'"
    using p w(1) fit(3)
    by (simp add: set_length_def raw_length_def ptr_raw_def ptr_at_def raw_at_def obj_set_def)
  moreover have "shares m ?m'"
    unfolding shares_def
  proof (intro allI impI)
    fix j q assume j: "m_ptrs ?m' j = Some q"
    show "\<exists>j' q'. m_ptrs m j' = Some q' \<and> p_raw q' = p_raw q \<and>
        p_off q' \<le> p_off q \<and> p_off q + p_len q \<le> p_off q' + p_len q'"
    proof (cases "j = i")
      case True
      then show ?thesis using j p assms(3) n
        by (intro exI [of _ i] exI [of _ p]) (auto simp: obj_set_def)
    next
      case False
      then show ?thesis using j by (intro exI [of _ j] exI [of _ q]) (simp add: obj_set_def)
    qed
  qed
  moreover have "keeps (dom (m_ptrs m) - {i}) m ?m'"
    by (rule keeps_wf_fl [OF o(2) assms(1) o(1)]) (simp add: obj_set_def)
  moreover have "node_bytes ?m' i = drop k (node_bytes m i)"
    using p w(1) by (simp add: node_bytes_def ptr_bytes_def obj_set_def seg_def drop_take add.commute)
  moreover have "has_raw ?m' i" using p(2) by (simp add: has_raw_def obj_set_def)
  moreover have "dom (m_ptrs ?m') = dom (m_ptrs m)" using p(1) by (auto simp: obj_set_def)
  moreover have "ptr_at m i = Inr p" using p(1) by (simp add: ptr_at_def)
  ultimately show ?thesis using o(1) n fit(2) w(3)
    by (intro exI [of _ p] exI [of _ ?m1] exI [of _ ?m']) simp
qed

lemma ptr_destroy_shares:
  assumes "wf_mem m" "has_raw m i"
  shows "\<exists>m'. ptr_destroy i m = Inr m' \<and> wf_mem m' \<and> shares m m' \<and>
    keeps (dom (m_ptrs m) - {i}) m m' \<and> dom (m_ptrs m') = dom (m_ptrs m) - {i}"
proof -
  obtain p where p: "m_ptrs m i = Some p" using assms(2) unfolding has_raw_def by blast
  obtain m' where m': "ptr_destroy i m = Inr m'" "wf_mem m'" "quiet m m'"
    "m_ptrs m' = (m_ptrs m)(i := None)"
    using ptr_destroy_spec [OF assms(1) p] by blast
  have "shares m m'"
    unfolding shares_def m'(4) by (metis fun_upd_apply option.distinct(1) order_refl)
  moreover have "keeps (dom (m_ptrs m) - {i}) m m'"
    by (rule keeps_wf_fl [OF m'(3) assms(1) m'(2)]) (simp add: m'(4))
  ultimately show ?thesis using m' by auto
qed

text \<open>What one pass of the loop does to the store.\<close>

definition cut :: "nat list \<Rightarrow> nat list \<Rightarrow> bytes \<Rightarrow> bytes \<Rightarrow> blist option \<Rightarrow> mem \<Rightarrow> blist option \<Rightarrow> mem \<Rightarrow> bool"
  where "cut is ns out left cl m cl' m' \<longleftrightarrow>
    gains cl m out cl' m' \<and> aside (set is) cl m cl' m' \<and> (\<forall>i \<in> set ns. has_raw m' i) \<and>
    cat_bytes m' ns = left \<and> (\<exists>gone. is = gone @ ns) \<and>
    dom (m_ptrs m') - claim_nodes cl' = dom (m_ptrs m) - claim_nodes cl - (set is - set ns)"

lemma claim_then:
  assumes "wf_mem m" "gains cl m out cl' m1" "aside {} cl m cl' m1" "shares m1 m2" "wf_mem m2"
    and "keeps (dom (m_ptrs m1) - {i}) m1 m2" "i \<in> dom (m_ptrs m)" "i \<notin> claim_nodes cl"
    and "claim_ok m1 cl' k n" "dom (m_ptrs m1) - claim_nodes cl' = dom (m_ptrs m) - claim_nodes cl"
  shows "gains cl m out cl' m2" "aside {i} cl m cl' m2" "claim_ok m2 cl' k n" "i \<notin> claim_nodes cl'"
proof -
  show i: "i \<notin> claim_nodes cl'"
    using assms(3,7,8) wf_mem_dom [OF assms(1,7)] unfolding aside_def by auto
  have c: "claim_nodes cl' \<subseteq> dom (m_ptrs m1)"
    using assms(9) wf_nodesD(6) [OF wf_listD(1)]
    by (auto simp: claim_ok_def claim_nodes_def split: option.splits)
  have k: "keeps (claim_nodes cl') m1 m2"
    by (rule keeps_mono [OF assms(6)]) (use i c in auto)
  show "gains cl m out cl' m2" by (rule gains_later [OF assms(2,4) k])
  show "claim_ok m2 cl' k n" by (rule claim_ok_later [OF assms(9,4) k])
  have "tidy {} m1 m2" by (rule shares_tidy [OF assms(4)]) (use assms(6) in \<open>simp add: keeps_def\<close>)
  then have "aside {i} cl' m1 cl' m2"
    using assms(5,6) claim_tails_keeps [OF assms(9) k] by (auto simp: aside_def intro: keeps_mono)
  then show "aside {i} cl m cl' m2"
    by (rule aside_trans [OF assms(3)]) (use assms(1,10) in auto)
qed

text \<open>The last node touched: its range goes to the claiming list, the node loses its front.\<close>

lemma claim_shrink:
  assumes wf: "wf_mem m" "env_ok (m_env m)" "i \<notin> set js" "\<forall>j \<in> set (i # js). has_raw m j"
    and cl: "claim_ok m cl len (Suc n)" "claim_nodes cl \<inter> set (i # js) = {}"
    and fit: "off + len < length (node_bytes m i)"
  shows "\<exists>cl' m1 p ma m'. claim_range i off len cl m = Inr (cl', m1) \<and> ptr_at m1 i = Inr p \<and>
    set_offset i (off + len + p_off p) m1 = Inr ma \<and> off + len + p_off p < two64 \<and>
    set_length i (length (node_bytes m i) - (off + len)) ma = Inr m' \<and>
    cut (i # js) (i # js) (seg off len (cat_bytes m (i # js))) (drop (off + len) (cat_bytes m (i # js)))
      cl m cl' m'"
proof -
  let ?x = "node_bytes m i" and ?all = "cat_bytes m (i # js)"
  have i: "has_raw m i" "i \<in> dom (m_ptrs m)" "i \<notin> claim_nodes cl" and ck: "claim_ok m cl (len + 0) (Suc n)"
    using wf(4) cl by (auto simp: has_raw_def)
  obtain cl' m1 where m1: "claim_range i off len cl m = Inr (cl', m1)"
    "gains cl m (seg off len ?x) cl' m1" "claim_ok m1 cl' 0 n" "aside {} cl m cl' m1"
    "dom (m_ptrs m1) - claim_nodes cl' = dom (m_ptrs m) - claim_nodes cl"
    using claim_range_ok [OF wf(1,2) i(1) _ ck i(3), of off] fit by auto
  have k1: "keeps (set (i # js)) m m1"
    by (rule keeps_mono [of "dom (m_ptrs m) - {} - claim_nodes cl"])
      (use m1(4) wf(4) cl(2) in \<open>auto simp: aside_def has_raw_def\<close>)
  have x1: "node_bytes m1 i = ?x" "has_raw m1 i" "wf_mem m1" "cat_bytes m1 js = cat_bytes m js"
    "\<forall>j \<in> set js. has_raw m1 j"
    using keepsD(2) [OF k1] has_raw_keeps [OF k1] wf(4) cat_bytes_keeps [OF k1, of js] m1(4)
    by (auto simp: aside_def)
  obtain p ma m2 where m2: "ptr_at m1 i = Inr p" "set_offset i (off + len + p_off p) m1 = Inr ma"
    "set_length i (length ?x - (off + len)) ma = Inr m2" "wf_mem m2" "shares m1 m2"
    "keeps (dom (m_ptrs m1) - {i}) m1 m2" "has_raw m2 i" "dom (m_ptrs m2) = dom (m_ptrs m1)"
    "node_bytes m2 i = drop (off + len) ?x" "off + len + p_off p < two64"
    using shrink_front_ok [OF x1(3,2), of "off + len"] fit unfolding x1(1) by auto
  note ct = claim_then [OF wf(1) m1(2,4) m2(5,4,6) i(2,3) m1(3,5)]
  have kj: "keeps (set js) m1 m2"
    by (rule keeps_mono [OF m2(6)]) (use x1(5) wf(3) in \<open>auto simp: has_raw_def\<close>)
  have "seg off len ?all = seg off len ?x" using fit by (simp add: seg_def)
  moreover have "aside (set (i # js)) cl m cl' m2"
    using ct(2) by (auto simp: aside_def intro: keeps_mono)
  moreover have "\<forall>j \<in> set (i # js). has_raw m2 j"
    using m2(7) has_raw_keeps [OF kj] x1(5) by simp
  moreover have "cat_bytes m2 (i # js) = drop (off + len) ?all"
    using m2(9) cat_bytes_keeps [OF kj, of js] x1(4) fit by simp
  ultimately have "cut (i # js) (i # js) (seg off len ?all) (drop (off + len) ?all) cl m cl' m2"
    using ct(1) m1(5) m2(8) by (simp add: cut_def)
  then show ?thesis using m1(1) m2(1-3,10) by blast
qed

text \<open>A node inside the range: it goes to the claiming list and is destroyed.\<close>

lemma claim_destroy:
  assumes wf: "wf_mem m" "env_ok (m_env m)" "i \<notin> set js" "\<forall>j \<in> set (i # js). has_raw m j"
    and cl: "claim_ok m cl (c + k) (Suc n)" "claim_nodes cl \<inter> set (i # js) = {}"
    and fit: "off + c \<le> length (node_bytes m i)"
  shows "\<exists>cl' m1 m'. claim_range i off c cl m = Inr (cl', m1) \<and> ptr_destroy i m1 = Inr m' \<and>
    wf_mem m' \<and> m_env m' = m_env m \<and> gains cl m (seg off c (node_bytes m i)) cl' m' \<and>
    aside {i} cl m cl' m' \<and> claim_ok m' cl' k n \<and> claim_nodes cl' \<inter> set js = {} \<and>
    cat_bytes m' js = cat_bytes m js \<and> (\<forall>j \<in> set js. has_raw m' j) \<and>
    dom (m_ptrs m') - claim_nodes cl' = dom (m_ptrs m) - claim_nodes cl - {i}"
proof -
  have i: "has_raw m i" "i \<in> dom (m_ptrs m)" "i \<notin> claim_nodes cl"
    using wf(4) cl by (auto simp: has_raw_def)
  obtain cl' m1 where m1: "claim_range i off c cl m = Inr (cl', m1)"
    "gains cl m (seg off c (node_bytes m i)) cl' m1" "claim_ok m1 cl' k n" "aside {} cl m cl' m1"
    "dom (m_ptrs m1) - claim_nodes cl' = dom (m_ptrs m) - claim_nodes cl"
    using claim_range_ok [OF wf(1,2) i(1) fit cl(1) i(3)] by blast
  have k1: "keeps (set (i # js)) m m1"
    by (rule keeps_mono [of "dom (m_ptrs m) - {} - claim_nodes cl"])
      (use m1(4) wf(4) cl(2) in \<open>auto simp: aside_def has_raw_def\<close>)
  have x1: "has_raw m1 i" "wf_mem m1" "cat_bytes m1 js = cat_bytes m js" "\<forall>j \<in> set js. has_raw m1 j"
    using has_raw_keeps [OF k1] wf(4) cat_bytes_keeps [OF k1, of js] m1(4)
    by (auto simp: aside_def)
  obtain m2 where m2: "ptr_destroy i m1 = Inr m2" "wf_mem m2" "shares m1 m2"
    "keeps (dom (m_ptrs m1) - {i}) m1 m2" "dom (m_ptrs m2) = dom (m_ptrs m1) - {i}"
    using ptr_destroy_shares [OF x1(2,1)] by blast
  note ct = claim_then [OF wf(1) m1(2,4) m2(3,2,4) i(2,3) m1(3,5)]
  have kj: "keeps (set js) m1 m2"
    by (rule keeps_mono [OF m2(4)]) (use x1(4) wf(3) in \<open>auto simp: has_raw_def\<close>)
  have x2: "cat_bytes m2 js = cat_bytes m js" "\<forall>j \<in> set js. has_raw m2 j" "m_env m2 = m_env m"
    using cat_bytes_keeps [OF kj, of js] has_raw_keeps [OF kj] x1(3,4) keepsD(3) [OF kj]
      keepsD(3) [OF k1] by simp_all
  have "j \<notin> claim_nodes cl'" if "j \<in> set js" for j
  proof -
    have "j \<in> dom (m_ptrs m)" using that wf(4) by (auto simp: has_raw_def)
    then show ?thesis using ct(2) cl(2) that wf_mem_dom [OF wf(1)] unfolding aside_def by fastforce
  qed
  then have "claim_nodes cl' \<inter> set js = {}" by blast
  moreover have "dom (m_ptrs m2) - claim_nodes cl' = dom (m_ptrs m) - claim_nodes cl - {i}"
    using m1(5) m2(5) by auto
  ultimately show ?thesis using m1(1) m2(1,2) ct(1-3) x2 by blast
qed

lemma cut_Cons:
  assumes "wf_mem m" "i \<notin> set js" "gains cl m xs cl1 m1" "aside {i} cl m cl1 m1"
    and "cut js ns ys left cl1 m1 cl' m'"
    and "dom (m_ptrs m1) - claim_nodes cl1 = dom (m_ptrs m) - claim_nodes cl - {i}"
  shows "cut (i # js) ns (xs @ ys) left cl m cl' m'"
proof -
  obtain gone where gone: "js = gone @ ns" using assms(5) by (auto simp: cut_def)
  have "gains cl m (xs @ ys) cl' m'"
    using gains_trans [OF assms(3)] assms(5) by (simp add: cut_def)
  moreover have "aside (set (i # js)) cl m cl' m'"
    by (rule aside_trans [OF assms(4), of "set js"]) (use assms(1,5,6) in \<open>auto simp: cut_def\<close>)
  moreover have "dom (m_ptrs m') - claim_nodes cl' =
      dom (m_ptrs m) - claim_nodes cl - (set (i # js) - set ns)"
    using assms(2,5,6) gone by (auto simp: cut_def)
  moreover have "i # js = (i # gone) @ ns" using gone by simp
  ultimately show ?thesis using assms(5) unfolding cut_def by blast
qed

lemma splice_cut_ok:
  assumes "wf_mem m" "env_ok (m_env m)" "distinct is" "\<forall>i \<in> set is. has_raw m i"
    and "off + len \<le> length (cat_bytes m is)" "is \<noteq> [] \<Longrightarrow> off \<le> length (node_bytes m (hd is))"
    and "len = 0 \<Longrightarrow> off = 0" "off + len \<le> tot" "tot < two64" "length is \<le> num" "num < two64"
    and "claim_ok m cl len (length is)" "claim_nodes cl \<inter> set is = {}"
  shows "\<exists>ns cl' m'. splice_cut off len pre is (tot, num) cl m =
      Inr (pre @ ns, (tot - (off + len), num - (length is - length ns)), cl', m') \<and>
    cut is ns (seg off len (cat_bytes m is)) (drop (off + len) (cat_bytes m is)) cl m cl' m'"
  using assms
proof (induction "is" arbitrary: off len tot num cl m)
  case Nil
  then show ?case
    by (intro exI [of _ "[]"] exI [of _ cl] exI [of _ m])
      (auto simp: cut_def gains_def aside_def seg_def claim_ok_def split: option.splits)
next
  case (Cons i js)
  let ?x = "node_bytes m i" and ?all = "cat_bytes m (i # js)" and ?c = "length (node_bytes m i) - off"
  note wf = Cons.prems(1)
  have i: "has_raw m i" "i \<notin> set js" "distinct js" and oi: "off \<le> length ?x"
    using Cons.prems(3,4,6) by auto
  note n = ptr_length_bytes [OF wf i(1)]
  consider (none) "len = 0" | (inside) "len \<noteq> 0" "off + len < length ?x"
    | (whole) "len \<noteq> 0" "\<not> off + len < length ?x" "?c \<le> len" by force
  then show ?case
  proof cases
    case none
    then have "cut (i # js) (i # js) (seg off len ?all) (drop (off + len) ?all) cl m cl m"
      using Cons.prems(1,4,7,12)
      by (auto simp: cut_def gains_def aside_def claim_ok_def split: option.splits)
    then show ?thesis using none Cons.prems(7) by (intro exI [of _ "i # js"]) auto
  next
    case inside
    have a: "add64 off len = off + len" "add64 len off = off + len"
      "sub64 (length ?x) (off + len) = length ?x - (off + len)"
      "sub64 tot (off + len) = tot - (off + len)"
      using inside n(2) Cons.prems(8,9) by (simp_all add: arith64)
    have ck: "claim_ok m cl len (Suc (length js))" using Cons.prems(12) by simp
    obtain cl' m1 p ma m2 where m2: "claim_range i off len cl m = Inr (cl', m1)" "ptr_at m1 i = Inr p"
      "set_offset i (off + len + p_off p) m1 = Inr ma" "off + len + p_off p < two64"
      "set_length i (length ?x - (off + len)) ma = Inr m2"
      "cut (i # js) (i # js) (seg off len ?all) (drop (off + len) ?all) cl m cl' m2"
      using claim_shrink [OF wf Cons.prems(2) i(2) Cons.prems(4) ck Cons.prems(13) inside(2)] by blast
    have "add64 (off + len) (p_off p) = off + len + p_off p" using m2(4) by (simp add: arith64)
    then have "splice_cut off len pre (i # js) (tot, num) cl m =
        Inr (pre @ i # js, (tot - (off + len), num), cl', m2)"
      using inside n(1) a m2(1-3,5) by simp
    then show ?thesis using m2(6) by (intro exI [of _ "i # js"]) auto
  next
    case whole
    have a: "add64 off len = off + len" "sub64 (length ?x) off = ?c" "sub64 len ?c = len - ?c"
      "sub64 tot (length ?x) = tot - length ?x" "sub64 num 1 = num - 1"
      using whole oi n(2) Cons.prems(8-11) by (simp_all add: arith64)
    have ck: "claim_ok m cl (?c + (len - ?c)) (Suc (length js))" and fit: "off + ?c \<le> length ?x"
      using Cons.prems(12) whole oi by simp_all
    obtain cl1 m1 m2 where m2: "claim_range i off ?c cl m = Inr (cl1, m1)" "ptr_destroy i m1 = Inr m2"
      "wf_mem m2" "m_env m2 = m_env m" "gains cl m (seg off ?c ?x) cl1 m2" "aside {i} cl m cl1 m2"
      "claim_ok m2 cl1 (len - ?c) (length js)" "claim_nodes cl1 \<inter> set js = {}"
      "cat_bytes m2 js = cat_bytes m js" "\<forall>j \<in> set js. has_raw m2 j"
      "dom (m_ptrs m2) - claim_nodes cl1 = dom (m_ptrs m) - claim_nodes cl - {i}"
      using claim_destroy [OF wf Cons.prems(2) i(2) Cons.prems(4) ck Cons.prems(13) fit]
      by (elim exE conjE) (rule that)
    have "\<exists>ns cl' m'. splice_cut 0 (len - ?c) pre js (tot - length ?x, num - 1) cl1 m2 =
        Inr (pre @ ns, (tot - length ?x - (0 + (len - ?c)), num - 1 - (length js - length ns)), cl', m') \<and>
      cut js ns (seg 0 (len - ?c) (cat_bytes m2 js)) (drop (0 + (len - ?c)) (cat_bytes m2 js)) cl1 m2 cl' m'"
      by (rule Cons.IH) (use Cons.prems(2,5,8-11) m2 i(3) whole oi in simp_all)
    then obtain ns cl' m' where IH:
      "splice_cut 0 (len - ?c) pre js (tot - length ?x, num - 1) cl1 m2 =
        Inr (pre @ ns, (tot - length ?x - (len - ?c), num - 1 - (length js - length ns)), cl', m')"
      "cut js ns (seg 0 (len - ?c) (cat_bytes m js)) (drop (len - ?c) (cat_bytes m js)) cl1 m2 cl' m'"
      unfolding m2(9) add_0 by blast
    then obtain gone where gone: "js = gone @ ns" by (auto simp: cut_def)
    have "splice_cut off len pre (i # js) (tot, num) cl m =
        Inr (pre @ ns, (tot - (off + len), num - (length (i # js) - length ns)), cl', m')"
      using whole n(1) a m2(1,2) IH(1) oi gone by (simp add: Let_def)
    moreover have "off + len - length ?x = len - ?c" using whole oi by simp
    then have "drop (off + len) ?all = drop (len - ?c) (cat_bytes m js)" using whole by simp
    ultimately show ?thesis
      using cut_Cons [OF wf i(2) m2(5,6) IH(2) m2(11)] seg_append [OF oi whole(3)] by auto
  qed
qed

subsection \<open>The whole operation\<close>

lemma splice_skip_ok:
  assumes "wf_mem m" "\<forall>i \<in> set is. has_raw m i" "off < length (cat_bytes m is)" "off < two64"
  shows "\<exists>off' sk cur. splice_skip m off pre is = Inr (off', pre @ sk, cur) \<and> is = sk @ cur \<and>
    cur \<noteq> [] \<and> off = length (cat_bytes m sk) + off' \<and> off' \<le> length (node_bytes m (hd cur))"
  using assms(2-)
proof (induction "is" arbitrary: off pre)
  case (Cons i js)
  let ?x = "node_bytes m i"
  have n: "ptr_length m i = Inr (length ?x)" using ptr_length_bytes [OF assms(1)] Cons.prems(1) by simp
  show ?case
  proof (cases "off > 0 \<and> off \<ge> length ?x")
    case False
    then have "splice_skip m off pre (i # js) = Inr (off, pre @ [], i # js)" using n by auto
    then show ?thesis using False by (intro exI [of _ off] exI [of _ "[]"] exI [of _ "i # js"]) auto
  next
    case True
    have d: "sub64 off (length ?x) = off - length ?x"
      using True Cons.prems(3) by (simp add: arith64)
    have "\<exists>off' sk cur. splice_skip m (off - length ?x) (pre @ [i]) js = Inr (off', (pre @ [i]) @ sk, cur) \<and>
      js = sk @ cur \<and> cur \<noteq> [] \<and> off - length ?x = length (cat_bytes m sk) + off' \<and>
      off' \<le> length (node_bytes m (hd cur))"
      by (rule Cons.IH) (use Cons.prems True in auto)
    then obtain off' sk cur where IH:
      "splice_skip m (off - length ?x) (pre @ [i]) js = Inr (off', (pre @ [i]) @ sk, cur)"
      "js = sk @ cur" "cur \<noteq> []" "off - length ?x = length (cat_bytes m sk) + off'"
      "off' \<le> length (node_bytes m (hd cur))"
      by blast
    have "splice_skip m off pre (i # js) = Inr (off', pre @ i # sk, cur)" using True n d IH(1) by simp
    moreover have "off = length (cat_bytes m (i # sk)) + off'" using True IH(4) by auto
    ultimately show ?thesis using IH(2,3,5)
      by (intro exI [of _ off'] exI [of _ "i # sk"] exI [of _ cur]) simp
  qed
qed simp

lemma front_part_ok:
  assumes "wf_mem m" "\<forall>i \<in> set cur. has_raw m i" "cur \<noteq> []" "off \<le> length (node_bytes m (hd cur))"
    and "tot + off < two64" "num + 1 < two64"
  shows "\<exists>ks m'. front_part off pre cur tot num m =
      Inr (pre @ ks, (tot + off, num + length ks), m') \<and> extends m m' ks \<and>
      cat_bytes m' ks = take off (cat_bytes m cur) \<and> length ks \<le> 1"
proof (cases "off = 0")
  case True
  then show ?thesis using extends_refl [OF assms(1)]
    by (intro exI [of _ "[]"] exI [of _ m]) (simp add: front_part_def)
next
  case False
  obtain i js where cur: "cur = i # js" using assms(3) by (cases cur) auto
  have i: "has_raw m i" "0 + off \<le> length (node_bytes m i)" using assms(2,4) cur by simp_all
  obtain m' where m': "ptr_sub i 0 off m = Inr (m_next m, m')" "extends m m' [m_next m]"
    "node_bytes m' (m_next m) = seg 0 off (node_bytes m i)"
    using ptr_sub_extends [OF assms(1) i] by blast
  have "cat_bytes m' [m_next m] = take off (cat_bytes m cur)"
    using m'(3) i(2) cur by (simp add: seg_def)
  moreover have "front_part off pre cur tot num m =
      Inr (pre @ [m_next m], (tot + off, num + length [m_next m]), m')"
    using False cur m'(1) assms(5,6) by (simp add: front_part_def arith64)
  ultimately show ?thesis using m'(2)
    by (intro exI [of _ "[m_next m]"] exI [of _ m']) (simp del: append.simps)
qed

lemma claim_extends:
  assumes "extends m m' ks" "claim_ok m cl k n"
  shows "claim_ok m' cl k n" "gains cl m [] cl m'" "claim_nodes cl \<subseteq> dom (m_ptrs m)"
proof -
  show c: "claim_nodes cl \<subseteq> dom (m_ptrs m)"
    using assms(2) wf_nodesD(6) [OF wf_listD(1)]
    by (auto simp: claim_ok_def claim_nodes_def split: option.splits)
  have s: "shares m m'" and k: "keeps (claim_nodes cl) m m'"
    using assms(1) c by (auto simp: extends_def intro: keeps_mono)
  show "claim_ok m' cl k n" by (rule claim_ok_later [OF assms(2) s k])
  have "gains cl m [] cl m" using assms(2) by (auto simp: gains_def claim_ok_def split: option.splits)
  then show "gains cl m [] cl m'" by (rule gains_later [OF _ s k])
qed

lemma splice_left:
  assumes wf: "wf_mem m" "wf_nodes m b" "bufs b = sk @ cur"
    and x: "extends m m1 ks" "cat_bytes m1 ks = front" and c: "cut cur ns out left cl m1 cl' m'"
    and cl: "claim_nodes cl \<inter> set (bufs b) = {}" "claim_nodes cl \<subseteq> dom (m_ptrs m)"
    and b': "b' = \<lparr>bufs = sk @ ks @ ns, tail_cache = None, b_len = n,
    b_num = length sk + length ks + length ns\<rparr>"
  shows "wf_nodes m' b'" "cat_bytes m' (sk @ ks @ ns) = cat_bytes m sk @ front @ left"
    "keeps (others m b - claim_nodes cl) m m'"
    "others m' b' - claim_nodes cl' = others m b - claim_nodes cl"
    "claim_nodes cl' \<inter> set (bufs b') = {}" "claim_nodes cl' \<subseteq> claim_nodes cl \<union> {m_next m..}"
    "tidy {} m m'"
proof -
  have sub: "set (bufs b) \<subseteq> dom (m_ptrs m)" by (rule wf_nodesD(6) [OF wf(2)])
  have ns: "set ns \<subseteq> set cur" "distinct ns" using c wf_nodesD(1) [OF wf(2)] wf(3) by (auto simp: cut_def)
  have ks: "set ks \<inter> dom (m_ptrs m) = {}" "distinct ks" "dom (m_ptrs m1) = dom (m_ptrs m) \<union> set ks"
    "\<forall>k \<in> set ks. has_raw m1 k" and k1: "keeps (dom (m_ptrs m)) m m1"
    using x(1) by (simp_all add: extends_def)
  have k2: "keeps (dom (m_ptrs m1) - set cur - claim_nodes cl) m1 m'"
    using c by (simp add: cut_def aside_def)
  have sets: "set sk \<inter> set cur = {}" "set sk \<subseteq> dom (m_ptrs m)" "set cur \<subseteq> dom (m_ptrs m)" "distinct sk"
    using sub wf_nodesD(1) [OF wf(2)] wf(3) by auto
  have k3: "keeps (set (sk @ ks)) m1 m'"
    by (rule keeps_mono [OF k2]) (use ks(1,3) sets cl wf(3) in auto)
  have "has_raw m1 i" if "i \<in> set sk" for i
    using has_raw_keeps [OF k1 subsetD [OF sets(2) that]] wf_nodesD(2) [OF wf(2), of i] that wf(3) by simp
  then have raw1: "\<forall>i \<in> set (sk @ ks). has_raw m1 i" using ks(4) by auto
  have raws: "\<forall>i \<in> set (sk @ ks @ ns). has_raw m' i"
    using c has_raw_keeps [OF k3] raw1 by (auto simp: cut_def)
  have "set ks \<inter> set ns = {}" "set ks \<inter> set sk = {}" "set sk \<inter> set ns = {}"
    using sets(1-3) ks(1) ns(1) by blast+
  then have dis: "distinct (sk @ ks @ ns)" using sets(4) ks(2) ns(2) by auto
  show "wf_nodes m' b'" using raws dis by (simp add: wf_nodes_def b')
  have "cat_bytes m' (sk @ ks) = cat_bytes m1 (sk @ ks)" by (rule cat_bytes_keeps [OF k3]) simp
  moreover have "cat_bytes m1 sk = cat_bytes m sk" by (rule cat_bytes_keeps [OF k1 sets(2)])
  ultimately show "cat_bytes m' (sk @ ks @ ns) = cat_bytes m sk @ front @ left"
    using c x(2) by (simp add: cut_def)
  have "keeps (others m b - claim_nodes cl) m m1"
    by (rule keeps_mono [OF k1]) (auto simp: others_def)
  moreover have "keeps (others m b - claim_nodes cl) m1 m'"
    by (rule keeps_mono [OF k2]) (use ks(3) wf(3) in \<open>auto simp: others_def\<close>)
  ultimately show "keeps (others m b - claim_nodes cl) m m'" by (rule keeps_trans)
  have "dom (m_ptrs m') - claim_nodes cl' = dom (m_ptrs m1) - claim_nodes cl - (set cur - set ns)"
    using c by (simp add: cut_def)
  then have "others m' b' - claim_nodes cl' =
      dom (m_ptrs m1) - claim_nodes cl - (set cur - set ns) - set (sk @ ks @ ns)"
    by (auto simp: others_def b')
  then show "others m' b' - claim_nodes cl' = others m b - claim_nodes cl"
    using ks(1,3) ns(1) wf(3) by (auto simp: others_def)
  have new: "claim_nodes cl' \<subseteq> claim_nodes cl \<union> {m_next m1..}" and td: "tidy {} m1 m'"
    using c by (simp_all add: cut_def aside_def)
  have grow: "m_next m \<le> m_next m1" using k1 by (simp add: keeps_def)
  show "claim_nodes cl' \<subseteq> claim_nodes cl \<union> {m_next m..}"
    using new grow by (meson Un_mono atLeast_subset_iff order_refl order_trans)
  have "set (sk @ ks @ ns) \<subseteq> dom (m_ptrs m1)" using sets(2,3) ks(3) ns(1) by auto
  moreover have "wf_mem m1" using x(1) by (simp add: extends_def)
  ultimately have "set (sk @ ks @ ns) \<inter> {m_next m1..} = {}" using wf_mem_dom by fastforce
  moreover have "claim_nodes cl \<inter> set (sk @ ks @ ns) = {}" using cl ks(1) ns(1) wf(3) by auto
  ultimately show "claim_nodes cl' \<inter> set (bufs b') = {}" using new unfolding b' by auto
  have "tidy {} m m1" using x(1) shares_tidy grow by (simp add: extends_def)
  then show "tidy {} m m'" using td tidy_trans by blast
qed

lemma blist_splice_ok:
  assumes rd: "ready b m" and lim: "off + len \<le> b_len b"
    and cl: "claim_ok m cl len (length (bufs b))" "claim_nodes cl \<inter> set (bufs b) = {}"
  shows "\<exists>b' cl' m'. blist_splice off len cl b m = Inr (b', cl', m') \<and> wf_mem m' \<and> wf_list m' b' \<and>
    bl_bytes m' b' = take off (bl_bytes m b) @ drop (off + len) (bl_bytes m b) \<and>
    gains cl m (seg off len (bl_bytes m b)) cl' m' \<and>
    keeps (others m b - claim_nodes cl) m m' \<and>
    others m' b' - claim_nodes cl' = others m b - claim_nodes cl \<and>
    claim_nodes cl' \<inter> set (bufs b') = {} \<and> claim_nodes cl' \<subseteq> claim_nodes cl \<union> {m_next m..} \<and>
    tidy {} m m' \<and> claim_tails m' cl' = claim_tails m cl \<and> (tail_cache b' = None \<or> b' = b \<and> m' = m)"
proof (cases "len = 0")
  case True
  have "gains cl m [] cl m" using cl(1) by (auto simp: gains_def claim_ok_def split: option.splits)
  then show ?thesis using True rd
    by (intro exI [of _ b] exI [of _ cl] exI [of _ m]) (simp add: blist_splice_def ready_def cl(2))
next
  case False
  note r = readyD [OF rd]
  let ?bs = "bl_bytes m b"
  note raws = wf_nodes_raws [OF r(3)]
  have off: "off < b_len b" "off < length (cat_bytes m (bufs b))" "off < two64"
    using False lim r(4,5) by (simp_all add: bl_bytes_cat two64_def)
  obtain off' sk cur where s: "splice_skip m off [] (bufs b) = Inr (off', sk, cur)" "bufs b = sk @ cur"
    "cur \<noteq> []" "off = length (cat_bytes m sk) + off'" "off' \<le> length (node_bytes m (hd cur))"
    using splice_skip_ok [OF r(1) raws off(2,3), of "[]"] by auto
  have rc: "\<forall>i \<in> set cur. has_raw m i" "\<forall>i \<in> set sk. has_raw m i" using raws s(2) by simp_all
  have lims: "b_len b + off' < two64" "b_num b + 1 < two64" "off' + len \<le> length (cat_bytes m cur)"
    using off(1) r(4-6) s(2,4) wf_nodesD(3) [OF r(3)] lim by (simp_all add: bl_bytes_cat two64_def)
  obtain ks m1 where f: "front_part off' sk cur (b_len b) (b_num b) m =
      Inr (sk @ ks, (b_len b + off', b_num b + length ks), m1)" "extends m m1 ks"
      "cat_bytes m1 ks = take off' (cat_bytes m cur)" "length ks \<le> 1"
    using front_part_ok [OF r(1) rc(1) s(3,5) lims(1,2), of sk] by blast
  note cx = claim_extends [OF f(2) cl(1)] and ec = extends_cat [OF f(2) rc(1)] and es = extends_cat [OF f(2) rc(2)]
  have hd1: "off' \<le> length (node_bytes m1 (hd cur))"
    using s(3,5) extends_cat(1) [OF f(2), of "[hd cur]"] rc(1) by simp
  have m1: "wf_mem m1" "env_ok (m_env m1)" using f(2) r(2) keepsD(3) unfolding extends_def by metis+
  have ckc: "claim_ok m1 cl len (length cur)"
    using cx(1) s(2) by (auto simp: claim_ok_def split: option.splits)
  have dis: "distinct sk" "distinct cur" "set sk \<inter> set cur = {}" "claim_nodes cl \<inter> set cur = {}"
    "claim_nodes cl \<inter> set sk = {}" "b_num b = length sk + length cur"
    using wf_nodesD(1,3) [OF r(3)] cl(2) s(2) by auto
  have "\<exists>ns cl' m'. splice_cut off' len (sk @ ks) cur (b_len b + off', b_num b + length ks) cl m1 =
      Inr ((sk @ ks) @ ns, (b_len b + off' - (off' + len), b_num b + length ks - (length cur - length ns)), cl', m') \<and>
    cut cur ns (seg off' len (cat_bytes m1 cur)) (drop (off' + len) (cat_bytes m1 cur)) cl m1 cl' m'"
    by (rule splice_cut_ok [OF m1 dis(2) ec(2)])
      (use lims f(4) hd1 ec(1) lim False dis(4,6) ckc in simp_all)
  then obtain ns cl' m' where c: "splice_cut off' len (sk @ ks) cur (b_len b + off', b_num b + length ks) cl m1 =
      Inr (sk @ ks @ ns, (b_len b - len, length sk + length ks + length ns), cl', m')"
    "cut cur ns (seg off' len (cat_bytes m cur)) (drop (off' + len) (cat_bytes m cur)) cl m1 cl' m'"
    using dis(6) unfolding ec(1) by (auto simp: cut_def)
  let ?b = "\<lparr>bufs = sk @ ks @ ns, tail_cache = None, b_len = b_len b - len,
      b_num = length sk + length ks + length ns\<rparr>"
  have "blist_splice off len cl b m = Inr (?b, cl', m')"
    using False off(1) s(1) f(1) c(1) by (simp add: blist_splice_def)
  moreover have "wf_mem m'" using c(2) by (simp add: cut_def aside_def)
  moreover note left = splice_left [OF r(1,3) s(2) f(2,3) c(2) cl(2) cx(3) refl]
  moreover have "bl_bytes m' ?b = take off ?bs @ drop (off + len) ?bs"
    using left(2) s(2,4) by (simp add: bl_bytes_cat)
  moreover have "wf_list m' ?b"
    using left(1,2) off(1) s(2,4) lim r(4) by (simp add: wf_list_def bl_bytes_cat)
  moreover have "gains cl m (seg off len ?bs) cl' m'"
    using gains_trans [OF cx(2)] c(2) s(2,4) by (simp add: cut_def seg_def bl_bytes_cat)
  moreover have "claim_tails m' cl' = claim_tails m1 cl" using c(2) by (simp add: cut_def aside_def)
  moreover have "claim_tails m1 cl = claim_tails m cl"
    by (rule claim_tails_keeps [OF cl(1)])
      (use f(2) cx(3) in \<open>auto simp: extends_def intro: keeps_mono\<close>)
  moreover have "tail_cache ?b = None" by simp
  ultimately show ?thesis using left(3-7) by metis
qed

end
