(* ===== verification/Buffer_List_Props.thy ===== *)
theory Buffer_List_Props
  imports Buffer_Append_Ops
begin

text \<open>
  The properties of \<^verbatim>\<open>buffer::list\<close> that concern building and sharing lists. \<open>becomes b m bs
  b' m'\<close> says all of it at once: the new list shows \<open>bs\<close>, its cached length and node count
  are right, its cached tail may be written, the counters of the store are exact, objects
  outside the list show what they showed and none was added or lost.
\<close>

lemma ready_demo: "ready blist_new (empty_mem demo_env)"
  by (rule ready_new) (simp_all add: env_ok_demo)

text \<open>
  C2 (functional). \<^verbatim>\<open>append(data, len)\<close> adds exactly the data, whether it fits behind the
  cached tail, needs a new raw, or is split between the two.
\<close>

theorem append_appends:
  assumes "ready b m" "length data < 2 ^ 62"
  shows "\<exists>b' m'. blist_append data b m = Inr (b', m') \<and> becomes b m (bl_bytes m b @ data) b' m'"
  by (rule blist_append_ok [OF assms])

theorem append_appends_witness:
  "\<exists>b' m'. blist_append [1, 2, 3] blist_new (empty_mem demo_env) = Inr (b', m') \<and>
    bl_bytes m' b' = [1, 2, 3] \<and> b_len b' = 3"
  using append_appends [OF ready_demo, of "[1, 2, 3]"] by (auto simp: becomes_def turns_def)

text \<open>\<^verbatim>\<open>append(c)\<close> adds one byte.\<close>

lemma append_char_appends:
  assumes "ready b m"
  shows "\<exists>b' m'. blist_append_char c b m = Inr (b', m') \<and> becomes b m (bl_bytes m b @ [c]) b' m'"
  by (rule blist_append_char_ok [OF assms])

lemma append_char_appends_witness:
  "\<exists>b' m'. blist_append_char 7 blist_new (empty_mem demo_env) = Inr (b', m') \<and> bl_bytes m' b' = [7]"
  using append_char_appends [OF ready_demo, of 7] by (auto simp: becomes_def turns_def)

text \<open>
  \<^verbatim>\<open>append_zero\<close> adds zeros although the memory it takes over is
  uninitialised.
\<close>

lemma append_zero_appends:
  assumes "ready b m" "len < 2 ^ 62"
  shows "\<exists>b' m'. blist_append_zero len b m = Inr (b', m') \<and>
    becomes b m (bl_bytes m b @ replicate len 0) b' m'"
  by (rule blist_append_zero_ok [OF assms])

lemma append_zero_appends_witness:
  "\<exists>b' m'. blist_append_zero 4 blist_new (empty_mem demo_env) = Inr (b', m') \<and>
    bl_bytes m' b' = [0, 0, 0, 0]"
proof -
  obtain b' m' where "blist_append_zero 4 blist_new (empty_mem demo_env) = Inr (b', m')"
    "becomes blist_new (empty_mem demo_env) ([] @ replicate 4 0) b' m'"
    using append_zero_appends [OF ready_demo, of 4] by auto
  moreover have "replicate 4 0 = ([0, 0, 0, 0] :: bytes)" by (simp add: numeral_eq_Suc)
  ultimately show ?thesis by (auto simp: becomes_def turns_def)
qed

text \<open>
  \<^verbatim>\<open>append(ptr, off, len)\<close> adds the range's bytes, by extending the last
  node when the range continues it and by a new node otherwise.
\<close>

lemma append_range_appends:
  assumes "ready b m" "m_ptrs m i = Some p" "p_raw p = Some r" "off + len \<le> p_len p" "len < 2 ^ 62"
  shows "\<exists>b' m'. blist_append_range i off len b m = Inr (b', m') \<and>
    becomes b m (bl_bytes m b @ seg off len (node_bytes m i)) b' m'"
  by (rule blist_append_range_ok [OF assms])

text \<open>An object outside any list, in a store that is ready.\<close>

lemma demo_object: "\<exists>m. ready blist_new m \<and> node_bytes m 1 = [1, 2, 3] \<and>
    m_ptrs m = [1 \<mapsto> \<lparr>p_raw = Some 0, p_off = 0, p_len = 3\<rparr>] \<and> m_next m = 2"
proof -
  obtain m where m: "wf_mem m" "fresh_ptr 8 [1, 2, 3] (empty_mem demo_env) m"
    using ptr_of_bytes_ok [OF wf_empty_mem, of demo_env "[1, 2, 3]"] env_ok_demo by auto
  have "env_ok (m_env m)" using m(2) env_ok_demo by (simp add: fresh_ptr_def)
  then have "ready blist_new m" by (rule ready_new [OF m(1)])
  then show ?thesis using m(2) fresh_ptr_bytes [OF m(2)]
    by (intro exI [of _ m]) (auto simp: fresh_ptr_def empty_mem_def)
qed

lemma append_range_appends_witness:
  "\<exists>m b' m'. blist_append_range 1 1 2 blist_new m = Inr (b', m') \<and> bl_bytes m' b' = [2, 3]"
proof -
  obtain m where m: "ready blist_new m" "node_bytes m 1 = [1, 2, 3]"
    "m_ptrs m = [1 \<mapsto> \<lparr>p_raw = Some 0, p_off = 0, p_len = 3\<rparr>]"
    using demo_object by blast
  have "m_ptrs m 1 = Some \<lparr>p_raw = Some 0, p_off = 0, p_len = 3\<rparr>" using m(3) by simp
  then obtain b' m' where "blist_append_range 1 1 2 blist_new m = Inr (b', m')"
    "becomes blist_new m (bl_bytes m blist_new @ seg 1 2 (node_bytes m 1)) b' m'"
    using append_range_appends [OF m(1), of 1 _ 0 1 2] by force
  moreover have "seg 1 2 (node_bytes m 1) = [2, 3]"
    unfolding m(2) by (simp add: seg_def numeral_eq_Suc)
  ultimately show ?thesis by (auto simp: becomes_def turns_def)
qed

text \<open>
  Copying a list shares its memory, and still the two are independent: data
  appended to the original does not show in the copy.
\<close>

lemma copy_then_append:
  assumes "ready b m" "length data < 2 ^ 62"
  shows "\<exists>b1 m1 b' m'. blist_copy b m = Inr (b1, m1) \<and> blist_append data b m1 = Inr (b', m') \<and>
    bl_bytes m' b' = bl_bytes m b @ data \<and> wf_list m' b' \<and>
    bl_bytes m' b1 = bl_bytes m b"
proof -
  have wfl: "wf_list m b" using assms(1) by (simp add: ready_def)
  obtain b1 m1 where c: "blist_copy b m = Inr (b1, m1)" "becomes blist_new m (bl_bytes m b) b1 m1"
    "wf_list m1 b" "bl_bytes m1 b = bl_bytes m b"
    using blist_copy_ok [OF readyD(1) [OF assms(1)] wfl] by blast
  have t: "turns blist_new m (bl_bytes m b) b1 m1" using c(2) by (simp add: becomes_def)
  note t1 = turnsD [OF t]
  have rd: "ready b m1" using assms(1) t1(1,4) c(3) by (simp add: ready_def)
  obtain b' m' where a: "blist_append data b m1 = Inr (b', m')"
    "becomes b m1 (bl_bytes m1 b @ data) b' m'"
    using blist_append_ok [OF rd assms(2)] by blast
  have "set (bufs b1) \<inter> dom (m_ptrs m) = {}" "set (bufs b) \<subseteq> dom (m_ptrs m)"
    using t1(6) wf_nodesD(6) [OF readyD(3) [OF assms(1)]] by (auto simp: others_def blist_new_def)
  then have "apart b b1" by (auto simp: apart_def)
  then have "keeps (set (bufs b1)) m1 m'"
    using a(2) by (intro keeps_apart [OF _ _ t1(2)]) (auto simp: becomes_def turns_def)
  then have "bl_bytes m' b1 = bl_bytes m1 b1" by (rule bl_bytes_keeps) simp
  then show ?thesis using c a t1(3) becomes_wf [OF a(2)]
    by (auto simp: becomes_def turns_def)
qed

lemma copy_then_append_witness:
  "\<exists>b1 m1 b' m'. blist_copy blist_new (empty_mem demo_env) = Inr (b1, m1) \<and>
    blist_append [5] blist_new m1 = Inr (b', m') \<and> bl_bytes m' b' = [5] \<and> bl_bytes m' b1 = []"
  using copy_then_append [OF ready_demo, of "[5]"] by auto

text \<open>
  Appending another list adds its bytes and leaves that list as it was,
  with its cached tail still writable.
\<close>

lemma append_list_appends:
  assumes "ready b m" "wf_list m other" "apart b other"
    and "b_len other < 2 ^ 62" "length (bufs other) < 2 ^ 62"
  shows "\<exists>b' m'. blist_append_list other b m = Inr (b', m') \<and>
    becomes b m (bl_bytes m b @ bl_bytes m other) b' m' \<and> wf_list m' other \<and>
    bl_bytes m' other = bl_bytes m other"
  by (rule blist_append_list_ok [OF assms])

lemma append_list_appends_witness:
  "\<exists>m other b' m'. bl_bytes m other = [1, 2, 3] \<and>
    blist_append_list other blist_new m = Inr (b', m') \<and>
    bl_bytes m' b' = [1, 2, 3] \<and> bl_bytes m' other = [1, 2, 3]"
proof -
  obtain m where m: "ready blist_new m" "node_bytes m 1 = [1, 2, 3]"
    "m_ptrs m = [1 \<mapsto> \<lparr>p_raw = Some 0, p_off = 0, p_len = 3\<rparr>]"
    using demo_object by blast
  let ?o = "\<lparr>bufs = [1], tail_cache = None, b_len = 3, b_num = 1\<rparr>"
  have o: "wf_list m ?o" "bl_bytes m ?o = [1, 2, 3]"
    using m(2,3) by (simp_all add: wf_list_def wf_nodes_def bl_bytes_def has_raw_def)
  have "apart blist_new ?o" by (simp add: apart_def blist_new_def)
  then obtain b' m' where "blist_append_list ?o blist_new m = Inr (b', m')"
    "becomes blist_new m (bl_bytes m blist_new @ bl_bytes m ?o) b' m'"
    "bl_bytes m' ?o = bl_bytes m ?o"
    using append_list_appends [OF m(1) o(1)] by auto
  then show ?thesis using o(2) by (auto simp: becomes_def turns_def)
qed

end
