(* ===== verification/Buffer_Cut_Props.thy ===== *)
theory Buffer_Cut_Props
  imports Buffer_Splice Buffer_List_Props
begin

text \<open>
  The properties of \<^verbatim>\<open>buffer::list\<close> that concern reading, comparing, rebuilding and cutting.
\<close>

subsection \<open>Lists to apply them to\<close>

text \<open>Two windows onto the same three bytes, in one list.\<close>

lemma demo_list: "\<exists>m b. ready b m \<and> bl_bytes m b = [1, 2, 3, 1, 2, 3] \<and> bufs b = [1, 2] \<and>
    b_len b = 6 \<and> tail_cache b = None \<and> node_bytes m 1 = [1, 2, 3]"
proof -
  obtain m where m: "ready blist_new m" "node_bytes m 1 = [1, 2, 3]"
    "m_ptrs m = [1 \<mapsto> \<lparr>p_raw = Some 0, p_off = 0, p_len = 3\<rparr>]" "m_next m = 2"
    using demo_object by blast
  let ?p = "\<lparr>p_raw = Some 0, p_off = 0, p_len = 3\<rparr>"
  have p: "m_ptrs m 1 = Some ?p" using m(3) by simp
  note r = readyD [OF m(1)]
  obtain m' where m': "ptr_copy 1 m = Inr (2, m')" "wf_mem m'" "quiet m m'"
    "m_ptrs m' = (m_ptrs m)(2 \<mapsto> ?p)"
    using ptr_copy_spec [OF r(1) p] m(4) by auto
  have k: "keeps {1} m m'" by (rule keeps_wf_fl [OF m'(3) r(1) m'(2)]) (simp add: m'(4))
  let ?b = "\<lparr>bufs = [1, 2], tail_cache = None, b_len = 6, b_num = 2\<rparr>"
  have n: "node_bytes m' 1 = [1, 2, 3]" using keepsD(2) [OF k] m(2) by simp
  have n2: "node_bytes m' 2 = node_bytes m' 1" using m'(4) p by (simp add: node_bytes_def)
  have "env_ok (m_env m')" using keepsD(3) [OF k] r(2) by simp
  moreover have "wf_list m' ?b" "bl_bytes m' ?b = [1, 2, 3, 1, 2, 3]"
    using n n2 m'(4) p by (simp_all add: wf_list_def wf_nodes_def bl_bytes_def has_raw_def)
  ultimately show ?thesis using m'(2) n
    by (intro exI [of _ m'] exI [of _ ?b]) (simp add: ready_def)
qed

lemma demo_one: "wf_mem m \<Longrightarrow> node_bytes m 1 = [1, 2, 3] \<Longrightarrow> bufs b = [1, 2] \<Longrightarrow> wf_list m b \<Longrightarrow>
    wf_list m \<lparr>bufs = [1], tail_cache = None, b_len = 3, b_num = 1\<rparr>"
  by (simp add: wf_list_def wf_nodes_def bl_bytes_def)

subsection \<open>Reading\<close>

text \<open>
  Indexing gives the byte at that position in whichever node it is, and throws
  \<^verbatim>\<open>end_of_buffer\<close> exactly for positions that are not in the list.
\<close>

lemma index_in_bounds:
  assumes "ready b m"
  shows "blist_index m b pos = (if pos < b_len b then Inr (bl_bytes m b ! pos) else Inl End_of_buffer)"
  using assms by (intro blist_index_bytes) (simp_all add: ready_def two64_def)

lemma index_in_bounds_witness:
  "\<exists>m b. blist_index m b 4 = Inr 2 \<and> blist_index m b 6 = Inl End_of_buffer"
proof -
  obtain m b where r: "ready b m" and b: "bl_bytes m b = [1, 2, 3, 1, 2, 3]" "b_len b = 6"
    using demo_list by blast
  show ?thesis using index_in_bounds [OF r, of 4] index_in_bounds [OF r, of 6] b by auto
qed

text \<open>
  Comparing with a block of memory answers whether the list has exactly
  those bytes. (The empty block is no exception to look for: an empty list compares unequal
  to it.)
\<close>

lemma contents_equal_block:
  assumes "ready b m" "other \<noteq> []"
  shows "contents_equal_raw m b other = Inr (bl_bytes m b = other)"
proof -
  note wl = wf_listD [of m b]
  have wf: "wf_mem m" "wf_list m b" using assms(1) by (simp_all add: ready_def)
  show ?thesis
  proof (cases "b_len b = length other")
    case True
    then have "contents_equal_raw m b other = Inr (other = cat_bytes m (bufs b))"
      using contents_equal_nodes_bytes [OF wf(1) wl(2) [OF wf(2)] _ assms(2)] wl(3) [OF wf(2)]
      by (simp add: contents_equal_raw_def)
    then show ?thesis by (auto simp: bl_bytes_cat)
  next
    case False
    then have "bl_bytes m b \<noteq> other" using wf(2) by (auto simp: wf_list_def)
    then show ?thesis using False by (simp add: contents_equal_raw_def)
  qed
qed

lemma contents_equal_block_witness:
  "\<exists>m b. contents_equal_raw m b [1, 2, 3, 1, 2, 3] = Inr True \<and>
    contents_equal_raw m b [1, 2, 3, 1, 2, 4] = Inr False"
proof -
  obtain m b where r: "ready b m" and b: "bl_bytes m b = [1, 2, 3, 1, 2, 3]"
    using demo_list by blast
  show ?thesis
    using contents_equal_block [OF r, of "[1, 2, 3, 1, 2, 3]"]
      contents_equal_block [OF r, of "[1, 2, 3, 1, 2, 4]"] b by auto
qed

text \<open>
  Comparing two lists is right when the other list's bytes are in its
  first node, however many nodes this list has.
\<close>

lemma contents_equal_one_node:
  assumes "wf_mem m" "wf_list m b" "wf_list m other"
    and "bufs other = oo # os" "length (node_bytes m oo) = b_len other"
  shows "contents_equal m b other = Some (Inr (bl_bytes m b = bl_bytes m other))"
  by (rule contents_equal_one [OF assms])

lemma contents_equal_one_node_witness:
  "\<exists>m b other. bl_bytes m other = [1, 2, 3] \<and> bl_bytes m b = [1, 2, 3, 1, 2, 3] \<and>
    contents_equal m other other = Some (Inr True) \<and> contents_equal m b other = Some (Inr False)"
proof -
  obtain m b where r: "ready b m" and b: "bl_bytes m b = [1, 2, 3, 1, 2, 3]" "bufs b = [1, 2]"
    "node_bytes m 1 = [1, 2, 3]"
    using demo_list by blast
  have wf: "wf_mem m" "wf_list m b" using r by (simp_all add: ready_def)
  let ?o = "\<lparr>bufs = [1], tail_cache = None, b_len = 3, b_num = 1\<rparr>"
  have o: "wf_list m ?o" "bl_bytes m ?o = [1, 2, 3]"
    using demo_one [OF wf(1) b(3,2) wf(2)] b(3) by (simp_all add: bl_bytes_def)
  show ?thesis
    using contents_equal_one_node [OF wf(1) o(1) o(1), of 1 "[]"]
      contents_equal_one_node [OF wf o(1), of 1 "[]"] o(2) b by (intro exI [of _ m] exI [of _ b] exI [of _ ?o]) simp
qed

text \<open>
  C31 (liveness). When the other list's first node ends before the bytes do, comparing two
  lists of the same contents never returns: the position in the other list only moves to
  the next node when it has passed the end of the current one, and it stops at the end.
\<close>

theorem contents_equal_diverges:
  assumes "wf_mem m" "wf_list m b" "wf_list m other" "bl_bytes m b = bl_bytes m other"
    and "bufs other = oo # os" "length (node_bytes m oo) < b_len b"
  shows "contents_equal m b other = None"
  by (rule contents_equal_hangs [OF assms])

theorem contents_equal_diverges_witness:
  "\<exists>m b. ready b m \<and> b_len b = 6 \<and> contents_equal m b b = None"
proof -
  obtain m b where r: "ready b m" and b: "bl_bytes m b = [1, 2, 3, 1, 2, 3]" "bufs b = [1, 2]"
    "b_len b = 6" "node_bytes m 1 = [1, 2, 3]"
    using demo_list by blast
  have wf: "wf_mem m" "wf_list m b" using r by (simp_all add: ready_def)
  have "contents_equal m b b = None"
    by (rule contents_equal_diverges [OF wf wf(2) refl b(2)]) (use b(3,4) in simp)
  then show ?thesis using r b(3) by blast
qed

subsection \<open>Rebuilding and cutting\<close>

text \<open>
  C11 (equivalence). Rebuilding a list changes how its bytes are held, one node in memory of
  its own, and not the bytes; \<^verbatim>\<open>to_str\<close> gives the same string before and after.
\<close>

theorem rebuild_same_bytes:
  assumes "ready b m"
  shows "\<exists>b' m'. blist_rebuild b m = Inr (b', m') \<and> becomes b m (bl_bytes m b) b' m' \<and>
    to_str m' b' = to_str m b \<and> length (bufs b') = (if b_len b = 0 then 0 else 1)"
proof -
  obtain b' m' where *: "blist_rebuild b m = Inr (b', m')" "becomes b m (bl_bytes m b) b' m'"
    "length (bufs b') \<le> 1" "b_len b \<noteq> 0 \<longrightarrow> length (bufs b') = 1" "b_len b = 0 \<longrightarrow> bufs b' = []"
    using blist_rebuild_ok [OF assms] by (elim exE conjE) (rule that)
  have "to_str m b = Inr (bl_bytes m b)"
    by (rule to_str_bytes) (use assms in \<open>simp_all add: ready_def\<close>)
  moreover have "to_str m' b' = Inr (bl_bytes m b)"
    using to_str_bytes [OF _ becomes_wf [OF *(2)]] *(2) by (simp add: becomes_def turns_def)
  ultimately show ?thesis using * by auto
qed

theorem rebuild_same_bytes_witness:
  "\<exists>m b b' m'. length (bufs b) = 2 \<and> blist_rebuild b m = Inr (b', m') \<and> length (bufs b') = 1 \<and>
    to_str m' b' = Inr [1, 2, 3, 1, 2, 3]"
proof -
  obtain m b where r: "ready b m" and b: "bl_bytes m b = [1, 2, 3, 1, 2, 3]" "bufs b = [1, 2]" "b_len b = 6"
    using demo_list by blast
  have "to_str m b = Inr [1, 2, 3, 1, 2, 3]" using to_str_bytes [of m b] r b(1) by (simp add: ready_def)
  moreover obtain b' m' where "blist_rebuild b m = Inr (b', m')" "to_str m' b' = to_str m b"
    "length (bufs b') = (if b_len b = 0 then 0 else 1)"
    using rebuild_same_bytes [OF r] by blast
  ultimately show ?thesis using b
    by (intro exI [of _ m] exI [of _ b] exI [of _ b'] exI [of _ m']) simp
qed

text \<open>
  C9 (functional). A sublist shows exactly the range asked for, whatever it held before, and
  leaves the other list intact, provided the range ends before the other list does.
\<close>

theorem substr_of_range:
  assumes "wf_mem m" "wf_nodes m b" "wf_list m other" "apart b other"
    and "off + len < b_len other" "b_len other < two64" "length (bufs other) < two64"
  shows "\<exists>b' m'. substr_of other off len b m = Inr (b', m') \<and>
    becomes b m (seg off len (bl_bytes m other)) b' m' \<and> wf_list m' other \<and>
    bl_bytes m' other = bl_bytes m other"
  using substr_of_ok [OF assms] by blast

theorem substr_of_range_witness:
  "\<exists>m other b' m'. bl_bytes m other = [1, 2, 3, 1, 2, 3] \<and>
    substr_of other 1 4 blist_new m = Inr (b', m') \<and> bl_bytes m' b' = [2, 3, 1, 2]"
proof -
  obtain m b where r: "ready b m" and b: "bl_bytes m b = [1, 2, 3, 1, 2, 3]" "bufs b = [1, 2]" "b_len b = 6"
    using demo_list by blast
  have wf: "wf_mem m" "wf_list m b" using r by (simp_all add: ready_def)
  have n: "wf_nodes m blist_new" "apart blist_new b"
    by (simp_all add: wf_nodes_def blist_new_def apart_def)
  obtain b' m' where "substr_of b 1 4 blist_new m = Inr (b', m')"
    "becomes blist_new m (seg 1 4 (bl_bytes m b)) b' m'"
    using substr_of_range [OF wf(1) n(1) wf(2) n(2), of 1 4] b(2,3) by (auto simp: two64_def)
  moreover have "seg 1 4 (bl_bytes m b) = [2, 3, 1, 2]"
    unfolding b(1) by (simp add: seg_def numeral_eq_Suc)
  ultimately show ?thesis using b(1) by (auto simp: becomes_def turns_def)
qed

text \<open>
  C30 (error). A range that reaches the end of the other list is not served: the loop has no
  exit there and takes the list's root for a node. A range beyond the end is refused with
  \<^verbatim>\<open>end_of_buffer\<close>.
\<close>

theorem substr_of_at_end:
  assumes "wf_mem m" "wf_nodes m b" "wf_list m other" "apart b other"
    and "b_len other \<le> off + len" "off + len < two64" "len \<noteq> 0"
  shows "substr_of other off len b m = Inl (if off + len = b_len other then Undefined else End_of_buffer)"
  using substr_of_end [OF assms(1-4), of off len] substr_of_beyond [of other off len b m] assms(5-7)
  by auto

theorem substr_of_at_end_witness:
  "\<exists>m other. bl_bytes m other = [1, 2, 3, 1, 2, 3] \<and>
    substr_of other 0 6 blist_new m = Inl Undefined \<and> substr_of other 4 3 blist_new m = Inl End_of_buffer"
proof -
  obtain m b where r: "ready b m" and b: "bl_bytes m b = [1, 2, 3, 1, 2, 3]" "b_len b = 6"
    using demo_list by blast
  have wf: "wf_mem m" "wf_list m b" using r by (simp_all add: ready_def)
  have n: "wf_nodes m blist_new" "apart blist_new b"
    by (simp_all add: wf_nodes_def blist_new_def apart_def)
  show ?thesis
    using substr_of_at_end [OF wf(1) n(1) wf(2) n(2), of 0 6]
      substr_of_at_end [OF wf(1) n(1) wf(2) n(2), of 4 3] b
    by (intro exI [of _ m] exI [of _ b]) (simp add: two64_def)
qed

text \<open>
  C4 (functional). A splice takes exactly the range out of a list, gives exactly the range to
  the list that claims it, if there is one, and touches no other object; no object is lost.
\<close>

theorem splice_takes_range:
  assumes "ready b m" "off + len \<le> b_len b" "claim_ok m cl len (length (bufs b))"
    and "claim_nodes cl \<inter> set (bufs b) = {}"
  shows "\<exists>b' cl' m'. blist_splice off len cl b m = Inr (b', cl', m') \<and> wf_mem m' \<and> wf_list m' b' \<and>
    bl_bytes m' b' = take off (bl_bytes m b) @ drop (off + len) (bl_bytes m b) \<and>
    gains cl m (seg off len (bl_bytes m b)) cl' m' \<and>
    keeps (others m b - claim_nodes cl) m m' \<and>
    others m' b' - claim_nodes cl' = others m b - claim_nodes cl"
  using blist_splice_ok [OF assms] by blast

theorem splice_takes_range_witness:
  "\<exists>m b b' c' m'. bl_bytes m b = [1, 2, 3, 1, 2, 3] \<and>
    blist_splice 1 4 (Some blist_new) b m = Inr (b', Some c', m') \<and>
    bl_bytes m' b' = [1, 3] \<and> bl_bytes m' c' = [2, 3, 1, 2]"
proof -
  obtain m b where r: "ready b m" and b: "bl_bytes m b = [1, 2, 3, 1, 2, 3]" "bufs b = [1, 2]" "b_len b = 6"
    using demo_list by blast
  have cl: "claim_ok m (Some blist_new) 4 (length (bufs b))" "claim_nodes (Some blist_new) \<inter> set (bufs b) = {}"
    using b(2) by (simp_all add: claim_ok_def claim_nodes_def) (simp_all add: blist_new_def)
  have s: "1 + 4 \<le> b_len b" using b(3) by simp
  obtain b' cl' m' where *: "blist_splice 1 4 (Some blist_new) b m = Inr (b', cl', m')"
    "bl_bytes m' b' = take 1 (bl_bytes m b) @ drop (1 + 4) (bl_bytes m b)"
    "gains (Some blist_new) m (seg 1 4 (bl_bytes m b)) cl' m'"
    using splice_takes_range [OF r s cl] by blast
  have "seg 1 4 (bl_bytes m b) = [2, 3, 1, 2]" "bl_bytes m' b' = [1, 3]"
    unfolding *(2) b(1) by (simp_all add: seg_def numeral_eq_Suc)
  moreover obtain c' where "cl' = Some c'" "bl_bytes m' c' = seg 1 4 (bl_bytes m b)"
    using *(3) by (auto simp: gains_def)
  ultimately show ?thesis using b(1) *(1)
    by (intro exI [of _ m] exI [of _ b] exI [of _ b'] exI [of _ c'] exI [of _ m']) simp
qed

text \<open>
  Asking a list that has no cached tail for no space at all aborts.
\<close>

lemma empty_request_aborts:
  assumes "tail_cache b = None"
  shows "obtain_contiguous_space 0 b m = Inl Assert_failed \<and> blist_append_hole 0 b m = Inl Assert_failed"
  using no_tail_aborts [OF assms] by blast

lemma empty_request_aborts_witness:
  "obtain_contiguous_space 0 blist_new (empty_mem demo_env) = Inl Assert_failed"
  using empty_request_aborts [of blist_new] by (simp add: blist_new_def)

text \<open>
  Reserving space changes no byte and leaves a cached tail with that much
  room behind it.
\<close>

lemma reserve_makes_room:
  assumes "ready b m" "0 < n" "n < 2 ^ 62"
  shows "\<exists>b' m' c. blist_reserve n b m = Inr (b', m') \<and> becomes b m (bl_bytes m b) b' m' \<and>
    tail_cache b' = Some c \<and> n \<le> room m' c"
  using blist_reserve_ok [OF assms(1,3)] assms(2) by blast

lemma reserve_makes_room_witness:
  "\<exists>b' m' c. blist_reserve 100 blist_new (empty_mem demo_env) = Inr (b', m') \<and>
    bl_bytes m' b' = [] \<and> tail_cache b' = Some c \<and> 100 \<le> room m' c"
proof -
  obtain b' m' c where "blist_reserve 100 blist_new (empty_mem demo_env) = Inr (b', m')"
    "becomes blist_new (empty_mem demo_env) [] b' m'" "tail_cache b' = Some c" "100 \<le> room m' c"
    using reserve_makes_room [OF ready_demo, of 100] by auto
  then show ?thesis by (auto simp: becomes_def turns_def)
qed

end
