(* ===== verification/Loops.thy ===== *)
theory Loops
  imports Prelude
begin

text \<open>
  Loops that may fail and may run forever. A loop is its body, a step that fails, leaves
  the loop with a result or goes round with a new state; \<open>run\<close> is \<open>None\<close> when it never ends.
\<close>

partial_function (option) run ::
    "('s \<Rightarrow> exn + 'r + 's) \<Rightarrow> 's \<Rightarrow> (exn + 'r) option" where
  "run step s =
    (case step s of
       Inl e \<Rightarrow> Some (Inl e)
     | Inr (Inl r) \<Rightarrow> Some (Inr r)
     | Inr (Inr s') \<Rightarrow> run step s')"

lemma run_simps:
  "step s = Inl e \<Longrightarrow> run step s = Some (Inl e)"
  "step s = Inr (Inl r) \<Longrightarrow> run step s = Some (Inr r)"
  "step s = Inr (Inr s') \<Longrightarrow> run step s = run step s'"
  by (simp_all add: run.simps [of step s])

text \<open>Sequencing: what follows a loop runs when the loop returned.\<close>

definition rbind :: "(exn + 'a) option \<Rightarrow> ('a \<Rightarrow> (exn + 'b) option) \<Rightarrow> (exn + 'b) option" where
  "rbind m f = (case m of None \<Rightarrow> None | Some (Inl e) \<Rightarrow> Some (Inl e) | Some (Inr x) \<Rightarrow> f x)"

lemma rbind_simps [simp]:
  "rbind None f = None"
  "rbind (Some (Inl e)) f = Some (Inl e)"
  "rbind (Some (Inr x)) f = f x"
  by (simp_all add: rbind_def)

text \<open>
  Total correctness: an invariant, a measure that every round lowers, and what holds when the
  loop is left.
\<close>

lemma run_total:
  fixes f :: "'s \<Rightarrow> nat"
  assumes "P s"
    and step: "\<And>s. P s \<Longrightarrow> (\<exists>r. step s = Inr (Inl r) \<and> Q r) \<or>
      (\<exists>s'. step s = Inr (Inr s') \<and> P s' \<and> f s' < f s)"
  shows "\<exists>r. run step s = Some (Inr r) \<and> Q r"
  using assms(1)
proof (induction "f s" arbitrary: s rule: less_induct)
  case less
  from step [OF less.prems] show ?case
  proof
    assume "\<exists>r. step s = Inr (Inl r) \<and> Q r"
    then obtain r where "step s = Inr (Inl r)" "Q r" by blast
    then show ?thesis by (simp add: run.simps [of step s])
  next
    assume "\<exists>s'. step s = Inr (Inr s') \<and> P s' \<and> f s' < f s"
    then obtain s' where s': "step s = Inr (Inr s')" "P s'" "f s' < f s" by blast
    then show ?thesis using less.hyps [OF s'(3,2)] by (simp add: run_simps(3) [of step s s', OF s'(1)])
  qed
qed

text \<open>The same when the loop may also fail, with error \<open>e\<close>.\<close>

lemma run_ends:
  fixes f :: "'s \<Rightarrow> nat"
  assumes "P s"
    and step: "\<And>s. P s \<Longrightarrow> (\<exists>r. step s = r \<and> (\<exists>e. r = Inl e \<and> E e)) \<or>
      (\<exists>r. step s = Inr (Inl r) \<and> Q r) \<or> (\<exists>s'. step s = Inr (Inr s') \<and> P s' \<and> f s' < f s)"
  shows "(\<exists>e. run step s = Some (Inl e) \<and> E e) \<or> (\<exists>r. run step s = Some (Inr r) \<and> Q r)"
  using assms(1)
proof (induction "f s" arbitrary: s rule: less_induct)
  case less
  from step [OF less.prems] consider (fail) e where "step s = Inl e" "E e"
    | (out) r where "step s = Inr (Inl r)" "Q r"
    | (more) s' where "step s = Inr (Inr s')" "P s'" "f s' < f s" by blast
  then show ?case
  proof cases
    case fail
    then show ?thesis by (simp add: run.simps [of step s])
  next
    case out
    then show ?thesis by (simp add: run.simps [of step s])
  next
    case more
    then show ?thesis using less.hyps [OF more(3,2)] by (simp add: run_simps(3) [of step s s', OF more(1)])
  qed
qed

text \<open>A loop that goes round from every state of a set never ends.\<close>

lemma run_forever:
  assumes "P s" and step: "\<And>s. P s \<Longrightarrow> \<exists>s'. step s = Inr (Inr s') \<and> P s'"
  shows "run step s = None"
proof (cases "run step s")
  case (Some c)
  have "step' = step \<longrightarrow> \<not> P s" if "run step' s = Some c" for step' s c
  proof (rule run.raw_induct [of "\<lambda>step' s c. step' = step \<longrightarrow> \<not> P s", OF _ that])
    fix loop step' s c
    assume IH: "\<And>f s c. loop f s = Some c \<Longrightarrow> f = step \<longrightarrow> \<not> P s"
      and eq: "(case step' s of Inl e \<Rightarrow> Some (Inl e) | Inr (Inl r) \<Rightarrow> Some (Inr r)
        | Inr (Inr s') \<Rightarrow> loop step' s') = Some c"
    show "step' = step \<longrightarrow> \<not> P s"
    proof (intro impI notI)
      assume "step' = step" "P s"
      then obtain s' where s': "step' s = Inr (Inr s')" "P s'" using step by blast
      then have "loop step' s' = Some c" using eq by simp
      then show False using IH s'(2) \<open>step' = step\<close> by blast
    qed
  qed
  then show ?thesis using Some assms(1) by blast
qed

text \<open>Partial correctness: what every round keeps holds when the loop has returned.\<close>

lemma run_invariant:
  assumes "run step s = Some (Inr r)" "P s"
    and step: "\<And>s s'. P s \<Longrightarrow> step s = Inr (Inr s') \<Longrightarrow> P s'" "\<And>s r. P s \<Longrightarrow> step s = Inr (Inl r) \<Longrightarrow> Q r"
  shows "Q r"
proof -
  have "step' = step \<longrightarrow> P s \<longrightarrow> (\<forall>r. c = Inr r \<longrightarrow> Q r)" if "run step' s = Some c" for step' s c
  proof (rule run.raw_induct [of "\<lambda>step' s c. step' = step \<longrightarrow> P s \<longrightarrow> (\<forall>r. c = Inr r \<longrightarrow> Q r)", OF _ that])
    fix loop step' s c
    assume IH: "\<And>f s c. loop f s = Some c \<Longrightarrow> f = step \<longrightarrow> P s \<longrightarrow> (\<forall>r. c = Inr r \<longrightarrow> Q r)"
      and eq: "(case step' s of Inl e \<Rightarrow> Some (Inl e) | Inr (Inl r) \<Rightarrow> Some (Inr r)
        | Inr (Inr s') \<Rightarrow> loop step' s') = Some c"
    show "step' = step \<longrightarrow> P s \<longrightarrow> (\<forall>r. c = Inr r \<longrightarrow> Q r)"
    proof (intro impI allI)
      fix r assume h: "step' = step" "P s" "c = Inr r"
      show "Q r"
      proof (cases "step s")
        case (Inr x)
        then show ?thesis
          using eq h IH step(1) [OF h(2)] step(2) [OF h(2)] by (cases x) auto
      qed (use eq h in simp)
    qed
  qed
  then show ?thesis using assms(1,2) by blast
qed

end
