(* ===== verification/List_Crc.thy ===== *)
theory List_Crc
  imports Crc32c Buffer_Read
begin

text \<open>
  The checksum of a \<^verbatim>\<open>buffer::list\<close>: every raw caches the last checksum computed over a window
  of it together with its initial value, and \<^verbatim>\<open>list::crc32c\<close> uses a cached checksum even
  for another initial value. The lemmas show that this never changes the result as long as
  the caches are sound, and that it leaves them sound.
\<close>

subsection \<open>Auditing the caches\<close>

record crc_audit =
  track_crc :: bool
  cached_crc :: nat
  cached_crc_adjusted :: nat
  missed_crc :: nat

definition track_cached_crc :: "bool \<Rightarrow> crc_audit \<Rightarrow> crc_audit" where
  "track_cached_crc btrack a = a\<lparr>track_crc := btrack\<rparr>"

definition get_cached_crc :: "crc_audit \<Rightarrow> nat" where
  "get_cached_crc a = cached_crc a"

definition get_cached_crc_adjusted :: "crc_audit \<Rightarrow> nat" where
  "get_cached_crc_adjusted a = cached_crc_adjusted a"

definition get_missed_crc :: "crc_audit \<Rightarrow> nat" where
  "get_missed_crc a = missed_crc a"

subsection \<open>The checksum\<close>

type_synonym crc_func = "u32 \<Rightarrow> crc_buffer \<Rightarrow> nat \<Rightarrow> u32"

text \<open>How often a cache answered, answered after an adjustment, and missed.\<close>

record crc_counts =
  cache_hits :: nat
  cache_adjusts :: nat
  cache_misses :: nat

text \<open>The length reaches \<^verbatim>\<open>spec_crc32c\<close> as an \<^verbatim>\<open>unsigned\<close>, cut to 32 bits.\<close>

definition node_crc :: "crc_func \<Rightarrow> nat \<Rightarrow> u32 \<Rightarrow> mem \<Rightarrow> exn + u32" where
  "node_crc func i crc m =
    ebind (ptr_length m i) (\<lambda>n.
    ebind (c_str_addr m i) (\<lambda>a.
    ebind (node_read m i 0 (n mod 2 ^ 32)) (\<lambda>bs.
      of_option Undefined (spec_crc32c func crc (Some (a, bs)) (n mod 2 ^ 32)))))"

fun nodes_crc ::
    "crc_func \<Rightarrow> nat list \<Rightarrow> u32 \<Rightarrow> crc_counts \<Rightarrow> mem \<Rightarrow> exn + u32 \<times> crc_counts \<times> mem" where
  "nodes_crc func [] crc k m = Inr (crc, k, m)"
| "nodes_crc func (i # is) crc k m =
     ebind (ptr_at m i) (\<lambda>p.
       if p_len p = 0 then nodes_crc func is crc k m
       else
         ebind (of_option Undefined (p_raw p)) (\<lambda>r.
         ebind (raw_at m r) (\<lambda>w.
         let ofs = (p_off p, add64 (p_off p) (p_len p)) in
         case raw_get_crc w ofs of
           Some (base, val) \<Rightarrow>
             if base = crc then nodes_crc func is val (k\<lparr>cache_hits := cache_hits k + 1\<rparr>) m
             else
               ebind (of_option Undefined (spec_crc32c func (base XOR crc) None (p_len p mod 2 ^ 32)))
                 (\<lambda>adj. nodes_crc func is (val XOR adj) (k\<lparr>cache_adjusts := cache_adjusts k + 1\<rparr>) m)
         | None \<Rightarrow>
             ebind (node_crc func i crc m) (\<lambda>val.
               nodes_crc func is val (k\<lparr>cache_misses := cache_misses k + 1\<rparr>)
                 (raw_set_crc r ofs (crc, val) m)))))"

definition audit :: "crc_counts \<Rightarrow> crc_audit \<Rightarrow> crc_audit" where
  "audit k a =
    (if track_crc a
     then a\<lparr>cached_crc_adjusted := add64 (cached_crc_adjusted a) (cache_adjusts k),
            cached_crc := add64 (cached_crc a) (cache_hits k),
            missed_crc := add64 (missed_crc a) (cache_misses k)\<rparr>
     else a)"

definition list_crc32c ::
    "crc_func \<Rightarrow> blist \<Rightarrow> u32 \<Rightarrow> crc_audit \<Rightarrow> mem \<Rightarrow> exn + u32 \<times> crc_audit \<times> mem" where
  "list_crc32c func b crc a m =
    ebind (nodes_crc func (bufs b) crc \<lparr>cache_hits = 0, cache_adjusts = 0, cache_misses = 0\<rparr> m)
      (\<lambda>(crc, k, m). Inr (crc, audit k a, m))"

subsection \<open>Sound caches\<close>

text \<open>
  What a checksum sees of a window: as many of its bytes as its length says when it is cut to 32 bits.
  Of a window of 4 GiB that is nothing.
\<close>

definition cut32 :: "bytes \<Rightarrow> bytes" where
  "cut32 bs = take (length bs mod 2 ^ 32) bs"

lemma cut32_small: "length bs < 2 ^ 32 \<Longrightarrow> cut32 bs = bs"
  by (simp add: cut32_def)

lemma length_cut32: "length (cut32 bs) = length bs mod 2 ^ 32"
  unfolding cut32_def length_take by (intro min_absorb2 mod_less_eq_dividend)

definition crc_ok :: "raw \<Rightarrow> bool" where
  "crc_ok w \<longleftrightarrow> (let (from, to) = r_crc_offset w in
     from < to \<longrightarrow> to \<le> length (r_data w) \<longrightarrow>
     snd (r_crc_val w) = crc_ref (fst (r_crc_val w)) (cut32 (seg from (to - from) (r_data w))))"

definition crc_sound :: "mem \<Rightarrow> bool" where
  "crc_sound m \<longleftrightarrow> (\<forall>r w. m_raws m r = Some w \<longrightarrow> crc_ok w)"

lemma set_crc_keeps:
  assumes "wf_mem m"
  shows "wf_mem (raw_set_crc r ofs v m)" "node_bytes (raw_set_crc r ofs v m) = node_bytes m"
    "m_ptrs (raw_set_crc r ofs v m) = m_ptrs m" "keeps I m (raw_set_crc r ofs v m)"
proof -
  have "wf_core (\<lambda>_. 0) (raw_set_crc r ofs v m)"
    unfolding raw_set_crc_def
    by (rule wf_core_upd_raw_same [OF wf_flD(1) [OF assms]])
      (use wf_coreD(5) [OF wf_flD(1) [OF assms]] in \<open>auto simp: wf_raw_def\<close>)
  then show "wf_mem (raw_set_crc r ofs v m)"
    using wf_flD(2,3) [OF assms]
    by (auto simp: wf_fl_def null_ok_def flying_def raw_set_crc_def m_raws_upd_raw split: if_splits)
  show p: "m_ptrs (raw_set_crc r ofs v m) = m_ptrs m" by (simp add: raw_set_crc_def)
  show n: "node_bytes (raw_set_crc r ofs v m) = node_bytes m"
    by (auto simp: fun_eq_iff node_bytes_def ptr_bytes_def raw_set_crc_def m_raws_upd_raw split: option.split)
  show "keeps I m (raw_set_crc r ofs v m)"
    using p n by (simp add: keeps_def raw_set_crc_def)
qed

lemma set_crc_sound:
  assumes "crc_sound m" "m_raws m r = Some w" "to \<le> length (r_data w)"
    and "val = crc_ref base (cut32 (seg from (to - from) (r_data w)))"
  shows "crc_sound (raw_set_crc r (from, to) (base, val) m)"
  using assms by (auto simp: crc_sound_def crc_ok_def raw_set_crc_def m_raws_upd_raw Let_def)

lemma no_crc_ok: "r_crc_offset w = no_crc \<Longrightarrow> crc_ok w"
  by (simp add: crc_ok_def no_crc_def)

lemma invalidate_sound:
  "crc_sound m \<Longrightarrow> crc_sound (raw_invalidate_crc r m)"
  by (auto simp: crc_sound_def raw_invalidate_crc_def m_raws_upd_raw intro: no_crc_ok)

text \<open>Two windows of a raw: the cached one is the node's own when the offsets agree.\<close>

lemma cached_node:
  assumes "wf_mem m" "crc_sound m" "m_ptrs m i = Some p" "p_raw p = Some r" "m_raws m r = Some w"
    and "raw_get_crc w (p_off p, p_off p + p_len p) = Some (base, val)" "p_len p \<noteq> 0"
  shows "val = crc_ref base (cut32 (node_bytes m i))"
proof -
  have "crc_ok w" "p_off p + p_len p \<le> length (r_data w)"
    using assms(2,5) wf_ptr_raw [OF wf_flD(1) [OF assms(1)] assms(3,4)] assms(5)
    by (auto simp: crc_sound_def wf_raw_def)
  then show ?thesis using assms(3-7)
    by (auto simp: crc_ok_def raw_get_crc_def node_bytes_def ptr_bytes_def Let_def split: if_splits)
qed

definition count_crc :: "crc_counts \<Rightarrow> nat" where
  "count_crc k = cache_hits k + cache_adjusts k + cache_misses k"

definition filled :: "mem \<Rightarrow> nat list \<Rightarrow> nat" where
  "filled m is = length (filter (\<lambda>i. node_bytes m i \<noteq> []) is)"

text \<open>What the checksum of a list sees; all of its bytes when no node reaches 4 GiB.\<close>

definition seen_bytes :: "mem \<Rightarrow> nat list \<Rightarrow> bytes" where
  "seen_bytes m is = concat (map (\<lambda>i. cut32 (node_bytes m i)) is)"

lemma seen_bytes_small:
  assumes "\<forall>i \<in> set (bufs b). length (node_bytes m i) < 2 ^ 32"
  shows "seen_bytes m (bufs b) = bl_bytes m b"
  unfolding seen_bytes_def bl_bytes_def using assms
  by (intro arg_cong [where f = concat] map_cong refl) (simp add: cut32_small)

lemma nodes_small:
  assumes "wf_list m b" "b_len b < N" "i \<in> set (bufs b)"
  shows "length (node_bytes m i) < N"
proof -
  from assms(3) obtain xs ys where "bufs b = xs @ i # ys" by (meson split_list)
  then show ?thesis using assms(2) wf_listD(3) [OF assms(1)] by simp
qed

definition crc_quiet :: "mem \<Rightarrow> mem \<Rightarrow> bool" where
  "crc_quiet m m' \<longleftrightarrow> wf_mem m' \<and> crc_sound m' \<and> m_ptrs m' = m_ptrs m \<and>
     node_bytes m' = node_bytes m \<and> keeps UNIV m m'"

lemma crc_quiet_trans: "crc_quiet m m1 \<Longrightarrow> crc_quiet m1 m2 \<Longrightarrow> crc_quiet m m2"
  by (auto simp: crc_quiet_def intro: keeps_trans)

context crc32c_routine
begin

lemma node_crc_ok:
  assumes "wf_mem m" "has_raw m i"
  shows "node_crc func i crc m = Inr (crc_ref crc (cut32 (node_bytes m i)))"
proof -
  obtain p r where p: "m_ptrs m i = Some p" "p_raw p = Some r"
    using assms(2) unfolding has_raw_def by blast
  obtain w where w: "m_raws m r = Some w" using wf_ptr_raw [OF wf_flD(1) [OF assms(1)] p] by auto
  obtain a where a: "c_str_addr m i = Inr a"
    using p w by (simp add: c_str_addr_def c_str_def ptr_raw_def ptr_at_def raw_at_def)
  let ?n = "length (node_bytes m i) mod 2 ^ 32"
  have "node_read m i 0 ?n = Inr (seg 0 ?n (node_bytes m i))"
    by (rule node_read_bytes [OF assms]) (simp only: add_0 mod_less_eq_dividend)
  then have read: "node_read m i 0 ?n = Inr (cut32 (node_bytes m i))" by (simp add: cut32_def seg_def)
  have "spec_crc32c func crc (Some (a, cut32 (node_bytes m i))) ?n = Some (crc_ref crc (cut32 (node_bytes m i)))"
    using length_cut32 [of "node_bytes m i"] spec_crc32c_data [of ?n "cut32 (node_bytes m i)" crc a] by simp
  then show ?thesis
    using ptr_length_bytes(1) [OF assms] a read unfolding node_crc_def by simp
qed

text \<open>One node: whatever its cache says, the checksum moves over exactly what it sees of its bytes.\<close>

lemma nodes_crc_node:
  assumes wf: "wf_mem m" "crc_sound m" "has_raw m i"
    and ne: "node_bytes m i \<noteq> []"
  shows "\<exists>k' m'. nodes_crc func (i # is) crc k m =
      nodes_crc func is (crc_ref crc (cut32 (node_bytes m i))) k' m' \<and>
    crc_quiet m m' \<and> count_crc k' = Suc (count_crc k)"
proof -
  let ?x = "cut32 (node_bytes m i)"
  obtain p r where p: "m_ptrs m i = Some p" "p_raw p = Some r"
    using wf(3) unfolding has_raw_def by blast
  obtain w where w: "m_raws m r = Some w" "p_off p + p_len p \<le> r_len w" "r_len w < two64" "wf_raw w"
    using wf_ptr_raw [OF wf_flD(1) [OF wf(1)] p] by auto
  have n: "length (node_bytes m i) = p_len p" by (rule length_node_bytes [OF wf(1) p(1)])
  then have cut: "length ?x = p_len p mod 2 ^ 32" by (simp only: length_cut32)
  have ofs: "add64 (p_off p) (p_len p) = p_off p + p_len p" using w(2,3) by (simp add: arith64)
  have pos: "p_len p \<noteq> 0" using ne n by (cases "p_len p") auto
  have at: "ptr_at m i = Inr p" "raw_at m r = Inr w" "p_len p \<noteq> 0"
    using p(1) w(1) pos by (simp_all add: ptr_at_def raw_at_def)
  have self: "crc_quiet m m" using wf(1,2) by (simp add: crc_quiet_def)
  show ?thesis
  proof (cases "raw_get_crc w (p_off p, p_off p + p_len p)")
    case None
    let ?m = "raw_set_crc r (p_off p, p_off p + p_len p) (crc, crc_ref crc ?x) m"
    have "node_bytes m i = seg (p_off p) (p_off p + p_len p - p_off p) (r_data w)"
      using p w(1) by (simp add: node_bytes_def ptr_bytes_def)
    then have "crc_sound ?m"
      by (intro set_crc_sound [OF wf(2) w(1)]) (use w(2,4) in \<open>simp_all add: wf_raw_def\<close>)
    then have "crc_quiet m ?m" using set_crc_keeps [OF wf(1)] by (simp add: crc_quiet_def)
    moreover have "nodes_crc func (i # is) crc k m =
        nodes_crc func is (crc_ref crc ?x) (k\<lparr>cache_misses := cache_misses k + 1\<rparr>) ?m"
      using at p(2) ofs None node_crc_ok [OF wf(1,3)] by (simp add: Let_def)
    ultimately show ?thesis
      by (intro exI [of _ "k\<lparr>cache_misses := cache_misses k + 1\<rparr>"] exI [of _ ?m])
        (simp add: count_crc_def)
  next
    case (Some c)
    obtain base val where c: "c = (base, val)" by (cases c)
    have val: "val = crc_ref base ?x"
      by (rule cached_node [OF wf(1,2) p w(1)]) (use Some c at(3) in simp_all)
    show ?thesis
    proof (cases "base = crc")
      case True
      then have "nodes_crc func (i # is) crc k m =
          nodes_crc func is (crc_ref crc ?x) (k\<lparr>cache_hits := cache_hits k + 1\<rparr>) m"
        using at p(2) ofs Some c val by (simp add: Let_def)
      then show ?thesis using self
        by (intro exI [of _ "k\<lparr>cache_hits := cache_hits k + 1\<rparr>"] exI [of _ m]) (simp add: count_crc_def)
    next
      case False
      have adj: "spec_crc32c func (base XOR crc) None (p_len p mod 2 ^ 32) =
          Some (crc_ref (base XOR crc) (replicate (p_len p mod 2 ^ 32) 0))"
        by (rule spec_crc32c_null) simp
      have "val XOR crc_ref (base XOR crc) (replicate (p_len p mod 2 ^ 32) 0) = crc_ref crc ?x"
        using crc_ref_change_init [of base "base XOR crc" ?x] cut val by (simp flip: word_bw_assocs)
      then have "nodes_crc func (i # is) crc k m =
          nodes_crc func is (crc_ref crc ?x) (k\<lparr>cache_adjusts := cache_adjusts k + 1\<rparr>) m"
        using False at p(2) ofs Some c adj by (simp add: Let_def)
      then show ?thesis using self
        by (intro exI [of _ "k\<lparr>cache_adjusts := cache_adjusts k + 1\<rparr>"] exI [of _ m]) (simp add: count_crc_def)
    qed
  qed
qed

lemma nodes_crc_ok:
  assumes "wf_mem m" "crc_sound m" "\<forall>i \<in> set is. has_raw m i"
  shows "\<exists>k' m'. nodes_crc func is crc k m = Inr (crc_ref crc (seen_bytes m is), k', m') \<and>
    crc_quiet m m' \<and> count_crc k' = count_crc k + filled m is"
  using assms
proof (induction "is" arbitrary: crc k m)
  case Nil
  then show ?case by (simp add: crc_quiet_def filled_def crc_ref_def seen_bytes_def)
next
  case (Cons i js)
  let ?x = "node_bytes m i"
  have i: "has_raw m i" using Cons.prems(3) by simp
  show ?case
  proof (cases "?x = []")
    case True
    obtain p where p: "m_ptrs m i = Some p" using i unfolding has_raw_def by blast
    then have "nodes_crc func (i # js) crc k m = nodes_crc func js crc k m"
      using True length_node_bytes [OF Cons.prems(1) p] by (simp add: ptr_at_def)
    then show ?thesis using Cons.IH [OF Cons.prems(1,2), of crc k] Cons.prems(3) True
      by (simp add: filled_def seen_bytes_def cut32_def)
  next
    case False
    obtain k1 m1 where m1: "nodes_crc func (i # js) crc k m = nodes_crc func js (crc_ref crc (cut32 ?x)) k1 m1"
      "crc_quiet m m1" "count_crc k1 = Suc (count_crc k)"
      using nodes_crc_node [OF Cons.prems(1,2) i False, of js crc k] by blast
    have q: "wf_mem m1" "crc_sound m1" "node_bytes m1 = node_bytes m" "m_ptrs m1 = m_ptrs m"
      using m1(2) by (simp_all add: crc_quiet_def)
    have raws: "\<forall>j \<in> set js. has_raw m1 j"
      using Cons.prems(3) q(4) by (simp add: has_raw_def)
    obtain k' m' where m': "nodes_crc func js (crc_ref crc (cut32 ?x)) k1 m1 =
        Inr (crc_ref (crc_ref crc (cut32 ?x)) (seen_bytes m1 js), k', m')" "crc_quiet m1 m'"
      "count_crc k' = count_crc k1 + filled m1 js"
      using Cons.IH [OF q(1,2) raws, of "crc_ref crc (cut32 ?x)" k1] by blast
    have "filled m (i # js) = Suc (filled m1 js)" "seen_bytes m1 js = seen_bytes m js"
      using False q(3) by (simp_all add: filled_def seen_bytes_def)
    then show ?thesis using m1 m' crc_quiet_trans [OF m1(2) m'(2)]
      by (intro exI [of _ k'] exI [of _ m']) (simp add: crc_ref_append seen_bytes_def)
  qed
qed

lemma list_crc32c_ok:
  assumes "wf_mem m" "wf_list m b" "crc_sound m"
  shows "\<exists>k m'. list_crc32c func b crc a m = Inr (crc_ref crc (seen_bytes m (bufs b)), audit k a, m') \<and>
    crc_quiet m m' \<and> wf_list m' b \<and> count_crc k = filled m (bufs b)"
proof -
  have raws: "\<forall>i \<in> set (bufs b). has_raw m i" using wf_listD(2) [OF assms(2)] by simp
  obtain k m' where m': "nodes_crc func (bufs b) crc \<lparr>cache_hits = 0, cache_adjusts = 0, cache_misses = 0\<rparr> m
      = Inr (crc_ref crc (seen_bytes m (bufs b)), k, m')" "crc_quiet m m'" "count_crc k = filled m (bufs b)"
    using nodes_crc_ok [OF assms(1,3) raws, of crc "\<lparr>cache_hits = 0, cache_adjusts = 0, cache_misses = 0\<rparr>"]
    by (auto simp: count_crc_def)
  have "m_ptrs m' = m_ptrs m" "node_bytes m' = node_bytes m" using m'(2) by (simp_all add: crc_quiet_def)
  then have "tail_free m' = tail_free m" "has_raw m' = has_raw m" "bl_bytes m' b = bl_bytes m b"
    by (simp_all add: tail_free_def [abs_def] has_raw_def [abs_def] bl_bytes_def)
  then have "wf_list m' b" using assms(2) by (simp add: wf_list_def wf_nodes_def)
  moreover have "list_crc32c func b crc a m = Inr (crc_ref crc (seen_bytes m (bufs b)), audit k a, m')"
    using m'(1) by (simp add: list_crc32c_def)
  ultimately show ?thesis using m'(2,3) by blast
qed

end

subsection \<open>What keeps the caches sound\<close>

lemma crc_sound_empty [simp]: "crc_sound (empty_mem e)"
  by (simp add: crc_sound_def empty_mem_def)

lemma upd_raw_ok:
  assumes "crc_sound m" "\<And>w. m_raws m r = Some w \<Longrightarrow> crc_ok (f w)"
  shows "crc_sound (upd_raw r f m)"
  using assms by (auto simp: crc_sound_def m_raws_upd_raw)

lemma raw_write_invalid:
  assumes "crc_sound m" "raw_write r off bs (raw_invalidate_crc r m) = Inr m'"
  shows "crc_sound m'"
proof -
  have "m' = upd_raw r (\<lambda>w. w\<lparr>r_data := write_at off bs (r_data w)\<rparr>) (raw_invalidate_crc r m)"
    using assms(2) by (auto simp: raw_write_def ebind_Inr_iff split: if_splits)
  then show ?thesis
    by (simp only:) (rule upd_raw_ok [OF invalidate_sound [OF assms(1)]],
      auto simp: raw_invalidate_crc_def m_raws_upd_raw intro!: no_crc_ok)
qed

text \<open>
  Every write that resets the cache keeps the caches sound, and so does writing behind the
  cached range.
\<close>

lemma copy_in_sound:
  assumes "crc_sound m" "ptr_copy_in i off src True m = Inr m'"
  shows "crc_sound m'"
  using assms(2)
  by (auto simp: ptr_copy_in_def ebind_Inr_iff Let_def intro: raw_write_invalid [OF assms(1)])

lemma zero_sound:
  assumes "crc_sound m" "ptr_zero i True m = Inr m'"
  shows "crc_sound m'"
proof -
  obtain p r where p: "ptr_at m i = Inr p" "p_raw p = Some r"
    and w: "ebind (ptr_raw (raw_invalidate_crc r m) i)
      (\<lambda>r'. raw_write r' (p_off p) (replicate (p_len p) 0) (raw_invalidate_crc r m)) = Inr m'"
    using assms(2) by (auto simp: ptr_zero_def ebind_Inr_iff of_option_def split: option.splits)
  have "ptr_raw (raw_invalidate_crc r m) i = Inr r"
    using p by (simp add: ptr_raw_def ptr_at_def raw_invalidate_crc_def)
  then show ?thesis using w raw_write_invalid [OF assms(1)] by simp
qed

lemma raw_write_behind:
  assumes "crc_sound m" "raw_write r off bs m = Inr m'"
    and "\<And>w. m_raws m r = Some w \<Longrightarrow> snd (r_crc_offset w) \<le> off \<or> length (r_data w) < snd (r_crc_offset w)"
  shows "crc_sound m'"
proof -
  have m': "m' = upd_raw r (\<lambda>w. w\<lparr>r_data := write_at off bs (r_data w)\<rparr>) m"
    and fit: "m_raws m r = Some w \<Longrightarrow> off + length bs \<le> length (r_data w)" for w
    using assms(2) by (auto simp: raw_write_def raw_at_def of_option_def ebind_Inr_iff
        split: if_splits option.splits)
  show ?thesis
    unfolding m'
  proof (rule upd_raw_ok [OF assms(1)])
    fix w assume w: "m_raws m r = Some w"
    obtain lo hi where o: "r_crc_offset w = (lo, hi)" by (cases "r_crc_offset w")
    have "seg lo (hi - lo) (write_at off bs (r_data w)) = seg lo (hi - lo) (r_data w)"
      if "lo < hi" "hi \<le> length (r_data w)"
      using assms(3) [OF w] that o fit [OF w] by (intro seg_write_at_before) auto
    moreover have "crc_ok w" using assms(1) w by (simp add: crc_sound_def)
    ultimately show "crc_ok (w\<lparr>r_data := write_at off bs (r_data w)\<rparr>)"
      using o fit [OF w] by (auto simp: crc_ok_def)
  qed
qed

lemma demo_crc: "\<exists>m. wf_mem m \<and> crc_sound m \<and> node_bytes m 1 = [1, 2, 3] \<and>
    m_ptrs m 1 = Some \<lparr>p_raw = Some 0, p_off = 0, p_len = 3\<rparr>"
proof -
  obtain m where m: "wf_mem m" "fresh_ptr 8 [1, 2, 3] (empty_mem demo_env) m"
    using ptr_of_bytes_ok [OF wf_empty_mem, of demo_env "[1, 2, 3]"] env_ok_demo by auto
  have "crc_sound m"
    using m(2) by (auto simp: crc_sound_def fresh_ptr_def empty_mem_def new_raw_def intro!: no_crc_ok split: if_splits)
  then show ?thesis using m fresh_ptr_bytes [OF m(2)]
    by (intro exI [of _ m]) (simp add: fresh_ptr_def empty_mem_def)
qed

subsection \<open>Properties\<close>

text \<open>
  C6 (functional). With any routine that computes CRC-32C, the checksum of a list is that of its nodes'
  bytes in one piece, of each node as many as its length says when it is cut to 32 bits: all the
  list's bytes when no node reaches 4 GiB. The caches of the raws may hold whatever is sound; they
  stay sound, and every node that is not empty is counted once as a hit, an adjusted hit or a miss.
\<close>

theorem list_crc32c_of_bytes:
  assumes "crc32c_routine func" "wf_mem m" "wf_list m b" "crc_sound m"
  shows "(\<exists>k m'. list_crc32c func b crc a m = Inr (crc_ref crc (seen_bytes m (bufs b)), audit k a, m') \<and>
      crc_quiet m m' \<and> wf_list m' b \<and> count_crc k = filled m (bufs b)) \<and>
    ((\<forall>i \<in> set (bufs b). length (node_bytes m i) < 2 ^ 32) \<longrightarrow> seen_bytes m (bufs b) = bl_bytes m b)"
  using crc32c_routine.list_crc32c_ok [OF assms] seen_bytes_small by blast

theorem list_crc32c_of_bytes_witness:
  "\<exists>m b k m'. list_crc32c crc32c_sctp b 0 \<lparr>track_crc = True, cached_crc = 0, cached_crc_adjusted = 0,
      missed_crc = 0\<rparr> m = Inr (crc_ref 0 [1, 2, 3], audit k \<lparr>track_crc = True, cached_crc = 0,
      cached_crc_adjusted = 0, missed_crc = 0\<rparr>, m') \<and> count_crc k = 1"
proof -
  obtain m where m: "wf_mem m" "crc_sound m" "node_bytes m 1 = [1, 2, 3]"
    "m_ptrs m 1 = Some \<lparr>p_raw = Some 0, p_off = 0, p_len = 3\<rparr>"
    using demo_crc by blast
  let ?b = "\<lparr>bufs = [1], tail_cache = None, b_len = 3, b_num = 1\<rparr>"
  let ?a = "\<lparr>track_crc = True, cached_crc = 0, cached_crc_adjusted = 0, missed_crc = 0\<rparr>"
  have l: "wf_list m ?b" "bl_bytes m ?b = [1, 2, 3]"
    using m by (simp_all add: wf_list_def wf_nodes_def bl_bytes_def has_raw_def)
  have "\<forall>i \<in> set (bufs ?b). length (node_bytes m i) < 2 ^ 32" using m(3) by simp
  then have "seen_bytes m (bufs ?b) = [1, 2, 3]" "\<exists>k m'. list_crc32c crc32c_sctp ?b 0 ?a m =
      Inr (crc_ref 0 (seen_bytes m (bufs ?b)), audit k ?a, m') \<and> count_crc k = filled m (bufs ?b)"
    using list_crc32c_of_bytes [OF sctp.crc32c_routine_axioms m(1) l(1) m(2), of 0 ?a] l(2) by auto
  moreover have "filled m (bufs ?b) = 1" using m(3) by (simp add: filled_def)
  ultimately show ?thesis by metis
qed

text \<open>
  The caches stay sound under every write that resets the cache of the raw
  it writes to.
\<close>

lemma caches_stay_sound:
  assumes "crc_sound m" "ptr_copy_in i off src True m = Inr m' \<or> ptr_zero i True m = Inr m'"
  shows "crc_sound m'"
  using copy_in_sound [OF assms(1)] zero_sound [OF assms(1)] assms(2) by blast

lemma caches_stay_sound_witness:
  "\<exists>m m'. ptr_copy_in 1 1 [7, 8] True m = Inr m' \<and> crc_sound m'"
proof -
  obtain m where m: "wf_mem m" "crc_sound m"
    "m_ptrs m 1 = Some \<lparr>p_raw = Some 0, p_off = 0, p_len = 3\<rparr>"
    using demo_crc by blast
  obtain m' where m': "ptr_copy_in 1 1 [7, 8] True m = Inr m'"
    using ptr_copy_in_ok [OF m(1,3), of 0 1 "[7, 8]" True] by auto
  show ?thesis using m' caches_stay_sound [OF m(2) disjI1, OF m'] by blast
qed

end
