(* ===== verification/Buffer_Iter.thy ===== *)
theory Buffer_Iter
  imports Loops List_Crc Buffer_List
begin

text \<open>
  The iterator of \<^verbatim>\<open>buffer::list\<close> (\<^verbatim>\<open>iterator_impl\<close> and \<^verbatim>\<open>iterator\<close>): a node of the list, or
  the end, with the offset in that node and the offset in the whole list. Its copying
  operations are loops over \<^verbatim>\<open>operator+=\<close>.
\<close>

record iter =
  it_node :: "nat option"
  it_r_off :: nat
  it_a_off :: nat

text \<open>
  Inside an operation the position is the nodes from the current one on and the two offsets.
\<close>

type_synonym cursor = "nat list \<times> nat \<times> nat"

definition node_of :: "nat list \<Rightarrow> nat option" where
  "node_of cur = (case cur of [] \<Rightarrow> None | i # _ \<Rightarrow> Some i)"

definition cursor_of :: "blist \<Rightarrow> iter \<Rightarrow> cursor" where
  "cursor_of b it =
    (case it_node it of None \<Rightarrow> [] | Some i \<Rightarrow> dropWhile (\<lambda>j. j \<noteq> i) (bufs b),
     it_r_off it, it_a_off it)"

definition iter_of :: "cursor \<Rightarrow> iter" where
  "iter_of c = (case c of (cur, r, a) \<Rightarrow> \<lparr>it_node = node_of cur, it_r_off = r, it_a_off = a\<rparr>)"

subsection \<open>Moving\<close>

fun skip_nodes :: "mem \<Rightarrow> nat \<Rightarrow> nat list \<Rightarrow> exn + nat \<times> nat list" where
  "skip_nodes m r [] = Inr (r, [])"
| "skip_nodes m r (i # is) =
     ebind (ptr_length m i) (\<lambda>n.
       if r \<ge> n then skip_nodes m (sub64 r n) is else Inr (r, i # is))"

definition cur_add :: "mem \<Rightarrow> nat \<Rightarrow> cursor \<Rightarrow> exn + cursor" where
  "cur_add m off c =
    (case c of (cur, r, a) \<Rightarrow>
       ebind (skip_nodes m (add64 r off) cur) (\<lambda>(r, cur).
         if cur = [] \<and> r \<noteq> 0 then Inl End_of_buffer else Inr (cur, r, add64 a off)))"

definition cur_seek :: "mem \<Rightarrow> blist \<Rightarrow> nat \<Rightarrow> exn + cursor" where
  "cur_seek m b off = cur_add m off (bufs b, 0, 0)"

definition iter_add :: "mem \<Rightarrow> blist \<Rightarrow> nat \<Rightarrow> iter \<Rightarrow> exn + iter" where
  "iter_add m b off it = ebind (cur_add m off (cursor_of b it)) (\<lambda>c. Inr (iter_of c))"

definition iter_seek :: "mem \<Rightarrow> blist \<Rightarrow> nat \<Rightarrow> exn + iter" where
  "iter_seek m b off = ebind (cur_seek m b off) (\<lambda>c. Inr (iter_of c))"

definition iter_new :: "mem \<Rightarrow> blist \<Rightarrow> nat \<Rightarrow> exn + iter" where
  "iter_new m b off = ebind (cur_add m off (bufs b, 0, 0)) (\<lambda>c. Inr (iter_of c))"

definition iter_next :: "mem \<Rightarrow> blist \<Rightarrow> iter \<Rightarrow> exn + iter" where
  "iter_next m b it = (if it_node it = None then Inl End_of_buffer else iter_add m b 1 it)"

definition iter_end :: "iter \<Rightarrow> bool" where
  "iter_end it \<longleftrightarrow> it_node it = None"

definition get_off :: "iter \<Rightarrow> nat" where
  "get_off it = it_a_off it"

definition get_remaining :: "blist \<Rightarrow> iter \<Rightarrow> nat" where
  "get_remaining b it = sub64 (b_len b) (it_a_off it)"

definition iter_eq :: "bool \<Rightarrow> iter \<Rightarrow> iter \<Rightarrow> bool" where
  "iter_eq same_list lhs rhs \<longleftrightarrow> same_list \<and> get_off lhs = get_off rhs"

subsection \<open>Looking\<close>

definition iter_deref :: "mem \<Rightarrow> iter \<Rightarrow> exn + u8" where
  "iter_deref m it =
    (case it_node it of None \<Rightarrow> Inl End_of_buffer | Some i \<Rightarrow> ptr_index m i (it_r_off it))"

definition get_current_ptr :: "iter \<Rightarrow> mem \<Rightarrow> exn + nat \<times> mem" where
  "get_current_ptr it m =
    (case it_node it of
       None \<Rightarrow> Inl End_of_buffer
     | Some i \<Rightarrow> ebind (ptr_length m i) (\<lambda>n. ptr_sub i (it_r_off it) (sub64 n (it_r_off it)) m))"

definition is_pointing_same_raw :: "mem \<Rightarrow> iter \<Rightarrow> nat \<Rightarrow> exn + bool" where
  "is_pointing_same_raw m it other =
    (case it_node it of
       None \<Rightarrow> Inl End_of_buffer
     | Some i \<Rightarrow> ebind (ptr_at m i) (\<lambda>p. ebind (ptr_at m other) (\<lambda>q. Inr (p_raw p = p_raw q))))"

subsection \<open>Copying out\<close>

text \<open>An iterator that reached the end of a list that has grown since is set anew.\<close>

definition cur_restart :: "mem \<Rightarrow> blist \<Rightarrow> cursor \<Rightarrow> exn + cursor" where
  "cur_restart m b c = (case c of ([], r, a) \<Rightarrow> cur_seek m b a | _ \<Rightarrow> Inr c)"

definition copy_len :: "nat \<Rightarrow> nat \<Rightarrow> nat \<Rightarrow> nat" where
  "copy_len n r len = (if len < sub64 n r then len else sub64 n r)"

text \<open>One round: \<open>rd\<close> reads a range of a node, for \<^verbatim>\<open>copy_out\<close> or straight from its memory.\<close>

definition read_round ::
    "(mem \<Rightarrow> nat \<Rightarrow> nat \<Rightarrow> nat \<Rightarrow> exn + bytes) \<Rightarrow> mem \<Rightarrow> nat \<times> bytes \<times> cursor
      \<Rightarrow> exn + (bytes \<times> cursor) + (nat \<times> bytes \<times> cursor)" where
  "read_round rd m s =
    (case s of (len, dest, cur, r, a) \<Rightarrow>
       if len = 0 then Inr (Inl (dest, cur, r, a))
       else case cur of
         [] \<Rightarrow> Inl End_of_buffer
       | i # _ \<Rightarrow>
         ebind (ptr_length m i) (\<lambda>n.
         let k = copy_len n r len in
         ebind (rd m i r k) (\<lambda>bs.
         ebind (cur_add m k (cur, r, a)) (\<lambda>c. Inr (Inr (len - k, dest @ bs, c))))))"

definition iter_read ::
    "(mem \<Rightarrow> nat \<Rightarrow> nat \<Rightarrow> nat \<Rightarrow> exn + bytes) \<Rightarrow> mem \<Rightarrow> blist \<Rightarrow> nat \<Rightarrow> bytes \<Rightarrow> iter
      \<Rightarrow> (exn + bytes \<times> iter) option" where
  "iter_read rd m b len dest it =
    rbind (Some (cur_restart m b (cursor_of b it))) (\<lambda>c.
    rbind (run (read_round rd m) (len, dest, c)) (\<lambda>(bs, c). Some (Inr (bs, iter_of c))))"

definition iter_copy :: "mem \<Rightarrow> blist \<Rightarrow> nat \<Rightarrow> iter \<Rightarrow> (exn + bytes \<times> iter) option" where
  "iter_copy m b len it = iter_read ptr_copy_out m b len [] it"

text \<open>To a string the bytes are appended straight from the node's memory.\<close>

definition iter_copy_str ::
    "mem \<Rightarrow> blist \<Rightarrow> nat \<Rightarrow> bytes \<Rightarrow> iter \<Rightarrow> (exn + bytes \<times> iter) option" where
  "iter_copy_str m b len dest it = iter_read node_read m b len dest it"

text \<open>To another list the windows are appended, sharing the memory.\<close>

definition copy_list_round ::
    "nat \<times> blist \<times> cursor \<times> mem \<Rightarrow>
     exn + (blist \<times> cursor \<times> mem) + (nat \<times> blist \<times> cursor \<times> mem)" where
  "copy_list_round s =
    (case s of (len, dest, (cur, r, a), m) \<Rightarrow>
       if len = 0 then Inr (Inl (dest, (cur, r, a), m))
       else case cur of
         [] \<Rightarrow> Inl End_of_buffer
       | i # _ \<Rightarrow>
         ebind (ptr_length m i) (\<lambda>n.
         let k = copy_len n r len in
         ebind (blist_append_range i r k dest m) (\<lambda>(dest, m).
         ebind (cur_add m k (cur, r, a)) (\<lambda>c. Inr (Inr (len - k, dest, c, m))))))"

definition iter_copy_list ::
    "blist \<Rightarrow> nat \<Rightarrow> blist \<Rightarrow> iter \<Rightarrow> mem \<Rightarrow> (exn + blist \<times> iter \<times> mem) option" where
  "iter_copy_list b len dest it m =
    rbind (Some (cur_restart m b (cursor_of b it))) (\<lambda>c.
    rbind (run copy_list_round (len, dest, c, m)) (\<lambda>(dest, c, m). Some (Inr (dest, iter_of c, m))))"

text \<open>\<^verbatim>\<open>copy_all\<close> appends copies of all that is left.\<close>

definition copy_all_round ::
    "blist \<times> cursor \<times> mem \<Rightarrow> exn + (blist \<times> cursor \<times> mem) + (blist \<times> cursor \<times> mem)" where
  "copy_all_round s =
    (case s of (dest, (cur, r, a), m) \<Rightarrow>
       case cur of
         [] \<Rightarrow> Inr (Inl (dest, (cur, r, a), m))
       | i # _ \<Rightarrow>
         ebind (ptr_length m i) (\<lambda>n.
         let k = sub64 n r in
         ebind (node_read m i r k) (\<lambda>bs.
         ebind (blist_append bs dest m) (\<lambda>(dest, m).
         ebind (cur_add m k (cur, r, a)) (\<lambda>c. Inr (Inr (dest, c, m)))))))"

definition iter_copy_all ::
    "blist \<Rightarrow> blist \<Rightarrow> iter \<Rightarrow> mem \<Rightarrow> (exn + blist \<times> iter \<times> mem) option" where
  "iter_copy_all b dest it m =
    rbind (Some (cur_restart m b (cursor_of b it))) (\<lambda>c.
    rbind (run copy_all_round (dest, c, m)) (\<lambda>(dest, c, m). Some (Inr (dest, iter_of c, m))))"

text \<open>
  \<^verbatim>\<open>dest = create(len)\<close> moves a temporary into \<open>dest\<close>; \<^verbatim>\<open>copy\<close> then fills its memory, which is
  new and so not read by the loop.
\<close>

definition ptr_create_into :: "nat \<Rightarrow> nat \<Rightarrow> mem \<Rightarrow> exn + mem" where
  "ptr_create_into dest len m =
    ebind (create_raw len m) (\<lambda>(r, m).
    ebind (ptr_of_raw r m) (\<lambda>(k, m).
    ebind (ptr_assign_move dest k m) (ptr_destroy k)))"

definition copy_deep_tail :: "blist \<Rightarrow> nat \<Rightarrow> nat \<Rightarrow> iter \<Rightarrow> mem \<Rightarrow> (exn + iter \<times> mem) option" where
  "copy_deep_tail b len dest it m =
    rbind (Some (ptr_create_into dest len m)) (\<lambda>m.
    rbind (Some (c_str m dest)) (\<lambda>(r, off).
    rbind (iter_copy m b len it) (\<lambda>(bs, it).
      Some (ebind (raw_write r off bs m) (\<lambda>m. Inr (it, m))))))"

definition iter_copy_deep :: "blist \<Rightarrow> nat \<Rightarrow> nat \<Rightarrow> iter \<Rightarrow> mem \<Rightarrow> (exn + iter \<times> mem) option" where
  "iter_copy_deep b len dest it m =
    (if len = 0 then Some (Inr (it, m))
     else if it_node it = None then Some (Inl End_of_buffer)
     else copy_deep_tail b len dest it m)"

definition iter_copy_shallow :: "blist \<Rightarrow> nat \<Rightarrow> nat \<Rightarrow> iter \<Rightarrow> mem \<Rightarrow> (exn + iter \<times> mem) option" where
  "iter_copy_shallow b len dest it m =
    (if len = 0 then Some (Inr (it, m))
     else case it_node it of
       None \<Rightarrow> Some (Inl End_of_buffer)
     | Some i \<Rightarrow>
       rbind (Some (ptr_length m i)) (\<lambda>n.
         if sub64 n (it_r_off it) < len then copy_deep_tail b len dest it m
         else Some (
           ebind (ptr_sub i (it_r_off it) len m) (\<lambda>(k, m).
           ebind (ptr_assign_move dest k m) (\<lambda>m.
           ebind (ptr_destroy k m) (\<lambda>m.
           ebind (iter_add m b len it) (\<lambda>it. Inr (it, m))))))))"

subsection \<open>Reading in place\<close>

text \<open>The position read from, \<open>None\<close> at the end, and how many bytes can be read there.\<close>

definition cur_get_ptr ::
    "mem \<Rightarrow> blist \<Rightarrow> nat \<Rightarrow> cursor \<Rightarrow> exn + (nat \<times> nat) option \<times> nat \<times> cursor" where
  "cur_get_ptr m b max_req_size c =
    ebind (cur_restart m b c) (\<lambda>(cur, r, a).
      case cur of
        [] \<Rightarrow> Inr (None, 0, cur, r, a)
      | i # is \<Rightarrow>
        ebind (c_str m i) (\<lambda>(w, off).
        ebind (ptr_length m i) (\<lambda>n.
        let rst = min (sub64 n r) max_req_size;
            r' = add64 r rst;
            a' = add64 a rst
        in Inr (Some (w, off + r), rst,
                if r' = n then (is, 0, a') else (cur, r', a')))))"

definition get_ptr_and_advance ::
    "mem \<Rightarrow> blist \<Rightarrow> nat \<Rightarrow> iter \<Rightarrow> exn + (nat \<times> nat) option \<times> nat \<times> iter" where
  "get_ptr_and_advance m b max_req_size it =
    ebind (cur_get_ptr m b max_req_size (cursor_of b it)) (\<lambda>(p, len, c). Inr (p, len, iter_of c))"

text \<open>What \<^verbatim>\<open>spec_crc32c\<close> reads at the position.\<close>

definition crc_at :: "mem \<Rightarrow> (nat \<times> nat) option \<Rightarrow> nat \<Rightarrow> exn + crc_buffer" where
  "crc_at m p len =
    (case p of
       None \<Rightarrow> Inr None
     | Some (r, off) \<Rightarrow>
         ebind (raw_at m r) (\<lambda>w. ebind (raw_read m r off len) (\<lambda>bs. Inr (Some (add64 (r_addr w) off, bs)))))"

definition iter_crc_round ::
    "crc_func \<Rightarrow> mem \<Rightarrow> blist \<Rightarrow> nat \<times> u32 \<times> cursor \<Rightarrow> exn + (u32 \<times> cursor) + (nat \<times> u32 \<times> cursor)" where
  "iter_crc_round func m b s =
    (case s of (left, crc, c) \<Rightarrow>
       if left = 0 then Inr (Inl (crc, c))
       else
         ebind (cur_get_ptr m b left c) (\<lambda>(p, len, c).
         ebind (crc_at m p (len mod 2 ^ 32)) (\<lambda>buf.
         ebind (of_option Undefined (spec_crc32c func crc buf (len mod 2 ^ 32))) (\<lambda>crc.
           Inr (Inr (sub64 left len, crc, c))))))"

definition iter_crc32c ::
    "crc_func \<Rightarrow> mem \<Rightarrow> blist \<Rightarrow> nat \<Rightarrow> u32 \<Rightarrow> iter \<Rightarrow> (exn + u32 \<times> iter) option" where
  "iter_crc32c func m b len crc it =
    rbind (run (iter_crc_round func m b) (min len (get_remaining b it), crc, cursor_of b it))
      (\<lambda>(crc, c). Some (Inr (crc, iter_of c)))"

subsection \<open>Copying in\<close>

definition copy_in_round ::
    "bool \<Rightarrow> bytes \<times> cursor \<times> mem \<Rightarrow> exn + (cursor \<times> mem) + (bytes \<times> cursor \<times> mem)" where
  "copy_in_round crc_reset s =
    (case s of (src, (cur, r, a), m) \<Rightarrow>
       if src = [] then Inr (Inl ((cur, r, a), m))
       else case cur of
         [] \<Rightarrow> Inl End_of_buffer
       | i # _ \<Rightarrow>
         ebind (ptr_length m i) (\<lambda>n.
         let k = copy_len n r (length src) in
         ebind (ptr_copy_in i r (take k src) crc_reset m) (\<lambda>m.
         ebind (cur_add m k (cur, r, a)) (\<lambda>c. Inr (Inr (drop k src, c, m))))))"

definition iter_copy_in :: "blist \<Rightarrow> bytes \<Rightarrow> bool \<Rightarrow> iter \<Rightarrow> mem \<Rightarrow> (exn + iter \<times> mem) option" where
  "iter_copy_in b src crc_reset it m =
    rbind (Some (cur_restart m b (cursor_of b it))) (\<lambda>c.
    rbind (run (copy_in_round crc_reset) (src, c, m)) (\<lambda>(c, m). Some (Inr (iter_of c, m))))"

text \<open>From another list: its nodes in turn, until \<open>left\<close> bytes are copied.\<close>

fun copy_in_nodes ::
    "blist \<Rightarrow> nat \<Rightarrow> nat list \<Rightarrow> iter \<Rightarrow> mem \<Rightarrow> (exn + iter \<times> mem) option" where
  "copy_in_nodes b left [] it m = Some (Inr (it, m))"
| "copy_in_nodes b left (j # js) it m =
     rbind (Some (ptr_length m j)) (\<lambda>n.
     let l = (if left < n then left else n) in
     rbind (Some (node_read m j 0 l)) (\<lambda>src.
     rbind (iter_copy_in b src True it m) (\<lambda>(it, m).
       if left - l = 0 then Some (Inr (it, m)) else copy_in_nodes b (left - l) js it m)))"

definition iter_copy_in_list :: "blist \<Rightarrow> nat \<Rightarrow> blist \<Rightarrow> iter \<Rightarrow> mem \<Rightarrow> (exn + iter \<times> mem) option" where
  "iter_copy_in_list b len other it m =
    rbind (Some (cur_restart m b (cursor_of b it))) (\<lambda>c.
      copy_in_nodes b len (bufs other) (iter_of c) m)"

end
