(* ===== verification/Iter_Spec.thy ===== *)
theory Iter_Spec
  imports Buffer_Iter Buffer_Cut_Props
begin

text \<open>
  What the iterator promises: a position is an offset into the list's bytes, moving adds to
  it, and copying out reads the bytes from there on, across nodes, empty ones included.
\<close>

subsection \<open>Positions\<close>

definition cursor_ok :: "mem \<Rightarrow> nat list \<Rightarrow> cursor \<Rightarrow> bool" where
  "cursor_ok m is c = (case c of (cur, r, a) \<Rightarrow>
     (\<exists>pre. is = pre @ cur \<and> a = length (cat_bytes m pre) + r) \<and>
     (if cur = [] then r = 0 else r \<le> length (node_bytes m (hd cur))))"

definition iter_ok :: "mem \<Rightarrow> blist \<Rightarrow> iter \<Rightarrow> bool" where
  "iter_ok m b it \<longleftrightarrow> cursor_ok m (bufs b) (cursor_of b it) \<and> node_of (fst (cursor_of b it)) = it_node it"

lemma cursor_okD:
  assumes "cursor_ok m is (cur, r, a)"
  shows "\<exists>pre. is = pre @ cur \<and> a = length (cat_bytes m pre) + r" "a \<le> length (cat_bytes m is)"
    "cur = [] \<Longrightarrow> r = 0 \<and> a = length (cat_bytes m is)"
    "cur \<noteq> [] \<Longrightarrow> r \<le> length (node_bytes m (hd cur))" "set cur \<subseteq> set is"
  using assms by (auto simp: cursor_ok_def neq_Nil_conv split: if_splits)

lemma cursor_start: "cursor_ok m is (is, 0, 0)"
  by (simp add: cursor_ok_def)

lemma cursor_of_iter:
  assumes "distinct (bufs b)" "cursor_ok m (bufs b) c"
  shows "cursor_of b (iter_of c) = c" "iter_ok m b (iter_of c)"
proof -
  obtain cur r a where c: "c = (cur, r, a)" by (cases c)
  obtain pre where pre: "bufs b = pre @ cur" using assms(2) by (auto simp: c cursor_ok_def)
  have "dropWhile (\<lambda>j. j \<noteq> i) (pre @ i # is) = i # is" if "i \<notin> set pre" for i "is"
    using that by (induction pre) auto
  then show eq: "cursor_of b (iter_of c) = c"
    using assms(1) pre by (auto simp: c cursor_of_def iter_of_def node_of_def split: list.splits)
  show "iter_ok m b (iter_of c)"
    using assms(2) by (simp add: iter_ok_def eq) (simp add: c iter_of_def)
qed

text \<open>The bytes at a position.\<close>

lemma cursor_bytes:
  assumes "cursor_ok m is (i # cur, r, a)" "r + k \<le> length (node_bytes m i)"
  shows "seg a k (cat_bytes m is) = seg r k (node_bytes m i)"
proof -
  obtain pre where "is = pre @ i # cur" "a = length (cat_bytes m pre) + r"
    using cursor_okD(1) [OF assms(1)] by blast
  then show ?thesis using assms(2) by (simp add: seg_def)
qed

lemma cursor_left:
  assumes "cursor_ok m is (cur, r, a)"
  shows "length (cat_bytes m is) - a = length (cat_bytes m cur) - r" "r \<le> length (cat_bytes m cur)"
proof -
  obtain pre where p: "is = pre @ cur" "a = length (cat_bytes m pre) + r"
    using cursor_okD(1) [OF assms] by blast
  then show "length (cat_bytes m is) - a = length (cat_bytes m cur) - r" by simp
  show "r \<le> length (cat_bytes m cur)"
    using cursor_okD(3,4) [OF assms] by (cases cur) auto
qed

subsection \<open>Moving\<close>

lemma skip_nodes_ok:
  assumes "wf_mem m" "\<forall>i \<in> set cur. has_raw m i" "r < two64"
  shows "if r \<le> length (cat_bytes m cur)
    then \<exists>r' sk cur'. skip_nodes m r cur = Inr (r', cur') \<and> cur = sk @ cur' \<and>
      r = length (cat_bytes m sk) + r' \<and> (if cur' = [] then r' = 0 else r' < length (node_bytes m (hd cur')))
    else \<exists>r'. skip_nodes m r cur = Inr (r', []) \<and> r' \<noteq> 0"
  using assms(2,3)
proof (induction cur arbitrary: r)
  case (Cons i js)
  let ?x = "node_bytes m i"
  have n: "ptr_length m i = Inr (length ?x)" using ptr_length_bytes [OF assms(1)] Cons.prems(1) by simp
  show ?case
  proof (cases "length ?x \<le> r")
    case True
    have d: "sub64 r (length ?x) = r - length ?x" using True Cons.prems(2) by (simp add: arith64)
    have s: "skip_nodes m r (i # js) = skip_nodes m (r - length ?x) js" using n d True by simp
    have IH: "if r - length ?x \<le> length (cat_bytes m js)
      then \<exists>r' sk cur'. skip_nodes m (r - length ?x) js = Inr (r', cur') \<and> js = sk @ cur' \<and>
        r - length ?x = length (cat_bytes m sk) + r' \<and>
        (if cur' = [] then r' = 0 else r' < length (node_bytes m (hd cur')))
      else \<exists>r'. skip_nodes m (r - length ?x) js = Inr (r', []) \<and> r' \<noteq> 0"
      by (rule Cons.IH) (use Cons.prems in auto)
    show ?thesis
    proof (cases "r \<le> length (cat_bytes m (i # js))")
      case small: True
      have le: "r - length ?x \<le> length (cat_bytes m js)" using small by auto
      obtain r' sk cur' where k: "skip_nodes m (r - length ?x) js = Inr (r', cur')" "js = sk @ cur'"
        "r - length ?x = length (cat_bytes m sk) + r'"
        "if cur' = [] then r' = 0 else r' < length (node_bytes m (hd cur'))"
        using IH unfolding if_P [OF le] by blast
      have "r = length (cat_bytes m (i # sk)) + r'" using k(3) True by auto
      then have "\<exists>r' sk cur'. skip_nodes m r (i # js) = Inr (r', cur') \<and> i # js = sk @ cur' \<and>
          r = length (cat_bytes m sk) + r' \<and> (if cur' = [] then r' = 0 else r' < length (node_bytes m (hd cur')))"
        unfolding s using k(1,2,4) by (intro exI [of _ r'] exI [of _ "i # sk"] exI [of _ cur']) simp
      then show ?thesis using small by simp
    next
      case False
      then show ?thesis using IH True unfolding s by (auto split: if_splits)
    qed
  next
    case False
    then have "skip_nodes m r (i # js) = Inr (r, i # js)" using n by simp
    then show ?thesis using False by (auto intro!: exI [of _ "[]"])
  qed
qed auto

text \<open>A position that was moved is inside a node, or at the end.\<close>

definition settled :: "mem \<Rightarrow> cursor \<Rightarrow> bool" where
  "settled m c = (case c of (cur, r, a) \<Rightarrow> cur \<noteq> [] \<longrightarrow> r < length (node_bytes m (hd cur)))"

lemma cur_add_ok:
  assumes "wf_mem m" "\<forall>i \<in> set is. has_raw m i" "length (cat_bytes m is) < two64"
    and "cursor_ok m is (cur, r, a)" "a + off \<le> length (cat_bytes m is)"
  shows "\<exists>cur' r'. cur_add m off (cur, r, a) = Inr (cur', r', a + off) \<and>
    cursor_ok m is (cur', r', a + off) \<and> settled m (cur', r', a + off) \<and> length cur' \<le> length cur \<and>
    (cur \<noteq> [] \<longrightarrow> length (node_bytes m (hd cur)) \<le> r + off \<longrightarrow> length cur' < length cur)"
proof -
  obtain pre where p: "is = pre @ cur" "a = length (cat_bytes m pre) + r"
    using cursor_okD(1) [OF assms(4)] by blast
  have fit: "r + off \<le> length (cat_bytes m cur)" using assms(5) p by simp
  have lt: "add64 r off = r + off" "add64 a off = a + off" "r + off < two64"
    using assms(3,5) p by (simp_all add: arith64)
  have raws: "\<forall>i \<in> set cur. has_raw m i" using assms(2) p(1) by simp
  obtain r' sk cur' where k: "skip_nodes m (r + off) cur = Inr (r', cur')" "cur = sk @ cur'"
    "r + off = length (cat_bytes m sk) + r'"
    "if cur' = [] then r' = 0 else r' < length (node_bytes m (hd cur'))"
    using skip_nodes_ok [OF assms(1) raws lt(3)] unfolding if_P [OF fit] by blast
  have "cur_add m off (cur, r, a) = Inr (cur', r', a + off)"
    using k(1,4) lt by (auto simp: cur_add_def split: if_splits)
  moreover have "cursor_ok m is (cur', r', a + off)"
    unfolding cursor_ok_def using k(2-4) p
    by (auto intro!: exI [of _ "pre @ sk"] split: if_splits)
  moreover have "length cur' < length cur" if "cur \<noteq> []" "length (node_bytes m (hd cur)) \<le> r + off"
    using k(2-4) that by (cases sk) (auto split: if_splits)
  ultimately show ?thesis using k(2,4) by (auto simp: settled_def split: if_splits)
qed

lemma cur_add_beyond:
  assumes "wf_mem m" "\<forall>i \<in> set is. has_raw m i" "cursor_ok m is (cur, r, a)"
    and "length (cat_bytes m is) < a + off" "a + off < two64"
  shows "cur_add m off (cur, r, a) = Inl End_of_buffer"
proof -
  obtain pre where p: "is = pre @ cur" "a = length (cat_bytes m pre) + r"
    using cursor_okD(1) [OF assms(3)] by blast
  have lt: "add64 r off = r + off" "r + off < two64" and over: "\<not> r + off \<le> length (cat_bytes m cur)"
    using assms(4,5) p by (simp_all add: arith64)
  have raws: "\<forall>i \<in> set cur. has_raw m i" using assms(2) p(1) by simp
  show ?thesis using skip_nodes_ok [OF assms(1) raws lt(2)] over lt(1) by (auto simp: cur_add_def)
qed

lemma round_len:
  assumes "r \<le> n" "n < two64"
  shows "copy_len n r len = min len (n - r)"
  using assms by (simp add: copy_len_def arith64 min_def)

subsection \<open>Loops that read\<close>

text \<open>What the loops need of the way a node is read.\<close>

locale node_reader =
  fixes rd :: "mem \<Rightarrow> nat \<Rightarrow> nat \<Rightarrow> nat \<Rightarrow> exn + bytes"
  assumes rd_bytes: "wf_mem m \<Longrightarrow> has_raw m i \<Longrightarrow> off + len \<le> length (node_bytes m i) \<Longrightarrow>
    rd m i off len = Inr (seg off len (node_bytes m i))"
begin

lemma read_round_step:
  assumes wf: "wf_mem m" "\<forall>i \<in> set is. has_raw m i" "length (cat_bytes m is) < two64"
    and c: "cursor_ok m is (cur, r, a)" "cur \<noteq> []" "0 < len"
  shows "\<exists>k cur' r'. read_round rd m (len, dest, cur, r, a) =
      Inr (Inr (len - k, dest @ seg a k (cat_bytes m is), cur', r', a + k)) \<and>
    cursor_ok m is (cur', r', a + k) \<and> k \<le> len \<and> a + k \<le> length (cat_bytes m is) \<and>
    (length cur' < length cur \<or> len - k = 0 \<and> length cur' \<le> length cur)"
proof -
  obtain i js where cur: "cur = i # js" using c(2) by (cases cur) auto
  let ?x = "node_bytes m i" and ?k = "min len (length (node_bytes m i) - r)"
  have i: "has_raw m i" using wf(2) cursor_okD(5) [OF c(1)] cur by auto
  note n = ptr_length_bytes [OF wf(1) i]
  have r: "r \<le> length ?x" using cursor_okD(4) [OF c(1)] cur by simp
  have kn: "r + ?k \<le> length ?x" using r by simp
  have fit: "a + ?k \<le> length (cat_bytes m is)"
    using cursor_left(1,2) [OF c(1)] cursor_okD(2) [OF c(1)] kn cur by simp
  obtain cur' r' where ad: "cur_add m ?k (cur, r, a) = Inr (cur', r', a + ?k)"
    "cursor_ok m is (cur', r', a + ?k)" "length cur' \<le> length cur"
    "length (node_bytes m (hd cur)) \<le> r + ?k \<longrightarrow> length cur' < length cur"
    using cur_add_ok [OF wf c(1) fit] c(2) by blast
  have "rd m i r ?k = Inr (seg a ?k (cat_bytes m is))"
    using rd_bytes [OF wf(1) i kn] cursor_bytes [OF c(1) [unfolded cur] kn] by simp
  then have "read_round rd m (len, dest, cur, r, a) =
      Inr (Inr (len - ?k, dest @ seg a ?k (cat_bytes m is), cur', r', a + ?k))"
    using c(3) n(1) ad(1) round_len [OF r n(2)] by (simp add: read_round_def cur Let_def)
  moreover have "length cur' < length cur \<or> len - ?k = 0 \<and> length cur' \<le> length cur"
    using ad(3,4) r cur by (auto simp: min_def)
  ultimately show ?thesis using ad(2) fit
    by (intro exI [of _ ?k] exI [of _ cur'] exI [of _ r']) simp
qed

lemma read_loop_ok:
  assumes wf: "wf_mem m" "\<forall>i \<in> set is. has_raw m i" "length (cat_bytes m is) < two64"
    and c: "cursor_ok m is (cur, r, a)" "a + len \<le> length (cat_bytes m is)"
  shows "\<exists>c'. run (read_round rd m) (len, dest, cur, r, a) =
      Some (Inr (dest @ seg a len (cat_bytes m is), c')) \<and> cursor_ok m is c' \<and> snd (snd c') = a + len"
proof -
  let ?all = "cat_bytes m is"
  let ?P = "\<lambda>s. case s of (l, d, cur, r, p) \<Rightarrow> cursor_ok m is (cur, r, p) \<and> p + l = a + len \<and>
    a \<le> p \<and> d = dest @ seg a (p - a) ?all"
  let ?Q = "\<lambda>s. case s of (d, c') \<Rightarrow> d = dest @ seg a len ?all \<and> cursor_ok m is c' \<and>
    snd (snd c') = a + len"
  let ?f = "\<lambda>s. case s of (l, d, cur, r, p) \<Rightarrow> length cur + (if l = 0 then 0 else 1)"
  have "\<exists>s. run (read_round rd m) (len, dest, cur, r, a) = Some (Inr s) \<and> ?Q s"
  proof (rule run_total [where P = ?P and f = ?f])
    fix s assume P: "?P s"
    obtain l d cu ro p where s: "s = (l, d, cu, ro, p)" by (cases s)
    have h: "cursor_ok m is (cu, ro, p)" "p + l = a + len" "a \<le> p" "d = dest @ seg a (p - a) ?all"
      using P s by simp_all
    show "(\<exists>r. read_round rd m s = Inr (Inl r) \<and> ?Q r) \<or>
        (\<exists>s'. read_round rd m s = Inr (Inr s') \<and> ?P s' \<and> ?f s' < ?f s)"
    proof (cases "l = 0")
      case True
      then have "read_round rd m s = Inr (Inl (d, cu, ro, p))" by (simp add: s read_round_def)
      then show ?thesis using h True by (intro disjI1 exI [of _ "(d, cu, ro, p)"]) simp
    next
      case False
      have "cu \<noteq> []" using cursor_okD(3) [OF h(1)] h(2) c(2) False by auto
      then obtain k cur' r' where k: "read_round rd m (l, d, cu, ro, p) =
          Inr (Inr (l - k, d @ seg p k ?all, cur', r', p + k))"
        "cursor_ok m is (cur', r', p + k)" "k \<le> l"
        "length cur' < length cu \<or> l - k = 0 \<and> length cur' \<le> length cu"
        using read_round_step [OF wf h(1)] False by blast
      have "d @ seg p k ?all = dest @ seg a (p + k - a) ?all"
        using seg_append_seg [of a "p - a" k ?all] h(3,4) by simp
      then show ?thesis using h k False
        by (intro disjI2 exI [of _ "(l - k, d @ seg p k ?all, cur', r', p + k)"]) (auto simp: s)
    qed
  qed (use c in simp)
  then show ?thesis by auto
qed

lemma read_loop_short:
  assumes wf: "wf_mem m" "\<forall>i \<in> set is. has_raw m i" "length (cat_bytes m is) < two64"
    and c: "cursor_ok m is (cur, r, a)" "length (cat_bytes m is) < a + len"
  shows "run (read_round rd m) (len, dest, cur, r, a) = Some (Inl End_of_buffer)"
proof -
  let ?P = "\<lambda>s :: nat \<times> bytes \<times> cursor. case s of (l, d, cur, r, p) \<Rightarrow> cursor_ok m is (cur, r, p) \<and> length (cat_bytes m is) < p + l"
  let ?f = "\<lambda>s :: nat \<times> bytes \<times> cursor. case s of (l, d, cur, r, p) \<Rightarrow> length cur + (if l = 0 then 0 else 1)"
  have "(\<exists>e. run (read_round rd m) (len, dest, cur, r, a) = Some (Inl e) \<and> e = End_of_buffer) \<or>
    (\<exists>s. run (read_round rd m) (len, dest, cur, r, a) = Some (Inr s) \<and> False)"
  proof (rule run_ends [where P = ?P and f = ?f])
    fix s assume P: "?P s"
    obtain l d cu ro p where s: "s = (l, d, cu, ro, p)" by (cases s)
    have h: "cursor_ok m is (cu, ro, p)" "length (cat_bytes m is) < p + l" using P s by simp_all
    have l: "0 < l" using h(2) cursor_okD(2) [OF h(1)] by simp
    show "(\<exists>r. read_round rd m s = r \<and> (\<exists>e. r = Inl e \<and> e = End_of_buffer)) \<or>
        (\<exists>r. read_round rd m s = Inr (Inl r) \<and> False) \<or>
        (\<exists>s'. read_round rd m s = Inr (Inr s') \<and> ?P s' \<and> ?f s' < ?f s)"
    proof (cases "cu = []")
      case True
      then show ?thesis using l by (simp add: s read_round_def)
    next
      case False
      obtain k cur' r' where k: "read_round rd m (l, d, cu, ro, p) =
          Inr (Inr (l - k, d @ seg p k (cat_bytes m is), cur', r', p + k))"
        "cursor_ok m is (cur', r', p + k)" "k \<le> l" "p + k \<le> length (cat_bytes m is)"
        "length cur' < length cu \<or> l - k = 0 \<and> length cur' \<le> length cu"
        using read_round_step [OF wf h(1) False l] by blast
      then show ?thesis using h l
        by (intro disjI2 exI [of _ "(l - k, d @ seg p k (cat_bytes m is), cur', r', p + k)"]) (auto simp: s)
    qed
  qed (use c in simp)
  then show ?thesis by auto
qed

end

interpretation by_copy_out: node_reader ptr_copy_out
proof unfold_locales
  fix m i off len assume h: "wf_mem m" "has_raw m i" "off + len \<le> length (node_bytes m i)"
  obtain p r where p: "m_ptrs m i = Some p" "p_raw p = Some r" using h(2) unfolding has_raw_def by blast
  show "ptr_copy_out m i off len = Inr (seg off len (node_bytes m i))"
    using ptr_copy_out_ok [OF h(1) p] h(3) length_node_bytes [OF h(1) p(1)] by simp
qed

interpretation by_memory: node_reader node_read
  by unfold_locales (rule node_read_bytes)

end
