(* ===== verification/Iter_Write.thy ===== *)
theory Iter_Write
  imports Iter_Spec
begin

text \<open>
  Copying into a list through an iterator, copying a range to another list, and the checksum
  from a position. Writing replaces exactly a range of the bytes as long as the nodes of the
  list do not overlap.
\<close>

subsection \<open>Writing through one node\<close>

definition no_overlap :: "mem \<Rightarrow> nat list \<Rightarrow> bool" where
  "no_overlap m is \<longleftrightarrow> distinct is \<and> (\<forall>i \<in> set is. \<forall>j \<in> set is. i \<noteq> j \<longrightarrow>
     (\<forall>p q r. m_ptrs m i = Some p \<longrightarrow> p_raw p = Some r \<longrightarrow> m_ptrs m j = Some q \<longrightarrow>
        clear_of r (p_off p) (p_len p) q))"

lemma clear_of_sub:
  assumes "clear_of r off len q" "off \<le> off'" "off' + len' \<le> off + len"
  shows "clear_of r off' len' q"
  using assms unfolding clear_of_def by auto

lemma no_overlap_keeps:
  assumes wf: "wf_mem m" "no_overlap m is" "i \<in> set is" "m_ptrs m i = Some p" "p_raw p = Some r"
    and fit: "off + k \<le> p_len p" and j: "j \<in> set is - {i}" "m_ptrs m j = Some q"
  shows "clear_of r (p_off p + off) k q"
proof (rule clear_of_sub)
  have "j \<in> set is" "i \<noteq> j" using j(1) by auto
  then show "clear_of r (p_off p) (p_len p) q"
    using wf(2) [unfolded no_overlap_def, THEN conjunct2, rule_format, OF wf(3)] wf(4,5) j(2) by metis
qed (use fit in simp_all)

lemma write_at_middle:
  assumes "off + length bs \<le> length ys"
  shows "write_at (length xs + off) bs (xs @ ys @ zs) = xs @ write_at off bs ys @ zs"
  using assms by (simp add: write_at_def)

lemma cat_bytes_other:
  "\<forall>j \<in> set is. node_bytes m' j = node_bytes m j \<Longrightarrow> cat_bytes m' is = cat_bytes m is"
  by (induction "is") simp_all

lemma copy_in_node_ok:
  assumes wf: "wf_mem m" "no_overlap m is" "\<forall>i \<in> set is. has_raw m i"
    and c: "cursor_ok m is (i # cur, r, a)" "r + length bs \<le> length (node_bytes m i)"
  shows "\<exists>m'. ptr_copy_in i r bs reset m = Inr m' \<and> wf_mem m' \<and> m_ptrs m' = m_ptrs m \<and>
    cat_bytes m' is = write_at a bs (cat_bytes m is) \<and> keeps {j. \<forall>q. m_ptrs m j = Some q \<longrightarrow>
      (\<forall>i p s. i \<in> set is \<longrightarrow> m_ptrs m i = Some p \<longrightarrow> p_raw p = Some s \<longrightarrow> clear_of s (p_off p) (p_len p) q)} m m'"
proof -
  obtain pre where pre: "is = pre @ i # cur" "a = length (cat_bytes m pre) + r"
    using cursor_okD(1) [OF c(1)] by blast
  have iin: "i \<in> set is" using pre(1) by simp
  obtain p w where p: "m_ptrs m i = Some p" "p_raw p = Some w"
    using wf(3) iin unfolding has_raw_def by blast
  have n: "length (node_bytes m i) = p_len p" by (rule length_node_bytes [OF wf(1) p(1)])
  have fit: "r + length bs \<le> p_len p" using c(2) n by simp
  obtain m' where m': "ptr_copy_in i r bs reset m = Inr m'" "wf_mem m'" "m_ptrs m' = m_ptrs m"
    "node_bytes m' i = write_at r bs (node_bytes m i)"
    and k: "\<And>I. \<forall>j\<in>I. \<forall>q. m_ptrs m j = Some q \<longrightarrow> clear_of w (p_off p + r) (length bs) q \<Longrightarrow> keeps I m m'"
    using ptr_copy_in_ok [OF wf(1) p fit, of reset] by blast
  have "keeps (set is - {i}) m m'"
    by (rule k) (use no_overlap_keeps [OF wf(1,2) iin p fit] in blast)
  then have oth: "\<forall>j \<in> set is - {i}. node_bytes m' j = node_bytes m j" by (simp add: keeps_def)
  have dis: "i \<notin> set pre" "i \<notin> set cur" using wf(2) pre(1) by (auto simp: no_overlap_def)
  then have "cat_bytes m' pre = cat_bytes m pre" "cat_bytes m' cur = cat_bytes m cur"
    using oth pre(1) by (auto intro!: cat_bytes_other)
  then have "cat_bytes m' is = write_at a bs (cat_bytes m is)"
    using m'(4) pre write_at_middle [OF c(2), of "cat_bytes m pre" "cat_bytes m cur"] by simp
  moreover have "keeps {j. \<forall>q. m_ptrs m j = Some q \<longrightarrow>
      (\<forall>i p s. i \<in> set is \<longrightarrow> m_ptrs m i = Some p \<longrightarrow> p_raw p = Some s \<longrightarrow> clear_of s (p_off p) (p_len p) q)} m m'"
  proof (rule k, intro ballI allI impI)
    fix j q assume "j \<in> {j. \<forall>q. m_ptrs m j = Some q \<longrightarrow>
      (\<forall>i p s. i \<in> set is \<longrightarrow> m_ptrs m i = Some p \<longrightarrow> p_raw p = Some s \<longrightarrow> clear_of s (p_off p) (p_len p) q)}"
      "m_ptrs m j = Some q"
    then have "clear_of w (p_off p) (p_len p) q" using iin p by blast
    then show "clear_of w (p_off p + r) (length bs) q" by (rule clear_of_sub) (use fit in simp_all)
  qed
  ultimately show ?thesis using m'(1-3) by blast
qed

text \<open>Objects that no node of the list overlaps.\<close>

definition outside :: "mem \<Rightarrow> nat list \<Rightarrow> nat set" where
  "outside m is = {j. \<forall>q. m_ptrs m j = Some q \<longrightarrow>
     (\<forall>i p s. i \<in> set is \<longrightarrow> m_ptrs m i = Some p \<longrightarrow> p_raw p = Some s \<longrightarrow> clear_of s (p_off p) (p_len p) q)}"

subsection \<open>The loop\<close>

definition written :: "nat list \<Rightarrow> nat \<Rightarrow> bytes \<Rightarrow> mem \<Rightarrow> mem \<Rightarrow> bool" where
  "written is a bs m m' \<longleftrightarrow> wf_mem m' \<and> m_ptrs m' = m_ptrs m \<and>
     cat_bytes m' is = write_at a bs (cat_bytes m is) \<and> keeps (outside m is) m m'"

lemma same_lengths:
  assumes "wf_mem m" "wf_mem m'" "m_ptrs m' = m_ptrs m"
  shows "length (node_bytes m' i) = length (node_bytes m i)"
    "cursor_ok m' is c = cursor_ok m is c" "length (cat_bytes m' is) = length (cat_bytes m is)"
proof -
  show n: "length (node_bytes m' i) = length (node_bytes m i)" for i
  proof (cases "m_ptrs m i")
    case None
    then show ?thesis using assms(3) by (simp add: node_bytes_def)
  next
    case (Some p)
    then show ?thesis using length_node_bytes [OF assms(1)] length_node_bytes [OF assms(2)] assms(3) by simp
  qed
  have cat: "length (cat_bytes m' js) = length (cat_bytes m js)" for js
    by (induction js) (simp_all add: n)
  then show "length (cat_bytes m' is) = length (cat_bytes m is)" .
  show "cursor_ok m' is c = cursor_ok m is c" by (cases c) (simp add: cursor_ok_def n cat)
qed

lemma written_trans:
  assumes "written is a xs m m1" "written is (a + length xs) ys m1 m2"
    and "a + length xs + length ys \<le> length (cat_bytes m is)"
  shows "written is a (xs @ ys) m m2"
proof -
  have "outside m1 is = outside m is" using assms(1) by (simp add: written_def outside_def)
  then have "keeps (outside m is) m m2"
    using assms(1,2) by (auto simp: written_def intro: keeps_trans)
  moreover have "cat_bytes m2 is = write_at a (xs @ ys) (cat_bytes m is)"
    using assms by (simp add: written_def write_at_write_at_adj)
  ultimately show ?thesis using assms(1,2) by (simp add: written_def)
qed

lemma copy_in_round_step:
  assumes wf: "wf_mem m" "no_overlap m is" "\<forall>i \<in> set is. has_raw m i" "length (cat_bytes m is) < two64"
    and c: "cursor_ok m is (cur, r, a)" "cur \<noteq> []" "src \<noteq> []"
  shows "\<exists>k cur' r' m'. copy_in_round reset (src, (cur, r, a), m) =
      Inr (Inr (drop k src, (cur', r', a + k), m')) \<and> written is a (take k src) m m' \<and>
    cursor_ok m is (cur', r', a + k) \<and> k \<le> length src \<and> a + k \<le> length (cat_bytes m is) \<and>
    (length cur' < length cur \<or> k = length src \<and> length cur' \<le> length cur)"
proof -
  obtain i js where cur: "cur = i # js" using c(2) by (cases cur) auto
  let ?x = "node_bytes m i" and ?k = "min (length src) (length (node_bytes m i) - r)"
  have i: "has_raw m i" using wf(3) cursor_okD(5) [OF c(1)] cur by auto
  note n = ptr_length_bytes [OF wf(1) i]
  have r: "r \<le> length ?x" using cursor_okD(4) [OF c(1)] cur by simp
  have kn: "r + length (take ?k src) \<le> length ?x" using r by simp
  have fit: "a + ?k \<le> length (cat_bytes m is)"
    using cursor_left(1,2) [OF c(1)] cursor_okD(2) [OF c(1)] kn cur by simp
  obtain m' where m': "ptr_copy_in i r (take ?k src) reset m = Inr m'" "written is a (take ?k src) m m'"
    using copy_in_node_ok [OF wf(1-3) c(1) [unfolded cur] kn, of reset]
    unfolding written_def outside_def by blast
  have w: "wf_mem m'" "m_ptrs m' = m_ptrs m" using m'(2) by (simp_all add: written_def)
  note same = same_lengths [OF wf(1) w]
  have raws: "\<forall>i \<in> set is. has_raw m' i" using wf(3) w(2) by (simp add: has_raw_def)
  obtain cur' r' where ad: "cur_add m' ?k (cur, r, a) = Inr (cur', r', a + ?k)"
    "cursor_ok m' is (cur', r', a + ?k)" "length cur' \<le> length cur"
    "length (node_bytes m' (hd cur)) \<le> r + ?k \<longrightarrow> length cur' < length cur"
    using cur_add_ok [OF w(1) raws, of cur r a ?k] wf(4) c(1,2) fit same(2,3) by auto
  have "copy_in_round reset (src, (cur, r, a), m) = Inr (Inr (drop ?k src, (cur', r', a + ?k), m'))"
    using c(3) n(1) ad(1) m'(1) round_len [OF r n(2)] by (simp add: copy_in_round_def cur Let_def)
  moreover have "length cur' < length cur \<or> ?k = length src \<and> length cur' \<le> length cur"
    using ad(3,4) r cur same(1) by (auto simp: min_def)
  ultimately show ?thesis using ad(2) fit same(2) m'(2)
    by (intro exI [of _ ?k] exI [of _ cur'] exI [of _ r'] exI [of _ m']) simp
qed

lemma copy_in_loop_ok:
  assumes wf: "wf_mem m" "no_overlap m is" "\<forall>i \<in> set is. has_raw m i" "length (cat_bytes m is) < two64"
    and c: "cursor_ok m is (cur, r, a)" "a + length src \<le> length (cat_bytes m is)"
  shows "\<exists>c' m'. run (copy_in_round reset) (src, (cur, r, a), m) = Some (Inr (c', m')) \<and>
    written is a src m m' \<and> cursor_ok m' is c' \<and> snd (snd c') = a + length src"
proof -
  let ?P = "\<lambda>s. case s of (l, (cur, r, p), m1) \<Rightarrow> \<exists>d. src = d @ l \<and> p = a + length d \<and>
    written is a d m m1 \<and> cursor_ok m is (cur, r, p)"
  let ?Q = "\<lambda>s. case s of (c', m1) \<Rightarrow> written is a src m m1 \<and> cursor_ok m1 is c' \<and>
    snd (snd c') = a + length src"
  let ?f = "\<lambda>s :: bytes \<times> cursor \<times> mem. case s of (l, (cur, r, p), m1) \<Rightarrow>
    length cur + (if l = [] then 0 else 1)"
  have "\<exists>s. run (copy_in_round reset) (src, (cur, r, a), m) = Some (Inr s) \<and> ?Q s"
  proof (rule run_total [where P = ?P and f = ?f])
    have "written is a [] m m" using wf(1) by (simp add: written_def)
    then show "?P (src, (cur, r, a), m)" using c(1) by simp
  next
    fix s assume P: "?P s"
    obtain l ci m1 where "s = (l, ci, m1)" by (cases s)
    moreover obtain cu ro p where "ci = (cu, ro, p)" by (cases ci)
    ultimately have s: "s = (l, (cu, ro, p), m1)" by simp
    obtain d where d: "src = d @ l" "p = a + length d" "written is a d m m1" "cursor_ok m is (cu, ro, p)"
      using P unfolding s by auto
    have w: "wf_mem m1" "m_ptrs m1 = m_ptrs m" using d(3) by (simp_all add: written_def)
    note same = same_lengths [OF wf(1) w]
    have wf1: "no_overlap m1 is" "\<forall>i \<in> set is. has_raw m1 i" "length (cat_bytes m1 is) < two64"
      using wf(2-4) w(2) same(3) by (simp_all add: no_overlap_def has_raw_def)
    show "(\<exists>r. copy_in_round reset s = Inr (Inl r) \<and> ?Q r) \<or>
        (\<exists>s'. copy_in_round reset s = Inr (Inr s') \<and> ?P s' \<and> ?f s' < ?f s)"
    proof (cases "l = []")
      case True
      then have "copy_in_round reset s = Inr (Inl ((cu, ro, p), m1))" by (simp add: s copy_in_round_def)
      then show ?thesis using d True same(2) by (intro disjI1 exI [of _ "((cu, ro, p), m1)"]) simp
    next
      case False
      have "cu \<noteq> []" using cursor_okD(3) [OF d(4)] d(1,2) c(2) False by (cases l) auto
      then obtain k cur' r' m2 where k: "copy_in_round reset (l, (cu, ro, p), m1) =
          Inr (Inr (drop k l, (cur', r', p + k), m2))" "written is p (take k l) m1 m2"
        "cursor_ok m1 is (cur', r', p + k)" "k \<le> length l"
        "length cur' < length cu \<or> k = length l \<and> length cur' \<le> length cu"
        using copy_in_round_step [OF w(1) wf1, of cu ro p l reset] d(4) same(2) False by blast
      have "written is a (d @ take k l) m m2"
        by (rule written_trans [OF d(3)]) (use k(2,4) d(1,2) c(2) in simp_all)
      then have P': "?P (drop k l, (cur', r', p + k), m2)"
        using k(3,4) d(1,2) same(2) by (intro case_prodI exI [of _ "d @ take k l"]) simp
      have f': "?f (drop k l, (cur', r', p + k), m2) < ?f s"
        using k(4,5) False by (auto simp: s)
      have "copy_in_round reset s = Inr (Inr (drop k l, (cur', r', p + k), m2))"
        using k(1) by (simp only: s)
      then show ?thesis using P' f'
        by (intro disjI2 exI [of _ "(drop k l, (cur', r', p + k), m2)"] conjI)
    qed
  qed
  then show ?thesis by auto
qed

end
