(* ===== verification/Iter_Props.thy ===== *)
theory Iter_Props
  imports Iter_Write
begin

text \<open>
  The properties of the iterator: seeking, copying a range out to memory, to a string and to
  another list, copying in, and the checksum from a position.
\<close>

subsection \<open>Whole operations\<close>

lemma listD:
  assumes "ready b m"
  shows "wf_mem m" "\<forall>i \<in> set (bufs b). has_raw m i" "length (cat_bytes m (bufs b)) < two64"
    "length (cat_bytes m (bufs b)) = b_len b" "distinct (bufs b)"
  using readyD [OF assms] wf_nodes_raws [of m b] wf_nodesD(1) [of m b]
  by (simp_all add: bl_bytes_cat two64_def)

lemma cur_restart_ok:
  assumes "ready b m" "cursor_ok m (bufs b) c"
  shows "\<exists>cur r. cur_restart m b c = Inr (cur, r, snd (snd c)) \<and>
    cursor_ok m (bufs b) (cur, r, snd (snd c))"
proof -
  note l = listD [OF assms(1)]
  obtain cu ro a where c: "c = (cu, ro, a)" by (cases c)
  show ?thesis
  proof (cases cu)
    case Nil
    have "0 + a \<le> length (cat_bytes m (bufs b))" using cursor_okD(2) assms(2) c by simp
    then show ?thesis using cur_add_ok [OF l(1-3) cursor_start, of a] Nil c
      by (auto simp: cur_restart_def cur_seek_def)
  next
    case (Cons i js)
    then show ?thesis using assms(2) c by (simp add: cur_restart_def)
  qed
qed

lemma iter_okD:
  assumes "iter_ok m b it"
  shows "cursor_ok m (bufs b) (cursor_of b it)" "snd (snd (cursor_of b it)) = it_a_off it"
  using assms by (simp_all add: iter_ok_def cursor_of_def)

lemma a_off_iter_of [simp]: "it_a_off (iter_of c) = snd (snd c)"
  by (cases c) (simp add: iter_of_def)

text \<open>The loops that read, for every reader.\<close>

context node_reader
begin

lemma iter_read_ok:
  assumes "ready b m" "iter_ok m b it"
  shows "it_a_off it + len \<le> b_len b \<Longrightarrow>
      \<exists>it'. iter_read rd m b len dest it = Some (Inr (dest @ seg (it_a_off it) len (bl_bytes m b), it')) \<and>
        iter_ok m b it' \<and> it_a_off it' = it_a_off it + len"
    and "b_len b < it_a_off it + len \<Longrightarrow> iter_read rd m b len dest it = Some (Inl End_of_buffer)"
proof -
  note l = listD [OF assms(1)] and ok = iter_okD [OF assms(2)]
  obtain cur r where c: "cur_restart m b (cursor_of b it) = Inr (cur, r, it_a_off it)"
    "cursor_ok m (bufs b) (cur, r, it_a_off it)"
    using cur_restart_ok [OF assms(1) ok(1)] ok(2) by auto
  show "b_len b < it_a_off it + len \<Longrightarrow> iter_read rd m b len dest it = Some (Inl End_of_buffer)"
    using read_loop_short [OF l(1-3) c(2)] c(1) l(4) by (simp add: iter_read_def)
  assume fit: "it_a_off it + len \<le> b_len b"
  then obtain c' where c': "run (read_round rd m) (len, dest, cur, r, it_a_off it) =
      Some (Inr (dest @ seg (it_a_off it) len (cat_bytes m (bufs b)), c'))"
    "cursor_ok m (bufs b) c'" "snd (snd c') = it_a_off it + len"
    using read_loop_ok [OF l(1-3) c(2), of len dest] l(4) by auto
  show "\<exists>it'. iter_read rd m b len dest it =
      Some (Inr (dest @ seg (it_a_off it) len (bl_bytes m b), it')) \<and>
      iter_ok m b it' \<and> it_a_off it' = it_a_off it + len"
    using c(1) c' cursor_of_iter(2) [OF l(5) c'(2)]
    by (intro exI [of _ "iter_of c'"]) (simp add: iter_read_def bl_bytes_cat)
qed

end

lemma iter_copy_in_ok:
  assumes "ready b m" "iter_ok m b it" "no_overlap m (bufs b)" "it_a_off it + length src \<le> b_len b"
  shows "\<exists>it' m'. iter_copy_in b src reset it m = Some (Inr (it', m')) \<and>
    written (bufs b) (it_a_off it) src m m' \<and> iter_ok m' b it' \<and> it_a_off it' = it_a_off it + length src"
proof -
  note l = listD [OF assms(1)] and ok = iter_okD [OF assms(2)]
  obtain cur r where c: "cur_restart m b (cursor_of b it) = Inr (cur, r, it_a_off it)"
    "cursor_ok m (bufs b) (cur, r, it_a_off it)"
    using cur_restart_ok [OF assms(1) ok(1)] ok(2) by auto
  obtain c' m' where c': "run (copy_in_round reset) (src, (cur, r, it_a_off it), m) = Some (Inr (c', m'))"
    "written (bufs b) (it_a_off it) src m m'" "cursor_ok m' (bufs b) c'"
    "snd (snd c') = it_a_off it + length src"
    using copy_in_loop_ok [OF l(1) assms(3) l(2,3) c(2), of src reset] assms(4) l(4) by auto
  show ?thesis using c(1) c' cursor_of_iter(2) [OF l(5) c'(3)]
    by (intro exI [of _ "iter_of c'"] exI [of _ m']) (simp add: iter_copy_in_def)
qed

subsection \<open>Copying to another list\<close>

lemma copy_list_step:
  assumes src: "\<forall>i \<in> set is. has_raw m i" "length (cat_bytes m is) < 2 ^ 62" "set is \<inter> set (bufs dest) = {}"
    and d: "ready dest m" "b_len dest + len < 2 ^ 62" "length (bufs dest) + length cur + 1 < 2 ^ 62"
    and c: "cursor_ok m is (cur, r, a)" "cur \<noteq> []" "0 < len"
  shows "\<exists>k dest' cur' r' m'. copy_list_round (len, dest, (cur, r, a), m) =
      Inr (Inr (len - k, dest', (cur', r', a + k), m')) \<and>
    becomes dest m (bl_bytes m dest @ seg a k (cat_bytes m is)) dest' m' \<and>
    cursor_ok m' is (cur', r', a + k) \<and> k \<le> len \<and> a + k \<le> length (cat_bytes m is) \<and>
    length (bufs dest') \<le> Suc (length (bufs dest)) \<and> keeps (set is) m m' \<and>
    set is \<inter> set (bufs dest') = {} \<and>
    (length cur' < length cur \<or> len - k = 0 \<and> length cur' \<le> length cur)"
proof -
  obtain i js where cur: "cur = i # js" using c(2) by (cases cur) auto
  let ?x = "node_bytes m i" and ?k = "min len (length (node_bytes m i) - r)"
  have wf: "wf_mem m" by (rule readyD [OF d(1)])
  have i: "has_raw m i" using src(1) cursor_okD(5) [OF c(1)] cur by auto
  obtain p w where p: "m_ptrs m i = Some p" "p_raw p = Some w" using i unfolding has_raw_def by blast
  note n = ptr_length_bytes [OF wf i]
  have r: "r \<le> length ?x" using cursor_okD(4) [OF c(1)] cur by simp
  have kn: "r + ?k \<le> length ?x" using r by simp
  have fit: "a + ?k \<le> length (cat_bytes m is)"
    using cursor_left(1,2) [OF c(1)] cursor_okD(2) [OF c(1)] kn cur by simp
  have ap: "r + ?k \<le> p_len p" "?k < 2 ^ 62"
    using kn length_node_bytes [OF wf p(1)] fit src(2) by simp_all
  obtain dest' m' where m': "blist_append_range i r ?k dest m = Inr (dest', m')"
    "becomes dest m (bl_bytes m dest @ seg r ?k ?x) dest' m'"
    using blist_append_range_ok [OF d(1) p ap] by blast
  have t: "turns dest m (bl_bytes m dest @ seg r ?k ?x) dest' m'" using m'(2) by (simp add: becomes_def)
  have sub: "set is \<subseteq> others m dest" using src(1,3) by (auto simp: others_def has_raw_def)
  have k: "keeps (set is) m m'" by (rule keeps_mono [OF turnsD(5) [OF t] sub])
  have out: "set is \<inter> set (bufs dest') = {}"
    using sub turnsD(6) [OF t] by (auto simp: others_def)
  have same: "cat_bytes m' js = cat_bytes m js" "node_bytes m' j = node_bytes m j"
    if "set js \<subseteq> set is" "j \<in> set is" for js j
    using cat_bytes_keeps [OF k that(1)] keepsD(2) [OF k that(2)] by simp_all
  have cok: "cursor_ok m' is (cur, r, a)"
  proof -
    obtain pre where pre: "is = pre @ cur" "a = length (cat_bytes m pre) + r"
      using cursor_okD(1) [OF c(1)] by blast
    then have "cat_bytes m' pre = cat_bytes m pre" "node_bytes m' i = ?x"
      using same(1) [of pre i] same(2) [of "[]" i] cur by auto
    then show ?thesis using pre cur r by (auto simp: cursor_ok_def)
  qed
  have raws: "\<forall>i \<in> set is. has_raw m' i" using has_raw_keeps [OF k] src(1) by simp
  have all: "cat_bytes m' is = cat_bytes m is" by (rule cat_bytes_keeps [OF k]) simp
  have lim: "length (cat_bytes m' is) < two64" "a + ?k \<le> length (cat_bytes m' is)"
    using all src(2) fit by (simp_all add: two64_def)
  obtain cur' r' where ad: "cur_add m' ?k (cur, r, a) = Inr (cur', r', a + ?k)"
    "cursor_ok m' is (cur', r', a + ?k)" "length cur' \<le> length cur"
    "length (node_bytes m' (hd cur)) \<le> r + ?k \<longrightarrow> length cur' < length cur"
    using cur_add_ok [OF turnsD(1) [OF t] raws lim(1) cok lim(2)] c(2) by blast
  have "copy_list_round (len, dest, (cur, r, a), m) =
      Inr (Inr (len - ?k, dest', (cur', r', a + ?k), m'))"
    using c(3) n(1) ad(1) m'(1) round_len [OF r n(2)] by (simp add: copy_list_round_def cur Let_def)
  moreover have "length cur' < length cur \<or> len - ?k = 0 \<and> length cur' \<le> length cur"
    using ad(3,4) r cur same(2) [of "[]" i] cursor_okD(5) [OF c(1)] by (auto simp: min_def)
  moreover have "length (bufs dest') \<le> Suc (length (bufs dest))"
    using append_range_nodes [OF m'(1)] by auto
  moreover have "seg r ?k ?x = seg a ?k (cat_bytes m is)"
    using cursor_bytes [OF c(1) [unfolded cur] kn] by simp
  ultimately show ?thesis using ad(2) fit k out m'(2)
    by (intro exI [of _ ?k] exI [of _ dest'] exI [of _ cur'] exI [of _ r'] exI [of _ m']) simp
qed

lemma copy_list_loop_ok:
  assumes src: "\<forall>i \<in> set is. has_raw m i" "length (cat_bytes m is) < 2 ^ 62" "set is \<inter> set (bufs dest) = {}"
    and d: "ready dest m" "b_len dest + len < 2 ^ 62" "length (bufs dest) + length cur + 2 < 2 ^ 62"
    and c: "cursor_ok m is (cur, r, a)" "a + len \<le> length (cat_bytes m is)"
  shows "\<exists>dest' c' m'. run copy_list_round (len, dest, (cur, r, a), m) = Some (Inr (dest', c', m')) \<and>
    becomes dest m (bl_bytes m dest @ seg a len (cat_bytes m is)) dest' m' \<and>
    cursor_ok m' is c' \<and> snd (snd c') = a + len \<and> keeps (set is) m m'"
proof -
  let ?all = "cat_bytes m is"
  let ?P = "\<lambda>s. case s of (l, d, (cu, ro, p), m1) \<Rightarrow> p + l = a + len \<and> a \<le> p \<and>
    becomes dest m (bl_bytes m dest @ seg a (p - a) ?all) d m1 \<and> cursor_ok m1 is (cu, ro, p) \<and>
    keeps (set is) m m1 \<and> set is \<inter> set (bufs d) = {} \<and>
    length (bufs d) + length cu + (if l = 0 then 0 else 1) < 2 ^ 62"
  let ?Q = "\<lambda>s. case s of (d, c', m1) \<Rightarrow> becomes dest m (bl_bytes m dest @ seg a len ?all) d m1 \<and>
    cursor_ok m1 is c' \<and> snd (snd c') = a + len \<and> keeps (set is) m m1"
  let ?f = "\<lambda>s :: nat \<times> blist \<times> cursor \<times> mem. case s of (l, d, (cu, ro, p), m1) \<Rightarrow>
    length cu + (if l = 0 then 0 else 1)"
  have "\<exists>s. run copy_list_round (len, dest, (cur, r, a), m) = Some (Inr s) \<and> ?Q s"
  proof (rule run_total [where P = ?P and f = ?f])
    show "?P (len, dest, (cur, r, a), m)"
      using c(1) d src(3) turns_refl [OF readyD(1,3) [OF d(1)]] readyD(4) [OF d(1)]
      by (simp add: becomes_def)
  next
    fix s assume P: "?P s"
    obtain l d1 ci m1 where "s = (l, d1, ci, m1)" by (cases s)
    moreover obtain cu ro p where "ci = (cu, ro, p)" by (cases ci)
    ultimately have s: "s = (l, d1, (cu, ro, p), m1)" by simp
    have h: "p + l = a + len" "a \<le> p" "becomes dest m (bl_bytes m dest @ seg a (p - a) ?all) d1 m1"
      "cursor_ok m1 is (cu, ro, p)" "keeps (set is) m m1" "set is \<inter> set (bufs d1) = {}"
      "length (bufs d1) + length cu + (if l = 0 then 0 else 1) < 2 ^ 62"
      using P unfolding s by simp_all
    have t: "turns dest m (bl_bytes m dest @ seg a (p - a) ?all) d1 m1" using h(3) by (simp add: becomes_def)
    have all: "cat_bytes m1 is = ?all" by (rule cat_bytes_keeps [OF h(5)]) simp
    have raws: "\<forall>i \<in> set is. has_raw m1 i" using has_raw_keeps [OF h(5)] src(1) by simp
    show "(\<exists>r. copy_list_round s = Inr (Inl r) \<and> ?Q r) \<or>
        (\<exists>s'. copy_list_round s = Inr (Inr s') \<and> ?P s' \<and> ?f s' < ?f s)"
    proof (cases "l = 0")
      case True
      then have "copy_list_round s = Inr (Inl (d1, (cu, ro, p), m1))" by (simp add: s copy_list_round_def)
      then show ?thesis using h True by (intro disjI1 exI [of _ "(d1, (cu, ro, p), m1)"]) simp
    next
      case False
      have cu: "cu \<noteq> []" using cursor_okD(3) [OF h(4)] h(1) c(2) False all by auto
      have pa: "p - a \<le> len" "a + (p - a) \<le> length ?all" using h(1,2) c(2) by simp_all
      have "b_len d1 = b_len dest + (p - a)"
        using h(3) pa(2) readyD(4) [OF d(1)] by (simp add: becomes_def)
      then have d1: "ready d1 m1" "b_len d1 + l < 2 ^ 62"
        using d(2) h(1-3,7) False pa becomes_wf [OF h(3)] turnsD(1,4) [OF t] readyD(2) [OF d(1)]
        by (simp_all add: ready_def)
      have cnt: "length (bufs d1) + length cu + 1 < 2 ^ 62" using h(7) False by simp
      have lim: "length (cat_bytes m1 is) < 2 ^ 62" using all src(2) by simp
      obtain k d2 cur' r' m2 where k: "copy_list_round (l, d1, (cu, ro, p), m1) =
          Inr (Inr (l - k, d2, (cur', r', p + k), m2))"
        "becomes d1 m1 (bl_bytes m1 d1 @ seg p k (cat_bytes m1 is)) d2 m2"
        "cursor_ok m2 is (cur', r', p + k)" "k \<le> l" "p + k \<le> length (cat_bytes m1 is)"
        "length (bufs d2) \<le> Suc (length (bufs d1))" "keeps (set is) m1 m2" "set is \<inter> set (bufs d2) = {}"
        "length cur' < length cu \<or> l - k = 0 \<and> length cur' \<le> length cu"
        using copy_list_step [OF raws lim h(6) d1 cnt h(4) cu] False by blast
      have bytes: "bl_bytes m1 d1 @ seg p k (cat_bytes m1 is) = bl_bytes m dest @ seg a (p + k - a) ?all"
        using seg_append_seg [of a "p - a" k ?all] h(2) turnsD(3) [OF t] all by simp
      have "becomes dest m (bl_bytes m dest @ seg a (p + k - a) ?all) d2 m2"
        using turns_trans [OF t] k(2) unfolding bytes by (simp add: becomes_def)
      moreover have "length (bufs d2) + length cur' + (if l - k = 0 then 0 else 1) < 2 ^ 62"
        using k(6,9) cnt by auto
      ultimately have P': "?P (l - k, d2, (cur', r', p + k), m2)"
        using k(3,4,8) h(1,2) keeps_trans [OF h(5) k(7)] by simp
      have f': "?f (l - k, d2, (cur', r', p + k), m2) < ?f s" using k(9) False by (auto simp: s)
      have "copy_list_round s = Inr (Inr (l - k, d2, (cur', r', p + k), m2))"
        using k(1) by (simp only: s)
      then show ?thesis using P' f'
        by (intro disjI2 exI [of _ "(l - k, d2, (cur', r', p + k), m2)"] conjI)
    qed
  qed
  then show ?thesis by auto
qed

lemma iter_copy_list_ok:
  assumes src: "ready b m" "iter_ok m b it" "it_a_off it + len \<le> b_len b"
    and d: "ready dest m" "apart dest b" "b_len dest + len < 2 ^ 62"
      "length (bufs dest) + length (bufs b) + 2 < 2 ^ 62"
  shows "\<exists>dest' it' m'. iter_copy_list b len dest it m = Some (Inr (dest', it', m')) \<and>
    becomes dest m (bl_bytes m dest @ seg (it_a_off it) len (bl_bytes m b)) dest' m' \<and>
    bl_bytes m' b = bl_bytes m b \<and> iter_ok m' b it' \<and> it_a_off it' = it_a_off it + len"
proof -
  note l = listD [OF src(1)] and ok = iter_okD [OF src(2)]
  obtain cur r where c: "cur_restart m b (cursor_of b it) = Inr (cur, r, it_a_off it)"
    "cursor_ok m (bufs b) (cur, r, it_a_off it)"
    using cur_restart_ok [OF src(1) ok(1)] ok(2) by auto
  have "length cur \<le> length (bufs b)" using cursor_okD(1) [OF c(2)] by auto
  then have cnt: "length (bufs dest) + length cur + 2 < 2 ^ 62" using d(4) by simp
  have dis: "set (bufs b) \<inter> set (bufs dest) = {}" using d(2) by (auto simp: apart_def)
  have lim: "length (cat_bytes m (bufs b)) < 2 ^ 62" "it_a_off it + len \<le> length (cat_bytes m (bufs b))"
    using l(4) src(3) readyD(5) [OF src(1)] by simp_all
  obtain dest' c' m' where c': "run copy_list_round (len, dest, (cur, r, it_a_off it), m) = Some (Inr (dest', c', m'))"
    "becomes dest m (bl_bytes m dest @ seg (it_a_off it) len (cat_bytes m (bufs b))) dest' m'"
    "cursor_ok m' (bufs b) c'" "snd (snd c') = it_a_off it + len" "keeps (set (bufs b)) m m'"
    using copy_list_loop_ok [OF l(2) lim(1) dis d(1,3) cnt c(2) lim(2)] by blast
  have "bl_bytes m' b = bl_bytes m b" by (rule bl_bytes_keeps [OF c'(5)]) simp
  then show ?thesis using c(1) c' cursor_of_iter(2) [OF l(5) c'(3)]
    by (intro exI [of _ dest'] exI [of _ "iter_of c'"] exI [of _ m'])
      (simp add: iter_copy_list_def bl_bytes_cat)
qed

subsection \<open>The checksum from a position\<close>

lemma cur_get_ptr_ok:
  assumes b: "ready b m" and c: "cursor_ok m (bufs b) (cur, r, a)" "a < b_len b"
  shows "\<exists>w rst cur' r' addr. cur_get_ptr m b max_len (cur, r, a) = Inr (Some w, rst, cur', r', a + rst) \<and>
    crc_at m (Some w) rst = Inr (Some (addr, seg a rst (bl_bytes m b))) \<and>
    cursor_ok m (bufs b) (cur', r', a + rst) \<and> rst \<le> max_len \<and> a + rst \<le> b_len b \<and>
    (0 < max_len \<longrightarrow> length cur' < length cur \<or> 0 < rst \<and> length cur' \<le> length cur)"
proof -
  note l = listD [OF b]
  have "cur \<noteq> []" using cursor_okD(3) [OF c(1)] c(2) l(4) by auto
  then obtain i js where cur: "cur = i # js" by (cases cur) auto
  let ?x = "node_bytes m i"
  define k where "k = min (length ?x - r) max_len"
  have i: "has_raw m i" using l(2) cursor_okD(5) [OF c(1)] cur by auto
  note n = ptr_length_bytes [OF l(1) i]
  have r: "r \<le> length ?x" using cursor_okD(4) [OF c(1)] cur by simp
  have kn: "r + k \<le> length ?x" "k \<le> max_len" using r by (simp_all add: k_def)
  obtain pre where pre: "bufs b = pre @ i # js" "a = length (cat_bytes m pre) + r"
    using cursor_okD(1) [OF c(1)] cur by blast
  obtain p w where p: "m_ptrs m i = Some p" "p_raw p = Some w" using i unfolding has_raw_def by blast
  obtain v where v: "m_raws m w = Some v" using wf_ptr_raw [OF wf_flD(1) [OF l(1)] p] by auto
  have fit: "a + k \<le> b_len b" using kn(1) pre l(4) by simp
  have ar: "sub64 (length ?x) r = length ?x - r" "add64 r k = r + k" "add64 a k = a + k"
    using r n(2) fit l(3,4) kn(1) by (simp_all add: arith64)
  let ?c = "if r + k = length ?x then (js, 0, a + k) else (cur, r + k, a + k)"
  have get: "cur_get_ptr m b max_len (cur, r, a) = Inr (Some (w, p_off p + r), k, ?c)"
    using p n(1) by (simp add: cur_get_ptr_def cur_restart_def cur c_str_def ptr_raw_def ptr_at_def Let_def ar flip: k_def)
  have "raw_read m w (p_off p + r) k = Inr (seg r k ?x)"
    using raw_read_ok [OF l(1) p, of r k] kn(1) length_node_bytes [OF l(1) p(1)] by simp
  then have at: "crc_at m (Some (w, p_off p + r)) k =
      Inr (Some (add64 (r_addr v) (p_off p + r), seg a k (bl_bytes m b)))"
    using v cursor_bytes [OF c(1) [unfolded cur] kn(1)] by (simp add: crc_at_def raw_at_def bl_bytes_cat)
  have "cursor_ok m (bufs b) ?c"
    using pre cur kn(1) by (auto simp: cursor_ok_def intro!: exI [of _ "pre @ [i]"])
  moreover have "length (fst ?c) < length cur \<or> 0 < k \<and> length (fst ?c) \<le> length cur" if "0 < max_len"
    using that r cur by (auto simp: k_def)
  ultimately show ?thesis using get at fit kn(2)
    by (intro exI [of _ "(w, p_off p + r)"] exI [of _ k] exI [of _ "fst ?c"] exI [of _ "fst (snd ?c)"]
        exI [of _ "add64 (r_addr v) (p_off p + r)"]) auto
qed

context crc32c_routine
begin

lemma iter_crc_ok:
  assumes b: "ready b m" "iter_ok m b it" and n: "min len (b_len b - it_a_off it) < 2 ^ 32"
  shows "\<exists>it'. iter_crc32c func m b len crc it =
      Some (Inr (crc_ref crc (take len (drop (it_a_off it) (bl_bytes m b))), it')) \<and> iter_ok m b it' \<and>
    it_a_off it' = it_a_off it + min len (b_len b - it_a_off it)"
proof -
  note l = listD [OF b(1)] and ok = iter_okD [OF b(2)]
  let ?a = "it_a_off it" and ?all = "bl_bytes m b"
  let ?L = "min len (b_len b - ?a)"
  obtain cur r where c: "cursor_of b it = (cur, r, ?a)" "cursor_ok m (bufs b) (cur, r, ?a)"
    using ok by (cases "cursor_of b it") auto
  have a: "?a \<le> b_len b" "?a + ?L \<le> b_len b" using cursor_okD(2) [OF c(2)] l(4) by simp_all
  let ?P = "\<lambda>s. case s of (left, k, (cu, ro, p)) \<Rightarrow> p + left = ?a + ?L \<and> ?a \<le> p \<and>
    k = crc_ref crc (seg ?a (p - ?a) ?all) \<and> cursor_ok m (bufs b) (cu, ro, p)"
  let ?Q = "\<lambda>s. case s of (k, c') \<Rightarrow> k = crc_ref crc (seg ?a ?L ?all) \<and> cursor_ok m (bufs b) c' \<and>
    snd (snd c') = ?a + ?L"
  let ?f = "\<lambda>s :: nat \<times> u32 \<times> cursor. case s of (left, k, (cu, ro, p)) \<Rightarrow> length cu + left"
  have "\<exists>s. run (iter_crc_round func m b) (?L, crc, (cur, r, ?a)) = Some (Inr s) \<and> ?Q s"
  proof (rule run_total [where P = ?P and f = ?f])
    show "?P (?L, crc, (cur, r, ?a))" using c(2) by (simp add: crc_ref_def)
  next
    fix s assume P: "?P s"
    obtain left k ci where "s = (left, k, ci)" by (cases s)
    moreover obtain cu ro p where "ci = (cu, ro, p)" by (cases ci)
    ultimately have s: "s = (left, k, (cu, ro, p))" by simp
    have h: "p + left = ?a + ?L" "?a \<le> p" "k = crc_ref crc (seg ?a (p - ?a) ?all)"
      "cursor_ok m (bufs b) (cu, ro, p)"
      using P unfolding s by simp_all
    show "(\<exists>r. iter_crc_round func m b s = Inr (Inl r) \<and> ?Q r) \<or>
        (\<exists>s'. iter_crc_round func m b s = Inr (Inr s') \<and> ?P s' \<and> ?f s' < ?f s)"
    proof (cases "left = 0")
      case True
      then have "iter_crc_round func m b s = Inr (Inl (k, (cu, ro, p)))" by (simp add: s iter_crc_round_def)
      then show ?thesis using h True by (intro disjI1 exI [of _ "(k, (cu, ro, p))"]) simp
    next
      case False
      have "p < b_len b" using h(1) a(2) False by simp
      then obtain w rst cur' r' addr where g: "cur_get_ptr m b left (cu, ro, p) = Inr (Some w, rst, cur', r', p + rst)"
        "crc_at m (Some w) rst = Inr (Some (addr, seg p rst ?all))"
        "cursor_ok m (bufs b) (cur', r', p + rst)" "rst \<le> left" "p + rst \<le> b_len b"
        "length cur' < length cu \<or> 0 < rst \<and> length cur' \<le> length cu"
        using cur_get_ptr_ok [OF b(1) h(4), of left] False by blast
      have small: "rst mod 2 ^ 32 = rst" "sub64 left rst = left - rst"
        using g(4) h(1,2) n a(2) l(3,4) by (simp_all add: arith64)
      have len: "length (seg p rst ?all) = rst" using g(5) l(4) by (simp add: bl_bytes_cat)
      have crc: "spec_crc32c func k (Some (addr, seg p rst ?all)) rst =
          Some (crc_ref crc (seg ?a (p + rst - ?a) ?all))"
        using spec_crc32c_data [of rst "seg p rst ?all" k addr] len h(2,3)
          seg_append_seg [of ?a "p - ?a" rst ?all] by (simp flip: crc_ref_append)
      have "iter_crc_round func m b s = Inr (Inr (left - rst, crc_ref crc (seg ?a (p + rst - ?a) ?all),
          (cur', r', p + rst)))"
        using False g(1,2) small crc by (simp add: s iter_crc_round_def)
      then show ?thesis using g(3,4,6) h(1,2)
        by (intro disjI2 exI [of _ "(left - rst, crc_ref crc (seg ?a (p + rst - ?a) ?all), (cur', r', p + rst))"])
          (auto simp: s)
    qed
  qed
  then obtain k c' where k: "run (iter_crc_round func m b) (?L, crc, (cur, r, ?a)) = Some (Inr (k, c'))"
    "k = crc_ref crc (seg ?a ?L ?all)" "cursor_ok m (bufs b) c'" "snd (snd c') = ?a + ?L" by auto
  have "seg ?a ?L ?all = take len (drop ?a ?all)"
    using l(4) by (simp add: seg_def bl_bytes_cat min_def)
  moreover have "get_remaining b it = b_len b - ?a"
    using a(1) l(3,4) by (simp add: get_remaining_def arith64)
  ultimately show ?thesis using c(1) k cursor_of_iter(2) [OF l(5) k(3)]
    by (intro exI [of _ "iter_of c'"]) (simp add: iter_crc32c_def)
qed

end

subsection \<open>Properties\<close>

text \<open>
  Seeking puts the iterator at an offset into the list's bytes and refuses
  offsets beyond the end; the byte there is the list's.
\<close>

lemma seek_position:
  assumes "ready b m" "off < two64"
  shows "case iter_seek m b off of
      Inl e \<Rightarrow> b_len b < off \<and> e = End_of_buffer
    | Inr it \<Rightarrow> off \<le> b_len b \<and> iter_ok m b it \<and> get_off it = off \<and>
        iter_deref m it = (if off < b_len b then Inr (bl_bytes m b ! off) else Inl End_of_buffer)"
proof -
  note l = listD [OF assms(1)]
  show ?thesis
  proof (cases "off \<le> b_len b")
    case False
    then have "iter_seek m b off = Inl End_of_buffer"
      using cur_add_beyond [OF l(1,2) cursor_start, of off] assms(2) l(4)
      by (simp add: iter_seek_def cur_seek_def)
    then show ?thesis using False by simp
  next
    case True
    then obtain cur r where c: "cur_add m off (bufs b, 0, 0) = Inr (cur, r, off)"
      "cursor_ok m (bufs b) (cur, r, off)" "settled m (cur, r, off)"
      using cur_add_ok [OF l(1-3) cursor_start, of off] l(4) by auto
    have "iter_deref m (iter_of (cur, r, off)) =
        (if off < b_len b then Inr (bl_bytes m b ! off) else Inl End_of_buffer)"
    proof (cases cur)
      case Nil
      then show ?thesis using cursor_okD(3) [OF c(2)] l(4) by (simp add: iter_deref_def iter_of_def node_of_def)
    next
      case (Cons i js)
      have r: "r < length (node_bytes m i)" using c(3) Cons by (simp add: settled_def)
      have i: "has_raw m i" using l(2) cursor_okD(5) [OF c(2)] Cons by auto
      obtain pre where "bufs b = pre @ i # js" "off = length (cat_bytes m pre) + r"
        using cursor_okD(1) [OF c(2)] Cons by blast
      then have "bl_bytes m b ! off = node_bytes m i ! r" "off < b_len b"
        using r l(4) by (simp_all add: bl_bytes_cat nth_append)
      then show ?thesis using has_raw_index [OF l(1) i r] Cons
        by (simp add: iter_deref_def iter_of_def node_of_def)
    qed
    then show ?thesis using True c cursor_of_iter(2) [OF l(5) c(2)]
      by (simp add: iter_seek_def cur_seek_def get_off_def)
  qed
qed

lemma seek_position_witness:
  "\<exists>m b it. iter_seek m b 4 = Inr it \<and> iter_deref m it = Inr 2 \<and> iter_seek m b 7 = Inl End_of_buffer"
proof -
  obtain m b where r: "ready b m" and b: "bl_bytes m b = [1, 2, 3, 1, 2, 3]" "b_len b = 6"
    using demo_list by blast
  show ?thesis using seek_position [OF r, of 4] seek_position [OF r, of 7] b
    by (auto simp: two64_def split: sum.splits)
qed

text \<open>
  C7 (functional). Copying from an iterator gives exactly the next bytes of the list, across
  its nodes, and moves the iterator by as many; if there are not that many it throws
  \<^verbatim>\<open>end_of_buffer\<close>. The loop always ends.
\<close>

theorem copy_next_bytes:
  assumes "ready b m" "iter_ok m b it"
  shows "if it_a_off it + len \<le> b_len b
    then \<exists>it'. iter_copy m b len it = Some (Inr (seg (it_a_off it) len (bl_bytes m b), it')) \<and>
      iter_ok m b it' \<and> it_a_off it' = it_a_off it + len
    else iter_copy m b len it = Some (Inl End_of_buffer)"
  using by_copy_out.iter_read_ok [OF assms, of len "[]"] by (auto simp: iter_copy_def not_le)

text \<open>An iterator into the middle of a list.\<close>

lemma demo_iter: "\<exists>m b it. ready b m \<and> bl_bytes m b = [1, 2, 3, 1, 2, 3] \<and> b_len b = 6 \<and>
    bufs b = [1, 2] \<and> iter_ok m b it \<and> it_a_off it = 1"
proof -
  obtain m b where r: "ready b m" and b: "bl_bytes m b = [1, 2, 3, 1, 2, 3]" "bufs b = [1, 2]" "b_len b = 6"
    using demo_list by blast
  note l = listD [OF r]
  obtain cur r' where "cursor_ok m (bufs b) (cur, r', 1)"
    using cur_add_ok [OF l(1-3) cursor_start, of 1] l(4) b(3) by auto
  then have "iter_ok m b (iter_of (cur, r', 1))" by (rule cursor_of_iter(2) [OF l(5)])
  then show ?thesis using r b by (intro exI [of _ m] exI [of _ b] exI [of _ "iter_of (cur, r', 1)"]) simp
qed

theorem copy_next_bytes_witness:
  "\<exists>m b it it'. iter_copy m b 4 it = Some (Inr ([2, 3, 1, 2], it')) \<and> iter_copy m b 6 it = Some (Inl End_of_buffer)"
proof -
  obtain m b it where *: "ready b m" "iter_ok m b it" and b: "bl_bytes m b = [1, 2, 3, 1, 2, 3]"
    "b_len b = 6" "it_a_off it = 1" using demo_iter by blast
  have "seg 1 4 (bl_bytes m b) = [2, 3, 1, 2]" unfolding b(1) by (simp add: seg_def numeral_eq_Suc)
  moreover obtain it' where "iter_copy m b 4 it = Some (Inr (seg 1 4 (bl_bytes m b), it'))"
    using copy_next_bytes [OF *, of 4] b(2,3) by auto
  moreover have "iter_copy m b 6 it = Some (Inl End_of_buffer)"
    using copy_next_bytes [OF *, of 6] b(2,3) by simp
  ultimately show ?thesis
    by (intro exI [of _ m] exI [of _ b] exI [of _ it] exI [of _ it']) simp
qed

text \<open>
  Copying to a string does to the string what \<^verbatim>\<open>copy\<close> to memory does to an
  array, although it reads the nodes in another way.
\<close>

lemma copy_str_is_copy:
  assumes "ready b m" "iter_ok m b it"
  shows "map_option (map_sum id fst) (iter_copy_str m b len dest it) =
    map_option (map_sum id (\<lambda>x. dest @ fst x)) (iter_copy m b len it)"
  using by_copy_out.iter_read_ok [OF assms, of len "[]"] by_memory.iter_read_ok [OF assms, of len dest]
  by (cases "it_a_off it + len \<le> b_len b") (auto simp: iter_copy_def iter_copy_str_def not_le)

lemma copy_str_is_copy_witness:
  "\<exists>m b it. map_option (map_sum id fst) (iter_copy_str m b 4 [9] it) = Some (Inr [9, 2, 3, 1, 2])"
proof -
  obtain m b it where *: "ready b m" "iter_ok m b it" and b: "bl_bytes m b = [1, 2, 3, 1, 2, 3]"
    "b_len b = 6" "it_a_off it = 1" using demo_iter by blast
  have "seg 1 4 (bl_bytes m b) = [2, 3, 1, 2]" unfolding b(1) by (simp add: seg_def numeral_eq_Suc)
  moreover obtain it' where "iter_copy m b 4 it = Some (Inr (seg 1 4 (bl_bytes m b), it'))"
    using by_copy_out.iter_read_ok(1) [OF *, of 4 "[]"] b by (auto simp: iter_copy_def)
  ultimately show ?thesis using copy_str_is_copy [OF *, of 4 "[9]"]
    by (intro exI [of _ m] exI [of _ b] exI [of _ it]) simp
qed

text \<open>
  C10 (functional). Copying in through an iterator replaces exactly that range of the list's
  bytes, changes no object whose window is elsewhere, and moves the iterator behind it, for
  a list whose nodes do not overlap.
\<close>

theorem copy_in_replaces:
  assumes "ready b m" "iter_ok m b it" "no_overlap m (bufs b)" "it_a_off it + length src \<le> b_len b"
  shows "\<exists>it' m'. iter_copy_in b src reset it m = Some (Inr (it', m')) \<and>
    bl_bytes m' b = write_at (it_a_off it) src (bl_bytes m b) \<and> wf_mem m' \<and>
    keeps (outside m (bufs b)) m m' \<and> iter_ok m' b it' \<and> it_a_off it' = it_a_off it + length src"
  using iter_copy_in_ok [OF assms, of reset] by (auto simp: written_def bl_bytes_cat)

lemma demo_iter_one: "\<exists>m b it. ready b m \<and> bl_bytes m b = [1, 2, 3] \<and> b_len b = 3 \<and>
    no_overlap m (bufs b) \<and> iter_ok m b it \<and> it_a_off it = 1"
proof -
  obtain m b where r: "ready b m" and b: "bl_bytes m b = [1, 2, 3, 1, 2, 3]" "bufs b = [1, 2]"
    "node_bytes m 1 = [1, 2, 3]"
    using demo_list by blast
  let ?o = "\<lparr>bufs = [1], tail_cache = None, b_len = 3, b_num = 1\<rparr>"
  have wf: "wf_mem m" "wf_list m b" "env_ok (m_env m)" using r by (simp_all add: ready_def)
  have o: "wf_list m ?o" by (rule demo_one [OF wf(1) b(3,2) wf(2)])
  have ro: "ready ?o m" using wf o by (simp add: ready_def)
  note l = listD [OF ro]
  obtain cur r' where "cursor_ok m (bufs ?o) (cur, r', 1)"
    using cur_add_ok [OF l(1-3) cursor_start, of 1] l(4) by auto
  then have "iter_ok m ?o (iter_of (cur, r', 1))" by (rule cursor_of_iter(2) [OF l(5)])
  then show ?thesis using ro b(3)
    by (intro exI [of _ m] exI [of _ ?o] exI [of _ "iter_of (cur, r', 1)"])
      (simp add: no_overlap_def bl_bytes_def)
qed

theorem copy_in_replaces_witness:
  "\<exists>m b it it' m'. bl_bytes m b = [1, 2, 3] \<and> iter_copy_in b [8, 9] True it m = Some (Inr (it', m')) \<and>
    bl_bytes m' b = [1, 8, 9]"
proof -
  obtain m b it where *: "ready b m" "iter_ok m b it" "no_overlap m (bufs b)"
    and b: "bl_bytes m b = [1, 2, 3]" "b_len b = 3" "it_a_off it = 1"
    using demo_iter_one by blast
  have "it_a_off it + length [8, 9 :: u8] \<le> b_len b" using b by simp
  then obtain it' m' where "iter_copy_in b [8, 9] True it m = Some (Inr (it', m'))"
    "bl_bytes m' b = write_at (it_a_off it) [8, 9] (bl_bytes m b)"
    using copy_in_replaces [OF *, of "[8, 9]" True] by blast
  then show ?thesis using b
    by (intro exI [of _ m] exI [of _ b] exI [of _ it] exI [of _ it'] exI [of _ m'])
      (simp add: write_at_def)
qed

text \<open>
  What copying to another list does to memory: no raw is made, freed or written, and the nodes the
  list then has hold raws that its own nodes or the other list's nodes held before.
\<close>

lemma at_object: "ptr_at m i = Inr p \<longleftrightarrow> m_ptrs m i = Some p"
  by (simp add: ptr_at_def)

definition same_raws :: "mem \<Rightarrow> mem \<Rightarrow> bool" where
  "same_raws m m' \<longleftrightarrow> dom (m_raws m') = dom (m_raws m) \<and>
    (\<forall>r w w'. m_raws m r = Some w \<longrightarrow> m_raws m' r = Some w' \<longrightarrow> same_raw w w')"

definition raws_of :: "mem \<Rightarrow> nat list \<Rightarrow> nat set" where
  "raws_of m is = {r. \<exists>i \<in> set is. \<exists>p. m_ptrs m i = Some p \<and> p_raw p = Some r}"

definition holds_on :: "mem \<Rightarrow> mem \<Rightarrow> bool" where
  "holds_on m m' \<longleftrightarrow> same_raws m m' \<and> m_next m \<le> m_next m' \<and>
    (\<forall>i p. m_ptrs m i = Some p \<longrightarrow> (\<exists>p'. m_ptrs m' i = Some p' \<and> p_raw p' = p_raw p)) \<and>
    ((\<forall>i \<in> dom (m_ptrs m). i < m_next m) \<longrightarrow> (\<forall>i \<in> dom (m_ptrs m'). i < m_next m'))"

lemma holds_on_refl: "holds_on m m"
  by (auto simp: holds_on_def same_raws_def)

lemma holds_on_trans:
  assumes "holds_on m m1" "holds_on m1 m'"
  shows "holds_on m m'"
proof -
  have "same_raw w w'" if w: "m_raws m r = Some w" "m_raws m' r = Some w'" for r w w'
  proof -
    obtain w1 where "m_raws m1 r = Some w1" using assms(1) w(1) unfolding holds_on_def same_raws_def by blast
    then show ?thesis using assms w same_raw_trans [of w w1 w'] unfolding holds_on_def same_raws_def by blast
  qed
  moreover have "\<exists>p'. m_ptrs m' i = Some p' \<and> p_raw p' = p_raw p" if "m_ptrs m i = Some p" for i p
    using assms that unfolding holds_on_def by metis
  ultimately show ?thesis using assms by (simp add: holds_on_def same_raws_def)
qed

lemma raws_of_held: "holds_on m m' \<Longrightarrow> set is \<subseteq> dom (m_ptrs m) \<Longrightarrow> raws_of m' is = raws_of m is"
  unfolding raws_of_def holds_on_def by (fastforce dest: domD)

lemma raws_of_append [simp]: "raws_of m (is @ js) = raws_of m is \<union> raws_of m js"
  by (auto simp: raws_of_def)

lemma append_range_holds:
  assumes "blist_append_range i off len d m = Inr (d', m')" "\<forall>i \<in> dom (m_ptrs m). i < m_next m"
    "set (bufs d) \<subseteq> dom (m_ptrs m)"
  shows "holds_on m m'" "set (bufs d') \<subseteq> dom (m_ptrs m')" "raws_of m' (bufs d') \<subseteq> raws_of m (bufs d) \<union> raws_of m [i]"
proof -
  obtain p where p: "m_ptrs m i = Some p"
    using assms(1) by (auto simp: blist_append_range_def ebind_Inr_iff at_object)
  consider (fresh) k where "ptr_sub i off len m = Inr (k, m')" "bufs d' = bufs d @ [k]"
    | (grown) n where "set_length (last (bufs d)) n m = Inr m'" "bufs d' = bufs d"
    using assms(1) by (auto simp: blist_append_range_def ebind_Inr_iff Let_def split: if_splits)
  then have "holds_on m m' \<and> set (bufs d') \<subseteq> dom (m_ptrs m') \<and>
      raws_of m' (bufs d') \<subseteq> raws_of m (bufs d) \<union> raws_of m [i]"
  proof cases
    case fresh
    obtain q where q: "k = m_next m" "m_ptrs m' = (m_ptrs m)(m_next m \<mapsto> q)" "p_raw q = p_raw p" "m_next m' = Suc (m_next m)"
      "m_raws m' = m_raws (raw_ref (the (p_raw p)) m)"
      using fresh(1) p by (auto simp: ptr_sub_def at_object ebind_Inr_iff obj_new_def raw_ref_def upd_raw_def)
    have new: "m_next m \<notin> dom (m_ptrs m)" using assms(2) by auto
    have "same_raws m m'"
      by (auto simp: same_raws_def q(5) raw_ref_def m_raws_upd_raw same_raw_def split: if_splits)
    then have h: "holds_on m m'"
      using assms(2) new by (auto simp: holds_on_def q(2,4) less_Suc_eq)
    have "raws_of m' [k] \<subseteq> raws_of m [i]" using p q(1-3) by (auto simp: raws_of_def)
    then show ?thesis using h raws_of_held [OF h assms(3)] assms(3) q(1,2) by (auto simp: fresh(2))
  next
    case grown
    obtain t n where t: "m_ptrs m (last (bufs d)) = Some t" "m' = obj_set (last (bufs d)) (t\<lparr>p_len := n\<rparr>) m"
      using grown(1) by (auto simp: set_length_def ebind_Inr_iff at_object)
    have h: "holds_on m m'" using t by (auto simp: holds_on_def same_raws_def obj_set_def)
    then show ?thesis using raws_of_held [OF h assms(3)] assms(3) t by (auto simp: grown(2) obj_set_def)
  qed
  then show "holds_on m m'" "set (bufs d') \<subseteq> dom (m_ptrs m')"
    "raws_of m' (bufs d') \<subseteq> raws_of m (bufs d) \<union> raws_of m [i]" by simp_all
qed

lemma cur_add_within: "cur_add m off (cur, r, a) = Inr (cur', s) \<Longrightarrow> set cur' \<subseteq> set cur"
proof -
  have skip: "skip_nodes m r is = Inr (r', is') \<Longrightarrow> set is' \<subseteq> set is" for r r' "is" is'
    by (induction m r "is" rule: skip_nodes.induct) (auto simp: ebind_Inr_iff split: if_splits)
  show "cur_add m off (cur, r, a) = Inr (cur', s) \<Longrightarrow> set cur' \<subseteq> set cur"
    by (auto simp: cur_add_def ebind_Inr_iff split: if_splits dest!: skip)
qed

lemma iter_copy_list_holds:
  assumes "iter_copy_list b len dest it m = Some (Inr (dest', it', m'))" "\<forall>i \<in> dom (m_ptrs m). i < m_next m"
    "set (bufs dest) \<subseteq> dom (m_ptrs m)" "set (bufs b) \<subseteq> dom (m_ptrs m)"
  shows "holds_on m m'" "raws_of m' (bufs dest') \<subseteq> raws_of m (bufs dest) \<union> raws_of m (bufs b)"
proof -
  obtain c where c: "cur_restart m b (cursor_of b it) = Inr c"
    using assms(1) by (cases "cur_restart m b (cursor_of b it)") (auto simp: iter_copy_list_def)
  obtain cur r a where cra: "c = (cur, r, a)" by (cases c)
  obtain c' where run: "run copy_list_round (len, dest, c, m) = Some (Inr (dest', c', m'))"
    using assms(1) c by (auto simp: iter_copy_list_def rbind_def split: option.splits sum.splits)
  have "set cur \<subseteq> set (bufs b)"
  proof -
    obtain here r0 a0 where at: "cursor_of b it = (here, r0, a0)" by (cases "cursor_of b it")
    have "set here \<subseteq> set (bufs b)"
      using at by (auto simp: cursor_of_def split: option.splits dest: set_dropWhileD)
    then show ?thesis
      using c cra at cur_add_within [of m a0 "bufs b" 0 0 cur "(r, a)"]
      by (cases here) (auto simp: cur_restart_def cur_seek_def)
  qed
  let ?P = "\<lambda>s. case s of (l, d, (cu, ro, p), m1) \<Rightarrow> set cu \<subseteq> set (bufs b) \<and> holds_on m m1 \<and>
    set (bufs d) \<subseteq> dom (m_ptrs m1) \<and> raws_of m1 (bufs d) \<subseteq> raws_of m (bufs dest) \<union> raws_of m (bufs b)"
  let ?Q = "\<lambda>t. case t of (d, _, m1) \<Rightarrow> holds_on m m1 \<and> raws_of m1 (bufs d) \<subseteq> raws_of m (bufs dest) \<union> raws_of m (bufs b)"
  have "?Q (dest', c', m')"
  proof (rule run_invariant [OF run, where P = ?P])
    show "?P (len, dest, c, m)" using \<open>set cur \<subseteq> set (bufs b)\<close> assms(3) cra holds_on_refl by auto
  next
    fix s t assume P: "?P s" and out: "copy_list_round s = Inr (Inl t)"
    then show "?Q t" by (auto simp: copy_list_round_def ebind_Inr_iff Let_def split: prod.splits if_splits list.splits)
  next
    fix s s' assume P: "?P s" and go: "copy_list_round s = Inr (Inr s')"
    obtain l d cu ro p m1 where s: "s = (l, d, (cu, ro, p), m1)" by (cases s) auto
    obtain i js n d2 m2 c2 where st: "cu = i # js" "blist_append_range i ro (copy_len n ro l) d m1 = Inr (d2, m2)"
      "cur_add m2 (copy_len n ro l) (cu, ro, p) = Inr c2" "s' = (l - copy_len n ro l, d2, c2, m2)"
      using go unfolding s by (auto simp: copy_list_round_def ebind_Inr_iff Let_def split: if_splits list.splits)
    obtain cu2 r2 a2 where c2: "c2 = (cu2, r2, a2)" by (cases c2)
    have h: "set cu \<subseteq> set (bufs b)" "holds_on m m1" "set (bufs d) \<subseteq> dom (m_ptrs m1)"
      "raws_of m1 (bufs d) \<subseteq> raws_of m (bufs dest) \<union> raws_of m (bufs b)" using P unfolding s by auto
    have ids: "\<forall>i \<in> dom (m_ptrs m1). i < m_next m1" using h(2) assms(2) by (simp add: holds_on_def)
    note one = append_range_holds [OF st(2) ids h(3)]
    have "raws_of m1 [i] \<subseteq> raws_of m (bufs b)"
    proof -
      have "set [i] \<subseteq> dom (m_ptrs m)" "i \<in> set (bufs b)" using h(1) st(1) assms(4) by auto
      then show ?thesis using raws_of_held [OF h(2), of "[i]"] by (auto simp: raws_of_def)
    qed
    moreover have "set cu2 \<subseteq> set (bufs b)" using cur_add_within [OF st(3) [unfolded c2]] h(1) by blast
    ultimately show "?P s'"
      using one h(4) holds_on_trans [OF h(2) one(1)] unfolding st(4) c2 by auto
  qed
  then show "holds_on m m'" "raws_of m' (bufs dest') \<subseteq> raws_of m (bufs dest) \<union> raws_of m (bufs b)" by simp_all
qed

text \<open>
  C32 (functional). Copying a range to another list appends exactly those bytes to it and
  leaves this list as it was, and it does so by sharing memory: no raw is made, freed or written, and every
  node the other list then has holds a raw that one of its nodes or a node of this list held before.
\<close>

theorem copy_to_list_appends:
  assumes "ready b m" "iter_ok m b it" "it_a_off it + len \<le> b_len b"
    and "ready dest m" "apart dest b" "b_len dest + len < 2 ^ 62"
    and "length (bufs dest) + length (bufs b) + 2 < 2 ^ 62"
  shows "\<exists>dest' it' m'. iter_copy_list b len dest it m = Some (Inr (dest', it', m')) \<and>
    becomes dest m (bl_bytes m dest @ seg (it_a_off it) len (bl_bytes m b)) dest' m' \<and>
    bl_bytes m' b = bl_bytes m b \<and> iter_ok m' b it' \<and> it_a_off it' = it_a_off it + len \<and>
    same_raws m m' \<and> raws_of m' (bufs dest') \<subseteq> raws_of m (bufs dest) \<union> raws_of m (bufs b)"
proof -
  have "\<forall>i \<in> dom (m_ptrs m). i < m_next m" using wf_mem_dom [OF readyD(1) [OF assms(1)]] by blast
  note h = iter_copy_list_holds [OF _ this wf_nodesD(6) [OF readyD(3) [OF assms(4)]] wf_nodesD(6) [OF readyD(3) [OF assms(1)]]]
  obtain dest' it' m' where *: "iter_copy_list b len dest it m = Some (Inr (dest', it', m'))"
    "becomes dest m (bl_bytes m dest @ seg (it_a_off it) len (bl_bytes m b)) dest' m'"
    "bl_bytes m' b = bl_bytes m b" "iter_ok m' b it'" "it_a_off it' = it_a_off it + len"
    using iter_copy_list_ok [OF assms] by blast
  show ?thesis using * h [OF *(1)] by (auto simp: holds_on_def)
qed

theorem copy_to_list_appends_witness:
  "\<exists>m b it dest' it' m'. iter_copy_list b 4 blist_new it m = Some (Inr (dest', it', m')) \<and>
    bl_bytes m' dest' = [2, 3, 1, 2] \<and> bl_bytes m' b = [1, 2, 3, 1, 2, 3]"
proof -
  obtain m b it where *: "ready b m" "iter_ok m b it" and b: "bl_bytes m b = [1, 2, 3, 1, 2, 3]"
    "b_len b = 6" "bufs b = [1, 2]" "it_a_off it = 1" using demo_iter by blast
  have d: "ready blist_new m" by (rule ready_new) (use *(1) in \<open>simp_all add: ready_def\<close>)
  have s: "seg 1 4 (bl_bytes m b) = [2, 3, 1, 2]" unfolding b(1) by (simp add: seg_def numeral_eq_Suc)
  have "it_a_off it + 4 \<le> b_len b" "apart blist_new b" "b_len blist_new + 4 < 2 ^ 62"
    "length (bufs blist_new) + length (bufs b) + 2 < 2 ^ 62"
    using b by (simp_all add: apart_def blist_new_def)
  then obtain dest' it' m' where "iter_copy_list b 4 blist_new it m = Some (Inr (dest', it', m'))"
    "becomes blist_new m (bl_bytes m blist_new @ seg (it_a_off it) 4 (bl_bytes m b)) dest' m'"
    "bl_bytes m' b = bl_bytes m b"
    using copy_to_list_appends [OF * _ d] by blast
  then show ?thesis using b(1,4) s
    by (intro exI [of _ m] exI [of _ b] exI [of _ it] exI [of _ dest'] exI [of _ it'] exI [of _ m'])
      (simp add: becomes_def turns_def)
qed

text \<open>
  The checksum from a position is the CRC of the bytes from there on, cut to
  the length asked for; it ends although a position may be on an empty node.
\<close>

lemma crc_from_position:
  assumes "ready b m" "iter_ok m b it" "min len (b_len b - it_a_off it) < 2 ^ 32"
  shows "\<exists>it'. iter_crc32c crc32c_sctp m b len crc it =
      Some (Inr (crc_ref crc (take len (drop (it_a_off it) (bl_bytes m b))), it')) \<and> iter_ok m b it' \<and>
    it_a_off it' = it_a_off it + min len (b_len b - it_a_off it)"
  by (rule sctp.iter_crc_ok [OF assms])

lemma crc_from_position_witness:
  "\<exists>m b it it'. iter_crc32c crc32c_sctp m b 100 0 it = Some (Inr (crc_ref 0 [2, 3, 1, 2, 3], it')) \<and>
    it_a_off it' = 6"
proof -
  obtain m b it where *: "ready b m" "iter_ok m b it" and b: "bl_bytes m b = [1, 2, 3, 1, 2, 3]"
    "b_len b = 6" "it_a_off it = 1" using demo_iter by blast
  then obtain it' where "iter_crc32c crc32c_sctp m b 100 0 it =
      Some (Inr (crc_ref 0 (take 100 (drop (it_a_off it) (bl_bytes m b))), it'))"
    "it_a_off it' = it_a_off it + min 100 (b_len b - it_a_off it)"
    using crc_from_position [OF *, of 100 0] by auto
  then show ?thesis using b
    by (intro exI [of _ m] exI [of _ b] exI [of _ it] exI [of _ it']) simp
qed

end
