(* ===== verification/Ptr_Narrow.thy ===== *)
theory Ptr_Narrow
  imports Ptr_Write
begin

text \<open>
  The reference counters do not depend on the windows. \<open>narrow m\<close> is the store \<open>m\<close> with
  every window closed to offset and length 0; each operation on \<open>m\<close> is an operation on
  \<open>narrow m\<close>, or leaves it alone but for the contents of a raw. So the counters of \<open>m\<close> are
  right whenever \<open>narrow m\<close> is well formed, whatever windows the callers have set.
\<close>

definition closed :: "ptr \<Rightarrow> ptr" where
  "closed p = p\<lparr>p_off := 0, p_len := 0\<rparr>"

definition narrow :: "mem \<Rightarrow> mem" where
  "narrow m = m\<lparr>m_ptrs := (\<lambda>i. map_option closed (m_ptrs m i))\<rparr>"

lemma closed_sel [simp]: "p_raw (closed p) = p_raw p" "p_off (closed p) = 0" "p_len (closed p) = 0"
  "closed (p\<lparr>p_raw := x\<rparr>) = (closed p)\<lparr>p_raw := x\<rparr>" "closed (p\<lparr>p_off := n\<rparr>) = closed p"
  "closed (p\<lparr>p_len := n\<rparr>) = closed p" "closed null_ptr = null_ptr" "closed (closed p) = closed p"
  by (simp_all add: closed_def null_ptr_def)

lemma closed_make: "closed \<lparr>p_raw = x, p_off = off, p_len = len\<rparr> = \<lparr>p_raw = x, p_off = 0, p_len = 0\<rparr>"
  by (simp add: closed_def)

lemma closed_raw: "closed p = \<lparr>p_raw = p_raw p, p_off = 0, p_len = 0\<rparr>"
  by (simp add: closed_def)

lemma narrow_sel [simp]:
  "m_ptrs (narrow m) i = map_option closed (m_ptrs m i)" "m_raws (narrow m) = m_raws m"
  "m_next (narrow m) = m_next m" "m_env (narrow m) = m_env m" "refset (narrow m) = refset m"
  by (auto simp: narrow_def refset_def fun_eq_iff)

lemma narrow_prims [simp]:
  "narrow (obj_set i p m) = obj_set i (closed p) (narrow m)"
  "narrow (upd_raw r f m) = upd_raw r f (narrow m)"
  "narrow (raw_ref r m) = raw_ref r (narrow m)"
  "narrow (pool_adjust t a b m) = pool_adjust t a b (narrow m)"
  "narrow (m\<lparr>m_raws := x\<rparr>) = (narrow m)\<lparr>m_raws := x\<rparr>"
  "narrow (m\<lparr>m_ptrs := (m_ptrs m)(i := None)\<rparr>) = (narrow m)\<lparr>m_ptrs := (m_ptrs (narrow m))(i := None)\<rparr>"
  "narrow (raw_invalidate_crc r m) = raw_invalidate_crc r (narrow m)"
  "narrow (empty_mem e) = empty_mem e"
  by (auto simp: narrow_def obj_set_def upd_raw_def raw_ref_def pool_adjust_def Let_def fun_eq_iff
      raw_invalidate_crc_def empty_mem_def)

lemma narrow_new [simp]: "narrow (snd (obj_new p m)) = snd (obj_new (closed p) (narrow m))"
  by (auto simp: obj_new_def narrow_def fun_eq_iff)

lemma obj_new_Inr: "obj_new p m = (k, m') \<longleftrightarrow> k = m_next m \<and> m' = snd (obj_new p m)"
  by (auto simp: prod_eq_iff)

lemma at_narrow [simp]: "ptr_at (narrow m) i = ebind (ptr_at m i) (\<lambda>p. Inr (closed p))"
  "raw_at (narrow m) r = raw_at m r"
  by (cases "m_ptrs m i", simp_all add: ptr_at_def raw_at_def)

lemma narrow_delete: "raw_delete r (narrow m) = ebind (raw_delete r m) (\<lambda>m. Inr (narrow m))"
  by (simp add: raw_delete_def ebind_assoc)

lemma narrow_unref_eq: "raw_unref r (narrow m) = ebind (raw_unref r m) (\<lambda>m. Inr (narrow m))"
proof (cases "raw_at m r")
  case (Inr w)
  then show ?thesis by (simp add: raw_unref_def Let_def narrow_delete flip: narrow_prims(2))
qed (simp add: raw_unref_def)

lemma narrow_release: "ptr_release i m = Inr m' \<Longrightarrow> ptr_release i (narrow m) = Inr (narrow m')"
proof (cases "ptr_at m i")
  case (Inr p)
  assume "ptr_release i m = Inr m'"
  then show ?thesis using Inr
    by (auto simp: ptr_release_def Let_def narrow_unref_eq split: option.splits simp flip: narrow_prims(1) closed_sel(4))
qed (simp add: ptr_release_def)

lemma narrow_copy: "ptr_copy i m = Inr (k, m') \<Longrightarrow> ptr_copy i (narrow m) = Inr (k, narrow m')"
  by (cases "ptr_at m i") (auto simp: ptr_copy_def obj_new_Inr raw_ref_def split: option.splits)

lemma narrow_move: "ptr_move i m = Inr (k, m') \<Longrightarrow> ptr_move i (narrow m) = Inr (k, narrow m')"
  by (cases "ptr_at m i") (auto simp: ptr_move_def obj_new_Inr)

text \<open>Without its windows a slice is a copy.\<close>

lemma narrow_sub: "ptr_sub i off len m = Inr (k, m') \<Longrightarrow> ptr_copy i (narrow m) = Inr (k, narrow m')"
  by (cases "ptr_at m i")
    (auto simp: ptr_sub_def ptr_copy_def obj_new_Inr raw_ref_def ebind_Inr_iff closed_make closed_raw)

lemma narrow_destroy: "ptr_destroy i m = Inr m' \<Longrightarrow> ptr_destroy i (narrow m) = Inr (narrow m')"
  by (auto simp: ptr_destroy_def ebind_Inr_iff dest: narrow_release)

lemma narrow_swap: "ptr_swap i j m = Inr m' \<Longrightarrow> ptr_swap i j (narrow m) = Inr (narrow m')"
  by (auto simp: ptr_swap_def ebind_Inr_iff)

lemma narrow_assign:
  assumes "ptr_assign i j m = Inr m'"
  shows "ptr_assign i j (narrow m) = Inr (narrow m')"
proof -
  obtain q where q: "ptr_at m j = Inr q" using assms by (auto simp: ptr_assign_def ebind_Inr_iff)
  define m0 where "m0 = (case p_raw q of None \<Rightarrow> m | Some r \<Rightarrow> raw_ref r m)"
  obtain m1 q' where m1: "ptr_release i m0 = Inr m1" "ptr_at m1 j = Inr q'"
    and m': "m' = obj_set i (case p_raw q of
        Some r \<Rightarrow> \<lparr>p_raw = Some r, p_off = p_off q', p_len = p_len q'\<rparr> | None \<Rightarrow> null_ptr) m1"
    using assms q by (auto simp: ptr_assign_def ebind_Inr_iff m0_def)
  have n0: "narrow m0 = (case p_raw q of None \<Rightarrow> narrow m | Some r \<Rightarrow> raw_ref r (narrow m))"
    by (simp add: m0_def split: option.split)
  have "ptr_release i (narrow m0) = Inr (narrow m1)" by (rule narrow_release [OF m1(1)])
  then show ?thesis
    using q m1(2) by (simp add: ptr_assign_def n0 m' closed_make split: option.split)
qed

lemma narrow_assign_move:
  assumes "ptr_assign_move i j m = Inr m'"
  shows "ptr_assign_move i j (narrow m) = Inr (narrow m')"
proof -
  obtain m1 q where m1: "ptr_release i m = Inr m1" "ptr_at m1 j = Inr q"
    using assms by (auto simp: ptr_assign_move_def ebind_Inr_iff)
  then show ?thesis
    using assms narrow_release [OF m1(1)]
    by (auto simp: ptr_assign_move_def split: option.splits)
qed

lemma narrow_resize:
  assumes "ptr_at m i = Inr p" "closed p' = closed p"
  shows "narrow (obj_set i p' m) = narrow m"
  using assms by (auto simp: narrow_def obj_set_def fun_eq_iff ptr_at_def of_option_def split: option.splits)

lemma narrow_set_length: "set_length i len m = Inr m' \<Longrightarrow> narrow m' = narrow m"
  by (auto simp: set_length_def ebind_Inr_iff simp del: narrow_prims intro: narrow_resize)

lemma narrow_set_offset: "set_offset i off m = Inr m' \<Longrightarrow> narrow m' = narrow m"
  by (auto simp: set_offset_def ebind_Inr_iff simp del: narrow_prims intro: narrow_resize)

subsection \<open>Writes\<close>

text \<open>Writing the contents of a raw in place keeps the counters.\<close>

lemma narrow_write:
  assumes "raw_write r off bs m = Inr m'" "wf_mem (narrow m)"
  shows "wf_mem (narrow m')"
proof -
  obtain w where w: "m_raws m r = Some w" "off + length bs \<le> length (r_data w)"
    "m' = raw_put r off bs m"
    using assms(1) by (auto simp: raw_write_def raw_at_def ebind_Inr_iff raw_put_def of_option_def
        split: option.splits if_splits)
  have "length (r_data w) = r_len w"
    using wf_coreD(5) [OF wf_flD(1) [OF assms(2)], of r w] w(1) by (simp add: wf_raw_def)
  then have "wf_mem (raw_put r off bs (narrow m))"
    using wf_raw_put [OF assms(2), of r w] w(1,2) by simp
  then show ?thesis by (simp add: w(3) raw_put_def)
qed

lemma narrow_invalidate: "wf_mem (narrow m) \<Longrightarrow> wf_mem (narrow (raw_invalidate_crc r m))"
  using wf_invalidate(1) by simp

lemma narrow_append:
  assumes "ptr_append i src m = Inr (e, m')" "wf_mem (narrow m)"
  shows "wf_mem (narrow m')"
proof -
  obtain p r m1 where m1: "ptr_at m i = Inr p" "raw_write r (add64 (p_off p) (p_len p)) src m = Inr m1"
    "m' = obj_set i (p\<lparr>p_len := add64 (p_len p) (length src)\<rparr>) m1"
    using assms(1) by (auto simp: ptr_append_def ebind_Inr_iff Let_def)
  have "ptr_at m1 i = Inr p"
    using m1(1,2) by (auto simp: raw_write_def ebind_Inr_iff ptr_at_def split: if_splits)
  then have "narrow m' = narrow m1" unfolding m1(3) by (rule narrow_resize) simp
  then show ?thesis using narrow_write [OF m1(2) assms(2)] by simp
qed

lemma narrow_copy_in:
  assumes "ptr_copy_in i off src c m = Inr m'" "wf_mem (narrow m)"
  shows "wf_mem (narrow m')"
  using assms narrow_write narrow_invalidate
  by (auto simp: ptr_copy_in_def ebind_Inr_iff Let_def simp del: narrow_prims split: if_splits)

lemma narrow_zero:
  assumes "ptr_zero i c m = Inr m'" "wf_mem (narrow m)"
  shows "wf_mem (narrow m')"
  using assms narrow_write narrow_invalidate
  by (auto simp: ptr_zero_def ebind_Inr_iff simp del: narrow_prims split: if_splits)

lemma narrow_zero_range:
  assumes "ptr_zero_range i off len c m = Inr m'" "wf_mem (narrow m)"
  shows "wf_mem (narrow m')"
  using assms narrow_write narrow_invalidate
  by (auto simp: ptr_zero_range_def ebind_Inr_iff simp del: narrow_prims split: if_splits)

subsection \<open>New objects\<close>

lemma created_narrow: "created al data m m' \<Longrightarrow> created al data (narrow m) (narrow m')"
  by (auto simp: created_def narrow_def)

lemma narrow_narrow [simp]: "narrow (narrow m) = narrow m"
  by (simp add: narrow_def option.map_comp comp_def)

lemma wf_narrow: 
  assumes "wf_mem m"
  shows "wf_mem (narrow m)"
proof -
  have "wf_core (\<lambda>_. 0) (narrow m)"
  proof (rule wf_coreI)
    have "dom (m_ptrs (narrow m)) = dom (m_ptrs m)" by (auto simp: dom_def)
    then show "finite (dom (m_ptrs (narrow m)))" using wf_coreD(1) [OF wf_flD(1) [OF assms]] by simp
    show "i < m_next (narrow m) \<and> wf_ptr (narrow m) p" if p: "m_ptrs (narrow m) i = Some p" for i p
    proof -
      obtain q where "m_ptrs m i = Some q" "p = closed q" using p by auto
      then show ?thesis using wf_coreD(2,3) [OF wf_flD(1) [OF assms], of i q] by (auto simp: wf_ptr_def)
    qed
  qed (use wf_coreD(4-6) [OF wf_flD(1) [OF assms]] in simp)
  then show ?thesis using wf_flD(2,3) [OF assms] by (auto simp: wf_fl_def null_ok_def flying_def closed_raw null_ptr_def)
qed

lemma narrow_of_raw:
  assumes "created al data m m1" "wf_mem (narrow m)" "length data < two64"
    and "m' = snd (obj_new \<lparr>p_raw = Some (m_next m), p_off = 0, p_len = n\<rparr>
               (upd_raw (m_next m) (\<lambda>w. w\<lparr>r_nref := 1\<rparr>) m1))"
  shows "wf_mem (narrow m')"
proof -
  obtain m2 where m2: "ptr_of_raw (m_next m) (narrow m1) = Inr (Suc (m_next m), m2)" "wf_mem m2"
    using created_ptr_of_raw [OF created_narrow [OF assms(1)] assms(2,3)] by auto
  obtain w where "raw_at m1 (m_next m) = Inr w" using m2(1) by (auto simp: ptr_of_raw_def ebind_Inr_iff)
  then have "m2 = snd (obj_new \<lparr>p_raw = Some (m_next m), p_off = 0, p_len = r_len w\<rparr>
      (upd_raw (m_next m) (\<lambda>w. w\<lparr>r_nref := 1\<rparr>) (narrow m1)))"
    using m2(1) by (simp add: ptr_of_raw_def obj_new_Inr)
  then have "narrow m' = narrow m2" unfolding assms(4) by (simp add: closed_raw)
  then show ?thesis using wf_narrow [OF m2(2)] by simp
qed

lemma narrow_of_bytes:
  assumes "ptr_of_bytes buf m = Inr (k, m')" "env_ok (m_env m)" "length buf < 2 ^ 63" "wf_mem (narrow m)"
  shows "wf_mem (narrow m')"
proof -
  obtain m1 where m1: "copy_raw buf m = Inr (m_next m, m1)" "created 8 buf m m1"
    using copy_raw_ok [OF assms(2,3)] by blast
  have "length buf < two64" using assms(3) by (simp add: two64_def)
  then show ?thesis using narrow_of_raw [OF m1(2) assms(4)] assms(1) m1(1)
    by (auto simp: ptr_of_bytes_def obj_new_Inr)
qed

lemma narrow_of_len:
  assumes "ptr_of_len len m = Inr (k, m')" "env_ok (m_env m)" "len < 2 ^ 63" "wf_mem (narrow m)"
  shows "wf_mem (narrow m')"
proof -
  obtain data m1 where m1: "create_raw len m = Inr (m_next m, m1)" "created 8 data m m1" "length data = len"
    using create_raw_ok [OF assms(2,3)] by blast
  have "length data < two64" using assms(3) m1(3) by (simp add: two64_def)
  then show ?thesis using narrow_of_raw [OF m1(2) assms(4)] assms(1) m1(1)
    by (auto simp: ptr_of_len_def obj_new_Inr)
qed

lemma narrow_counts:
  assumes "wf_mem (narrow m)"
  shows "m_raws m r = Some w \<Longrightarrow>
      r_nref w = card (refset m r) \<and> 0 < r_nref w \<and> length (r_data w) = r_len w"
    and "m_ptrs m i = Some p \<Longrightarrow> p_raw p = Some r \<Longrightarrow> m_raws m r \<noteq> None"
proof -
  note c = wf_flD(1) [OF assms]
  show "r_nref w = card (refset m r) \<and> 0 < r_nref w \<and> length (r_data w) = r_len w"
    if "m_raws m r = Some w"
  proof -
    have w: "m_raws (narrow m) r = Some w" using that by simp
    have "0 < r_nref w" using wf_flD(3) [OF assms] w unfolding flying_def by blast
    then show ?thesis using wf_coreD(5,6) [OF c w] by (simp add: wf_raw_def)
  qed
  show "m_raws m r \<noteq> None" if "m_ptrs m i = Some p" "p_raw p = Some r"
    using wf_ptr_raw [OF c, of i "closed p" r] that by auto
qed

end
