(* ===== verification/Ptr_Props.thy ===== *)
theory Ptr_Props
  imports Ptr_Narrow
begin

text \<open>
  The life of \<^verbatim>\<open>ptr\<close> objects as a transition system: any program that constructs, copies,
  moves, assigns, swaps, slices, writes and destroys them is a path of \<open>ptr_step\<close>. Along
  every path the reference counters are exact, no object holds a freed raw, and a raw is
  freed with its last reference.
\<close>

subsection \<open>Steps\<close>

text \<open>
  One rule for each operation that returns. Slicing is restricted to ranges whose end does
  not wrap around, because the guard of the code computes that end in 64 bits; changing
  offset or length is restricted to windows inside the raw, which is what callers keep.
\<close>

inductive ptr_step :: "mem \<Rightarrow> mem \<Rightarrow> bool" where
  step_default: "ptr_default m = (i, m') \<Longrightarrow> ptr_step m m'"
| step_bytes: "length buf < 2 ^ 63 \<Longrightarrow> env_ok (m_env m) \<Longrightarrow>
    ptr_of_bytes buf m = Inr (i, m') \<Longrightarrow> ptr_step m m'"
| step_len: "len < 2 ^ 63 \<Longrightarrow> env_ok (m_env m) \<Longrightarrow>
    ptr_of_len len m = Inr (i, m') \<Longrightarrow> ptr_step m m'"
| step_copy: "ptr_copy i m = Inr (k, m') \<Longrightarrow> ptr_step m m'"
| step_move: "ptr_move i m = Inr (k, m') \<Longrightarrow> ptr_step m m'"
| step_sub: "off + len < two64 \<Longrightarrow> ptr_sub i off len m = Inr (k, m') \<Longrightarrow> ptr_step m m'"
| step_assign: "m_ptrs m i = Some p \<Longrightarrow> ptr_assign i j m = Inr m' \<Longrightarrow> ptr_step m m'"
| step_assign_move: "m_ptrs m j = Some q \<Longrightarrow> ptr_assign_move i j m = Inr m' \<Longrightarrow> ptr_step m m'"
| step_swap: "ptr_swap i j m = Inr m' \<Longrightarrow> ptr_step m m'"
| step_destroy: "ptr_destroy i m = Inr m' \<Longrightarrow> ptr_step m m'"
| step_append: "ptr_append i src m = Inr (e, m') \<Longrightarrow> ptr_step m m'"
| step_copy_in: "off + length src < two64 \<Longrightarrow> ptr_copy_in i off src c m = Inr m' \<Longrightarrow> ptr_step m m'"
| step_set_length: "m_ptrs m i = Some p \<Longrightarrow> p_raw p = Some r \<Longrightarrow> m_raws m r = Some w \<Longrightarrow>
    p_off p + len \<le> r_len w \<Longrightarrow> set_length i len m = Inr m' \<Longrightarrow> ptr_step m m'"
| step_set_offset: "m_ptrs m i = Some p \<Longrightarrow> p_raw p = Some r \<Longrightarrow> m_raws m r = Some w \<Longrightarrow>
    off + p_len p \<le> r_len w \<Longrightarrow> set_offset i off m = Inr m' \<Longrightarrow> ptr_step m m'"

inductive ptr_reach :: "env \<Rightarrow> mem \<Rightarrow> bool" for e where
  reach_init: "ptr_reach e (empty_mem e)"
| reach_step: "ptr_reach e m \<Longrightarrow> ptr_step m m' \<Longrightarrow> ptr_reach e m'"

lemma ptr_at_Inr: "ptr_at m i = Inr p \<longleftrightarrow> m_ptrs m i = Some p"
  by (simp add: ptr_at_def)

lemma needs_object:
  assumes "ebind (ptr_at m i) f = Inr x"
  obtains p where "m_ptrs m i = Some p" "f p = Inr x"
  using assms by (auto simp: ebind_Inr_iff ptr_at_Inr)

lemma ptr_step_wf:
  assumes "ptr_step m m'" "wf_mem m"
  shows "wf_mem m'"
  using assms
proof (induction rule: ptr_step.induct)
  case (step_default m i m')
  then show ?case using new_null(1) by (simp add: ptr_default_def) (metis snd_conv)
next
  case (step_bytes buf m i m')
  then show ?case using ptr_of_bytes_ok [OF step_bytes(4,2,1)] by auto
next
  case (step_len len m i m')
  then show ?case using ptr_of_len_ok [OF step_len(4,2,1)] by auto
next
  case (step_copy i m k m')
  then obtain p where "m_ptrs m i = Some p" unfolding ptr_copy_def by (blast elim: needs_object)
  then show ?case using ptr_copy_spec [OF step_copy(2)] step_copy(1) by fastforce
next
  case (step_move i m k m')
  then obtain p where "m_ptrs m i = Some p" unfolding ptr_move_def by (blast elim: needs_object)
  then show ?case using ptr_move_spec [OF step_move(2)] step_move(1) by fastforce
next
  case (step_sub off len i m k m')
  from step_sub(2) obtain p where p: "m_ptrs m i = Some p" "off + len \<le> p_len p" "p_raw p \<noteq> None"
    unfolding ptr_sub_def using step_sub(1)
    by (auto elim!: needs_object simp: ebind_Inr_iff arith64 ptr_at_Inr)
  then show ?case using ptr_sub_spec [OF step_sub(3) p(1) _ p(2)] step_sub(2) by fastforce
next
  case (step_assign m i p j m')
  then obtain q where "m_ptrs m j = Some q" unfolding ptr_assign_def by (blast elim: needs_object)
  then show ?case using ptr_assign_spec [OF step_assign(3,1)] step_assign(2) by fastforce
next
  case (step_assign_move m j q i m')
  then obtain p where "m_ptrs m i = Some p"
    unfolding ptr_assign_move_def ptr_release_def ebind_assoc by (blast elim: needs_object)
  then show ?case using ptr_assign_move_spec [OF step_assign_move(3) _ step_assign_move(1)]
    step_assign_move(2) by fastforce
next
  case (step_swap i j m m')
  then obtain p q where "m_ptrs m i = Some p" "m_ptrs m j = Some q"
    unfolding ptr_swap_def by (blast elim: needs_object)
  then show ?case using ptr_swap_spec [OF step_swap(2)] step_swap(1) by fastforce
next
  case (step_destroy i m m')
  then obtain p where "m_ptrs m i = Some p"
    unfolding ptr_destroy_def ptr_release_def ebind_assoc by (blast elim: needs_object)
  then show ?case using ptr_destroy_spec [OF step_destroy(2)] step_destroy(1) by fastforce
next
  case (step_append i src m e m')
  from step_append(1) obtain p r n where p: "m_ptrs m i = Some p" "p_raw p = Some r"
    and n: "unused_tail_length m p = Inr n" "length src \<le> n"
    unfolding ptr_append_def by (auto simp: ebind_Inr_iff ptr_at_Inr)
  obtain w where w: "m_raws m r = Some w" "p_off p + p_len p \<le> r_len w"
    using wf_ptr_raw [OF wf_flD(1) [OF step_append(2)] p(1,2)] by auto
  have "length src \<le> r_len w - (p_off p + p_len p)"
    using n unused_tail_length_ok [OF step_append(2) p(1,2) w(1)] by simp
  then have "p_off p + p_len p + length src \<le> r_len w" using w(2) by simp
  then show ?case using ptr_append_ok [OF step_append(2) p(1,2) w(1)] step_append(1) by fastforce
next
  case (step_copy_in off src i c m m')
  from step_copy_in(2) obtain p r where p: "m_ptrs m i = Some p" "p_raw p = Some r"
    "off + length src \<le> p_len p"
    unfolding ptr_copy_in_def using step_copy_in(1)
    by (auto elim!: needs_object simp: ebind_Inr_iff arith64 ptr_at_Inr)
  then show ?case using ptr_copy_in_ok [OF step_copy_in(3) p, of c] step_copy_in(2) by fastforce
next
  case (step_set_length m i p r w len m')
  then show ?case using set_length_ok [OF step_set_length(6,1-4)] by fastforce
next
  case (step_set_offset m i p r w off m')
  then show ?case using set_offset_ok [OF step_set_offset(6,1-4)] by fastforce
qed

lemma ptr_reach_wf: "ptr_reach e m \<Longrightarrow> wf_mem m"
  by (induction rule: ptr_reach.induct) (auto intro: ptr_step_wf)

text \<open>
  The same without the conditions on windows: any slice the guard of the code lets pass, any
  offset or length its assertion lets pass, and writes through whatever window results, as
  long as they stay in the memory of a raw.
\<close>

inductive any_step :: "mem \<Rightarrow> mem \<Rightarrow> bool" where
  any_kept: "ptr_step m m' \<Longrightarrow> any_step m m'"
| any_sub: "ptr_sub i off len m = Inr (k, m') \<Longrightarrow> any_step m m'"
| any_copy_in: "ptr_copy_in i off src c m = Inr m' \<Longrightarrow> any_step m m'"
| any_zero: "ptr_zero i c m = Inr m' \<Longrightarrow> any_step m m'"
| any_zero_range: "ptr_zero_range i off len c m = Inr m' \<Longrightarrow> any_step m m'"
| any_set_length: "set_length i len m = Inr m' \<Longrightarrow> any_step m m'"
| any_set_offset: "set_offset i off m = Inr m' \<Longrightarrow> any_step m m'"

inductive any_reach :: "env \<Rightarrow> mem \<Rightarrow> bool" for e where
  any_init: "any_reach e (empty_mem e)"
| any_next: "any_reach e m \<Longrightarrow> any_step m m' \<Longrightarrow> any_reach e m'"

lemma ptr_step_narrow:
  assumes "ptr_step m m'" "wf_mem (narrow m)"
  shows "wf_mem (narrow m')"
  using assms
proof (induction rule: ptr_step.induct)
  case (step_default m i m')
  have "ptr_default (narrow m) = (i, narrow m')"
    using step_default(1) by (simp add: ptr_default_def obj_new_Inr)
  then show ?case by (rule ptr_step_wf [OF ptr_step.step_default step_default(2)])
next
  case (step_bytes buf m i m')
  then show ?case using narrow_of_bytes by blast
next
  case (step_len len m i m')
  then show ?case using narrow_of_len by blast
next
  case (step_copy i m k m')
  then show ?case using ptr_step_wf [OF ptr_step.step_copy [OF narrow_copy]] by blast
next
  case (step_move i m k m')
  then show ?case using ptr_step_wf [OF ptr_step.step_move [OF narrow_move]] by blast
next
  case (step_sub off len i m k m')
  then show ?case using ptr_step_wf [OF ptr_step.step_copy [OF narrow_sub]] by blast
next
  case (step_assign m i p j m')
  have "m_ptrs (narrow m) i = Some (closed p)" using step_assign(1) by simp
  then show ?case
    using ptr_step_wf [OF ptr_step.step_assign [OF _ narrow_assign [OF step_assign(2)]] step_assign(3)]
    by blast
next
  case (step_assign_move m j q i m')
  have "m_ptrs (narrow m) j = Some (closed q)" using step_assign_move(1) by simp
  then show ?case
    using ptr_step_wf [OF ptr_step.step_assign_move [OF _ narrow_assign_move [OF step_assign_move(2)]]
        step_assign_move(3)]
    by blast
next
  case (step_swap i j m m')
  then show ?case using ptr_step_wf [OF ptr_step.step_swap [OF narrow_swap]] by blast
next
  case (step_destroy i m m')
  then show ?case using ptr_step_wf [OF ptr_step.step_destroy [OF narrow_destroy]] by blast
next
  case (step_append i src m e m')
  then show ?case using narrow_append by blast
next
  case (step_copy_in off src i c m m')
  then show ?case using narrow_copy_in by blast
qed (simp_all only: narrow_set_length narrow_set_offset)

lemma any_step_narrow:
  assumes "any_step m m'" "wf_mem (narrow m)"
  shows "wf_mem (narrow m')"
  using assms
proof (induction rule: any_step.induct)
  case (any_kept m m')
  then show ?case by (rule ptr_step_narrow)
next
  case (any_sub i off len m k m')
  then show ?case using ptr_step_wf [OF ptr_step.step_copy [OF narrow_sub]] by blast
next
  case (any_copy_in i off src c m m')
  then show ?case by (rule narrow_copy_in)
next
  case (any_zero i c m m')
  then show ?case by (rule narrow_zero)
next
  case (any_zero_range i off len c m m')
  then show ?case by (rule narrow_zero_range)
qed (simp_all only: narrow_set_length narrow_set_offset)

lemma any_reach_narrow: "any_reach e m \<Longrightarrow> wf_mem (narrow m)"
  by (induction rule: any_reach.induct) (auto intro: any_step_narrow)

text \<open>A window that the assertion of \<^verbatim>\<open>set_offset\<close> lets out of its raw.\<close>

lemma set_offset_escapes:
  assumes "m_ptrs m i = Some p" "p_raw p = Some r" "m_raws m r = Some w" "0 < p_len p" "p_len p \<le> r_len w"
  shows "\<exists>m' q. set_offset i (r_len w) m = Inr m' \<and> m_ptrs m' i = Some q \<and> p_raw q = Some r \<and>
    m_raws m' r = Some w \<and> r_len w < p_off q + p_len q"
  using assms
  by (auto simp: set_offset_def raw_length_def ptr_raw_def ptr_at_def raw_at_def spec_assert_def)

subsection \<open>The properties\<close>

text \<open>
  C3 (invariant). Whatever program of these operations runs, with whatever offsets and lengths
  the code's own guards accept, every raw in the store has as many references as its counter
  says and at least one, and every object that holds a raw holds one that is still there.
  Windows are a different matter, because the guards are too weak for them: the check of a
  slice wraps around at 64 bits, and \<^verbatim>\<open>set_offset\<close> and \<^verbatim>\<open>set_length\<close> compare with the length
  of the raw alone, so a program can reach a window that leaves its raw (the last part shows
  one). When the callers slice without wrapping around and set offset and length inside the
  raw, which is what \<open>ptr_reach\<close> says, every other operation keeps every window inside.
  Operations that return are followed; allocation succeeds with fewer than \<open>2 ^ 63\<close> bytes.
\<close>

theorem ptr_refcounts_exact:
  assumes "any_reach e m"
  shows "(\<forall>r w. m_raws m r = Some w \<longrightarrow>
      r_nref w = card (refset m r) \<and> 0 < r_nref w \<and> length (r_data w) = r_len w)
    \<and> (\<forall>i p r. m_ptrs m i = Some p \<longrightarrow> p_raw p = Some r \<longrightarrow> m_raws m r \<noteq> None)
    \<and> (ptr_reach e m \<longrightarrow> (\<forall>i p r. m_ptrs m i = Some p \<longrightarrow> p_raw p = Some r \<longrightarrow>
      (\<exists>w. m_raws m r = Some w \<and> p_off p + p_len p \<le> r_len w)))
    \<and> (\<forall>i p r w. m_ptrs m i = Some p \<longrightarrow> p_raw p = Some r \<longrightarrow> m_raws m r = Some w \<longrightarrow>
      0 < p_len p \<longrightarrow> p_len p \<le> r_len w \<longrightarrow>
      (\<exists>m' q. any_reach e m' \<and> m_ptrs m' i = Some q \<and> p_raw q = Some r \<and> m_raws m' r = Some w \<and>
        r_len w < p_off q + p_len q))"
proof -
  note n = any_reach_narrow [OF assms]
  have "\<exists>w. m_raws m r = Some w \<and> p_off p + p_len p \<le> r_len w"
    if "ptr_reach e m" "m_ptrs m i = Some p" "p_raw p = Some r" for i p r
    using wf_ptr_raw [OF wf_flD(1) [OF ptr_reach_wf [OF that(1)]] that(2,3)] by blast
  moreover have "\<exists>m' q. any_reach e m' \<and> m_ptrs m' i = Some q \<and> p_raw q = Some r \<and>
      m_raws m' r = Some w \<and> r_len w < p_off q + p_len q"
    if "m_ptrs m i = Some p" "p_raw p = Some r" "m_raws m r = Some w" "0 < p_len p" "p_len p \<le> r_len w"
    for i p r w
    using set_offset_escapes [OF that] any_next [OF assms any_set_offset] by metis
  ultimately show ?thesis
    using narrow_counts [OF n] by (intro conjI allI impI) metis+
qed

text \<open>A program with a copy, a slice of it and a write through the slice.\<close>

lemma demo_alloc [simp]:
  "alloc_addr (m\<lparr>m_env := demo_env\<rparr>) al n = (if al = 0 then Inl Bad_alloc else Inr (al * Suc (m_next m)))"
  by (simp add: alloc_addr_def demo_env_def)

lemma reach_one: "\<exists>m p. ptr_reach demo_env m \<and> m_ptrs m = [Suc 0 \<mapsto> p] \<and> p_raw p = Some 0 \<and>
    p_off p = 0 \<and> p_len p = 3 \<and> node_bytes m (Suc 0) = [1, 2, 3]"
proof -
  obtain m where m: "ptr_of_bytes [1, 2, 3] (empty_mem demo_env) = Inr (1, m)"
    "fresh_ptr 8 [1, 2, 3] (empty_mem demo_env) m"
    using ptr_of_bytes_ok [OF wf_empty_mem, of demo_env "[1, 2, 3]"] env_ok_demo
    by (auto simp: empty_mem_def)
  have "ptr_step (empty_mem demo_env) m"
    by (rule step_bytes [OF _ _ m(1)]) (simp_all add: env_ok_demo)
  then have "ptr_reach demo_env m" by (rule reach_step [OF reach_init])
  then show ?thesis using m(2) fresh_ptr_bytes [OF m(2)]
    by (intro exI [of _ m]) (auto simp: fresh_ptr_def empty_mem_def)
qed

lemma ptr_reach_any: "ptr_reach e m \<Longrightarrow> any_reach e m"
  by (induction rule: ptr_reach.induct) (auto intro: any_reach.intros any_step.intros)

theorem ptr_refcounts_exact_witness:
  "\<exists>m m' p q w w'. m_ptrs m = [Suc 0 \<mapsto> p] \<and> m_raws m 0 = Some w \<and> r_nref w = card (refset m 0) \<and>
     p_off p + p_len p \<le> r_len w \<and>
     any_reach demo_env m' \<and> m_ptrs m' (Suc 0) = Some q \<and> m_raws m' 0 = Some w' \<and>
     r_len w' < p_off q + p_len q"
proof -
  obtain m p where m: "ptr_reach demo_env m" "m_ptrs m = [Suc 0 \<mapsto> p]" "p_raw p = Some 0" "p_len p = 3"
    using reach_one by blast
  have p: "m_ptrs m (Suc 0) = Some p" using m(2) by simp
  note c = ptr_refcounts_exact [OF ptr_reach_any [OF m(1)]]
  obtain w where w: "m_raws m 0 = Some w" "p_off p + p_len p \<le> r_len w" using c m(1,3) p by blast
  then have "r_nref w = card (refset m 0)" using c by blast
  moreover have "0 < p_len p" "p_len p \<le> r_len w" using m(4) w(2) by simp_all
  then obtain m' q where "any_reach demo_env m'" "m_ptrs m' (Suc 0) = Some q" "m_raws m' 0 = Some w"
    "r_len w < p_off q + p_len q"
    using c p m(3) w(1) by blast
  ultimately show ?thesis using m(2) w by blast
qed

text \<open>
  No leak: a program that has destroyed all its objects has freed every raw.
\<close>

lemma ptr_no_leak:
  assumes "ptr_reach e m" "m_ptrs m = Map.empty"
  shows "m_raws m = Map.empty"
proof -
  have wf: "wf_mem m" by (rule ptr_reach_wf [OF assms(1)])
  have "m_raws m r = None" for r
  proof (cases "m_raws m r")
    case (Some w)
    have "refset m r = {}" using assms(2) by (simp add: refset_def)
    then have "r_nref w = 0" using wf_coreD(6) [OF wf_flD(1) [OF wf] Some] by simp
    then have "r \<in> {}" using wf_flD(3) [OF wf] Some unfolding flying_def by blast
    then show ?thesis by simp
  qed
  then show ?thesis by auto
qed

lemma ptr_no_leak_witness:
  "\<exists>m m'. m_ptrs m (Suc 0) \<noteq> None \<and> ptr_destroy (Suc 0) m = Inr m' \<and> m_raws m' = Map.empty"
proof -
  obtain m p where m: "ptr_reach demo_env m" "m_ptrs m = [Suc 0 \<mapsto> p]" using reach_one by blast
  obtain m' where m': "ptr_destroy (Suc 0) m = Inr m'" "m_ptrs m' = (m_ptrs m)(Suc 0 := None)"
    using ptr_destroy_spec [OF ptr_reach_wf [OF m(1)], of "Suc 0" p] m(2) by auto
  have "ptr_reach demo_env m'" by (rule reach_step [OF m(1) step_destroy [OF m'(1)]])
  then have "m_raws m' = Map.empty" by (rule ptr_no_leak) (use m'(2) m(2) in auto)
  moreover have "m_ptrs m (Suc 0) \<noteq> None" using m(2) by simp
  ultimately show ?thesis using m'(1) by blast
qed

text \<open>
  Copy assignment of any two objects, the same one included, succeeds:
  the target then shows the source's bytes and no other object changes.
\<close>

lemma ptr_assign_effect:
  assumes "ptr_reach e m" "m_ptrs m i = Some p" "m_ptrs m j = Some q"
  shows "\<exists>m'. ptr_assign i j m = Inr m' \<and> ptr_reach e m' \<and>
    m_ptrs m' = (m_ptrs m)(i \<mapsto> q) \<and> node_bytes m' i = node_bytes m j \<and>
    keeps (dom (m_ptrs m) - {i}) m m'"
proof -
  have wf: "wf_mem m" by (rule ptr_reach_wf [OF assms(1)])
  obtain m' where m': "ptr_assign i j m = Inr m'" "wf_mem m'" "quiet m m'"
    "m_ptrs m' = (m_ptrs m)(i \<mapsto> q)"
    using ptr_assign_spec [OF wf assms(2,3)] by blast
  have "wf_ptr m' q" by (rule wf_coreD(3) [OF wf_flD(1) [OF m'(2)], of i]) (simp add: m'(4))
  then have "node_bytes m' i = node_bytes m j"
    using ptr_bytes_quiet [OF m'(3) wf_flD(1) [OF wf] assms(3)] assms(3) m'(4)
    by (simp add: node_bytes_def)
  moreover have "keeps (dom (m_ptrs m) - {i}) m m'"
    by (rule keeps_wf_fl [OF m'(3) wf m'(2)]) (simp add: m'(4))
  moreover have "ptr_reach e m'" by (rule reach_step [OF assms(1) step_assign [OF assms(2) m'(1)]])
  ultimately show ?thesis using m'(1,4) by blast
qed

lemma ptr_assign_effect_witness:
  "\<exists>m m'. m_ptrs m (Suc 0) \<noteq> None \<and> ptr_assign (Suc 0) (Suc 0) m = Inr m' \<and>
    node_bytes m' (Suc 0) = [1, 2, 3]"
proof -
  obtain m p where m: "ptr_reach demo_env m" "m_ptrs m = [Suc 0 \<mapsto> p]"
    "node_bytes m (Suc 0) = [1, 2, 3]"
    using reach_one by blast
  have "m_ptrs m (Suc 0) = Some p" using m(2) by simp
  then show ?thesis using ptr_assign_effect [OF m(1), of "Suc 0" p "Suc 0" p] m(3) by fastforce
qed

text \<open>
  \<^verbatim>\<open>copy_in\<close> followed by \<^verbatim>\<open>copy_out\<close> of the same range gives the bytes back;
  an object whose window does not meet the range written still shows what it showed.
\<close>

lemma ptr_copy_in_out:
  assumes "ptr_reach e m" "m_ptrs m i = Some p" "p_raw p = Some r" "off + length src \<le> p_len p"
  shows "\<exists>m'. ptr_copy_in i off src c m = Inr m' \<and>
    ptr_copy_out m' i off (length src) = Inr src \<and>
    keeps {j. \<forall>q. m_ptrs m j = Some q \<longrightarrow> clear_of r (p_off p + off) (length src) q} m m'"
proof -
  have wf: "wf_mem m" by (rule ptr_reach_wf [OF assms(1)])
  obtain m' where m': "ptr_copy_in i off src c m = Inr m'" "wf_mem m'" "m_ptrs m' = m_ptrs m"
    "node_bytes m' i = write_at off src (node_bytes m i)"
    and keep: "\<And>I. \<forall>j\<in>I. \<forall>q. m_ptrs m j = Some q \<longrightarrow> clear_of r (p_off p + off) (length src) q \<Longrightarrow>
      keeps I m m'"
    using ptr_copy_in_ok [OF wf assms(2-4), of c] by blast
  have "m_ptrs m' i = Some p" using m'(3) assms(2) by simp
  then have "ptr_copy_out m' i off (length src) = Inr (seg off (length src) (node_bytes m' i))"
    by (rule ptr_copy_out_ok [OF m'(2) _ assms(3,4)])
  also have "seg off (length src) (node_bytes m' i) = src"
    using m'(4) length_node_bytes [OF wf assms(2)] assms(4) by (simp add: seg_write_at_same)
  finally have "ptr_copy_out m' i off (length src) = Inr src" .
  moreover have "keeps {j. \<forall>q. m_ptrs m j = Some q \<longrightarrow> clear_of r (p_off p + off) (length src) q} m m'"
    by (rule keep) simp
  ultimately show ?thesis using m'(1) by blast
qed

lemma ptr_copy_in_out_witness:
  "\<exists>m m'. ptr_copy_in (Suc 0) 1 [9] True m = Inr m' \<and> ptr_copy_out m' (Suc 0) 1 1 = Inr [9]"
proof -
  obtain m p where m: "ptr_reach demo_env m" "m_ptrs m = [Suc 0 \<mapsto> p]" "p_raw p = Some 0" "p_len p = 3"
    using reach_one by blast
  have p: "m_ptrs m (Suc 0) = Some p" and fit: "1 + length [9::u8] \<le> p_len p"
    using m(2,4) by simp_all
  obtain m' where "ptr_copy_in (Suc 0) 1 [9] True m = Inr m'"
    "ptr_copy_out m' (Suc 0) 1 (length [9::u8]) = Inr [9]"
    using ptr_copy_in_out [OF m(1) p m(3) fit, of True] by blast
  then show ?thesis by (metis length_Cons list.size(3) One_nat_def)
qed

end
