(* ===== verification/Armor.thy ===== *)
theory Armor
  imports Prelude "HOL-Library.Char_ord"
begin

text \<open>
  The base64 armor (\<^verbatim>\<open>common/encode/armor.c\<close>). The destination is a block of \<open>cap\<close> bytes; what
  has been written of it is the output next to the value returned. Running out of it returns
  \<^verbatim>\<open>-ERANGE\<close>, which \<^verbatim>\<open>spec_armor\<close> turns into a large \<^verbatim>\<open>uint64_t\<close>.
\<close>

subsection \<open>Characters\<close>

definition pem_key :: bytes where
  "pem_key = map of_char ''ABCDEFGHIJKLMNOPQRSTUVWXYZabcdefghijklmnopqrstuvwxyz0123456789+/''"

definition encode_bits :: "u8 \<Rightarrow> u8" where
  "encode_bits c = pem_key ! unat c"

definition einval :: int where
  "einval = -22"

definition erange :: int where
  "erange = -34"

definition chr :: "char \<Rightarrow> u8" where
  "chr c = of_char c"

definition decode_bits :: "u8 \<Rightarrow> int" where
  "decode_bits c =
    (if c \<ge> chr CHR ''A'' \<and> c \<le> chr CHR ''Z'' then uint c - uint (chr CHR ''A'')
     else if c \<ge> chr CHR ''a'' \<and> c \<le> chr CHR ''z'' then uint c - uint (chr CHR ''a'') + 26
     else if c \<ge> chr CHR ''0'' \<and> c \<le> chr CHR ''9'' then uint c - uint (chr CHR ''0'') + 52
     else if c = chr CHR ''+'' \<or> c = chr CHR ''-'' then 62
     else if c = chr CHR ''/'' \<or> c = chr CHR ''_'' then 63
     else if c = chr CHR ''='' then 0
     else einval)"

text \<open>\<^verbatim>\<open>SET_DST\<close> for one character after the other; \<open>False\<close> when there was no room for one.\<close>

definition set_str_val :: "nat \<Rightarrow> u8 \<Rightarrow> bytes \<Rightarrow> bytes option" where
  "set_str_val cap c out = (if length out < cap then Some (out @ [c]) else None)"

fun set_dst :: "nat \<Rightarrow> bytes \<Rightarrow> bytes \<Rightarrow> bytes \<times> bool" where
  "set_dst cap [] out = (out, True)"
| "set_dst cap (c # cs) out =
     (case set_str_val cap c out of None \<Rightarrow> (out, False) | Some out \<Rightarrow> set_dst cap cs out)"

subsection \<open>Encoding\<close>

definition armor_3 :: "u8 \<Rightarrow> u8 \<Rightarrow> u8 \<Rightarrow> bytes" where
  "armor_3 a b c =
    [encode_bits (drop_bit 2 a),
     encode_bits (push_bit 4 (a AND 3) OR drop_bit 4 b),
     encode_bits (push_bit 2 (b AND 15) OR drop_bit 6 c),
     encode_bits (c AND 63)]"

definition armor_2 :: "u8 \<Rightarrow> u8 \<Rightarrow> bytes" where
  "armor_2 a b =
    [encode_bits (drop_bit 2 a),
     encode_bits (push_bit 4 (a AND 3) OR drop_bit 4 b),
     encode_bits (push_bit 2 (b AND 15)), chr CHR ''='']"

definition armor_1 :: "u8 \<Rightarrow> bytes" where
  "armor_1 a =
    [encode_bits (drop_bit 2 a), encode_bits (push_bit 4 (a AND 3)), chr CHR ''='', chr CHR ''='']"

fun armor_take :: "bytes \<Rightarrow> bytes \<times> bytes" where
  "armor_take [] = ([], [])"
| "armor_take [a] = (armor_1 a, [])"
| "armor_take [a, b] = (armor_2 a b, [])"
| "armor_take (a # b # c # src) = (armor_3 a b c, src)"

lemma armor_take_shorter: "src \<noteq> [] \<Longrightarrow> length (snd (armor_take src)) < length src"
  by (induction src rule: armor_take.induct) auto

text \<open>A failed \<^verbatim>\<open>SET_DST\<close> returns its negative error as a \<^verbatim>\<open>uint64_t\<close>.\<close>

definition erange64 :: nat where
  "erange64 = nat (erange mod 2 ^ 64)"

function armor_loop ::
    "nat \<Rightarrow> int \<Rightarrow> bytes \<Rightarrow> bytes \<Rightarrow> nat \<Rightarrow> nat \<Rightarrow> nat \<times> bytes" where
  "armor_loop cap line_width src out out_len track_line =
    (if src = [] then (out_len, out)
     else
       case armor_take src of (cs, src) \<Rightarrow>
       case set_dst cap cs out of (out, ok) \<Rightarrow>
         if \<not> ok then (erange64, out)
         else
           let out_len = add64 out_len 4; track_line = add64 track_line 4 in
           if line_width \<noteq> 0 \<and> int track_line = line_width mod 2 ^ 64
           then case set_dst cap [10] out of (out, ok) \<Rightarrow>
                  if \<not> ok then (erange64, out)
                  else armor_loop cap line_width src out (add64 out_len 1) 0
           else armor_loop cap line_width src out out_len track_line)"
  by pat_completeness auto
termination
  by (relation "measure (\<lambda>(_, _, src, _). length src)")
    (auto dest!: armor_take_shorter simp: prod_eq_iff dest: sym)

declare armor_loop.simps [simp del]

definition spec_armor_line_break :: "nat \<Rightarrow> bytes \<Rightarrow> int \<Rightarrow> nat \<times> bytes" where
  "spec_armor_line_break cap src line_width = armor_loop cap line_width src [] 0 0"

definition spec_armor :: "nat \<Rightarrow> bytes \<Rightarrow> nat \<times> bytes" where
  "spec_armor cap src = spec_armor_line_break cap src 0"

subsection \<open>Decoding\<close>

text \<open>The three bytes of a group, from the four 6-bit values as \<^verbatim>\<open>int\<close>.\<close>

definition unarmor_byte1 :: "int \<Rightarrow> int \<Rightarrow> u8" where
  "unarmor_byte1 a b = ucast (push_bit 2 (of_int a :: u32) OR drop_bit 4 (of_int b))"

definition unarmor_byte2 :: "int \<Rightarrow> int \<Rightarrow> u8" where
  "unarmor_byte2 b c = ucast (push_bit 4 ((of_int b :: u32) AND 15) OR drop_bit 2 (of_int c))"

definition unarmor_byte3 :: "int \<Rightarrow> int \<Rightarrow> u8" where
  "unarmor_byte3 c d = ucast (push_bit 6 ((of_int c :: u32) AND 3) OR of_int d)"

function unarmor_loop :: "nat \<Rightarrow> bytes \<Rightarrow> bytes \<Rightarrow> int \<Rightarrow> int \<times> bytes" where
  "unarmor_loop cap src out out_len =
    (case src of
       [] \<Rightarrow> (out_len, out)
     | s0 # src1 \<Rightarrow>
       if s0 = 10 then unarmor_loop cap src1 out out_len
       else case src1 of
         s1 # s2 # s3 # src4 \<Rightarrow>
         let a = decode_bits s0; b = decode_bits s1; c = decode_bits s2; d = decode_bits s3 in
         if a < 0 \<or> b < 0 \<or> c < 0 \<or> d < 0 then (einval, out)
         else case set_dst cap [unarmor_byte1 a b] out of (out, ok) \<Rightarrow>
         if \<not> ok then (erange, out)
         else if s2 = chr CHR ''='' then (out_len + 1, out)
         else case set_dst cap [unarmor_byte2 b c] out of (out, ok) \<Rightarrow>
         if \<not> ok then (erange, out)
         else if s3 = chr CHR ''='' then (out_len + 2, out)
         else case set_dst cap [unarmor_byte3 c d] out of (out, ok) \<Rightarrow>
         if \<not> ok then (erange, out)
         else unarmor_loop cap src4 out (out_len + 3)
       | _ \<Rightarrow> (einval, out))"
  by pat_completeness auto
termination
  by (relation "measure (\<lambda>(_, src, _). length src)") auto

declare unarmor_loop.simps [simp del]

definition spec_unarmor :: "nat \<Rightarrow> bytes \<Rightarrow> int \<times> bytes" where
  "spec_unarmor cap src = unarmor_loop cap src [] 0"

subsection \<open>The alphabet\<close>

lemma alphabet: "map decode_bits pem_key = map int [0..<64]"
  by (simp add: pem_key_def decode_bits_def chr_def einval_def upt_rec)

lemma pem_key_facts: "length pem_key = 64" "chr CHR ''='' \<notin> set pem_key" "10 \<notin> set pem_key"
  by (simp_all add: pem_key_def chr_def)

lemma decode_encode:
  assumes "unat c < 64"
  shows "decode_bits (encode_bits c) = uint c" "encode_bits c \<noteq> chr CHR ''=''" "encode_bits c \<noteq> 10"
proof -
  have "map decode_bits pem_key ! unat c = map int [0..<64] ! unat c" by (simp only: alphabet)
  then show "decode_bits (encode_bits c) = uint c"
    using assms by (simp add: encode_bits_def pem_key_facts)
  have "encode_bits c \<in> set pem_key" using assms by (simp add: encode_bits_def pem_key_facts)
  then show "encode_bits c \<noteq> chr CHR ''=''" "encode_bits c \<noteq> 10"
    using pem_key_facts by metis+
qed

lemma decode_pad: "decode_bits (chr CHR ''='') = 0" "chr CHR ''='' \<noteq> 10"
  by (simp_all add: decode_bits_def chr_def)

subsection \<open>The bits of a group\<close>

text \<open>A byte is compared bit by bit, below a position and from there on.\<close>

lemma byte_eqI:
  fixes x y :: u8
  assumes "\<And>n. n < k \<Longrightarrow> n < 8 \<Longrightarrow> bit x n = bit y n"
    "\<And>n. k \<le> n \<Longrightarrow> n < 8 \<Longrightarrow> bit x n = bit y n"
  shows "x = y"
proof (rule bit_word_eqI)
  fix n assume "n < LENGTH(8)"
  then show "bit x n = bit y n" using assms(1) [of n] assms(2) [of n] by (cases "n < k") auto
qed

lemma low_bits: "x AND 3 = take_bit 2 x" "x AND 15 = take_bit 4 x" "x AND 63 = take_bit 6 x"
  for x :: "'a::len word"
  by (simp_all add: take_bit_eq_mask mask_eq_exp_minus_1)

lemmas group_bits =
  bit_take_bit_iff bit_drop_bit_eq bit_push_bit_iff bit_or_iff o_def bit_ucast_iff possible_bit_word

lemma below_64:
  fixes x :: u8
  assumes "take_bit 6 x = x"
  shows "unat x < 64"
proof -
  have "unat x = take_bit 6 (unat x)" using assms by (metis unsigned_take_bit_eq)
  then show ?thesis using take_bit_nat_less_exp [of 6 "unat x"] by simp
qed

lemma six_bits:
  fixes a b :: u8
  shows "unat (drop_bit 2 a) < 64" "unat (push_bit 4 (a AND 3) OR drop_bit 4 b) < 64"
    "unat (push_bit 2 (a AND 15) OR drop_bit 6 b) < 64" "unat (a AND 63) < 64"
    "unat (push_bit 4 (a AND 3)) < 64" "unat (push_bit 2 (a AND 15)) < 64"
  by (rule below_64, rule byte_eqI [where k = 6]; simp only: group_bits low_bits; force dest: bit_imp_le_length)+

lemma int_byte: "of_int (uint x) = (ucast x :: u32)" for x :: u8
  by (simp add: of_int_uint)

lemmas unarmor_byte_defs = unarmor_byte1_def unarmor_byte2_def unarmor_byte3_def

lemma unarmor_bytes:
  fixes a b c :: u8
  shows "unarmor_byte1 (uint (drop_bit 2 a)) (uint (push_bit 4 (a AND 3) OR drop_bit 4 b)) = a"
    "unarmor_byte1 (uint (drop_bit 2 a)) (uint (push_bit 4 (a AND 3))) = a"
    "unarmor_byte2 (uint (push_bit 4 (a AND 3) OR drop_bit 4 b)) (uint (push_bit 2 (b AND 15) OR drop_bit 6 c)) = b"
    "unarmor_byte2 (uint (push_bit 4 (a AND 3) OR drop_bit 4 b)) (uint (push_bit 2 (b AND 15))) = b"
    "unarmor_byte3 (uint (push_bit 2 (b AND 15) OR drop_bit 6 c)) (uint (c AND 63)) = c"
  by (rule byte_eqI [where k = 2];
      simp only: group_bits unarmor_byte_defs int_byte low_bits;
      auto dest: bit_imp_le_length simp del: add_2_eq_Suc)+

subsection \<open>The reference\<close>

text \<open>
  The groups of four characters, and their concatenation with a newline after every \<open>n\<close>-th of them
  (none when \<open>n = 0\<close>), of which \<open>k\<close> are already on the line.
\<close>

fun groups :: "bytes \<Rightarrow> bytes list" where
  "groups [] = []"
| "groups [a] = [armor_1 a]"
| "groups [a, b] = [armor_2 a b]"
| "groups (a # b # c # src) = armor_3 a b c # groups src"

fun broken :: "nat \<Rightarrow> nat \<Rightarrow> bytes list \<Rightarrow> bytes" where
  "broken n k [] = []"
| "broken n k (g # gs) = g @ (if Suc k = n then 10 # broken n 0 gs else broken n (Suc k) gs)"

definition groups_per_line :: "int \<Rightarrow> nat" where
  "groups_per_line w = (if 0 < w \<and> 4 dvd w then nat w div 4 else 0)"

definition base64 :: "int \<Rightarrow> bytes \<Rightarrow> bytes" where
  "base64 w src = broken (groups_per_line w) 0 (groups src)"

lemma set_dst_result:
  assumes "length out \<le> cap"
  shows "set_dst cap cs out = (take cap (out @ cs), length (out @ cs) \<le> cap)"
  using assms by (induction cs arbitrary: out) (auto simp: set_str_val_def take_Cons')

lemma length_groups: "length (groups src) = (length src + 2) div 3"
  by (induction src rule: groups.induct) auto

lemma groups_of_4: "g \<in> set (groups src) \<Longrightarrow> length g = 4"
  by (induction src rule: groups.induct) (auto simp: armor_1_def armor_2_def armor_3_def)

lemma groups_step:
  assumes "src \<noteq> []"
  shows "groups src = fst (armor_take src) # groups (snd (armor_take src))"
  using assms by (induction src rule: groups.induct) auto

subsection \<open>What the encoder writes\<close>

lemma line_is_full:
  assumes "-(2 ^ 31) \<le> w" "w < 2 ^ 31" "k < 2 ^ 60"
  shows "w \<noteq> 0 \<and> int (4 * Suc k) = w mod 2 ^ 64 \<longleftrightarrow> Suc k = groups_per_line w"
proof (cases "0 \<le> w")
  case True
  then have "w mod 2 ^ 64 = w" using assms by (intro mod_pos_pos_trivial) auto
  moreover obtain v where "w = int v" using True nonneg_int_cases by blast
  then have "w \<noteq> 0 \<and> int (4 * Suc k) = w \<longleftrightarrow> 0 < w \<and> 4 dvd w \<and> Suc k = nat w div 4" by presburger
  ultimately show ?thesis by (auto simp: groups_per_line_def)
next
  case False
  have "w mod 2 ^ 64 = (w + 2 ^ 64) mod 2 ^ 64" by simp
  also have "\<dots> = w + 2 ^ 64" using assms False by (intro mod_pos_pos_trivial) auto
  finally show ?thesis using assms False by (auto simp: groups_per_line_def)
qed

definition encoded :: "nat \<Rightarrow> bytes \<Rightarrow> nat \<times> bytes" where
  "encoded cap e = (if length e \<le> cap then (length e, e) else (erange64, take cap e))"

lemma encoded_cut: "length (e1 @ e2) > cap \<Longrightarrow> encoded cap (e1 @ e2 @ e3) = (erange64, take cap (e1 @ e2))"
  by (simp add: encoded_def)

lemma armor_loop_step:
  assumes "src \<noteq> []" "armor_take src = (g, rest)" "length out \<le> cap"
  shows "armor_loop cap w src out out_len track =
    (if cap < length (out @ g) then (erange64, take cap (out @ g))
     else if w \<noteq> 0 \<and> int (add64 track 4) = w mod 2 ^ 64
     then if cap < length (out @ g @ [10]) then (erange64, take cap (out @ g @ [10]))
          else armor_loop cap w rest (out @ g @ [10]) (add64 (add64 out_len 4) 1) 0
     else armor_loop cap w rest (out @ g) (add64 out_len 4) (add64 track 4))"
  using assms set_dst_result [of out cap g] set_dst_result [of "out @ g" cap "[10]"]
  by (subst armor_loop.simps) (simp del: set_dst.simps)

lemma armor_loop_result:
  assumes "-(2 ^ 31) \<le> w" "w < 2 ^ 31" "length out \<le> cap" "track = 4 * k"
    "length out + 5 * length (groups src) < two64" "k + length (groups src) \<le> 2 ^ 60"
  shows "armor_loop cap w src out (length out) track =
    encoded cap (out @ broken (groups_per_line w) k (groups src))"
  using assms(3-)
proof (induction "length (groups src)" arbitrary: src out track k)
  case 0
  then have "src = []" by (cases src rule: groups.cases) auto
  then show ?case using 0 by (simp add: armor_loop.simps encoded_def)
next
  case (Suc m)
  then have ne: "src \<noteq> []" by auto
  obtain g rest where gr: "armor_take src = (g, rest)" by (cases "armor_take src")
  have gs: "groups src = g # groups rest" using groups_step [OF ne] gr by simp
  have g4: "length g = 4" using groups_of_4 [of g src] gs by simp
  have m: "m = length (groups rest)" using Suc.hyps(2) gs by simp
  have sums: "add64 (length out) 4 = length (out @ g)" "add64 track 4 = 4 * Suc k"
    "add64 (length (out @ g)) 1 = length (out @ g @ [10])"
    using Suc.prems gs g4 by (auto simp: arith64 two64_def)
  have full: "w \<noteq> 0 \<and> int (4 * Suc k) = w mod 2 ^ 64 \<longleftrightarrow> Suc k = groups_per_line w"
    by (rule line_is_full) (use assms Suc.prems gs in auto)
  note step = armor_loop_step [OF ne gr Suc.prems(1), of w "length out" track, unfolded sums full]
  consider "cap < length (out @ g)"
    | "length (out @ g) \<le> cap" "Suc k = groups_per_line w" "cap < length (out @ g @ [10])"
    | "length (out @ g) \<le> cap" "Suc k = groups_per_line w" "length (out @ g @ [10]) \<le> cap"
    | "length (out @ g) \<le> cap" "Suc k \<noteq> groups_per_line w"
    by linarith
  then show ?case
  proof cases
    case 1
    then show ?thesis using encoded_cut [of cap out g] by (simp add: step gs)
  next
    case 2
    then show ?thesis using encoded_cut [of cap out "g @ [10]"] by (simp add: step gs)
  next
    case 3
    then have "armor_loop cap w rest (out @ g @ [10]) (length (out @ g @ [10])) 0 =
        encoded cap ((out @ g @ [10]) @ broken (groups_per_line w) 0 (groups rest))"
      by (intro Suc.hyps(1) m) (use Suc.prems gs g4 in auto)
    then show ?thesis using 3 by (simp add: step gs)
  next
    case 4
    then have "armor_loop cap w rest (out @ g) (length (out @ g)) (4 * Suc k) =
        encoded cap ((out @ g) @ broken (groups_per_line w) (Suc k) (groups rest))"
      by (intro Suc.hyps(1) m) (use Suc.prems gs g4 in auto)
    then show ?thesis using 4 by (simp add: step gs)
  qed
qed

lemma armor_encodes:
  assumes "-(2 ^ 31) \<le> w" "w < 2 ^ 31" "length src < 2 ^ 60"
  shows "spec_armor_line_break cap src w = encoded cap (base64 w src)"
proof -
  have "length (groups src) \<le> length src" by (simp add: length_groups)
  then have "armor_loop cap w src [] (length ([] :: bytes)) 0 =
      encoded cap ([] @ broken (groups_per_line w) 0 (groups src))"
    by (intro armor_loop_result) (use assms in \<open>auto simp: two64_def\<close>)
  then show ?thesis by (simp add: spec_armor_line_break_def base64_def)
qed

subsection \<open>What the decoder reads\<close>

lemma unarmor_newline [simp]: "unarmor_loop cap (10 # src) out out_len = unarmor_loop cap src out out_len"
  by (subst unarmor_loop.simps) simp

lemma unarmor_end [simp]: "unarmor_loop cap [] out out_len = (out_len, out)"
  by (subst unarmor_loop.simps) simp

lemma unarmor_4:
  assumes "length out \<le> cap" "unat p < 64" "unat q < 64" "unat r < 64" "unat s < 64"
    "unarmor_byte1 (uint p) (uint q) = a" "unarmor_byte2 (uint q) (uint r) = b"
    "unarmor_byte3 (uint r) (uint s) = c"
  shows "unarmor_loop cap (encode_bits p # encode_bits q # encode_bits r # encode_bits s # src) out out_len =
    (if length (out @ [a, b, c]) \<le> cap then unarmor_loop cap src (out @ [a, b, c]) (out_len + 3)
     else (erange, take cap (out @ [a, b, c])))"
  using assms
  by (subst unarmor_loop.simps) (auto simp: decode_encode set_dst_result take_Cons' simp del: set_dst.simps)

lemma unarmor_3:
  assumes "length out \<le> cap" "unat p < 64" "unat q < 64" "unat r < 64"
    "unarmor_byte1 (uint p) (uint q) = a" "unarmor_byte2 (uint q) (uint r) = b"
  shows "unarmor_loop cap (encode_bits p # encode_bits q # encode_bits r # chr CHR ''='' # src) out out_len =
    (if length (out @ [a, b]) \<le> cap then (out_len + 2, out @ [a, b])
     else (erange, take cap (out @ [a, b])))"
  using assms
  by (subst unarmor_loop.simps)
    (auto simp: decode_encode decode_pad set_dst_result take_Cons' simp del: set_dst.simps)

lemma unarmor_2:
  assumes "length out \<le> cap" "unat p < 64" "unat q < 64" "unarmor_byte1 (uint p) (uint q) = a"
  shows "unarmor_loop cap (encode_bits p # encode_bits q # chr CHR ''='' # chr CHR ''='' # src) out out_len =
    (if length (out @ [a]) \<le> cap then (out_len + 1, out @ [a]) else (erange, take cap (out @ [a])))"
  using assms
  by (subst unarmor_loop.simps)
    (auto simp: decode_encode decode_pad set_dst_result take_Cons' simp del: set_dst.simps)

lemma unarmor_group:
  assumes "length out \<le> cap"
  shows "unarmor_loop cap (armor_3 a b c @ src) out out_len =
      (if length (out @ [a, b, c]) \<le> cap then unarmor_loop cap src (out @ [a, b, c]) (out_len + 3)
       else (erange, take cap (out @ [a, b, c])))"
    "unarmor_loop cap (armor_2 a b @ src) out out_len =
      (if length (out @ [a, b]) \<le> cap then (out_len + 2, out @ [a, b]) else (erange, take cap (out @ [a, b])))"
    "unarmor_loop cap (armor_1 a @ src) out out_len =
      (if length (out @ [a]) \<le> cap then (out_len + 1, out @ [a]) else (erange, take cap (out @ [a])))"
  unfolding armor_1_def armor_2_def armor_3_def append.simps
  by (rule unarmor_4 unarmor_3 unarmor_2, rule assms, (rule six_bits unarmor_bytes)+)+

definition decoded :: "nat \<Rightarrow> bytes \<Rightarrow> int \<times> bytes" where
  "decoded cap e = (if length e \<le> cap then (int (length e), e) else (erange, take cap e))"

lemma unarmor_loop_result:
  assumes "length out \<le> cap"
  shows "unarmor_loop cap (broken n k (groups src)) out (int (length out)) = decoded cap (out @ src)"
  using assms
proof (induction src arbitrary: out k rule: groups.induct)
  case 1
  then show ?case by (simp add: decoded_def)
next
  case (2 a)
  then show ?case by (simp add: unarmor_group decoded_def)
next
  case (3 a b)
  then show ?case by (simp add: unarmor_group decoded_def)
next
  case (4 a b c src)
  show ?case
  proof (cases "length (out @ [a, b, c]) \<le> cap")
    case True
    then show ?thesis
      using 4(2) 4(1) [OF True, of 0] 4(1) [OF True, of "Suc k"] by (simp add: unarmor_group add.commute)
  next
    case False
    then show ?thesis using 4(2) by (simp add: unarmor_group decoded_def take_Cons')
  qed
qed

subsection \<open>The properties\<close>

text \<open>
  The encoder writes the base64 form of its input, with a newline after every
  \<open>line_width\<close> characters when \<open>line_width\<close> is a positive multiple of 4 (and none otherwise), and
  returns its length; when the block has not enough room it fills the block and returns the error.
\<close>

lemma armor_writes_base64:
  assumes "-(2 ^ 31) \<le> line_width" "line_width < 2 ^ 31" "length src < 2 ^ 60"
  shows "spec_armor_line_break cap src line_width =
    (let e = base64 line_width src in
     if length e \<le> cap then (length e, e) else (erange64, take cap e))"
  using armor_encodes [OF assms] by (simp add: encoded_def Let_def)

lemma armor_writes_base64_witness:
  "spec_armor_line_break 9 [77, 97, 110, 77] 4 = (erange64, [84, 87, 70, 117, 10, 84, 81, 61, 61]) \<and>
   spec_armor_line_break 10 [77, 97, 110, 77] 4 = (10, [84, 87, 70, 117, 10, 84, 81, 61, 61, 10])"
proof -
  have b: "base64 4 [77, 97, 110, 77] = [84, 87, 70, 117, 10, 84, 81, 61, 61, 10]"
    by (simp add: base64_def groups_per_line_def armor_1_def armor_3_def encode_bits_def pem_key_def chr_def)
  show ?thesis
    using armor_writes_base64 [of 4 "[77, 97, 110, 77]" 9] armor_writes_base64 [of 4 "[77, 97, 110, 77]" 10]
    by (simp add: b)
qed

text \<open>
  C22 (roundtrip). The decoder inverts the encoder, with or without line breaks: what
  \<^verbatim>\<open>spec_armor_line_break\<close> wrote into a block that was large enough decodes to the bytes it was
  given and to their number, and to \<^verbatim>\<open>-ERANGE\<close> when the destination is smaller than that.
\<close>

theorem unarmor_inverts_armor:
  assumes "-(2 ^ 31) \<le> line_width" "line_width < 2 ^ 31" "length src < 2 ^ 60"
    "fst (spec_armor_line_break room src line_width) \<noteq> erange64"
  shows "spec_unarmor cap (snd (spec_armor_line_break room src line_width)) =
    (if length src \<le> cap then (int (length src), src) else (erange, take cap src))"
proof -
  have "snd (spec_armor_line_break room src line_width) = broken (groups_per_line line_width) 0 (groups src)"
    using assms(4) unfolding armor_encodes [OF assms(1-3)] base64_def encoded_def by (simp split: if_splits)
  then show ?thesis
    using unarmor_loop_result [of "[]" cap "groups_per_line line_width" 0 src]
    by (simp add: spec_unarmor_def decoded_def)
qed

theorem unarmor_inverts_armor_witness:
  "spec_unarmor 4 (snd (spec_armor_line_break 10 [77, 97, 110, 77] 4)) = (4, [77, 97, 110, 77]) \<and>
   spec_unarmor 3 (snd (spec_armor_line_break 10 [77, 97, 110, 77] 4)) = (erange, [77, 97, 110])"
proof -
  have "base64 4 [77, 97, 110, 77] = [84, 87, 70, 117, 10, 84, 81, 61, 61, 10]"
    by (simp add: base64_def groups_per_line_def armor_1_def armor_3_def encode_bits_def pem_key_def chr_def)
  then have "fst (spec_armor_line_break 10 [77, 97, 110, 77] 4) \<noteq> erange64"
    using armor_encodes [of 4 "[77, 97, 110, 77]" 10] by (simp add: encoded_def erange64_def erange_def)
  then show ?thesis
    using unarmor_inverts_armor [of 4 "[77, 97, 110, 77]" 10 4] unarmor_inverts_armor [of 4 "[77, 97, 110, 77]" 10 3]
    by simp
qed

end
