(* ===== verification/Buffers_Chain.thy ===== *)
theory Buffers_Chain
  imports Loops
begin

text \<open>
  The intrusive list under \<^verbatim>\<open>buffer::list\<close> (\<^verbatim>\<open>buffers_t\<close>, \<^verbatim>\<open>buffer_list.h\<close>), pointer by pointer: a
  circle of \<^verbatim>\<open>ptr_hook\<close>s through the root of the list, and the address of the last hook. Several
  lists live in one store, since nodes move from one to another. A list is named by the address
  of its root hook. The components above this one see the sequence of the nodes.
\<close>

subsection \<open>The store of hooks\<close>

text \<open>
  \<open>hook_next\<close> is the \<^verbatim>\<open>next\<close> field of every live \<^verbatim>\<open>ptr_hook\<close>, roots and nodes; \<open>list_tail\<close> is the
  \<^verbatim>\<open>_tail\<close> of every list; \<open>next_hook\<close> is where the allocator places the next node. Address 0 is the
  null pointer.
\<close>

record hooks =
  hook_next :: "nat \<Rightarrow> nat option"
  list_tail :: "nat \<Rightarrow> nat option"
  next_hook :: nat

definition get_next :: "nat \<Rightarrow> hooks \<Rightarrow> exn + nat" where
  "get_next a h = of_option Undefined (hook_next h a)"

definition set_next :: "nat \<Rightarrow> nat \<Rightarrow> hooks \<Rightarrow> exn + hooks" where
  "set_next a b h =
    (if hook_next h a = None then Inl Undefined else Inr (h\<lparr>hook_next := (hook_next h)(a \<mapsto> b)\<rparr>))"

definition get_tail :: "nat \<Rightarrow> hooks \<Rightarrow> exn + nat" where
  "get_tail r h = of_option Undefined (list_tail h r)"

definition set_tail :: "nat \<Rightarrow> nat \<Rightarrow> hooks \<Rightarrow> hooks" where
  "set_tail r a h = h\<lparr>list_tail := (list_tail h)(r \<mapsto> a)\<rparr>"

text \<open>\<^verbatim>\<open>ptr_node::disposer\<close> and \<^verbatim>\<open>ptr_node::cloner\<close>: the copied node has the \<^verbatim>\<open>next\<close> of the original.\<close>

definition hook_dispose :: "nat \<Rightarrow> hooks \<Rightarrow> exn + hooks" where
  "hook_dispose a h =
    (if hook_next h a = None then Inl Undefined else Inr (h\<lparr>hook_next := (hook_next h)(a := None)\<rparr>))"

definition hook_clone :: "nat \<Rightarrow> hooks \<Rightarrow> exn + nat \<times> hooks" where
  "hook_clone a h =
    ebind (get_next a h) (\<lambda>n.
      Inr (next_hook h, h\<lparr>hook_next := (hook_next h)(next_hook h \<mapsto> n), next_hook := Suc (next_hook h)\<rparr>))"

subsection \<open>The operations\<close>

definition chain_new :: "nat \<Rightarrow> hooks \<Rightarrow> hooks" where
  "chain_new r h = set_tail r r (h\<lparr>hook_next := (hook_next h)(r \<mapsto> r)\<rparr>)"

definition chain_move :: "nat \<Rightarrow> nat \<Rightarrow> hooks \<Rightarrow> exn + hooks" where
  "chain_move r s h =
    ebind (get_next s h) (\<lambda>n. ebind (get_tail s h) (\<lambda>t.
      let t' = (if t = s then r else t);
          h = set_tail r t' (h\<lparr>hook_next := (hook_next h)(r \<mapsto> (if n = s then r else n))\<rparr>) in
      ebind (set_next s s h) (\<lambda>h.
      let h = set_tail s s h in
      set_next t' r h)))"

definition chain_push_back :: "nat \<Rightarrow> nat \<Rightarrow> hooks \<Rightarrow> exn + hooks" where
  "chain_push_back r item h =
    ebind (set_next item r h) (\<lambda>h.
    ebind (get_tail r h) (\<lambda>t.
    ebind (set_next t item h) (\<lambda>h.
    Inr (set_tail r item h))))"

definition chain_push_front :: "nat \<Rightarrow> nat \<Rightarrow> hooks \<Rightarrow> exn + hooks" where
  "chain_push_front r item h =
    ebind (get_next r h) (\<lambda>n.
    ebind (set_next item n h) (\<lambda>h.
    ebind (set_next r item h) (\<lambda>h.
    ebind (get_tail r h) (\<lambda>t.
    Inr (set_tail r (if t = r then item else t) h)))))"

definition chain_empty :: "nat \<Rightarrow> hooks \<Rightarrow> exn + bool" where
  "chain_empty r h = ebind (get_tail r h) (\<lambda>t. Inr (t = r))"

definition chain_begin :: "nat \<Rightarrow> hooks \<Rightarrow> exn + nat" where
  "chain_begin r h = get_next r h"

definition chain_before_begin :: "nat \<Rightarrow> nat" where
  "chain_before_begin r = r"

definition chain_end :: "nat \<Rightarrow> nat" where
  "chain_end r = r"

definition chain_front :: "nat \<Rightarrow> hooks \<Rightarrow> exn + nat" where
  "chain_front r h = get_next r h"

definition chain_back :: "nat \<Rightarrow> hooks \<Rightarrow> exn + nat" where
  "chain_back r h = get_tail r h"

definition chain_swap :: "nat \<Rightarrow> nat \<Rightarrow> hooks \<Rightarrow> exn + hooks" where
  "chain_swap r s h =
    ebind (get_next r h) (\<lambda>copy_root.
    ebind (get_next s h) (\<lambda>n.
    ebind (set_next r (if n = s then r else n) h) (\<lambda>h.
    ebind (set_next s (if copy_root = r then s else copy_root) h) (\<lambda>h.
    ebind (get_tail r h) (\<lambda>copy_tail.
    ebind (get_tail s h) (\<lambda>t.
    let tr = (if t = s then r else t); ts = (if copy_tail = r then s else copy_tail);
        h = set_tail s ts (set_tail r tr h) in
    ebind (get_tail r h) (\<lambda>tr.
    ebind (set_next tr r h) (\<lambda>h.
    ebind (get_tail s h) (\<lambda>ts. set_next ts s h)))))))))"

text \<open>One round of \<^verbatim>\<open>clear_and_dispose\<close>: the iterator moves on before its node is disposed of.\<close>

definition clear_round :: "nat \<Rightarrow> nat \<times> hooks \<Rightarrow> exn + hooks + nat \<times> hooks" where
  "clear_round r s =
    (case s of (it, h) \<Rightarrow>
      if it = chain_end r then Inr (Inl h)
      else ebind (get_next it h) (\<lambda>it'. ebind (hook_dispose it h) (\<lambda>h. Inr (Inr (it', h)))))"

definition chain_clear :: "nat \<Rightarrow> hooks \<Rightarrow> (exn + hooks) option" where
  "chain_clear r h =
    rbind (Some (chain_begin r h)) (\<lambda>it.
    rbind (run (clear_round r) (it, h)) (\<lambda>h.
    Some (ebind (set_next r r h) (\<lambda>h. Inr (set_tail r r h)))))"

definition chain_assign_move :: "nat \<Rightarrow> nat \<Rightarrow> hooks \<Rightarrow> (exn + hooks) option" where
  "chain_assign_move r s h =
    (if s = r then Some (Inr h) else rbind (chain_clear r h) (\<lambda>h. Some (chain_swap r s h)))"

definition chain_erase_after :: "nat \<Rightarrow> nat \<Rightarrow> hooks \<Rightarrow> exn + nat \<times> hooks" where
  "chain_erase_after r it h =
    ebind (get_next it h) (\<lambda>to_erase.
    ebind (get_next to_erase h) (\<lambda>after.
    ebind (set_next it after h) (\<lambda>h.
    ebind (get_next r h) (\<lambda>first.
    ebind (set_next r (if first = to_erase then after else first) h) (\<lambda>h.
    ebind (get_tail r h) (\<lambda>t.
    let h = set_tail r (if t = to_erase then it else t) h in
    ebind (get_next it h) (\<lambda>n. Inr (n, h))))))))"

definition chain_erase_after_and_dispose :: "nat \<Rightarrow> nat \<Rightarrow> hooks \<Rightarrow> exn + nat \<times> hooks" where
  "chain_erase_after_and_dispose r it h =
    ebind (get_next it h) (\<lambda>to_dispose.
    ebind (chain_erase_after r it h) (\<lambda>(ret, h).
    ebind (hook_dispose to_dispose h) (\<lambda>h. Inr (ret, h))))"

definition chain_insert_after :: "nat \<Rightarrow> nat \<Rightarrow> nat \<Rightarrow> hooks \<Rightarrow> exn + hooks" where
  "chain_insert_after r it item h =
    ebind (get_next it h) (\<lambda>n.
    ebind (set_next item n h) (\<lambda>h.
    ebind (set_next it item h) (\<lambda>h.
    ebind (get_next r h) (\<lambda>first.
    ebind (set_next r (if it = chain_end r then item else first) h) (\<lambda>h.
    ebind (get_tail r h) (\<lambda>t.
    Inr (set_tail r (if t = it then item else t) h)))))))"

definition chain_splice_back :: "nat \<Rightarrow> nat \<Rightarrow> hooks \<Rightarrow> exn + hooks" where
  "chain_splice_back r s h =
    ebind (chain_empty s h) (\<lambda>e.
    if e then Inr h
    else
      ebind (get_tail s h) (\<lambda>ts.
      ebind (set_next ts r h) (\<lambda>h.
      ebind (get_next s h) (\<lambda>first.
      ebind (get_tail r h) (\<lambda>tr.
      ebind (set_next tr first h) (\<lambda>h.
      let h = set_tail r ts h in
      ebind (set_next s s h) (\<lambda>h. Inr (set_tail s s h))))))))"

definition clone_round :: "nat \<Rightarrow> nat \<Rightarrow> nat \<times> hooks \<Rightarrow> exn + hooks + nat \<times> hooks" where
  "clone_round r s st =
    (case st of (it, h) \<Rightarrow>
      if it = chain_end s then Inr (Inl h)
      else
        ebind (hook_clone it h) (\<lambda>(k, h).
        ebind (chain_push_back r k h) (\<lambda>h.
        ebind (get_next it h) (\<lambda>it. Inr (Inr (it, h))))))"

definition chain_clone_from :: "nat \<Rightarrow> nat \<Rightarrow> hooks \<Rightarrow> (exn + hooks) option" where
  "chain_clone_from r s h =
    rbind (chain_clear r h) (\<lambda>h.
    rbind (Some (chain_begin s h)) (\<lambda>it.
    run (clone_round r s) (it, h)))"

end
