(* ===== verification/Chain_Spec.thy ===== *)
theory Chain_Spec
  imports Buffers_Chain
begin

text \<open>
  The contract of the intrusive list. The store of hooks represents a finite map from the roots to
  the sequences of their nodes; every operation carries out an operation on sequences, and the
  lists it is not given are untouched.
\<close>

subsection \<open>Sequences of nodes in the store\<close>

fun path :: "(nat \<Rightarrow> nat option) \<Rightarrow> nat \<Rightarrow> nat list \<Rightarrow> nat \<Rightarrow> bool" where
  "path nx a [] b \<longleftrightarrow> nx a = Some b"
| "path nx a (x # xs) b \<longleftrightarrow> nx a = Some x \<and> path nx x xs b"

definition chain :: "hooks \<Rightarrow> nat \<Rightarrow> nat list \<Rightarrow> bool" where
  "chain h r xs \<longleftrightarrow> distinct (r # xs) \<and> path (hook_next h) r xs r \<and> list_tail h r = Some (last (r # xs))"

definition hooks_of :: "(nat \<Rightarrow> nat list option) \<Rightarrow> nat \<Rightarrow> nat set" where
  "hooks_of L r = (case L r of None \<Rightarrow> {} | Some xs \<Rightarrow> set (r # xs))"

definition separate :: "(nat \<Rightarrow> nat list option) \<Rightarrow> bool" where
  "separate L \<longleftrightarrow> (\<forall>r s a. a \<in> hooks_of L r \<longrightarrow> a \<in> hooks_of L s \<longrightarrow> r = s)"

definition represents :: "hooks \<Rightarrow> (nat \<Rightarrow> nat list option) \<Rightarrow> bool" where
  "represents h L \<longleftrightarrow> (\<forall>r xs. L r = Some xs \<longrightarrow> chain h r xs) \<and> separate L \<and>
     (\<forall>a. hook_next h a \<noteq> None \<longrightarrow> a < next_hook h)"

text \<open>A node that is in no list.\<close>

definition unlinked :: "(nat \<Rightarrow> nat list option) \<Rightarrow> nat \<Rightarrow> bool" where
  "unlinked L a \<longleftrightarrow> (\<forall>r. a \<notin> hooks_of L r)"

lemma hooks_of_simps [simp]:
  "L r = Some xs \<Longrightarrow> hooks_of L r = set (r # xs)"
  "hooks_of (L(r \<mapsto> xs)) s = (if s = r then set (r # xs) else hooks_of L s)"
  by (auto simp: hooks_of_def)

lemma path_append [simp]: "path nx a (xs @ y # ys) b \<longleftrightarrow> path nx a xs y \<and> path nx y ys b"
  by (induction xs arbitrary: a) auto

lemma path_frame: "(\<And>x. x \<in> set (a # xs) \<Longrightarrow> nx' x = nx x) \<Longrightarrow> path nx' a xs b = path nx a xs b"
  by (induction xs arbitrary: a) auto

lemma path_upd [simp]: "c \<notin> set (a # xs) \<Longrightarrow> path (nx(c := v)) a xs b = path nx a xs b"
  by (rule path_frame) auto

lemma path_last: "distinct (a # xs) \<Longrightarrow> path nx a xs b \<Longrightarrow> path (nx(last (a # xs) \<mapsto> c)) a xs c"
  by (induction xs arbitrary: a) (auto split: if_splits)

lemma path_hooks: "path nx a xs b \<Longrightarrow> x \<in> set (a # xs) \<Longrightarrow> nx x \<noteq> None"
  by (induction xs arbitrary: a) auto

lemma path_next: "path nx a xs b \<Longrightarrow> nx a = Some (hd (xs @ [b]))"
  by (cases xs) auto

lemma chainD:
  assumes "chain h r xs"
  shows "distinct (r # xs)" "path (hook_next h) r xs r" "list_tail h r = Some (last (r # xs))"
    "hook_next h r = Some (hd (xs @ [r]))" "x \<in> set (r # xs) \<Longrightarrow> hook_next h x \<noteq> None"
  using assms path_next path_hooks unfolding chain_def by blast+

lemma tail_is_root: "distinct (r # xs) \<Longrightarrow> last (r # xs) = r \<longleftrightarrow> xs = []"
  by (metis distinct.simps(2) last_ConsL last_ConsR last_in_set)

lemma first_is_root: "distinct (r # xs) \<Longrightarrow> hd (xs @ [r]) = r \<longleftrightarrow> xs = []"
  by (cases xs) auto

lemma representsD:
  assumes "represents h L"
  shows "L r = Some xs \<Longrightarrow> chain h r xs" "hook_next h a \<noteq> None \<Longrightarrow> a < next_hook h" "separate L"
  using assms by (auto simp: represents_def)

lemma separateD:
  assumes "separate L" "L r = Some xs" "L s = Some ys" "r \<noteq> s"
  shows "set (r # xs) \<inter> set (s # ys) = {}"
proof -
  have "hooks_of L r \<inter> hooks_of L s = {}" using assms(1,4) unfolding separate_def by blast
  then show ?thesis by (simp only: hooks_of_simps(1) [of L r xs, OF assms(2)] hooks_of_simps(1) [of L s ys, OF assms(3)])
qed

lemma separate_upd:
  assumes "separate L" "L r = Some xs" "set ys \<subseteq> set xs \<union> {x. unlinked L x}"
  shows "separate (L(r \<mapsto> ys))"
proof -
  have "a \<in> hooks_of L r \<or> unlinked L a" if "a \<in> set (r # ys)" for a
    using that assms(2,3) by auto
  then show ?thesis
    using assms(1) unfolding separate_def unlinked_def hooks_of_simps(2) by (metis (full_types))
qed

lemma separate_upd2:
  assumes "separate L" "L r = Some xs" "L s = Some ys" "r \<noteq> s"
    "set xs' \<union> set ys' \<subseteq> set xs \<union> set ys" "set xs' \<inter> set ys' = {}"
    "distinct (r # xs)" "distinct (s # ys)"
  shows "separate (L(r \<mapsto> xs', s \<mapsto> ys'))"
proof -
  note apart = separateD [OF assms(1-4)]
  have "set (r # xs') \<inter> set (s # ys') = {}" using apart assms(4-8) by auto
  moreover have "a \<in> hooks_of L r \<or> a \<in> hooks_of L s" if "a \<in> set (r # xs') \<union> set (s # ys')" for a
    using that assms(2,3,5) by auto
  ultimately show ?thesis
    using assms(1) unfolding separate_def hooks_of_simps(2) by (metis UnCI disjoint_iff)
qed

text \<open>The lists outside \<open>D\<close> are framed; those in \<open>D\<close> are shown again.\<close>

lemma represents_frame:
  assumes rep: "represents h L" and out: "\<And>r. r \<notin> D \<Longrightarrow> L' r = L r"
    and sep: "separate L'"
    and inD: "\<And>r xs. r \<in> D \<Longrightarrow> L' r = Some xs \<Longrightarrow> chain h' r xs"
    and nx: "\<And>r xs a. r \<notin> D \<Longrightarrow> L r = Some xs \<Longrightarrow> a \<in> set (r # xs) \<Longrightarrow> hook_next h' a = hook_next h a"
    and tl: "\<And>r. r \<notin> D \<Longrightarrow> list_tail h' r = list_tail h r"
    and new: "\<And>a. hook_next h' a \<noteq> None \<Longrightarrow> a < next_hook h'"
  shows "represents h' L'"
proof -
  have "chain h' r xs" if "L' r = Some xs" for r xs
  proof (cases "r \<in> D")
    case False
    then have L: "L r = Some xs" using out that by simp
    have "path (hook_next h') r xs r = path (hook_next h) r xs r"
      by (rule path_frame) (rule nx [OF False L])
    then show ?thesis using chainD [OF representsD(1) [OF rep L]] tl [OF False] by (simp add: chain_def)
  qed (use inD that in simp)
  then show ?thesis using sep new by (auto simp: represents_def)
qed

end
