(* ===== verification/Chain_Ops.thy ===== *)
theory Chain_Ops
  imports Chain_Spec
begin

text \<open>
  Every operation of \<^verbatim>\<open>buffers_t\<close> against the sequences it stands for: first on the one or two
  lists it is given, then on the store of all lists.
\<close>

lemma hooks_sel:
  "hook_next (h\<lparr>hook_next := f\<rparr>) = f" "list_tail (h\<lparr>hook_next := f\<rparr>) = list_tail h"
  "hook_next (h\<lparr>list_tail := g\<rparr>) = hook_next h" "list_tail (h\<lparr>list_tail := g\<rparr>) = g"
  "h\<lparr>hook_next := f, hook_next := f'\<rparr> = h\<lparr>hook_next := f'\<rparr>"
  by simp_all

lemmas hook_defs =
  get_next_def set_next_def get_tail_def set_tail_def chain_end_def chain_begin_def of_option_simps hooks_sel

subsection \<open>Operations on one list\<close>

definition relinks :: "hooks \<Rightarrow> nat \<Rightarrow> nat list \<Rightarrow> hooks \<Rightarrow> nat list \<Rightarrow> bool" where
  "relinks h r xs h' xs' \<longleftrightarrow> chain h' r xs' \<and>
     (\<forall>a. a \<notin> set (r # xs) \<union> set xs' \<longrightarrow> hook_next h' a = hook_next h a) \<and>
     (\<forall>s. s \<noteq> r \<longrightarrow> list_tail h' s = list_tail h s) \<and>
     (\<forall>a. hook_next h' a \<noteq> None \<longrightarrow> hook_next h a \<noteq> None) \<and> next_hook h' = next_hook h"

lemma represents_relinks:
  assumes rep: "represents h L" and L: "L r = Some xs" and rel: "relinks h r xs h' xs'"
    and sub: "set xs' \<subseteq> set xs \<union> {x. unlinked L x}"
  shows "represents h' (L(r \<mapsto> xs'))"
proof (rule represents_frame [OF rep, where D = "{r}"])
  show "separate (L(r \<mapsto> xs'))" by (rule separate_upd [OF representsD(3) [OF rep] L sub])
  fix s ys a assume h: "s \<notin> {r}" "L s = Some ys" "a \<in> set (s # ys)"
  then have "a \<notin> set (r # xs)" using separateD [OF representsD(3) [OF rep] L h(2)] by auto
  moreover have "\<not> unlinked L a"
    using h(3) hooks_of_simps(1) [of L s ys, OF h(2)] unfolding unlinked_def by blast
  ultimately have "a \<notin> set (r # xs) \<union> set xs'" using sub by auto
  then show "hook_next h' a = hook_next h a" using rel unfolding relinks_def by blast
qed (use rel representsD(2) [OF rep] in \<open>auto simp: relinks_def\<close>)

lemma chain_push_back_ok:
  assumes "chain h r xs" "item \<notin> set (r # xs)" "hook_next h item \<noteq> None"
  shows "\<exists>h'. chain_push_back r item h = Inr h' \<and> relinks h r xs h' (xs @ [item])"
proof -
  note c = chainD [OF assms(1)]
  let ?t = "last (r # xs)" and ?nx = "(hook_next h)(item \<mapsto> r)"
  have t: "?t \<in> set (r # xs)" by (rule last_in_set) simp
  then have live: "?nx ?t \<noteq> None" using c(5) [of ?t] assms(2) by auto
  have "path ?nx r xs r" using c(2) assms(2) by simp
  then have "path (?nx(?t \<mapsto> item)) r xs item" by (rule path_last [OF c(1)])
  moreover have "?t \<noteq> item" using t assms(2) by blast
  ultimately have p: "path (?nx(?t \<mapsto> item)) r (xs @ [item]) r" by simp
  have "last (r # xs @ [item]) = item" by simp
  then show ?thesis
    using p c(1,3) assms(2,3) live t c(5)
    by (auto simp: chain_push_back_def set_next_def get_tail_def set_tail_def relinks_def chain_def
      simp del: last.simps)
qed

lemma chain_push_front_ok:
  assumes "chain h r xs" "item \<notin> set (r # xs)" "hook_next h item \<noteq> None"
  shows "\<exists>h'. chain_push_front r item h = Inr h' \<and> relinks h r xs h' (item # xs)"
proof -
  note c = chainD [OF assms(1)]
  let ?n = "hd (xs @ [r])" and ?nx = "(hook_next h)(item \<mapsto> hd (xs @ [r]), r \<mapsto> item)"
  have "path ?nx item xs r"
    using c(1,2) assms(2) by (cases xs) auto
  then have p: "path ?nx r (item # xs) r" using assms(2) by simp
  have t: "(if last (r # xs) = r then item else last (r # xs)) = last (r # item # xs)"
    using tail_is_root [OF c(1)] by auto
  show ?thesis
    using p c(1,3,4) assms(2,3) t
    by (auto simp: chain_push_front_def set_next_def get_next_def get_tail_def set_tail_def relinks_def chain_def
      simp del: last.simps)
qed

lemma chain_empty_ok: "chain h r xs \<Longrightarrow> chain_empty r h = Inr (xs = [])"
  by (simp add: chain_empty_def get_tail_def chainD(3) tail_is_root [OF chainD(1)] del: last.simps)

lemma chain_front_back_ok:
  assumes "chain h r xs" "xs \<noteq> []"
  shows "chain_front r h = Inr (hd xs)" "chain_back r h = Inr (last xs)"
  using chainD(3,4) [OF assms(1)] assms(2)
  by (simp_all add: chain_front_def chain_back_def get_next_def get_tail_def)

lemma path_split:
  assumes "path nx a (xs @ ys) b"
  shows "path nx (last (a # xs)) ys b"
  using assms by (induction xs arbitrary: a) auto

lemma path_cut:
  assumes "path nx a (xs @ y # ys) b" "distinct (a # xs @ y # ys)" "nx y = Some z"
  shows "path (nx(last (a # xs) \<mapsto> z)) a (xs @ ys) b"
  using assms
proof (induction xs arbitrary: a)
  case Nil
  show ?case
  proof (cases ys)
    case (Cons y' ys')
    have "path nx y' ys' b" "z = y'" using Nil Cons by auto
    moreover have "path (nx(a \<mapsto> z)) y' ys' b = path nx y' ys' b"
      by (rule path_frame) (use Nil Cons in auto)
    ultimately show ?thesis unfolding Cons append_Nil last.simps path.simps fun_upd_same by simp
  qed (use Nil in auto)
next
  case (Cons x xs)
  have "path (nx(last (x # xs) \<mapsto> z)) x (xs @ ys) b" by (rule Cons.IH) (use Cons.prems in auto)
  moreover have "last (x # xs) \<noteq> a"
    using Cons.prems(2) last_in_set [of "x # xs"] by auto
  then have "(nx(last (x # xs) \<mapsto> z)) a = Some x" using Cons.prems(1) by (subst fun_upd_other) auto
  moreover have "last (a # x # xs) = last (x # xs)" by simp
  ultimately show ?case by (simp only: append_Cons path.simps)
qed

lemma chain_erase_after_ok:
  assumes "chain h r (xs @ y # ys)" "it = last (r # xs)"
  shows "\<exists>h'. chain_erase_after r it h = Inr (hd (ys @ [r]), h') \<and>
    relinks h r (xs @ y # ys) h' (xs @ ys) \<and> hook_next h' y = hook_next h y"
proof -
  note c = chainD [OF assms(1)]
  have d: "distinct (r # xs @ y # ys)" by (rule c(1))
  have ys: "path (hook_next h) y ys r" using c(2) by simp
  have z: "hook_next h y = Some (hd (ys @ [r]))" by (rule path_next [OF ys])
  have it: "hook_next h it = Some y"
    using path_next [OF path_split [OF c(2)]] assms(2) by simp
  have itin: "it \<in> set (r # xs)" unfolding assms(2) by (rule last_in_set) simp
  have "it \<noteq> y" using itin d by auto
  let ?nx = "(hook_next h)(it \<mapsto> hd (ys @ [r]))"
  have p: "path ?nx r (xs @ ys) r"
    using path_cut [OF c(2) d z] assms(2) by simp
  have first: "?nx r = Some (hd ((xs @ ys) @ [r]))" by (rule path_next [OF p])
  have keep: "(if hd ((xs @ ys) @ [r]) = y then hd (ys @ [r]) else hd ((xs @ ys) @ [r])) = hd ((xs @ ys) @ [r])"
    using d by (cases xs; cases ys) auto
  have same: "?nx(r \<mapsto> hd ((xs @ ys) @ [r])) = ?nx" using first by (simp add: fun_upd_idem)
  have tail: "(if last (r # xs @ y # ys) = y then it else last (r # xs @ y # ys)) = last (r # xs @ ys)"
    using d assms(2) by (cases ys rule: rev_cases) (auto split: if_splits)
  have "chain_erase_after r it h = Inr (hd (ys @ [r]),
      set_tail r (last (r # xs @ ys)) (h\<lparr>hook_next := ?nx\<rparr>))"
    unfolding chain_erase_after_def Let_def
    using it z first c(3) same \<open>it \<noteq> y\<close>
    by (simp only: hook_defs ebind_simps option.distinct if_False keep tail fun_upd_same)
  then show ?thesis
    using p d \<open>it \<noteq> y\<close> itin it by (auto simp: relinks_def chain_def set_tail_def)
qed

lemma path_take: "path nx a (xs @ ys) b \<Longrightarrow> path nx a xs (hd (ys @ [b]))"
  by (induction xs arbitrary: a) (auto intro: path_next)

lemma path_start:
  assumes "path nx c ys b" "nx' a = nx c" "\<And>x. x \<in> set ys \<Longrightarrow> nx' x = nx x"
  shows "path nx' a ys b"
proof (cases ys)
  case (Cons y ys')
  then have "path nx' y ys' b = path nx y ys' b" by (intro path_frame) (use assms(3) in auto)
  then show ?thesis using assms(1,2) Cons by simp
qed (use assms in simp)

lemma chain_insert_after_ok:
  assumes "chain h r (xs @ ys)" "it = last (r # xs)" "item \<notin> set (r # xs @ ys)" "hook_next h item \<noteq> None"
  shows "\<exists>h'. chain_insert_after r it item h = Inr h' \<and> relinks h r (xs @ ys) h' (xs @ item # ys)"
proof -
  note c = chainD [OF assms(1)]
  let ?n = "hd (ys @ [r])" and ?t = "last (r # xs @ ys)"
  let ?nx = "(hook_next h)(item \<mapsto> ?n, it \<mapsto> item)"
  have d: "distinct (r # xs)" using c(1) by simp
  have itin: "it \<in> set (r # xs)" unfolding assms(2) by (rule last_in_set) simp
  then have "it \<noteq> item" using assms(3) by auto
  have n: "hook_next h it = Some ?n"
    using path_next [OF path_split [OF c(2)]] assms(2) by simp
  have "path ((hook_next h)(item \<mapsto> ?n)) r xs ?n"
    using path_take [OF c(2)] assms(3) by simp
  then have "path ?nx r xs item" unfolding assms(2) by (rule path_last [OF d])
  moreover have "path ?nx item ys r"
    by (rule path_start [OF path_split [OF c(2)]])
      (use assms(2,3) \<open>it \<noteq> item\<close> n itin c(1) in auto)
  ultimately have p: "path ?nx r (xs @ item # ys) r" by simp
  have first: "?nx r = Some (hd ((xs @ item # ys) @ [r]))" by (rule path_next [OF p])
  have it_root: "it = r \<longleftrightarrow> xs = []" using assms(2) tail_is_root [OF d] by simp
  have keep: "(if it = r then item else hd ((xs @ item # ys) @ [r])) = hd ((xs @ item # ys) @ [r])"
    using it_root by auto
  have same: "?nx(r \<mapsto> hd ((xs @ item # ys) @ [r])) = ?nx" using first by (simp add: fun_upd_idem)
  have t_it: "?t = it \<longleftrightarrow> ys = []"
  proof (cases "ys = []")
    case False
    then have "?t \<in> set ys" by simp
    then show ?thesis using itin c(1) False by auto
  qed (use assms(2) in simp)
  have tail: "(if ?t = it then item else ?t) = last (r # xs @ item # ys)" using t_it by auto
  have live: "((hook_next h)(item \<mapsto> ?n)) it \<noteq> None" using n \<open>it \<noteq> item\<close> by simp
  have "chain_insert_after r it item h = Inr (set_tail r (last (r # xs @ item # ys)) (h\<lparr>hook_next := ?nx\<rparr>))"
    unfolding chain_insert_after_def Let_def
    using n first c(3) same assms(4) live
    by (simp only: hook_defs ebind_simps option.distinct if_False keep tail fun_upd_same)
  then show ?thesis
    using p c(1) assms(3,4) \<open>it \<noteq> item\<close> itin n by (auto simp: relinks_def chain_def set_tail_def)
qed

subsection \<open>Operations on two lists\<close>

definition relinks2 :: "hooks \<Rightarrow> nat \<Rightarrow> nat list \<Rightarrow> nat \<Rightarrow> nat list \<Rightarrow> hooks \<Rightarrow> nat list \<Rightarrow> nat list \<Rightarrow> bool" where
  "relinks2 h r xs s ys h' xs' ys' \<longleftrightarrow> chain h' r xs' \<and> chain h' s ys' \<and>
     (\<forall>a. a \<notin> set (r # xs) \<union> set (s # ys) \<longrightarrow> hook_next h' a = hook_next h a) \<and>
     (\<forall>t. t \<noteq> r \<longrightarrow> t \<noteq> s \<longrightarrow> list_tail h' t = list_tail h t) \<and>
     (\<forall>a. hook_next h' a \<noteq> None \<longrightarrow> hook_next h a \<noteq> None) \<and> next_hook h' = next_hook h"

lemma represents_relinks2:
  assumes rep: "represents h L" and L: "L r = Some xs" "L s = Some ys" "r \<noteq> s"
    and rel: "relinks2 h r xs s ys h' xs' ys'"
    and sub: "set xs' \<union> set ys' \<subseteq> set xs \<union> set ys" "set xs' \<inter> set ys' = {}"
  shows "represents h' (L(r \<mapsto> xs', s \<mapsto> ys'))"
proof (rule represents_frame [OF rep, where D = "{r, s}"])
  show "separate (L(r \<mapsto> xs', s \<mapsto> ys'))"
    by (rule separate_upd2 [OF representsD(3) [OF rep] L sub])
      (use chainD(1) representsD(1) [OF rep] L in blast)+
  fix t zs a assume h: "t \<notin> {r, s}" "L t = Some zs" "a \<in> set (t # zs)"
  then have "a \<notin> set (r # xs)" "a \<notin> set (s # ys)"
    using separateD [OF representsD(3) [OF rep] L(1) h(2)] separateD [OF representsD(3) [OF rep] L(2) h(2)] by auto
  then show "hook_next h' a = hook_next h a" using rel unfolding relinks2_def by blast
qed (use rel representsD(2) [OF rep] L(3) in \<open>auto simp: relinks2_def split: if_splits\<close>)

text \<open>A sequence of nodes moved under another root.\<close>

lemma path_rehome:
  assumes "path nx s ys s" "distinct ys" "r \<notin> set ys" "nx' r = Some (hd (ys @ [r]))"
    "nx' (last (r # ys)) = Some r" "\<And>x. x \<in> set ys \<Longrightarrow> x \<noteq> last ys \<Longrightarrow> nx' x = nx x"
  shows "path nx' r ys r"
proof (cases ys rule: rev_cases)
  case (snoc zs z)
  have p: "path nx s zs z" using path_take [of nx s zs "[z]" s] assms(1) snoc by simp
  have "path nx' r zs z"
  proof (cases zs)
    case (Cons w ws)
    then have "path nx' w ws z = path nx w ws z"
      by (intro path_frame) (use assms(2,6) snoc in auto)
    then show ?thesis using p assms(4) snoc Cons by simp
  qed (use assms(4) snoc in simp)
  then show ?thesis using assms(5) snoc by simp
qed (use assms in simp)

lemma chain_splice_back_ok:
  assumes "chain h r xs" "chain h s ys" "set (r # xs) \<inter> set (s # ys) = {}"
  shows "\<exists>h'. chain_splice_back r s h = Inr h' \<and> relinks2 h r xs s ys h' (xs @ ys) []"
proof (cases "ys = []")
  case True
  then show ?thesis
    using assms chain_empty_ok [OF assms(2)] by (simp add: chain_splice_back_def relinks2_def)
next
  case False
  note c = chainD [OF assms(1)] and d = chainD [OF assms(2)]
  let ?tr = "last (r # xs)" and ?ts = "last (s # ys)" and ?f = "hd (ys @ [s])"
  have ts: "?ts \<in> set ys" "?ts = last ys" using False by auto
  have tr: "?tr \<in> set (r # xs)" by (rule last_in_set) simp
  have f: "?f = hd ys" using False by simp
  let ?n1 = "(hook_next h)(?ts \<mapsto> r)"
  let ?n2 = "?n1(?tr \<mapsto> ?f)"
  let ?n3 = "?n2(s \<mapsto> s)"
  have ne: "?tr \<noteq> ?ts" "s \<noteq> ?ts" "s \<noteq> ?tr" "s \<noteq> r"
    using ts tr assms(3) d(1) by auto
  have live: "hook_next h ?ts \<noteq> None" "?n1 ?tr \<noteq> None" "?n2 s \<noteq> None" "?n1 s = Some ?f"
    using c(5) [OF tr] d(5) [of ?ts] d(4) ts ne by auto
  have run: "chain_splice_back r s h = Inr (set_tail s s (set_tail r ?ts (h\<lparr>hook_next := ?n3\<rparr>)))"
    unfolding chain_splice_back_def chain_empty_ok [OF assms(2)] Let_def
    using False c(3) d(3) live
    by (simp only: hook_defs ebind_simps option.distinct if_False simp_thms) (simp add: hook_defs)
  have "path ?n1 r xs r" using c(2) ts assms(3) by (subst path_upd) auto
  then have "path ?n2 r xs (hd ys)" unfolding f by (rule path_last [OF c(1)])
  moreover have "s \<notin> set (r # xs)" using assms(3) by auto
  ultimately have p1: "path ?n3 r xs (hd ys)" by (subst path_upd)
  have p2: "path ?n3 (hd ys) (tl ys) r"
  proof -
    have hd_tl: "hd ys # tl ys = ys" using False by simp
    have "path (hook_next h) (hd ys) (tl ys) s" using d(2) False by (cases ys) auto
    then have "path ((hook_next h)(last (hd ys # tl ys) \<mapsto> r)) (hd ys) (tl ys) r"
      by (rule path_last [rotated]) (use d(1) hd_tl in simp)
    then have "path ?n1 (hd ys) (tl ys) r" unfolding hd_tl ts(2) .
    moreover have "?tr \<notin> set (hd ys # tl ys)" "s \<notin> set (hd ys # tl ys)"
      unfolding hd_tl using tr assms(3) d(1) by auto
    ultimately show ?thesis by (simp only: path_upd simp_thms)
  qed
  have p: "path ?n3 r (xs @ ys) r" using p1 p2 False path_append [of ?n3 r xs "hd ys" "tl ys" r] by simp
  have "chain (set_tail s s (set_tail r ?ts (h\<lparr>hook_next := ?n3\<rparr>))) r (xs @ ys)"
    using p ne(4) ts False c(1) d(1) assms(3) by (auto simp: chain_def set_tail_def)
  moreover have "chain (set_tail s s (set_tail r ?ts (h\<lparr>hook_next := ?n3\<rparr>))) s []"
    by (simp add: chain_def set_tail_def)
  ultimately show ?thesis
    using run ts tr live(1,2) d(5) [of s] c(5) [OF tr]
    by (auto simp: relinks2_def set_tail_def simp del: last.simps)
qed

lemma chain_swap_ok:
  assumes "chain h r xs" "chain h s ys" "set (r # xs) \<inter> set (s # ys) = {}"
  shows "\<exists>h'. chain_swap r s h = Inr h' \<and> relinks2 h r xs s ys h' ys xs"
proof -
  note c = chainD [OF assms(1)] and d = chainD [OF assms(2)]
  have ne: "r \<noteq> s" "r \<notin> set ys" "s \<notin> set xs" using assms(3) by auto
  let ?tr = "last (r # ys)" and ?ts = "last (s # xs)"
  let ?n = "(hook_next h)(r \<mapsto> hd (ys @ [r]), s \<mapsto> hd (xs @ [s]), ?tr \<mapsto> r, ?ts \<mapsto> s)"
  have firsts: "(if hd (ys @ [s]) = s then r else hd (ys @ [s])) = hd (ys @ [r])"
    "(if hd (xs @ [r]) = r then s else hd (xs @ [r])) = hd (xs @ [s])"
    using first_is_root [OF c(1)] first_is_root [OF d(1)] by (cases ys; auto)+
  have tails: "(if last (s # ys) = s then r else last (s # ys)) = ?tr"
    "(if last (r # xs) = r then s else last (r # xs)) = ?ts"
    using tail_is_root [OF c(1)] tail_is_root [OF d(1)] by auto
  have tin: "?tr \<in> set (r # ys)" "?ts \<in> set (s # xs)" by (rule last_in_set; simp)+
  have live: "hook_next h r \<noteq> None" "((hook_next h)(r \<mapsto> hd (ys @ [r]))) s \<noteq> None"
    "((hook_next h)(r \<mapsto> hd (ys @ [r]), s \<mapsto> hd (xs @ [s]))) ?tr \<noteq> None"
    "((hook_next h)(r \<mapsto> hd (ys @ [r]), s \<mapsto> hd (xs @ [s]), ?tr \<mapsto> r)) ?ts \<noteq> None"
    using c(5) d(5) tin by auto
  have run: "chain_swap r s h = Inr (set_tail s ?ts (set_tail r ?tr (h\<lparr>hook_next := ?n\<rparr>)))"
    unfolding chain_swap_def Let_def
    using c(3,4) d(3,4) live ne(1)
    by (simp only: hook_defs ebind_simps option.distinct if_False firsts tails fun_upd_same
        fun_upd_other [OF ne(1)]) (simp add: set_tail_def del: last.simps)
  have lasts: "xs \<noteq> [] \<Longrightarrow> last xs \<in> set xs" "ys \<noteq> [] \<Longrightarrow> last ys \<in> set ys"
    "xs \<noteq> [] \<Longrightarrow> last xs \<notin> set ys" "ys \<noteq> [] \<Longrightarrow> last ys \<notin> set xs"
    using assms(3) last_in_set by fastforce+
  have pr: "path ?n r ys r"
    by (rule path_rehome [OF d(2)]) (use ne c(1) d(1) assms(3) lasts in \<open>auto simp: fun_upd_def split: if_splits\<close>)
  have ps: "path ?n s xs s"
    by (rule path_rehome [OF c(2)]) (use ne c(1) d(1) assms(3) lasts in \<open>auto simp: fun_upd_def split: if_splits\<close>)
  have "\<And>a. ?n a \<noteq> None \<Longrightarrow> hook_next h a \<noteq> None"
    using live c(5) d(5) tin ne by (auto split: if_splits simp del: last.simps)
  moreover have "\<And>a. a \<notin> set (r # xs) \<union> set (s # ys) \<Longrightarrow> ?n a = hook_next h a"
    using tin by (auto simp del: last.simps)
  ultimately show ?thesis
    unfolding run relinks2_def using pr ps ne c(1) d(1) by (auto simp: chain_def set_tail_def)
qed

end
