(* ===== verification/Chain_Loops.thy ===== *)
theory Chain_Loops
  imports Chain_Ops
begin

text \<open>
  The loops of \<^verbatim>\<open>buffers_t\<close>: \<^verbatim>\<open>clear_and_dispose\<close> and \<^verbatim>\<open>clone_from\<close> end, because a chain is finite and
  is walked while it is taken apart or copied.
\<close>

text \<open>What is left of a chain when the nodes before have been disposed of.\<close>

fun trail :: "(nat \<Rightarrow> nat option) \<Rightarrow> nat list \<Rightarrow> nat \<Rightarrow> bool" where
  "trail nx [] b \<longleftrightarrow> True"
| "trail nx (x # xs) b \<longleftrightarrow> path nx x xs b"

lemma path_trail: "path nx a xs b \<Longrightarrow> trail nx xs b"
  by (cases xs) auto

definition without :: "nat list \<Rightarrow> hooks \<Rightarrow> hooks" where
  "without xs h = h\<lparr>hook_next := (\<lambda>a. if a \<in> set xs then None else hook_next h a)\<rparr>"

lemma clear_run:
  assumes "trail (hook_next h) xs r" "distinct xs" "r \<notin> set xs"
  shows "run (clear_round r) (hd (xs @ [r]), h) = Some (Inr (without xs h))"
  using assms
proof (induction xs arbitrary: h)
  case Nil
  have "clear_round r (r, h) = Inr (Inl h)" by (simp add: clear_round_def chain_end_def)
  then show ?case using run_simps(2) [of "clear_round r" "(r, h)" h] by (simp add: without_def)
next
  case (Cons x xs)
  let ?h = "h\<lparr>hook_next := (hook_next h)(x := None)\<rparr>"
  have p: "path (hook_next h) x xs r" using Cons.prems(1) by simp
  have x: "hook_next h x = Some (hd (xs @ [r]))" by (rule path_next [OF p])
  have "clear_round r (x, h) = Inr (Inr (hd (xs @ [r]), ?h))"
    using Cons.prems(3) x by (simp add: clear_round_def chain_end_def get_next_def hook_dispose_def)
  then have "run (clear_round r) (x, h) = run (clear_round r) (hd (xs @ [r]), ?h)"
    by (rule run_simps(3))
  also have "\<dots> = Some (Inr (without xs ?h))"
  proof (rule Cons.IH)
    show "trail (hook_next ?h) xs r"
    proof (cases xs)
      case (Cons y ys)
      have "path (hook_next ?h) y ys r = path (hook_next h) y ys r"
        by (rule path_frame) (use Cons.prems(2) Cons in auto)
      then show ?thesis using p Cons by simp
    qed simp
  qed (use Cons.prems in auto)
  also have "without xs ?h = without (x # xs) h" by (simp add: without_def fun_upd_def cong: if_cong) (rule arg_cong [where f = "\<lambda>f. h\<lparr>hook_next := f\<rparr>"], auto)
  finally show ?case by simp
qed

lemma chain_clear_ok:
  assumes "chain h r xs"
  shows "\<exists>h'. chain_clear r h = Some (Inr h') \<and> relinks h r xs h' [] \<and> (\<forall>a \<in> set xs. hook_next h' a = None)"
proof -
  note c = chainD [OF assms]
  have "run (clear_round r) (hd (xs @ [r]), h) = Some (Inr (without xs h))"
    by (rule clear_run) (use c(1,2) path_trail in auto)
  moreover have "hook_next (without xs h) r = hook_next h r" using c(1) by (simp add: without_def)
  ultimately have "chain_clear r h =
      Some (Inr (set_tail r r ((without xs h)\<lparr>hook_next := (hook_next (without xs h))(r \<mapsto> r)\<rparr>)))"
    using c(4) by (simp add: chain_clear_def chain_begin_def get_next_def set_next_def)
  then show ?thesis
    using c(1,4) by (auto simp: relinks_def chain_def without_def set_tail_def split: if_splits)
qed

text \<open>\<^verbatim>\<open>clone_from\<close>: fresh nodes, as many as the other list has.\<close>

lemma clone_run:
  assumes "chain h r ns" "chain h s (ms @ zs)" "set (r # ns) \<inter> set (s # ms @ zs) = {}"
    "\<And>a. hook_next h a \<noteq> None \<Longrightarrow> a < next_hook h"
  shows "\<exists>h'. run (clone_round r s) (hd (zs @ [s]), h) = Some (Inr h') \<and>
    chain h' r (ns @ [next_hook h..<next_hook h + length zs]) \<and> chain h' s (ms @ zs) \<and>
    (\<forall>a. a \<notin> set (r # ns) \<longrightarrow> a < next_hook h \<longrightarrow> hook_next h' a = hook_next h a) \<and>
    (\<forall>t. t \<noteq> r \<longrightarrow> list_tail h' t = list_tail h t) \<and>
    (\<forall>a. hook_next h' a \<noteq> None \<longrightarrow> a < next_hook h') \<and> next_hook h' = next_hook h + length zs"
  using assms
proof (induction zs arbitrary: h ns ms)
  case Nil
  have "clone_round r s (s, h) = Inr (Inl h)" by (simp add: clone_round_def chain_end_def)
  then show ?case
    using Nil run_simps(2) [of "clone_round r s" "(s, h)" h] by auto
next
  case (Cons z zs)
  note c = chainD [OF Cons.prems(1)] and d = chainD [OF Cons.prems(2)]
  let ?k = "next_hook h"
  have z: "hook_next h z = Some (hd (zs @ [s]))" using d(2) by (auto intro: path_next)
  have zs: "z \<noteq> s" using d(1) by auto
  define h1 where "h1 = h\<lparr>hook_next := (hook_next h)(?k \<mapsto> hd (zs @ [s])), next_hook := Suc ?k\<rparr>"
  have clone: "hook_clone z h = Inr (?k, h1)"
    using z by (simp add: hook_clone_def get_next_def h1_def)
  have below: "a < ?k" if "a \<in> set (r # ns) \<union> set (s # ms @ z # zs)" for a
    using that Cons.prems(4) c(5) d(5) by blast
  have k: "?k \<notin> set (r # ns)" "?k \<notin> set (s # ms @ z # zs)" using below by blast+
  have c1: "chain h1 r ns" "chain h1 s (ms @ z # zs)"
    using c(1-3) d(1-3) k by (simp_all add: chain_def h1_def)
  have "hook_next h1 ?k \<noteq> None" by (simp add: h1_def)
  from chain_push_back_ok [OF c1(1) k(1) this] obtain h2 where
    h2: "chain_push_back r ?k h1 = Inr h2" "relinks h1 r ns h2 (ns @ [?k])" by blast
  have same: "hook_next h2 a = hook_next h1 a" if "a \<in> set (s # ms @ z # zs)" for a
  proof -
    have "a \<notin> set (r # ns) \<union> set (ns @ [?k])" using that Cons.prems(3) k(2) by auto
    then show ?thesis using h2(2) unfolding relinks_def by blast
  qed
  have "path (hook_next h2) s (ms @ z # zs) s = path (hook_next h1) s (ms @ z # zs) s"
    by (rule path_frame) (rule same)
  then have c2: "chain h2 s ((ms @ [z]) @ zs)"
    using c1(2) h2(2) Cons.prems(3) by (simp add: chain_def relinks_def)
  have "get_next z h2 = Inr (hd (zs @ [s]))" using same [of z] z k by (auto simp: get_next_def h1_def)
  then have "clone_round r s (z, h) = Inr (Inr (hd (zs @ [s]), h2))"
    using zs by (simp add: clone_round_def chain_end_def clone h2(1))
  then have step: "run (clone_round r s) (z, h) = run (clone_round r s) (hd (zs @ [s]), h2)"
    by (rule run_simps(3))
  have n2: "next_hook h2 = Suc ?k" using h2(2) by (simp add: relinks_def h1_def)
  have live2: "a < next_hook h2" if "hook_next h2 a \<noteq> None" for a
    using that h2(2) Cons.prems(4) [of a] n2 unfolding relinks_def h1_def
    by (cases "a = ?k") (auto simp: less_Suc_eq)
  have "chain h2 r (ns @ [?k])" using h2(2) by (simp add: relinks_def)
  moreover have "set (r # ns @ [?k]) \<inter> set (s # (ms @ [z]) @ zs) = {}" using Cons.prems(3) k(2) by auto
  ultimately obtain h3 where
    h3: "run (clone_round r s) (hd (zs @ [s]), h2) = Some (Inr h3)"
      "chain h3 r ((ns @ [?k]) @ [Suc ?k..<Suc ?k + length zs])" "chain h3 s ((ms @ [z]) @ zs)"
      "\<And>a. a \<notin> set (r # ns @ [?k]) \<Longrightarrow> a < Suc ?k \<Longrightarrow> hook_next h3 a = hook_next h2 a"
      "\<And>t. t \<noteq> r \<Longrightarrow> list_tail h3 t = list_tail h2 t"
      "\<And>a. hook_next h3 a \<noteq> None \<Longrightarrow> a < next_hook h3" "next_hook h3 = Suc ?k + length zs"
    using Cons.IH [of h2 "ns @ [?k]" "ms @ [z]", OF _ c2 _ live2] unfolding n2 by blast
  have "ns @ [?k..<?k + length (z # zs)] = (ns @ [?k]) @ [Suc ?k..<Suc ?k + length zs]"
    using upt_conv_Cons [of ?k "?k + length (z # zs)"] by simp
  moreover have "hook_next h3 a = hook_next h a" if "a \<notin> set (r # ns)" "a < ?k" for a
    using h3(4) [of a] that h2(2) unfolding relinks_def h1_def by auto
  moreover have "list_tail h3 t = list_tail h t" if "t \<noteq> r" for t
    using h3(5) [OF that] h2(2) that unfolding relinks_def h1_def by auto
  ultimately show ?case
    using step h3(1-3,6,7) by (intro exI [of _ h3]) simp
qed

lemma chain_clone_from_ok:
  assumes rep: "represents h L" and L: "L r = Some xs" "L s = Some ys" "r \<noteq> s"
  shows "\<exists>h'. chain_clone_from r s h = Some (Inr h') \<and>
    represents h' (L(r \<mapsto> [next_hook h..<next_hook h + length ys])) \<and>
    next_hook h' = next_hook h + length ys \<and>
    (\<forall>a. unlinked L a \<longrightarrow> a < next_hook h \<longrightarrow> hook_next h' a = hook_next h a)"
proof -
  obtain h1 where h1: "chain_clear r h = Some (Inr h1)" "relinks h r xs h1 []"
    using chain_clear_ok [OF representsD(1) [OF rep L(1)]] by blast
  have rep1: "represents h1 (L(r \<mapsto> []))" by (rule represents_relinks [OF rep L(1) h1(2)]) simp
  have n1: "next_hook h1 = next_hook h" using h1(2) by (simp add: relinks_def)
  have s1: "(L(r \<mapsto> [])) s = Some ys" using L by simp
  have apart: "set [r] \<inter> set (s # [] @ ys) = {}"
    using separateD [OF representsD(3) [OF rep1] _ s1 L(3)] by simp
  have c1: "chain h1 r []" "chain h1 s ([] @ ys)" using representsD(1) [OF rep1] L s1 by auto
  obtain h2 where h2: "run (clone_round r s) (hd (ys @ [s]), h1) = Some (Inr h2)"
      "chain h2 r [next_hook h..<next_hook h + length ys]" "chain h2 s ys"
      "\<And>a. a \<noteq> r \<Longrightarrow> a < next_hook h \<Longrightarrow> hook_next h2 a = hook_next h1 a"
      "\<And>t. t \<noteq> r \<Longrightarrow> list_tail h2 t = list_tail h1 t"
      "\<And>a. hook_next h2 a \<noteq> None \<Longrightarrow> a < next_hook h2" "next_hook h2 = next_hook h + length ys"
    using clone_run [OF c1 apart representsD(2) [OF rep1]] n1 by auto
  have first: "chain_begin s h1 = Inr (hd (ys @ [s]))"
    using chainD(4) [OF c1(2)] by (simp add: chain_begin_def get_next_def)
  have old: "a < next_hook h" if "a \<in> hooks_of (L(r \<mapsto> [])) t" for a t
  proof -
    have "\<exists>zs. (L(r \<mapsto> [])) t = Some zs \<and> a \<in> set (t # zs)"
      using that by (auto simp: hooks_of_def split: option.splits)
    then show ?thesis using chainD(5) [OF representsD(1) [OF rep1]] representsD(2) [OF rep1] n1 by metis
  qed
  have "unlinked (L(r \<mapsto> [])) a" if "next_hook h \<le> a" for a
    using old [of a] that leD unfolding unlinked_def by blast
  then have sub: "set [next_hook h..<next_hook h + length ys] \<subseteq> set [] \<union> {a. unlinked (L(r \<mapsto> [])) a}"
    by auto
  have "separate ((L(r \<mapsto> []))(r \<mapsto> [next_hook h..<next_hook h + length ys]))"
    by (rule separate_upd [OF representsD(3) [OF rep1] _ sub]) simp
  then have "represents h2 ((L(r \<mapsto> []))(r \<mapsto> [next_hook h..<next_hook h + length ys]))"
  proof (rule represents_frame [OF rep1, where D = "{r}", rotated])
    fix t zs a assume t: "t \<notin> {r}" "(L(r \<mapsto> [])) t = Some zs" "a \<in> set (t # zs)"
    then have "a \<in> hooks_of (L(r \<mapsto> [])) t" by simp
    moreover have "a \<noteq> r" using separateD [OF representsD(3) [OF rep1] _ t(2), of r "[]"] t by auto
    ultimately show "hook_next h2 a = hook_next h1 a" using h2(4) old by blast
  qed (use h2 in auto)
  moreover have "hook_next h2 a = hook_next h a" if "unlinked L a" "a < next_hook h" for a
  proof -
    have "a \<notin> set (r # xs)" using that(1) L(1) unfolding unlinked_def by (metis hooks_of_simps(1))
    then show ?thesis using h2(4) [OF _ that(2)] h1(2) unfolding relinks_def by auto
  qed
  ultimately show ?thesis
    using h1(1) first h2(1,7) by (intro exI [of _ h2]) (simp add: chain_clone_from_def)
qed

end
