(* ===== verification/Chain_Props.thy ===== *)
theory Chain_Props
  imports Chain_Loops
begin

text \<open>
  The intrusive list refines sequences: any program over its operations, run on the pointers,
  does what the same program does on finite sequences of nodes.
\<close>

subsection \<open>Programs over the operations\<close>

text \<open>
  Positions are iterators: \<open>n\<close> steps of \<^verbatim>\<open>operator++\<close> from \<^verbatim>\<open>before_begin\<close>. \<open>Make_node\<close> is
  \<^verbatim>\<open>new ptr_node\<close>, whose hook points to null.
\<close>

fun chain_walk :: "nat \<Rightarrow> nat \<Rightarrow> hooks \<Rightarrow> exn + nat" where
  "chain_walk 0 it h = Inr it"
| "chain_walk (Suc n) it h = ebind (get_next it h) (\<lambda>it. chain_walk n it h)"

definition hook_create :: "hooks \<Rightarrow> hooks" where
  "hook_create h = h\<lparr>hook_next := (hook_next h)(next_hook h \<mapsto> 0), next_hook := Suc (next_hook h)\<rparr>"

datatype chain_op =
    Make_node
  | Dispose nat
  | Make_list nat
  | Move_list nat nat
  | Move_assign nat nat
  | Push_back nat nat
  | Push_front nat nat
  | Insert_after nat nat nat
  | Erase_after nat nat
  | Erase_after_and_dispose nat nat
  | Swap nat nat
  | Splice_back nat nat
  | Clear nat
  | Clone_from nat nat

fun chain_step :: "chain_op \<Rightarrow> hooks \<Rightarrow> (exn + hooks) option" where
  "chain_step Make_node h = Some (Inr (hook_create h))"
| "chain_step (Dispose a) h = Some (hook_dispose a h)"
| "chain_step (Make_list r) h = Some (Inr (chain_new r h))"
| "chain_step (Move_list r s) h = Some (chain_move r s h)"
| "chain_step (Move_assign r s) h = chain_assign_move r s h"
| "chain_step (Push_back r a) h = Some (chain_push_back r a h)"
| "chain_step (Push_front r a) h = Some (chain_push_front r a h)"
| "chain_step (Insert_after r n a) h =
    Some (ebind (chain_walk n (chain_before_begin r) h) (\<lambda>it. chain_insert_after r it a h))"
| "chain_step (Erase_after r n) h =
    Some (ebind (chain_walk n (chain_before_begin r) h) (\<lambda>it.
      ebind (chain_erase_after r it h) (\<lambda>(_, h). Inr h)))"
| "chain_step (Erase_after_and_dispose r n) h =
    Some (ebind (chain_walk n (chain_before_begin r) h) (\<lambda>it.
      ebind (chain_erase_after_and_dispose r it h) (\<lambda>(_, h). Inr h)))"
| "chain_step (Swap r s) h = Some (chain_swap r s h)"
| "chain_step (Splice_back r s) h = Some (chain_splice_back r s h)"
| "chain_step (Clear r) h = chain_clear r h"
| "chain_step (Clone_from r s) h = chain_clone_from r s h"

fun chain_run :: "chain_op list \<Rightarrow> hooks \<Rightarrow> (exn + hooks) option" where
  "chain_run [] h = Some (Inr h)"
| "chain_run (c # cs) h = rbind (chain_step c h) (chain_run cs)"

subsection \<open>The same on sequences\<close>

text \<open>
  The lists as sequences, the live nodes that are in none of them, and the next node to be
  allocated. A step is \<open>None\<close> where the operation may not be called.
\<close>

record seqs =
  nodes_of :: "nat \<Rightarrow> nat list option"
  loose :: "nat set"
  fresh :: nat

definition on_list :: "nat \<Rightarrow> seqs \<Rightarrow> (nat list \<Rightarrow> seqs option) \<Rightarrow> seqs option" where
  "on_list r s f = (case nodes_of s r of None \<Rightarrow> None | Some xs \<Rightarrow> f xs)"

definition put_list :: "nat \<Rightarrow> nat list \<Rightarrow> seqs \<Rightarrow> seqs" where
  "put_list r xs s = s\<lparr>nodes_of := (nodes_of s)(r \<mapsto> xs)\<rparr>"

fun seq_step :: "chain_op \<Rightarrow> seqs \<Rightarrow> seqs option" where
  "seq_step Make_node s = Some (s\<lparr>loose := insert (fresh s) (loose s), fresh := Suc (fresh s)\<rparr>)"
| "seq_step (Dispose a) s = (if a \<in> loose s then Some (s\<lparr>loose := loose s - {a}\<rparr>) else None)"
| "seq_step (Make_list r) s =
    (if r \<in> loose s then Some (put_list r [] (s\<lparr>loose := loose s - {r}\<rparr>)) else None)"
| "seq_step (Move_list r q) s =
    (if r \<in> loose s
     then on_list q s (\<lambda>ys. Some (put_list q [] (put_list r ys (s\<lparr>loose := loose s - {r}\<rparr>))))
     else None)"
| "seq_step (Move_assign r q) s =
    on_list r s (\<lambda>xs. on_list q s (\<lambda>ys.
      if r = q then Some s else Some (put_list q [] (put_list r ys s))))"
| "seq_step (Push_back r a) s =
    on_list r s (\<lambda>xs. if a \<in> loose s then Some (put_list r (xs @ [a]) (s\<lparr>loose := loose s - {a}\<rparr>)) else None)"
| "seq_step (Push_front r a) s =
    on_list r s (\<lambda>xs. if a \<in> loose s then Some (put_list r (a # xs) (s\<lparr>loose := loose s - {a}\<rparr>)) else None)"
| "seq_step (Insert_after r n a) s =
    on_list r s (\<lambda>xs.
      if a \<in> loose s \<and> n \<le> length xs
      then Some (put_list r (take n xs @ a # drop n xs) (s\<lparr>loose := loose s - {a}\<rparr>)) else None)"
| "seq_step (Erase_after r n) s =
    on_list r s (\<lambda>xs.
      if n < length xs
      then Some (put_list r (take n xs @ drop (Suc n) xs) (s\<lparr>loose := insert (xs ! n) (loose s)\<rparr>)) else None)"
| "seq_step (Erase_after_and_dispose r n) s =
    on_list r s (\<lambda>xs. if n < length xs then Some (put_list r (take n xs @ drop (Suc n) xs) s) else None)"
| "seq_step (Swap r q) s =
    on_list r s (\<lambda>xs. on_list q s (\<lambda>ys. if r \<noteq> q then Some (put_list q xs (put_list r ys s)) else None))"
| "seq_step (Splice_back r q) s =
    on_list r s (\<lambda>xs. on_list q s (\<lambda>ys.
      if r \<noteq> q then Some (put_list q [] (put_list r (xs @ ys) s)) else None))"
| "seq_step (Clear r) s = on_list r s (\<lambda>xs. Some (put_list r [] s))"
| "seq_step (Clone_from r q) s =
    on_list r s (\<lambda>xs. on_list q s (\<lambda>ys.
      if r \<noteq> q
      then Some (put_list r [fresh s..<fresh s + length ys] (s\<lparr>fresh := fresh s + length ys\<rparr>)) else None))"

fun seq_run :: "chain_op list \<Rightarrow> seqs \<Rightarrow> seqs option" where
  "seq_run [] s = Some s"
| "seq_run (c # cs) s = (case seq_step c s of None \<Rightarrow> None | Some s \<Rightarrow> seq_run cs s)"

text \<open>The relation between the two.\<close>

definition refines :: "hooks \<Rightarrow> seqs \<Rightarrow> bool" where
  "refines h s \<longleftrightarrow> represents h (nodes_of s) \<and> next_hook h = fresh s \<and>
     (\<forall>a \<in> loose s. hook_next h a \<noteq> None \<and> unlinked (nodes_of s) a)"

subsection \<open>One step\<close>

lemma refinesD:
  assumes "refines h s"
  shows "represents h (nodes_of s)" "next_hook h = fresh s" "a \<in> loose s \<Longrightarrow> hook_next h a \<noteq> None"
    "a \<in> loose s \<Longrightarrow> unlinked (nodes_of s) a" "a \<in> loose s \<Longrightarrow> a < fresh s"
  using assms by (auto simp: refines_def represents_def)

lemma unlinked_upd: "unlinked (L(r \<mapsto> xs)) a \<longleftrightarrow> (\<forall>t. t \<noteq> r \<longrightarrow> a \<notin> hooks_of L t) \<and> a \<notin> set (r # xs)"
  unfolding unlinked_def hooks_of_simps(2) by auto

lemma unlinked_not_in: "unlinked L a \<Longrightarrow> L r = Some xs \<Longrightarrow> a \<notin> set (r # xs)"
  unfolding unlinked_def by (metis hooks_of_simps(1))

lemma refines_relinks:
  assumes ref: "refines h s" and L: "nodes_of s r = Some xs" and rel: "relinks h r xs h' xs'"
    and sub: "set xs' \<subseteq> set xs \<union> loose s" and G: "G \<subseteq> loose s \<union> set xs" "G \<inter> set xs' = {}"
    and live: "\<And>a. a \<in> G \<Longrightarrow> a \<in> set xs \<Longrightarrow> hook_next h' a \<noteq> None"
  shows "refines h' (put_list r xs' (s\<lparr>loose := G\<rparr>))"
proof -
  note f = refinesD [OF ref]
  have "set xs' \<subseteq> set xs \<union> {a. unlinked (nodes_of s) a}" using sub f(4) by auto
  then have rep: "represents h' ((nodes_of s)(r \<mapsto> xs'))" by (rule represents_relinks [OF f(1) L rel])
  have "hook_next h' a \<noteq> None \<and> unlinked ((nodes_of s)(r \<mapsto> xs')) a" if "a \<in> G" for a
  proof (cases "a \<in> set xs")
    case True
    have "a \<noteq> r" using True chainD(1) [OF representsD(1) [OF f(1) L]] by auto
    moreover have "a \<notin> hooks_of (nodes_of s) t" if "t \<noteq> r" for t
      using representsD(3) [OF f(1)] True L that unfolding separate_def
      by (metis hooks_of_simps(1) list.set_intros(2))
    ultimately show ?thesis using that live True G(2) by (auto simp: unlinked_upd)
  next
    case False
    then have a: "a \<in> loose s" using that G(1) by auto
    have "a \<notin> set (r # xs)" by (rule unlinked_not_in [OF f(4) [OF a] L])
    then have "hook_next h' a = hook_next h a"
      using rel that G(2) unfolding relinks_def by auto
    then show ?thesis
      using f(3) [OF a] f(4) [OF a] \<open>a \<notin> set (r # xs)\<close> that G(2) by (auto simp: unlinked_upd) (auto simp: unlinked_def)
  qed
  then show ?thesis
    using rep rel f(2) by (simp add: refines_def put_list_def relinks_def)
qed

lemma refines_relinks2:
  assumes ref: "refines h s" and L: "nodes_of s r = Some xs" "nodes_of s q = Some ys" "r \<noteq> q"
    and rel: "relinks2 h r xs q ys h' xs' ys'"
    and sub: "set xs' \<union> set ys' \<subseteq> set xs \<union> set ys" "set xs' \<inter> set ys' = {}"
  shows "refines h' (put_list q ys' (put_list r xs' s))"
proof -
  note f = refinesD [OF ref]
  have rep: "represents h' ((nodes_of s)(r \<mapsto> xs', q \<mapsto> ys'))"
    by (rule represents_relinks2 [OF f(1) L rel sub])
  have "hook_next h' a \<noteq> None \<and> unlinked ((nodes_of s)(r \<mapsto> xs', q \<mapsto> ys')) a" if a: "a \<in> loose s" for a
  proof -
    have n: "a \<notin> set (r # xs)" "a \<notin> set (q # ys)"
      using unlinked_not_in [OF f(4) [OF a]] L by blast+
    then have "hook_next h' a = hook_next h a" using rel unfolding relinks2_def by blast
    then show ?thesis using f(3,4) [OF a] n sub by (auto simp: unlinked_upd) (auto simp: unlinked_def)
  qed
  then show ?thesis using rep rel f(2) by (simp add: refines_def put_list_def relinks2_def)
qed

lemma chain_walk_ok:
  assumes "path (hook_next h) a xs b" "n \<le> length xs"
  shows "chain_walk n a h = Inr (last (a # take n xs))"
  using assms
proof (induction n arbitrary: a xs)
  case (Suc n)
  then obtain x ys where "xs = x # ys" by (cases xs) auto
  then show ?case using Suc.IH [of x ys] Suc.prems by (simp add: get_next_def)
qed simp

lemma refines_new_list:
  assumes ref: "refines h s" and r: "r \<in> loose s"
  shows "refines (chain_new r h) (put_list r [] (s\<lparr>loose := loose s - {r}\<rparr>))"
proof -
  note f = refinesD [OF ref]
  have u: "unlinked (nodes_of s) r" by (rule f(4) [OF r])
  have "represents (chain_new r h) ((nodes_of s)(r \<mapsto> []))"
  proof (rule represents_frame [OF f(1), where D = "{r}"])
    show "separate ((nodes_of s)(r \<mapsto> []))"
      using representsD(3) [OF f(1)] u unfolding separate_def unlinked_def by auto
    fix t xs a assume "t \<notin> {r}" "nodes_of s t = Some xs" "a \<in> set (t # xs)"
    then have "a \<noteq> r" using unlinked_not_in [OF u] by blast
    then show "hook_next (chain_new r h) a = hook_next h a" by (simp add: chain_new_def set_tail_def)
  next
    fix a assume "hook_next (chain_new r h) a \<noteq> None"
    then show "a < next_hook (chain_new r h)"
      using f(2) f(5) [OF r] representsD(2) [OF f(1), of a] by (auto simp: chain_new_def set_tail_def split: if_splits)
  qed (auto simp: chain_new_def set_tail_def chain_def)
  then show ?thesis
    using f(2-4) by (auto simp: refines_def put_list_def chain_new_def set_tail_def unlinked_def)
qed

lemma chain_move_ok:
  assumes "chain h q ys" "r \<notin> set (q # ys)" "hook_next h r \<noteq> None"
  shows "\<exists>h'. chain_move r q h = Inr h' \<and> relinks2 (chain_new r h) r [] q ys h' ys []"
proof -
  note d = chainD [OF assms(1)]
  let ?t = "last (r # ys)"
  let ?n = "(hook_next h)(r \<mapsto> hd (ys @ [r]), q \<mapsto> q, ?t \<mapsto> r)"
  have ne: "r \<noteq> q" "r \<notin> set ys" "q \<notin> set ys" using assms(2) d(1) by auto
  have first: "(if hd (ys @ [q]) = q then r else hd (ys @ [q])) = hd (ys @ [r])"
    using first_is_root [OF d(1)] by (cases ys) auto
  have t: "(if last (q # ys) = q then r else last (q # ys)) = ?t"
    using tail_is_root [OF d(1)] by auto
  have tin: "?t \<in> set (r # ys)" by (rule last_in_set) simp
  then have tq: "?t \<noteq> q" using ne by auto
  have live: "((hook_next h)(r \<mapsto> hd (ys @ [r]))) q \<noteq> None" "((hook_next h)(r \<mapsto> hd (ys @ [r]), q \<mapsto> q)) ?t \<noteq> None"
    using d(5) tin ne tq by auto
  have run: "chain_move r q h = Inr (set_tail q q (set_tail r ?t (h\<lparr>hook_next := ?n\<rparr>)))"
    unfolding chain_move_def Let_def
    using d(3,4) live
    by (simp only: hook_defs ebind_simps option.distinct if_False first t) (simp add: set_tail_def del: last.simps)
  have lasts: "ys \<noteq> [] \<Longrightarrow> last ys \<in> set ys" by simp
  have "path ?n r ys r"
    by (rule path_rehome [OF d(2)]) (use ne d(1) lasts in \<open>auto simp: fun_upd_def split: if_splits\<close>)
  then show ?thesis
    unfolding run relinks2_def using ne d(1,5) tin tq
    by (auto simp: chain_def set_tail_def chain_new_def split: if_splits)
qed

lemma chain_assign_move_ok:
  assumes ref: "refines h s" and L: "nodes_of s r = Some xs" "nodes_of s q = Some ys" "r \<noteq> q"
  shows "\<exists>h'. chain_assign_move r q h = Some (Inr h') \<and> refines h' (put_list q [] (put_list r ys s))"
proof -
  obtain h1 where h1: "chain_clear r h = Some (Inr h1)" "relinks h r xs h1 []"
    using chain_clear_ok [OF representsD(1) [OF refinesD(1) [OF ref] L(1)]] by blast
  have "loose s \<inter> set xs = {}"
    using refinesD(4) [OF ref] unlinked_not_in [of "nodes_of s" _ r xs] L(1) by fastforce
  then have r1: "refines h1 (put_list r [] (s\<lparr>loose := loose s\<rparr>))"
    by (intro refines_relinks [OF ref L(1) h1(2)]) auto
  let ?s = "put_list r [] s"
  have r1': "refines h1 ?s" using r1 by simp
  have L1: "nodes_of ?s r = Some []" "nodes_of ?s q = Some ys" using L by (simp_all add: put_list_def)
  note rep = refinesD(1) [OF r1']
  obtain h2 where h2: "chain_swap r q h1 = Inr h2" "relinks2 h1 r [] q ys h2 ys []"
    using chain_swap_ok [OF representsD(1) [OF rep L1(1)] representsD(1) [OF rep L1(2)]
      separateD [OF representsD(3) [OF rep] L1 L(3)]] by blast
  have "refines h2 (put_list q [] (put_list r ys ?s))"
    by (rule refines_relinks2 [OF r1' L1 L(3) h2(2)]) auto
  moreover have "put_list q [] (put_list r ys ?s) = put_list q [] (put_list r ys s)"
    using L(3) by (simp add: put_list_def fun_upd_twist)
  ultimately show ?thesis using h1(1) h2(1) L(3) by (simp add: chain_assign_move_def)
qed

lemma on_listE:
  assumes "on_list r s f = Some t"
  obtains xs where "nodes_of s r = Some xs" "f xs = Some t"
  using assms by (auto simp: on_list_def split: option.splits)

lemma loose_apart:
  assumes "refines h s" "nodes_of s r = Some xs"
  shows "loose s \<inter> set (r # xs) = {}"
  using refinesD(4) [OF assms(1)] unlinked_not_in [of "nodes_of s" _ r xs] assms(2) by blast

lemma link_loose:
  assumes ref: "refines h s" and L: "nodes_of s r = Some xs" and a: "a \<in> loose s"
    and rel: "relinks h r xs h' xs'" "set xs' = insert a (set xs)"
  shows "refines h' (put_list r xs' (s\<lparr>loose := loose s - {a}\<rparr>))"
  by (rule refines_relinks [OF ref L rel(1)]) (use loose_apart [OF ref L] a rel(2) in auto)

lemma chain_erase_nth:
  assumes "chain h r xs" "n < length xs"
  shows "\<exists>h'. chain_erase_after r (last (r # take n xs)) h = Inr (hd (drop (Suc n) xs @ [r]), h') \<and>
    relinks h r xs h' (take n xs @ drop (Suc n) xs) \<and> hook_next h' (xs ! n) = hook_next h (xs ! n)"
  using chain_erase_after_ok [of h r "take n xs" "xs ! n" "drop (Suc n) xs"] assms
  by (simp only: id_take_nth_drop [symmetric])

lemma erased_out:
  assumes "distinct xs" "n < length xs"
  shows "xs ! n \<notin> set (take n xs @ drop (Suc n) xs)" "set (take n xs @ drop (Suc n) xs) \<subseteq> set xs"
proof -
  show "xs ! n \<notin> set (take n xs @ drop (Suc n) xs)"
    using assms(1) id_take_nth_drop [OF assms(2)] by (metis distinct_append distinct.simps(2) Un_iff set_append
      disjoint_iff list.set_intros(1))
qed (auto dest: in_set_takeD in_set_dropD)

lemma erase_dispose_ok:
  assumes "chain h r xs" "n < length xs"
  shows "\<exists>h'. chain_erase_after_and_dispose r (last (r # take n xs)) h = Inr (hd (drop (Suc n) xs @ [r]), h') \<and>
    relinks h r xs h' (take n xs @ drop (Suc n) xs)"
proof -
  let ?it = "last (r # take n xs)" and ?y = "xs ! n" and ?zs = "take n xs @ drop (Suc n) xs"
  note c = chainD [OF assms(1)]
  obtain h1 where h1: "chain_erase_after r ?it h = Inr (hd (drop (Suc n) xs @ [r]), h1)" "relinks h r xs h1 ?zs"
      "hook_next h1 ?y = hook_next h ?y"
    using chain_erase_nth [OF assms] by blast
  have it: "get_next ?it h = Inr ?y"
    using path_next [OF path_split [of "hook_next h" r "take n xs" "drop n xs" r]] c(2)
      Cons_nth_drop_Suc [OF assms(2)] by (simp add: get_next_def) (metis list.sel(1) append_Cons)
  have y: "hook_next h1 ?y \<noteq> None" using h1(3) c(5) [of ?y] assms(2) by simp
  have out: "?y \<notin> set (r # ?zs)" using erased_out [of xs n] c(1) assms(2) by auto
  let ?h = "h1\<lparr>hook_next := (hook_next h1)(?y := None)\<rparr>"
  have "path (hook_next ?h) r ?zs r = path (hook_next h1) r ?zs r"
    by (rule path_frame) (use out in auto)
  then have "relinks h r xs ?h ?zs"
    using h1(2) assms(2) by (auto simp: relinks_def chain_def)
  then show ?thesis
    using h1(1) it y by (auto simp: chain_erase_after_and_dispose_def hook_dispose_def)
qed

lemma lists_apart:
  assumes "refines h s" "r \<noteq> q" "nodes_of s r = Some xs" "nodes_of s q = Some ys"
  shows "set (r # xs) \<inter> set (q # ys) = {}"
  using separateD [OF representsD(3) [OF refinesD(1) [OF assms(1)]] assms(3,4,2)] .

lemma sim_make_node:
  assumes ref: "refines h s" and step: "seq_step Make_node s = Some s'"
  shows "\<exists>h'. chain_step Make_node h = Some (Inr h') \<and> refines h' s'"
proof -
  note f = refinesD [OF ref] and ch = representsD(1) [OF refinesD(1) [OF ref]]
  have u: "unlinked (nodes_of s) (fresh s)"
  proof (unfold unlinked_def, intro allI notI)
    fix r assume "fresh s \<in> hooks_of (nodes_of s) r"
    then obtain xs where "nodes_of s r = Some xs" "fresh s \<in> set (r # xs)"
      by (auto simp: hooks_of_def split: option.splits)
    then show False using chainD(5) [OF ch] representsD(2) [OF f(1)] f(2) by (metis less_irrefl)
  qed
  have "represents (hook_create h) (nodes_of s)"
  proof (rule represents_frame [OF f(1), where D = "{}"])
    fix r xs a assume "nodes_of s r = Some xs" "a \<in> set (r # xs)"
    then have "a \<noteq> next_hook h" using unlinked_not_in [OF u, of r xs] f(2) by auto
    then show "hook_next (hook_create h) a = hook_next h a" by (simp add: hook_create_def)
  qed (use representsD(2,3) [OF f(1)] in \<open>auto simp: hook_create_def less_SucI split: if_splits\<close>)
  then show ?thesis using step f(2-4) u by (auto simp: refines_def hook_create_def)
qed

lemma sim_dispose:
  assumes ref: "refines h s" and step: "seq_step (Dispose a) s = Some s'"
  shows "\<exists>h'. chain_step (Dispose a) h = Some (Inr h') \<and> refines h' s'"
proof -
  note f = refinesD [OF ref] and ch = representsD(1) [OF refinesD(1) [OF ref]]
  then have a: "a \<in> loose s" "s' = s\<lparr>loose := loose s - {a}\<rparr>" using step by (auto split: if_splits)
  let ?h = "h\<lparr>hook_next := (hook_next h)(a := None)\<rparr>"
  have "represents ?h (nodes_of s)"
  proof (rule represents_frame [OF f(1), where D = "{}"])
    fix r xs b assume "nodes_of s r = Some xs" "b \<in> set (r # xs)"
    then have "b \<noteq> a" using unlinked_not_in [OF f(4) [OF a(1)], of r xs] by auto
    then show "hook_next ?h b = hook_next h b" by simp
  qed (use representsD(2,3) [OF f(1)] in \<open>auto split: if_splits\<close>)
  then show ?thesis using a f(2-4) by (auto simp: refines_def hook_dispose_def)
qed

lemma sim_make_list:
  assumes ref: "refines h s" and step: "seq_step (Make_list r) s = Some s'"
  shows "\<exists>h'. chain_step (Make_list r) h = Some (Inr h') \<and> refines h' s'"
proof -
  note f = refinesD [OF ref] and ch = representsD(1) [OF refinesD(1) [OF ref]]
  then show ?thesis using step refines_new_list [OF ref] by (auto split: if_splits)
qed

lemma sim_move_list:
  assumes ref: "refines h s" and step: "seq_step (Move_list r q) s = Some s'"
  shows "\<exists>h'. chain_step (Move_list r q) h = Some (Inr h') \<and> refines h' s'"
proof -
  note f = refinesD [OF ref] and ch = representsD(1) [OF refinesD(1) [OF ref]]
  then have r: "r \<in> loose s" using step by (auto split: if_splits)
  then obtain ys where ys: "nodes_of s q = Some ys"
      "s' = put_list q [] (put_list r ys (s\<lparr>loose := loose s - {r}\<rparr>))"
    using step by (auto elim!: on_listE)
  have rn: "r \<notin> set (q # ys)" using loose_apart [OF ref ys(1)] r by auto
  let ?s = "put_list r [] (s\<lparr>loose := loose s - {r}\<rparr>)"
  obtain h' where h': "chain_move r q h = Inr h'" "relinks2 (chain_new r h) r [] q ys h' ys []"
    using chain_move_ok [OF ch [OF ys(1)] rn f(3) [OF r]] by blast
  have "refines h' (put_list q [] (put_list r ys ?s))"
    by (rule refines_relinks2 [OF refines_new_list [OF ref r] _ _ _ h'(2)])
      (use ys(1) rn in \<open>auto simp: put_list_def\<close>)
  moreover have "put_list q [] (put_list r ys ?s) = s'" using ys(2) by (simp add: put_list_def)
  ultimately show ?thesis using h'(1) by simp
qed

lemma sim_move_assign:
  assumes ref: "refines h s" and step: "seq_step (Move_assign r q) s = Some s'"
  shows "\<exists>h'. chain_step (Move_assign r q) h = Some (Inr h') \<and> refines h' s'"
proof -
  note f = refinesD [OF ref] and ch = representsD(1) [OF refinesD(1) [OF ref]]
  then show ?thesis
    using step ref chain_assign_move_ok [OF ref, of r _ q]
    by (auto elim!: on_listE simp: chain_assign_move_def split: if_splits)
qed

lemma sim_push_back:
  assumes ref: "refines h s" and step: "seq_step (Push_back r a) s = Some s'"
  shows "\<exists>h'. chain_step (Push_back r a) h = Some (Inr h') \<and> refines h' s'"
proof -
  note f = refinesD [OF ref] and ch = representsD(1) [OF refinesD(1) [OF ref]]
  then obtain xs where xs: "nodes_of s r = Some xs" "a \<in> loose s"
      "s' = put_list r (xs @ [a]) (s\<lparr>loose := loose s - {a}\<rparr>)"
    using step by (auto elim!: on_listE split: if_splits)
  have "a \<notin> set (r # xs)" using loose_apart [OF ref xs(1)] xs(2) by auto
  then obtain h' where h': "chain_push_back r a h = Inr h'" "relinks h r xs h' (xs @ [a])"
    using chain_push_back_ok [OF ch [OF xs(1)] _ f(3) [OF xs(2)]] by blast
  then show ?thesis using xs(3) link_loose [OF ref xs(1,2) h'(2)] by auto
qed

lemma sim_push_front:
  assumes ref: "refines h s" and step: "seq_step (Push_front r a) s = Some s'"
  shows "\<exists>h'. chain_step (Push_front r a) h = Some (Inr h') \<and> refines h' s'"
proof -
  note f = refinesD [OF ref] and ch = representsD(1) [OF refinesD(1) [OF ref]]
  then obtain xs where xs: "nodes_of s r = Some xs" "a \<in> loose s"
      "s' = put_list r (a # xs) (s\<lparr>loose := loose s - {a}\<rparr>)"
    using step by (auto elim!: on_listE split: if_splits)
  have "a \<notin> set (r # xs)" using loose_apart [OF ref xs(1)] xs(2) by auto
  then obtain h' where h': "chain_push_front r a h = Inr h'" "relinks h r xs h' (a # xs)"
    using chain_push_front_ok [OF ch [OF xs(1)] _ f(3) [OF xs(2)]] by blast
  then show ?thesis using xs(3) link_loose [OF ref xs(1,2) h'(2)] by auto
qed

lemma sim_insert_after:
  assumes ref: "refines h s" and step: "seq_step (Insert_after r n a) s = Some s'"
  shows "\<exists>h'. chain_step (Insert_after r n a) h = Some (Inr h') \<and> refines h' s'"
proof -
  note f = refinesD [OF ref] and ch = representsD(1) [OF refinesD(1) [OF ref]]
  then obtain xs where xs: "nodes_of s r = Some xs" "a \<in> loose s" "n \<le> length xs"
      "s' = put_list r (take n xs @ a # drop n xs) (s\<lparr>loose := loose s - {a}\<rparr>)"
    using step by (auto elim!: on_listE split: if_splits)
  have "a \<notin> set (r # take n xs @ drop n xs)" using loose_apart [OF ref xs(1)] xs(2) by auto
  then obtain h' where h': "chain_insert_after r (last (r # take n xs)) a h = Inr h'"
      "relinks h r xs h' (take n xs @ a # drop n xs)"
    using chain_insert_after_ok [of h r "take n xs" "drop n xs" "last (r # take n xs)" a] ch [OF xs(1)] f(3) [OF xs(2)]
    by auto
  have "set (take n xs @ a # drop n xs) = insert a (set xs)"
    by (metis append_take_drop_id list.simps(15) set_append Un_insert_right)
  then show ?thesis
    using xs(4) link_loose [OF ref xs(1,2) h'(2)] h'(1)
      chain_walk_ok [OF chainD(2) [OF ch [OF xs(1)]] xs(3)] by (simp add: chain_before_begin_def)
qed

lemma sim_erase_after:
  assumes ref: "refines h s" and step: "seq_step (Erase_after r n) s = Some s'"
  shows "\<exists>h'. chain_step (Erase_after r n) h = Some (Inr h') \<and> refines h' s'"
proof -
  note f = refinesD [OF ref] and ch = representsD(1) [OF refinesD(1) [OF ref]]
  then obtain xs where xs: "nodes_of s r = Some xs" "n < length xs"
      "s' = put_list r (take n xs @ drop (Suc n) xs) (s\<lparr>loose := insert (xs ! n) (loose s)\<rparr>)"
    using step by (auto elim!: on_listE split: if_splits)
  note c = ch [OF xs(1)]
  obtain h' where h': "chain_erase_after r (last (r # take n xs)) h = Inr (hd (drop (Suc n) xs @ [r]), h')"
      "relinks h r xs h' (take n xs @ drop (Suc n) xs)" "hook_next h' (xs ! n) = hook_next h (xs ! n)"
    using chain_erase_nth [OF c xs(2)] by blast
  have out: "xs ! n \<notin> set (take n xs @ drop (Suc n) xs)" "set (take n xs @ drop (Suc n) xs) \<subseteq> set xs"
    using erased_out [of xs n] chainD(1) [OF c] xs(2) by auto
  have "xs ! n \<in> set xs" using xs(2) by simp
  then have live: "hook_next h' (xs ! n) \<noteq> None" using h'(3) chainD(5) [OF c] by simp
  have "refines h' s'"
    unfolding xs(3)
    by (rule refines_relinks [OF ref xs(1) h'(2)])
      (use out loose_apart [OF ref xs(1)] live \<open>xs ! n \<in> set xs\<close> in auto)
  then show ?thesis
    using h'(1) chain_walk_ok [OF chainD(2) [OF c], of n] xs(2) by (simp add: chain_before_begin_def)
qed

lemma sim_erase_after_and_dispose:
  assumes ref: "refines h s" and step: "seq_step (Erase_after_and_dispose r n) s = Some s'"
  shows "\<exists>h'. chain_step (Erase_after_and_dispose r n) h = Some (Inr h') \<and> refines h' s'"
proof -
  note f = refinesD [OF ref] and ch = representsD(1) [OF refinesD(1) [OF ref]]
  then obtain xs where xs: "nodes_of s r = Some xs" "n < length xs"
      "s' = put_list r (take n xs @ drop (Suc n) xs) s"
    using step by (auto elim!: on_listE split: if_splits)
  note c = ch [OF xs(1)]
  obtain h' where h': "chain_erase_after_and_dispose r (last (r # take n xs)) h = Inr (hd (drop (Suc n) xs @ [r]), h')"
      "relinks h r xs h' (take n xs @ drop (Suc n) xs)"
    using erase_dispose_ok [OF c xs(2)] by blast
  have "refines h' (put_list r (take n xs @ drop (Suc n) xs) (s\<lparr>loose := loose s\<rparr>))"
    by (rule refines_relinks [OF ref xs(1) h'(2)])
      (use erased_out(2) [of xs n] chainD(1) [OF c] xs(2) loose_apart [OF ref xs(1)] in auto)
  then show ?thesis
    using h'(1) xs(3) chain_walk_ok [OF chainD(2) [OF c], of n] xs(2)
    by (simp add: chain_before_begin_def)
qed

lemma sim_swap:
  assumes ref: "refines h s" and step: "seq_step (Swap r q) s = Some s'"
  shows "\<exists>h'. chain_step (Swap r q) h = Some (Inr h') \<and> refines h' s'"
proof -
  note f = refinesD [OF ref] and ch = representsD(1) [OF refinesD(1) [OF ref]]
  note sep = lists_apart [OF ref]
  then obtain xs ys where L: "nodes_of s r = Some xs" "nodes_of s q = Some ys" "r \<noteq> q"
      "s' = put_list q xs (put_list r ys s)"
    using step by (auto elim!: on_listE split: if_splits)
  then obtain h' where h': "chain_swap r q h = Inr h'" "relinks2 h r xs q ys h' ys xs"
    using chain_swap_ok [OF ch [OF L(1)] ch [OF L(2)] sep [OF L(3,1,2)]] by blast
  have "refines h' (put_list q xs (put_list r ys s))"
    by (rule refines_relinks2 [OF ref L(1-3) h'(2)]) (use sep [OF L(3,1,2)] in auto)
  then show ?thesis using h'(1) L(4) by simp
qed

lemma sim_splice_back:
  assumes ref: "refines h s" and step: "seq_step (Splice_back r q) s = Some s'"
  shows "\<exists>h'. chain_step (Splice_back r q) h = Some (Inr h') \<and> refines h' s'"
proof -
  note f = refinesD [OF ref] and ch = representsD(1) [OF refinesD(1) [OF ref]]
  note sep = lists_apart [OF ref]
  then obtain xs ys where L: "nodes_of s r = Some xs" "nodes_of s q = Some ys" "r \<noteq> q"
      "s' = put_list q [] (put_list r (xs @ ys) s)"
    using step by (auto elim!: on_listE split: if_splits)
  then obtain h' where h': "chain_splice_back r q h = Inr h'" "relinks2 h r xs q ys h' (xs @ ys) []"
    using chain_splice_back_ok [OF ch [OF L(1)] ch [OF L(2)] sep [OF L(3,1,2)]] by blast
  have "refines h' (put_list q [] (put_list r (xs @ ys) s))"
    by (rule refines_relinks2 [OF ref L(1-3) h'(2)]) auto
  then show ?thesis using h'(1) L(4) by simp
qed

lemma sim_clear:
  assumes ref: "refines h s" and step: "seq_step (Clear r) s = Some s'"
  shows "\<exists>h'. chain_step (Clear r) h = Some (Inr h') \<and> refines h' s'"
proof -
  note f = refinesD [OF ref] and ch = representsD(1) [OF refinesD(1) [OF ref]]
  then obtain xs where xs: "nodes_of s r = Some xs" "s' = put_list r [] s"
    using step by (auto elim!: on_listE split: if_splits)
  obtain h' where h': "chain_clear r h = Some (Inr h')" "relinks h r xs h' []"
    using chain_clear_ok [OF ch [OF xs(1)]] by blast
  have "refines h' (put_list r [] (s\<lparr>loose := loose s\<rparr>))"
    by (rule refines_relinks [OF ref xs(1) h'(2)]) (use loose_apart [OF ref xs(1)] in auto)
  then show ?thesis using h'(1) xs(2) by simp
qed

lemma sim_clone_from:
  assumes ref: "refines h s" and step: "seq_step (Clone_from r q) s = Some s'"
  shows "\<exists>h'. chain_step (Clone_from r q) h = Some (Inr h') \<and> refines h' s'"
proof -
  note f = refinesD [OF ref] and ch = representsD(1) [OF refinesD(1) [OF ref]]
  then obtain xs ys where L: "nodes_of s r = Some xs" "nodes_of s q = Some ys" "r \<noteq> q"
      "s' = put_list r [fresh s..<fresh s + length ys] (s\<lparr>fresh := fresh s + length ys\<rparr>)"
    using step by (auto elim!: on_listE split: if_splits)
  obtain h' where h': "chain_clone_from r q h = Some (Inr h')"
      "represents h' ((nodes_of s)(r \<mapsto> [fresh s..<fresh s + length ys]))"
      "next_hook h' = fresh s + length ys"
      "\<And>a. unlinked (nodes_of s) a \<Longrightarrow> a < fresh s \<Longrightarrow> hook_next h' a = hook_next h a"
    using chain_clone_from_ok [OF f(1) L(1-3)] f(2) by auto
  have "hook_next h' a \<noteq> None \<and> unlinked ((nodes_of s)(r \<mapsto> [fresh s..<fresh s + length ys])) a"
    if a: "a \<in> loose s" for a
    using f(3,4,5) [OF a] h'(4) [OF f(4) [OF a] f(5) [OF a]] loose_apart [OF ref L(1)] a
    by (auto simp: unlinked_upd) (auto simp: unlinked_def)
  then show ?thesis using h'(1-3) L(4) by (auto simp: refines_def put_list_def)
qed

lemma step_simulates:
  assumes "refines h s" "seq_step c s = Some s'"
  shows "\<exists>h'. chain_step c h = Some (Inr h') \<and> refines h' s'"
  using assms
  by (cases c; simp only:) (rule sim_make_node sim_dispose sim_make_list sim_move_list sim_move_assign sim_push_back sim_push_front sim_insert_after sim_erase_after sim_erase_after_and_dispose sim_swap sim_splice_back sim_clear sim_clone_from; assumption)+

subsection \<open>The property\<close>

text \<open>
  C12 (refinement). Every program over the operations of \<^verbatim>\<open>buffers_t\<close> that calls them where it may,
  run on the pointers, ends and does to the lists what it does to the sequences of their nodes:
  no hook outside is touched, no node is in two lists, and what was disposed of is gone.
\<close>

theorem chain_refines_sequences:
  assumes "refines h s" "seq_run cs s = Some s'"
  shows "\<exists>h'. chain_run cs h = Some (Inr h') \<and> refines h' s'"
  using assms
proof (induction cs arbitrary: h s)
  case (Cons c cs)
  then obtain s1 where s1: "seq_step c s = Some s1" "seq_run cs s1 = Some s'"
    by (auto split: option.splits)
  obtain h1 where h1: "chain_step c h = Some (Inr h1)" "refines h1 s1"
    using step_simulates [OF Cons.prems(1) s1(1)] by blast
  then show ?case using Cons.IH [OF h1(2) s1(2)] by simp
qed simp

lemma refines_start:
  "refines \<lparr>hook_next = Map.empty, list_tail = Map.empty, next_hook = 1\<rparr>
     \<lparr>nodes_of = Map.empty, loose = {}, fresh = 1\<rparr>"
  by (simp add: refines_def represents_def separate_def hooks_of_def)

theorem chain_refines_sequences_witness:
  "\<exists>h'. chain_run [Make_node, Make_list 1, Make_node, Make_list 2, Make_node, Push_back 1 3, Make_node,
       Push_front 1 4, Clone_from 2 1, Splice_back 1 2, Erase_after_and_dispose 1 1, Swap 1 2]
     \<lparr>hook_next = Map.empty, list_tail = Map.empty, next_hook = 1\<rparr> = Some (Inr h') \<and>
   chain h' 2 [4, 5, 6] \<and> chain h' 1 []"
proof -
  have "\<exists>s'. seq_run [Make_node, Make_list 1, Make_node, Make_list 2, Make_node, Push_back 1 3, Make_node,
       Push_front 1 4, Clone_from 2 1, Splice_back 1 2, Erase_after_and_dispose 1 1, Swap 1 2]
     \<lparr>nodes_of = Map.empty, loose = {}, fresh = 1\<rparr> = Some s' \<and> nodes_of s' 2 = Some [4, 5, 6] \<and> nodes_of s' 1 = Some []"
    by (simp add: on_list_def put_list_def upt_rec)
  then obtain s' where s': "seq_run [Make_node, Make_list 1, Make_node, Make_list 2, Make_node, Push_back 1 3, Make_node,
       Push_front 1 4, Clone_from 2 1, Splice_back 1 2, Erase_after_and_dispose 1 1, Swap 1 2]
     \<lparr>nodes_of = Map.empty, loose = {}, fresh = 1\<rparr> = Some s'" "nodes_of s' 2 = Some [4, 5, 6]" "nodes_of s' 1 = Some []"
    by blast
  then show ?thesis
    using chain_refines_sequences [OF refines_start s'(1)] refinesD(1) representsD(1) by blast
qed

end
