(* ===== verification/Buffer_Appender.thy ===== *)
theory Buffer_Appender
  imports Buffer_List Loops
begin

text \<open>
  The appenders of \<^verbatim>\<open>buffer_list.h\<close>: objects that write straight into the memory behind a list's
  tail and tell the list afterwards. A position in memory is a raw and an offset in it.
\<close>

subsection \<open>\<^verbatim>\<open>contiguous_appender\<close>\<close>

text \<open>
  \<^verbatim>\<open>_space\<close> points to the length of the tail node \<open>ap_node\<close> and to the length of the list;
  \<open>ap_data\<close> is \<^verbatim>\<open>_space.bptr_data\<close> and \<open>ap_pos\<close> is \<^verbatim>\<open>_pos\<close>. The distance between the two has a meaning
  inside one raw only.
\<close>

record appender =
  ap_node :: nat
  ap_data :: "nat \<times> nat"
  ap_pos :: "nat \<times> nat"
  ap_deep :: bool
  ap_oob :: nat

definition appender_new :: "nat \<Rightarrow> bool \<Rightarrow> blist \<Rightarrow> mem \<Rightarrow> exn + appender \<times> blist \<times> mem" where
  "appender_new len deep b m =
    ebind (obtain_contiguous_space len b m) (\<lambda>((c, d), b, m).
      Inr (\<lparr>ap_node = c, ap_data = d, ap_pos = d, ap_deep = deep, ap_oob = 0\<rparr>, b, m))"

definition step_advance :: "appender \<Rightarrow> exn + nat" where
  "step_advance a =
    (if fst (ap_pos a) = fst (ap_data a) \<and> snd (ap_data a) \<le> snd (ap_pos a)
     then Inr (snd (ap_pos a) - snd (ap_data a)) else Inl Undefined)"

definition flush_and_continue :: "appender \<Rightarrow> blist \<Rightarrow> mem \<Rightarrow> exn + appender \<times> blist \<times> mem" where
  "flush_and_continue a b m =
    ebind (step_advance a) (\<lambda>n.
    ebind (ptr_at m (ap_node a)) (\<lambda>p.
      Inr (a\<lparr>ap_data := ap_pos a\<rparr>, b\<lparr>b_len := add64 (b_len b) n\<rparr>,
           obj_set (ap_node a) (p\<lparr>p_len := add64 (p_len p) n\<rparr>) m)))"

definition appender_destroy :: "appender \<Rightarrow> blist \<Rightarrow> mem \<Rightarrow> exn + blist \<times> mem" where
  "appender_destroy a b m = ebind (flush_and_continue a b m) (\<lambda>(_, b, m). Inr (b, m))"

definition appender_append :: "bytes \<Rightarrow> appender \<Rightarrow> mem \<Rightarrow> exn + appender \<times> mem" where
  "appender_append data a m =
    ebind (raw_write (fst (ap_pos a)) (snd (ap_pos a)) data m) (\<lambda>m.
      Inr (a\<lparr>ap_pos := (fst (ap_pos a), snd (ap_pos a) + length data)\<rparr>, m))"

definition get_pos_add :: "nat \<Rightarrow> appender \<Rightarrow> (nat \<times> nat) \<times> appender" where
  "get_pos_add len a = (ap_pos a, a\<lparr>ap_pos := (fst (ap_pos a), snd (ap_pos a) + len)\<rparr>)"

definition get_pos :: "appender \<Rightarrow> nat \<times> nat" where
  "get_pos a = ap_pos a"

text \<open>
  Without \<^verbatim>\<open>_deep_copy\<close> the object itself joins the list, and the space behind the list's cached
  tail is claimed anew; \<^verbatim>\<open>_pos\<close> stays.
\<close>

definition appender_reclaim :: "nat \<Rightarrow> appender \<Rightarrow> blist \<Rightarrow> mem \<Rightarrow> exn + appender \<times> blist \<times> mem" where
  "appender_reclaim len a b m =
    ebind (obtain_contiguous_space 0 b m) (\<lambda>((c, d), b, m).
      Inr (a\<lparr>ap_node := c, ap_data := d, ap_oob := add64 (ap_oob a) len\<rparr>, b, m))"

definition appender_append_ptr :: "nat \<Rightarrow> appender \<Rightarrow> blist \<Rightarrow> mem \<Rightarrow> exn + appender \<times> blist \<times> mem" where
  "appender_append_ptr i a b m =
    ebind (ptr_length m i) (\<lambda>plen.
      if plen = 0 then Inr (a, b, m)
      else if ap_deep a
      then ebind (ptr_read m i) (\<lambda>data. ebind (appender_append data a m) (\<lambda>(a, m). Inr (a, b, m)))
      else ebind (flush_and_continue a b m) (\<lambda>(a, b, m).
           ebind (blist_append_ptr i b m) (\<lambda>(b, m). appender_reclaim plen a b m)))"

fun appender_append_nodes :: "nat list \<Rightarrow> appender \<Rightarrow> mem \<Rightarrow> exn + appender \<times> mem" where
  "appender_append_nodes [] a m = Inr (a, m)"
| "appender_append_nodes (i # is) a m =
     ebind (ptr_read m i) (\<lambda>data.
     ebind (appender_append data a m) (\<lambda>(a, m). appender_append_nodes is a m))"

definition appender_append_list ::
    "blist \<Rightarrow> appender \<Rightarrow> blist \<Rightarrow> mem \<Rightarrow> exn + appender \<times> blist \<times> mem" where
  "appender_append_list other a b m =
    (if ap_deep a
     then ebind (appender_append_nodes (bufs other) a m) (\<lambda>(a, m). Inr (a, b, m))
     else ebind (flush_and_continue a b m) (\<lambda>(a, b, m).
          ebind (blist_append_list other b m) (\<lambda>(b, m). appender_reclaim (b_len other) a b m)))"

definition get_logical_offset :: "appender \<Rightarrow> exn + nat" where
  "get_logical_offset a = ebind (step_advance a) (\<lambda>n. Inr (add64 (ap_oob a) n))"

subsection \<open>\<^verbatim>\<open>contiguous_filler\<close>\<close>

type_synonym filler = "nat \<times> nat"

definition filler_advance :: "nat \<Rightarrow> filler \<Rightarrow> filler" where
  "filler_advance len f = (fst f, snd f + len)"

definition filler_copy_in :: "bytes \<Rightarrow> filler \<Rightarrow> mem \<Rightarrow> exn + filler \<times> mem" where
  "filler_copy_in src f m =
    ebind (raw_write (fst f) (snd f) src m) (\<lambda>m. Inr (filler_advance (length src) f, m))"

subsection \<open>\<^verbatim>\<open>page_aligned_appender\<close>\<close>

text \<open>\<^verbatim>\<open>_buffer\<close> is an object of the store; \<^verbatim>\<open>_pos\<close> and \<^verbatim>\<open>_end\<close> are \<open>None\<close> for \<^verbatim>\<open>nullptr\<close>.\<close>

record pappender =
  pa_min_alloc :: nat
  pa_buffer :: nat
  pa_pos :: "(nat \<times> nat) option"
  pa_end :: "(nat \<times> nat) option"

definition pappender_new :: "nat \<Rightarrow> mem \<Rightarrow> pappender \<times> mem" where
  "pappender_new min_pages m =
    (case ptr_default m of (i, m) \<Rightarrow>
      (\<lparr>pa_min_alloc = mul64 min_pages (e_page (m_env m)), pa_buffer = i, pa_pos = None, pa_end = None\<rparr>, m))"

definition pappender_flush :: "pappender \<Rightarrow> blist \<Rightarrow> mem \<Rightarrow> exn + blist \<times> mem" where
  "pappender_flush a b m =
    (case pa_pos a of None \<Rightarrow> Inr (b, m) | Some (r, pos) \<Rightarrow>
      ebind (c_str m (pa_buffer a)) (\<lambda>(r0, start).
      if (r, pos) = (r0, start) then Inr (b, m)
      else
        let len = pos - start in
        ebind (blist_append_range (pa_buffer a) 0 len b m) (\<lambda>(b, m).
        ebind (ptr_at m (pa_buffer a)) (\<lambda>p.
        ebind (set_length (pa_buffer a) (sub64 (p_len p) len) m) (\<lambda>m.
        ebind (set_offset (pa_buffer a) (add64 (p_off p) len) m) (\<lambda>m. Inr (b, m)))))))"

definition pappender_alloc :: "nat \<Rightarrow> pappender \<Rightarrow> mem \<Rightarrow> exn + pappender \<times> mem" where
  "pappender_alloc len a m =
    (let page = e_page (m_env m);
         alloc = add64 len (page - 1) AND (two64 - page);
         alloc = max alloc (pa_min_alloc a) in
     ebind (create_page_aligned alloc m) (\<lambda>(r, m).
     ebind (ptr_of_raw r m) (\<lambda>(t, m).
     ebind (ptr_assign_move (pa_buffer a) t m) (\<lambda>m.
     ebind (ptr_destroy t m) (\<lambda>m.
     ebind (c_str m (pa_buffer a)) (\<lambda>start.
     ebind (end_c_str m (pa_buffer a)) (\<lambda>fin.
       Inr (a\<lparr>pa_pos := Some start, pa_end := Some fin\<rparr>, m))))))))"

definition pappender_round ::
    "bytes \<times> pappender \<times> blist \<times> mem \<Rightarrow> exn + (pappender \<times> blist \<times> mem) + (bytes \<times> pappender \<times> blist \<times> mem)" where
  "pappender_round s =
    (case s of (buf, a, b, m) \<Rightarrow>
      if buf = [] then Inr (Inl (a, b, m))
      else
        ebind (if pa_pos a = None then pappender_alloc (length buf) a m else Inr (a, m)) (\<lambda>(a, m).
        ebind (of_option Undefined (pa_pos a)) (\<lambda>(r, pos).
        ebind (of_option Undefined (pa_end a)) (\<lambda>(_, fin).
        let length1 = min (length buf) (fin - pos) in
        ebind (raw_write r pos (take length1 buf) m) (\<lambda>m.
        let a = a\<lparr>pa_pos := Some (r, pos + length1)\<rparr> in
        if pos + length1 = fin
        then
          ebind (ptr_length m (pa_buffer a)) (\<lambda>n.
          ebind (blist_append_range (pa_buffer a) 0 n b m) (\<lambda>(b, m).
            Inr (Inr (drop length1 buf, a\<lparr>pa_pos := None, pa_end := None\<rparr>, b, m))))
        else Inr (Inr (drop length1 buf, a, b, m)))))))"

definition pappender_append ::
    "bytes \<Rightarrow> pappender \<Rightarrow> blist \<Rightarrow> mem \<Rightarrow> (exn + pappender \<times> blist \<times> mem) option" where
  "pappender_append buf a b m = run pappender_round (buf, a, b, m)"

end
