(* ===== verification/Appender_Props.thy ===== *)
theory Appender_Props
  imports Buffer_Appender Buffer_List_Props
begin

text \<open>
  Writing through a \<^verbatim>\<open>contiguous_appender\<close> appends what was written: while the appender lives the
  list lags behind by the bytes between \<^verbatim>\<open>_space.bptr_data\<close> and \<^verbatim>\<open>_pos\<close>, which nobody else sees.
\<close>

subsection \<open>The state while an appender is alive\<close>

text \<open>
  \<open>writing a b m bs n\<close>: the list with the bytes not yet told to it is \<open>bs\<close>, and at least \<open>n\<close> more
  bytes can be written.
\<close>

definition writing :: "appender \<Rightarrow> blist \<Rightarrow> mem \<Rightarrow> bytes \<Rightarrow> nat \<Rightarrow> bool" where
  "writing a b m bs n \<longleftrightarrow> ready b m \<and>
     (\<exists>p r w pend. tail_cache b = Some (ap_node a) \<and> is_back b (ap_node a) \<and>
       m_ptrs m (ap_node a) = Some p \<and> p_raw p = Some r \<and> m_raws m r = Some w \<and>
       ap_data a = (r, p_off p + p_len p) \<and> ap_pos a = (r, p_off p + p_len p + length pend) \<and>
       p_off p + p_len p + length pend + n \<le> r_len w \<and>
       seg (p_off p + p_len p) (length pend) (r_data w) = pend \<and> bs = bl_bytes m b @ pend)"

lemma readyI:
  assumes "turns b m bs b' m'" "b_len b' = length bs" "length bs < 2 ^ 62" "length (bufs b') < 2 ^ 62"
    "env_ok (m_env m)"
  shows "ready b' m'"
  using turnsD [OF assms(1)] assms(2-5) by (simp add: ready_def wf_list_def)

lemma resync_shape:
  assumes "resync_tail b m = Inr (b', m')"
  shows "length (bufs b') \<le> length (bufs b) + 1"
  using assms by (auto simp: resync_tail_def ebind_Inr_iff split: if_splits)

lemma obtain_shape:
  assumes "obtain_contiguous_space len b m = Inr (x, b', m')"
  shows "length (bufs b') \<le> length (bufs b) + 1"
  using assms
  by (auto simp: obtain_contiguous_space_def ebind_Inr_iff split: if_splits dest: resync_shape)

text \<open>The tail made current starts, with no bytes, where the cached one ends.\<close>

lemma resync_position:
  assumes wf: "wf_mem m" and c: "tail_cache b = Some c" "m_ptrs m c = Some p" "p_raw p = Some r" "m_raws m r = Some w"
    and res: "resync_tail b m = Inr (b', m')"
  shows "\<exists>c' p' w'. tail_cache b' = Some c' \<and> m_ptrs m' c' = Some p' \<and> p_raw p' = Some r \<and>
    p_off p' + p_len p' = p_off p + p_len p \<and> m_raws m' r = Some w' \<and> r_len w' = r_len w"
proof (cases "is_back b c")
  case True
  then show ?thesis using res c by (simp add: resync_tail_def)
next
  case False
  have fit: "p_off p + p_len p \<le> r_len w" "r_len w < two64"
    using wf_ptr_raw [OF wf_flD(1) [OF wf] c(2,3)] c(4) by auto
  obtain k m1 where m1: "ptr_sub c (p_len p) 0 m = Inr (k, m1)" "b' = add_tail k b" "m' = m1"
    using res False c by (auto simp: resync_tail_def ebind_Inr_iff ptr_length_def ptr_at_def)
  then have "m_ptrs m1 k = Some (p\<lparr>p_off := add64 (p_off p) (p_len p), p_len := 0\<rparr>) \<and>
      (\<exists>w'. m_raws m1 r = Some w' \<and> r_len w' = r_len w)"
    using c(2-4) by (auto simp: ptr_sub_def ptr_at_def ebind_Inr_iff raw_ref_def m_raws_upd_raw obj_new_def)
  then show ?thesis using m1 c(3) fit by (auto simp: arith64)
qed

lemma appender_new_ok:
  assumes "ready b m" "len < 2 ^ 62" "0 < len \<or> tail_cache b \<noteq> None" "length (bufs b) + 1 < 2 ^ 62"
  shows "\<exists>a b' m'. appender_new len deep b m = Inr (a, b', m') \<and> writing a b' m' (bl_bytes m b) len \<and>
    becomes b m (bl_bytes m b) b' m' \<and> ap_deep a = deep \<and> length (bufs b') \<le> length (bufs b) + 1"
proof -
  obtain c p r b' m' where o: "obtain_contiguous_space len b m = Inr ((c, (r, p_off p + p_len p)), b', m')"
      "becomes b m (bl_bytes m b) b' m'" "tail_cache b' = Some c" "is_back b' c"
      "len \<le> room m' c" "m_ptrs m' c = Some p" "p_raw p = Some r"
    using obtain_contiguous_space_ok [OF assms(1-3)] by blast
  have t: "turns b m (bl_bytes m b) b' m'" "b_len b' = length (bl_bytes m b)"
    using o(2) by (auto simp: becomes_def)
  have n: "length (bufs b') \<le> length (bufs b) + 1" by (rule obtain_shape [OF o(1)])
  have rdy: "ready b' m'"
    by (rule readyI [OF t]) (use readyD [OF assms(1)] n assms(4) in auto)
  obtain w where w: "m_raws m' r = Some w" "p_off p + p_len p \<le> r_len w"
    using wf_ptr_raw [OF wf_flD(1) [OF readyD(1) [OF rdy]] o(6,7)] by auto
  let ?a = "\<lparr>ap_node = c, ap_data = (r, p_off p + p_len p), ap_pos = (r, p_off p + p_len p), ap_deep = deep, ap_oob = 0\<rparr>"
  have "len \<le> r_len w - (p_off p + p_len p)" using o(5) room_eq [OF o(6,7) w(1)] by simp
  then have "writing ?a b' m' (bl_bytes m b) len"
    unfolding writing_def using rdy o(3,4,6,7) w turnsD(3) [OF t(1)]
    by (intro conjI exI [of _ p] exI [of _ r] exI [of _ w] exI [of _ "[]"]) auto
  moreover have "appender_new len deep b m = Inr (?a, b', m')" by (simp add: appender_new_def o(1))
  ultimately show ?thesis using o(2) n by (intro exI [of _ ?a] exI [of _ b'] exI [of _ m']) simp
qed

subsection \<open>Writing\<close>

lemma appender_append_ok:
  assumes "writing a b m bs n" "length data \<le> n"
  shows "\<exists>a' m'. appender_append data a m = Inr (a', m') \<and> writing a' b m' (bs @ data) (n - length data) \<and>
    keeps (dom (m_ptrs m)) m m' \<and> m_ptrs m' = m_ptrs m \<and> ap_deep a' = ap_deep a \<and> m_env m' = m_env m"
proof -
  obtain p r w pend where h: "tail_cache b = Some (ap_node a)" "is_back b (ap_node a)"
      "m_ptrs m (ap_node a) = Some p" "p_raw p = Some r" "m_raws m r = Some w"
      "ap_data a = (r, p_off p + p_len p)" "ap_pos a = (r, p_off p + p_len p + length pend)"
      "p_off p + p_len p + length pend + n \<le> r_len w"
      "seg (p_off p + p_len p) (length pend) (r_data w) = pend" "bs = bl_bytes m b @ pend"
    using assms(1) unfolding writing_def by blast
  have rdy: "ready b m" using assms(1) by (simp add: writing_def)
  note rd = readyD [OF rdy]
  let ?pos = "p_off p + p_len p + length pend"
  let ?m = "raw_put r ?pos data m"
  have raw: "wf_raw w" by (rule wf_coreD(5) [OF wf_flD(1) [OF rd(1)] h(5)])
  have fit: "?pos + length data \<le> r_len w" using h(8) assms(2) by simp
  have wr: "raw_write r ?pos data m = Inr ?m" by (rule raw_write_ok [OF h(5) raw fit])
  have free: "tail_free m (ap_node a)" by (rule wf_nodesD(5) [OF rd(3) h(1)])
  have clear: "clear_of r ?pos (length data) q" if "m_ptrs m j = Some q" for j q
    using free h(3,4) that unfolding tail_free_def clear_of_def by (cases "j = ap_node a") fastforce+
  have keep: "keeps (dom (m_ptrs m)) m ?m"
    by (rule keeps_raw_put [OF wf_flD(1) [OF rd(1)] h(5) fit]) (rule clear)
  have wfm: "wf_mem ?m" by (rule wf_raw_put [OF rd(1) h(5) fit])
  have nodes: "wf_nodes ?m b" using rd(3) by (simp add: wf_nodes_def has_raw_def tail_free_def)
  have same: "bl_bytes ?m b = bl_bytes m b" by (rule bl_bytes_keeps [OF keep wf_nodesD(6) [OF rd(3)]])
  have rdy': "ready b ?m" using rd wfm nodes same by (simp add: ready_def wf_list_def)
  let ?w = "w\<lparr>r_data := write_at ?pos data (r_data w)\<rparr>"
  have w': "m_raws ?m r = Some ?w" using h(5) by (simp add: raw_put_def m_raws_upd_raw)
  have len: "length (r_data w) = r_len w" using raw by (simp add: wf_raw_def)
  have "seg (p_off p + p_len p) (length pend + length data) (write_at ?pos data (r_data w)) = pend @ data"
    using fit len h(9) by (simp add: seg_append_seg seg_write_at_before seg_write_at_same)
  then have "writing (a\<lparr>ap_pos := (r, ?pos + length data)\<rparr>) b ?m (bs @ data) (n - length data)"
    unfolding writing_def using rdy' h assms(2) w' same
    by (intro conjI exI [of _ p] exI [of _ r] exI [of _ ?w] exI [of _ "pend @ data"]) auto
  then show ?thesis
    using wr keep h(7) by (simp add: appender_append_def)
qed

lemma flush_ok:
  assumes "writing a b m bs n" "length bs < 2 ^ 62"
  shows "\<exists>a' b' m'. flush_and_continue a b m = Inr (a', b', m') \<and> writing a' b' m' bs n \<and>
    becomes b m bs b' m' \<and> ap_data a' = ap_pos a' \<and> ap_deep a' = ap_deep a \<and> bufs b' = bufs b"
proof -
  obtain p r w pend where h: "tail_cache b = Some (ap_node a)" "is_back b (ap_node a)"
      "m_ptrs m (ap_node a) = Some p" "p_raw p = Some r" "m_raws m r = Some w"
      "ap_data a = (r, p_off p + p_len p)" "ap_pos a = (r, p_off p + p_len p + length pend)"
      "p_off p + p_len p + length pend + n \<le> r_len w"
      "seg (p_off p + p_len p) (length pend) (r_data w) = pend" "bs = bl_bytes m b @ pend"
    using assms(1) unfolding writing_def by blast
  have rdy: "ready b m" using assms(1) by (simp add: writing_def)
  note rd = readyD [OF rdy]
  let ?n = "length pend" and ?p = "p\<lparr>p_len := p_len p + length pend\<rparr>"
  let ?m = "obj_set (ap_node a) ?p m" and ?b = "b\<lparr>b_len := length bs\<rparr>"
  have raw: "wf_raw w" by (rule wf_coreD(5) [OF wf_flD(1) [OF rd(1)] h(5)])
  have fit: "p_off p + (p_len p + ?n) \<le> r_len w" "r_len w < two64"
    using h(8) raw wf_ptr_raw [OF wf_flD(1) [OF rd(1)] h(3,4)] h(5) by auto
  have wf': "wf_fl {} ?m" "quiet m ?m"
    using obj_resize [OF rd(1) h(3-5) fit(1)] by simp_all
  have small: "add64 (p_len p) ?n = p_len p + ?n" "add64 (b_len b) ?n = length bs"
    using fit assms(2) rd(4) h(10) by (auto simp: arith64 two64_def)
  have bytes: "node_bytes ?m (ap_node a) = node_bytes m (ap_node a) @ pend"
    using h(3-5,9) by (simp add: node_bytes_def ptr_bytes_def obj_set_def seg_append_seg)
  have keep: "keeps (dom (m_ptrs m) - {ap_node a}) m ?m"
    by (rule keeps_wf_fl [OF wf'(2) rd(1) wf'(1)]) (simp add: obj_set_def)
  have "turns b m (bl_bytes m b @ pend) b ?m"
    by (rule grow_back [where n = "p_len p + ?n", OF rd(1,3) wf'(1) h(2,1,3) _ _ bytes keep])
      (simp_all add: obj_set_def)
  then have t: "turns b m bs ?b ?m" using h(10) by simp
  have rdy': "ready ?b ?m" by (rule readyI [OF t]) (use assms(2) rd in auto)
  have m': "m_ptrs ?m (ap_node a) = Some ?p" "m_raws ?m r = Some w" using h(5) by (simp_all add: obj_set_def)
  have "writing (a\<lparr>ap_data := ap_pos a\<rparr>) ?b ?m bs n"
    unfolding writing_def using rdy' h m' turnsD(3) [OF t]
    by (intro conjI exI [of _ ?p] exI [of _ r] exI [of _ w] exI [of _ "[]"]) (auto simp: is_back_def)
  moreover have "flush_and_continue a b m = Inr (a\<lparr>ap_data := ap_pos a\<rparr>, ?b, ?m)"
    using h(3,6,7) small by (simp add: flush_and_continue_def step_advance_def ptr_at_def)
  ultimately show ?thesis using t by (simp add: becomes_def)
qed

subsection \<open>Taking over whole objects\<close>

text \<open>After an operation that leaves the cached tail alone, the space behind it is claimed again.\<close>

lemma reclaim_ok:
  assumes rdy: "ready b m" "length (bufs b) + 1 < 2 ^ 62"
    and c: "tail_cache b = Some c" "m_ptrs m c = Some p" "p_raw p = Some r" "m_raws m r = Some w"
    and pos: "ap_pos a = (r, p_off p + p_len p)" "p_off p + p_len p + n \<le> r_len w"
  shows "\<exists>a' b' m'. appender_reclaim len a b m = Inr (a', b', m') \<and> writing a' b' m' (bl_bytes m b) n \<and>
    becomes b m (bl_bytes m b) b' m' \<and> ap_deep a' = ap_deep a \<and> length (bufs b') \<le> length (bufs b) + 1"
proof -
  note rd = readyD [OF rdy(1)]
  obtain c1 p1 r1 b' m' where o: "obtain_contiguous_space 0 b m = Inr ((c1, (r1, p_off p1 + p_len p1)), b', m')"
      "becomes b m (bl_bytes m b) b' m'" "tail_cache b' = Some c1" "is_back b' c1"
      "m_ptrs m' c1 = Some p1" "p_raw p1 = Some r1"
    using obtain_contiguous_space_ok [OF rdy(1), of 0] c(1) by auto
  have t: "turns b m (bl_bytes m b) b' m'" "b_len b' = length (bl_bytes m b)"
    using o(2) by (auto simp: becomes_def)
  have num: "length (bufs b') \<le> length (bufs b) + 1" by (rule obtain_shape [OF o(1)])
  have rdy': "ready b' m'" by (rule readyI [OF t]) (use rd num rdy(2) in auto)
  have "\<exists>u. get_append_buffer_unused_tail_length m b = Inr u"
    using unused_tail_room [OF rd(1,3)] by blast
  then have "resync_tail b m = Inr (b', m')"
    using o(1) by (auto simp: obtain_contiguous_space_def ebind_Inr_iff)
  then obtain w' where w': "p_raw p1 = Some r" "p_off p1 + p_len p1 = p_off p + p_len p"
      "m_raws m' r = Some w'" "r_len w' = r_len w"
    using resync_position [OF rd(1) c] o(3,5) by fastforce
  let ?a = "a\<lparr>ap_node := c1, ap_data := (r, p_off p + p_len p), ap_oob := add64 (ap_oob a) len\<rparr>"
  have "writing ?a b' m' (bl_bytes m b) n"
    unfolding writing_def using rdy' o(3-6) w' pos turnsD(3) [OF t(1)]
    by (intro conjI exI [of _ p1] exI [of _ r] exI [of _ w'] exI [of _ "[]"]) auto
  moreover have "appender_reclaim len a b m = Inr (?a, b', m')"
    using o(1,6) w'(1,2) by (simp add: appender_reclaim_def)
  ultimately show ?thesis using o(2) num by (intro exI [of _ ?a] exI [of _ b'] exI [of _ m']) simp
qed

lemma push_back_shape:
  assumes "blist_push_back i b m = Inr (b', m')"
  shows "tail_cache b' = tail_cache b" "length (bufs b') \<le> length (bufs b) + 1"
  using assms by (auto simp: blist_push_back_def ebind_Inr_iff split: if_splits)

lemma append_list_shape:
  assumes "blist_append_list other b m = Inr (b', m')"
  shows "tail_cache b' = tail_cache b"
  using assms by (auto simp: blist_append_list_def ebind_Inr_iff)

lemma ptr_copy_shape:
  assumes "ptr_copy i m = Inr (k, m')" "wf_mem m"
  shows "c \<in> dom (m_ptrs m) \<Longrightarrow> m_ptrs m' c = m_ptrs m c"
    "m_raws m r = Some w \<Longrightarrow> \<exists>w'. m_raws m' r = Some w' \<and> r_len w' = r_len w"
  using assms wf_core_fresh(1) [OF wf_flD(1) [OF assms(2)]]
  by (auto simp: ptr_copy_def ebind_Inr_iff obj_new_def raw_ref_def m_raws_upd_raw split: option.splits)

lemma clone_nodes_shape:
  assumes "clone_nodes is m = Inr (ks, m')" "m_raws m r = Some w"
  shows "\<exists>w'. m_raws m' r = Some w' \<and> r_len w' = r_len w"
  using assms
proof (induction "is" arbitrary: m ks w)
  case (Cons i js)
  obtain k m1 ks1 where s: "ptr_copy i m = Inr (k, m1)" "clone_nodes js m1 = Inr (ks1, m')"
    using Cons.prems(1) by (auto simp: ebind_Inr_iff)
  have "\<exists>w'. m_raws m1 r = Some w' \<and> r_len w' = r_len w"
    using s(1) Cons.prems(2)
    by (auto simp: ptr_copy_def ebind_Inr_iff obj_new_def raw_ref_def m_raws_upd_raw split: option.splits)
  then show ?case using Cons.IH [OF s(2)] by fastforce
qed simp

text \<open>The two ways a whole object joins the list.\<close>

lemma take_over_ok:
  assumes w: "writing a b m bs n" "ap_data a = ap_pos a"
    and join: "becomes b m (bl_bytes m b @ bs') b1 m1" "tail_cache b1 = tail_cache b"
      "m_ptrs m1 (ap_node a) = m_ptrs m (ap_node a)"
      "\<And>r w. m_raws m r = Some w \<Longrightarrow> \<exists>w'. m_raws m1 r = Some w' \<and> r_len w' = r_len w"
    and small: "length (bs @ bs') < 2 ^ 62" "length (bufs b1) + 1 < 2 ^ 62"
  shows "\<exists>a' b' m'. appender_reclaim len a b1 m1 = Inr (a', b', m') \<and> writing a' b' m' (bs @ bs') n \<and>
    becomes b m (bs @ bs') b' m' \<and> ap_deep a' = ap_deep a \<and> length (bufs b') \<le> length (bufs b1) + 1"
proof -
  obtain p r w pend where h: "tail_cache b = Some (ap_node a)" "is_back b (ap_node a)"
      "m_ptrs m (ap_node a) = Some p" "p_raw p = Some r" "m_raws m r = Some w"
      "ap_data a = (r, p_off p + p_len p)" "ap_pos a = (r, p_off p + p_len p + length pend)"
      "p_off p + p_len p + length pend + n \<le> r_len w" "bs = bl_bytes m b @ pend"
    using w(1) unfolding writing_def by blast
  have none: "pend = []" "bs = bl_bytes m b" using h(6,7,9) w(2) by auto
  have rdy: "ready b m" using w(1) by (simp add: writing_def)
  have t: "turns b m (bs @ bs') b1 m1" "b_len b1 = length (bs @ bs')"
    using join(1) none by (auto simp: becomes_def)
  have rdy1: "ready b1 m1" by (rule readyI [OF t small(1)]) (use readyD [OF rdy] small in auto)
  obtain w1 where w1: "m_raws m1 r = Some w1" "r_len w1 = r_len w" using join(4) [OF h(5)] by blast
  have "\<exists>a' b' m'. appender_reclaim len a b1 m1 = Inr (a', b', m') \<and> writing a' b' m' (bl_bytes m1 b1) n \<and>
      becomes b1 m1 (bl_bytes m1 b1) b' m' \<and> ap_deep a' = ap_deep a \<and> length (bufs b') \<le> length (bufs b1) + 1"
    by (rule reclaim_ok [OF rdy1 small(2) _ _ h(4) w1(1)]) (use h none join(2,3) w1(2) in auto)
  then obtain a' b' m' where r: "appender_reclaim len a b1 m1 = Inr (a', b', m')" "writing a' b' m' (bs @ bs') n"
      "turns b1 m1 (bs @ bs') b' m'" "b_len b' = length (bs @ bs')" "ap_deep a' = ap_deep a"
      "length (bufs b') \<le> length (bufs b1) + 1"
    using turnsD(3) [OF t(1)] by (auto simp: becomes_def)
  then show ?thesis using turns_trans [OF t(1) r(3)] by (auto simp: becomes_def)
qed

subsection \<open>Sequences of appends\<close>

text \<open>What can be appended, and what it stands for. \<open>Piece_list\<close> is a list whose cached tail is of no concern.\<close>

datatype piece = Piece_bytes bytes | Piece_ptr nat | Piece_list blist

fun append_piece :: "piece \<Rightarrow> appender \<Rightarrow> blist \<Rightarrow> mem \<Rightarrow> exn + appender \<times> blist \<times> mem" where
  "append_piece (Piece_bytes d) a b m = ebind (appender_append d a m) (\<lambda>(a, m). Inr (a, b, m))"
| "append_piece (Piece_ptr i) a b m = appender_append_ptr i a b m"
| "append_piece (Piece_list c) a b m = appender_append_list c a b m"

fun append_pieces :: "piece list \<Rightarrow> appender \<Rightarrow> blist \<Rightarrow> mem \<Rightarrow> exn + blist \<times> mem" where
  "append_pieces [] a b m = appender_destroy a b m"
| "append_pieces (x # xs) a b m = ebind (append_piece x a b m) (\<lambda>(a, b, m). append_pieces xs a b m)"

fun piece_bytes :: "mem \<Rightarrow> piece \<Rightarrow> bytes" where
  "piece_bytes m (Piece_bytes d) = d"
| "piece_bytes m (Piece_ptr i) = node_bytes m i"
| "piece_bytes m (Piece_list c) = bl_bytes m c"

fun piece_ok :: "nat set \<Rightarrow> mem \<Rightarrow> piece \<Rightarrow> bool" where
  "piece_ok I m (Piece_bytes d) \<longleftrightarrow> True"
| "piece_ok I m (Piece_ptr i) \<longleftrightarrow> i \<in> I \<and> has_raw m i"
| "piece_ok I m (Piece_list c) \<longleftrightarrow> set (bufs c) \<subseteq> I \<and> wf_list m (c\<lparr>tail_cache := None\<rparr>) \<and> length (bufs c) < 2 ^ 62"

text \<open>The room a piece takes behind the tail, and the nodes it may add.\<close>

fun piece_room :: "bool \<Rightarrow> mem \<Rightarrow> piece \<Rightarrow> nat" where
  "piece_room deep m (Piece_bytes d) = length d"
| "piece_room deep m x = (if deep then length (piece_bytes m x) else 0)"

fun piece_nodes :: "piece \<Rightarrow> nat" where
  "piece_nodes (Piece_bytes d) = 0"
| "piece_nodes (Piece_ptr i) = 2"
| "piece_nodes (Piece_list c) = length (bufs c) + 1"

definition follows :: "blist \<Rightarrow> mem \<Rightarrow> blist \<Rightarrow> mem \<Rightarrow> bool" where
  "follows b m b' m' \<longleftrightarrow> keeps (others m b) m m' \<and> others m' b' = others m b"

lemma follows_trans: "follows b m b1 m1 \<Longrightarrow> follows b1 m1 b2 m2 \<Longrightarrow> follows b m b2 m2"
  unfolding follows_def by (metis keeps_trans)

lemma becomes_follows: "becomes b m bs b' m' \<Longrightarrow> follows b m b' m'"
  by (simp add: becomes_def turns_def follows_def)

lemma written_follows: "keeps (dom (m_ptrs m)) m m' \<Longrightarrow> m_ptrs m' = m_ptrs m \<Longrightarrow> follows b m b m'"
  unfolding follows_def by (auto simp: others_def intro: keeps_mono)

lemma piece_bytes_follows:
  assumes "keeps I m m'" "piece_ok I m x"
  shows "piece_bytes m' x = piece_bytes m x" "piece_ok I m' x"
proof -
  have sub: "bl_bytes m' c = bl_bytes m c" if "set (bufs c) \<subseteq> I" for c
    using bl_bytes_keeps [OF assms(1) that] .
  have raws: "has_raw m' i = has_raw m i" if "i \<in> I" for i by (rule has_raw_keeps [OF assms(1) that])
  show "piece_bytes m' x = piece_bytes m x"
    using assms(2) sub keepsD(2) [OF assms(1)] by (cases x) auto
  show "piece_ok I m' x"
  proof (cases x)
    case (Piece_list c)
    then have "wf_nodes m' (c\<lparr>tail_cache := None\<rparr>)" "bl_bytes m' (c\<lparr>tail_cache := None\<rparr>) = bl_bytes m (c\<lparr>tail_cache := None\<rparr>)"
      using assms(2) raws sub [of "c\<lparr>tail_cache := None\<rparr>"] by (auto simp: wf_list_def wf_nodes_def subset_iff)
    then show ?thesis using assms(2) Piece_list by (simp add: wf_list_def)
  qed (use assms(2) raws in auto)
qed

lemma piece_room_follows:
  "keeps I m m' \<Longrightarrow> piece_ok I m x \<Longrightarrow> piece_room deep m' x = piece_room deep m x"
  using piece_bytes_follows(1) [of I m m' x] by (cases x) auto

lemma append_bytes_ok:
  assumes "writing a b m bs n" "length d \<le> n"
  shows "\<exists>a' m'. appender_append d a m = Inr (a', m') \<and> writing a' b m' (bs @ d) (n - length d) \<and>
    follows b m b m' \<and> ap_deep a' = ap_deep a"
  using appender_append_ok [OF assms] written_follows by blast

lemma append_nodes_ok:
  assumes "writing a b m bs n" "set is \<subseteq> others m b" "\<forall>i \<in> set is. has_raw m i"
    "length (concat (map (node_bytes m) is)) \<le> n"
  shows "\<exists>a' m'. appender_append_nodes is a m = Inr (a', m') \<and>
    writing a' b m' (bs @ concat (map (node_bytes m) is)) (n - length (concat (map (node_bytes m) is))) \<and>
    follows b m b m' \<and> ap_deep a' = ap_deep a"
  using assms
proof (induction "is" arbitrary: a m bs n)
  case Nil
  then show ?case by (simp add: follows_def)
next
  case (Cons i js)
  have wf: "wf_mem m" using Cons.prems(1) readyD(1) by (auto simp: writing_def)
  obtain p r where "m_ptrs m i = Some p" "p_raw p = Some r" using Cons.prems(3) unfolding has_raw_def by auto
  then have rd: "ptr_read m i = Inr (node_bytes m i)" by (rule ptr_read_ok [OF wf])
  obtain a1 m1 where s: "appender_append (node_bytes m i) a m = Inr (a1, m1)"
      "writing a1 b m1 (bs @ node_bytes m i) (n - length (node_bytes m i))" "follows b m b m1" "ap_deep a1 = ap_deep a"
    using append_bytes_ok [OF Cons.prems(1), of "node_bytes m i"] Cons.prems(4) by auto
  have k: "keeps (others m b) m m1" "others m1 b = others m b" using s(3) by (auto simp: follows_def)
  have same: "map (node_bytes m1) js = map (node_bytes m) js"
    using Cons.prems(2) keepsD(2) [OF k(1)] by (intro map_cong) auto
  have raws: "\<forall>i \<in> set js. has_raw m1 i"
    using Cons.prems(2,3) has_raw_keeps [OF k(1)] by auto
  have pre: "set js \<subseteq> others m1 b"
    "length (concat (map (node_bytes m1) js)) \<le> n - length (node_bytes m i)"
    using Cons.prems(2,4) k(2) unfolding same by auto
  obtain a2 m2 where t: "appender_append_nodes js a1 m1 = Inr (a2, m2)"
      "writing a2 b m2 ((bs @ node_bytes m i) @ concat (map (node_bytes m) js))
        (n - length (node_bytes m i) - length (concat (map (node_bytes m) js)))"
      "follows b m1 b m2" "ap_deep a2 = ap_deep a1"
    using Cons.IH [OF s(2) pre(1) raws pre(2)] unfolding same by blast
  then show ?case using s rd follows_trans [OF s(3) t(3)] by (auto simp: diff_diff_eq)
qed

lemma piece_list_raws:
  assumes "wf_list m (c\<lparr>tail_cache := None\<rparr>)"
  shows "\<forall>i \<in> set (bufs c). has_raw m i" "b_len c = length (bl_bytes m c)"
  using assms by (auto simp: wf_list_def wf_nodes_def bl_bytes_def)

lemma append_object_ok:
  assumes w: "writing a b m bs n" and ok: "i \<in> others m b" "has_raw m i" "\<not> ap_deep a"
    and ne: "node_bytes m i \<noteq> []" and small: "length (bs @ node_bytes m i) < 2 ^ 62" "length (bufs b) + 2 < 2 ^ 62"
  shows "\<exists>a' b' m'. appender_append_ptr i a b m = Inr (a', b', m') \<and> writing a' b' m' (bs @ node_bytes m i) n \<and>
    becomes b m (bs @ node_bytes m i) b' m' \<and> \<not> ap_deep a' \<and> length (bufs b') \<le> length (bufs b) + 2"
proof -
  obtain a1 b1 m1 where f: "flush_and_continue a b m = Inr (a1, b1, m1)" "writing a1 b1 m1 bs n"
      "becomes b m bs b1 m1" "ap_data a1 = ap_pos a1" "ap_deep a1 = ap_deep a" "bufs b1 = bufs b"
    using flush_ok [OF w] small(1) by auto
  note F = becomes_follows [OF f(3), unfolded follows_def]
  have rdy1: "ready b1 m1" using f(2) by (simp add: writing_def)
  have same: "node_bytes m1 i = node_bytes m i" "has_raw m1 i"
    using F ok(1,2) keepsD(2) has_raw_keeps by blast+
  obtain p r where p: "m_ptrs m1 i = Some p" "p_raw p = Some r" using same(2) unfolding has_raw_def by blast
  have plen: "p_len p = length (node_bytes m i)"
    using length_node_bytes [OF readyD(1) [OF rdy1] p(1)] same(1) by simp
  have psmall: "p_len p < 2 ^ 62" using plen small(1) by simp
  have bl: "bl_bytes m1 b1 = bs" using f(3) by (simp add: becomes_def turns_def)
  obtain b2 m2 where g: "blist_push_back i b1 m1 = Inr (b2, m2)"
      "becomes b1 m1 (bl_bytes m1 b1 @ node_bytes m i) b2 m2"
    using blist_push_back_ok [OF rdy1 p(1) psmall] same(1) by auto
  obtain k where k: "ptr_copy i m1 = Inr (k, m2)"
    using g(1) p(1) plen ne by (auto simp: blist_push_back_def ptr_at_def ebind_Inr_iff)
  have c: "ap_node a1 \<in> dom (m_ptrs m1)" using f(2) unfolding writing_def by auto
  note sh = ptr_copy_shape [OF k readyD(1) [OF rdy1]]
  have "\<exists>a' b' m'. appender_reclaim (length (node_bytes m i)) a1 b2 m2 = Inr (a', b', m') \<and>
      writing a' b' m' (bs @ node_bytes m i) n \<and>
      becomes b1 m1 (bs @ node_bytes m i) b' m' \<and> ap_deep a' = ap_deep a1 \<and> length (bufs b') \<le> length (bufs b2) + 1"
    by (rule take_over_ok [OF f(2,4) g(2) push_back_shape(1) [OF g(1)] sh(1) [OF c] sh(2) small(1)])
      (use push_back_shape(2) [OF g(1)] f(6) small(2) in auto)
  then obtain a3 b3 m3 where r: "appender_reclaim (length (node_bytes m i)) a1 b2 m2 = Inr (a3, b3, m3)"
      "writing a3 b3 m3 (bs @ node_bytes m i) n" "becomes b1 m1 (bs @ node_bytes m i) b3 m3"
      "ap_deep a3 = ap_deep a1" "length (bufs b3) \<le> length (bufs b2) + 1"
    by blast
  have "ptr_length m i = Inr (length (node_bytes m i))"
  proof -
    obtain p0 r0 where p0: "m_ptrs m i = Some p0" "p_raw p0 = Some r0" using ok(2) unfolding has_raw_def by blast
    have "wf_mem m" using w readyD(1) by (auto simp: writing_def)
    then show ?thesis
      using length_node_bytes p0(1) by (simp add: ptr_length_def ptr_at_def)
  qed
  then have "appender_append_ptr i a b m = Inr (a3, b3, m3)"
    using ne ok(3) f(1) g(1) r(1) by (simp add: appender_append_ptr_def blist_append_ptr_def)
  moreover have "becomes b m (bs @ node_bytes m i) b3 m3"
    using f(3) r(3) turns_trans by (auto simp: becomes_def)
  ultimately show ?thesis
    using r(2,4,5) f(5,6) ok(3) push_back_shape(2) [OF g(1)] by auto
qed

lemma append_other_ok:
  assumes w: "writing a b m bs n" and ok: "piece_ok (others m b) m (Piece_list c)" "\<not> ap_deep a"
    and small: "length (bs @ bl_bytes m c) < 2 ^ 62" "length (bufs b) + (length (bufs c) + 1) < 2 ^ 62"
  shows "\<exists>a' b' m'. appender_append_list c a b m = Inr (a', b', m') \<and> writing a' b' m' (bs @ bl_bytes m c) n \<and>
    becomes b m (bs @ bl_bytes m c) b' m' \<and> \<not> ap_deep a' \<and> length (bufs b') \<le> length (bufs b) + (length (bufs c) + 1)"
proof -
  let ?c = "c\<lparr>tail_cache := None\<rparr>"
  obtain a1 b1 m1 where f: "flush_and_continue a b m = Inr (a1, b1, m1)" "writing a1 b1 m1 bs n"
      "becomes b m bs b1 m1" "ap_data a1 = ap_pos a1" "ap_deep a1 = ap_deep a" "bufs b1 = bufs b"
    using flush_ok [OF w] small(1) by auto
  have F: "keeps (others m b) m m1" "others m1 b1 = others m b"
    using becomes_follows [OF f(3)] by (auto simp: follows_def)
  have rdy1: "ready b1 m1" using f(2) by (simp add: writing_def)
  have c1: "piece_ok (others m b) m1 (Piece_list c)" "bl_bytes m1 c = bl_bytes m c"
    using piece_bytes_follows [OF F(1) ok(1)] by simp_all
  have clen: "b_len c = length (bl_bytes m c)" using piece_list_raws(2) [of m c] ok(1) by simp
  have apart: "apart b1 ?c" using ok(1) F(2) f(6) by (auto simp: apart_def others_def)
  have bl: "bl_bytes m1 b1 = bs" using f(3) by (simp add: becomes_def turns_def)
  have cb: "bl_bytes m1 ?c = bl_bytes m c" using c1(2) by (simp add: bl_bytes_def)
  obtain b2 m2 where g0: "blist_append_list ?c b1 m1 = Inr (b2, m2)"
      "becomes b1 m1 (bl_bytes m1 b1 @ bl_bytes m1 ?c) b2 m2"
    using blist_append_list_ok [OF rdy1 _ apart] c1(1) clen small by auto
  have g: "blist_append_list c b1 m1 = Inr (b2, m2)" "becomes b1 m1 (bl_bytes m1 b1 @ bl_bytes m c) b2 m2"
    using g0 cb by (simp_all add: blist_append_list_def)
  obtain ks where k: "clone_nodes (bufs c) m1 = Inr (ks, m2)" "bufs b2 = bufs b1 @ ks"
    using g(1) by (auto simp: blist_append_list_def ebind_Inr_iff)
  have sub: "set (bufs c) \<subseteq> dom (m_ptrs m1)" using ok(1) F(2) by (auto simp: others_def)
  have kept: "\<forall>j \<in> dom (m_ptrs m1). m_ptrs m2 j = m_ptrs m1 j" "length ks = length (bufs c)"
    using clone_nodes_spec [OF readyD(1) [OF rdy1] sub] k(1) by auto
  have c: "ap_node a1 \<in> dom (m_ptrs m1)" using f(2) unfolding writing_def by auto
  have "\<exists>a' b' m'. appender_reclaim (b_len c) a1 b2 m2 = Inr (a', b', m') \<and>
      writing a' b' m' (bs @ bl_bytes m c) n \<and>
      becomes b1 m1 (bs @ bl_bytes m c) b' m' \<and> ap_deep a' = ap_deep a1 \<and> length (bufs b') \<le> length (bufs b2) + 1"
    by (rule take_over_ok [OF f(2,4) g(2) append_list_shape [OF g(1)] _ clone_nodes_shape [OF k(1)] small(1)])
      (use kept c k(2) f(6) small(2) in auto)
  then obtain a3 b3 m3 where r: "appender_reclaim (b_len c) a1 b2 m2 = Inr (a3, b3, m3)"
      "writing a3 b3 m3 (bs @ bl_bytes m c) n" "becomes b1 m1 (bs @ bl_bytes m c) b3 m3"
      "ap_deep a3 = ap_deep a1" "length (bufs b3) \<le> length (bufs b2) + 1"
    by blast
  have "appender_append_list c a b m = Inr (a3, b3, m3)"
    using ok(2) f(1) g(1) r(1) by (simp add: appender_append_list_def)
  moreover have "becomes b m (bs @ bl_bytes m c) b3 m3"
    using f(3) r(3) turns_trans by (auto simp: becomes_def)
  ultimately show ?thesis using r(2,4,5) f(5,6) ok(2) k(2) kept(2) by auto
qed

lemma append_piece_ok:
  assumes w: "writing a b m bs n" and ok: "piece_ok (others m b) m x" "piece_room (ap_deep a) m x \<le> n"
    and small: "length (bs @ piece_bytes m x) < 2 ^ 62" "length (bufs b) + piece_nodes x < 2 ^ 62"
  shows "\<exists>a' b' m'. append_piece x a b m = Inr (a', b', m') \<and>
    writing a' b' m' (bs @ piece_bytes m x) (n - piece_room (ap_deep a) m x) \<and>
    follows b m b' m' \<and> ap_deep a' = ap_deep a \<and> length (bufs b') \<le> length (bufs b) + piece_nodes x"
proof (cases x)
  case (Piece_bytes d)
  then show ?thesis using append_bytes_ok [OF w, of d] ok(2) by fastforce
next
  case (Piece_ptr i)
  have i: "i \<in> others m b" "has_raw m i" using ok(1) Piece_ptr by auto
  have wf: "wf_mem m" using w readyD(1) by (auto simp: writing_def)
  obtain p r where p: "m_ptrs m i = Some p" "p_raw p = Some r" using i(2) unfolding has_raw_def by blast
  have len: "ptr_length m i = Inr (length (node_bytes m i))" "ptr_read m i = Inr (node_bytes m i)"
    using length_node_bytes [OF wf p(1)] ptr_read_ok [OF wf p] p(1) by (simp_all add: ptr_length_def ptr_at_def)
  consider (none) "node_bytes m i = []" | (deep) "node_bytes m i \<noteq> []" "ap_deep a" | (shallow) "node_bytes m i \<noteq> []" "\<not> ap_deep a"
    by blast
  then show ?thesis
  proof cases
    case none
    then show ?thesis using w len Piece_ptr by (auto simp: appender_append_ptr_def follows_def)
  next
    case deep
    then show ?thesis
      using append_bytes_ok [OF w, of "node_bytes m i"] len Piece_ptr ok(2) by (fastforce simp: appender_append_ptr_def)
  next
    case shallow
    have "\<exists>a' b' m'. appender_append_ptr i a b m = Inr (a', b', m') \<and> writing a' b' m' (bs @ node_bytes m i) n \<and>
        becomes b m (bs @ node_bytes m i) b' m' \<and> \<not> ap_deep a' \<and> length (bufs b') \<le> length (bufs b) + 2"
      by (rule append_object_ok [OF w i shallow(2,1)]) (use small Piece_ptr in auto)
    then show ?thesis using Piece_ptr shallow(2) becomes_follows by fastforce
  qed
next
  case (Piece_list c)
  show ?thesis
  proof (cases "ap_deep a")
    case True
    have "set (bufs c) \<subseteq> others m b" "\<forall>i \<in> set (bufs c). has_raw m i"
      using ok(1) Piece_list piece_list_raws by auto
    then show ?thesis
      using append_nodes_ok [OF w] True Piece_list ok(2)
      by (fastforce simp: bl_bytes_def appender_append_list_def)
  next
    case False
    have "\<exists>a' b' m'. appender_append_list c a b m = Inr (a', b', m') \<and> writing a' b' m' (bs @ bl_bytes m c) n \<and>
        becomes b m (bs @ bl_bytes m c) b' m' \<and> \<not> ap_deep a' \<and> length (bufs b') \<le> length (bufs b) + (length (bufs c) + 1)"
      by (rule append_other_ok [OF w _ False]) (use ok(1) small Piece_list in auto)
    then show ?thesis using Piece_list False becomes_follows by fastforce
  qed
qed

lemma append_pieces_ok:
  assumes "writing a b m bs n" "\<forall>x \<in> set xs. piece_ok (others m b) m x"
    "sum_list (map (piece_room (ap_deep a) m) xs) \<le> n"
    "length (bs @ concat (map (piece_bytes m) xs)) < 2 ^ 62"
    "length (bufs b) + sum_list (map piece_nodes xs) < 2 ^ 62"
  shows "\<exists>b' m'. append_pieces xs a b m = Inr (b', m') \<and>
    wf_mem m' \<and> wf_list m' b' \<and> bl_bytes m' b' = bs @ concat (map (piece_bytes m) xs) \<and> follows b m b' m'"
  using assms
proof (induction xs arbitrary: a b m bs n)
  case Nil
  then obtain a' b' m' where f: "flush_and_continue a b m = Inr (a', b', m')" "becomes b m bs b' m'"
    using flush_ok by fastforce
  then show ?case
    using becomes_follows [OF f(2)] becomes_wf [OF f(2)] turnsD(1,3) [of b m bs b' m']
    by (simp add: appender_destroy_def becomes_def)
next
  case (Cons x xs)
  have x: "piece_ok (others m b) m x" "piece_room (ap_deep a) m x \<le> n"
    "length (bs @ piece_bytes m x) < 2 ^ 62" "length (bufs b) + piece_nodes x < 2 ^ 62"
    using Cons.prems by auto
  obtain a1 b1 m1 where s: "append_piece x a b m = Inr (a1, b1, m1)"
      "writing a1 b1 m1 (bs @ piece_bytes m x) (n - piece_room (ap_deep a) m x)" "follows b m b1 m1"
      "ap_deep a1 = ap_deep a" "length (bufs b1) \<le> length (bufs b) + piece_nodes x"
    using append_piece_ok [OF Cons.prems(1) x] by blast
  have k: "keeps (others m b) m m1" "others m1 b1 = others m b" using s(3) by (auto simp: follows_def)
  have ok: "\<forall>y \<in> set xs. piece_ok (others m b) m y" using Cons.prems(2) by simp
  have same: "map (piece_bytes m1) xs = map (piece_bytes m) xs"
    "map (piece_room (ap_deep a) m1) xs = map (piece_room (ap_deep a) m) xs"
    using ok piece_bytes_follows(1) [OF k(1)] piece_room_follows [OF k(1)] by simp_all
  have pre: "\<forall>y \<in> set xs. piece_ok (others m1 b1) m1 y"
    "sum_list (map (piece_room (ap_deep a1) m1) xs) \<le> n - piece_room (ap_deep a) m x"
    "length ((bs @ piece_bytes m x) @ concat (map (piece_bytes m1) xs)) < 2 ^ 62"
    "length (bufs b1) + sum_list (map piece_nodes xs) < 2 ^ 62"
    unfolding s(4) same using ok piece_bytes_follows(2) [OF k(1)] k(2) Cons.prems(3-5) s(5) by auto
  obtain b2 m2 where t: "append_pieces xs a1 b1 m1 = Inr (b2, m2)" "wf_mem m2" "wf_list m2 b2"
      "bl_bytes m2 b2 = (bs @ piece_bytes m x) @ concat (map (piece_bytes m) xs)" "follows b1 m1 b2 m2"
    using Cons.IH [OF s(2) pre] unfolding same by blast
  then show ?case using s(1) follows_trans [OF s(3) t(5)] by simp
qed

subsection \<open>The property\<close>

definition appender_session :: "nat \<Rightarrow> bool \<Rightarrow> piece list \<Rightarrow> blist \<Rightarrow> mem \<Rightarrow> exn + blist \<times> mem" where
  "appender_session len deep xs b m =
    ebind (appender_new len deep b m) (\<lambda>(a, b, m). append_pieces xs a b m)"

text \<open>
  Copying is not checked against the reservation: behind the end of the raw it would write into
  foreign memory.
\<close>

lemma append_beyond:
  assumes "m_raws m (fst (ap_pos a)) = Some w" "length (r_data w) < snd (ap_pos a) + length data"
  shows "appender_append data a m = Inl Undefined"
  using assms by (simp add: appender_append_def raw_write_def raw_at_def)

text \<open>
  C13 (functional). A \<^verbatim>\<open>contiguous_appender\<close> for \<open>len\<close> bytes is given any sequence of byte blocks, \<^verbatim>\<open>ptr\<close>s
  and lists and then destroyed. As long as the caller has it copy no more than the \<open>len\<close> bytes reserved,
  which is left to the caller, the list has all their bytes appended in order, those of \<^verbatim>\<open>ptr\<close>s and
  lists that join without a copy, and do not count towards \<open>len\<close>, included; objects outside the list are
  unchanged and no node is left over.
\<close>

theorem appender_appends:
  assumes "ready b m" "0 < len" "len < 2 ^ 62"
    and "\<forall>x \<in> set xs. piece_ok (others m b) m x" "sum_list (map (piece_room deep m) xs) \<le> len"
    and "length (bl_bytes m b @ concat (map (piece_bytes m) xs)) < 2 ^ 62"
    and "length (bufs b) + 1 + sum_list (map piece_nodes xs) < 2 ^ 62"
  shows "\<exists>b' m'. appender_session len deep xs b m = Inr (b', m') \<and> wf_mem m' \<and> wf_list m' b' \<and>
    bl_bytes m' b' = bl_bytes m b @ concat (map (piece_bytes m) xs) \<and>
    keeps (others m b) m m' \<and> others m' b' = others m b"
proof -
  obtain a b1 m1 where s: "appender_new len deep b m = Inr (a, b1, m1)" "writing a b1 m1 (bl_bytes m b) len"
      "becomes b m (bl_bytes m b) b1 m1" "ap_deep a = deep" "length (bufs b1) \<le> length (bufs b) + 1"
  proof -
    have "length (bufs b) + 1 < 2 ^ 62" using assms(7) by simp
    then show ?thesis using that appender_new_ok [OF assms(1,3) disjI1 [OF assms(2)], of deep] by blast
  qed
  have k: "keeps (others m b) m m1" "others m1 b1 = others m b"
    using becomes_follows [OF s(3)] by (auto simp: follows_def)
  have same: "map (piece_bytes m1) xs = map (piece_bytes m) xs"
    "map (piece_room deep m1) xs = map (piece_room deep m) xs"
    using assms(4) piece_bytes_follows(1) [OF k(1)] piece_room_follows [OF k(1)] by simp_all
  have pre: "\<forall>x \<in> set xs. piece_ok (others m1 b1) m1 x" "sum_list (map (piece_room (ap_deep a) m1) xs) \<le> len"
    "length (bl_bytes m b @ concat (map (piece_bytes m1) xs)) < 2 ^ 62"
    "length (bufs b1) + sum_list (map piece_nodes xs) < 2 ^ 62"
    unfolding s(4) same using assms(4-7) piece_bytes_follows(2) [OF k(1)] k(2) s(5) by auto
  obtain b2 m2 where t: "append_pieces xs a b1 m1 = Inr (b2, m2)" "wf_mem m2" "wf_list m2 b2"
      "bl_bytes m2 b2 = bl_bytes m b @ concat (map (piece_bytes m) xs)" "follows b1 m1 b2 m2"
    using append_pieces_ok [OF s(2) pre] unfolding same by blast
  have "appender_session len deep xs b m = Inr (b2, m2)" using s(1) t(1) by (simp add: appender_session_def)
  then show ?thesis
    using t(2-4) follows_trans [OF becomes_follows [OF s(3)] t(5)] unfolding follows_def by blast
qed

theorem appender_appends_witness:
  "\<exists>m b' m'. appender_session 3 False [Piece_bytes [7, 8], Piece_ptr 1, Piece_bytes [9]] blist_new m = Inr (b', m') \<and>
     bl_bytes m' b' = [7, 8, 1, 2, 3, 9]"
proof -
  obtain m where m: "ready blist_new m" "node_bytes m 1 = [1, 2, 3]"
    "m_ptrs m = [1 \<mapsto> \<lparr>p_raw = Some 0, p_off = 0, p_len = 3\<rparr>]"
    using demo_object by blast
  let ?xs = "[Piece_bytes [7, 8], Piece_ptr 1, Piece_bytes [9]]"
  have none: "bufs blist_new = []" "bl_bytes m blist_new = []" by (simp_all add: blist_new_def bl_bytes_def)
  have bytes: "concat (map (piece_bytes m) ?xs) = [7, 8, 1, 2, 3, 9]"
    using m(2) by simp
  have ok: "\<forall>x \<in> set ?xs. piece_ok (others m blist_new) m x"
    using m(3) none by (auto simp: others_def has_raw_def)
  have room: "sum_list (map (piece_room False m) ?xs) \<le> 3" by simp
  have small: "length (bl_bytes m blist_new @ concat (map (piece_bytes m) ?xs)) < 2 ^ 62"
    "length (bufs blist_new) + 1 + sum_list (map piece_nodes ?xs) < 2 ^ 62"
    unfolding bytes none by simp_all
  show ?thesis
    using appender_appends [OF m(1) _ _ ok room small] unfolding none bytes by force
qed

end
