(* ===== verification/Buffer_Order.thy ===== *)
theory Buffer_Order
  imports Iter_Spec
begin

text \<open>
  The comparison operators of lists (end of \<^verbatim>\<open>buffer_list.h\<close>): they walk two iterators in step and
  compare the \<^verbatim>\<open>char\<close>s they point to. \<^verbatim>\<open>char\<close> is signed on the platforms the library is built for.
\<close>

subsection \<open>The operators\<close>

definition list_begin :: "mem \<Rightarrow> blist \<Rightarrow> exn + iter" where
  "list_begin m b = iter_new m b 0"

definition list_end :: "blist \<Rightarrow> iter" where
  "list_end b = \<lparr>it_node = None, it_r_off = 0, it_a_off = b_len b\<rparr>"

definition at_end :: "blist \<Rightarrow> iter \<Rightarrow> bool" where
  "at_end b it = iter_eq True it (list_end b)"

text \<open>\<^verbatim>\<open>operator==\<close>: \<^verbatim>\<open>std::equal\<close> over the first list's range.\<close>

definition equal_round :: "mem \<Rightarrow> blist \<Rightarrow> blist \<Rightarrow> iter \<times> iter \<Rightarrow> exn + bool + iter \<times> iter" where
  "equal_round m lhs rhs s =
    (case s of (l, r) \<Rightarrow>
      if at_end lhs l then Inr (Inl True)
      else
        ebind (iter_deref m l) (\<lambda>x.
        ebind (iter_deref m r) (\<lambda>y.
        if x \<noteq> y then Inr (Inl False)
        else ebind (iter_next m lhs l) (\<lambda>l. ebind (iter_next m rhs r) (\<lambda>r. Inr (Inr (l, r)))))))"

definition list_equal :: "mem \<Rightarrow> blist \<Rightarrow> blist \<Rightarrow> (exn + bool) option" where
  "list_equal m lhs rhs =
    (if b_len lhs \<noteq> b_len rhs then Some (Inr False)
     else rbind (Some (list_begin m lhs)) (\<lambda>l.
          rbind (Some (list_begin m rhs)) (\<lambda>r. run (equal_round m lhs rhs) (l, r))))"

text \<open>The loop of \<^verbatim>\<open>operator<\<close> and \<^verbatim>\<open>operator<=\<close>; \<open>res\<close> is what is returned after it.\<close>

definition order_round ::
    "mem \<Rightarrow> blist \<Rightarrow> blist \<Rightarrow> (bool \<Rightarrow> bool \<Rightarrow> bool) \<Rightarrow> iter \<times> iter \<Rightarrow> exn + bool + iter \<times> iter" where
  "order_round m lhs rhs res s =
    (case s of (l, r) \<Rightarrow>
      if at_end lhs l \<or> at_end rhs r then Inr (Inl (res (at_end lhs l) (at_end rhs r)))
      else
        ebind (iter_deref m l) (\<lambda>x.
        ebind (iter_deref m r) (\<lambda>y.
        if sint x < sint y then Inr (Inl True)
        else if sint x > sint y then Inr (Inl False)
        else ebind (iter_next m lhs l) (\<lambda>l. ebind (iter_next m rhs r) (\<lambda>r. Inr (Inr (l, r)))))))"

definition list_order ::
    "(bool \<Rightarrow> bool \<Rightarrow> bool) \<Rightarrow> mem \<Rightarrow> blist \<Rightarrow> blist \<Rightarrow> (exn + bool) option" where
  "list_order res m lhs rhs =
    rbind (Some (list_begin m lhs)) (\<lambda>l.
    rbind (Some (list_begin m rhs)) (\<lambda>r. run (order_round m lhs rhs res) (l, r)))"

definition list_less :: "mem \<Rightarrow> blist \<Rightarrow> blist \<Rightarrow> (exn + bool) option" where
  "list_less = list_order (\<lambda>lend rend. lend \<and> \<not> rend)"

definition list_less_equal :: "mem \<Rightarrow> blist \<Rightarrow> blist \<Rightarrow> (exn + bool) option" where
  "list_less_equal = list_order (\<lambda>lend _. lend)"

definition list_not_equal :: "mem \<Rightarrow> blist \<Rightarrow> blist \<Rightarrow> (exn + bool) option" where
  "list_not_equal m lhs rhs = rbind (list_equal m lhs rhs) (\<lambda>e. Some (Inr (\<not> e)))"

definition list_greater :: "mem \<Rightarrow> blist \<Rightarrow> blist \<Rightarrow> (exn + bool) option" where
  "list_greater m lhs rhs = list_less m rhs lhs"

definition list_greater_equal :: "mem \<Rightarrow> blist \<Rightarrow> blist \<Rightarrow> (exn + bool) option" where
  "list_greater_equal m lhs rhs = list_less_equal m rhs lhs"

subsection \<open>The order of byte sequences\<close>

fun chars_less :: "bytes \<Rightarrow> bytes \<Rightarrow> bool" where
  "chars_less [] ys \<longleftrightarrow> ys \<noteq> []"
| "chars_less (x # xs) [] \<longleftrightarrow> False"
| "chars_less (x # xs) (y # ys) \<longleftrightarrow> sint x < sint y \<or> x = y \<and> chars_less xs ys"

lemma chars_less_irrefl: "\<not> chars_less xs xs"
  by (induction xs) auto

lemma chars_less_trans: "chars_less xs ys \<Longrightarrow> chars_less ys zs \<Longrightarrow> chars_less xs zs"
proof (induction xs arbitrary: ys zs)
  case Nil
  then show ?case by (cases ys; cases zs) auto
next
  case (Cons x xs)
  then show ?case by (cases ys; cases zs) fastforce+
qed

lemma chars_less_linear: "chars_less xs ys \<or> xs = ys \<or> chars_less ys xs"
proof (induction xs arbitrary: ys)
  case Nil
  then show ?case by (cases ys) auto
next
  case (Cons x xs)
  show ?case
  proof (cases ys)
    case (Cons y ys')
    have "sint x < sint y \<or> x = y \<or> sint y < sint x" by (metis linorder_neqE_linordered_idom signed_word_eqI)
    then show ?thesis using Cons Cons.IH [of ys'] by auto
  qed auto
qed

subsection \<open>Iterators in step\<close>

definition stands :: "mem \<Rightarrow> blist \<Rightarrow> nat \<Rightarrow> iter \<Rightarrow> bool" where
  "stands m b p it \<longleftrightarrow> iter_ok m b it \<and> settled m (cursor_of b it) \<and> it_a_off it = p"

lemma stands_moved:
  assumes wf: "wf_mem m" "wf_list m b" "b_len b < two64"
    and c: "cursor_ok m (bufs b) (cur, r, a)" "a + off \<le> b_len b"
  shows "\<exists>it. ebind (cur_add m off (cur, r, a)) (\<lambda>c. Inr (iter_of c)) = Inr it \<and> stands m b (a + off) it"
proof -
  note w = wf_listD [OF wf(2)]
  obtain cur' r' where k: "cur_add m off (cur, r, a) = Inr (cur', r', a + off)"
      "cursor_ok m (bufs b) (cur', r', a + off)" "settled m (cur', r', a + off)"
    using cur_add_ok [OF wf(1) w(2) _ c(1), of off] w(3) wf(3) c(2) by auto
  note i = cursor_of_iter [OF wf_nodesD(1) [OF w(1)] k(2)]
  have "stands m b (a + off) (iter_of (cur', r', a + off))"
    unfolding stands_def i(1) using i(2) k(3) by (simp add: iter_of_def)
  then show ?thesis using k(1) by simp
qed

lemma list_begin_ok:
  assumes "wf_mem m" "wf_list m b" "b_len b < two64"
  shows "\<exists>it. list_begin m b = Inr it \<and> stands m b 0 it"
  using stands_moved [OF assms cursor_start, of 0] by (simp add: list_begin_def iter_new_def)

lemma stands_end: "stands m b p it \<Longrightarrow> at_end b it \<longleftrightarrow> p = b_len b"
  by (simp add: stands_def at_end_def iter_eq_def list_end_def get_off_def)

lemma stands_inside:
  assumes wf: "wf_mem m" "wf_list m b" "b_len b < two64" and p: "stands m b p it" "p < b_len b"
  shows "iter_deref m it = Inr (bl_bytes m b ! p)"
    "\<exists>it'. iter_next m b it = Inr it' \<and> stands m b (Suc p) it'"
proof -
  note w = wf_listD [OF wf(2)]
  obtain cur r where c: "cursor_of b it = (cur, r, p)"
    using p(1) by (auto simp: stands_def cursor_of_def)
  have ok: "cursor_ok m (bufs b) (cur, r, p)" "node_of cur = it_node it" "settled m (cur, r, p)"
    using p(1) c by (auto simp: stands_def iter_ok_def)
  have "cur \<noteq> []" using cursor_okD(3) [OF ok(1)] p(2) w(3) by auto
  then obtain i js where cur: "cur = i # js" by (cases cur) auto
  have i: "has_raw m i" using w(2) cursor_okD(5) [OF ok(1)] cur by auto
  have r: "r < length (node_bytes m i)" using ok(3) cur by (simp add: settled_def)
  have node: "it_node it = Some i" using ok(2) [symmetric] cur by (simp add: node_of_def)
  have rr: "it_r_off it = r" using c by (simp add: cursor_of_def)
  have "seg p 1 (bl_bytes m b) = seg r 1 (node_bytes m i)"
    using cursor_bytes [of m "bufs b" i js r p 1] ok(1) cur r by (simp add: bl_bytes_cat)
  then have "bl_bytes m b ! p = node_bytes m i ! r"
    using p(2) w(3) r by (auto simp: seg_def bl_bytes_cat take_Suc_conv_app_nth hd_drop_conv_nth take_Suc)
  then show "iter_deref m it = Inr (bl_bytes m b ! p)"
    using has_raw_index [OF wf(1) i r] rr node by (simp add: iter_deref_def)
  show "\<exists>it'. iter_next m b it = Inr it' \<and> stands m b (Suc p) it'"
    using stands_moved [OF wf ok(1), of 1] p(2) c node by (simp add: iter_next_def iter_add_def)
qed

subsection \<open>The loops\<close>

lemma chars_less_drop:
  assumes "p < length xs" "p < length ys"
  shows "chars_less (drop p xs) (drop p ys) \<longleftrightarrow>
    sint (xs ! p) < sint (ys ! p) \<or> xs ! p = ys ! p \<and> chars_less (drop (Suc p) xs) (drop (Suc p) ys)"
  using assms by (simp only: Cons_nth_drop_Suc [symmetric] chars_less.simps)

lemma drop_eq_step:
  assumes "p < length xs" "p < length ys"
  shows "drop p xs = drop p ys \<longleftrightarrow> xs ! p = ys ! p \<and> drop (Suc p) xs = drop (Suc p) ys"
  using assms by (simp only: Cons_nth_drop_Suc [symmetric] list.inject)

definition both_ok :: "mem \<Rightarrow> blist \<Rightarrow> blist \<Rightarrow> bool" where
  "both_ok m lhs rhs \<longleftrightarrow> wf_mem m \<and> wf_list m lhs \<and> wf_list m rhs \<and> b_len lhs < two64 \<and> b_len rhs < two64"

lemma both_okD:
  assumes "both_ok m lhs rhs"
  shows "wf_mem m" "wf_list m lhs" "wf_list m rhs" "b_len lhs < two64" "b_len rhs < two64"
    "b_len lhs = length (bl_bytes m lhs)" "b_len rhs = length (bl_bytes m rhs)"
  using assms by (auto simp: both_ok_def wf_list_def)

lemma order_loop_ok:
  assumes "both_ok m lhs rhs" "stands m lhs p l" "stands m rhs p r" "p \<le> b_len lhs" "p \<le> b_len rhs"
    and "res True True = eq" "\<not> res False True" "res True False"
  shows "run (order_round m lhs rhs res) (l, r) =
    Some (Inr (chars_less (drop p (bl_bytes m lhs)) (drop p (bl_bytes m rhs)) \<or>
      eq \<and> drop p (bl_bytes m lhs) = drop p (bl_bytes m rhs)))"
  using assms(2-5)
proof (induction "b_len lhs - p" arbitrary: p l r)
  case 0
  note b = both_okD [OF assms(1)]
  have "p = b_len lhs" using 0 by simp
  then have "order_round m lhs rhs res (l, r) = Inr (Inl (res True (p = b_len rhs)))"
    using stands_end [OF 0(2)] stands_end [OF 0(3)] by (simp add: order_round_def)
  moreover have "drop p (bl_bytes m lhs) = []" using b(6) \<open>p = b_len lhs\<close> by simp
  ultimately show ?case using assms(6-8) b(7) 0(5)
    by (cases "p = b_len rhs") (auto simp: run_simps(2))
next
  case (Suc k)
  note b = both_okD [OF assms(1)]
  have pl: "p < b_len lhs" using Suc(2) by simp
  note L = stands_inside [OF b(1,2,4) Suc(3) pl]
  show ?case
  proof (cases "p = b_len rhs")
    case True
    then have "order_round m lhs rhs res (l, r) = Inr (Inl (res False True))"
      using stands_end [OF Suc(3)] stands_end [OF Suc(4)] pl by (simp add: order_round_def)
    moreover have "drop p (bl_bytes m rhs) = []" "drop p (bl_bytes m lhs) \<noteq> []" using b(6,7) True pl by auto
    ultimately show ?thesis using assms(7) by (cases "drop p (bl_bytes m lhs)") (auto simp: run_simps(2))
  next
    case False
    then have pr: "p < b_len rhs" using Suc(6) by simp
    note R = stands_inside [OF b(1,3,5) Suc(4) pr]
    obtain l' r' where n: "iter_next m lhs l = Inr l'" "stands m lhs (Suc p) l'"
        "iter_next m rhs r = Inr r'" "stands m rhs (Suc p) r'"
      using L(2) R(2) by blast
    let ?x = "bl_bytes m lhs ! p" and ?y = "bl_bytes m rhs ! p"
    have round: "order_round m lhs rhs res (l, r) =
        (if sint ?x < sint ?y then Inr (Inl True) else if sint ?x > sint ?y then Inr (Inl False)
         else Inr (Inr (l', r')))"
      using stands_end [OF Suc(3)] stands_end [OF Suc(4)] pl pr L(1) R(1) n(1,3)
      by (simp add: order_round_def)
    have len: "p < length (bl_bytes m lhs)" "p < length (bl_bytes m rhs)" using pl pr b(6,7) by simp_all
    have IH: "run (order_round m lhs rhs res) (l', r') =
        Some (Inr (chars_less (drop (Suc p) (bl_bytes m lhs)) (drop (Suc p) (bl_bytes m rhs)) \<or>
          eq \<and> drop (Suc p) (bl_bytes m lhs) = drop (Suc p) (bl_bytes m rhs)))"
      by (rule Suc.hyps(1) [OF _ n(2,4)]) (use Suc(2) pl pr in auto)
    consider "sint ?x < sint ?y" | "sint ?x > sint ?y" "?x \<noteq> ?y" | "?x = ?y"
      by (metis linorder_neqE_linordered_idom signed_word_eqI)
    then show ?thesis
      unfolding chars_less_drop [OF len] drop_eq_step [OF len]
      using round IH
      by cases (auto simp: run_simps(2) run_simps(3) [of "order_round m lhs rhs res" "(l, r)" "(l', r')"])
  qed
qed

lemma list_order_ok:
  assumes "both_ok m lhs rhs" "\<not> res False True" "res True False"
  shows "list_order res m lhs rhs =
    Some (Inr (chars_less (bl_bytes m lhs) (bl_bytes m rhs) \<or> res True True \<and> bl_bytes m lhs = bl_bytes m rhs))"
proof -
  note b = both_okD [OF assms(1)]
  obtain l r where "list_begin m lhs = Inr l" "stands m lhs 0 l" "list_begin m rhs = Inr r" "stands m rhs 0 r"
    using list_begin_ok [OF b(1,2,4)] list_begin_ok [OF b(1,3,5)] by blast
  then show ?thesis
    using order_loop_ok [OF assms(1), of 0 l r res "res True True"] assms(2,3) by (simp add: list_order_def)
qed

lemma equal_loop_ok:
  assumes "both_ok m lhs rhs" "stands m lhs p l" "stands m rhs p r" "p \<le> b_len lhs" "b_len lhs = b_len rhs"
  shows "run (equal_round m lhs rhs) (l, r) =
    Some (Inr (drop p (bl_bytes m lhs) = drop p (bl_bytes m rhs)))"
  using assms(2-4)
proof (induction "b_len lhs - p" arbitrary: p l r)
  case 0
  then have "p = b_len lhs" by simp
  then show ?case
    using stands_end [OF 0(2)] both_okD(6,7) [OF assms(1)] assms(5) by (simp add: equal_round_def run_simps(2))
next
  case (Suc k)
  note b = both_okD [OF assms(1)]
  have p: "p < b_len lhs" "p < b_len rhs" using Suc(2) assms(5) by auto
  note L = stands_inside [OF b(1,2,4) Suc(3) p(1)] and R = stands_inside [OF b(1,3,5) Suc(4) p(2)]
  obtain l' r' where n: "iter_next m lhs l = Inr l'" "stands m lhs (Suc p) l'"
      "iter_next m rhs r = Inr r'" "stands m rhs (Suc p) r'"
    using L(2) R(2) by blast
  have round: "equal_round m lhs rhs (l, r) =
      (if bl_bytes m lhs ! p \<noteq> bl_bytes m rhs ! p then Inr (Inl False) else Inr (Inr (l', r')))"
    using stands_end [OF Suc(3)] p L(1) R(1) n(1,3) by (simp add: equal_round_def)
  have len: "p < length (bl_bytes m lhs)" "p < length (bl_bytes m rhs)" using p b(6,7) by simp_all
  have IH: "run (equal_round m lhs rhs) (l', r') =
      Some (Inr (drop (Suc p) (bl_bytes m lhs) = drop (Suc p) (bl_bytes m rhs)))"
    by (rule Suc.hyps(1) [OF _ n(2,4)]) (use Suc(2) p in auto)
  show ?case
    unfolding drop_eq_step [OF len]
    using round IH
    by (cases "bl_bytes m lhs ! p = bl_bytes m rhs ! p")
      (auto simp: run_simps(2) run_simps(3) [of "equal_round m lhs rhs" "(l, r)" "(l', r')"])
qed

lemma list_equal_ok:
  assumes "both_ok m lhs rhs"
  shows "list_equal m lhs rhs = Some (Inr (bl_bytes m lhs = bl_bytes m rhs))"
proof (cases "b_len lhs = b_len rhs")
  case True
  note b = both_okD [OF assms]
  obtain l r where "list_begin m lhs = Inr l" "stands m lhs 0 l" "list_begin m rhs = Inr r" "stands m rhs 0 r"
    using list_begin_ok [OF b(1,2,4)] list_begin_ok [OF b(1,3,5)] by blast
  then show ?thesis
    using equal_loop_ok [OF assms, of 0 l r] True by (simp add: list_equal_def)
next
  case False
  then show ?thesis using both_okD(6,7) [OF assms] by (auto simp: list_equal_def)
qed

subsection \<open>The property\<close>

text \<open>
  C20 (functional). On lists of any node structure the comparison operators return, \<^verbatim>\<open>==\<close> answers whether
  the bytes are the same, and \<^verbatim>\<open><\<close>, \<^verbatim>\<open><=\<close>, \<^verbatim>\<open>>\<close> and \<^verbatim>\<open>>=\<close> are the lexicographic order of the bytes as
  signed \<^verbatim>\<open>char\<close>s, which is a strict linear order.
\<close>

theorem list_comparison:
  assumes "wf_mem m" "wf_list m lhs" "wf_list m rhs" "b_len lhs < two64" "b_len rhs < two64"
  defines "x \<equiv> bl_bytes m lhs" and "y \<equiv> bl_bytes m rhs"
  shows "list_equal m lhs rhs = Some (Inr (x = y)) \<and> list_not_equal m lhs rhs = Some (Inr (x \<noteq> y)) \<and>
    list_less m lhs rhs = Some (Inr (chars_less x y)) \<and>
    list_less_equal m lhs rhs = Some (Inr (chars_less x y \<or> x = y)) \<and>
    list_greater m lhs rhs = Some (Inr (chars_less y x)) \<and>
    list_greater_equal m lhs rhs = Some (Inr (\<not> chars_less x y)) \<and>
    (chars_less x y \<noteq> (x = y \<or> chars_less y x))"
proof -
  have b: "both_ok m lhs rhs" "both_ok m rhs lhs" using assms(1-5) by (simp_all add: both_ok_def)
  have c: "chars_less x y \<noteq> (x = y \<or> chars_less y x)"
    using chars_less_linear chars_less_irrefl chars_less_trans by metis
  then show ?thesis
    using list_equal_ok [OF b(1)] list_order_ok [OF b(1)] list_order_ok [OF b(2)]
    by (auto simp: list_not_equal_def list_less_def list_less_equal_def list_greater_def
        list_greater_equal_def x_def y_def)
qed

theorem list_comparison_witness:
  "\<exists>m b. list_equal m b b = Some (Inr True) \<and> list_less m blist_new b = Some (Inr True) \<and>
     list_less_equal m b blist_new = Some (Inr False) \<and> list_greater m b blist_new = Some (Inr True)"
proof -
  obtain m b where m: "ready b m" "bl_bytes m b = [1, 2, 3, 1, 2, 3]" using demo_list by blast
  have l: "wf_mem m" "wf_list m b" "b_len b < two64" "b_len blist_new < two64"
    using m(1) by (auto simp: ready_def two64_def blist_new_def)
  have "list_less_equal m b blist_new = Some (Inr False)"
    using list_comparison [OF l(1,2) wf_list_new l(3,4)] m(2) by simp
  moreover have "list_less m blist_new b = Some (Inr True)" "list_greater m b blist_new = Some (Inr True)"
    using list_comparison [OF l(1) wf_list_new l(2,4,3)] list_comparison [OF l(1,2) wf_list_new l(3,4)] m(2) by simp_all
  ultimately show ?thesis using list_comparison [OF l(1,2,2,3,3)] by auto
qed

text \<open>
  The order is not the one of \<^verbatim>\<open>ptr::cmp\<close>, which compares bytes as unsigned: above 127 the two disagree.
\<close>

lemma orders_disagree: "chars_less [128] [1] \<and> memcmp [128] [1] = 1"
  by simp

end
