(* ===== verification/Safe_Io.thy ===== *)
theory Safe_Io
  imports Loops
begin

text \<open>
  The retrying input and output of \<^verbatim>\<open>common/safe_io.c\<close>. The system calls are not part of the
  program: they are the fields of a record that every definition takes, and act on a state of the
  system the definitions know nothing about. A call returns an \<^verbatim>\<open>errno\<close> or its result.
\<close>

subsection \<open>The system calls\<close>

type_synonym errno = nat

datatype open_flag = O_rdonly | O_wronly | O_creat | O_trunc | O_cloexec

record 'os sys =
  sys_read :: "int \<Rightarrow> nat \<Rightarrow> 'os \<Rightarrow> (errno + bytes) \<times> 'os"
  sys_write :: "int \<Rightarrow> bytes \<Rightarrow> 'os \<Rightarrow> (errno + nat) \<times> 'os"
  sys_pread :: "int \<Rightarrow> nat \<Rightarrow> nat \<Rightarrow> 'os \<Rightarrow> (errno + bytes) \<times> 'os"
  sys_pwrite :: "int \<Rightarrow> bytes \<Rightarrow> nat \<Rightarrow> 'os \<Rightarrow> (errno + nat) \<times> 'os"
  sys_writev :: "int \<Rightarrow> bytes list \<Rightarrow> 'os \<Rightarrow> (errno + nat) \<times> 'os"
  sys_pwritev :: "int \<Rightarrow> bytes list \<Rightarrow> nat \<Rightarrow> 'os \<Rightarrow> (errno + nat) \<times> 'os"
  sys_open :: "string \<Rightarrow> open_flag list \<Rightarrow> nat \<Rightarrow> 'os \<Rightarrow> (errno + int) \<times> 'os"
  sys_close :: "int \<Rightarrow> 'os \<Rightarrow> (errno + unit) \<times> 'os"
  sys_fsync :: "int \<Rightarrow> 'os \<Rightarrow> (errno + unit) \<times> 'os"
  sys_rename :: "string \<Rightarrow> string \<Rightarrow> 'os \<Rightarrow> (errno + unit) \<times> 'os"
  sys_unlink :: "string \<Rightarrow> 'os \<Rightarrow> (errno + unit) \<times> 'os"
  sys_fstat :: "int \<Rightarrow> 'os \<Rightarrow> (errno + nat) \<times> 'os"
  sys_lseek :: "int \<Rightarrow> nat \<Rightarrow> 'os \<Rightarrow> (errno + nat) \<times> 'os"

definition eintr :: errno where
  "eintr = 4"

definition edom :: errno where
  "edom = 33"

definition path_max :: nat where
  "path_max = 4096"

text \<open>\<^verbatim>\<open>TEMP_FAILURE_RETRY\<close>.\<close>

definition retry_round ::
    "('os \<Rightarrow> (errno + 'a) \<times> 'os) \<Rightarrow> 'os \<Rightarrow> exn + ((errno + 'a) \<times> 'os) + 'os" where
  "retry_round call os =
    (case call os of (res, os) \<Rightarrow> if res = Inl eintr then Inr (Inr os) else Inr (Inl (res, os)))"

definition temp_failure_retry ::
    "('os \<Rightarrow> (errno + 'a) \<times> 'os) \<Rightarrow> 'os \<Rightarrow> (exn + (errno + 'a) \<times> 'os) option" where
  "temp_failure_retry call os = run (retry_round call) os"

subsection \<open>Reading\<close>

text \<open>
  The state of the loop is what has been read, whose length is \<^verbatim>\<open>cnt\<close>. The result is the return
  value with what is in the buffer then.
\<close>

definition safe_read_round ::
    "(nat \<Rightarrow> nat \<Rightarrow> 'os \<Rightarrow> (errno + bytes) \<times> 'os) \<Rightarrow> nat \<Rightarrow> bytes \<times> 'os
      \<Rightarrow> exn + (int \<times> bytes \<times> 'os) + (bytes \<times> 'os)" where
  "safe_read_round call count s =
    (case s of (buf, os) \<Rightarrow>
      let cnt = length buf in
      if cnt < count
      then case call cnt (count - cnt) os of
             (Inr bs, os) \<Rightarrow> if bs = [] then Inr (Inl (int cnt, buf, os)) else Inr (Inr (buf @ bs, os))
           | (Inl e, os) \<Rightarrow> if e = eintr then Inr (Inr (buf, os)) else Inr (Inl (- int e, buf, os))
      else Inr (Inl (int cnt, buf, os)))"

definition safe_read :: "'os sys \<Rightarrow> int \<Rightarrow> nat \<Rightarrow> 'os \<Rightarrow> (exn + int \<times> bytes \<times> 'os) option" where
  "safe_read sys fd count os = run (safe_read_round (\<lambda>_. sys_read sys fd) count) ([], os)"

definition exactly :: "nat \<Rightarrow> int \<times> bytes \<times> 'os \<Rightarrow> int \<times> bytes \<times> 'os" where
  "exactly count r =
    (case r of (ret, buf, os) \<Rightarrow>
      if ret < 0 then (ret, buf, os)
      else if nat ret \<noteq> count then (- int edom, buf, os)
      else (0, buf, os))"

definition safe_read_exact :: "'os sys \<Rightarrow> int \<Rightarrow> nat \<Rightarrow> 'os \<Rightarrow> (exn + int \<times> bytes \<times> 'os) option" where
  "safe_read_exact sys fd count os = rbind (safe_read sys fd count os) (\<lambda>r. Some (Inr (exactly count r)))"

definition safe_pread :: "'os sys \<Rightarrow> int \<Rightarrow> nat \<Rightarrow> nat \<Rightarrow> 'os \<Rightarrow> (exn + int \<times> bytes \<times> 'os) option" where
  "safe_pread sys fd count offset os =
    run (safe_read_round (\<lambda>cnt n. sys_pread sys fd n (offset + cnt)) count) ([], os)"

definition safe_pread_exact ::
    "'os sys \<Rightarrow> int \<Rightarrow> nat \<Rightarrow> nat \<Rightarrow> 'os \<Rightarrow> (exn + int \<times> bytes \<times> 'os) option" where
  "safe_pread_exact sys fd count offset os =
    rbind (safe_pread sys fd count offset os) (\<lambda>r. Some (Inr (exactly count r)))"

subsection \<open>Writing\<close>

text \<open>The state of the loop is what is left to be written, and how much has been.\<close>

definition safe_write_round ::
    "(nat \<Rightarrow> bytes \<Rightarrow> 'os \<Rightarrow> (errno + nat) \<times> 'os) \<Rightarrow> nat \<times> bytes \<times> 'os
      \<Rightarrow> exn + (int \<times> 'os) + (nat \<times> bytes \<times> 'os)" where
  "safe_write_round call s =
    (case s of (out, buf, os) \<Rightarrow>
      if length buf > 0
      then case call out buf os of
             (Inl e, os) \<Rightarrow> if e = eintr then Inr (Inr (out, buf, os)) else Inr (Inl (- int e, os))
           | (Inr r, os) \<Rightarrow> Inr (Inr (out + r, drop r buf, os))
      else Inr (Inl (0, os)))"

definition safe_write :: "'os sys \<Rightarrow> int \<Rightarrow> bytes \<Rightarrow> 'os \<Rightarrow> (exn + int \<times> 'os) option" where
  "safe_write sys fd buf os = run (safe_write_round (\<lambda>_. sys_write sys fd)) (0, buf, os)"

definition safe_pwrite :: "'os sys \<Rightarrow> int \<Rightarrow> bytes \<Rightarrow> nat \<Rightarrow> 'os \<Rightarrow> (exn + int \<times> 'os) option" where
  "safe_pwrite sys fd buf offset os =
    run (safe_write_round (\<lambda>out bs. sys_pwrite sys fd bs (offset + out))) (0, buf, os)"

subsection \<open>Whole files\<close>

text \<open>\<^verbatim>\<open>snprintf\<close> into a buffer of \<^verbatim>\<open>PATH_MAX\<close> characters cuts the name.\<close>

definition file_name :: "string \<Rightarrow> string \<Rightarrow> string \<Rightarrow> string" where
  "file_name base file suffix = take (path_max - 1) (base @ ''/'' @ file @ suffix)"

definition close_retry :: "'os sys \<Rightarrow> int \<Rightarrow> 'r \<Rightarrow> 'os \<Rightarrow> (exn + 'r \<times> 'os) option" where
  "close_retry sys fd ret os =
    rbind (temp_failure_retry (sys_close sys fd) os) (\<lambda>(_, os). Some (Inr (ret, os)))"

definition safe_read_file ::
    "'os sys \<Rightarrow> string \<Rightarrow> string \<Rightarrow> nat \<Rightarrow> 'os \<Rightarrow> (exn + (int \<times> bytes) \<times> 'os) option" where
  "safe_read_file sys base file vallen os =
    (case sys_open sys (file_name base file []) [O_rdonly] 0 os of
       (Inl e, os) \<Rightarrow> Some (Inr ((- int e, []), os))
     | (Inr fd, os) \<Rightarrow>
         rbind (safe_read sys fd vallen os) (\<lambda>(len, val, os). close_retry sys fd (len, val) os))"

definition unlink_with :: "'os sys \<Rightarrow> string \<Rightarrow> int \<Rightarrow> 'os \<Rightarrow> (exn + int \<times> 'os) option" where
  "unlink_with sys tmp ret os = (case sys_unlink sys tmp os of (_, os) \<Rightarrow> Some (Inr (ret, os)))"

definition sync_base :: "'os sys \<Rightarrow> string \<Rightarrow> 'os \<Rightarrow> (exn + int \<times> 'os) option" where
  "sync_base sys base os =
    (case sys_open sys base [O_rdonly] 0 os of
       (Inl e, os) \<Rightarrow> Some (Inr (- int e, os))
     | (Inr fd, os) \<Rightarrow>
         (case sys_fsync sys fd os of
            (Inl e, os) \<Rightarrow> close_retry sys fd (- int e) os
          | (Inr _, os) \<Rightarrow> close_retry sys fd 0 os))"

definition write_tmp :: "'os sys \<Rightarrow> int \<Rightarrow> string \<Rightarrow> string \<Rightarrow> string \<Rightarrow> bytes \<Rightarrow> 'os \<Rightarrow> (exn + int \<times> 'os) option" where
  "write_tmp sys fd base fn tmp val os =
    rbind (safe_write sys fd val os) (\<lambda>(ret, os).
    if ret \<noteq> 0 then close_retry sys fd ret os
    else
      case sys_fsync sys fd os of (synced, os) \<Rightarrow>
      let ret = (case synced of Inl e \<Rightarrow> - int e | Inr _ \<Rightarrow> 0) in
      rbind (close_retry sys fd ret os) (\<lambda>(ret, os).
      if ret < 0 then unlink_with sys tmp ret os
      else
        case sys_rename sys tmp fn os of
          (Inl e, os) \<Rightarrow> unlink_with sys tmp (- int e) os
        | (Inr _, os) \<Rightarrow> sync_base sys base os))"

definition safe_write_file ::
    "'os sys \<Rightarrow> string \<Rightarrow> string \<Rightarrow> bytes \<Rightarrow> nat \<Rightarrow> 'os \<Rightarrow> (exn + int \<times> 'os) option" where
  "safe_write_file sys base file val mode os =
    rbind (safe_read_file sys base file 80 os) (\<lambda>((ret, oldval), os).
    if ret = sint (of_nat (length val) :: u32) \<and> take (length val) oldval = val then Some (Inr (0, os))
    else
      let fn = file_name base file []; tmp = file_name base file ''.tmp'' in
      case sys_open sys tmp [O_wronly, O_creat, O_trunc] mode os of
        (Inl e, os) \<Rightarrow> Some (Inr (- int e, os))
      | (Inr fd, os) \<Rightarrow> write_tmp sys fd base fn tmp val os)"

subsection \<open>What the calls are documented to do\<close>

text \<open>
  Reading from a source: \<open>left cnt os\<close> are the bytes that follow when \<open>cnt\<close> have been read. A call returns
  some of them, and none only at their end; an error changes nothing; a call can be interrupted, but
  not for ever: \<open>patience\<close> bounds the interruptions to come.
\<close>

definition reads ::
    "(nat \<Rightarrow> nat \<Rightarrow> 'os \<Rightarrow> (errno + bytes) \<times> 'os) \<Rightarrow> (nat \<Rightarrow> 'os \<Rightarrow> bytes) \<Rightarrow> ('os \<Rightarrow> nat) \<Rightarrow> bool" where
  "reads call left patience \<longleftrightarrow>
    (\<forall>cnt n os. 0 < n \<longrightarrow>
      (case call cnt n os of
         (Inr bs, os') \<Rightarrow> length bs \<le> n \<and> left cnt os = bs @ left (cnt + length bs) os' \<and>
           (bs = [] \<longrightarrow> left cnt os = []) \<and> patience os' \<le> patience os
       | (Inl e, os') \<Rightarrow> left cnt os' = left cnt os \<and> 0 < e \<and> (e = eintr \<longrightarrow> patience os' < patience os)))"

text \<open>
  Writing to a sink, whose contents are \<open>cont os\<close>: \<open>put k bs f\<close> is \<open>f\<close> with \<open>bs\<close> written when \<open>k\<close> bytes have
  been written before. A call takes a nonempty prefix of what it is given.
\<close>

definition writes ::
    "(nat \<Rightarrow> bytes \<Rightarrow> 'os \<Rightarrow> (errno + nat) \<times> 'os) \<Rightarrow> (nat \<Rightarrow> bytes \<Rightarrow> 'f \<Rightarrow> 'f) \<Rightarrow> ('os \<Rightarrow> 'f) \<Rightarrow>
      ('os \<Rightarrow> nat) \<Rightarrow> bool" where
  "writes call put cont patience \<longleftrightarrow>
    (\<forall>k bs os. bs \<noteq> [] \<longrightarrow>
      (case call k bs os of
         (Inr n, os') \<Rightarrow> 0 < n \<and> n \<le> length bs \<and> cont os' = put k (take n bs) (cont os) \<and>
           patience os' \<le> patience os
       | (Inl e, os') \<Rightarrow> cont os' = cont os \<and> 0 < e \<and> (e = eintr \<longrightarrow> patience os' < patience os)))"

text \<open>What the loops need of a sink.\<close>

locale sink =
  fixes put :: "nat \<Rightarrow> bytes \<Rightarrow> 'f \<Rightarrow> 'f"
  assumes put_nil: "put k [] f = f"
    and put_put: "put (k + length a) b (put k a f) = put k (a @ b) f"
begin

lemma safe_write_loop:
  assumes w: "writes call put cont patience" and k: "cont os = put 0 before f"
  shows "\<exists>ret os'. run (safe_write_round call) (length before, buf, os) = Some (Inr (ret, os')) \<and>
    ((ret = 0 \<and> cont os' = put 0 (before @ buf) f) \<or>
     (ret < 0 \<and> (\<exists>n < length buf. cont os' = put 0 (before @ take n buf) f)))"
  using k
proof (induction "length buf + patience os" arbitrary: before buf os rule: less_induct)
  case less
  let ?step = "safe_write_round call"
  show ?case
  proof (cases "buf = []")
    case True
    then have "?step (length before, buf, os) = Inr (Inl (0, os))" by (simp add: safe_write_round_def)
    then show ?thesis using True less.prems by (simp add: run_simps(2))
  next
    case False
    obtain res os' where c: "call (length before) buf os = (res, os')" by (cases "call (length before) buf os")
    have doc: "case (res, os') of
         (Inr n, os') \<Rightarrow> 0 < n \<and> n \<le> length buf \<and> cont os' = put (length before) (take n buf) (cont os) \<and>
           patience os' \<le> patience os
       | (Inl e, os') \<Rightarrow> cont os' = cont os \<and> 0 < e \<and> (e = eintr \<longrightarrow> patience os' < patience os)"
      using w [unfolded writes_def, rule_format, OF False, of os "length before"] unfolding c .
    show ?thesis
    proof (cases res)
      case (Inr n)
      have n: "0 < n" "n \<le> length buf" "cont os' = put 0 (before @ take n buf) f" "patience os' \<le> patience os"
        using doc Inr less.prems put_put [of 0 before] by auto
      have len: "length (before @ take n buf) = length before + n" using n(2) by simp
      have "?step (length before, buf, os) = Inr (Inr (length before + n, drop n buf, os'))"
        using False c Inr by (simp add: safe_write_round_def)
      then have "run ?step (length before, buf, os) = run ?step (length (before @ take n buf), drop n buf, os')"
        unfolding len by (rule run_simps(3))
      moreover have "length (drop n buf) + patience os' < length buf + patience os" using n(1,2,4) False by simp
      ultimately obtain ret os'' where r: "run ?step (length before, buf, os) = Some (Inr (ret, os''))"
          "ret = 0 \<and> cont os'' = put 0 ((before @ take n buf) @ drop n buf) f \<or>
           ret < 0 \<and> (\<exists>j < length (drop n buf). cont os'' = put 0 ((before @ take n buf) @ take j (drop n buf)) f)"
        using less.hyps [OF _ n(3), of "drop n buf"] by auto
      have cut: "(before @ take n buf) @ take j (drop n buf) = before @ take (n + j) buf" for j
        by (simp add: take_add)
      have "ret = 0 \<and> cont os'' = put 0 (before @ buf) f \<or>
          ret < 0 \<and> (\<exists>n < length buf. cont os'' = put 0 (before @ take n buf) f)"
        using r(2)
      proof (elim disjE conjE exE)
        fix j assume j: "ret < 0" "j < length (drop n buf)"
          "cont os'' = put 0 ((before @ take n buf) @ take j (drop n buf)) f"
        have "n + j < length buf" using j(2) n(2) by simp
        then show ?thesis using j(1,3) unfolding cut by blast
      qed simp
      then show ?thesis using r(1) by blast
    next
      case (Inl e)
      have e: "cont os' = put 0 before f" "0 < e" "e = eintr \<longrightarrow> patience os' < patience os"
        using doc Inl less.prems by auto
      show ?thesis
      proof (cases "e = eintr")
        case True
        then have "?step (length before, buf, os) = Inr (Inr (length before, buf, os'))"
          using False c Inl by (simp add: safe_write_round_def)
        then have "run ?step (length before, buf, os) = run ?step (length before, buf, os')" by (rule run_simps(3))
        then show ?thesis using less.hyps [OF _ e(1), of buf] e(3) True by simp
      next
        case False
        then have "?step (length before, buf, os) = Inr (Inl (- int e, os'))"
          using \<open>buf \<noteq> []\<close> c Inl by (simp add: safe_write_round_def)
        then show ?thesis using e(1,2) \<open>buf \<noteq> []\<close> by (auto simp: run_simps(2) intro!: exI [of _ 0])
      qed
    qed
  qed
qed

end

text \<open>A stream grows at its end; a file is written at an offset, with zeros up to there.\<close>

definition put_stream :: "nat \<Rightarrow> bytes \<Rightarrow> bytes \<Rightarrow> bytes" where
  "put_stream k bs f = f @ bs"

definition put_file :: "nat \<Rightarrow> nat \<Rightarrow> bytes \<Rightarrow> bytes \<Rightarrow> bytes" where
  "put_file offset k bs f =
    (if bs = [] then f
     else take (offset + k) (f @ replicate (offset + k - length f) 0) @ bs @ drop (offset + k + length bs) f)"

lemma put_file_put:
  "put_file offset (k + length a) b (put_file offset k a f) = put_file offset k (a @ b) f"
proof (cases "a = [] \<or> b = []")
  case False
  let ?o = "offset + k"
  let ?h = "take ?o (f @ replicate (?o - length f) 0)"
  have h: "length ?h = ?o" by simp
  have len: "?o + length a - length (?h @ a @ drop (?o + length a) f) = 0" using h by simp
  have "take (?o + length a) (?h @ a @ drop (?o + length a) f) = ?h @ a" using h by simp
  moreover have "drop (?o + length a + length b) (?h @ a @ drop (?o + length a) f) = drop (?o + length a + length b) f"
    using h by (simp add: add.commute)
  moreover have "?o + length (a @ b) = ?o + length a + length b" by simp
  ultimately show ?thesis using False h len
    by (simp add: put_file_def add.assoc [symmetric] del: take_append drop_append length_append)
qed (auto simp: put_file_def)

interpretation stream: sink put_stream
  by unfold_locales (simp_all add: put_stream_def)

interpretation file_at: sink "put_file offset" for offset
  by unfold_locales (simp add: put_file_def, rule put_file_put)

end
