(* ===== verification/Safe_Io_Props.thy ===== *)
theory Safe_Io_Props
  imports Safe_Io
begin

text \<open>
  The retrying calls end and transfer everything, when the system calls do what they are documented
  to do; and what happens when a file of more than 80 bytes is written anew.
\<close>

subsection \<open>Reading\<close>

lemma safe_read_loop:
  assumes r: "reads call left patience" and s: "buf @ left (length buf) os = all" "length buf \<le> count"
  shows "\<exists>ret buf' os'. run (safe_read_round call count) (buf, os) = Some (Inr (ret, buf', os')) \<and>
    buf' @ left (length buf') os' = all \<and> length buf' \<le> count \<and>
    (ret = int (length buf') \<and> (length buf' = count \<or> buf' = all) \<or> ret < 0)"
  using s
proof (induction "length (left (length buf) os) + patience os" arbitrary: buf os rule: less_induct)
  case less
  let ?step = "safe_read_round call count"
  show ?case
  proof (cases "length buf < count")
    case False
    then have "?step (buf, os) = Inr (Inl (int (length buf), buf, os))" by (simp add: safe_read_round_def)
    then show ?thesis using less.prems False by (simp add: run_simps(2))
  next
    case True
    obtain res os' where c: "call (length buf) (count - length buf) os = (res, os')"
      by (cases "call (length buf) (count - length buf) os")
    have pos: "0 < count - length buf" using True by simp
    have doc: "case (res, os') of
         (Inr bs, os') \<Rightarrow> length bs \<le> count - length buf \<and>
           left (length buf) os = bs @ left (length buf + length bs) os' \<and>
           (bs = [] \<longrightarrow> left (length buf) os = []) \<and> patience os' \<le> patience os
       | (Inl e, os') \<Rightarrow> left (length buf) os' = left (length buf) os \<and> 0 < e \<and>
           (e = eintr \<longrightarrow> patience os' < patience os)"
      using r [unfolded reads_def, rule_format, OF pos, of "length buf" os] unfolding c .
    show ?thesis
    proof (cases res)
      case (Inr bs)
      show ?thesis
      proof (cases "bs = []")
        case nil: True
        have s: "?step (buf, os) = Inr (Inl (int (length buf), buf, os'))"
          using True c Inr nil by (simp add: safe_read_round_def)
        have "run ?step (buf, os) = Some (Inr (int (length buf), buf, os'))" by (rule run_simps(2)) (rule s)
        moreover have "buf = all" "buf @ left (length buf) os' = all" using doc Inr nil less.prems(1) by auto
        ultimately show ?thesis using less.prems(2) by blast
      next
        case False
        have d: "length bs \<le> count - length buf" "left (length buf) os = bs @ left (length (buf @ bs)) os'"
          "patience os' \<le> patience os" using doc Inr by auto
        have "?step (buf, os) = Inr (Inr (buf @ bs, os'))" using True c Inr False by (simp add: safe_read_round_def)
        then have step: "run ?step (buf, os) = run ?step (buf @ bs, os')" by (rule run_simps(3))
        have "length (left (length (buf @ bs)) os') + patience os' < length (left (length buf) os) + patience os"
          unfolding d(2) length_append using d(3) False by (cases bs) auto
        moreover have "(buf @ bs) @ left (length (buf @ bs)) os' = all" using less.prems(1) d(2) by simp
        moreover have "length (buf @ bs) \<le> count" using d(1) True by simp
        ultimately show ?thesis unfolding step by (rule less.hyps)
      qed
    next
      case (Inl e)
      have e: "left (length buf) os' = left (length buf) os" "0 < e" "e = eintr \<longrightarrow> patience os' < patience os"
        using doc Inl by auto
      show ?thesis
      proof (cases "e = eintr")
        case intr: True
        then have "?step (buf, os) = Inr (Inr (buf, os'))" using True c Inl by (simp add: safe_read_round_def)
        then have step: "run ?step (buf, os) = run ?step (buf, os')" by (rule run_simps(3))
        show ?thesis unfolding step by (rule less.hyps) (use e intr less.prems in auto)
      next
        case False
        then have "?step (buf, os) = Inr (Inl (- int e, buf, os'))" using True c Inl by (simp add: safe_read_round_def)
        then show ?thesis using e(1,2) less.prems True by (simp add: run_simps(2))
      qed
    qed
  qed
qed

lemma safe_read_result:
  assumes "reads call left patience"
  shows "\<exists>ret buf os'. run (safe_read_round call count) ([], os) = Some (Inr (ret, buf, os')) \<and>
    buf @ left (length buf) os' = left 0 os \<and>
    (0 \<le> ret \<longrightarrow> ret = int (length buf) \<and> buf = take count (left 0 os)) \<and> length buf \<le> count"
proof -
  obtain ret buf os' where h: "run (safe_read_round call count) ([], os) = Some (Inr (ret, buf, os'))"
      "buf @ left (length buf) os' = left 0 os" "length buf \<le> count"
      "ret = int (length buf) \<and> (length buf = count \<or> buf = left 0 os) \<or> ret < 0"
    using safe_read_loop [OF assms, of "[]" os "left 0 os" count] by auto
  have "buf = take count (left 0 os)" if "0 \<le> ret"
    using h(4) that
  proof (elim disjE conjE)
    assume "length buf = count"
    then show ?thesis by (simp add: h(2) [symmetric])
  qed (use h(3) in simp_all)
  moreover have "ret = int (length buf)" if "0 \<le> ret" using h(4) that by auto
  ultimately show ?thesis using h(1-3) by blast
qed

text \<open>
  C33 (termination). \<^verbatim>\<open>safe_read\<close> and \<^verbatim>\<open>safe_pread\<close> return, whatever short reads and interruptions come: a
  result that is not negative is the number of bytes in the buffer, which are the next \<open>count\<close> bytes
  or all there are; a negative one leaves a prefix in the buffer, and nothing is skipped.
\<close>

theorem safe_read_reads:
  assumes "reads (\<lambda>_. sys_read sys fd) (\<lambda>_. left) patience"
    and "reads (\<lambda>cnt n. sys_pread sys fd n (offset + cnt)) (\<lambda>cnt os. drop (offset + cnt) (file os)) patience"
  shows "(\<exists>ret buf os'. safe_read sys fd count os = Some (Inr (ret, buf, os')) \<and> buf @ left os' = left os \<and>
      (0 \<le> ret \<longrightarrow> ret = int (length buf) \<and> buf = take count (left os)) \<and> length buf \<le> count) \<and>
    (\<exists>ret buf os'. safe_pread sys fd count offset os = Some (Inr (ret, buf, os')) \<and>
      (0 \<le> ret \<longrightarrow> ret = int (length buf) \<and> buf = take count (drop offset (file os))) \<and> length buf \<le> count)"
proof (rule conjI)
  show "\<exists>ret buf os'. safe_read sys fd count os = Some (Inr (ret, buf, os')) \<and> buf @ left os' = left os \<and>
      (0 \<le> ret \<longrightarrow> ret = int (length buf) \<and> buf = take count (left os)) \<and> length buf \<le> count"
    using safe_read_result [OF assms(1), of count os] unfolding safe_read_def .
  show "\<exists>ret buf os'. safe_pread sys fd count offset os = Some (Inr (ret, buf, os')) \<and>
      (0 \<le> ret \<longrightarrow> ret = int (length buf) \<and> buf = take count (drop offset (file os))) \<and> length buf \<le> count"
    using safe_read_result [OF assms(2), of count os] unfolding safe_pread_def add_0_right by blast
qed

text \<open>
  A system for the witnesses: one file, and a position in it for reading. A call moves at most two
  bytes, and the first ones are interrupted.
\<close>

record tiny_os =
  t_file :: bytes
  t_pos :: nat
  t_signals :: nat

definition tiny_signal :: "tiny_os \<Rightarrow> (errno + 'a) \<times> tiny_os" where
  "tiny_signal os = (Inl eintr, os\<lparr>t_signals := t_signals os - 1\<rparr>)"

definition tiny_read :: "nat \<Rightarrow> tiny_os \<Rightarrow> (errno + bytes) \<times> tiny_os" where
  "tiny_read n os =
    (if 0 < t_signals os then tiny_signal os
     else let bs = take (min n 2) (drop (t_pos os) (t_file os)) in
       (Inr bs, os\<lparr>t_pos := t_pos os + length bs\<rparr>))"

definition tiny_pread :: "nat \<Rightarrow> nat \<Rightarrow> tiny_os \<Rightarrow> (errno + bytes) \<times> tiny_os" where
  "tiny_pread n off os =
    (if 0 < t_signals os then tiny_signal os else (Inr (take (min n 2) (drop off (t_file os))), os))"

definition tiny_write :: "bytes \<Rightarrow> tiny_os \<Rightarrow> (errno + nat) \<times> tiny_os" where
  "tiny_write bs os =
    (if 0 < t_signals os then tiny_signal os
     else (Inr (min 2 (length bs)), os\<lparr>t_file := t_file os @ take 2 bs\<rparr>))"

definition tiny_pwrite :: "bytes \<Rightarrow> nat \<Rightarrow> tiny_os \<Rightarrow> (errno + nat) \<times> tiny_os" where
  "tiny_pwrite bs off os =
    (if 0 < t_signals os then tiny_signal os
     else (Inr (min 2 (length bs)), os\<lparr>t_file := put_file off 0 (take 2 bs) (t_file os)\<rparr>))"

definition tiny_sys :: "tiny_os sys" where
  "tiny_sys =
    \<lparr>sys_read = (\<lambda>_. tiny_read), sys_write = (\<lambda>_. tiny_write), sys_pread = (\<lambda>_. tiny_pread),
     sys_pwrite = (\<lambda>_. tiny_pwrite),
     sys_writev = (\<lambda>_ vec. tiny_write (concat vec)), sys_pwritev = (\<lambda>_ vec. tiny_pwrite (concat vec)),
     sys_open = (\<lambda>_ _ _ os. (Inr 3, os\<lparr>t_pos := 0\<rparr>)), sys_close = (\<lambda>_ os. (Inr (), os)),
     sys_fsync = (\<lambda>_ os. (Inr (), os)), sys_rename = (\<lambda>_ _ os. (Inr (), os)),
     sys_unlink = (\<lambda>_ os. (Inr (), os)), sys_fstat = (\<lambda>_ os. (Inr (length (t_file os)), os)),
     sys_lseek = (\<lambda>_ off os. (Inr off, os\<lparr>t_pos := off\<rparr>))\<rparr>"

lemma tiny_sys_sel [simp]:
  "sys_read tiny_sys fd = tiny_read" "sys_write tiny_sys fd = tiny_write" "sys_pread tiny_sys fd = tiny_pread"
  "sys_pwrite tiny_sys fd = tiny_pwrite" "sys_writev tiny_sys fd = (\<lambda>vec. tiny_write (concat vec))"
  "sys_pwritev tiny_sys fd = (\<lambda>vec. tiny_pwrite (concat vec))"
  "sys_open tiny_sys p q w os = (Inr 3, os\<lparr>t_pos := 0\<rparr>)" "sys_close tiny_sys fd os = (Inr (), os)"
  by (simp_all add: tiny_sys_def)

lemma take_prefix: "xs = take n xs @ drop (length (take n xs)) xs"
  by (metis append_take_drop_id length_take min.commute drop_all take_all nle_le min_def)

lemma tiny_reads:
  "reads (\<lambda>_. sys_read tiny_sys fd) (\<lambda>_ os. drop (t_pos os) (t_file os)) t_signals"
  "reads (\<lambda>cnt n. sys_pread tiny_sys fd n (offset + cnt)) (\<lambda>cnt os. drop (offset + cnt) (t_file os)) t_signals"
proof -
  have cut: "drop p f = take (min n 2) (drop p f) @ drop (p + length (take (min n 2) (drop p f))) f"
    for p n and f :: bytes
    using take_prefix [of "drop p f" "min n 2"] by (simp only: drop_drop add.commute)
  have le: "length (take (min n 2) xs) \<le> n" for n and xs :: bytes by simp
  show "reads (\<lambda>_. sys_read tiny_sys fd) (\<lambda>_ os. drop (t_pos os) (t_file os)) t_signals"
    unfolding reads_def tiny_sys_sel tiny_read_def tiny_signal_def Let_def
    by (auto simp: eintr_def le cut [symmetric] simp del: length_take length_drop)
  show "reads (\<lambda>cnt n. sys_pread tiny_sys fd n (offset + cnt)) (\<lambda>cnt os. drop (offset + cnt) (t_file os)) t_signals"
    unfolding reads_def tiny_sys_sel tiny_pread_def tiny_signal_def Let_def
    by (auto simp: eintr_def le cut [symmetric] add.assoc [symmetric] simp del: length_take length_drop)
qed

lemma tiny_writes:
  "writes (\<lambda>_. sys_write tiny_sys fd) put_stream t_file t_signals"
  "writes (\<lambda>k bs. sys_pwrite tiny_sys fd bs (offset + k)) (put_file offset) t_file t_signals"
proof -
  show "writes (\<lambda>_. sys_write tiny_sys fd) put_stream t_file t_signals"
    unfolding writes_def tiny_sys_sel tiny_write_def tiny_signal_def
    by (auto simp: eintr_def put_stream_def min_def)
  have "put_file (offset + k) 0 bs f = put_file offset k bs f" for k bs f
    by (simp add: put_file_def)
  then show "writes (\<lambda>k bs. sys_pwrite tiny_sys fd bs (offset + k)) (put_file offset) t_file t_signals"
    unfolding writes_def tiny_sys_sel tiny_pwrite_def tiny_signal_def
    by (auto simp: eintr_def min_def)
qed

theorem safe_read_reads_witness:
  "\<exists>ret buf os'. safe_read tiny_sys 3 4 \<lparr>t_file = [1, 2, 3, 4, 5], t_pos = 0, t_signals = 2\<rparr> = Some (Inr (ret, buf, os')) \<and>
     (0 \<le> ret \<longrightarrow> buf = [1, 2, 3, 4])"
  using safe_read_reads [OF tiny_reads(1) [where fd = 3] tiny_reads(2) [where fd = 3 and offset = 0],
      where count = 4 and os = "\<lparr>t_file = [1, 2, 3, 4, 5], t_pos = 0, t_signals = 2\<rparr>"]
  by (auto simp: numeral_eq_Suc)

subsection \<open>Writing\<close>

text \<open>
  C34 (termination). \<^verbatim>\<open>safe_write\<close> and \<^verbatim>\<open>safe_pwrite\<close> return, whatever short writes and interruptions come:
  0 when everything has been written, in order and once, and otherwise a negative error with a proper
  prefix written.
\<close>

theorem safe_write_writes:
  assumes "writes (\<lambda>_. sys_write sys fd) put_stream stream patience"
    and "writes (\<lambda>k bs. sys_pwrite sys fd bs (offset + k)) (put_file offset) file patience"
  shows "(\<exists>ret os'. safe_write sys fd buf os = Some (Inr (ret, os')) \<and>
      (ret = 0 \<and> stream os' = stream os @ buf \<or>
       ret < 0 \<and> (\<exists>n < length buf. stream os' = stream os @ take n buf))) \<and>
    (\<exists>ret os'. safe_pwrite sys fd buf offset os = Some (Inr (ret, os')) \<and>
      (ret = 0 \<and> file os' = put_file offset 0 buf (file os) \<or>
       ret < 0 \<and> (\<exists>n < length buf. file os' = put_file offset 0 (take n buf) (file os))))"
  using stream.safe_write_loop [OF assms(1), of os "[]" "stream os" buf]
    file_at.safe_write_loop [OF assms(2), of os "[]" "file os" buf]
  by (simp add: safe_write_def safe_pwrite_def put_stream_def file_at.put_nil)

theorem safe_write_writes_witness:
  "\<exists>ret os'. safe_write tiny_sys 3 [1, 2, 3] \<lparr>t_file = [9], t_pos = 0, t_signals = 2\<rparr> = Some (Inr (ret, os')) \<and>
     (ret = 0 \<longrightarrow> t_file os' = [9, 1, 2, 3])"
  using safe_write_writes [OF tiny_writes(1) [where fd = 3] tiny_writes(2) [where fd = 3 and offset = 0],
      where buf = "[1, 2, 3]" and os = "\<lparr>t_file = [9], t_pos = 0, t_signals = 2\<rparr>"]
  by auto

text \<open>A \<^verbatim>\<open>write\<close> that keeps returning 0 is called for ever.\<close>

lemma safe_write_stuck:
  assumes "\<And>bs os. sys_write sys fd bs os = (Inr 0, os)" "buf \<noteq> []"
  shows "safe_write sys fd buf os = None"
  unfolding safe_write_def
  by (rule run_forever [where P = "\<lambda>(_, b, _). b = buf"])
    (use assms in \<open>auto simp: safe_write_round_def\<close>)

subsection \<open>Replacing a file\<close>

lemma safe_read_keeps:
  assumes "\<And>n os e os'. sys_read sys fd n os = (Inl e, os') \<Longrightarrow> e = eintr"
    and "\<And>n os. cont (snd (sys_read sys fd n os)) = cont os"
    and "safe_read sys fd count os = Some (Inr (ret, buf, os'))"
  shows "0 \<le> ret \<and> cont os' = cont os"
  using assms(3) unfolding safe_read_def
proof -
  let ?step = "safe_read_round (\<lambda>_. sys_read sys fd) count"
  have kept: "cont os2 = cont os1" if "sys_read sys fd n os1 = (x, os2)" for n os1 x os2
    using assms(2) [of n os1] that by simp
  assume r: "run ?step ([], os) = Some (Inr (ret, buf, os'))"
  have "(\<lambda>(ret, _, o1). 0 \<le> ret \<and> cont o1 = cont os) (ret, buf, os')"
    by (rule run_invariant [OF r, where P = "\<lambda>(_, o1). cont o1 = cont os"])
      (auto simp: safe_read_round_def Let_def dest: kept assms(1) split: if_splits prod.splits sum.splits)
  then show ?thesis by simp
qed

text \<open>
  C35 (error). \<^verbatim>\<open>safe_write_file\<close> compares at most 80 bytes of the old file: when the new contents are 80
  bytes long and the old file is longer and starts with them, it returns 0 and leaves the old file
  as it was.
\<close>

theorem write_file_keeps_longer:
  assumes "sys_open sys (file_name base file []) [O_rdonly] 0 os = (Inr fd, os1)"
    and "reads (\<lambda>_. sys_read sys fd) (\<lambda>_. left) patience"
    and "\<And>n os e os'. sys_read sys fd n os = (Inl e, os') \<Longrightarrow> e = eintr"
    and "\<And>n os. cont (snd (sys_read sys fd n os)) = cont os"
    and "\<And>os. \<exists>os'. sys_close sys fd os = (Inr (), os') \<and> cont os' = cont os"
    and "left os1 = val @ rest" "length val = 80"
  shows "\<exists>os'. safe_write_file sys base file val mode os = Some (Inr (0, os')) \<and> cont os' = cont os1"
proof -
  obtain ret buf os2 where r: "safe_read sys fd 80 os1 = Some (Inr (ret, buf, os2))"
      "0 \<le> ret \<longrightarrow> ret = int (length buf) \<and> buf = take 80 (left os1)"
    using safe_read_result [OF assms(2), of 80 os1] unfolding safe_read_def by blast
  have k: "0 \<le> ret" "cont os2 = cont os1" using safe_read_keeps [where cont = cont, OF assms(3,4) r(1)] by auto
  then have v: "ret = 80" "buf = val" using r(2) assms(6,7) by auto
  obtain os3 where c: "sys_close sys fd os2 = (Inr (), os3)" "cont os3 = cont os2" using assms(5) by blast
  have "retry_round (sys_close sys fd) os2 = Inr (Inl (Inr (), os3))" using c(1) by (simp add: retry_round_def)
  then have "close_retry sys fd (80, val) os2 = Some (Inr ((80, val), os3))"
    by (simp add: close_retry_def temp_failure_retry_def run_simps(2))
  then have "safe_read_file sys base file 80 os = Some (Inr ((80, val), os3))"
    using assms(1) r(1) v by (simp add: safe_read_file_def)
  then show ?thesis
    using assms(7) c(2) k(2) by (simp add: safe_write_file_def)
qed

theorem write_file_keeps_longer_witness:
  "\<exists>os'. safe_write_file tiny_sys ''/d'' ''f'' (replicate 80 7) 0
       \<lparr>t_file = replicate 90 7, t_pos = 0, t_signals = 1\<rparr> = Some (Inr (0, os')) \<and> t_file os' = replicate 90 7"
proof -
  let ?os = "\<lparr>t_file = replicate 90 7, t_pos = 0, t_signals = 1\<rparr>"
  have split: "replicate 90 7 = replicate 80 7 @ replicate 10 (7 :: u8)"
    by (simp add: replicate_add [symmetric])
  have "\<exists>os'. safe_write_file tiny_sys ''/d'' ''f'' (replicate 80 7) 0 ?os = Some (Inr (0, os')) \<and>
      t_file os' = t_file ?os"
    by (rule write_file_keeps_longer [where fd = 3 and left = "\<lambda>os. drop (t_pos os) (t_file os)"
          and patience = t_signals and ?os1.0 = ?os and rest = "replicate 10 7", OF _ tiny_reads(1)])
      (auto simp: tiny_read_def tiny_signal_def split split: if_splits)
  then show ?thesis by simp
qed

end
