(* ===== verification/Buffer_Io.thy ===== *)
theory Buffer_Io
  imports Safe_Io Buffer_Read
begin

text \<open>
  Lists to and from descriptors and files (\<^verbatim>\<open>write_fd\<close>, \<^verbatim>\<open>write_file\<close>, \<^verbatim>\<open>read_fd\<close>, \<^verbatim>\<open>read_file\<close>,
  \<^verbatim>\<open>pread_file\<close> of \<^verbatim>\<open>buffer_list.cc\<close>). An \<^verbatim>\<open>iovec\<close> is given by the bytes it points to, which do
  not change meanwhile. The texts of the messages are not modelled, only which one is set.
\<close>

definition iov_max :: nat where
  "iov_max = 1024"

subsection \<open>Writing to a descriptor\<close>

text \<open>
  After a partial write: the iovecs that are done are skipped and the next is cut. \<open>iov_skip\<close> is the
  \<^verbatim>\<open>while\<close> loop of \<^verbatim>\<open>write_fd\<close>; it would run past the array if everything had been written.
\<close>

fun iov_skip :: "nat \<Rightarrow> nat \<Rightarrow> bytes list \<Rightarrow> exn + nat \<times> nat \<times> bytes list" where
  "iov_skip wrote len [] = Inl Undefined"
| "iov_skip wrote len (v # vs) =
    (if wrote \<ge> length v then iov_skip (wrote - length v) (len - length v) vs else Inr (wrote, len, v # vs))"

definition iov_recover :: "nat \<Rightarrow> nat \<Rightarrow> bytes list \<Rightarrow> exn + nat \<times> bytes list" where
  "iov_recover wrote len vec =
    ebind (iov_skip wrote len vec) (\<lambda>(wrote, len, vec).
      case vec of [] \<Rightarrow> Inl Undefined
      | v # vs \<Rightarrow> if wrote > 0 then Inr (len - wrote, drop wrote v # vs) else Inr (len, v # vs))"

text \<open>One \<^verbatim>\<open>writev\<close> with what follows it, up to \<^verbatim>\<open>retry\<close>. \<open>len\<close> is \<^verbatim>\<open>bytes\<close>.\<close>

definition writev_round ::
    "'os sys \<Rightarrow> int \<Rightarrow> nat \<times> bytes list \<times> 'os \<Rightarrow> exn + (int \<times> 'os) + (nat \<times> bytes list \<times> 'os)" where
  "writev_round sys fd s =
    (case s of (len, vec, os) \<Rightarrow>
      case sys_writev sys fd vec os of
        (Inl err, os) \<Rightarrow> if err = eintr then Inr (Inr (len, vec, os)) else Inr (Inl (- int err, os))
      | (Inr wrote, os) \<Rightarrow>
          if wrote < len
          then ebind (iov_recover wrote len vec) (\<lambda>(len, vec). Inr (Inr (len, vec, os)))
          else Inr (Inl (0, os)))"

text \<open>
  The loop over the nodes: the ones that are not empty are gathered, and written when there are
  \<^verbatim>\<open>IOV_MAX\<close> of them or the list ends.
\<close>

definition write_fd_round ::
    "'os sys \<Rightarrow> int \<Rightarrow> mem \<Rightarrow> nat list \<times> bytes list \<times> nat \<times> 'os
      \<Rightarrow> (exn + int option \<times> nat list \<times> bytes list \<times> nat \<times> 'os) option" where
  "write_fd_round sys fd m s =
    (case s of (nodes, iov, len, os) \<Rightarrow>
      case nodes of [] \<Rightarrow> Some (Inr (Some 0, nodes, iov, len, os))
      | i # rest \<Rightarrow>
        rbind (Some (ptr_length m i)) (\<lambda>n.
        rbind (if n > 0
               then rbind (Some (ptr_read m i)) (\<lambda>bs. Some (Inr (iov @ [bs], len + n)))
               else Some (Inr (iov, len))) (\<lambda>(iov, len).
        if length iov = iov_max \<or> rest = []
        then rbind (run (writev_round sys fd) (len, iov, os)) (\<lambda>(ret, os).
               Some (Inr (if ret < 0 then Some ret else None, rest, [], 0, os)))
        else Some (Inr (None, rest, iov, len, os)))))"

fun write_fd_nodes ::
    "'os sys \<Rightarrow> int \<Rightarrow> mem \<Rightarrow> nat list \<Rightarrow> bytes list \<Rightarrow> nat \<Rightarrow> 'os \<Rightarrow> (exn + int \<times> 'os) option" where
  "write_fd_nodes sys fd m [] iov len os = Some (Inr (0, os))"
| "write_fd_nodes sys fd m (i # rest) iov len os =
    rbind (write_fd_round sys fd m (i # rest, iov, len, os)) (\<lambda>(ret, _, iov, len, os).
      case ret of Some r \<Rightarrow> Some (Inr (r, os)) | None \<Rightarrow> write_fd_nodes sys fd m rest iov len os)"

definition list_write_fd :: "'os sys \<Rightarrow> int \<Rightarrow> mem \<Rightarrow> blist \<Rightarrow> 'os \<Rightarrow> (exn + int \<times> 'os) option" where
  "list_write_fd sys fd m b os = write_fd_nodes sys fd m (bufs b) [] 0 os"

subsection \<open>Writing at an offset\<close>

text \<open>\<^verbatim>\<open>do_writev\<close>. The condition after a failed call is an assignment, \<^verbatim>\<open>errno = EINTR\<close>, and so always true.\<close>

fun iov_drain :: "nat \<Rightarrow> bytes list \<Rightarrow> exn + bytes list" where
  "iov_drain r [] = (if r > 0 then Inl Undefined else Inr [])"
| "iov_drain r (v # vs) =
    (if r > 0
     then if length v \<le> r then iov_drain (r - length v) vs else Inr (drop r v # vs)
     else Inr (v # vs))"

definition do_writev_round ::
    "'os sys \<Rightarrow> int \<Rightarrow> bytes list \<times> nat \<times> nat \<times> 'os \<Rightarrow> exn + (int \<times> 'os) + (bytes list \<times> nat \<times> nat \<times> 'os)" where
  "do_writev_round sys fd s =
    (case s of (vec, offset, left, os) \<Rightarrow>
      if left > 0
      then case sys_pwritev sys fd vec offset os of
             (Inl _, os) \<Rightarrow> Inr (Inr (vec, offset, left, os))
           | (Inr r, os) \<Rightarrow>
               let left = sub64 left r; offset = add64 offset r in
               if left = 0 then Inr (Inl (0, os))
               else ebind (iov_drain r vec) (\<lambda>vec. Inr (Inr (vec, offset, left, os)))
      else Inr (Inl (0, os)))"

definition do_writev ::
    "'os sys \<Rightarrow> int \<Rightarrow> bytes list \<Rightarrow> nat \<Rightarrow> nat \<Rightarrow> 'os \<Rightarrow> (exn + int \<times> 'os) option" where
  "do_writev sys fd vec offset left os = run (do_writev_round sys fd) (vec, offset, left, os)"

text \<open>
  \<^verbatim>\<open>write_fd(fd, offset)\<close> takes \<^verbatim>\<open>get_num_buffers()\<close> nodes in portions of \<^verbatim>\<open>IOV_MAX\<close>; \<open>gather\<close> walks one
  portion, and would reach the root of the list if the count were too large.
\<close>

fun gather :: "mem \<Rightarrow> nat \<Rightarrow> nat list \<Rightarrow> exn + bytes list \<times> nat list" where
  "gather m 0 nodes = Inr ([], nodes)"
| "gather m (Suc k) [] = Inl Undefined"
| "gather m (Suc k) (i # rest) =
    ebind (ptr_read m i) (\<lambda>bs. ebind (gather m k rest) (\<lambda>(vec, nodes). Inr (bs # vec, nodes)))"

function write_fd_at_nodes ::
    "'os sys \<Rightarrow> int \<Rightarrow> mem \<Rightarrow> nat \<Rightarrow> nat list \<Rightarrow> nat \<Rightarrow> 'os \<Rightarrow> (exn + int \<times> 'os) option" where
  "write_fd_at_nodes sys fd m left_pbrs nodes offset os =
    (if left_pbrs = 0 then Some (Inr (0, os))
     else
       let portion = min left_pbrs iov_max in
       rbind (Some (gather m portion nodes)) (\<lambda>(vec, nodes).
       let len = length (concat vec) in
       rbind (do_writev sys fd vec offset len os) (\<lambda>(r, os).
       if r < 0 then Some (Inr (r, os))
       else write_fd_at_nodes sys fd m (left_pbrs - portion) nodes (add64 offset len) os)))"
  by pat_completeness auto
termination
  by (relation "measure (\<lambda>(_, _, _, left_pbrs, _, _, _). left_pbrs)") (auto simp: iov_max_def)

declare write_fd_at_nodes.simps [simp del]

definition list_write_fd_at :: "'os sys \<Rightarrow> int \<Rightarrow> mem \<Rightarrow> blist \<Rightarrow> nat \<Rightarrow> 'os \<Rightarrow> (exn + int \<times> 'os) option" where
  "list_write_fd_at sys fd m b offset os = write_fd_at_nodes sys fd m (b_num b) (bufs b) offset os"

subsection \<open>Files\<close>

definition list_write_file ::
    "'os sys \<Rightarrow> string \<Rightarrow> nat \<Rightarrow> mem \<Rightarrow> blist \<Rightarrow> 'os \<Rightarrow> (exn + int \<times> 'os) option" where
  "list_write_file sys fn mode m b os =
    rbind (temp_failure_retry (sys_open sys fn [O_wronly, O_creat, O_cloexec] mode) os) (\<lambda>(opened, os).
    case opened of
      Inl err \<Rightarrow> Some (Inr (- int err, os))
    | Inr fd \<Rightarrow>
        rbind (list_write_fd sys fd m b os) (\<lambda>(ret, os).
        if ret \<noteq> 0 then close_retry sys fd ret os
        else
          rbind (temp_failure_retry (sys_close sys fd) os) (\<lambda>(closed, os).
          Some (Inr (case closed of Inl err \<Rightarrow> - int err | Inr _ \<Rightarrow> 0, os)))))"

subsection \<open>Reading\<close>

text \<open>
  A new node takes what is read; it is destroyed when reading failed. What \<^verbatim>\<open>safe_read\<close> left in the
  buffer is there also then.
\<close>

definition list_read_fd ::
    "'os sys \<Rightarrow> int \<Rightarrow> nat \<Rightarrow> blist \<Rightarrow> mem \<Rightarrow> 'os \<Rightarrow> (exn + (int \<times> blist \<times> mem) \<times> 'os) option" where
  "list_read_fd sys fd len b m os =
    rbind (Some (create_raw len m)) (\<lambda>(r, m).
    rbind (Some (ptr_of_raw r m)) (\<lambda>(k, m).
    rbind (Some (c_str m k)) (\<lambda>(r, off).
    rbind (safe_read sys fd len os) (\<lambda>(ret, buf, os).
    rbind (Some (raw_write r off buf m)) (\<lambda>m.
    if ret \<ge> 0
    then rbind (Some (set_length k (nat ret) m)) (\<lambda>m.
         rbind (Some (blist_push_back_node k b m)) (\<lambda>(b, m). Some (Inr ((ret, b, m), os))))
    else rbind (Some (ptr_destroy k m)) (\<lambda>m. Some (Inr ((ret, b, m), os))))))))"

datatype io_message =
    Cannot_open nat
  | Stat_error nat
  | Size_below_offset
  | Read_error int
  | Premature_eof

text \<open>What \<^verbatim>\<open>read_file\<close> and \<^verbatim>\<open>pread_file\<close> do with the result of \<^verbatim>\<open>read_fd\<close>.\<close>

definition after_read ::
    "'os sys \<Rightarrow> int \<Rightarrow> nat \<Rightarrow> int \<times> blist \<times> mem \<Rightarrow> 'os
      \<Rightarrow> (exn + (int \<times> io_message option \<times> blist \<times> mem) \<times> 'os) option" where
  "after_read sys fd len res os =
    (case res of (ret, b, m) \<Rightarrow>
      if ret < 0 then close_retry sys fd (ret, Some (Read_error ret), b, m) os
      else close_retry sys fd (0, if ret \<noteq> int len then Some Premature_eof else None, b, m) os)"

definition list_read_file ::
    "'os sys \<Rightarrow> string \<Rightarrow> blist \<Rightarrow> mem \<Rightarrow> 'os
      \<Rightarrow> (exn + (int \<times> io_message option \<times> blist \<times> mem) \<times> 'os) option" where
  "list_read_file sys fn b m os =
    rbind (temp_failure_retry (sys_open sys fn [O_rdonly, O_cloexec] 0) os) (\<lambda>(opened, os).
    case opened of
      Inl err \<Rightarrow> Some (Inr ((- int err, Some (Cannot_open err), b, m), os))
    | Inr fd \<Rightarrow>
        case sys_fstat sys fd os of
          (Inl err, os) \<Rightarrow> close_retry sys fd (- int err, Some (Stat_error err), b, m) os
        | (Inr size1, os) \<Rightarrow>
            rbind (list_read_fd sys fd size1 b m os) (\<lambda>(res, os). after_read sys fd size1 res os))"

text \<open>An \<^verbatim>\<open>lseek64\<close> that succeeds at another offset would return a stale \<^verbatim>\<open>errno\<close>.\<close>

definition list_pread_file ::
    "'os sys \<Rightarrow> string \<Rightarrow> nat \<Rightarrow> nat \<Rightarrow> blist \<Rightarrow> mem \<Rightarrow> 'os
      \<Rightarrow> (exn + (int \<times> io_message option \<times> blist \<times> mem) \<times> 'os) option" where
  "list_pread_file sys fn off len b m os =
    rbind (temp_failure_retry (sys_open sys fn [O_rdonly, O_cloexec] 0) os) (\<lambda>(opened, os).
    case opened of
      Inl err \<Rightarrow> Some (Inr ((- int err, Some (Cannot_open err), b, m), os))
    | Inr fd \<Rightarrow>
        case sys_fstat sys fd os of
          (Inl err, os) \<Rightarrow> close_retry sys fd (- int err, Some (Stat_error err), b, m) os
        | (Inr size1, os) \<Rightarrow>
            if off > size1 then close_retry sys fd (0, Some Size_below_offset, b, m) os
            else
              let len = (if len > size1 - off then size1 - off else len) in
              case sys_lseek sys fd off os of
                (Inl err, os) \<Rightarrow> Some (Inr ((- int err, None, b, m), os))
              | (Inr pos, os) \<Rightarrow>
                  if pos \<noteq> off then Some (Inl Undefined)
                  else
                    rbind (list_read_fd sys fd len b m os) (\<lambda>(res, os). after_read sys fd len res os))"

end
