(* ===== verification/Io_Props.thy ===== *)
theory Io_Props
  imports Buffer_Io Safe_Io_Props Buffer_Cut_Props
begin

text \<open>
  Writing a list to a descriptor writes its bytes once and in order, whatever portions the system
  takes; at an offset it never gives up.
\<close>

subsection \<open>What \<^verbatim>\<open>writev(2)\<close> and \<^verbatim>\<open>pwritev(2)\<close> are documented to do\<close>

text \<open>They take a nonempty prefix of the bytes of the vectors; no vectors are no bytes.\<close>

definition vector_writes ::
    "(nat \<Rightarrow> bytes list \<Rightarrow> 'os \<Rightarrow> (errno + nat) \<times> 'os) \<Rightarrow> (nat \<Rightarrow> bytes \<Rightarrow> 'f \<Rightarrow> 'f) \<Rightarrow> ('os \<Rightarrow> 'f) \<Rightarrow>
      ('os \<Rightarrow> nat) \<Rightarrow> (errno \<Rightarrow> bool) \<Rightarrow> bool" where
  "vector_writes call put cont patience again \<longleftrightarrow>
    (\<forall>k vec os. vec = [] \<or> concat vec \<noteq> [] \<longrightarrow>
      (case call k vec os of
         (Inr n, os') \<Rightarrow> (vec \<noteq> [] \<longrightarrow> 0 < n) \<and> n \<le> length (concat vec) \<and>
           cont os' = put k (take n (concat vec)) (cont os) \<and> patience os' \<le> patience os
       | (Inl e, os') \<Rightarrow> cont os' = cont os \<and> 0 < e \<and> (again e \<longrightarrow> patience os' < patience os)))"

lemma vector_writesD:
  assumes "vector_writes call put cont patience again" "vec = [] \<or> concat vec \<noteq> []" "call k vec os = (res, os')"
  shows "res = Inr n \<Longrightarrow> (vec \<noteq> [] \<longrightarrow> 0 < n) \<and> n \<le> length (concat vec) \<and>
      cont os' = put k (take n (concat vec)) (cont os) \<and> patience os' \<le> patience os"
    "res = Inl e \<Longrightarrow> cont os' = cont os \<and> 0 < e \<and> (again e \<longrightarrow> patience os' < patience os)"
proof -
  have "case (res, os') of
         (Inr n, os') \<Rightarrow> (vec \<noteq> [] \<longrightarrow> 0 < n) \<and> n \<le> length (concat vec) \<and>
           cont os' = put k (take n (concat vec)) (cont os) \<and> patience os' \<le> patience os
       | (Inl e, os') \<Rightarrow> cont os' = cont os \<and> 0 < e \<and> (again e \<longrightarrow> patience os' < patience os)"
    using assms(1) [unfolded vector_writes_def, rule_format, OF assms(2), of os k] unfolding assms(3) .
  then show "res = Inr n \<Longrightarrow> (vec \<noteq> [] \<longrightarrow> 0 < n) \<and> n \<le> length (concat vec) \<and>
      cont os' = put k (take n (concat vec)) (cont os) \<and> patience os' \<le> patience os"
    "res = Inl e \<Longrightarrow> cont os' = cont os \<and> 0 < e \<and> (again e \<longrightarrow> patience os' < patience os)"
    by auto
qed

subsection \<open>The vectors after a partial write\<close>

lemma iov_skip_ok:
  assumes "wrote < length (concat vec)"
  shows "\<exists>w vec'. iov_skip wrote (length (concat vec)) vec = Inr (w, length (concat vec'), vec') \<and> vec' \<noteq> [] \<and>
    w < length (hd vec') \<and> drop w (concat vec') = drop wrote (concat vec) \<and>
    length (concat vec') = length (concat vec) - (wrote - w) \<and> w \<le> wrote"
  using assms
proof (induction vec arbitrary: wrote)
  case (Cons v vs)
  show ?case
  proof (cases "wrote \<ge> length v")
    case True
    have "wrote - length v < length (concat vs)" using Cons.prems True by auto
    from Cons.IH [OF this] show ?thesis using True by auto
  next
    case False
    then show ?thesis by (intro exI [of _ wrote] exI [of _ "v # vs"]) auto
  qed
qed simp

lemma iov_recover_ok:
  assumes "wrote < length (concat vec)"
  shows "\<exists>vec'. iov_recover wrote (length (concat vec)) vec = Inr (length (concat vec'), vec') \<and>
    concat vec' = drop wrote (concat vec)"
proof -
  obtain w vec' where s: "iov_skip wrote (length (concat vec)) vec = Inr (w, length (concat vec'), vec')" "vec' \<noteq> []"
      "w < length (hd vec')" "drop w (concat vec') = drop wrote (concat vec)"
    using iov_skip_ok [OF assms] by blast
  obtain v vs where v: "vec' = v # vs" using s(2) by (cases vec') auto
  have c: "concat (drop w v # vs) = drop wrote (concat vec)" using s(3,4) v by simp
  moreover have "length (concat (drop w v # vs)) = length (concat vec') - w" using s(3) v by simp
  ultimately show ?thesis
    using s(1) v by (auto simp: iov_recover_def)
qed

lemma iov_drain_ok:
  assumes "r < length (concat vec)"
  shows "\<exists>vec'. iov_drain r vec = Inr vec' \<and> concat vec' = drop r (concat vec)"
  using assms
proof (induction vec arbitrary: r)
  case (Cons v vs)
  show ?case
  proof (cases "r > 0 \<and> length v \<le> r")
    case True
    have "r - length v < length (concat vs)" using Cons.prems True by auto
    from Cons.IH [OF this] show ?thesis using True by auto
  next
    case False
    then show ?thesis by auto
  qed
qed simp

subsection \<open>The loops of \<^verbatim>\<open>write_fd\<close>\<close>

lemma writev_loop:
  assumes w: "vector_writes (\<lambda>_. sys_writev sys fd) put_stream cont patience (\<lambda>e. e = eintr)"
    and v: "vec = [] \<or> concat vec \<noteq> []"
  shows "\<exists>ret os'. run (writev_round sys fd) (length (concat vec), vec, os) = Some (Inr (ret, os')) \<and>
    ((ret = 0 \<and> cont os' = cont os @ concat vec) \<or>
     (ret < 0 \<and> (\<exists>n. n \<le> length (concat vec) \<and> cont os' = cont os @ take n (concat vec))))"
  using v
proof (induction "length (concat vec) + patience os" arbitrary: vec os rule: less_induct)
  case less
  let ?step = "writev_round sys fd" and ?s = "(length (concat vec), vec, os)"
  obtain res os' where c: "sys_writev sys fd vec os = (res, os')" by (cases "sys_writev sys fd vec os")
  note doc = vector_writesD [where k = 0, OF w less.prems c]
  show ?case
  proof (cases res)
    case (Inl e)
    show ?thesis
    proof (cases "e = eintr")
      case True
      have step: "run ?step ?s = run ?step (length (concat vec), vec, os')"
        by (rule run_simps(3)) (simp add: writev_round_def c Inl True)
      show ?thesis using less.hyps [of vec os'] less.prems doc(2) [OF Inl] True unfolding step by auto
    next
      case False
      have "run ?step ?s = Some (Inr (- int e, os'))"
        by (rule run_simps(2)) (simp add: writev_round_def c Inl False)
      then show ?thesis using doc(2) [OF Inl] by (auto intro: exI [of _ 0])
    qed
  next
    case (Inr n)
    note d = doc(1) [OF Inr]
    show ?thesis
    proof (cases "n < length (concat vec)")
      case False
      have "run ?step ?s = Some (Inr (0, os'))"
        by (rule run_simps(2)) (simp add: writev_round_def c Inr False)
      then show ?thesis using d False by (auto simp: put_stream_def)
    next
      case True
      then obtain vec' where r: "iov_recover n (length (concat vec)) vec = Inr (length (concat vec'), vec')"
          "concat vec' = drop n (concat vec)"
        using iov_recover_ok by blast
      have step: "run ?step ?s = run ?step (length (concat vec'), vec', os')"
        by (rule run_simps(3)) (use True r(1) in \<open>simp add: writev_round_def c Inr\<close>)
      have n: "0 < n" "cont os' = cont os @ take n (concat vec)" "patience os' \<le> patience os"
        using d True by (auto simp: put_stream_def)
      have "length (concat vec') + patience os' < length (concat vec) + patience os" "concat vec' \<noteq> []"
        using r(2) n(1,3) True by auto
      from less.hyps [OF this(1) disjI2 [OF this(2)]] obtain ret os'' where
        i: "run ?step (length (concat vec'), vec', os') = Some (Inr (ret, os''))"
          "ret = 0 \<and> cont os'' = cont os' @ concat vec' \<or>
           ret < 0 \<and> (\<exists>j. j \<le> length (concat vec') \<and> cont os'' = cont os' @ take j (concat vec'))"
        by blast
      have "cont os' @ concat vec' = cont os @ concat vec" using n(2) r(2) by simp
      moreover have "cont os' @ take j (concat vec') = cont os @ take (n + j) (concat vec)" for j
        using n(2) r(2) by (simp add: take_add)
      moreover have "n + j \<le> length (concat vec)" if "j \<le> length (concat vec')" for j
        using that r(2) True by simp
      ultimately show ?thesis using i unfolding step by auto
    qed
  qed
qed

lemma write_nodes_ok:
  assumes w: "vector_writes (\<lambda>_. sys_writev sys fd) put_stream cont patience (\<lambda>e. e = eintr)"
    and m: "wf_mem m" "\<forall>i \<in> set nodes. has_raw m i" and iov: "\<forall>v \<in> set iov. v \<noteq> []"
    and some: "nodes = [] \<Longrightarrow> iov = []"
  shows "\<exists>ret os'. write_fd_nodes sys fd m nodes iov (length (concat iov)) os = Some (Inr (ret, os')) \<and>
    ((ret = 0 \<and> cont os' = cont os @ concat iov @ cat_bytes m nodes) \<or>
     (ret < 0 \<and> (\<exists>n. n \<le> length (concat iov @ cat_bytes m nodes) \<and>
        cont os' = cont os @ take n (concat iov @ cat_bytes m nodes))))"
  using m(2) iov some
proof (induction nodes arbitrary: iov os)
  case Nil
  then show ?case by simp
next
  case (Cons i rest)
  have i: "has_raw m i" using Cons.prems(1) by simp
  let ?x = "node_bytes m i"
  note len = ptr_length_bytes [OF m(1) i] and rd = ptr_read_bytes [OF m(1) i]
  define iov1 where "iov1 = (if ?x = [] then iov else iov @ [?x])"
  have iov1: "concat iov1 = concat iov @ ?x" "\<forall>v \<in> set iov1. v \<noteq> []" using Cons.prems(2) by (auto simp: iov1_def)
  have gathered: "rbind (if length ?x > 0
      then rbind (Some (ptr_read m i)) (\<lambda>bs. Some (Inr (iov @ [bs], length (concat iov) + length ?x)))
      else Some (Inr (iov, length (concat iov)))) f = f (iov1, length (concat iov1))" for f :: "_ \<Rightarrow> (exn + 'x) option"
    using rd iov1(1) by (auto simp: iov1_def)
  have ne: "iov1 = [] \<or> concat iov1 \<noteq> []" using iov1(2) by (cases iov1) auto
  show ?case
  proof (cases "length iov1 = iov_max \<or> rest = []")
    case False
    then have "write_fd_nodes sys fd m (i # rest) iov (length (concat iov)) os =
        write_fd_nodes sys fd m rest iov1 (length (concat iov1)) os"
      unfolding write_fd_nodes.simps write_fd_round_def prod.case list.case len(1) rbind_simps gathered by simp
    note same = this
    have all: "concat iov @ cat_bytes m (i # rest) = concat iov1 @ cat_bytes m rest" using iov1(1) by simp
    show ?thesis unfolding same all by (rule Cons.IH [OF _ iov1(2)]) (use Cons.prems(1) False in auto)
  next
    case True
    obtain ret os1 where v: "run (writev_round sys fd) (length (concat iov1), iov1, os) = Some (Inr (ret, os1))"
        "ret = 0 \<and> cont os1 = cont os @ concat iov1 \<or>
         ret < 0 \<and> (\<exists>n. n \<le> length (concat iov1) \<and> cont os1 = cont os @ take n (concat iov1))"
      using writev_loop [OF w ne] by blast
    have all: "concat iov @ cat_bytes m (i # rest) = concat iov1 @ cat_bytes m rest" using iov1(1) by simp
    have run: "write_fd_nodes sys fd m (i # rest) iov (length (concat iov)) os =
        (if ret < 0 then Some (Inr (ret, os1)) else write_fd_nodes sys fd m rest [] 0 os1)"
      unfolding write_fd_nodes.simps write_fd_round_def prod.case list.case len(1) rbind_simps gathered
      using True v(1) by simp
    show ?thesis
    proof (cases "ret < 0")
      case neg: True
      then obtain n where "n \<le> length (concat iov1)" "cont os1 = cont os @ take n (concat iov1)" using v(2) by auto
      then have "n \<le> length (concat iov1 @ cat_bytes m rest) \<and>
          cont os1 = cont os @ take n (concat iov1 @ cat_bytes m rest)"
        by simp
      then show ?thesis unfolding run all using neg by auto
    next
      case False
      then have c: "cont os1 = cont os @ concat iov1" using v(2) by auto
      obtain ret' os2 where t: "write_fd_nodes sys fd m rest [] (length (concat ([] :: bytes list))) os1 = Some (Inr (ret', os2))"
          "ret' = 0 \<and> cont os2 = cont os1 @ concat [] @ cat_bytes m rest \<or>
           ret' < 0 \<and> (\<exists>n. n \<le> length (concat [] @ cat_bytes m rest) \<and>
             cont os2 = cont os1 @ take n (concat [] @ cat_bytes m rest))"
        using Cons.IH [of "[]" os1] Cons.prems(1) by auto
      have run': "write_fd_nodes sys fd m (i # rest) iov (length (concat iov)) os = Some (Inr (ret', os2))"
        unfolding run using t(1) False by simp
      have cut: "cont os1 @ take n (cat_bytes m rest) = cont os @ take (length (concat iov1) + n) (concat iov1 @ cat_bytes m rest)" for n
        using c by simp
      have "ret' = 0 \<and> cont os2 = cont os @ concat iov1 @ cat_bytes m rest \<or>
          ret' < 0 \<and> (\<exists>n. n \<le> length (concat iov1 @ cat_bytes m rest) \<and>
            cont os2 = cont os @ take n (concat iov1 @ cat_bytes m rest))"
        using t(2)
      proof (elim disjE conjE exE)
        fix n assume n: "ret' < 0" "n \<le> length (concat [] @ cat_bytes m rest)"
          "cont os2 = cont os1 @ take n (concat [] @ cat_bytes m rest)"
        have "cont os2 = cont os @ take (length (concat iov1) + n) (concat iov1 @ cat_bytes m rest)"
          using n(3) cut by (simp del: take_append)
        moreover have "length (concat iov1) + n \<le> length (concat iov1 @ cat_bytes m rest)" using n(2) by simp
        ultimately show ?thesis using n(1) by blast
      qed (simp add: c)
      then show ?thesis unfolding run' all by blast
    qed
  qed
qed

text \<open>
  C23 (functional). Writing a list to a descriptor returns, whatever portions \<^verbatim>\<open>writev\<close> takes and however
  often it is interrupted: 0 when the bytes of all the nodes have been written, once and in order,
  and otherwise a negative error with a prefix of them written.
\<close>

theorem list_write_fd_writes:
  assumes "wf_mem m" "wf_nodes m b"
    and "vector_writes (\<lambda>_. sys_writev sys fd) put_stream stream patience (\<lambda>e. e = eintr)"
  shows "\<exists>ret os'. list_write_fd sys fd m b os = Some (Inr (ret, os')) \<and>
    (ret = 0 \<and> stream os' = stream os @ bl_bytes m b \<or>
     ret < 0 \<and> (\<exists>n. n \<le> length (bl_bytes m b) \<and> stream os' = stream os @ take n (bl_bytes m b)))"
  using write_nodes_ok [OF assms(3,1), of "bufs b" "[]" os] wf_nodesD(2) [OF assms(2)]
  by (simp add: list_write_fd_def bl_bytes_cat)

lemma tiny_writev:
  "vector_writes (\<lambda>_. sys_writev tiny_sys fd) put_stream t_file t_signals (\<lambda>e. e = eintr)"
  unfolding vector_writes_def tiny_sys_sel tiny_write_def tiny_signal_def
  by (auto simp: eintr_def put_stream_def min_def)

theorem list_write_fd_writes_witness:
  "\<exists>m b ret os'. list_write_fd tiny_sys 3 m b \<lparr>t_file = [9], t_pos = 0, t_signals = 0\<rparr> = Some (Inr (ret, os')) \<and>
    (ret = 0 \<longrightarrow> t_file os' = [9, 1, 2, 3, 1, 2, 3])"
proof -
  obtain m b where r: "ready b m" and b: "bl_bytes m b = [1, 2, 3, 1, 2, 3]" using demo_list by blast
  show ?thesis
    using list_write_fd_writes [OF readyD(1,3) [OF r] tiny_writev [where fd = 3],
        where os = "\<lparr>t_file = [9], t_pos = 0, t_signals = 0\<rparr>"] b
    by auto
qed

subsection \<open>Writing at an offset\<close>

lemma do_writev_ok:
  assumes w: "vector_writes (\<lambda>k vec. sys_pwritev sys fd vec k) (put_file 0) file patience (\<lambda>_. True)"
    and "offset + length (concat vec) < two64"
  shows "\<exists>os'. do_writev sys fd vec offset (length (concat vec)) os = Some (Inr (0, os')) \<and>
    file os' = put_file 0 offset (concat vec) (file os)"
  using assms(2)
proof (induction "length (concat vec) + patience os" arbitrary: vec offset os rule: less_induct)
  case less
  let ?step = "do_writev_round sys fd" and ?s = "(vec, offset, length (concat vec), os)"
  show ?case
  proof (cases "concat vec = []")
    case True
    have "run ?step (vec, offset, 0, os) = Some (Inr (0, os))" by (rule run_simps(2)) (simp add: do_writev_round_def)
    then show ?thesis unfolding do_writev_def True list.size by (simp add: put_file_def)
  next
    case False
    then have pos: "0 < length (concat vec)" by blast
    have vec: "vec \<noteq> []" using False by auto
    obtain res os' where c: "sys_pwritev sys fd vec offset os = (res, os')" by (cases "sys_pwritev sys fd vec offset os")
    note doc = vector_writesD [OF w disjI2 [OF False] c]
    show ?thesis
    proof (cases res)
      case (Inl e)
      have step: "run ?step ?s = run ?step (vec, offset, length (concat vec), os')"
        by (rule run_simps(3)) (use pos in \<open>simp add: do_writev_round_def c Inl\<close>)
      show ?thesis
        using less.hyps [of vec os' offset] less.prems doc(2) [OF Inl] unfolding do_writev_def step by auto
    next
      case (Inr n)
      have n: "0 < n" "n \<le> length (concat vec)" "file os' = put_file 0 offset (take n (concat vec)) (file os)"
        "patience os' \<le> patience os"
        using doc(1) [OF Inr] vec by auto
      have ar: "sub64 (length (concat vec)) n = length (concat vec) - n" "add64 offset n = offset + n"
        using n(2) less.prems by (simp_all add: arith64)
      show ?thesis
      proof (cases "n = length (concat vec)")
        case all: True
        have "run ?step ?s = Some (Inr (0, os'))"
          by (rule run_simps(2)) (use pos all ar in \<open>simp add: do_writev_round_def c Inr Let_def\<close>)
        then show ?thesis unfolding do_writev_def using n(3) all by simp
      next
        case False
        then obtain vec' where d: "iov_drain n vec = Inr vec'" "concat vec' = drop n (concat vec)"
          using iov_drain_ok [of n vec] n(2) by auto
        have "run ?step ?s = run ?step (vec', offset + n, length (concat vec'), os')"
          by (rule run_simps(3)) (use pos ar d False n(2) in \<open>simp add: do_writev_round_def c Inr Let_def\<close>)
        moreover have "length (concat vec') + patience os' < length (concat vec) + patience os"
          "offset + n + length (concat vec') < two64"
          using d(2) n False less.prems by auto
        moreover have "put_file 0 (offset + n) (concat vec') (file os') = put_file 0 offset (concat vec) (file os)"
          using file_at.put_put [of 0 offset "take n (concat vec)" "concat vec'"] n(2,3) d(2) by simp
        ultimately show ?thesis using less.hyps [of vec' os' "offset + n"] unfolding do_writev_def by simp
      qed
    qed
  qed
qed

lemma gather_ok:
  assumes "wf_mem m" "\<forall>i \<in> set nodes. has_raw m i" "k \<le> length nodes"
  shows "gather m k nodes = Inr (map (node_bytes m) (take k nodes), drop k nodes)"
  using assms(2,3)
proof (induction k arbitrary: nodes)
  case (Suc k)
  then obtain i rest where n: "nodes = i # rest" by (cases nodes) auto
  have "ptr_read m i = Inr (node_bytes m i)" using ptr_read_bytes [OF assms(1)] Suc.prems n by simp
  then show ?case using Suc n by simp
qed simp

lemma gather_length: "gather m k nodes = Inr (vec, rest) \<Longrightarrow> length rest = length nodes - k"
  by (induction m k nodes arbitrary: vec rule: gather.induct) (auto simp: ebind_Inr_iff)

lemma portion_split:
  "concat (map (node_bytes m) (take k nodes)) @ cat_bytes m (drop k nodes) = cat_bytes m nodes"
  using cat_bytes_simps(3) [of m "take k nodes" "drop k nodes"] by (simp add: cat_bytes_def)

lemma write_at_ok:
  assumes w: "vector_writes (\<lambda>k vec. sys_pwritev sys fd vec k) (put_file 0) file patience (\<lambda>_. True)"
    and m: "wf_mem m" "\<forall>i \<in> set nodes. has_raw m i" and small: "offset + length (cat_bytes m nodes) < two64"
  shows "\<exists>os'. write_fd_at_nodes sys fd m (length nodes) nodes offset os = Some (Inr (0, os')) \<and>
    file os' = put_file 0 offset (cat_bytes m nodes) (file os)"
  using m(2) small
proof (induction "length nodes" arbitrary: nodes offset os rule: less_induct)
  case less
  show ?case
  proof (cases "nodes = []")
    case True
    then show ?thesis by (simp add: write_fd_at_nodes.simps [of sys fd m 0] put_file_def)
  next
    case False
    define k where "k = min (length nodes) iov_max"
    define vec where "vec = map (node_bytes m) (take k nodes)"
    have k: "k \<le> length nodes" "0 < k" using False by (auto simp: k_def iov_max_def)
    have split: "concat vec @ cat_bytes m (drop k nodes) = cat_bytes m nodes" unfolding vec_def by (rule portion_split)
    have len: "length (concat vec) + length (cat_bytes m (drop k nodes)) = length (cat_bytes m nodes)"
      using arg_cong [OF split, of length] by simp
    obtain os1 where o: "do_writev sys fd vec offset (length (concat vec)) os = Some (Inr (0, os1))"
        "file os1 = put_file 0 offset (concat vec) (file os)"
      using do_writev_ok [OF w, of offset vec os] less.prems(2) len by auto
    have g: "gather m k nodes = Inr (vec, drop k nodes)"
      unfolding vec_def by (rule gather_ok [OF m(1) less.prems(1) k(1)])
    have a: "add64 offset (length (concat vec)) = offset + length (concat vec)"
      using less.prems(2) len by (simp add: add64_def)
    have shorter: "length (drop k nodes) < length nodes" using k by simp
    have rest: "\<forall>i \<in> set (drop k nodes). has_raw m i"
      "offset + length (concat vec) + length (cat_bytes m (drop k nodes)) < two64"
      using less.prems len by (auto dest: in_set_dropD)
    have "write_fd_at_nodes sys fd m (length nodes) nodes offset os =
        write_fd_at_nodes sys fd m (length (drop k nodes)) (drop k nodes) (offset + length (concat vec)) os1"
      using False o(1) g a by (simp add: write_fd_at_nodes.simps [of sys fd m "length nodes"] k_def [symmetric] Let_def)
    moreover obtain os' where "write_fd_at_nodes sys fd m (length (drop k nodes)) (drop k nodes) (offset + length (concat vec)) os1 =
        Some (Inr (0, os'))" "file os' = put_file 0 (offset + length (concat vec)) (cat_bytes m (drop k nodes)) (file os1)"
      using less.hyps [OF shorter rest] by blast
    moreover have "put_file 0 (offset + length (concat vec)) (cat_bytes m (drop k nodes)) (file os1) =
        put_file 0 offset (cat_bytes m nodes) (file os)"
      using file_at.put_put [of 0 offset "concat vec" "cat_bytes m (drop k nodes)"] unfolding o(2) split .
    ultimately show ?thesis by simp
  qed
qed

text \<open>
  Without a bound on the failures: a call may be refused for ever, in every state the failures
  before it have left behind.
\<close>

definition refused :: "'os sys \<Rightarrow> int \<Rightarrow> bytes list \<Rightarrow> nat \<Rightarrow> 'os \<Rightarrow> bool" where
  "refused sys fd vec off os \<longleftrightarrow>
    (\<forall>k. \<exists>e os'. sys_pwritev sys fd vec off (((\<lambda>o1. snd (sys_pwritev sys fd vec off o1)) ^^ k) os) = (Inl e, os'))"

definition rounds ::
    "'os sys \<Rightarrow> int \<Rightarrow> bytes list \<times> nat \<times> nat \<times> 'os \<Rightarrow> bytes list \<times> nat \<times> nat \<times> 'os \<Rightarrow> bool" where
  "rounds sys fd = (\<lambda>s s'. do_writev_round sys fd s = Inr (Inr s'))\<^sup>*\<^sup>*"

text \<open>
  The calls that writing \<open>nodes\<close> at an offset comes to, one portion after the other: \<^verbatim>\<open>pwritev\<close> is called
  with \<open>vec\<close> at \<open>off\<close> in state \<open>os'\<close>.
\<close>

inductive calls ::
    "'os sys \<Rightarrow> int \<Rightarrow> mem \<Rightarrow> nat list \<Rightarrow> nat \<Rightarrow> 'os \<Rightarrow> bytes list \<Rightarrow> nat \<Rightarrow> 'os \<Rightarrow> bool" for sys fd m where
  calls_now: "nodes \<noteq> [] \<Longrightarrow> gather m (min (length nodes) iov_max) nodes = Inr (vec, rest) \<Longrightarrow>
    rounds sys fd (vec, offset, length (concat vec), os) (vec', off', left', os') \<Longrightarrow> 0 < left' \<Longrightarrow>
    calls sys fd m nodes offset os vec' off' os'"
| calls_later: "nodes \<noteq> [] \<Longrightarrow> gather m (min (length nodes) iov_max) nodes = Inr (vec, rest) \<Longrightarrow>
    do_writev sys fd vec offset (length (concat vec)) os = Some (Inr (r, os1)) \<Longrightarrow> 0 \<le> r \<Longrightarrow>
    calls sys fd m rest (add64 offset (length (concat vec))) os1 vec' off' os' \<Longrightarrow>
    calls sys fd m nodes offset os vec' off' os'"

lemma rounds_trans: "rounds sys fd s s1 \<Longrightarrow> rounds sys fd s1 s' \<Longrightarrow> rounds sys fd s s'"
  unfolding rounds_def by (rule rtranclp_trans)

lemma rounds_run:
  "rounds sys fd s s' \<Longrightarrow> run (do_writev_round sys fd) s = run (do_writev_round sys fd) s'"
  unfolding rounds_def by (induction rule: rtranclp_induct) (simp_all add: run_simps(3))

lemma refused_step:
  assumes "refused sys fd vec off os"
  shows "\<exists>e os'. sys_pwritev sys fd vec off os = (Inl e, os') \<and> refused sys fd vec off os'"
proof -
  obtain e os' where c: "sys_pwritev sys fd vec off os = (Inl e, os')"
    using assms [unfolded refused_def, rule_format, of 0] by auto
  have "refused sys fd vec off os'"
    unfolding refused_def
  proof
    fix k
    have "((\<lambda>o1. snd (sys_pwritev sys fd vec off o1)) ^^ Suc k) os = ((\<lambda>o1. snd (sys_pwritev sys fd vec off o1)) ^^ k) os'"
      unfolding funpow_Suc_right comp_def c by simp
    then show "\<exists>e o2. sys_pwritev sys fd vec off (((\<lambda>o1. snd (sys_pwritev sys fd vec off o1)) ^^ k) os') = (Inl e, o2)"
      using assms [unfolded refused_def, rule_format, of "Suc k"] by simp
  qed
  then show ?thesis using c by blast
qed

lemma refused_hangs:
  assumes "refused sys fd vec off os" "0 < left"
  shows "run (do_writev_round sys fd) (vec, off, left, os) = None"
proof (rule run_forever [where P = "\<lambda>(v, f, l, o1). v = vec \<and> f = off \<and> l = left \<and> refused sys fd vec off o1"])
  fix s :: "bytes list \<times> nat \<times> nat \<times> 'a"
  assume p: "case s of (v, f, l, o1) \<Rightarrow> v = vec \<and> f = off \<and> l = left \<and> refused sys fd vec off o1"
  obtain v f l o1 where s: "s = (v, f, l, o1)" by (cases s) auto
  obtain e o2 where "sys_pwritev sys fd vec off o1 = (Inl e, o2)" "refused sys fd vec off o2"
    using refused_step [of sys fd vec off o1] p s by auto
  then show "\<exists>s'. do_writev_round sys fd s = Inr (Inr s') \<and>
      (case s' of (v, f, l, o1) \<Rightarrow> v = vec \<and> f = off \<and> l = left \<and> refused sys fd vec off o1)"
    using p s assms(2) by (simp add: do_writev_round_def)
qed (use assms in simp)

text \<open>The documented behaviour, with nothing said about how often a call may fail.\<close>

abbreviation pwritev_ok :: "'os sys \<Rightarrow> int \<Rightarrow> ('os \<Rightarrow> bytes) \<Rightarrow> bool" where
  "pwritev_ok sys fd file \<equiv>
    vector_writes (\<lambda>k vec. sys_pwritev sys fd vec k) (put_file 0) file (\<lambda>_. 0) (\<lambda>_. False)"

lemma not_refused:
  assumes w: "pwritev_ok sys fd file" and vec: "concat vec \<noteq> []" and n: "\<not> refused sys fd vec off os"
  shows "\<exists>os1 n os2. rounds sys fd (vec, off, length (concat vec), os) (vec, off, length (concat vec), os1) \<and>
    file os1 = file os \<and> sys_pwritev sys fd vec off os1 = (Inr n, os2)"
proof -
  let ?f = "\<lambda>o1. snd (sys_pwritev sys fd vec off o1)"
  let ?fails = "\<lambda>k. \<exists>e os'. sys_pwritev sys fd vec off ((?f ^^ k) os) = (Inl e, os')"
  obtain k where k: "\<not> ?fails k" "\<And>j. j < k \<Longrightarrow> ?fails j"
    using n exists_least_iff [of "\<lambda>k. \<not> ?fails k"] unfolding refused_def by auto
  have "rounds sys fd (vec, off, length (concat vec), os) (vec, off, length (concat vec), (?f ^^ j) os) \<and>
      file ((?f ^^ j) os) = file os" if "j \<le> k" for j
    using that
  proof (induction j)
    case 0
    then show ?case by (simp add: rounds_def)
  next
    case (Suc j)
    obtain e os' where c: "sys_pwritev sys fd vec off ((?f ^^ j) os) = (Inl e, os')" using k(2) [of j] Suc.prems by auto
    then have next_os: "(?f ^^ Suc j) os = os'" by simp
    have "do_writev_round sys fd (vec, off, length (concat vec), (?f ^^ j) os) = Inr (Inr (vec, off, length (concat vec), os'))"
      using vec c by (simp add: do_writev_round_def)
    moreover have "file os' = file ((?f ^^ j) os)" using vector_writesD(2) [OF w disjI2 [OF vec] c refl] by blast
    ultimately show ?case
      using Suc unfolding next_os rounds_def by (auto intro: rtranclp.rtrancl_into_rtrancl)
  qed
  then show ?thesis using k(1)
    by (cases "sys_pwritev sys fd vec off ((?f ^^ k) os)"; cases "fst (sys_pwritev sys fd vec off ((?f ^^ k) os))") auto
qed

lemma do_writev_cases:
  assumes w: "pwritev_ok sys fd file" and "offset + length (concat vec) < two64"
  shows "(\<exists>os'. do_writev sys fd vec offset (length (concat vec)) os = Some (Inr (0, os')) \<and>
      file os' = put_file 0 offset (concat vec) (file os)) \<or>
    (\<exists>vec' off' left' os'. rounds sys fd (vec, offset, length (concat vec), os) (vec', off', left', os') \<and>
      0 < left' \<and> refused sys fd vec' off' os')"
  using assms(2)
proof (induction "length (concat vec)" arbitrary: vec offset os rule: less_induct)
  case less
  let ?step = "do_writev_round sys fd" and ?s = "(vec, offset, length (concat vec), os)"
  show ?case
  proof (cases "concat vec = [] \<or> refused sys fd vec offset os")
    case True
    show ?thesis
    proof (cases "concat vec = []")
      case none: True
      have "run ?step (vec, offset, 0, os) = Some (Inr (0, os))" by (rule run_simps(2)) (simp add: do_writev_round_def)
      then show ?thesis unfolding do_writev_def none list.size by (simp add: put_file_def)
    next
      case False
      have "rounds sys fd ?s ?s" by (simp add: rounds_def)
      moreover have "0 < length (concat vec)" using False by blast
      moreover have "refused sys fd vec offset os" using True False by blast
      ultimately show ?thesis by blast
    qed
  next
    case False
    then have ne: "concat vec \<noteq> []" "\<not> refused sys fd vec offset os" by simp_all
    obtain os1 n os2 where r: "rounds sys fd ?s (vec, offset, length (concat vec), os1)" "file os1 = file os"
        "sys_pwritev sys fd vec offset os1 = (Inr n, os2)"
      using not_refused [OF w ne] by blast
    have "vec \<noteq> []" using ne(1) by auto
    then have n: "0 < n" "n \<le> length (concat vec)" "file os2 = put_file 0 offset (take n (concat vec)) (file os)"
      using vector_writesD(1) [OF w disjI2 [OF ne(1)] r(3) refl] r(2) by auto
    have ar: "sub64 (length (concat vec)) n = length (concat vec) - n" "add64 offset n = offset + n"
      using n(2) less.prems by (simp_all add: arith64)
    show ?thesis
    proof (cases "n = length (concat vec)")
      case all: True
      have "run ?step (vec, offset, length (concat vec), os1) = Some (Inr (0, os2))"
        by (rule run_simps(2)) (use n(1) all ar r(3) in \<open>simp add: do_writev_round_def Let_def\<close>)
      then show ?thesis unfolding do_writev_def rounds_run [OF r(1)] using n(3) all by simp
    next
      case False
      then obtain vec' where d: "iov_drain n vec = Inr vec'" "concat vec' = drop n (concat vec)"
        using iov_drain_ok [of n vec] n(2) by auto
      let ?s1 = "(vec', offset + n, length (concat vec'), os2)"
      have "?step (vec, offset, length (concat vec), os1) = Inr (Inr ?s1)"
        using n ar d False r(3) ne(1) by (simp add: do_writev_round_def Let_def)
      then have to: "rounds sys fd ?s ?s1"
        using r(1) unfolding rounds_def by (auto intro: rtranclp.rtrancl_into_rtrancl)
      have shorter: "length (concat vec') < length (concat vec)" "offset + n + length (concat vec') < two64"
        using d(2) n False less.prems by auto
      have put: "put_file 0 (offset + n) (concat vec') (file os2) = put_file 0 offset (concat vec) (file os)"
        using file_at.put_put [of 0 offset "take n (concat vec)" "concat vec'"] n(2,3) d(2) by simp
      from less.hyps [OF shorter, of os2] show ?thesis
        unfolding do_writev_def rounds_run [OF to] put using rounds_trans [OF to] by blast
    qed
  qed
qed

lemma calls_refused_hangs:
  "calls sys fd m nodes offset os vec off os' \<Longrightarrow> refused sys fd vec off os' \<Longrightarrow>
    write_fd_at_nodes sys fd m (length nodes) nodes offset os = None"
proof (induction rule: calls.induct)
  case (calls_now nodes vec rest offset os vec' off' left' os')
  have "do_writev sys fd vec offset (length (concat vec)) os = None"
    unfolding do_writev_def rounds_run [OF calls_now(3)] by (rule refused_hangs [OF calls_now(5,4)])
  then show ?case using calls_now(1,2) by (subst write_fd_at_nodes.simps) (simp add: Let_def)
next
  case (calls_later nodes vec rest offset os r os1 vec' off' os')
  have "length rest = length nodes - min (length nodes) iov_max"
    using gather_length [OF calls_later(2)] .
  then show ?case using calls_later by (subst write_fd_at_nodes.simps) (simp add: Let_def)
qed

lemma write_at_cases:
  assumes w: "pwritev_ok sys fd file"
    and m: "wf_mem m" "\<forall>i \<in> set nodes. has_raw m i" and small: "offset + length (cat_bytes m nodes) < two64"
  shows "(\<exists>os'. write_fd_at_nodes sys fd m (length nodes) nodes offset os = Some (Inr (0, os')) \<and>
      file os' = put_file 0 offset (cat_bytes m nodes) (file os)) \<or>
    (\<exists>vec off os'. calls sys fd m nodes offset os vec off os' \<and> refused sys fd vec off os')"
  using m(2) small
proof (induction "length nodes" arbitrary: nodes offset os rule: less_induct)
  case less
  show ?case
  proof (cases "nodes = []")
    case True
    then show ?thesis by (simp add: write_fd_at_nodes.simps [of sys fd m 0] put_file_def)
  next
    case False
    define k where "k = min (length nodes) iov_max"
    define vec where "vec = map (node_bytes m) (take k nodes)"
    have k: "k \<le> length nodes" "0 < k" using False by (auto simp: k_def iov_max_def)
    have split: "concat vec @ cat_bytes m (drop k nodes) = cat_bytes m nodes" unfolding vec_def by (rule portion_split)
    have len: "length (concat vec) + length (cat_bytes m (drop k nodes)) = length (cat_bytes m nodes)"
      using arg_cong [OF split, of length] by simp
    have g: "gather m k nodes = Inr (vec, drop k nodes)"
      unfolding vec_def by (rule gather_ok [OF m(1) less.prems(1) k(1)])
    have "offset + length (concat vec) < two64" using less.prems(2) len by simp
    from do_writev_cases [OF w this, of os] show ?thesis
    proof
      assume "\<exists>vec' off' left' os'. rounds sys fd (vec, offset, length (concat vec), os) (vec', off', left', os') \<and>
        0 < left' \<and> refused sys fd vec' off' os'"
      then obtain vec' off' left' os' where "rounds sys fd (vec, offset, length (concat vec), os) (vec', off', left', os')"
        "0 < left'" "refused sys fd vec' off' os'" by blast
      then show ?thesis using calls_now [OF False g [unfolded k_def]] by (intro disjI2 exI conjI)
    next
      assume "\<exists>os'. do_writev sys fd vec offset (length (concat vec)) os = Some (Inr (0, os')) \<and>
        file os' = put_file 0 offset (concat vec) (file os)"
      then obtain os1 where o: "do_writev sys fd vec offset (length (concat vec)) os = Some (Inr (0, os1))"
        "file os1 = put_file 0 offset (concat vec) (file os)" by blast
      have a: "add64 offset (length (concat vec)) = offset + length (concat vec)"
        using less.prems(2) len by (simp add: add64_def)
      have shorter: "length (drop k nodes) < length nodes" using k by simp
      have rest: "\<forall>i \<in> set (drop k nodes). has_raw m i"
        "offset + length (concat vec) + length (cat_bytes m (drop k nodes)) < two64"
        using less.prems len by (auto dest: in_set_dropD)
      have go: "write_fd_at_nodes sys fd m (length nodes) nodes offset os =
          write_fd_at_nodes sys fd m (length (drop k nodes)) (drop k nodes) (offset + length (concat vec)) os1"
        using False o(1) g a by (simp add: write_fd_at_nodes.simps [of sys fd m "length nodes"] k_def [symmetric] Let_def)
      have put: "put_file 0 (offset + length (concat vec)) (cat_bytes m (drop k nodes)) (file os1) =
          put_file 0 offset (cat_bytes m nodes) (file os)"
        using file_at.put_put [of 0 offset "concat vec" "cat_bytes m (drop k nodes)"] unfolding o(2) split .
      from less.hyps [OF shorter rest, of os1] show ?thesis
        unfolding go put using calls_later [OF False g [unfolded k_def] o(1) order_refl, unfolded a, folded k_def] by blast
    qed
  qed
qed

text \<open>
  C24 (liveness). Writing a list at an offset never reports an error, whatever errors \<^verbatim>\<open>pwritev\<close> has: it
  does not return exactly when one of the calls it comes to is refused for ever, the first one or one after
  some bytes have been written, and otherwise it returns 0 with all the bytes in the file at that offset.
\<close>

theorem write_at_never_gives_up:
  assumes "wf_mem m" "wf_list m b" "offset + b_len b < two64" "pwritev_ok sys fd file"
  shows "(list_write_fd_at sys fd m b offset os = None \<longleftrightarrow>
      (\<exists>vec off os'. calls sys fd m (bufs b) offset os vec off os' \<and> refused sys fd vec off os')) \<and>
    (list_write_fd_at sys fd m b offset os = None \<or>
      (\<exists>os'. list_write_fd_at sys fd m b offset os = Some (Inr (0, os')) \<and>
        file os' = put_file 0 offset (bl_bytes m b) (file os)))"
proof -
  have n: "\<forall>i \<in> set (bufs b). has_raw m i" "b_num b = length (bufs b)" "b_len b = length (cat_bytes m (bufs b))"
    using assms(2) by (simp_all add: wf_list_def wf_nodes_def bl_bytes_cat)
  have off: "offset + length (cat_bytes m (bufs b)) < two64" using assms(3) n(3) by simp
  show ?thesis
    unfolding list_write_fd_at_def n(2) bl_bytes_cat
    using write_at_cases [OF assms(4,1) n(1) off, of os] calls_refused_hangs [of sys fd m "bufs b" offset os]
    by (metis option.discI)
qed

text \<open>A full disk: every call fails with \<^verbatim>\<open>ENOSPC\<close>.\<close>

definition full_sys :: "tiny_os sys" where
  "full_sys = tiny_sys\<lparr>sys_pwritev := \<lambda>_ _ _ os. (Inl 28, os)\<rparr>"

lemma tiny_pwritev:
  "vector_writes (\<lambda>k vec. sys_pwritev tiny_sys fd vec k) (put_file 0) t_file t_signals (\<lambda>_. True)"
proof -
  have "put_file k 0 bs f = put_file 0 k bs f" for k bs f by (simp add: put_file_def)
  then show ?thesis
    unfolding vector_writes_def tiny_sys_sel tiny_pwrite_def tiny_signal_def
    by (auto simp: eintr_def min_def put_file_def)
qed

lemma pwritev_any: "vector_writes call put cont patience again \<Longrightarrow> vector_writes call put cont (\<lambda>_. 0) (\<lambda>_. False)"
  unfolding vector_writes_def by (fastforce split: prod.splits sum.splits)

lemma full_pwritev: "pwritev_ok full_sys fd t_file" "refused full_sys fd vec off os"
  by (simp_all add: vector_writes_def refused_def full_sys_def)

theorem write_at_never_gives_up_witness:
  "\<exists>m b. (\<exists>os'. list_write_fd_at tiny_sys 3 m b 1 \<lparr>t_file = [9], t_pos = 0, t_signals = 1\<rparr> = Some (Inr (0, os')) \<and>
      t_file os' = [9, 1, 2, 3, 1, 2, 3]) \<and>
    list_write_fd_at full_sys 3 m b 1 \<lparr>t_file = [9], t_pos = 0, t_signals = 1\<rparr> = None"
proof -
  let ?os = "\<lparr>t_file = [9], t_pos = 0, t_signals = 1\<rparr>"
  obtain m b where r: "ready b m" and b: "bl_bytes m b = [1, 2, 3, 1, 2, 3]" "b_len b = 6" "bufs b = [1, 2]"
    using demo_list by blast
  have wf: "wf_mem m" "wf_list m b" using r by (simp_all add: ready_def)
  have off: "1 + b_len b < two64" using b by (simp add: two64_def)
  have n: "\<forall>i \<in> set (bufs b). has_raw m i" "b_num b = length (bufs b)" "b_len b = length (cat_bytes m (bufs b))"
    using wf(2) by (simp_all add: wf_list_def wf_nodes_def bl_bytes_cat)
  note t = write_at_never_gives_up [OF wf off]
  have "list_write_fd_at tiny_sys 3 m b 1 ?os \<noteq> None"
    using write_at_ok [OF tiny_pwritev [where fd = 3] wf(1) n(1) off [unfolded n(3)], of ?os]
    unfolding list_write_fd_at_def n(2) by auto
  moreover have "put_file 0 1 [1, 2, 3, 1, 2, 3] [9] = [9, 1, 2, 3, 1, 2, 3]" by (simp add: put_file_def)
  ultimately have "\<exists>os'. list_write_fd_at tiny_sys 3 m b 1 ?os = Some (Inr (0, os')) \<and> t_file os' = [9, 1, 2, 3, 1, 2, 3]"
    using conjunct2 [OF t [OF pwritev_any [OF tiny_pwritev [where fd = 3]]], of ?os]
    unfolding b(1) tiny_os.select_convs(1) by metis
  moreover have "list_write_fd_at full_sys 3 m b 1 ?os = None"
  proof -
    define vec where "vec = map (node_bytes m) (bufs b)"
    have "gather m (min (length (bufs b)) iov_max) (bufs b) = Inr (vec, [])"
      using gather_ok [OF wf(1) n(1) order_refl] b(3) by (simp add: vec_def iov_max_def)
    moreover have "0 < length (concat vec)" using b(1) by (simp add: vec_def bl_bytes_def)
    ultimately have "calls full_sys 3 m (bufs b) 1 ?os vec 1 ?os"
      using b(3) by (intro calls_now [of _ _ vec "[]" _ _ 1 ?os vec 1 "length (concat vec)"]) (simp_all add: rounds_def)
    then show ?thesis using t [OF full_pwritev(1) [where fd = 3], of ?os] full_pwritev(2) by blast
  qed
  ultimately show ?thesis by blast
qed

end
