(* ===== verification/Utime.thy ===== *)
theory Utime
  imports Prelude
begin

text \<open>
  Times as seconds and nanoseconds in 32 bits each (\<^verbatim>\<open>include/time/utime.h\<close>). A \<^verbatim>\<open>time_t\<close> is an integer; the
  conversions to the fields cut to 32 bits. The conversions from and to \<^verbatim>\<open>double\<close> are not modelled.
\<close>

subsection \<open>The class\<close>

datatype utime = Utime (tv_sec: u32) (tv_nsec: u32)

definition cap_to_u32_max :: "u64 \<Rightarrow> u32" where
  "cap_to_u32_max t = ucast (min t 0xFFFFFFFF)"

definition is_zero :: "utime \<Rightarrow> bool" where
  "is_zero t \<longleftrightarrow> tv_sec t = 0 \<and> tv_nsec t = 0"

definition utime_normalize :: "utime \<Rightarrow> utime" where
  "utime_normalize t =
    (if tv_nsec t > 1000000000
     then Utime (cap_to_u32_max (ucast (tv_sec t) + ucast (tv_nsec t) div 1000000000)) (tv_nsec t mod 1000000000)
     else t)"

definition utime_new :: utime where
  "utime_new = Utime 0 0"

definition utime_of :: "int \<Rightarrow> int \<Rightarrow> utime" where
  "utime_of s n = utime_normalize (Utime (word_of_int s) (word_of_int n))"

definition utime_of_timespec :: "int \<times> int \<Rightarrow> utime" where
  "utime_of_timespec v = (case v of (s, n) \<Rightarrow> Utime (word_of_int s) (word_of_int n))"

definition set_from_timeval :: "int \<times> int \<Rightarrow> utime" where
  "set_from_timeval v = (case v of (s, us) \<Rightarrow> Utime (word_of_int s) (word_of_int (us * 1000)))"

definition to_timespec :: "utime \<Rightarrow> int \<times> int" where
  "to_timespec t = (uint (tv_sec t), uint (tv_nsec t))"

definition sec :: "utime \<Rightarrow> int" where
  "sec t = uint (tv_sec t)"

definition usec :: "utime \<Rightarrow> u32" where
  "usec t = tv_nsec t div 1000"

definition nsec :: "utime \<Rightarrow> u32" where
  "nsec t = tv_nsec t"

definition to_nsec :: "utime \<Rightarrow> u64" where
  "to_nsec t = ucast (tv_nsec t) + ucast (tv_sec t) * 1000000000"

definition to_msec :: "utime \<Rightarrow> u64" where
  "to_msec t = ucast (tv_nsec t) div 1000000 + ucast (tv_sec t) * 1000"

definition copy_to_timeval :: "utime \<Rightarrow> int \<times> int" where
  "copy_to_timeval t = (uint (tv_sec t), uint (tv_nsec t div 1000))"

subsection \<open>Arithmetic\<close>

text \<open>The sum and difference of the nanoseconds go through an \<^verbatim>\<open>int\<close>.\<close>

definition utime_plus :: "utime \<Rightarrow> utime \<Rightarrow> utime" where
  "utime_plus lhs rhs =
    (let s = word_of_int (sec lhs) + word_of_int (sec rhs) :: u64
     in utime_of (uint (cap_to_u32_max s)) (sint (nsec lhs + nsec rhs)))"

definition utime_plus_assign :: "utime \<Rightarrow> utime \<Rightarrow> utime" where
  "utime_plus_assign lhs rhs =
    (let s = word_of_int (sec lhs) + word_of_int (sec rhs) :: u64
     in utime_normalize (Utime (cap_to_u32_max s) (tv_nsec lhs + nsec rhs)))"

definition utime_minus :: "utime \<Rightarrow> utime \<Rightarrow> utime" where
  "utime_minus lhs rhs =
    utime_of (sec lhs - sec rhs - (if nsec lhs < nsec rhs then 1 else 0))
      (sint (nsec lhs - nsec rhs + (if nsec lhs < nsec rhs then 1000000000 else 0)))"

definition utime_minus_assign :: "utime \<Rightarrow> utime \<Rightarrow> utime" where
  "utime_minus_assign lhs rhs =
    (let s = word_of_int (uint (tv_sec lhs) - sec rhs) in
     if nsec lhs \<ge> nsec rhs then Utime s (tv_nsec lhs - nsec rhs)
     else Utime (s - 1) (word_of_int (uint (tv_nsec lhs) + (1000000000 - uint (nsec rhs)))))"

subsection \<open>The order\<close>

text \<open>The comparison operators are an order of the library's class; \<^verbatim>\<open>==\<close> is equality.\<close>

definition utime_equal :: "utime \<Rightarrow> utime \<Rightarrow> bool" where
  "utime_equal a b \<longleftrightarrow> sec a = sec b \<and> nsec a = nsec b"

definition utime_less :: "utime \<Rightarrow> utime \<Rightarrow> bool" where
  "utime_less a b \<longleftrightarrow> sec a < sec b \<or> sec a = sec b \<and> nsec a < nsec b"

definition utime_greater :: "utime \<Rightarrow> utime \<Rightarrow> bool" where
  "utime_greater a b \<longleftrightarrow> sec a > sec b \<or> sec a = sec b \<and> nsec a > nsec b"

instantiation utime :: linorder
begin

definition less_utime :: "utime \<Rightarrow> utime \<Rightarrow> bool" where
  "less_utime = utime_less"

definition less_eq_utime :: "utime \<Rightarrow> utime \<Rightarrow> bool" where
  "less_eq_utime a b \<longleftrightarrow> \<not> utime_greater a b"

instance
proof
  fix x y z :: utime
  show "x < y \<longleftrightarrow> x \<le> y \<and> \<not> y \<le> x"
    by (auto simp: less_utime_def utime_less_def less_eq_utime_def utime_greater_def)
  show "x \<le> x" by (simp add: less_eq_utime_def utime_greater_def)
  show "x \<le> y \<Longrightarrow> y \<le> z \<Longrightarrow> x \<le> z" by (auto simp: less_eq_utime_def utime_greater_def)
  show "x \<le> y \<Longrightarrow> y \<le> x \<Longrightarrow> x = y"
    by (cases x; cases y) (auto simp: less_eq_utime_def utime_greater_def sec_def nsec_def word_uint_eq_iff)
  show "x \<le> y \<or> y \<le> x" by (auto simp: less_eq_utime_def utime_greater_def)
qed

end

lemma utime_equal_iff: "utime_equal a b \<longleftrightarrow> a = b"
  by (cases a; cases b) (auto simp: utime_equal_def sec_def nsec_def word_uint_eq_iff)

subsection \<open>Times as numbers of nanoseconds\<close>

definition giga :: nat where
  "giga = 1000000000"

definition ns :: "utime \<Rightarrow> nat" where
  "ns t = unat (tv_sec t) * giga + unat (tv_nsec t)"

definition wf_time :: "utime \<Rightarrow> bool" where
  "wf_time t \<longleftrightarrow> unat (tv_nsec t) < giga"

lemma u32_bound: "unat (x :: u32) < 2 ^ 32"
  using unsigned_less [of x] by simp

lemma unat_u64: "unat (ucast (x :: u32) :: u64) = unat x"
  using u32_bound [of x] by (simp add: unsigned_ucast_eq take_bit_nat_eq_self)

lemma unat_cap: "unat (cap_to_u32_max t) = min (unat t) (2 ^ 32 - 1)"
proof -
  have "unat (min t 0xFFFFFFFF) = min (unat t) (2 ^ 32 - 1)"
    by (simp add: min_def word_le_nat_alt)
  moreover have "unat (ucast x :: u32) = unat x" if "unat x < 2 ^ 32" for x :: u64
    using that by (simp add: unsigned_ucast_eq take_bit_nat_eq_self)
  ultimately show ?thesis by (simp add: cap_to_u32_max_def)
qed

lemma to_nsec_ns: "unat (to_nsec t) = ns t"
proof -
  have "unat (tv_nsec t) + unat (tv_sec t) * 1000000000 < 2 ^ 64"
    using u32_bound [of "tv_nsec t"] u32_bound [of "tv_sec t"] by simp
  then show ?thesis
    by (simp add: to_nsec_def ns_def giga_def unat_word_ariths unat_u64)
qed

lemma ns_inject:
  assumes "unat s1 * giga + n1 = unat s2 * giga + n2" "n1 < giga" "n2 < giga"
  shows "s1 = (s2 :: u32) \<and> n1 = n2"
proof -
  have "unat s1 = unat s2"
    using arg_cong [OF assms(1), of "\<lambda>x. x div giga"] assms(2,3) by (simp add: giga_def)
  then show ?thesis using assms(1) by (simp add: word_unat_eq_iff)
qed

lemma of_signed: "word_of_int (sint w) = (w :: u32)" "word_of_int (uint w) = (w :: u32)"
  by (simp_all add: scast_eq [symmetric] ucast_eq [symmetric])

lemmas unat_add32 = iffD1 [OF unat_add_lem [where 'a = 32, simplified]]
lemmas unat_add64 = iffD1 [OF unat_add_lem [where 'a = 64, simplified]]

lemma normalize_ns:
  assumes "unat (tv_sec t) + unat (tv_nsec t) div giga < 2 ^ 32"
  shows "ns (utime_normalize t) = ns t" "wf_time (utime_normalize t) \<or> tv_nsec t = 1000000000 \<and> utime_normalize t = t"
proof -
  let ?q = "unat (tv_nsec t) div giga"
  have g: "unat (1000000000 :: u32) = giga" by (simp add: giga_def)
  show "ns (utime_normalize t) = ns t" "wf_time (utime_normalize t) \<or> tv_nsec t = 1000000000 \<and> utime_normalize t = t"
  proof (atomize (full), cases "tv_nsec t > 1000000000")
    case True
    have "unat (ucast (tv_sec t) + ucast (tv_nsec t) div 1000000000 :: u64) = unat (tv_sec t) + ?q"
    proof -
      have "unat (ucast (tv_nsec t) div 1000000000 :: u64) = ?q"
        by (simp add: unat_div unat_u64 giga_def)
      then show ?thesis
        using assms unat_add64 [of "ucast (tv_sec t)" "ucast (tv_nsec t) div 1000000000"] by (simp add: unat_u64)
    qed
    then have "unat (tv_sec (utime_normalize t)) = unat (tv_sec t) + ?q"
      using True assms by (simp add: utime_normalize_def unat_cap)
    moreover have n: "unat (tv_nsec (utime_normalize t)) = unat (tv_nsec t) mod giga"
      using True by (simp add: utime_normalize_def unat_mod giga_def)
    moreover have "unat (tv_nsec t) = ?q * giga + unat (tv_nsec t) mod giga" by simp
    ultimately have "ns (utime_normalize t) = ns t" by (simp add: ns_def add_mult_distrib)
    then show "ns (utime_normalize t) = ns t \<and> (wf_time (utime_normalize t) \<or> tv_nsec t = 1000000000 \<and> utime_normalize t = t)"
      using n by (simp add: wf_time_def giga_def)
  next
    case False
    then have "utime_normalize t = t" by (simp add: utime_normalize_def)
    moreover have "unat (tv_nsec t) < giga \<or> tv_nsec t = 1000000000"
      using False g unfolding not_less word_le_nat_alt word_unat_eq_iff by linarith
    ultimately show "ns (utime_normalize t) = ns t \<and> (wf_time (utime_normalize t) \<or> tv_nsec t = 1000000000 \<and> utime_normalize t = t)"
      by (auto simp: wf_time_def)
  qed
qed

lemma plus_normalize:
  assumes "wf_time a" "wf_time b" "unat (tv_sec a) + unat (tv_sec b) < 2 ^ 32"
  shows "utime_plus a b = utime_normalize (Utime (tv_sec a + tv_sec b) (tv_nsec a + tv_nsec b))"
    "utime_plus_assign a b = utime_plus a b"
    "unat (tv_sec a + tv_sec b) = unat (tv_sec a) + unat (tv_sec b)"
    "unat (tv_nsec a + tv_nsec b) = unat (tv_nsec a) + unat (tv_nsec b)"
proof -
  show u: "unat (tv_sec a + tv_sec b) = unat (tv_sec a) + unat (tv_sec b)"
    using assms(3) by (intro unat_add32) simp
  show "unat (tv_nsec a + tv_nsec b) = unat (tv_nsec a) + unat (tv_nsec b)"
    using assms(1,2) by (intro unat_add32) (simp add: wf_time_def giga_def)
  have w: "word_of_int (sec t) = (ucast (tv_sec t) :: u64)" for t by (simp only: sec_def ucast_eq)
  have "unat (ucast (tv_sec a) + ucast (tv_sec b) :: u64) = unat (tv_sec a) + unat (tv_sec b)"
    using assms(3) unat_add64 [of "ucast (tv_sec a)" "ucast (tv_sec b)"] by (simp add: unat_u64)
  then have "unat (cap_to_u32_max (ucast (tv_sec a) + ucast (tv_sec b))) = unat (tv_sec a + tv_sec b)"
    using assms(3) u by (simp add: unat_cap)
  then have c: "cap_to_u32_max (ucast (tv_sec a) + ucast (tv_sec b)) = tv_sec a + tv_sec b"
    by (simp add: word_unat_eq_iff)
  show "utime_plus a b = utime_normalize (Utime (tv_sec a + tv_sec b) (tv_nsec a + tv_nsec b))"
    unfolding utime_plus_def Let_def w c utime_of_def of_signed nsec_def ..
  then show "utime_plus_assign a b = utime_plus a b"
    unfolding utime_plus_assign_def Let_def w c nsec_def by simp
qed

lemma time_le: "b \<le> a \<longleftrightarrow> unat (tv_sec b) < unat (tv_sec a) \<or> tv_sec b = tv_sec a \<and> tv_nsec b \<le> tv_nsec a"
proof -
  have sec_nat: "sec t = int (unat (tv_sec t))" for t by (simp add: sec_def)
  show ?thesis
    unfolding less_eq_utime_def utime_greater_def sec_nat nsec_def word_less_nat_alt word_le_nat_alt word_unat_eq_iff by linarith
qed

lemma minus_parts:
  assumes "wf_time a" "wf_time b" "b \<le> a"
  defines "borrow \<equiv> tv_nsec a < tv_nsec b"
  shows "utime_minus a b = Utime (tv_sec a - tv_sec b - (if borrow then 1 else 0))
      (tv_nsec a - tv_nsec b + (if borrow then 1000000000 else 0))"
    "utime_minus_assign a b = utime_minus a b" "wf_time (utime_minus a b)" "ns (utime_minus a b) = ns a - ns b"
proof -
  let ?n = "tv_nsec a - tv_nsec b + (if borrow then 1000000000 else 0)"
  let ?s = "tv_sec a - tv_sec b - (if borrow then 1 else 0)"
  have lt: "unat (tv_nsec a) < giga" "unat (tv_nsec b) < giga" using assms(1,2) by (simp_all add: wf_time_def)
  have n: "unat ?n = (if borrow then giga + unat (tv_nsec a) - unat (tv_nsec b) else unat (tv_nsec a) - unat (tv_nsec b))"
  proof (cases borrow)
    case True
    have le: "tv_nsec b \<le> tv_nsec a + 1000000000"
      and u: "unat (tv_nsec a + 1000000000) = unat (tv_nsec a) + giga"
      using lt unat_add32 [of "tv_nsec a" 1000000000] by (auto simp: giga_def word_le_nat_alt)
    have "?n = tv_nsec a + 1000000000 - tv_nsec b" using True by simp
    then show ?thesis using True unat_sub [OF le] u by (simp only: if_True add.commute)
  next
    case False
    then show ?thesis using unat_sub [of "tv_nsec b" "tv_nsec a"] by (auto simp: borrow_def not_less)
  qed
  have small: "unat ?n < giga" using n lt by (auto simp: borrow_def word_less_nat_alt)
  have "utime_normalize (Utime ?s ?n) = Utime ?s ?n"
    using small by (simp add: utime_normalize_def word_less_nat_alt giga_def)
  moreover have "word_of_int (sec a - sec b - (if borrow then 1 else 0)) = ?s"
    by (simp add: sec_def wi_hom_sub [symmetric] of_signed)
  ultimately show eq: "utime_minus a b = Utime ?s ?n"
    by (simp only: utime_minus_def utime_of_def of_signed nsec_def borrow_def [symmetric])
  show "wf_time (utime_minus a b)" using small by (simp only: eq wf_time_def utime.sel)
  have "word_of_int (uint (tv_nsec a) + (1000000000 - uint (tv_nsec b))) = tv_nsec a - tv_nsec b + 1000000000"
    by (simp add: wi_hom_sub [symmetric] wi_hom_add [symmetric] of_signed)
  then show "utime_minus_assign a b = utime_minus a b"
    unfolding eq utime_minus_assign_def Let_def nsec_def sec_def
    by (simp add: borrow_def not_less wi_hom_sub [symmetric] of_signed) (simp add: not_le)
  have s: "unat ?s = unat (tv_sec a) - unat (tv_sec b) - (if borrow then 1 else 0)"
    "unat (tv_sec b) + (if borrow then 1 else 0) \<le> unat (tv_sec a)"
  proof -
    have le: "tv_sec b \<le> tv_sec a" "borrow \<Longrightarrow> unat (tv_sec b) < unat (tv_sec a)"
      using assms(3) by (auto simp: time_le borrow_def word_le_nat_alt word_less_nat_alt)
    then have "borrow \<Longrightarrow> 1 \<le> tv_sec a - tv_sec b" using unat_sub [OF le(1)] by (simp add: word_le_nat_alt)
    then show "unat ?s = unat (tv_sec a) - unat (tv_sec b) - (if borrow then 1 else 0)"
      using unat_sub [OF le(1)] unat_sub [of 1 "tv_sec a - tv_sec b"] by simp
    show "unat (tv_sec b) + (if borrow then 1 else 0) \<le> unat (tv_sec a)" using le by (auto simp: word_le_nat_alt)
  qed
  show "ns (utime_minus a b) = ns a - ns b"
    using s n lt unfolding eq ns_def utime.sel borrow_def
    by (cases "tv_nsec a < tv_nsec b")
      (auto simp: word_le_nat_alt diff_mult_distrib word_less_nat_alt not_less algebra_simps giga_def)
qed

lemma ns_inj: "wf_time a \<Longrightarrow> wf_time b \<Longrightarrow> ns a = ns b \<longleftrightarrow> a = b"
  using ns_inject [of "tv_sec a" "unat (tv_nsec a)" "tv_sec b" "unat (tv_nsec b)"]
  by (cases a; cases b) (auto simp: ns_def wf_time_def word_unat_eq_iff)

lemma ns_mono:
  assumes "wf_time b" "b \<le> a"
  shows "ns b \<le> ns a"
  using assms(2) unfolding time_le
proof
  assume "unat (tv_sec b) < unat (tv_sec a)"
  then have "Suc (unat (tv_sec b)) * giga \<le> unat (tv_sec a) * giga" by (intro mult_le_mono1) simp
  then show ?thesis using assms(1) by (simp add: ns_def wf_time_def)
qed (simp add: ns_def word_le_nat_alt)

lemma ns_less:
  assumes "wf_time a" "wf_time b"
  shows "a < b \<longleftrightarrow> ns a < ns b"
  using ns_mono [OF assms(1), of b] ns_mono [OF assms(2), of a] ns_inj [OF assms] by (metis le_less not_less)

subsection \<open>The properties\<close>

text \<open>
  C36 (functional). The sum of two times is the sum of their nanoseconds, as long as the seconds fit, and so is
  what \<^verbatim>\<open>+=\<close> leaves; the result has less than a second of nanoseconds, except that exactly one second
  of them is not carried.
\<close>

theorem utime_plus_adds:
  assumes "wf_time a" "wf_time b" "unat (tv_sec a) + unat (tv_sec b) + 1 < 2 ^ 32"
  shows "ns (utime_plus a b) = ns a + ns b \<and> utime_plus_assign a b = utime_plus a b \<and>
    (if unat (tv_nsec a) + unat (tv_nsec b) = giga then tv_nsec (utime_plus a b) = 1000000000
     else wf_time (utime_plus a b))"
proof -
  have fit: "unat (tv_sec a) + unat (tv_sec b) < 2 ^ 32" using assms(3) by simp
  note p = plus_normalize [OF assms(1,2) fit]
  let ?t = "Utime (tv_sec a + tv_sec b) (tv_nsec a + tv_nsec b)"
  have lt: "unat (tv_nsec a) + unat (tv_nsec b) < 2 * giga" using assms(1,2) by (simp add: wf_time_def)
  then have "(unat (tv_nsec a) + unat (tv_nsec b)) div giga \<le> 1" by (simp add: giga_def)
  then have "unat (tv_sec ?t) + unat (tv_nsec ?t) div giga < 2 ^ 32" using p(3,4) assms(3) by simp
  note n = normalize_ns [OF this]
  have "ns ?t = ns a + ns b" using p(3,4) by (simp add: ns_def add_mult_distrib)
  moreover have "tv_nsec ?t = 1000000000 \<longleftrightarrow> unat (tv_nsec a) + unat (tv_nsec b) = giga"
    using p(4) by (simp add: word_unat_eq_iff giga_def)
  moreover have "utime_normalize ?t = ?t" if "tv_nsec ?t = 1000000000" using that by (simp add: utime_normalize_def)
  ultimately show ?thesis using n p(1,2) by (auto simp: wf_time_def)
qed

text \<open>Half a second and half a second.\<close>

theorem utime_plus_adds_witness:
  "ns (utime_plus (Utime 1 500000000) (Utime 2 500000000)) = 4 * giga \<and>
   tv_nsec (utime_plus (Utime 1 500000000) (Utime 2 500000000)) = 1000000000"
proof -
  have "wf_time (Utime 1 500000000)" "wf_time (Utime 2 500000000)"
    "unat (tv_sec (Utime 1 500000000)) + unat (tv_sec (Utime 2 500000000)) + 1 < 2 ^ 32"
    "unat (tv_nsec (Utime 1 500000000)) + unat (tv_nsec (Utime 2 500000000)) = giga"
    "ns (Utime 1 500000000) + ns (Utime 2 500000000) = 4 * giga"
    by (simp_all add: wf_time_def ns_def giga_def)
  then show ?thesis using utime_plus_adds [of "Utime 1 500000000" "Utime 2 500000000"] by simp
qed

text \<open>
  C25 (roundtrip). The operators \<^verbatim>\<open>-\<close> and \<^verbatim>\<open>-=\<close> subtract the nanoseconds of a time that is not later. Adding what
  was subtracted gives the same number of nanoseconds back, but the same time only when no whole
  second of nanoseconds arises: the sum is then left with 1000000000 of them, and \<^verbatim>\<open>==\<close> tells the two
  apart.
\<close>

theorem utime_minus_plus:
  assumes "wf_time a" "wf_time b" "b \<le> a"
  shows "wf_time (utime_minus a b) \<and> ns (utime_minus a b) = ns a - ns b \<and>
    utime_minus_assign a b = utime_minus a b \<and> ns (utime_plus (utime_minus a b) b) = ns a \<and>
    (utime_equal (utime_plus (utime_minus a b) b) a \<longleftrightarrow> tv_nsec a \<noteq> 0 \<or> tv_nsec b = 0)"
proof -
  let ?d = "utime_minus a b"
  note m = minus_parts [OF assms]
  have lt: "unat (tv_nsec a) < giga" "unat (tv_nsec b) < giga" "unat (tv_nsec ?d) < giga"
    using assms(1,2) m(3) by (simp_all add: wf_time_def)
  have le: "ns b \<le> ns a" using ns_mono [OF assms(2,3)] .
  then have sum: "unat (tv_sec ?d) * giga + unat (tv_nsec ?d) + (unat (tv_sec b) * giga + unat (tv_nsec b)) =
      unat (tv_sec a) * giga + unat (tv_nsec a)"
    using m(4) by (simp add: ns_def)
  let ?t = "Utime (tv_sec ?d + tv_sec b) (tv_nsec ?d + tv_nsec b)"
  have top: "unat (tv_sec ?d) + unat (tv_sec b) \<le> unat (tv_sec a)"
  proof (rule ccontr)
    assume "\<not> ?thesis"
    then have "Suc (unat (tv_sec a)) * giga \<le> (unat (tv_sec ?d) + unat (tv_sec b)) * giga" by (intro mult_le_mono1) simp
    then show False using sum lt(1) by (simp add: add_mult_distrib)
  qed
  then have fit: "unat (tv_sec ?d) + unat (tv_sec b) < 2 ^ 32" using u32_bound [of "tv_sec a"] by linarith
  note p = plus_normalize [OF m(3) assms(2) fit]
  have t: "ns ?t = ns a" using p(3,4) sum by (simp add: ns_def add_mult_distrib)
  then have "unat (tv_sec ?t) + unat (tv_nsec ?t) div giga = unat (tv_sec a)"
    using lt(1) arg_cong [OF t, of "\<lambda>x. x div giga"] by (simp add: ns_def giga_def)
  then have "unat (tv_sec ?t) + unat (tv_nsec ?t) div giga < 2 ^ 32" using u32_bound [of "tv_sec a"] by simp
  note n = normalize_ns [OF this]
  have nat_sum: "ns (utime_plus ?d b) = ns a" using p(1) n(1) t by simp
  have sec_ns: "tv_nsec ?t = 1000000000 \<longleftrightarrow> unat (tv_nsec ?d) + unat (tv_nsec b) = giga"
    using p(4) by (simp add: word_unat_eq_iff giga_def)
  have carry: "unat (tv_nsec ?d) + unat (tv_nsec b) = giga \<longleftrightarrow> tv_nsec a = 0 \<and> tv_nsec b \<noteq> 0"
  proof -
    have "(unat (tv_nsec ?d) + unat (tv_nsec b)) mod giga = unat (tv_nsec a)"
    proof -
      have "unat (tv_sec ?d) * giga + unat (tv_nsec ?d) + (unat (tv_sec b) * giga + unat (tv_nsec b)) =
          unat (tv_nsec ?d) + unat (tv_nsec b) + (unat (tv_sec ?d) + unat (tv_sec b)) * giga"
        by (simp add: add_mult_distrib)
      from arg_cong [OF sum [unfolded this], of "\<lambda>x. x mod giga"] show ?thesis using lt(1) by simp
    qed
    then have "unat (tv_nsec ?d) + unat (tv_nsec b) = unat (tv_nsec a) \<or>
        unat (tv_nsec ?d) + unat (tv_nsec b) = unat (tv_nsec a) + giga"
      using lt(2,3) by (cases "unat (tv_nsec ?d) + unat (tv_nsec b) < giga") (simp, simp add: le_mod_geq, linarith)
    then show ?thesis using lt unfolding word_unat_eq_iff unat_0 by linarith
  qed
  have "utime_plus ?d b = a \<longleftrightarrow> \<not> (tv_nsec a = 0 \<and> tv_nsec b \<noteq> 0)"
  proof (cases "tv_nsec ?t = 1000000000")
    case True
    then have "tv_nsec (utime_plus ?d b) = 1000000000" using p(1) by (simp add: utime_normalize_def)
    moreover have "tv_nsec a \<noteq> 1000000000" using lt(1) by (auto simp: giga_def)
    ultimately show ?thesis using True sec_ns carry by metis
  next
    case False
    then have "wf_time (utime_plus ?d b)" using n(2) p(1) by simp
    then show ?thesis using ns_inj [OF _ assms(1), of "utime_plus ?d b"] nat_sum False sec_ns carry by metis
  qed
  then show ?thesis using m nat_sum by (auto simp: utime_equal_iff)
qed

theorem utime_minus_plus_witness:
  "\<not> utime_equal (utime_plus (utime_minus (Utime 2 0) (Utime 0 500000000)) (Utime 0 500000000)) (Utime 2 0)"
  using utime_minus_plus [of "Utime 2 0" "Utime 0 500000000"] by (simp add: wf_time_def giga_def time_le)

text \<open>
  The comparison operators are the order of the numbers of nanoseconds, and \<^verbatim>\<open>to_nsec\<close> is that
  number without overflow.
\<close>

lemma utime_order:
  assumes "wf_time a" "wf_time b"
  shows "(a < b \<longleftrightarrow> to_nsec a < to_nsec b) \<and> (a \<le> b \<longleftrightarrow> to_nsec a \<le> to_nsec b) \<and>
    (utime_equal a b \<longleftrightarrow> to_nsec a = to_nsec b) \<and> unat (to_nsec a) = ns a"
proof -
  have "a \<le> b \<longleftrightarrow> ns a \<le> ns b" using ns_less [OF assms(2,1)] by (metis not_less)
  then show ?thesis
    using ns_less [OF assms] ns_inj [OF assms]
    by (simp add: utime_equal_iff word_less_nat_alt word_le_nat_alt word_unat_eq_iff to_nsec_ns)
qed

lemma utime_order_example: "Utime 1 999999999 < Utime 2 0 \<longleftrightarrow> to_nsec (Utime 1 999999999) < to_nsec (Utime 2 0)"
  using utime_order [of "Utime 1 999999999" "Utime 2 0"] by (simp add: wf_time_def giga_def)

end
