(* ===== verification/Spinlock.thy ===== *)
theory Spinlock
  imports Loops
begin

text \<open>
  The spin lock of \<^verbatim>\<open>spinlock.h\<close>: an atomic flag that threads set to enter and clear to leave.
  The definitions up to the step relation are the code of one thread; the step relation interleaves
  any number of threads at the operations on the flag, which are atomic.
\<close>

subsection \<open>The flag and the code of one thread\<close>

text \<open>\<^verbatim>\<open>std::atomic_flag\<close>: its value, and \<^verbatim>\<open>test_and_set\<close>, which returns the value it replaces.\<close>

type_synonym atomic_flag = bool

definition test_and_set :: "atomic_flag \<Rightarrow> bool \<times> atomic_flag" where
  "test_and_set f = (f, True)"

definition flag_clear :: "atomic_flag \<Rightarrow> atomic_flag" where
  "flag_clear f = False"

text \<open>One round of the loop of \<^verbatim>\<open>spin_lock\<close>, and the loop when no other thread touches the flag.\<close>

definition spin_round :: "atomic_flag \<Rightarrow> exn + atomic_flag + atomic_flag" where
  "spin_round f = (case test_and_set f of (was, f) \<Rightarrow> if was then Inr (Inr f) else Inr (Inl f))"

definition spin_lock :: "atomic_flag \<Rightarrow> (exn + atomic_flag) option" where
  "spin_lock f = run spin_round f"

definition spin_unlock :: "atomic_flag \<Rightarrow> atomic_flag" where
  "spin_unlock f = flag_clear f"

text \<open>The class \<^verbatim>\<open>spinlock\<close> and the free functions on it.\<close>

record spinlock =
  af :: atomic_flag

definition spinlock_new :: spinlock where
  "spinlock_new = \<lparr>af = False\<rparr>"

definition spinlock_lock :: "spinlock \<Rightarrow> (exn + spinlock) option" where
  "spinlock_lock l = rbind (spin_lock (af l)) (\<lambda>f. Some (Inr (l\<lparr>af := f\<rparr>)))"

definition spinlock_unlock :: "spinlock \<Rightarrow> spinlock" where
  "spinlock_unlock l = l\<lparr>af := spin_unlock (af l)\<rparr>"

lemma lock_free: "spinlock_lock (l\<lparr>af := False\<rparr>) = Some (Inr (l\<lparr>af := True\<rparr>))"
  by (simp add: spinlock_lock_def spin_lock_def run_simps(2) spin_round_def test_and_set_def)

text \<open>The lock is not recursive: who holds it and asks for it again waits for ever.\<close>

lemma lock_held: "spinlock_lock (l\<lparr>af := True\<rparr>) = None"
proof -
  have "run spin_round True = None"
    by (rule run_forever [where P = "\<lambda>f. f = True"]) (auto simp: spin_round_def test_and_set_def)
  then show ?thesis by (simp add: spinlock_lock_def spin_lock_def)
qed

subsection \<open>Any number of threads\<close>

datatype phase = Outside | Spinning | Inside

record lock_state =
  ls_lock :: spinlock
  ls_phase :: "nat \<Rightarrow> phase"

definition lock_init :: lock_state where
  "lock_init = \<lparr>ls_lock = spinlock_new, ls_phase = \<lambda>_. Outside\<rparr>"

definition enter_phase :: "nat \<Rightarrow> phase \<Rightarrow> lock_state \<Rightarrow> lock_state" where
  "enter_phase t p s = s\<lparr>ls_phase := (ls_phase s)(t := p)\<rparr>"

definition set_flag :: "atomic_flag \<Rightarrow> lock_state \<Rightarrow> lock_state" where
  "set_flag f s = s\<lparr>ls_lock := (ls_lock s)\<lparr>af := f\<rparr>\<rparr>"

text \<open>
  A thread that is outside may call \<^verbatim>\<open>lock\<close>; a waiting thread makes a round of the loop; the thread that
  is inside may call \<^verbatim>\<open>unlock\<close>.
\<close>

inductive lock_step :: "lock_state \<Rightarrow> lock_state \<Rightarrow> bool" where
  call: "ls_phase s t = Outside \<Longrightarrow> lock_step s (enter_phase t Spinning s)"
| spin: "ls_phase s t = Spinning \<Longrightarrow> spin_round (af (ls_lock s)) = Inr (Inr f) \<Longrightarrow>
    lock_step s (set_flag f s)"
| enter: "ls_phase s t = Spinning \<Longrightarrow> spin_round (af (ls_lock s)) = Inr (Inl f) \<Longrightarrow>
    lock_step s (enter_phase t Inside (set_flag f s))"
| leave: "ls_phase s t = Inside \<Longrightarrow>
    lock_step s (enter_phase t Outside (s\<lparr>ls_lock := spinlock_unlock (ls_lock s)\<rparr>))"

inductive lock_reachable :: "lock_state \<Rightarrow> bool" where
  init: "lock_reachable lock_init"
| step: "lock_reachable s \<Longrightarrow> lock_step s s' \<Longrightarrow> lock_reachable s'"

lemmas lock_simps = enter_phase_def set_flag_def spin_round_def test_and_set_def spinlock_unlock_def
  spin_unlock_def flag_clear_def

text \<open>The flag is set exactly when a thread is inside, and then there is one.\<close>

definition lock_inv :: "lock_state \<Rightarrow> bool" where
  "lock_inv s \<longleftrightarrow> (af (ls_lock s) \<longleftrightarrow> (\<exists>t. ls_phase s t = Inside)) \<and>
    (\<forall>t u. ls_phase s t = Inside \<longrightarrow> ls_phase s u = Inside \<longrightarrow> t = u)"

lemma lock_inv_step:
  assumes "lock_inv s" "lock_step s s'"
  shows "lock_inv s'"
  using assms(2,1)
proof (induction rule: lock_step.induct)
  case (call s t)
  have "ls_phase (enter_phase t Spinning s) u = Inside \<longleftrightarrow> ls_phase s u = Inside" for u
    using call(1) by (auto simp: enter_phase_def)
  then show ?case using call(2) by (simp add: lock_inv_def) (simp add: enter_phase_def)
qed (auto simp: lock_inv_def lock_simps split: if_splits)

lemma lock_inv_reachable: "lock_reachable s \<Longrightarrow> lock_inv s"
  by (induction rule: lock_reachable.induct)
    (simp add: lock_init_def spinlock_new_def lock_inv_def, rule lock_inv_step)

text \<open>
  C26 (safety). Whatever the interleaving, at most one thread is between \<^verbatim>\<open>lock\<close> and \<^verbatim>\<open>unlock\<close>; the flag is
  clear exactly when none is, and then the next round of any waiting thread takes the lock.
\<close>

theorem spinlock_mutual_exclusion:
  assumes "lock_reachable s"
  shows "(\<forall>t u. ls_phase s t = Inside \<and> ls_phase s u = Inside \<longrightarrow> t = u) \<and>
    (\<forall>t. ls_phase s t = Spinning \<longrightarrow>
      (if \<exists>u. ls_phase s u = Inside then spin_round (af (ls_lock s)) = Inr (Inr True)
       else lock_step s (enter_phase t Inside (set_flag True s))))"
proof -
  note inv = lock_inv_reachable [OF assms, unfolded lock_inv_def]
  have "lock_step s (enter_phase t Inside (set_flag True s))"
    if "ls_phase s t = Spinning" "\<not> (\<exists>u. ls_phase s u = Inside)" for t
    by (rule lock_step.enter) (use that inv in \<open>simp_all add: spin_round_def test_and_set_def\<close>)
  then show ?thesis using inv by (auto simp: spin_round_def test_and_set_def)
qed

text \<open>Thread 1 is inside, thread 2 waits.\<close>

definition lock_demo :: lock_state where
  "lock_demo = enter_phase 2 Spinning (enter_phase 1 Inside (set_flag True (enter_phase 1 Spinning lock_init)))"

lemma lock_demo_reachable: "lock_reachable lock_demo"
  unfolding lock_demo_def
  by (intro lock_reachable.step [OF _ lock_step.call] lock_reachable.step [OF _ lock_step.enter] lock_reachable.init)
    (simp_all add: lock_init_def spinlock_new_def lock_simps)

theorem spinlock_mutual_exclusion_witness:
  "ls_phase lock_demo 1 = Inside \<and> spin_round (af (ls_lock lock_demo)) = Inr (Inr True)"
proof -
  have p: "ls_phase lock_demo 1 = Inside" "ls_phase lock_demo 2 = Spinning"
    by (simp_all add: lock_demo_def enter_phase_def)
  then have "\<exists>u. ls_phase lock_demo u = Inside" by blast
  then show ?thesis using spinlock_mutual_exclusion [OF lock_demo_reachable] p by (simp del: One_nat_def) blast
qed

end
