(* ===== verification/Arch_Intel.thy ===== *)
theory Arch_Intel
  imports Crc32c
begin

text \<open>
  The probe for CPU features (\<^verbatim>\<open>common/arch/intel.c\<close>, \<^verbatim>\<open>probe_arch.cc\<close>) and the routine that is chosen
  after it. What the instructions \<^verbatim>\<open>cpuid\<close> and \<^verbatim>\<open>xgetbv\<close> answer is a parameter, \<open>cpu\<close>; the bit masks
  are the ones of \<^verbatim>\<open>cpuid.h\<close>.
\<close>

unbundle bit_operations_syntax

subsection \<open>The instructions\<close>

record cpu_regs =
  eax :: u32
  ebx :: u32
  ecx :: u32
  edx :: u32

record cpu =
  cpuid_max :: "u32 \<Rightarrow> u32"
  cpuid_count :: "u32 \<Rightarrow> u32 \<Rightarrow> cpu_regs"
  cpu_xgetbv :: "u32 \<Rightarrow> u32 \<times> u32"

definition xgetbv :: "cpu \<Rightarrow> u32 \<Rightarrow> u64" where
  "xgetbv cpu index = (case cpu_xgetbv cpu index of (low, high) \<Rightarrow> push_bit 32 (ucast high) OR ucast low)"

definition xcr_ymm :: u64 where
  "xcr_ymm = 0x6"

definition xcr_zmm :: u64 where
  "xcr_zmm = push_bit 5 0x3 OR 0x6"

subsection \<open>The features\<close>

record features =
  arch_pclmul :: bool
  arch_sse42 :: bool
  arch_sse41 :: bool
  arch_ssse3 :: bool
  arch_sse3 :: bool
  arch_sse2 :: bool
  arch_aesni :: bool
  arch_avx :: bool
  arch_avx2 :: bool
  arch_avx512f :: bool
  arch_avx512er :: bool
  arch_avx512pf :: bool
  arch_avx512vl :: bool
  arch_avx512cd :: bool
  arch_avx512dq :: bool
  arch_avx512bw :: bool

definition no_features :: features where
  "no_features =
    \<lparr>arch_pclmul = False, arch_sse42 = False, arch_sse41 = False, arch_ssse3 = False, arch_sse3 = False,
     arch_sse2 = False, arch_aesni = False, arch_avx = False, arch_avx2 = False, arch_avx512f = False,
     arch_avx512er = False, arch_avx512pf = False, arch_avx512vl = False, arch_avx512cd = False,
     arch_avx512dq = False, arch_avx512bw = False\<rparr>"

text \<open>\<open>has r k\<close> is the test of a register with the mask of bit \<open>k\<close>.\<close>

definition has :: "u32 \<Rightarrow> nat \<Rightarrow> bool" where
  "has r k \<longleftrightarrow> r AND push_bit k 1 \<noteq> 0"

definition osxsave :: nat where "osxsave = 27"
definition bit_avx :: nat where "bit_avx = 28"

definition detect_avx :: "cpu \<Rightarrow> features \<Rightarrow> features" where
  "detect_avx cpu f =
    (if cpuid_max cpu 0 = 0 then f
     else
       let r = cpuid_count cpu 1 0 in
       if \<not> has (ecx r) osxsave \<or> \<not> has (ecx r) bit_avx then f
       else if xgetbv cpu 0 AND xcr_ymm \<noteq> 0 then f\<lparr>arch_avx := True\<rparr>
       else f)"

definition detect_avx2 :: "cpu \<Rightarrow> features \<Rightarrow> features" where
  "detect_avx2 cpu f =
    (if cpuid_max cpu 0 = 0 then f
     else
       let r = cpuid_count cpu 1 0 in
       if \<not> has (ecx r) osxsave \<or> \<not> has (ecx r) bit_avx then f
       else if cpuid_max cpu 0 < 7 then f
       else
         let r = cpuid_count cpu 7 0 in
         if \<not> has (ebx r) 5 then f
         else if xgetbv cpu 0 AND xcr_ymm \<noteq> 0 then f\<lparr>arch_avx2 := True\<rparr>
         else f)"

definition detect_avx512 :: "cpu \<Rightarrow> features \<Rightarrow> features" where
  "detect_avx512 cpu f =
    (if cpuid_max cpu 0 = 0 then f
     else
       let r = cpuid_count cpu 1 0 in
       if \<not> has (ecx r) osxsave then f
       else if xgetbv cpu 0 AND xcr_zmm = 0 then f
       else if cpuid_max cpu 0 < 7 then f
       else
         let r = cpuid_count cpu 7 0 in
         if \<not> has (ebx r) 16 then f
         else
           let f = f\<lparr>arch_avx512f := True\<rparr>;
               f = (if has (ebx r) 27 then f\<lparr>arch_avx512er := True\<rparr> else f);
               f = (if has (ebx r) 26 then f\<lparr>arch_avx512pf := True\<rparr> else f) in
           if \<not> has (ebx r) 31 then f
           else
             let f = f\<lparr>arch_avx512vl := True\<rparr>;
                 f = (if has (ebx r) 28 then f\<lparr>arch_avx512cd := True\<rparr> else f);
                 f = (if has (ebx r) 17 then f\<lparr>arch_avx512dq := True\<rparr> else f) in
             if has (ebx r) 30 then f\<lparr>arch_avx512bw := True\<rparr> else f)"

definition arch_intel_probe :: "cpu \<Rightarrow> features \<Rightarrow> features" where
  "arch_intel_probe cpu f =
    (if cpuid_max cpu 0 = 0 then f
     else
       let r = cpuid_count cpu 1 0;
           f = (if has (ecx r) 1 then f\<lparr>arch_pclmul := True\<rparr> else f);
           f = (if has (ecx r) 20 then f\<lparr>arch_sse42 := True\<rparr> else f);
           f = (if has (ecx r) 19 then f\<lparr>arch_sse41 := True\<rparr> else f);
           f = (if has (ecx r) 9 then f\<lparr>arch_ssse3 := True\<rparr> else f);
           f = (if has (ecx r) 0 then f\<lparr>arch_sse3 := True\<rparr> else f);
           f = (if has (edx r) 26 then f\<lparr>arch_sse2 := True\<rparr> else f);
           f = (if has (ecx r) 25 then f\<lparr>arch_aesni := True\<rparr> else f)
       in detect_avx512 cpu (detect_avx2 cpu (detect_avx cpu f)))"

text \<open>\<^verbatim>\<open>probe_arch\<close> probes once; the state is \<^verbatim>\<open>arch_probed\<close> with the features.\<close>

definition probe_arch :: "cpu \<Rightarrow> bool \<times> features \<Rightarrow> bool \<times> features" where
  "probe_arch cpu s = (case s of (arch_probed, f) \<Rightarrow> if arch_probed then s else (True, arch_intel_probe cpu f))"

lemma probe_once: "probe_arch cpu (probe_arch cpu s) = probe_arch cpu s"
  by (cases s) (simp add: probe_arch_def)

subsection \<open>What the probe reports\<close>

lemma and_nonzero: "x AND y \<noteq> 0 \<longleftrightarrow> (\<exists>k. bit x k \<and> bit y k)" for x :: "'a :: len word"
  by (auto simp: bit_eq_iff bit_simps dest: bit_imp_le_length)

lemma has_bit: "has r k \<longleftrightarrow> bit r k"
  unfolding has_def and_nonzero by (auto simp: bit_simps dest: bit_imp_le_length)

lemma xgetbv_low:
  "k < 32 \<Longrightarrow> bit (xgetbv cpu 0) k \<longleftrightarrow> bit (fst (cpu_xgetbv cpu 0)) k"
  by (auto simp: xgetbv_def bit_simps split: prod.split)

text \<open>The operating system's states in \<^verbatim>\<open>XCR0\<close>: 1 for \<^verbatim>\<open>XMM\<close>, 2 for \<^verbatim>\<open>YMM\<close>, 5 to 7 for \<^verbatim>\<open>ZMM\<close>.\<close>

definition os_state :: "cpu \<Rightarrow> nat \<Rightarrow> bool" where
  "os_state cpu k = bit (fst (cpu_xgetbv cpu 0)) k"

lemma xcr_bits:
  "bit xcr_ymm k \<longleftrightarrow> k = 1 \<or> k = 2"
  "bit xcr_zmm k \<longleftrightarrow> k = 1 \<or> k = 2 \<or> k = 5 \<or> k = 6"
proof -
  have y: "xcr_ymm = push_bit 1 1 OR push_bit 2 1" by (simp add: xcr_ymm_def)
  have z: "xcr_zmm = push_bit 1 1 OR push_bit 2 1 OR push_bit 5 1 OR push_bit 6 1" by (simp add: xcr_zmm_def)
  show "bit xcr_ymm k \<longleftrightarrow> k = 1 \<or> k = 2" unfolding y by (auto simp only: bit_or_iff bit_push_bit_iff bit_1_iff) auto
  show "bit xcr_zmm k \<longleftrightarrow> k = 1 \<or> k = 2 \<or> k = 5 \<or> k = 6"
    unfolding z by (auto simp only: bit_or_iff bit_push_bit_iff bit_1_iff) auto
qed

lemma xcr_tests:
  "xgetbv cpu 0 AND xcr_ymm \<noteq> 0 \<longleftrightarrow> os_state cpu 1 \<or> os_state cpu 2"
  "xgetbv cpu 0 AND xcr_zmm \<noteq> 0 \<longleftrightarrow> os_state cpu 1 \<or> os_state cpu 2 \<or> os_state cpu 5 \<or> os_state cpu 6"
proof -
  have split: "(\<exists>k. P k \<and> (k = 1 \<or> k = 2)) \<longleftrightarrow> P 1 \<or> P 2"
    "(\<exists>k. P k \<and> (k = 1 \<or> k = 2 \<or> k = 5 \<or> k = 6)) \<longleftrightarrow> P 1 \<or> P 2 \<or> P 5 \<or> P 6" for P :: "nat \<Rightarrow> bool"
    by blast+
  show "xgetbv cpu 0 AND xcr_ymm \<noteq> 0 \<longleftrightarrow> os_state cpu 1 \<or> os_state cpu 2"
    unfolding and_nonzero xcr_bits split os_state_def by (simp add: xgetbv_low)
  show "xgetbv cpu 0 AND xcr_zmm \<noteq> 0 \<longleftrightarrow> os_state cpu 1 \<or> os_state cpu 2 \<or> os_state cpu 5 \<or> os_state cpu 6"
    unfolding and_nonzero xcr_bits split os_state_def by (simp add: xgetbv_low)
qed

text \<open>The bits of the two leaves the features are read from.\<close>

definition ecx1 :: "cpu \<Rightarrow> nat \<Rightarrow> bool" where
  "ecx1 cpu k = bit (ecx (cpuid_count cpu 1 0)) k"

definition ebx7 :: "cpu \<Rightarrow> nat \<Rightarrow> bool" where
  "ebx7 cpu k \<longleftrightarrow> \<not> cpuid_max cpu 0 < 7 \<and> bit (ebx (cpuid_count cpu 7 0)) k"

definition os_ymm :: "cpu \<Rightarrow> bool" where
  "os_ymm cpu \<longleftrightarrow> os_state cpu 1 \<or> os_state cpu 2"

definition os_zmm :: "cpu \<Rightarrow> bool" where
  "os_zmm cpu \<longleftrightarrow> os_state cpu 1 \<or> os_state cpu 2 \<or> os_state cpu 5 \<or> os_state cpu 6"

lemmas probe_folds = has_bit osxsave_def bit_avx_def ecx1_def [symmetric] not_not
  xcr_tests [folded os_ymm_def os_zmm_def]

lemma xcr_zmm_zero: "xgetbv cpu 0 AND xcr_zmm = 0 \<longleftrightarrow> \<not> os_zmm cpu"
  using xcr_tests(2) [of cpu] by (auto simp: os_zmm_def)

lemma detect_avx_eq:
  "cpuid_max cpu 0 \<noteq> 0 \<Longrightarrow> detect_avx cpu f = f\<lparr>arch_avx := arch_avx f \<or>
    ecx1 cpu 27 \<and> ecx1 cpu 28 \<and> os_ymm cpu\<rparr>"
  unfolding detect_avx_def Let_def probe_folds by auto

lemma detect_avx2_eq:
  "cpuid_max cpu 0 \<noteq> 0 \<Longrightarrow> detect_avx2 cpu f = f\<lparr>arch_avx2 := arch_avx2 f \<or>
    ecx1 cpu 27 \<and> ecx1 cpu 28 \<and> os_ymm cpu \<and> ebx7 cpu 5\<rparr>"
  unfolding detect_avx2_def Let_def probe_folds ebx7_def by auto

lemma detect_avx512_eq:
  assumes "cpuid_max cpu 0 \<noteq> 0"
  defines "u \<equiv> ecx1 cpu 27 \<and> os_zmm cpu \<and> ebx7 cpu 16"
  shows "detect_avx512 cpu f = f\<lparr>arch_avx512f := arch_avx512f f \<or> u,
    arch_avx512er := arch_avx512er f \<or> u \<and> ebx7 cpu 27, arch_avx512pf := arch_avx512pf f \<or> u \<and> ebx7 cpu 26,
    arch_avx512vl := arch_avx512vl f \<or> u \<and> ebx7 cpu 31,
    arch_avx512cd := arch_avx512cd f \<or> u \<and> ebx7 cpu 31 \<and> ebx7 cpu 28,
    arch_avx512dq := arch_avx512dq f \<or> u \<and> ebx7 cpu 31 \<and> ebx7 cpu 17,
    arch_avx512bw := arch_avx512bw f \<or> u \<and> ebx7 cpu 31 \<and> ebx7 cpu 30\<rparr>"
proof (cases "ecx1 cpu 27 \<and> os_zmm cpu \<and> \<not> cpuid_max cpu 0 < 7")
  case True
  then show ?thesis using assms(1) unfolding u_def detect_avx512_def Let_def probe_folds xcr_zmm_zero ebx7_def by simp
next
  case False
  then have "\<not> u" "detect_avx512 cpu f = f"
    using assms(1) unfolding u_def detect_avx512_def Let_def probe_folds xcr_zmm_zero ebx7_def by auto
  then show ?thesis by simp
qed

lemma set_if:
  "(if c then f\<lparr>arch_pclmul := True\<rparr> else f) = f\<lparr>arch_pclmul := arch_pclmul f \<or> c\<rparr>"
  "(if c then f\<lparr>arch_sse42 := True\<rparr> else f) = f\<lparr>arch_sse42 := arch_sse42 f \<or> c\<rparr>"
  "(if c then f\<lparr>arch_sse41 := True\<rparr> else f) = f\<lparr>arch_sse41 := arch_sse41 f \<or> c\<rparr>"
  "(if c then f\<lparr>arch_ssse3 := True\<rparr> else f) = f\<lparr>arch_ssse3 := arch_ssse3 f \<or> c\<rparr>"
  "(if c then f\<lparr>arch_sse3 := True\<rparr> else f) = f\<lparr>arch_sse3 := arch_sse3 f \<or> c\<rparr>"
  "(if c then f\<lparr>arch_sse2 := True\<rparr> else f) = f\<lparr>arch_sse2 := arch_sse2 f \<or> c\<rparr>"
  "(if c then f\<lparr>arch_aesni := True\<rparr> else f) = f\<lparr>arch_aesni := arch_aesni f \<or> c\<rparr>"
  by simp_all

lemma probe_eq:
  assumes "cpuid_max cpu 0 \<noteq> 0"
  shows "arch_intel_probe cpu f = detect_avx512 cpu (detect_avx2 cpu (detect_avx cpu (f
    \<lparr>arch_pclmul := arch_pclmul f \<or> ecx1 cpu 1, arch_sse42 := arch_sse42 f \<or> ecx1 cpu 20,
     arch_sse41 := arch_sse41 f \<or> ecx1 cpu 19, arch_ssse3 := arch_ssse3 f \<or> ecx1 cpu 9,
     arch_sse3 := arch_sse3 f \<or> ecx1 cpu 0, arch_sse2 := arch_sse2 f \<or> bit (edx (cpuid_count cpu 1 0)) 26,
     arch_aesni := arch_aesni f \<or> ecx1 cpu 25\<rparr>)))"
  using assms unfolding arch_intel_probe_def set_if probe_folds Let_def by simp

text \<open>
  C37 (functional). Which flags the probe sets, from what the processor and the operating system report.
  The flags up to AES are exactly the bits the processor reports. The vector extensions also need
  \<^verbatim>\<open>OSXSAVE\<close> and one of a mask of states enabled: the SSE or the AVX state for AVX and AVX2, one of these or
  of the first two of the three AVX-512 states (5 and 6, never 7) for AVX-512, where one alone is
  enough although the instructions need all of them. What is reported at level 7 counts only if there is such a level,
  every AVX-512 extension needs AVX-512F, and the flags of AVX512CD, AVX512DQ and AVX512BW need AVX512VL besides.
\<close>

theorem probe_reports:
  assumes "cpuid_max cpu 0 \<noteq> 0"
  shows "probe_arch cpu (False, no_features) = (True,
    let avx = ecx1 cpu 27 \<and> ecx1 cpu 28 \<and> (os_state cpu 1 \<or> os_state cpu 2);
        avx512 = ecx1 cpu 27 \<and>
          (os_state cpu 1 \<or> os_state cpu 2 \<or> os_state cpu 5 \<or> os_state cpu 6) \<and> ebx7 cpu 16;
        vl = avx512 \<and> ebx7 cpu 31
    in \<lparr>arch_pclmul = ecx1 cpu 1, arch_sse42 = ecx1 cpu 20, arch_sse41 = ecx1 cpu 19, arch_ssse3 = ecx1 cpu 9,
      arch_sse3 = ecx1 cpu 0, arch_sse2 = bit (edx (cpuid_count cpu 1 0)) 26, arch_aesni = ecx1 cpu 25,
      arch_avx = avx, arch_avx2 = avx \<and> ebx7 cpu 5, arch_avx512f = avx512,
      arch_avx512er = avx512 \<and> ebx7 cpu 27, arch_avx512pf = avx512 \<and> ebx7 cpu 26, arch_avx512vl = vl,
      arch_avx512cd = vl \<and> ebx7 cpu 28, arch_avx512dq = vl \<and> ebx7 cpu 17, arch_avx512bw = vl \<and> ebx7 cpu 30\<rparr>)"
  unfolding probe_arch_def prod.case probe_eq [OF assms] detect_avx_eq [OF assms] detect_avx2_eq [OF assms]
    detect_avx512_eq [OF assms] os_ymm_def os_zmm_def Let_def
  by (simp add: no_features_def conj_assoc)

text \<open>A processor with AVX under a system that has only the SSE state enabled.\<close>

definition sse_only :: cpu where
  "sse_only =
    \<lparr>cpuid_max = \<lambda>_. 1, cpuid_count = \<lambda>_ _. \<lparr>eax = 0, ebx = 0, ecx = push_bit 27 1 OR push_bit 28 1, edx = 0\<rparr>,
     cpu_xgetbv = \<lambda>_. (push_bit 0 1 OR push_bit 1 1, 0)\<rparr>"

theorem probe_reports_witness:
  "arch_avx (snd (probe_arch sse_only (False, no_features))) \<and> \<not> os_state sse_only 2"
proof -
  have sel: "cpuid_max sse_only 0 \<noteq> 0" "ecx (cpuid_count sse_only 1 0) = push_bit 27 1 OR push_bit 28 1"
    "fst (cpu_xgetbv sse_only 0) = push_bit 0 1 OR push_bit 1 1"
    by (simp_all only: sse_only_def cpu.simps cpu_regs.simps fst_conv) simp
  have b: "ecx1 sse_only 27" "ecx1 sse_only 28" "os_state sse_only 1" "\<not> os_state sse_only 2"
    unfolding ecx1_def os_state_def sel by (simp_all only: bit_or_iff bit_push_bit_iff bit_1_iff) simp_all
  show ?thesis unfolding probe_reports [OF sel(1)] snd_conv Let_def features.simps using b by blast
qed

subsection \<open>The routine that is chosen\<close>

definition crc32c_func ::
    "cpu \<Rightarrow> bool \<Rightarrow> (u32 \<Rightarrow> crc_buffer \<Rightarrow> nat \<Rightarrow> u32) \<Rightarrow> u32 \<Rightarrow> crc_buffer \<Rightarrow> nat \<Rightarrow> u32" where
  "crc32c_func cpu compiled fast =
    choose_crc32 (arch_sse42 (snd (probe_arch cpu (False, no_features)))) compiled fast"

text \<open>The assembly is only relied on when the processor reports SSE 4.2.\<close>

lemma chosen_routine:
  assumes "cpuid_max cpu 0 \<noteq> 0 \<and> ecx1 cpu 20 \<Longrightarrow> crc32c_routine fast"
  shows "crc32c_routine (crc32c_func cpu compiled fast)"
proof (cases "cpuid_max cpu 0 \<noteq> 0 \<and> ecx1 cpu 20")
  case True
  then show ?thesis unfolding crc32c_func_def by (intro choose_crc32_routine assms)
next
  case False
  have "\<not> arch_sse42 (snd (probe_arch cpu (False, no_features)))"
  proof (cases "cpuid_max cpu 0 = 0")
    case True
    then show ?thesis by (simp add: probe_arch_def arch_intel_probe_def) (simp add: no_features_def)
  next
    case some: False
    then show ?thesis
      using False unfolding probe_arch_def prod.case probe_eq [OF some] detect_avx_eq [OF some]
        detect_avx2_eq [OF some] detect_avx512_eq [OF some]
      by (simp add: no_features_def)
  qed
  then show ?thesis by (simp add: crc32c_func_def choose_crc32_def sctp.crc32c_routine_axioms)
qed

end
