(* ===== verification/Deleter.thy ===== *)
theory Deleter
  imports Loops "HOL-Library.Multiset"
begin

text \<open>
  The \<^verbatim>\<open>deleter\<close> of \<^verbatim>\<open>include/deleter.h\<close>: a handle on a chain of reference-counted actions that run when
  the last handle is destroyed. The \<^verbatim>\<open>impl\<close> objects live in a heap under numbers that are never
  reused.
\<close>

subsection \<open>Handles, implementations, and what has run\<close>

text \<open>
  \<^verbatim>\<open>_impl\<close>: null, the address of an object with its lowest bit set, or an \<^verbatim>\<open>impl\<close>. The constructor is
  the bit.
\<close>

datatype dref = Null | Object nat | Impl nat

text \<open>
  The subclasses of \<^verbatim>\<open>impl\<close>: \<^verbatim>\<open>lambda_deleter_impl\<close> with its function, \<^verbatim>\<open>object_deleter_impl\<close> with an
  object, which is a \<^verbatim>\<open>deleter\<close> when \<^verbatim>\<open>append\<close> makes it, and \<^verbatim>\<open>free_deleter_impl\<close>.
\<close>

datatype owned = Call nat | Holds nat | Release dref | Frees nat

datatype effect = Called nat | Destroyed nat | Freed nat

record impl =
  i_refs :: u32
  i_next :: dref
  i_owned :: owned

record dheap =
  d_impls :: "nat \<rightharpoonup> impl"
  d_fresh :: nat
  d_log :: "effect list"

definition log_effect :: "effect \<Rightarrow> dheap \<Rightarrow> dheap" where
  "log_effect e s = s\<lparr>d_log := d_log s @ [e]\<rparr>"

definition put_impl :: "nat \<Rightarrow> impl \<Rightarrow> dheap \<Rightarrow> dheap" where
  "put_impl i x s = s\<lparr>d_impls := (d_impls s)(i \<mapsto> x)\<rparr>"

definition free_impl :: "nat \<Rightarrow> dheap \<Rightarrow> dheap" where
  "free_impl i s = s\<lparr>d_impls := (d_impls s)(i := None)\<rparr>"

text \<open>\<^verbatim>\<open>new\<close> with the constructor of \<^verbatim>\<open>impl\<close>, which sets the counter to 1.\<close>

definition new_impl :: "dref \<Rightarrow> owned \<Rightarrow> dheap \<Rightarrow> nat \<times> dheap" where
  "new_impl next own s =
    (let n = d_fresh s in
     (n, s\<lparr>d_impls := (d_impls s)(n \<mapsto> \<lparr>i_refs = 1, i_next = next, i_owned = own\<rparr>), d_fresh := n + 1\<rparr>))"

subsection \<open>Destruction\<close>

text \<open>
  A destructor can call others: \<^verbatim>\<open>delete _impl\<close> runs what the subclass owns, then destroys \<^verbatim>\<open>next\<close>. The
  handles whose destructors are still to run form a stack.
\<close>

definition run_owned :: "owned \<Rightarrow> dheap \<Rightarrow> dheap" where
  "run_owned own s =
    (case own of Call f \<Rightarrow> log_effect (Called f) s | Holds x \<Rightarrow> log_effect (Destroyed x) s
     | Frees p \<Rightarrow> log_effect (Freed p) s | Release d \<Rightarrow> s)"

definition owned_handles :: "owned \<Rightarrow> dref list" where
  "owned_handles own = (case own of Release d \<Rightarrow> [d] | _ \<Rightarrow> [])"

definition destroy_round :: "dref list \<times> dheap \<Rightarrow> exn + dheap + dref list \<times> dheap" where
  "destroy_round t =
    (case t of (todo, s) \<Rightarrow>
      case todo of [] \<Rightarrow> Inr (Inl s)
      | d # todo \<Rightarrow>
          case d of Object p \<Rightarrow> Inr (Inr (todo, log_effect (Freed p) s))
          | Null \<Rightarrow> Inr (Inr (todo, s))
          | Impl i \<Rightarrow>
              case d_impls s i of None \<Rightarrow> Inl Undefined
              | Some x \<Rightarrow>
                  let refs = i_refs x - 1 in
                  if refs = 0
                  then Inr (Inr (owned_handles (i_owned x) @ i_next x # todo, run_owned (i_owned x) (free_impl i s)))
                  else Inr (Inr (todo, put_impl i (x\<lparr>i_refs := refs\<rparr>) s)))"

definition destroy :: "dref \<Rightarrow> dheap \<Rightarrow> (exn + dheap) option" where
  "destroy d s = run destroy_round ([d], s)"

subsection \<open>Making, sharing and assigning\<close>

definition make_deleter :: "dref \<Rightarrow> nat \<Rightarrow> dheap \<Rightarrow> dref \<times> dheap" where
  "make_deleter next f s = (case new_impl next (Call f) s of (n, s) \<Rightarrow> (Impl n, s))"

definition make_object_deleter :: "dref \<Rightarrow> nat \<Rightarrow> dheap \<Rightarrow> dref \<times> dheap" where
  "make_object_deleter del obj s = (case new_impl del (Holds obj) s of (n, s) \<Rightarrow> (Impl n, s))"

text \<open>Address 0 is the null pointer.\<close>

definition make_free_deleter :: "nat \<Rightarrow> dref" where
  "make_free_deleter obj = (if obj = 0 then Null else Object obj)"

definition make_free_deleter_next :: "dref \<Rightarrow> nat \<Rightarrow> dheap \<Rightarrow> dref \<times> dheap" where
  "make_free_deleter_next next obj s = (case new_impl next (Frees obj) s of (n, s) \<Rightarrow> (Impl n, s))"

text \<open>The results of \<open>share\<close> are \<^verbatim>\<open>this\<close> and the new handle.\<close>

definition share :: "dref \<Rightarrow> dheap \<Rightarrow> exn + dref \<times> dref \<times> dheap" where
  "share this s =
    (if this = Null then Inr (this, Null, s)
     else
       case (case this of Object p \<Rightarrow> (case new_impl Null (Frees p) s of (n, s) \<Rightarrow> (Impl n, s)) | _ \<Rightarrow> (this, s)) of
         (this, s) \<Rightarrow>
           case this of
             Impl i \<Rightarrow>
               (case d_impls s i of None \<Rightarrow> Inl Undefined
                | Some x \<Rightarrow> Inr (this, this, put_impl i (x\<lparr>i_refs := i_refs x + 1\<rparr>) s))
           | _ \<Rightarrow> Inl Undefined)"

text \<open>Move assignment from another handle: the results are \<^verbatim>\<open>this\<close> and \<^verbatim>\<open>other\<close>.\<close>

definition assign_move :: "dref \<Rightarrow> dref \<Rightarrow> dheap \<Rightarrow> (exn + dref \<times> dref \<times> dheap) option" where
  "assign_move this other s = rbind (destroy this s) (\<lambda>s. Some (Inr (other, Null, s)))"

definition reset_to :: "dref \<Rightarrow> dref \<Rightarrow> dheap \<Rightarrow> (exn + dref \<times> dheap) option" where
  "reset_to this i s = rbind (destroy this s) (\<lambda>s. Some (Inr (i, s)))"

subsection \<open>Appending\<close>

text \<open>\<^verbatim>\<open>next_d\<close> points to \<^verbatim>\<open>this\<close> or to the \<^verbatim>\<open>next\<close> of an \<^verbatim>\<open>impl\<close>.\<close>

datatype place = This | Next_of nat

definition write_place :: "place \<Rightarrow> dref \<Rightarrow> dref \<Rightarrow> dheap \<Rightarrow> exn + dref \<times> dheap" where
  "write_place at v this s =
    (case at of This \<Rightarrow> Inr (v, s)
     | Next_of i \<Rightarrow>
         (case d_impls s i of None \<Rightarrow> Inl Undefined | Some x \<Rightarrow> Inr (this, put_impl i (x\<lparr>i_next := v\<rparr>) s)))"

text \<open>The tagged object becomes an \<^verbatim>\<open>impl\<close>; an \<^verbatim>\<open>impl\<close> that is shared is wrapped, and its \<^verbatim>\<open>next\<close> moves out.\<close>

definition unraw :: "dref \<Rightarrow> place \<Rightarrow> dref \<Rightarrow> dheap \<Rightarrow> exn + dref \<times> dref \<times> dheap" where
  "unraw next_impl at this s =
    (case next_impl of
       Object p \<Rightarrow>
         (case new_impl Null (Frees p) s of (n, s) \<Rightarrow>
           ebind (write_place at (Impl n) this s) (\<lambda>(this, s). Inr (Impl n, this, s)))
     | _ \<Rightarrow> Inr (next_impl, this, s))"

definition unshare :: "dref \<Rightarrow> place \<Rightarrow> dref \<Rightarrow> dheap \<Rightarrow> exn + nat \<times> dref \<times> dheap" where
  "unshare next_impl at this s =
    (case next_impl of
       Impl i \<Rightarrow>
         (case d_impls s i of None \<Rightarrow> Inl Undefined
          | Some x \<Rightarrow>
              if i_refs x \<noteq> 1
              then case new_impl (i_next x) (Release (Impl i)) (put_impl i (x\<lparr>i_next := Null\<rparr>) s) of (n, s) \<Rightarrow>
                ebind (write_place at (Impl n) this s) (\<lambda>(this, s). Inr (n, this, s))
              else Inr (i, this, s))
     | _ \<Rightarrow> Inl Undefined)"

text \<open>One round; the result is \<^verbatim>\<open>this\<close> and what is left in \<^verbatim>\<open>d\<close>.\<close>

definition append_round ::
    "dref \<Rightarrow> dref \<times> place \<times> dref \<times> dheap \<Rightarrow> exn + (dref \<times> dref \<times> dheap) + dref \<times> place \<times> dref \<times> dheap" where
  "append_round d t =
    (case t of (next_impl, at, this, s) \<Rightarrow>
      if next_impl = Null then ebind (write_place at d this s) (\<lambda>(this, s). Inr (Inl (this, Null, s)))
      else if next_impl = d then Inr (Inl (this, d, s))
      else
        ebind (unraw next_impl at this s) (\<lambda>(next_impl, this, s).
        ebind (unshare next_impl at this s) (\<lambda>(n, this, s).
        case d_impls s n of None \<Rightarrow> Inl Undefined
        | Some y \<Rightarrow> Inr (Inr (i_next y, Next_of n, this, s)))))"

definition append_loop :: "dref \<Rightarrow> dref \<Rightarrow> dheap \<Rightarrow> (exn + dref \<times> dref \<times> dheap) option" where
  "append_loop this d s =
    (if d = Null then Some (Inr (this, d, s)) else run (append_round d) (this, This, this, s))"

text \<open>The parameter is destroyed at the end of the call.\<close>

definition append_deleter :: "dref \<Rightarrow> dref \<Rightarrow> dheap \<Rightarrow> (exn + dref \<times> dheap) option" where
  "append_deleter this d s =
    rbind (append_loop this d s) (\<lambda>(this, d, s). rbind (destroy d s) (\<lambda>s. Some (Inr (this, s))))"

end
