(* ===== verification/Deleter_Refs.thy ===== *)
theory Deleter_Refs
  imports Deleter
begin

text \<open>
  Reference counting of \<^verbatim>\<open>deleter\<close> handles: the invariant that every counter is the number of handles
  on the implementation, the ledger of what is still to run, and that destroying a handle keeps both.
\<close>

subsection \<open>Sums over a heap\<close>

definition msum :: "('a \<Rightarrow> 'm :: comm_monoid_add) \<Rightarrow> (nat \<rightharpoonup> 'a) \<Rightarrow> 'm" where
  "msum f H = (\<Sum>i\<in>dom H. f (the (H i)))"

lemma msum_del:
  assumes "finite (dom H)" "H i = Some x"
  shows "msum f H = f x + msum f (H(i := None))"
proof -
  have "dom H = insert i (dom H - {i})" using assms(2) by auto
  then have "msum f H = f (the (H i)) + (\<Sum>j\<in>dom H - {i}. f (the (H j)))"
    unfolding msum_def using assms(1) by (metis finite_Diff sum.insert_remove Diff_idemp)
  also have "(\<Sum>j\<in>dom H - {i}. f (the (H j))) = msum f (H(i := None))"
    unfolding msum_def by (intro sum.cong) auto
  finally show ?thesis using assms(2) by simp
qed

lemma msum_new:
  assumes "finite (dom H)" "H i = None"
  shows "msum f (H(i \<mapsto> x)) = f x + msum f H"
proof -
  have "(H(i \<mapsto> x))(i := None) = H" using assms(2) by auto
  then show ?thesis using msum_del [of "H(i \<mapsto> x)" i x f] assms(1) by simp
qed

lemma msum_upd:
  assumes "finite (dom H)" "H i = Some x"
  shows "msum f (H(i \<mapsto> y)) + f x = msum f H + f y"
proof -
  have "msum f (H(i \<mapsto> y)) = f y + msum f (H(i := None))"
    using msum_del [of "H(i \<mapsto> y)" i y f] assms(1) by simp
  then show ?thesis using msum_del [OF assms, of f] by (simp add: ac_simps)
qed

lemma msum_same:
  assumes "finite (dom H)" "H i = Some x" "f y = f x"
  shows "msum f (H(i \<mapsto> y)) = msum f H"
  using msum_upd [OF assms(1,2), of f y] msum_del [OF assms(1,2), of f]
    msum_del [of "H(i \<mapsto> y)" i y f] assms(1,3) by simp

lemma msum_empty [simp]: "msum f Map.empty = 0"
  by (simp add: msum_def)

subsection \<open>Handles and what they owe\<close>

definition handles :: "impl \<Rightarrow> dref multiset" where
  "handles x = add_mset (i_next x) (mset (owned_handles (i_owned x)))"

definition links :: "(nat \<rightharpoonup> impl) \<Rightarrow> dref multiset" where
  "links H = msum handles H"

text \<open>Every counter is the number of handles \<open>A\<close> on its implementation, and no handle dangles.\<close>

definition counted :: "dref multiset \<Rightarrow> (nat \<rightharpoonup> impl) \<Rightarrow> bool" where
  "counted A H \<longleftrightarrow> (\<forall>i. Impl i \<in># A \<longrightarrow> i \<in> dom H) \<and>
    (\<forall>i x. H i = Some x \<longrightarrow> i_refs x = of_nat (count A (Impl i)) \<and> Impl i \<in># A \<and> count A (Impl i) < 2 ^ 32)"

text \<open>Chains of handles are finite: ranks fall along them.\<close>

definition ranked :: "(nat \<Rightarrow> nat) \<Rightarrow> (nat \<rightharpoonup> impl) \<Rightarrow> bool" where
  "ranked r H \<longleftrightarrow> (\<forall>i x j. H i = Some x \<longrightarrow> Impl j \<in># handles x \<longrightarrow> r j < r i)"

definition owes :: "owned \<Rightarrow> effect multiset" where
  "owes own = (case own of Call f \<Rightarrow> {#Called f#} | Holds x \<Rightarrow> {#Destroyed x#} | Frees p \<Rightarrow> {#Freed p#} | Release d \<Rightarrow> {#})"

definition handle_owes :: "dref \<Rightarrow> effect multiset" where
  "handle_owes d = (case d of Object p \<Rightarrow> {#Freed p#} | _ \<Rightarrow> {#})"

definition all_owe :: "dref multiset \<Rightarrow> effect multiset" where
  "all_owe A = \<Sum>\<^sub># (image_mset handle_owes A)"

lemma all_owe_simps [simp]:
  "all_owe {#} = {#}"
  "all_owe (add_mset d A) = handle_owes d + all_owe A"
  "all_owe (A + B) = all_owe A + all_owe B"
  by (simp_all add: all_owe_def)

lemma handle_owes_simps [simp]:
  "handle_owes Null = {#}"
  "handle_owes (Impl i) = {#}"
  "handle_owes (Object p) = {#Freed p#}"
  by (simp_all add: handle_owes_def)

text \<open>
  \<open>held\<close> are the handles outside the heap. The ledger is what has run and what is still owed, and the
  rest of the state is sound.
\<close>

definition ledger :: "dref multiset \<Rightarrow> dheap \<Rightarrow> effect multiset" where
  "ledger held s = mset (d_log s) + msum (owes \<circ> i_owned) (d_impls s) + all_owe (held + links (d_impls s))"

definition sound :: "dref multiset \<Rightarrow> dheap \<Rightarrow> bool" where
  "sound held s \<longleftrightarrow> finite (dom (d_impls s)) \<and> dom (d_impls s) \<subseteq> {..< d_fresh s} \<and>
    counted (held + links (d_impls s)) (d_impls s) \<and> (\<exists>r. ranked r (d_impls s))"

lemma dheap_sel [simp]:
  "d_impls (log_effect e s) = d_impls s" "d_fresh (log_effect e s) = d_fresh s"
  "d_log (log_effect e s) = d_log s @ [e]"
  "d_impls (put_impl i x s) = (d_impls s)(i \<mapsto> x)" "d_fresh (put_impl i x s) = d_fresh s"
  "d_log (put_impl i x s) = d_log s"
  "d_impls (free_impl i s) = (d_impls s)(i := None)" "d_fresh (free_impl i s) = d_fresh s"
  "d_log (free_impl i s) = d_log s"
  by (simp_all add: log_effect_def put_impl_def free_impl_def)

lemma run_owned_sel [simp]:
  "d_impls (run_owned own s) = d_impls s" "d_fresh (run_owned own s) = d_fresh s"
  "mset (d_log (run_owned own s)) = mset (d_log s) + owes own"
  by (simp_all add: run_owned_def owes_def split: owned.split)

lemma links_del: "finite (dom H) \<Longrightarrow> H i = Some x \<Longrightarrow> links H = handles x + links (H(i := None))"
  by (simp add: links_def msum_del)

lemma links_same: "finite (dom H) \<Longrightarrow> H i = Some x \<Longrightarrow> handles y = handles x \<Longrightarrow> links (H(i \<mapsto> y)) = links H"
  by (simp add: links_def msum_same)

lemma handles_refs [simp]: "handles (x\<lparr>i_refs := n\<rparr>) = handles x"
  by (simp add: handles_def)

subsection \<open>Counting\<close>

lemma countedD:
  assumes "counted A H" "H i = Some x"
  shows "i_refs x = of_nat (count A (Impl i))" "0 < count A (Impl i)" "count A (Impl i) < 2 ^ 32"
  using assms by (auto simp: counted_def)

lemma countedI:
  assumes "\<And>i. Impl i \<in># A \<Longrightarrow> i \<in> dom H"
    and "\<And>i x. H i = Some x \<Longrightarrow>
      i_refs x = of_nat (count A (Impl i)) \<and> 0 < count A (Impl i) \<and> count A (Impl i) < 2 ^ 32"
  shows "counted A H"
  using assms by (auto simp: counted_def)

lemma counted_dom: "counted A H \<Longrightarrow> Impl i \<in># A \<Longrightarrow> i \<in> dom H"
  by (simp add: counted_def)

lemma one_handle:
  assumes "counted A H" "H i = Some x"
  shows "i_refs x = 1 \<longleftrightarrow> count A (Impl i) = 1"
proof -
  note c = countedD [OF assms]
  have "unat (of_nat (count A (Impl i)) :: u32) = count A (Impl i)"
    using c(3) by (simp add: unat_of_nat take_bit_nat_eq_self)
  then show ?thesis using c(1) by (metis of_nat_1 unat_1)
qed

lemma counted_drop:
  assumes "counted (add_mset (Impl i) A) H" "H i = Some x" "i_refs x - 1 \<noteq> 0"
  shows "counted A (H(i \<mapsto> x\<lparr>i_refs := i_refs x - 1\<rparr>))"
proof -
  have more: "0 < count A (Impl i)" using one_handle [OF assms(1,2)] assms(3) by auto
  show ?thesis
  proof (rule countedI)
    fix j assume "Impl j \<in># A"
    then show "j \<in> dom (H(i \<mapsto> x\<lparr>i_refs := i_refs x - 1\<rparr>))" using counted_dom [OF assms(1), of j] by auto
  next
    fix j y assume y: "(H(i \<mapsto> x\<lparr>i_refs := i_refs x - 1\<rparr>)) j = Some y"
    show "i_refs y = of_nat (count A (Impl j)) \<and> 0 < count A (Impl j) \<and> count A (Impl j) < 2 ^ 32"
    proof (cases "j = i")
      case True
      then show ?thesis using y more countedD [OF assms(1,2)] by auto
    next
      case False
      then show ?thesis using y countedD [OF assms(1), of j y] by simp
    qed
  qed
qed

lemma counted_last:
  assumes "counted (add_mset (Impl i) A) H" "H i = Some x" "i_refs x - 1 = 0"
  shows "counted A (H(i := None))" "Impl i \<notin># A"
proof -
  have "count A (Impl i) = 0" using one_handle [OF assms(1,2)] assms(3) by simp
  then show n: "Impl i \<notin># A" by (simp add: count_eq_zero_iff)
  show "counted A (H(i := None))" using assms(1) n by (auto simp: counted_def split: if_splits)
qed

lemma counted_more:
  assumes "counted A H" "H i = Some x" "Suc (count A (Impl i)) < 2 ^ 32"
  shows "counted (add_mset (Impl i) A) (H(i \<mapsto> x\<lparr>i_refs := i_refs x + 1\<rparr>))"
  using assms by (auto simp: counted_def)

text \<open>Handles that are not on an implementation do not count.\<close>

lemma counted_other:
  "counted (add_mset Null A) H = counted A H"
  "counted (add_mset (Object p) A) H = counted A H"
  by (auto simp: counted_def)

lemma counted_new:
  assumes "counted A H" "H n = None" "i_refs y = 1"
  shows "counted (add_mset (Impl n) A) (H(n \<mapsto> y))"
proof -
  have "Impl n \<notin># A" using assms(1,2) by (auto simp: counted_def)
  then have "count A (Impl n) = 0" by (simp add: count_eq_zero_iff)
  then show ?thesis using assms by (auto simp: counted_def)
qed

lemma counted_refs:
  assumes "counted A H" "H i = Some x" "i_refs y = i_refs x"
  shows "counted A (H(i \<mapsto> y))"
  using assms by (auto simp: counted_def)

lemma ranked_less: "ranked r H \<Longrightarrow> H i = Some x \<Longrightarrow> handles y = handles x \<Longrightarrow> ranked r (H(i \<mapsto> y))"
  by (auto simp: ranked_def)

lemma ranked_del: "ranked r H \<Longrightarrow> ranked r (H(i := None))"
  by (auto simp: ranked_def)

subsection \<open>Destruction\<close>

definition work :: "dref list \<times> dheap \<Rightarrow> nat" where
  "work t = length (fst t) + 2 * card (dom (d_impls (snd t)))"

lemma destroy_step:
  assumes "sound (mset (d # todo) + held) s"
  shows "\<exists>todo' s'. destroy_round (d # todo, s) = Inr (Inr (todo', s')) \<and> sound (mset todo' + held) s' \<and>
    ledger (mset todo' + held) s' = ledger (mset (d # todo) + held) s \<and> work (todo', s') < work (d # todo, s)"
proof -
  have fin: "finite (dom (d_impls s))" "dom (d_impls s) \<subseteq> {..< d_fresh s}"
    and cnt: "counted (add_mset d (mset todo + held + links (d_impls s))) (d_impls s)"
    using assms by (simp_all add: sound_def)
  obtain r where r: "ranked r (d_impls s)" using assms by (auto simp: sound_def)
  show ?thesis
  proof (cases d)
    case Null
    then show ?thesis using fin cnt r by (auto simp: destroy_round_def sound_def ledger_def work_def counted_other)
  next
    case (Object p)
    then show ?thesis using fin cnt r by (auto simp: destroy_round_def sound_def ledger_def work_def counted_other)
  next
    case (Impl i)
    then have "i \<in> dom (d_impls s)" using cnt by (simp add: counted_def)
    then obtain x where x: "d_impls s i = Some x" by blast
    note cnt = cnt [unfolded Impl]
    show ?thesis
    proof (cases "i_refs x - 1 = 0")
      case False
      let ?s = "put_impl i (x\<lparr>i_refs := i_refs x - 1\<rparr>) s"
      have l: "links (d_impls ?s) = links (d_impls s)" using links_same [OF fin(1) x] by simp
      have "destroy_round (d # todo, s) = Inr (Inr (todo, ?s))"
        using Impl x False by (simp add: destroy_round_def Let_def)
      moreover have "sound (mset todo + held) ?s"
        unfolding sound_def l using fin x counted_drop [OF cnt x False] ranked_less [OF r x handles_refs]
        by (auto simp: insert_absorb)
      moreover have "ledger (mset todo + held) ?s = ledger (mset (d # todo) + held) s"
        unfolding ledger_def l using msum_same [OF fin(1) x, of "owes \<circ> i_owned"] Impl by simp
      moreover have "work (todo, ?s) < work (d # todo, s)" using x by (simp add: work_def insert_absorb domI)
      ultimately show ?thesis by blast
    next
      case True
      let ?H = "(d_impls s)(i := None)"
      let ?todo = "owned_handles (i_owned x) @ i_next x # todo" and ?s = "run_owned (i_owned x) (free_impl i s)"
      note last = counted_last [OF cnt x True]
      have l: "links (d_impls s) = handles x + links ?H" by (rule links_del [OF fin(1) x])
      have all: "mset ?todo + held + links ?H = mset todo + held + links (d_impls s)"
        unfolding l by (simp add: handles_def)
      have "destroy_round (d # todo, s) = Inr (Inr (?todo, ?s))"
        using Impl x True by (simp add: destroy_round_def Let_def)
      moreover have "sound (mset ?todo + held) ?s"
        unfolding sound_def run_owned_sel dheap_sel all using fin last(1) ranked_del [OF r] by auto
      moreover have "ledger (mset ?todo + held) ?s = ledger (mset (d # todo) + held) s"
        unfolding ledger_def run_owned_sel dheap_sel all
        using msum_del [OF fin(1) x, of "owes \<circ> i_owned"] Impl by simp
      moreover have "work (?todo, ?s) < work (d # todo, s)"
      proof -
        have "card (dom (d_impls s)) = Suc (card (dom ?H))"
          using card_Suc_Diff1 [OF fin(1), of i] x by (simp add: domIff)
        moreover have "length (owned_handles (i_owned x)) \<le> 1" by (simp add: owned_handles_def split: owned.split)
        ultimately show ?thesis by (simp add: work_def)
      qed
      ultimately show ?thesis by blast
    qed
  qed
qed

lemma destroy_ok:
  assumes "sound (add_mset d held) s"
  shows "\<exists>s'. destroy d s = Some (Inr s') \<and> sound held s' \<and> ledger held s' = ledger (add_mset d held) s"
proof -
  let ?P = "\<lambda>t. sound (mset (fst t) + held) (snd t) \<and> ledger (mset (fst t) + held) (snd t) = ledger (add_mset d held) s"
  have "\<exists>s'. run destroy_round ([d], s) = Some (Inr s') \<and> sound held s' \<and> ledger held s' = ledger (add_mset d held) s"
  proof (rule run_total [where P = ?P and f = work])
    show "?P ([d], s)" using assms by simp
    fix t assume P: "?P t"
    obtain todo s1 where t: "t = (todo, s1)" by (cases t)
    show "(\<exists>s'. destroy_round t = Inr (Inl s') \<and> sound held s' \<and> ledger held s' = ledger (add_mset d held) s) \<or>
      (\<exists>t'. destroy_round t = Inr (Inr t') \<and> ?P t' \<and> work t' < work t)"
    proof (cases todo)
      case Nil
      then show ?thesis using P t by (simp add: destroy_round_def)
    next
      case (Cons e todo')
      then show ?thesis using destroy_step [of e todo' held s1] P t by fastforce
    qed
  qed
  then show ?thesis by (simp add: destroy_def)
qed

end
