(* ===== verification/Deleter_Append.thy ===== *)
theory Deleter_Append
  imports Deleter_Refs
begin

text \<open>
  Appending to a chain of deleters returns, keeps every counter exact and the chains finite, and loses
  and repeats no action.
\<close>

subsection \<open>Writing through \<^verbatim>\<open>next_d\<close>\<close>

definition at_place :: "place \<Rightarrow> dref \<Rightarrow> dref \<Rightarrow> (nat \<rightharpoonup> impl) \<Rightarrow> bool" where
  "at_place at v this H \<longleftrightarrow>
    (case at of This \<Rightarrow> this = v | Next_of p \<Rightarrow> (\<exists>x. H p = Some x \<and> i_next x = v))"

definition place_heap :: "place \<Rightarrow> dref \<Rightarrow> (nat \<rightharpoonup> impl) \<Rightarrow> nat \<rightharpoonup> impl" where
  "place_heap at w H =
    (case at of This \<Rightarrow> H | Next_of p \<Rightarrow> (case H p of None \<Rightarrow> H | Some x \<Rightarrow> H(p \<mapsto> x\<lparr>i_next := w\<rparr>)))"

definition place_this :: "place \<Rightarrow> dref \<Rightarrow> dref \<Rightarrow> dref" where
  "place_this at w this = (case at of This \<Rightarrow> w | Next_of p \<Rightarrow> this)"

lemma write_place_eq:
  "at_place at v this (d_impls s) \<Longrightarrow>
    write_place at w this s = Inr (place_this at w this, s\<lparr>d_impls := place_heap at w (d_impls s)\<rparr>)"
  by (auto simp: write_place_def at_place_def place_heap_def place_this_def put_impl_def split: place.split)

lemma place_heap_sel:
  "dom (place_heap at w H) = dom H"
  "H j = None \<Longrightarrow> place_heap at w H j = None"
  "H j = Some x \<Longrightarrow> \<exists>y. place_heap at w H j = Some y \<and> i_refs y = i_refs x \<and> i_owned y = i_owned x \<and>
    i_next y = (if at = Next_of j then w else i_next x)"
  by (auto simp: place_heap_def split: place.split option.split)

lemma place_counted: "counted A (place_heap at w H) = counted A H"
  by (auto simp: counted_def place_heap_def split: place.split option.split)

lemma handles_next: "handles (x\<lparr>i_next := w\<rparr>) = add_mset w (mset (owned_handles (i_owned x)))"
  by (simp add: handles_def)

lemma place_links:
  assumes "finite (dom H)" "at_place at v this H"
  shows "add_mset v (add_mset (place_this at w this) (links (place_heap at w H))) =
    add_mset w (add_mset this (links H))"
proof (cases at)
  case This
  then show ?thesis using assms(2) by (simp add: at_place_def place_heap_def place_this_def)
next
  case (Next_of p)
  then obtain x where x: "H p = Some x" "i_next x = v" using assms(2) by (auto simp: at_place_def)
  have "links (H(p \<mapsto> x\<lparr>i_next := w\<rparr>)) + handles x = links H + handles (x\<lparr>i_next := w\<rparr>)"
    unfolding links_def by (rule msum_upd [OF assms(1) x(1)])
  then have "add_mset v (links (H(p \<mapsto> x\<lparr>i_next := w\<rparr>))) = add_mset w (links H)"
    using x(2) by (simp add: handles_def)
  then show ?thesis using Next_of x(1) by (simp add: place_heap_def place_this_def add_mset_commute)
qed

lemma place_owes:
  "finite (dom H) \<Longrightarrow> msum (owes \<circ> i_owned) (place_heap at w H) = msum (owes \<circ> i_owned) H"
  by (auto simp: place_heap_def msum_same split: place.split option.split)

lemma place_at: "at_place at v this H \<Longrightarrow> at_place at w (place_this at w this) (place_heap at w H)"
  by (auto simp: at_place_def place_heap_def place_this_def split: place.split)

subsection \<open>The part of the chain that is walked\<close>

text \<open>Its implementations have one handle each: \<open>this\<close> or the \<^verbatim>\<open>next\<close> of another of them.\<close>

definition solo :: "nat set \<Rightarrow> dref \<Rightarrow> dref multiset \<Rightarrow> (nat \<rightharpoonup> impl) \<Rightarrow> bool" where
  "solo C this A H \<longleftrightarrow> (\<forall>c \<in> C. c \<in> dom H \<and> count A (Impl c) = 1 \<and>
    (this = Impl c \<or> (\<exists>j \<in> C. \<exists>x. H j = Some x \<and> i_next x = Impl c)))"

lemma solo_no_other:
  assumes "solo C this (add_mset this K + links H) H" "finite (dom H)" "c \<in> C" "H j = Some y" "Impl c \<in># handles y"
  shows "j \<in> C"
proof (rule ccontr)
  assume j: "j \<notin> C"
  have one: "count (add_mset this K + links H) (Impl c) = 1"
    and source: "this = Impl c \<or> (\<exists>k \<in> C. \<exists>x. H k = Some x \<and> i_next x = Impl c)"
    using assms(1,3) by (auto simp: solo_def)
  have l: "links H = handles y + links (H(j := None))" by (rule links_del [OF assms(2,4)])
  have here: "0 < count (handles y) (Impl c)" using assms(5) by simp
  show False
    using source
  proof (elim disjE bexE exE conjE)
    assume "this = Impl c"
    then show False using one here l by simp
  next
    fix k x assume k: "k \<in> C" "H k = Some x" "i_next x = Impl c"
    have "links (H(j := None)) = handles x + links ((H(j := None))(k := None))"
      using k j assms(2) by (intro links_del) auto
    then have "count (handles y) (Impl c) + count (handles x) (Impl c) \<le> count (add_mset this K + links H) (Impl c)"
      unfolding l by simp
    moreover have "0 < count (handles x) (Impl c)" using k(3) by (simp add: handles_def)
    ultimately show False using one here by linarith
  qed
qed

lemma solo_not_held:
  assumes "solo C this (add_mset this K + links H) H" "finite (dom H)" "Impl c \<in># K"
  shows "c \<notin> C"
proof
  assume c: "c \<in> C"
  have one: "count (add_mset this K + links H) (Impl c) = 1"
    and source: "this = Impl c \<or> (\<exists>k \<in> C. \<exists>x. H k = Some x \<and> i_next x = Impl c)"
    using assms(1) c by (auto simp: solo_def)
  have here: "0 < count K (Impl c)" using assms(3) by simp
  show False
    using source
  proof (elim disjE bexE exE conjE)
    assume "this = Impl c"
    then show False using one here by simp
  next
    fix k x assume k: "k \<in> C" "H k = Some x" "i_next x = Impl c"
    have "links H = handles x + links (H(k := None))" by (rule links_del [OF assms(2) k(2)])
    then have "count K (Impl c) + count (handles x) (Impl c) \<le> count (add_mset this K + links H) (Impl c)" by simp
    moreover have "0 < count (handles x) (Impl c)" using k(3) by (simp add: handles_def)
    ultimately show False using one here by linarith
  qed
qed

text \<open>A chain may be continued at a place of that part without closing a circle.\<close>

lemma ranked_store:
  assumes r: "ranked r H" and fin: "finite (dom H)" and s: "solo C this (add_mset this K + links H) H"
    and p: "p \<in> C" and d: "d \<in># K"
  shows "\<exists>r'. ranked r' (place_heap (Next_of p) d H)"
proof -
  define N where "N = (case d of Impl k \<Rightarrow> Suc (r k) | _ \<Rightarrow> 0)"
  define r' where "r' = (\<lambda>j. if j \<in> C then r j + N else r j)"
  have "ranked r' (place_heap (Next_of p) d H)"
    unfolding ranked_def
  proof (intro allI impI)
    fix i y j assume y: "place_heap (Next_of p) d H i = Some y" and j: "Impl j \<in># handles y"
    obtain x where x1: "H i = Some x" using y place_heap_sel(2) [of H i "Next_of p" d] by (cases "H i") auto
    have x: "H i = Some x" "i_owned y = i_owned x" "i_next y = (if i = p then d else i_next x)"
      using x1 y place_heap_sel(3) [of H i x "Next_of p" d] by (auto split: if_splits)
    show "r' j < r' i"
    proof (cases "Impl j \<in># handles x")
      case True
      then have "r j < r i" using r x(1) by (auto simp: ranked_def)
      moreover have "j \<in> C \<Longrightarrow> i \<in> C" using solo_no_other [OF s fin _ x(1) True] by blast
      ultimately show ?thesis by (auto simp: r'_def)
    next
      case False
      then have i: "i = p" "d = Impl j" using j x(2,3) by (auto simp: handles_def split: if_splits)
      then have "j \<notin> C" using solo_not_held [OF s fin, of j] d by simp
      then show ?thesis using i p by (simp add: r'_def N_def)
    qed
  qed
  then show ?thesis by blast
qed

subsection \<open>Putting a new implementation into the chain\<close>

lemma at_place_new:
  "at_place at v this H \<Longrightarrow> H n = None \<Longrightarrow> at_place at v this (H(n \<mapsto> y))"
  by (auto simp: at_place_def split: place.splits)

lemma place_heap_new:
  "at_place at v this H \<Longrightarrow> H n = None \<Longrightarrow> place_heap at w (H(n \<mapsto> y)) = (place_heap at w H)(n \<mapsto> y)"
  by (auto simp: at_place_def place_heap_def fun_upd_twist split: place.splits option.split)

lemma counted_cong:
  assumes "counted A H" "\<And>j. count B (Impl j) = count A (Impl j)"
  shows "counted B H"
  using assms by (auto simp: counted_def simp flip: count_greater_zero_iff)

text \<open>
  The node \<open>y\<close> takes the place of \<open>v\<close>. Its own handles are \<open>v\<close>, as far as that counts, and \<open>R\<close>, which are
  in flight before.
\<close>

lemma insert_links:
  assumes "finite (dom H)" "at_place at v this H" "H n = None"
  shows "add_mset v (add_mset (place_this at (Impl n) this) (links (place_heap at (Impl n) (H(n \<mapsto> y))))) =
    add_mset (Impl n) (add_mset this (handles y + links H))"
proof -
  have "links (H(n \<mapsto> y)) = handles y + links H" unfolding links_def by (rule msum_new [OF assms(1,3)])
  then show ?thesis
    using place_links [OF _ at_place_new [where y = y, OF assms(2,3)], where w = "Impl n"] assms(1) by simp
qed

lemma insert_node:
  assumes fin: "finite (dom H)" and at: "at_place at v this H" and new: "H n = None" "i_refs y = 1"
    and own: "\<And>j. count (handles y) (Impl j) = count (add_mset v R) (Impl j)"
    and cnt: "counted (add_mset this (R + L) + links H) H"
  defines "H1 \<equiv> place_heap at (Impl n) (H(n \<mapsto> y))" and "this1 \<equiv> place_this at (Impl n) this"
  shows "counted (add_mset this1 L + links H1) H1"
    and "solo C this (add_mset this (R + L) + links H) H \<Longrightarrow> (\<And>c. c \<in> C \<Longrightarrow> v \<noteq> Impl c) \<Longrightarrow> (\<And>p. at = Next_of p \<Longrightarrow> p \<in> C) \<Longrightarrow>
      solo (insert n C) this1 (add_mset this1 L + links H1) H1"
proof -
  note eq = insert_links [OF fin at new(1), of y, folded H1_def this1_def]
  have counts: "count (add_mset this1 L + links H1) (Impl j) =
      count (add_mset (Impl n) (add_mset this (R + L) + links H)) (Impl j)" for j
  proof -
    have "count (add_mset v (add_mset this1 (links H1))) (Impl j) =
        count (add_mset (Impl n) (add_mset this (handles y + links H))) (Impl j)"
      unfolding eq ..
    then show ?thesis using own [of j] by (simp split: if_splits)
  qed
  show "counted (add_mset this1 L + links H1) H1"
    unfolding H1_def place_counted
    by (rule counted_cong [OF counted_new [OF cnt new]]) (use counts in \<open>simp add: H1_def\<close>)
  have fresh: "count (add_mset this (R + L) + links H) (Impl n) = 0"
    using counted_dom [OF cnt, of n] new(1) by (auto simp: count_eq_zero_iff)
  show "solo (insert n C) this1 (add_mset this1 L + links H1) H1"
    if solo: "solo C this (add_mset this (R + L) + links H) H" and v: "\<And>c. c \<in> C \<Longrightarrow> v \<noteq> Impl c"
      and on: "\<And>p. at = Next_of p \<Longrightarrow> p \<in> C"
    unfolding solo_def
  proof (intro ballI conjI)
    fix c assume c: "c \<in> insert n C"
    have old: "c \<in> dom H" "count (add_mset this (R + L) + links H) (Impl c) = 1"
      "this = Impl c \<or> (\<exists>j \<in> C. \<exists>x. H j = Some x \<and> i_next x = Impl c)" "c \<noteq> n" if "c \<in> C"
      using solo that new(1) by (auto simp: solo_def)
    show "c \<in> dom H1" using c old(1) by (auto simp: H1_def place_heap_sel)
    show "count (add_mset this1 L + links H1) (Impl c) = 1"
      unfolding counts using c old(2,4) fresh by (cases "c = n") auto
    show "this1 = Impl c \<or> (\<exists>j \<in> insert n C. \<exists>x. H1 j = Some x \<and> i_next x = Impl c)"
    proof (cases "c = n")
      case True
      have "at_place at (Impl n) this1 H1"
        unfolding H1_def this1_def by (rule place_at) (rule at_place_new [OF at new(1)])
      then show ?thesis using True on by (cases at) (auto simp: at_place_def)
    next
      case False
      then have cc: "c \<in> C" using c by simp
      show ?thesis
        using old(3) [OF cc]
      proof (elim disjE bexE exE conjE)
        assume "this = Impl c"
        then show ?thesis using at v [OF cc] by (cases at) (auto simp: at_place_def this1_def place_this_def)
      next
        fix j x assume j: "j \<in> C" "H j = Some x" "i_next x = Impl c"
        then have "j \<noteq> n" using new(1) by auto
        then have x: "(H(n \<mapsto> y)) j = Some x" using j(2) by simp
        have "at \<noteq> Next_of j" using at v [OF cc] j(2,3) by (auto simp: at_place_def)
        then show ?thesis using place_heap_sel(3) [of "H(n \<mapsto> y)" j x at "Impl n"] x j(1,3) by (auto simp: H1_def)
      qed
    qed
  qed
qed

subsection \<open>The loop\<close>

definition walking ::
    "dref multiset \<Rightarrow> dref \<Rightarrow> effect multiset \<Rightarrow> nat set \<Rightarrow> dref \<Rightarrow> place \<Rightarrow> dref \<Rightarrow> dheap \<Rightarrow> bool" where
  "walking K d D C next_impl at this s \<longleftrightarrow>
    sound (add_mset this (add_mset d K)) s \<and> ledger (add_mset this (add_mset d K)) s = D \<and>
    at_place at next_impl this (d_impls s) \<and>
    solo C this (add_mset this (add_mset d K) + links (d_impls s)) (d_impls s) \<and>
    (\<forall>p. at = Next_of p \<longrightarrow> p \<in> C)"

lemma walkingD:
  assumes "walking K d D C next_impl at this s"
  shows "finite (dom (d_impls s))" "dom (d_impls s) \<subseteq> {..< d_fresh s}"
    "counted (add_mset this (add_mset d K) + links (d_impls s)) (d_impls s)"
    "\<exists>r. ranked r (d_impls s)" "ledger (add_mset this (add_mset d K)) s = D"
    "at_place at next_impl this (d_impls s)"
    "solo C this (add_mset this (add_mset d K) + links (d_impls s)) (d_impls s)"
    "at = Next_of p \<Longrightarrow> p \<in> C" "d_impls s (d_fresh s) = None"
  using assms by (auto simp: walking_def sound_def)

lemma ledger_split:
  "ledger (add_mset this (add_mset d K)) s =
    (mset (d_log s) + all_owe K + handle_owes d) +
    (msum (owes \<circ> i_owned) (d_impls s) + (handle_owes this + all_owe (links (d_impls s))))"
  by (simp add: ledger_def ac_simps)

lemma new_impl_eq:
  "new_impl nx own s =
    (d_fresh s, s\<lparr>d_impls := (d_impls s)(d_fresh s \<mapsto> \<lparr>i_refs = 1, i_next = nx, i_owned = own\<rparr>), d_fresh := Suc (d_fresh s)\<rparr>)"
  by (simp add: new_impl_def Let_def)

lemma unraw_ok:
  assumes w: "walking K d D C (Object p) at this s"
  shows "\<exists>n this1 s1 x. unraw (Object p) at this s = Inr (Impl n, this1, s1) \<and>
    walking K d D (insert n C) (Impl n) at this1 s1 \<and> d_impls s1 n = Some x \<and> i_refs x = 1 \<and> i_next x = Null"
proof -
  note w = walkingD [OF w]
  let ?n = "d_fresh s" and ?y = "\<lparr>i_refs = 1, i_next = Null, i_owned = Frees p\<rparr>"
  let ?H = "d_impls s" and ?hd = "place_this at (Impl (d_fresh s)) this"
  let ?H1 = "place_heap at (Impl ?n) (?H(?n \<mapsto> ?y))"
  let ?s = "s\<lparr>d_impls := ?H1, d_fresh := Suc ?n\<rparr>"
  have h: "handles ?y = {#Null#}" by (simp add: handles_def owned_handles_def)
  have at: "at_place at (Object p) this (?H(?n \<mapsto> ?y))" by (rule at_place_new [OF w(6,9)])
  have run: "unraw (Object p) at this s = Inr (Impl ?n, ?hd, ?s)"
    using write_place_eq [of at "Object p" this "s\<lparr>d_impls := ?H(?n \<mapsto> ?y), d_fresh := Suc ?n\<rparr>" "Impl ?n"] at
    by (simp add: unraw_def new_impl_eq)
  have own: "count (handles ?y) (Impl j) = count (add_mset (Object p) {#}) (Impl j)" for j by (simp add: h)
  have cnt: "counted (add_mset this ({#} + add_mset d K) + links ?H) ?H" using w(3) by simp
  note ins = insert_node [OF w(1,6,9) _ own cnt]
  have sound: "counted (add_mset ?hd (add_mset d K) + links ?H1) ?H1" by (rule ins(1)) simp
  have solo: "solo (insert ?n C) ?hd (add_mset ?hd (add_mset d K) + links ?H1) ?H1"
    by (rule ins(2)) (use w(7,8) in auto)
  obtain r where r: "ranked r ?H" using w(4) by blast
  have "ranked (\<lambda>j. if j = ?n then 0 else Suc (r j)) ?H1"
    unfolding ranked_def
  proof (intro allI impI)
    fix i x j assume x: "?H1 i = Some x" and j: "Impl j \<in># handles x"
    show "(if j = ?n then 0 else Suc (r j)) < (if i = ?n then 0 else Suc (r i))"
    proof (cases "i = ?n")
      case True
      have "at \<noteq> Next_of ?n" using w(6,9) by (auto simp: at_place_def)
      then have "x = ?y" using x True w(9) by (auto simp: place_heap_def split: place.splits option.splits if_splits)
      then show ?thesis using j h by simp
    next
      case False
      then obtain x0 where x0: "?H i = Some x0"
        using x by (auto simp: place_heap_def split: place.splits option.splits if_splits)
      then have "i_owned x = i_owned x0" "i_next x = (if at = Next_of i then Impl ?n else i_next x0)"
        using place_heap_sel(3) [of "?H(?n \<mapsto> ?y)" i x0 at "Impl ?n"] x False by auto
      then have "j = ?n \<or> Impl j \<in># handles x0" using j by (auto simp: handles_def split: if_splits)
      then show ?thesis using r x0 False by (auto simp: ranked_def)
    qed
  qed
  then have "sound (add_mset ?hd (add_mset d K)) ?s"
    using sound w(1,2) by (auto simp: sound_def place_heap_sel)
  moreover have "ledger (add_mset ?hd (add_mset d K)) ?s = D"
  proof -
    have "all_owe (add_mset (Object p) (add_mset ?hd (links ?H1))) =
        all_owe (add_mset (Impl ?n) (add_mset this (handles ?y + links ?H)))"
      using insert_links [OF w(1,6,9), of ?y] by simp
    then have e1: "handle_owes this + all_owe (links ?H) = add_mset (Freed p) (handle_owes ?hd + all_owe (links ?H1))"
      using h by simp
    have e2: "msum (owes \<circ> i_owned) ?H1 = add_mset (Freed p) (msum (owes \<circ> i_owned) ?H)"
      using place_owes [of "?H(?n \<mapsto> ?y)" at "Impl ?n"] msum_new [OF w(1,9), of "owes \<circ> i_owned" ?y] w(1)
      by (simp add: owes_def)
    show ?thesis unfolding w(5) [symmetric] ledger_split e1 by (simp add: e2)
  qed
  moreover have "at_place at (Impl ?n) ?hd ?H1" by (rule place_at) (rule at)
  ultimately have walk: "walking K d D (insert ?n C) (Impl ?n) at ?hd ?s"
    using solo w(8) by (auto simp: walking_def)
  have "at \<noteq> Next_of ?n" using w(6,9) by (auto simp: at_place_def)
  then obtain x where "?H1 ?n = Some x" "i_refs x = 1" "i_next x = Null"
    using place_heap_sel(3) [of "?H(?n \<mapsto> ?y)" ?n ?y at "Impl ?n"] by auto
  then show ?thesis using run walk by (intro exI [of _ ?n] exI [of _ ?hd] exI [of _ ?s] exI [of _ x]) simp
qed

text \<open>The chains that are walked end: \<open>walk H d k\<close> if from \<open>d\<close> there are \<open>k\<close> handles.\<close>

inductive walk :: "(nat \<rightharpoonup> impl) \<Rightarrow> dref \<Rightarrow> nat \<Rightarrow> bool" for H where
  walk_Null: "walk H Null 0"
| walk_Object: "walk H (Object p) (Suc 0)"
| walk_Impl: "H i = Some x \<Longrightarrow> walk H (i_next x) k \<Longrightarrow> walk H (Impl i) (Suc k)"

inductive_cases walk_ImplE: "walk H (Impl i) k"

lemma next_handle: "i_next x \<in># handles x"
  by (simp add: handles_def)

lemma walk_exists:
  assumes "ranked r H" "counted A H" "links H \<subseteq># A" "finite (dom H)" "d \<in># A"
  shows "\<exists>k. walk H d k"
  using assms(5)
proof (induction "case d of Impl i \<Rightarrow> Suc (r i) | _ \<Rightarrow> 0" arbitrary: d rule: less_induct)
  case less
  show ?case
  proof (cases d)
    case (Impl i)
    then obtain x where x: "H i = Some x" using counted_dom [OF assms(2), of i] less.prems by auto
    have "i_next x \<in># links H" using links_del [OF assms(4) x] next_handle [of x] by simp
    then have mem: "i_next x \<in># A" using assms(3) by (meson mset_subset_eqD)
    have "(case i_next x of Impl i \<Rightarrow> Suc (r i) | _ \<Rightarrow> 0) < (case d of Impl i \<Rightarrow> Suc (r i) | _ \<Rightarrow> 0)"
      using assms(1) x next_handle [of x] Impl by (auto simp: ranked_def split: dref.split)
    from less.hyps [OF this mem] obtain k where "walk H (i_next x) k" by blast
    then show ?thesis using walk.walk_Impl [of H i x k] x Impl by blast
  qed (auto intro: walk.intros)
qed

lemma walk_frame:
  assumes "walk H d k" "ranked r H" "\<And>j. d = Impl j \<Longrightarrow> r j < b" "\<And>j. r j < b \<Longrightarrow> j \<in> dom H \<Longrightarrow> H' j = H j"
  shows "walk H' d k"
  using assms(1,3)
proof (induction rule: walk.induct)
  case (walk_Impl i x k)
  have lt: "r i < b" using walk_Impl.prems by simp
  then have "H' i = Some x" using assms(4) [of i] walk_Impl.hyps(1) by auto
  moreover have "walk H' (i_next x) k"
  proof (rule walk_Impl.IH)
    fix j assume "i_next x = Impl j"
    then have "r j < r i" using assms(2) walk_Impl.hyps(1) next_handle [of x] by (auto simp: ranked_def)
    then show "r j < b" using lt by simp
  qed
  ultimately show ?case by (rule walk.walk_Impl)
qed (auto intro: walk.intros)

text \<open>A shared implementation is wrapped; its \<^verbatim>\<open>next\<close> moves to the wrapper.\<close>

lemma wrap_ok:
  assumes walk: "walking K d D C (Impl i) at this s" and x: "d_impls s i = Some x" and shared: "i_refs x \<noteq> 1"
    and k: "walk (d_impls s) (i_next x) k"
  shows "\<exists>n this1 s1 y. unshare (Impl i) at this s = Inr (n, this1, s1) \<and> d_impls s1 n = Some y \<and>
    walking K d D (insert n C) (i_next y) (Next_of n) this1 s1 \<and> walk (d_impls s1) (i_next y) k"
proof -
  note w = walkingD [OF walk]
  let ?n = "d_fresh s" and ?y = "\<lparr>i_refs = 1, i_next = i_next x, i_owned = Release (Impl i)\<rparr>"
  let ?H = "d_impls s" and ?hd = "place_this at (Impl (d_fresh s)) this"
  define H0 where "H0 = ?H(i \<mapsto> x\<lparr>i_next := Null\<rparr>)"
  let ?H1 = "place_heap at (Impl ?n) (H0(?n \<mapsto> ?y))"
  let ?s = "s\<lparr>d_impls := ?H1, d_fresh := Suc ?n\<rparr>"
  obtain r where r: "ranked r ?H" using w(4) by blast
  have h: "handles ?y = {#i_next x, Impl i#}" by (simp add: handles_def owned_handles_def)
  have ni: "?n \<noteq> i" using x w(9) by auto
  have up: "r i < r p" if "at = Next_of p" for p
    using w(6) r that by (auto simp: at_place_def ranked_def handles_def)
  have at_i: "at \<noteq> Next_of i" using up less_irrefl by blast
  have at_n: "at \<noteq> Next_of ?n" using w(6,9) by (auto simp: at_place_def)
  have fin0: "finite (dom H0)" and new0: "H0 ?n = None" using w(1,9) ni by (auto simp: H0_def)
  have at0: "at_place at (Impl i) this H0" using w(6) at_i by (auto simp: at_place_def H0_def split: place.splits)
  have at: "at_place at (Impl i) this (H0(?n \<mapsto> ?y))" by (rule at_place_new [OF at0 new0])
  have run: "unshare (Impl i) at this s = Inr (?n, ?hd, ?s)"
    using write_place_eq [of at "Impl i" this "s\<lparr>d_impls := H0(?n \<mapsto> ?y), d_fresh := Suc ?n\<rparr>" "Impl ?n"] at x shared
    by (simp add: unshare_def new_impl_eq put_impl_def H0_def)
  have l0: "add_mset (i_next x) (links H0) = add_mset Null (links ?H)"
  proof -
    have "links H0 + handles x = links ?H + handles (x\<lparr>i_next := Null\<rparr>)"
      unfolding links_def H0_def by (rule msum_upd [OF w(1) x])
    then show ?thesis by (simp add: handles_def)
  qed
  have counts0: "count (add_mset this ({#i_next x#} + add_mset d K) + links H0) (Impl j) =
      count (add_mset this (add_mset d K) + links ?H) (Impl j)" for j
  proof -
    have "count (add_mset (i_next x) (links H0)) (Impl j) = count (links ?H) (Impl j)" unfolding l0 by simp
    then show ?thesis by (auto split: if_splits)
  qed
  have cnt0: "counted (add_mset this ({#i_next x#} + add_mset d K) + links H0) H0"
    unfolding H0_def by (rule counted_refs [OF counted_cong [OF w(3)] x]) (use counts0 in \<open>simp_all add: H0_def\<close>)
  have i_out: "i \<notin> C"
  proof
    assume "i \<in> C"
    then have "count (add_mset this (add_mset d K) + links ?H) (Impl i) = 1" using w(7) by (simp add: solo_def)
    then show False using one_handle [OF w(3) x] shared by simp
  qed
  have solo0: "solo C this (add_mset this ({#i_next x#} + add_mset d K) + links H0) H0"
    unfolding solo_def counts0
  proof (intro ballI conjI)
    fix c assume c: "c \<in> C"
    then show "c \<in> dom H0" "count (add_mset this (add_mset d K) + links ?H) (Impl c) = 1"
      using w(7) by (auto simp: solo_def H0_def)
    have "this = Impl c \<or> (\<exists>j \<in> C. \<exists>z. ?H j = Some z \<and> i_next z = Impl c)" using w(7) c by (simp add: solo_def)
    then show "this = Impl c \<or> (\<exists>j \<in> C. \<exists>z. H0 j = Some z \<and> i_next z = Impl c)"
      using i_out by (auto simp: H0_def)
  qed
  have own: "count (handles ?y) (Impl j) = count (add_mset (Impl i) {#i_next x#}) (Impl j)" for j by (simp add: h)
  note ins = insert_node [OF fin0 at0 new0 _ own cnt0]
  have cnt: "counted (add_mset ?hd (add_mset d K) + links ?H1) ?H1" by (rule ins(1)) simp
  have solo: "solo (insert ?n C) ?hd (add_mset ?hd (add_mset d K) + links ?H1) ?H1"
    by (rule ins(2)) (use solo0 w(8) i_out in auto)
  have up2: "r j < r i" if "Impl j \<in># handles z" "?H i = Some z" for i z j using r that by (auto simp: ranked_def)
  have old: "j \<noteq> ?n" if "Impl j \<in># handles z" "?H l = Some z" for z l j
    using counted_dom [OF w(3), of j] links_del [OF w(1) that(2)] that(1) w(9) by auto
  have ranks: "ranked (\<lambda>j. if j = ?n then Suc (2 * r i) else 2 * r j) ?H1"
    unfolding ranked_def
  proof (intro allI impI)
    fix l z j assume z: "?H1 l = Some z" and j: "Impl j \<in># handles z"
    show "(if j = ?n then Suc (2 * r i) else 2 * r j) < (if l = ?n then Suc (2 * r i) else 2 * r l)"
    proof (cases "l = ?n")
      case True
      then have "z = ?y" using z at_n by (auto simp: place_heap_def split: place.splits option.splits if_splits)
      then have "j = i \<or> i_next x = Impl j" using j h by auto
      then show ?thesis using True ni up2 [OF _ x, of j] old [OF _ x, of j] next_handle [of x] by auto
    next
      case False
      then obtain z0 where z0: "H0 l = Some z0"
        using z by (auto simp: place_heap_def split: place.splits option.splits if_splits)
      then have e: "i_owned z = i_owned z0" "i_next z = (if at = Next_of l then Impl ?n else i_next z0)"
        using place_heap_sel(3) [of "H0(?n \<mapsto> ?y)" l z0 at "Impl ?n"] z False by auto
      obtain z1 where z1: "?H l = Some z1" "i_owned z0 = i_owned z1" "i_next z0 = (if l = i then Null else i_next z1)"
        using z0 x by (auto simp: H0_def split: if_splits)
      have "(j = ?n \<and> at = Next_of l) \<or> Impl j \<in># handles z1" using j e z1(2,3) by (auto simp: handles_def split: if_splits)
      then show ?thesis
      proof
        assume "j = ?n \<and> at = Next_of l"
        then show ?thesis using up [of l] False by simp
      next
        assume a: "Impl j \<in># handles z1"
        then have "j \<noteq> ?n" by (rule old [OF _ z1(1)])
        then show ?thesis using up2 [OF a z1(1)] False by simp
      qed
    qed
  qed
  have sound: "sound (add_mset ?hd (add_mset d K)) ?s"
    using cnt ranks w(1,2) x by (auto simp: sound_def place_heap_sel H0_def)
  have ledger: "ledger (add_mset ?hd (add_mset d K)) ?s = D"
  proof -
    have "all_owe (add_mset (Impl i) (add_mset ?hd (links ?H1))) =
        all_owe (add_mset (Impl ?n) (add_mset this (handles ?y + links H0)))"
      using insert_links [OF fin0 at0 new0, of ?y] by simp
    moreover have "all_owe (add_mset (i_next x) (links H0)) = all_owe (add_mset Null (links ?H))" unfolding l0 ..
    ultimately have e1: "handle_owes this + all_owe (links ?H) = handle_owes ?hd + all_owe (links ?H1)"
      using h by (simp add: ac_simps)
    have e2: "msum (owes \<circ> i_owned) ?H1 = msum (owes \<circ> i_owned) ?H"
      using place_owes [of "H0(?n \<mapsto> ?y)" at "Impl ?n"] msum_new [OF fin0 new0, of "owes \<circ> i_owned" ?y] fin0
        msum_same [OF w(1) x, of "owes \<circ> i_owned" "x\<lparr>i_next := Null\<rparr>", folded H0_def]
      by (simp add: owes_def)
    show ?thesis unfolding w(5) [symmetric] ledger_split e1 by (simp add: e2)
  qed
  obtain z where z: "?H1 ?n = Some z" "i_next z = i_next x"
    using place_heap_sel(3) [of "H0(?n \<mapsto> ?y)" ?n ?y at "Impl ?n"] at_n by auto
  have "walking K d D (insert ?n C) (i_next z) (Next_of ?n) ?hd ?s"
    using sound ledger solo z(1) by (auto simp: walking_def at_place_def)
  moreover have "walk ?H1 (i_next x) k"
  proof (rule walk_frame [OF k r])
    show "r j < r i" if "i_next x = Impl j" for j using up2 [OF _ x, of j] next_handle [of x] that by simp
    show "?H1 j = ?H j" if "r j < r i" "j \<in> dom ?H" for j
    proof -
      have "j \<noteq> i" "j \<noteq> ?n" "at \<noteq> Next_of j" using that up [of j] w(9) by auto
      then show ?thesis by (auto simp: place_heap_def H0_def split: place.split option.split)
    qed
  qed
  ultimately show ?thesis using run z by auto
qed

text \<open>An implementation that is not shared stays where it is.\<close>

lemma keep_ok:
  assumes walk: "walking K d D C (Impl i) at this s" and x: "d_impls s i = Some x" "i_refs x = 1"
  shows "unshare (Impl i) at this s = Inr (i, this, s)" "walking K d D (insert i C) (i_next x) (Next_of i) this s"
proof -
  note w = walkingD [OF walk]
  show "unshare (Impl i) at this s = Inr (i, this, s)" using x by (simp add: unshare_def)
  have one: "count (add_mset this (add_mset d K) + links (d_impls s)) (Impl i) = 1"
    using one_handle [OF w(3) x(1)] x(2) by simp
  have "this = Impl i \<or> (\<exists>j \<in> C. \<exists>z. d_impls s j = Some z \<and> i_next z = Impl i)"
    using w(6,8) by (cases at) (auto simp: at_place_def)
  then have "solo (insert i C) this (add_mset this (add_mset d K) + links (d_impls s)) (d_impls s)"
    using w(7) one x(1) unfolding solo_def by auto
  then show "walking K d D (insert i C) (i_next x) (Next_of i) this s"
    using walk x(1) by (auto simp: walking_def at_place_def)
qed

text \<open>At the end of the chain \<^verbatim>\<open>d\<close> is moved in.\<close>

lemma store_ok:
  assumes walk: "walking K d D C Null at this s"
  shows "\<exists>this1 s1. write_place at d this s = Inr (this1, s1) \<and>
    sound (add_mset this1 (add_mset Null K)) s1 \<and> ledger (add_mset this1 (add_mset Null K)) s1 = D"
proof -
  note w = walkingD [OF walk]
  let ?H = "d_impls s" and ?hd = "place_this at d this"
  let ?H1 = "place_heap at d ?H"
  let ?s = "s\<lparr>d_impls := ?H1\<rparr>"
  have l: "add_mset Null (add_mset ?hd (links ?H1)) = add_mset d (add_mset this (links ?H))"
    by (rule place_links [OF w(1,6)])
  have "add_mset ?hd (add_mset Null (K + links ?H1)) = add_mset Null (add_mset ?hd (links ?H1)) + K"
    by (simp add: ac_simps)
  also have "\<dots> = add_mset this (add_mset d (K + links ?H))" unfolding l by (simp add: ac_simps)
  finally have all: "add_mset ?hd (add_mset Null (K + links ?H1)) = add_mset this (add_mset d (K + links ?H))" .
  have "counted (add_mset ?hd (add_mset Null (K + links ?H1))) ?H" unfolding all using w(3) by simp
  moreover have "\<exists>r. ranked r ?H1"
  proof (cases at)
    case This
    then show ?thesis using w(4) by (simp add: place_heap_def)
  next
    case (Next_of p)
    obtain r where "ranked r ?H" using w(4) by blast
    from ranked_store [OF this w(1,7), of p d] show ?thesis using w(8) Next_of by simp
  qed
  ultimately have "sound (add_mset ?hd (add_mset Null K)) ?s"
    using w(1,2,3) by (simp add: sound_def place_counted place_heap_sel)
  moreover have "ledger (add_mset ?hd (add_mset Null K)) ?s = D"
    using arg_cong [OF l, of all_owe] w(5) place_owes [OF w(1), of at d] by (simp add: ledger_def ac_simps)
  ultimately show ?thesis using write_place_eq [OF w(6)] by blast
qed

lemma append_loop_ok:
  assumes "walk (d_impls s) nx k" "walking K d D C nx at this s" "d \<noteq> Null"
  shows "\<exists>this1 d1 s1. run (append_round d) (nx, at, this, s) = Some (Inr (this1, d1, s1)) \<and>
    sound (add_mset this1 (add_mset d1 K)) s1 \<and> ledger (add_mset this1 (add_mset d1 K)) s1 = D"
  using assms(1,2)
proof (induction k arbitrary: C nx at this s rule: nat_induct)
  case 0
  then have nx: "nx = Null" by (auto elim: walk.cases)
  obtain this1 s1 where w: "write_place at d this s = Inr (this1, s1)"
    "sound (add_mset this1 (add_mset Null K)) s1" "ledger (add_mset this1 (add_mset Null K)) s1 = D"
    using store_ok 0(2) nx by blast
  have "append_round d (nx, at, this, s) = Inr (Inl (this1, Null, s1))" using nx w(1) by (simp add: append_round_def)
  then show ?case using w(2,3) run_simps(2) by fast
next
  case (Suc k)
  have notnull: "nx \<noteq> Null" using Suc.prems(1) by (auto elim: walk.cases)
  show ?case
  proof (cases "nx = d")
    case True
    then have "append_round d (nx, at, this, s) = Inr (Inl (this, d, s))" using assms(3) by (simp add: append_round_def)
    then show ?thesis using Suc.prems(2) run_simps(2) unfolding walking_def by fast
  next
    case False
    have "\<exists>C1 n this1 s1 nx1. append_round d (nx, at, this, s) = Inr (Inr (nx1, Next_of n, this1, s1)) \<and>
      walking K d D C1 nx1 (Next_of n) this1 s1 \<and> walk (d_impls s1) nx1 k"
    proof (cases nx)
      case Null
      then show ?thesis using notnull by simp
    next
      case (Object p)
      have k: "k = 0" using Suc.prems(1) Object by (auto elim: walk.cases)
      obtain n this1 s1 x where u: "unraw nx at this s = Inr (Impl n, this1, s1)"
        and wn: "walking K d D (insert n C) (Impl n) at this1 s1"
        and x: "d_impls s1 n = Some x" "i_refs x = 1" "i_next x = Null"
        using unraw_ok Suc.prems(2) Object by metis
      note keep = keep_ok [OF wn x(1,2)]
      have "append_round d (nx, at, this, s) = Inr (Inr (i_next x, Next_of n, this1, s1))"
        using False notnull u keep(1) x(1) by (simp add: append_round_def)
      moreover have "walk (d_impls s1) (i_next x) k" using x(3) k walk_Null by simp
      ultimately show ?thesis using keep(2)
        by blast
    next
      case (Impl i)
      obtain x where x: "d_impls s i = Some x" "walk (d_impls s) (i_next x) k"
        using Suc.prems(1) Impl by (auto elim: walk.cases)
      have u: "unraw nx at this s = Inr (Impl i, this, s)" by (simp add: unraw_def Impl)
      note wi = Suc.prems(2) [unfolded Impl]
      show ?thesis
      proof (cases "i_refs x = 1")
        case True
        note keep = keep_ok [OF wi x(1) True]
        have "append_round d (nx, at, this, s) = Inr (Inr (i_next x, Next_of i, this, s))"
          using False notnull u keep(1) x(1) by (simp add: append_round_def)
        then show ?thesis using keep(2) x(2) by blast
      next
        case shared: False
        obtain n this1 s1 y where v: "unshare (Impl i) at this s = Inr (n, this1, s1)" "d_impls s1 n = Some y"
          "walking K d D (insert n C) (i_next y) (Next_of n) this1 s1" "walk (d_impls s1) (i_next y) k"
          using wrap_ok [OF wi x(1) shared x(2)] by blast
        have "append_round d (nx, at, this, s) = Inr (Inr (i_next y, Next_of n, this1, s1))"
          using False notnull u v(1,2) by (simp add: append_round_def)
        then show ?thesis using v(3,4) by blast
      qed
    qed
    then obtain C1 n this1 s1 nx1 where step: "append_round d (nx, at, this, s) = Inr (Inr (nx1, Next_of n, this1, s1))"
      and next_ok: "walking K d D C1 nx1 (Next_of n) this1 s1" "walk (d_impls s1) nx1 k" by blast
    show ?thesis
      using Suc.IH [OF next_ok(2,1)] run_simps(3) [of "append_round d" "(nx, at, this, s)", OF step] by simp
  qed
qed

lemma append_ok:
  assumes "sound (add_mset this (add_mset d K)) s"
  shows "\<exists>this1 s1. append_deleter this d s = Some (Inr (this1, s1)) \<and>
    sound (add_mset this1 K) s1 \<and> ledger (add_mset this1 K) s1 = ledger (add_mset this (add_mset d K)) s"
proof -
  let ?D = "ledger (add_mset this (add_mset d K)) s"
  have "\<exists>this1 d1 s1. append_loop this d s = Some (Inr (this1, d1, s1)) \<and>
    sound (add_mset this1 (add_mset d1 K)) s1 \<and> ledger (add_mset this1 (add_mset d1 K)) s1 = ?D"
  proof (cases "d = Null")
    case True
    then show ?thesis using assms by (simp add: append_loop_def)
  next
    case False
    have w: "walking K d ?D {} this This this s" using assms by (simp add: walking_def solo_def at_place_def)
    obtain r where "ranked r (d_impls s)" using walkingD(4) [OF w] by blast
    from walk_exists [OF this walkingD(3) [OF w] _ walkingD(1) [OF w], of this]
    obtain k where "walk (d_impls s) this k" by auto
    from append_loop_ok [OF this w False] show ?thesis using False by (simp add: append_loop_def)
  qed
  then obtain this1 d1 s1 where l: "append_loop this d s = Some (Inr (this1, d1, s1))"
    "sound (add_mset this1 (add_mset d1 K)) s1" "ledger (add_mset this1 (add_mset d1 K)) s1 = ?D" by blast
  obtain s2 where "destroy d1 s1 = Some (Inr s2)" "sound (add_mset this1 K) s2"
    "ledger (add_mset this1 K) s2 = ledger (add_mset d1 (add_mset this1 K)) s1"
    using destroy_ok [of d1 "add_mset this1 K" s1] l(2) by (auto simp: add_mset_commute)
  then show ?thesis using l by (simp add: append_deleter_def add_mset_commute)
qed

end
