(* ===== verification/Deleter_Props.thy ===== *)
theory Deleter_Props
  imports Deleter_Append
begin

text \<open>
  Programs that use deleters: every handle they hold is a variable of a list, and every action that
  was put into a deleter runs exactly once.
\<close>

subsection \<open>Sharing\<close>

lemma sound_Null [simp]: "sound (add_mset Null A) s = sound A s"
  by (simp add: sound_def counted_other)

lemma ledger_Null [simp]: "ledger (add_mset Null A) s = ledger A s"
  by (simp add: ledger_def)

lemma Null_inside [simp]:
  "sound (add_mset (Impl n) (add_mset Null A)) s = sound (add_mset (Impl n) A) s"
  "ledger (add_mset (Impl n) (add_mset Null A)) s = ledger (add_mset (Impl n) A) s"
  by (simp_all add: add_mset_commute [of "Impl n" Null])

text \<open>A new implementation takes a handle over and owes its own effect.\<close>

lemma new_ok:
  assumes "sound (add_mset d K) s" "owned_handles own = []"
  shows "\<exists>n s1. new_impl d own s = (n, s1) \<and> d_impls s1 n = Some \<lparr>i_refs = 1, i_next = d, i_owned = own\<rparr> \<and>
    sound (add_mset (Impl n) K) s1 \<and> ledger (add_mset (Impl n) K) s1 = ledger (add_mset d K) s + owes own"
proof -
  let ?H = "d_impls s" and ?n = "d_fresh s" and ?y = "\<lparr>i_refs = 1, i_next = d, i_owned = own\<rparr>"
  let ?s = "s\<lparr>d_impls := ?H(?n \<mapsto> ?y), d_fresh := Suc ?n\<rparr>"
  have fin: "finite (dom ?H)" "dom ?H \<subseteq> {..< ?n}" and cnt: "counted (add_mset d K + links ?H) ?H"
    using assms(1) by (auto simp: sound_def)
  have new: "?H ?n = None" using fin(2) by auto
  obtain r where r: "ranked r ?H" using assms(1) by (auto simp: sound_def)
  have h: "handles ?y = {#d#}" using assms(2) by (simp add: handles_def)
  have l: "links (?H(?n \<mapsto> ?y)) = add_mset d (links ?H)" using msum_new [OF fin(1) new, of handles ?y] h by (simp add: links_def)
  define r' where "r' = (\<lambda>j. if j = ?n then (case d of Impl k \<Rightarrow> Suc (r k) | _ \<Rightarrow> 0) else r j)"
  have "ranked r' (?H(?n \<mapsto> ?y))"
    unfolding ranked_def
  proof (intro allI impI)
    fix i x j assume x: "(?H(?n \<mapsto> ?y)) i = Some x" and j: "Impl j \<in># handles x"
    have "Impl j \<in># add_mset d K + links ?H"
    proof (cases "i = ?n")
      case True
      then show ?thesis using x j h by auto
    next
      case False
      then show ?thesis using x j links_del [OF fin(1), of i x] by simp
    qed
    then have "j \<noteq> ?n" using counted_dom [OF cnt, of j] new by auto
    then show "r' j < r' i" using x j h r by (auto simp: r'_def ranked_def split: if_splits)
  qed
  moreover have "counted (add_mset (Impl ?n) (K + links (?H(?n \<mapsto> ?y)))) (?H(?n \<mapsto> ?y))"
    using counted_new [OF cnt new, of ?y] l by simp
  ultimately have "sound (add_mset (Impl ?n) K) ?s" using fin by (auto simp: sound_def)
  moreover have "ledger (add_mset (Impl ?n) K) ?s = ledger (add_mset d K) s + owes own"
    using l msum_new [OF fin(1) new, of "owes \<circ> i_owned" ?y] by (simp add: ledger_def)
  ultimately show ?thesis using new_impl_eq [of d own s] by auto
qed

text \<open>The counter of a handle's implementation is not at its maximum.\<close>

definition can_share :: "dref \<Rightarrow> dheap \<Rightarrow> bool" where
  "can_share d s \<longleftrightarrow>
    (case d of Impl i \<Rightarrow> (case d_impls s i of None \<Rightarrow> True | Some x \<Rightarrow> i_refs x + 1 \<noteq> 0) | _ \<Rightarrow> True)"

lemma count_more:
  assumes "sound (add_mset (Impl i) K) s" "d_impls s i = Some x" "i_refs x + 1 \<noteq> 0"
  shows "sound (add_mset (Impl i) (add_mset (Impl i) K)) (put_impl i (x\<lparr>i_refs := i_refs x + 1\<rparr>) s)"
    "ledger (add_mset (Impl i) (add_mset (Impl i) K)) (put_impl i (x\<lparr>i_refs := i_refs x + 1\<rparr>) s) =
      ledger (add_mset (Impl i) K) s"
proof -
  let ?H = "d_impls s" and ?A = "add_mset (Impl i) K + links (d_impls s)"
  have fin: "finite (dom ?H)" "dom ?H \<subseteq> {..< d_fresh s}" and cnt: "counted ?A ?H"
    using assms(1) by (auto simp: sound_def)
  obtain r where r: "ranked r ?H" using assms(1) by (auto simp: sound_def)
  have l: "links (?H(i \<mapsto> x\<lparr>i_refs := i_refs x + 1\<rparr>)) = links ?H" by (rule links_same [OF fin(1) assms(2)]) simp
  have c: "i_refs x = of_nat (count ?A (Impl i))" "count ?A (Impl i) < 2 ^ 32" using countedD [OF cnt assms(2)] by blast+
  have "Suc (count ?A (Impl i)) < 2 ^ 32"
  proof (rule ccontr)
    assume "\<not> Suc (count ?A (Impl i)) < 2 ^ 32"
    then have "count ?A (Impl i) = 4294967295" using c(2) by simp
    then have "i_refs x = 4294967295" unfolding c(1) by (simp only: of_nat_numeral)
    then show False using assms(3) by simp
  qed
  then have "counted (add_mset (Impl i) ?A) (?H(i \<mapsto> x\<lparr>i_refs := i_refs x + 1\<rparr>))"
    by (rule counted_more [OF cnt assms(2)])
  then show "sound (add_mset (Impl i) (add_mset (Impl i) K)) (put_impl i (x\<lparr>i_refs := i_refs x + 1\<rparr>) s)"
    using fin l assms(2) ranked_less [OF r assms(2) handles_refs] by (auto simp: sound_def insert_absorb)
  show "ledger (add_mset (Impl i) (add_mset (Impl i) K)) (put_impl i (x\<lparr>i_refs := i_refs x + 1\<rparr>) s) =
      ledger (add_mset (Impl i) K) s"
    using l msum_same [OF fin(1) assms(2), of "owes \<circ> i_owned" "x\<lparr>i_refs := i_refs x + 1\<rparr>"] by (simp add: ledger_def)
qed

lemma share_ok:
  assumes "sound (add_mset d K) s" "can_share d s"
  shows "\<exists>d1 d2 s1. share d s = Inr (d1, d2, s1) \<and>
    sound (add_mset d1 (add_mset d2 K)) s1 \<and> ledger (add_mset d1 (add_mset d2 K)) s1 = ledger (add_mset d K) s"
proof (cases d)
  case Null
  then show ?thesis using assms(1) by (simp add: share_def)
next
  case (Object p)
  have "sound (add_mset Null K) s" using assms(1) Object by (simp add: sound_def counted_other)
  from new_ok [OF this, of "Frees p"] obtain n s1 where n: "new_impl Null (Frees p) s = (n, s1)"
    "d_impls s1 n = Some \<lparr>i_refs = 1, i_next = Null, i_owned = Frees p\<rparr>" "sound (add_mset (Impl n) K) s1"
    "ledger (add_mset (Impl n) K) s1 = ledger (add_mset Null K) s + owes (Frees p)"
    by (auto simp: owned_handles_def)
  have "ledger (add_mset Null K) s + owes (Frees p) = ledger (add_mset d K) s"
    using Object by (simp add: ledger_def owes_def)
  then show ?thesis using count_more [OF n(3,2)] n(1,2,4) Object by (simp add: share_def)
next
  case (Impl i)
  have "i \<in> dom (d_impls s)" using assms(1) Impl counted_dom [of _ "d_impls s" i] by (auto simp: sound_def counted_def)
  then obtain x where x: "d_impls s i = Some x" by blast
  then have "i_refs x + 1 \<noteq> 0" using assms(2) Impl by (simp add: can_share_def)
  then show ?thesis using count_more [of i K s x] assms(1) x Impl by (simp add: share_def)
qed

subsection \<open>Programs\<close>

text \<open>
  The operations name the variables by their positions. A value that is passed is moved out of its
  variable, which is null from then on; a new handle gets a new variable; \<open>Drop\<close> is the end of one.
\<close>

datatype dop =
    Default
  | New_lambda nat nat | New_object nat nat | New_free nat | New_free_next nat nat
  | Share nat | Assign nat nat | Append nat nat | Reset nat nat | Drop nat

definition exec_dop :: "dop \<Rightarrow> dref list \<times> dheap \<Rightarrow> (exn + dref list \<times> dheap) option" where
  "exec_dop p t =
    (case t of (hs, s) \<Rightarrow>
      case p of
        Default \<Rightarrow> Some (Inr (hs @ [Null], s))
      | New_lambda k f \<Rightarrow> (case make_deleter (hs ! k) f s of (d, s) \<Rightarrow> Some (Inr (hs[k := Null] @ [d], s)))
      | New_object k x \<Rightarrow> (case make_object_deleter (hs ! k) x s of (d, s) \<Rightarrow> Some (Inr (hs[k := Null] @ [d], s)))
      | New_free a \<Rightarrow> Some (Inr (hs @ [make_free_deleter a], s))
      | New_free_next k a \<Rightarrow>
          (case make_free_deleter_next (hs ! k) a s of (d, s) \<Rightarrow> Some (Inr (hs[k := Null] @ [d], s)))
      | Share k \<Rightarrow> (case share (hs ! k) s of Inl e \<Rightarrow> Some (Inl e) | Inr (this, d, s) \<Rightarrow> Some (Inr (hs[k := this] @ [d], s)))
      | Assign k j \<Rightarrow>
          if k = j then Some (Inr (hs, s))
          else rbind (assign_move (hs ! k) (hs ! j) s) (\<lambda>(this, other, s). Some (Inr (hs[k := this, j := other], s)))
      | Append k j \<Rightarrow>
          let d = hs ! j; hs = hs[j := Null] in
          rbind (append_deleter (hs ! k) d s) (\<lambda>(this, s). Some (Inr (hs[k := this], s)))
      | Reset k f \<Rightarrow>
          (case new_impl Null (Call f) s of (n, s) \<Rightarrow>
            rbind (reset_to (hs ! k) (Impl n) s) (\<lambda>(this, s). Some (Inr (hs[k := this], s))))
      | Drop k \<Rightarrow> rbind (destroy (hs ! k) s) (\<lambda>s. Some (Inr (take k hs @ drop (Suc k) hs, s))))"

definition dop_ok :: "dop \<Rightarrow> dref list \<times> dheap \<Rightarrow> bool" where
  "dop_ok p t =
    (case t of (hs, s) \<Rightarrow>
      case p of Default \<Rightarrow> True | New_free a \<Rightarrow> True
      | New_lambda k f \<Rightarrow> k < length hs | New_object k x \<Rightarrow> k < length hs | New_free_next k a \<Rightarrow> k < length hs
      | Share k \<Rightarrow> k < length hs \<and> can_share (hs ! k) s
      | Assign k j \<Rightarrow> k < length hs \<and> j < length hs | Append k j \<Rightarrow> k < length hs \<and> j < length hs
      | Reset k f \<Rightarrow> k < length hs | Drop k \<Rightarrow> k < length hs)"

text \<open>What an operation puts into the chains.\<close>

definition brings :: "dop \<Rightarrow> effect multiset" where
  "brings p =
    (case p of New_lambda k f \<Rightarrow> {#Called f#} | New_object k x \<Rightarrow> {#Destroyed x#}
     | New_free a \<Rightarrow> (if a = 0 then {#} else {#Freed a#}) | New_free_next k a \<Rightarrow> {#Freed a#}
     | Reset k f \<Rightarrow> {#Called f#} | _ \<Rightarrow> {#})"

inductive dprogram :: "dop list \<Rightarrow> dref list \<times> dheap \<Rightarrow> bool" where
  start: "dprogram [] ([], \<lparr>d_impls = Map.empty, d_fresh = 0, d_log = []\<rparr>)"
| step: "dprogram ps t \<Longrightarrow> dop_ok p t \<Longrightarrow> exec_dop p t = Some (Inr t') \<Longrightarrow> dprogram (ps @ [p]) t'"

lemma dprogram_then:
  "dprogram ps t \<Longrightarrow> dop_ok p t \<Longrightarrow> exec_dop p t = Some (Inr t') \<Longrightarrow> qs = ps @ [p] \<Longrightarrow> dprogram qs t'"
  using dprogram.step by blast

subsection \<open>Every operation keeps the counters and the ledger\<close>

definition others :: "nat \<Rightarrow> dref list \<Rightarrow> dref multiset" where
  "others k hs = mset (take k hs) + mset (drop (Suc k) hs)"

lemma others_split: "k < length hs \<Longrightarrow> mset hs = add_mset (hs ! k) (others k hs)"
  using arg_cong [OF id_take_nth_drop, of k hs mset] by (simp add: others_def)

lemma others_same [simp]: "others k (hs[k := d]) = others k hs"
  by (simp add: others_def)

lemma others_set: "k < length hs \<Longrightarrow> mset (hs[k := d]) = add_mset d (others k hs)"
  by (simp add: upd_conv_take_nth_drop others_def)

definition keeps :: "dop \<Rightarrow> dref list \<times> dheap \<Rightarrow> dref list \<times> dheap \<Rightarrow> bool" where
  "keeps p t t' \<longleftrightarrow> sound (mset (fst t')) (snd t') \<and>
    ledger (mset (fst t')) (snd t') = ledger (mset (fst t)) (snd t) + brings p"

lemma exec_new_ok:
  assumes "sound (mset hs) s" "k < length hs" "owned_handles own = []"
  shows "\<exists>n s1. new_impl (hs ! k) own s = (n, s1) \<and> sound (mset (hs[k := Null] @ [Impl n])) s1 \<and>
    ledger (mset (hs[k := Null] @ [Impl n])) s1 = ledger (mset hs) s + owes own"
  using new_ok [of "hs ! k" "others k hs" s own] assms
  by (auto simp: others_split [OF assms(2)] others_set [OF assms(2)])

lemma exec_ok:
  assumes s: "sound (mset hs) s" and ok: "dop_ok p (hs, s)"
  shows "\<exists>t'. exec_dop p (hs, s) = Some (Inr t') \<and> keeps p (hs, s) t'"
proof (cases p)
  case Default
  then show ?thesis using s by (simp add: exec_dop_def keeps_def brings_def)
next
  case (New_lambda k f)
  then show ?thesis
    using exec_new_ok [OF s, of k "Call f"] ok
    by (auto simp: exec_dop_def dop_ok_def keeps_def brings_def owes_def make_deleter_def owned_handles_def)
next
  case (New_object k x)
  then show ?thesis
    using exec_new_ok [OF s, of k "Holds x"] ok
    by (auto simp: exec_dop_def dop_ok_def keeps_def brings_def owes_def make_object_deleter_def owned_handles_def)
next
  case (New_free a)
  have "sound (add_mset (Object a) (mset hs)) s" using s by (simp add: sound_def counted_other)
  moreover have "ledger (add_mset (Object a) (mset hs)) s = add_mset (Freed a) (ledger (mset hs) s)" by (simp add: ledger_def)
  ultimately show ?thesis using New_free s by (simp add: exec_dop_def keeps_def brings_def make_free_deleter_def)
next
  case (New_free_next k a)
  then show ?thesis
    using exec_new_ok [OF s, of k "Frees a"] ok
    by (auto simp: exec_dop_def dop_ok_def keeps_def brings_def owes_def make_free_deleter_next_def owned_handles_def)
next
  case (Share k)
  have k: "k < length hs" "can_share (hs ! k) s" using ok Share by (simp_all add: dop_ok_def)
  then show ?thesis
    using share_ok [of "hs ! k" "others k hs" s] s Share
    by (auto simp: exec_dop_def keeps_def brings_def others_split others_set add_mset_commute)
next
  case (Assign k j)
  have k: "k < length hs" "j < length hs" using ok Assign by (simp_all add: dop_ok_def)
  show ?thesis
  proof (cases "k = j")
    case True
    then show ?thesis using s Assign by (simp add: exec_dop_def keeps_def brings_def)
  next
    case False
    obtain s1 where "destroy (hs ! k) s = Some (Inr s1)" "sound (others k hs) s1"
      "ledger (others k hs) s1 = ledger (mset hs) s"
      using destroy_ok [of "hs ! k" "others k hs" s] s by (auto simp: others_split [OF k(1)])
    moreover have "mset (hs[k := hs ! j, j := Null]) = add_mset Null (others k hs)"
    proof -
      have "mset (hs[k := hs ! j]) = add_mset (hs ! j) (others j (hs[k := hs ! j]))"
        using others_split [of j "hs[k := hs ! j]"] k False by simp
      then have "others j (hs[k := hs ! j]) = others k hs" using others_set [OF k(1), of "hs ! j"] by simp
      then show ?thesis using others_set [of j "hs[k := hs ! j]" Null] k(2) by simp
    qed
    ultimately show ?thesis using Assign False by (simp add: exec_dop_def keeps_def brings_def assign_move_def)
  qed
next
  case (Append k j)
  let ?hs = "hs[j := Null]"
  have k: "k < length ?hs" "j < length hs" using ok Append by (simp_all add: dop_ok_def)
  have e: "add_mset (?hs ! k) (add_mset (hs ! j) (others k ?hs)) = add_mset Null (mset hs)"
    using others_split [OF k(1)] others_set [OF k(2), of Null] others_split [OF k(2)] by (simp add: add_mset_commute)
  obtain d s1 where "append_deleter (?hs ! k) (hs ! j) s = Some (Inr (d, s1))" "sound (add_mset d (others k ?hs)) s1"
    "ledger (add_mset d (others k ?hs)) s1 = ledger (mset hs) s"
    using append_ok [of "?hs ! k" "hs ! j" "others k ?hs" s] s unfolding e by auto
  then show ?thesis using Append others_set [OF k(1)] by (simp add: exec_dop_def keeps_def brings_def Let_def)
next
  case (Reset k f)
  have k: "k < length hs" using ok Reset by (simp add: dop_ok_def)
  obtain n s1 where n: "new_impl Null (Call f) s = (n, s1)" "sound (add_mset (Impl n) (mset hs)) s1"
    "ledger (add_mset (Impl n) (mset hs)) s1 = ledger (mset hs) s + {#Called f#}"
    using new_ok [of Null "mset hs" s "Call f"] s by (auto simp: owned_handles_def owes_def)
  obtain s2 where "destroy (hs ! k) s1 = Some (Inr s2)" "sound (add_mset (Impl n) (others k hs)) s2"
    "ledger (add_mset (Impl n) (others k hs)) s2 = ledger (add_mset (Impl n) (mset hs)) s1"
    using destroy_ok [of "hs ! k" "add_mset (Impl n) (others k hs)" s1] n(2)
    by (auto simp: others_split [OF k] add_mset_commute)
  then show ?thesis using Reset n(1,3) others_set [OF k] by (simp add: exec_dop_def keeps_def brings_def reset_to_def)
next
  case (Drop k)
  have k: "k < length hs" using ok Drop by (simp add: dop_ok_def)
  obtain s1 where "destroy (hs ! k) s = Some (Inr s1)" "sound (others k hs) s1" "ledger (others k hs) s1 = ledger (mset hs) s"
    using destroy_ok [of "hs ! k" "others k hs" s] s by (auto simp: others_split [OF k])
  then show ?thesis using Drop by (simp add: exec_dop_def keeps_def brings_def others_def)
qed

lemma program_sound:
  assumes "dprogram ps t"
  shows "sound (mset (fst t)) (snd t) \<and> ledger (mset (fst t)) (snd t) = \<Sum>\<^sub># (mset (map brings ps))"
  using assms
proof (induction rule: dprogram.induct)
  case start
  show ?case by (auto simp: sound_def ledger_def links_def counted_def ranked_def)
next
  case (step ps t p t')
  obtain hs s where t: "t = (hs, s)" by (cases t)
  obtain t1 where "exec_dop p t = Some (Inr t1)" "keeps p t t1" using exec_ok [of hs s p] step.IH step.hyps(2) t by auto
  then show ?case using step.IH step.hyps(3) by (simp add: keeps_def add.commute)
qed

lemma no_handles_empty:
  assumes "sound A s" "\<And>i. Impl i \<notin># A"
  shows "d_impls s = Map.empty"
proof (rule ccontr)
  let ?H = "d_impls s"
  assume "?H \<noteq> Map.empty"
  then have ne: "dom ?H \<noteq> {}" by simp
  have fin: "finite (dom ?H)" and cnt: "counted (A + links ?H) ?H" using assms(1) by (auto simp: sound_def)
  obtain r where r: "ranked r ?H" using assms(1) by (auto simp: sound_def)
  obtain i where i: "i \<in> dom ?H" "\<And>j. j \<in> dom ?H \<Longrightarrow> r j \<le> r i"
    using ne fin obtains_MAX [OF fin ne, of r] by (metis Max_ge finite_imageI imageI)
  then obtain x where x: "?H i = Some x" by blast
  have "Impl i \<in># links ?H" using countedD(2) [OF cnt x] assms(2) [of i] by (simp add: not_in_iff)
  then have "\<exists>j \<in> dom ?H. Impl i \<in># handles (the (?H j))"
    using fin by (simp add: links_def msum_def set_mset_sum)
  then obtain j y where "?H j = Some y" "Impl i \<in># handles y" by auto
  then show False using r i(2) [of j] by (fastforce simp: ranked_def)
qed

subsection \<open>Properties\<close>

text \<open>
  C15 (safety). In a program that passes existing variables and does not share an implementation
  $2^{32} - 1$ times over, every next operation on deleters returns and touches no freed
  implementation: its loops end, and no step of it is undefined.
\<close>

theorem deleter_never_stuck:
  assumes "dprogram ps t" "dop_ok p t"
  shows "\<exists>t'. exec_dop p t = Some (Inr t') \<and> dprogram (ps @ [p]) t'"
proof -
  obtain hs s where t: "t = (hs, s)" by (cases t)
  obtain t' where "exec_dop p t = Some (Inr t')"
    using exec_ok [of hs s p] program_sound [OF assms(1)] assms(2) t by auto
  then show ?thesis using dprogram.step [OF assms] by blast
qed

text \<open>
  C14 (invariant). At every moment an action has run at most as often as it was put into a deleter, and
  when all variables have gone, no implementation is left in memory and every action has run exactly
  as often as it was put in: \<^verbatim>\<open>share\<close>, \<^verbatim>\<open>append\<close> and assignment lose none and repeat none.
\<close>

theorem deleter_runs_all_once:
  assumes "dprogram ps (hs, s)"
  shows "mset (d_log s) \<subseteq># \<Sum>\<^sub># (mset (map brings ps)) \<and>
    ((\<forall>d \<in> set hs. d = Null) \<longrightarrow> d_impls s = Map.empty \<and> mset (d_log s) = \<Sum>\<^sub># (mset (map brings ps)))"
proof -
  have s: "sound (mset hs) s" and l: "ledger (mset hs) s = \<Sum>\<^sub># (mset (map brings ps))"
    using program_sound [OF assms] by simp_all
  have "mset (d_log s) = \<Sum>\<^sub># (mset (map brings ps))" if null: "\<forall>d \<in> set hs. d = Null" and e: "d_impls s = Map.empty"
  proof -
    have "all_owe (mset hs) = {#}" using null by (induction hs) auto
    then show ?thesis using l e by (simp add: ledger_def links_def)
  qed
  moreover have "d_impls s = Map.empty" if "\<forall>d \<in> set hs. d = Null"
    by (rule no_handles_empty [OF s]) (use that in auto)
  moreover have "mset (d_log s) \<subseteq># ledger (mset hs) s"
    unfolding ledger_def add.assoc by (rule mset_subset_eq_add_left)
  ultimately show ?thesis using l by simp
qed

text \<open>
  Sharing does not protect a whole chain against \<^verbatim>\<open>append\<close>: a deleter that does \<open>a\<close> and then
  \<open>b\<close> is shared, one of the two handles has \<open>c\<close> appended and is destroyed, and \<open>b\<close> has run although the
  other handle still exists; only \<open>a\<close> waits for it.
\<close>

lemma share_append_runs_early:
  "\<exists>hs s. dprogram [Default, New_lambda 0 b, New_lambda 1 a, Share 2, New_lambda 0 c, Append 2 4, Drop 2] (hs, s) \<and>
    hs ! 2 = Impl 1 \<and> d_log s = [Called b, Called c] \<and>
    d_impls s = [1 \<mapsto> \<lparr>i_refs = 1, i_next = Null, i_owned = Call a\<rparr>]"
proof -
  note ev = exec_dop_def dop_ok_def can_share_def make_deleter_def new_impl_eq share_def put_impl_def Let_def
    append_deleter_def append_loop_def append_round_def unraw_def unshare_def write_place_def
    destroy_def destroy_round_def free_impl_def run_owned_def log_effect_def owned_handles_def run.simps
  let ?n = "\<lambda>d f. \<lparr>i_refs = 1, i_next = d, i_owned = Call f\<rparr>"
  have 1: "dprogram [Default] ([Null], \<lparr>d_impls = Map.empty, d_fresh = 0, d_log = []\<rparr>)"
    by (rule dprogram_then [OF dprogram.start]) (simp_all add: ev)
  have 2: "dprogram [Default, New_lambda 0 b] ([Null, Impl 0], \<lparr>d_impls = [0 \<mapsto> ?n Null b], d_fresh = 1, d_log = []\<rparr>)"
    by (rule dprogram_then [OF 1]) (simp_all add: ev)
  have 3: "dprogram [Default, New_lambda 0 b, New_lambda 1 a]
      ([Null, Null, Impl 1], \<lparr>d_impls = [0 \<mapsto> ?n Null b, 1 \<mapsto> ?n (Impl 0) a], d_fresh = 2, d_log = []\<rparr>)"
    by (rule dprogram_then [OF 2]) (simp_all add: ev)
  have shared: "dprogram [Default, New_lambda 0 b, New_lambda 1 a, Share 2]
      ([Null, Null, Impl 1, Impl 1],
       \<lparr>d_impls = [0 \<mapsto> ?n Null b, 1 \<mapsto> (?n (Impl 0) a)\<lparr>i_refs := 2\<rparr>], d_fresh = 2, d_log = []\<rparr>)"
    by (rule dprogram_then [OF 3]) (simp_all add: ev)
  have 4: "dprogram [Default, New_lambda 0 b, New_lambda 1 a, Share 2, New_lambda 0 c]
      ([Null, Null, Impl 1, Impl 1, Impl 2],
       \<lparr>d_impls = [0 \<mapsto> ?n Null b, 1 \<mapsto> (?n (Impl 0) a)\<lparr>i_refs := 2\<rparr>, 2 \<mapsto> ?n Null c], d_fresh = 3, d_log = []\<rparr>)"
    by (rule dprogram_then [OF shared]) (simp_all add: ev)
  have 5: "dprogram [Default, New_lambda 0 b, New_lambda 1 a, Share 2, New_lambda 0 c, Append 2 4]
      ([Null, Null, Impl 3, Impl 1, Null],
       \<lparr>d_impls = [0 \<mapsto> ?n (Impl 2) b, 1 \<mapsto> (?n Null a)\<lparr>i_refs := 2\<rparr>, 2 \<mapsto> ?n Null c,
          3 \<mapsto> \<lparr>i_refs = 1, i_next = Impl 0, i_owned = Release (Impl 1)\<rparr>], d_fresh = 4, d_log = []\<rparr>)"
    by (rule dprogram_then [OF 4]) (simp_all add: ev fun_eq_iff)
  have "dprogram [Default, New_lambda 0 b, New_lambda 1 a, Share 2, New_lambda 0 c, Append 2 4, Drop 2]
      ([Null, Null, Impl 1, Null], \<lparr>d_impls = [1 \<mapsto> ?n Null a], d_fresh = 4, d_log = [Called b, Called c]\<rparr>)"
    by (rule dprogram_then [OF 5]) (simp_all add: ev fun_eq_iff)
  then show ?thesis by (intro exI conjI, assumption, simp_all)
qed

lemma deleter_never_stuck_witness:
  "\<exists>t'. exec_dop (Append 0 1) ([Null, Object 8], \<lparr>d_impls = Map.empty, d_fresh = 0, d_log = []\<rparr>) = Some (Inr t') \<and>
    dprogram [Default, New_free 8, Append 0 1] t'"
proof -
  have "dprogram [Default] ([Null], \<lparr>d_impls = Map.empty, d_fresh = 0, d_log = []\<rparr>)"
    by (rule dprogram_then [OF dprogram.start]) (simp_all add: dop_ok_def exec_dop_def)
  then have "dprogram [Default, New_free 8] ([Null, Object 8], \<lparr>d_impls = Map.empty, d_fresh = 0, d_log = []\<rparr>)"
    by (rule dprogram_then) (simp_all add: dop_ok_def exec_dop_def make_free_deleter_def)
  then show ?thesis using deleter_never_stuck [of "[Default, New_free 8]" _ "Append 0 1"] by (simp add: dop_ok_def)
qed

lemma deleter_runs_all_once_witness:
  "\<exists>s. dprogram [New_free 7, Drop 0] ([], s) \<and> d_impls s = Map.empty \<and> mset (d_log s) = {#Freed 7#}"
proof -
  have "dprogram [New_free 7] ([Object 7], \<lparr>d_impls = Map.empty, d_fresh = 0, d_log = []\<rparr>)"
    by (rule dprogram_then [OF dprogram.start]) (simp_all add: dop_ok_def exec_dop_def make_free_deleter_def)
  then have p: "dprogram [New_free 7, Drop 0] ([], \<lparr>d_impls = Map.empty, d_fresh = 0, d_log = [Freed 7]\<rparr>)"
    by (rule dprogram_then)
      (simp_all add: dop_ok_def exec_dop_def destroy_def run.simps destroy_round_def log_effect_def)
  then show ?thesis using deleter_runs_all_once [OF p] by (auto simp: brings_def)
qed

end
