(* ===== verification/List_Base64.thy ===== *)
theory List_Base64
  imports Buffer_Cut_Props Armor
begin

text \<open>
  A list in base64 (\<^verbatim>\<open>list::encode_base64\<close>, \<^verbatim>\<open>list::decode_base64\<close>): the armor of a list's bytes is written
  into a new raw, which another list takes over.
\<close>

subsection \<open>Encoding and decoding\<close>

text \<open>The bytes between \<^verbatim>\<open>c_str()\<close> and \<^verbatim>\<open>c_str() + length()\<close>.\<close>

definition bytes_from :: "(nat \<times> nat) option \<Rightarrow> nat \<Rightarrow> mem \<Rightarrow> exn + bytes" where
  "bytes_from pos len m =
    (case pos of None \<Rightarrow> if len = 0 then Inr [] else Inl Undefined | Some (r, off) \<Rightarrow> raw_read m r off len)"

definition encode_base64 :: "blist \<Rightarrow> blist \<Rightarrow> mem \<Rightarrow> exn + (blist \<times> blist) \<times> mem" where
  "encode_base64 b waiting_encode_list m =
    ebind (ptr_of_len (add64 (mul64 (b_len b) 4 div 3) 3) m) (\<lambda>(bptr, m).
    ebind (c_str m bptr) (\<lambda>(r, dst).
    ebind (ptr_length m bptr) (\<lambda>room.
    ebind (blist_c_str b m) (\<lambda>(src, b, m).
    ebind (blist_c_str b m) (\<lambda>(_, b, m).
    ebind (bytes_from src (b_len b) m) (\<lambda>bs.
    case spec_armor room bs of (len, out) \<Rightarrow>
    ebind (raw_write r dst out m) (\<lambda>m.
    ebind (set_length bptr len m) (\<lambda>m.
    ebind (blist_push_back_move bptr waiting_encode_list m) (\<lambda>(waiting_encode_list, m).
    ebind (ptr_destroy bptr m) (\<lambda>m. Inr ((b, waiting_encode_list), m)))))))))))"

definition decode_base64 :: "blist \<Rightarrow> blist \<Rightarrow> mem \<Rightarrow> exn + (blist \<times> blist) \<times> mem" where
  "decode_base64 b encoded_list m =
    ebind (ptr_of_len (add64 4 (mul64 (b_len encoded_list) 3 div 4)) m) (\<lambda>(bptr, m).
    ebind (c_str m bptr) (\<lambda>(r, dst).
    ebind (ptr_length m bptr) (\<lambda>room.
    ebind (blist_c_str encoded_list m) (\<lambda>(src, encoded_list, m).
    ebind (blist_c_str encoded_list m) (\<lambda>(_, encoded_list, m).
    ebind (bytes_from src (b_len encoded_list) m) (\<lambda>bs.
    case spec_unarmor room bs of (len, out) \<Rightarrow>
    ebind (raw_write r dst out m) (\<lambda>m.
    if len < 0 then Inl Malformed_input
    else
      ebind (spec_assert (len \<le> int room)) (\<lambda>_.
      ebind (set_length bptr (nat len) m) (\<lambda>m.
      ebind (blist_push_back_move bptr b m) (\<lambda>(b, m).
      ebind (ptr_destroy bptr m) (\<lambda>m. Inr ((b, encoded_list), m))))))))))))"

subsection \<open>Where the contents start\<close>

lemma old_windows_refl [simp]: "old_windows m m"
  by (simp add: old_windows_def)

definition starts_at :: "(nat \<times> nat) option \<Rightarrow> blist \<Rightarrow> mem \<Rightarrow> bool" where
  "starts_at pos b m \<longleftrightarrow>
    (case pos of None \<Rightarrow> bufs b = []
     | Some (r, off) \<Rightarrow> \<exists>i p. bufs b = [i] \<and> m_ptrs m i = Some p \<and> p_raw p = Some r \<and> p_off p = off)"

lemma c_str_one:
  assumes "wf_nodes m b" "length (bufs b) \<le> 1"
  shows "\<exists>pos. blist_c_str b m = Inr (pos, b, m) \<and> starts_at pos b m"
proof (cases "bufs b")
  case Nil
  then show ?thesis by (simp add: blist_c_str_def starts_at_def)
next
  case (Cons i js)
  then have one: "bufs b = [i]" using assms(2) by simp
  obtain p r where p: "m_ptrs m i = Some p" "p_raw p = Some r"
    using wf_nodesD(2) [OF assms(1), of i] one by (auto simp: has_raw_def)
  then have "blist_c_str b m = Inr (Some (r, p_off p), b, m)"
    using one by (simp add: blist_c_str_def blist_front_def c_str_def ptr_raw_def ptr_at_def)
  then show ?thesis using p one by (auto simp: starts_at_def)
qed

lemma blist_c_str_ok:
  assumes "ready b m" "b_len b \<noteq> 0 \<or> length (bufs b) \<le> 1"
  shows "\<exists>pos b' m'. blist_c_str b m = Inr (pos, b', m') \<and> becomes b m (bl_bytes m b) b' m' \<and>
    old_windows m m' \<and> length (bufs b') \<le> 1 \<and> starts_at pos b' m' \<and> blist_c_str b' m' = Inr (pos, b', m')"
proof (cases "length (bufs b) \<le> 1")
  case True
  obtain pos where "blist_c_str b m = Inr (pos, b, m)" "starts_at pos b m"
    using c_str_one [OF readyD(3) [OF assms(1)] True] by blast
  then show ?thesis
    using True turns_refl [OF readyD(1,3) [OF assms(1)]] readyD(4) [OF assms(1)]
    by (intro exI [of _ pos] exI [of _ b] exI [of _ m]) (simp add: becomes_def)
next
  case False
  then have len: "b_len b \<noteq> 0" using assms(2) by simp
  obtain b' m' where r: "blist_rebuild b m = Inr (b', m')" "becomes b m (bl_bytes m b) b' m'"
    "length (bufs b') = 1" "old_windows m m'"
    using blist_rebuild_ok [OF assms(1)] len by auto
  have "wf_nodes m' b'" using becomes_wf [OF r(2)] by (simp add: wf_list_def)
  then obtain pos where pos: "blist_c_str b' m' = Inr (pos, b', m')" "starts_at pos b' m'"
    using c_str_one r(3) by (metis order_refl)
  have ne: "bufs b \<noteq> []" "bufs b' \<noteq> []" using False r(3) by auto
  have "blist_c_str b m = blist_c_str b' m'"
    using False ne r(1,3) unfolding blist_c_str_def by simp
  then show ?thesis using pos r by (intro exI [of _ pos] exI [of _ b'] exI [of _ m']) simp
qed

lemma bytes_from_ok:
  assumes "wf_mem m" "wf_list m b" "starts_at pos b m"
  shows "bytes_from pos (b_len b) m = Inr (bl_bytes m b)"
proof (cases pos)
  case None
  then show ?thesis using assms(2,3) by (simp add: bytes_from_def starts_at_def wf_list_def bl_bytes_def)
next
  case (Some a)
  then obtain r off i p where p: "pos = Some (r, off)" "bufs b = [i]" "m_ptrs m i = Some p" "p_raw p = Some r" "p_off p = off"
    using assms(3) by (cases a) (auto simp: starts_at_def)
  have bytes: "bl_bytes m b = node_bytes m i" using p(2) by (simp add: bl_bytes_def)
  then have "b_len b = p_len p" using assms(2) length_node_bytes [OF assms(1) p(3)] by (simp add: wf_list_def)
  then show ?thesis
    using raw_read_ok [OF assms(1) p(3,4), of 0 "p_len p"] length_node_bytes [OF assms(1) p(3)] p(1,5) bytes
    by (simp add: bytes_from_def) (metis seg_all)
qed

subsection \<open>A new raw, filled and handed over\<close>

lemma fill_ok:
  assumes "wf_mem m" "m_ptrs m k = Some p" "p_raw p = Some r" "p_off p = 0" "alone m k r" "length out \<le> p_len p"
  shows "\<exists>m1 m2. raw_write r 0 out m = Inr m1 \<and> set_length k (length out) m1 = Inr m2 \<and> wf_mem m2 \<and>
    m_ptrs m2 = (m_ptrs m)(k \<mapsto> p\<lparr>p_len := length out\<rparr>) \<and> node_bytes m2 k = out \<and> m_next m2 = m_next m \<and>
    keeps (dom (m_ptrs m) - {k}) m m2"
proof -
  obtain m1 where m1: "raw_write r 0 out m = Inr m1" "wf_mem m1" "m_ptrs m1 = m_ptrs m" "m_next m1 = m_next m"
    "node_bytes m1 k = write_at 0 out (node_bytes m k)"
    and keep: "\<And>I. \<forall>j\<in>I. \<forall>q. m_ptrs m j = Some q \<longrightarrow> clear_of r (p_off p + 0) (length out) q \<Longrightarrow> keeps I m m1"
    using ptr_poke_ok [OF assms(1-3), of 0 out] assms(4,6) by auto
  have k1: "keeps (dom (m_ptrs m) - {k}) m m1"
    by (rule keep) (use assms(5) in \<open>auto simp: alone_def clear_of_def\<close>)
  have p1: "m_ptrs m1 k = Some p" using assms(2) m1(3) by simp
  obtain w where w: "m_raws m1 r = Some w" "p_off p + p_len p \<le> r_len w"
    using wf_ptr_raw [OF wf_flD(1) [OF m1(2)] p1 assms(3)] by auto
  obtain m2 where m2: "set_length k (length out) m1 = Inr m2" "wf_mem m2" "quiet m1 m2" "m_raws m2 = m_raws m1"
    "m_ptrs m2 = (m_ptrs m1)(k \<mapsto> p\<lparr>p_len := length out\<rparr>)" "m_next m2 = m_next m1"
    using set_length_ok [OF m1(2) p1 assms(3) w(1), of "length out"] w(2) assms(6) by auto
  have "node_bytes m2 k = take (length out) (node_bytes m1 k)"
    using w(1) m2(4,5) p1 assms(3,4,6) by (simp add: node_bytes_def ptr_bytes_def seg_def min_absorb1)
  then have "node_bytes m2 k = out" by (simp add: m1(5) write_at_def)
  moreover have "keeps (dom (m_ptrs m) - {k}) m1 m2"
    by (rule keeps_wf_fl [OF m2(3) m1(2) m2(2)]) (simp add: m2(5))
  ultimately show ?thesis using m1 m2 keeps_trans [OF k1] by (intro exI [of _ m1] exI [of _ m2]) simp
qed

lemma hand_over_ok:
  assumes wf: "wf_mem m" "wf_nodes m b" and k: "m_ptrs m k = Some p" "p_raw p = Some r" "k \<notin> set (bufs b)"
    and small: "b_len b < 2 ^ 62" "length (bufs b) < 2 ^ 62" "p_len p < 2 ^ 62"
  shows "\<exists>b' m1 m2. blist_push_back_move k b m = Inr (b', m1) \<and> ptr_destroy k m1 = Inr m2 \<and> wf_mem m2 \<and>
    wf_nodes m2 b' \<and> bl_bytes m2 b' = bl_bytes m b @ node_bytes m k \<and> b_len b' = b_len b + p_len p \<and>
    length (bufs b') \<le> length (bufs b) + 1 \<and> set (bufs b') \<subseteq> insert (m_next m) (set (bufs b)) \<and> keeps (dom (m_ptrs m) - {k}) m m2 \<and>
    dom (m_ptrs m2) = dom (m_ptrs m) - {k} \<union> set (bufs b') \<and>
    (\<forall>j q. m_ptrs m2 j = Some q \<longrightarrow> p_raw q \<noteq> p_raw p \<longrightarrow> m_ptrs m j = Some q)"
proof (cases "p_len p = 0")
  case True
  obtain m2 where m2: "ptr_destroy k m = Inr m2" "wf_mem m2" "quiet m m2" "m_ptrs m2 = (m_ptrs m)(k := None)"
    using ptr_destroy_spec [OF wf(1) k(1)] by blast
  have keep: "keeps (dom (m_ptrs m) - {k}) m m2"
    by (rule keeps_wf_fl [OF m2(3) wf(1) m2(2)]) (simp add: m2(4))
  have sub: "set (bufs b) \<subseteq> dom (m_ptrs m) - {k}" using wf_nodesD(6) [OF wf(2)] k(3) by auto
  have "blist_push_back_move k b m = Inr (b, m)" using k(1) True by (simp add: blist_push_back_move_def ptr_at_def)
  moreover have old: "\<exists>j'. m_ptrs m j' = Some q" if "m_ptrs m2 j = Some q" for j q
    using that by (auto simp: m2(4) split: if_splits)
  then have "wf_nodes m2 b \<and> bl_bytes m2 b = bl_bytes m b"
    using wf_nodes_frame [OF wf(2) keeps_mono [OF keep sub]] by blast
  moreover have "node_bytes m k = []" using length_node_bytes [OF wf(1) k(1)] True by simp
  moreover have "dom (m_ptrs m2) = dom (m_ptrs m) - {k} \<union> set (bufs b)" using sub by (auto simp: m2(4))
  ultimately show ?thesis using m2 keep True
    by (rule_tac exI [of _ b], rule_tac exI [of _ m], rule_tac exI [of _ m2]) (auto split: if_splits)
next
  case False
  let ?k = "m_next m"
  let ?b = "b\<lparr>bufs := bufs b @ [?k], tail_cache := None, b_len := add64 (b_len b) (p_len p), b_num := add64 (b_num b) 1\<rparr>"
  obtain m1 where m1: "ptr_move k m = Inr (?k, m1)" "wf_mem m1" "quiet m m1"
    "m_ptrs m1 = (m_ptrs m)(k \<mapsto> null_ptr, ?k \<mapsto> p)"
    using ptr_move_spec [OF wf(1) k(1)] by blast
  have none: "m_ptrs m ?k = None" by (rule wf_core_fresh [OF wf_flD(1) [OF wf(1)]])
  have kk: "k \<noteq> ?k" using none k(1) by auto
  have k1: "m_ptrs m1 k = Some null_ptr" using m1(4) kk by simp
  obtain m2 where m2: "ptr_destroy k m1 = Inr m2" "wf_mem m2" "quiet m1 m2" "m_ptrs m2 = (m_ptrs m1)(k := None)"
    using ptr_destroy_spec [OF m1(2) k1] by blast
  have q: "quiet m m2" by (rule quiet_trans [OF m1(3) m2(3)])
  have ptrs: "m_ptrs m2 = (m_ptrs m)(k := None, ?k \<mapsto> p)" using m2(4) m1(4) kk by (auto simp: fun_eq_iff)
  have keep: "keeps (dom (m_ptrs m) - {k}) m m2"
    by (rule keeps_wf_fl [OF q wf(1) m2(2)]) (use none in \<open>auto simp: ptrs\<close>)
  have sub: "set (bufs b) \<subseteq> dom (m_ptrs m) - {k}" using wf_nodesD(6) [OF wf(2)] k(3) by auto
  have fresh: "?k \<notin> set (bufs b)" using sub none by auto
  have "blist_push_back_move k b m = Inr (?b, m1)"
    using k(1) False m1(1) by (simp add: blist_push_back_move_def ptr_at_def)
  moreover have "wf_nodes m2 ?b"
    using wf_nodesD(1,2,3) [OF wf(2)] has_raw_keeps [OF keep] sub fresh ptrs k(2) small(2)
    by (auto simp: wf_nodes_def has_raw_def add64_def two64_def subset_iff)
  moreover have "bl_bytes m2 ?b = bl_bytes m b @ node_bytes m k"
  proof -
    have "wf_ptr m2 p" by (rule wf_coreD(3) [OF wf_flD(1) [OF m2(2)], of ?k]) (simp add: ptrs)
    then have "node_bytes m2 ?k = node_bytes m k"
      using ptr_bytes_quiet [OF q wf_flD(1) [OF wf(1)] k(1)] k(1) by (simp add: node_bytes_def ptrs)
    then show ?thesis using bl_bytes_keeps [OF keep sub] by (simp add: bl_bytes_def)
  qed
  moreover have "b_len ?b = b_len b + p_len p" using small by (simp add: arith64 two64_def)
  moreover have "\<forall>j q. m_ptrs m2 j = Some q \<longrightarrow> p_raw q \<noteq> p_raw p \<longrightarrow> m_ptrs m j = Some q" by (auto simp: ptrs)
  moreover have "dom (m_ptrs m2) = dom (m_ptrs m) - {k} \<union> set (bufs ?b)" using sub kk by (auto simp: ptrs)
  ultimately show ?thesis using m2(1,2) keep
    by (rule_tac exI [of _ ?b], rule_tac exI [of _ m1], rule_tac exI [of _ m2]) auto
qed

subsection \<open>A fresh object beside a list\<close>

lemma fresh_ptr_ready:
  assumes "ready b m" "fresh_ptr al data m m'" "wf_mem m'" "quiet m m'"
  shows "ready b m'" "keeps (dom (m_ptrs m)) m m'" "bl_bytes m' b = bl_bytes m b"
proof -
  note r = readyD [OF assms(1)]
  have none: "m_ptrs m (Suc (m_next m)) = None" by (rule fresh_ptr_frees(1) [OF r(1) assms(2)])
  show keep: "keeps (dom (m_ptrs m)) m m'"
    by (rule keeps_wf_fl [OF assms(4) r(1) assms(3)]) (use assms(2) none in \<open>auto simp: fresh_ptr_def\<close>)
  have sub: "set (bufs b) \<subseteq> dom (m_ptrs m)" by (rule wf_nodesD(6) [OF r(3)])
  show bytes: "bl_bytes m' b = bl_bytes m b" by (rule bl_bytes_keeps [OF keep sub])
  have "has_raw m' i" if "i \<in> set (bufs b)" for i
    using has_raw_keeps [OF keep subsetD [OF sub that]] wf_nodesD(2) [OF r(3) that] by simp
  then have "wf_nodes m' b" using r(3) fresh_ptr_frees(3) [OF r(1) assms(2)] by (auto simp: wf_nodes_def)
  then show "ready b m'" using r assms(3) bytes keepsD(3) [OF keep] by (simp add: ready_def wf_list_def)
qed

lemma wf_nodes_old:
  assumes "wf_mem m" "wf_nodes m b" "keeps (set (bufs b)) m m'" "old_windows m m'"
  shows "wf_nodes m' b"
proof -
  have "tail_free m' c" if t: "tail_cache b = Some c" for c
  proof (rule tail_free_mono [OF wf_nodesD(5) [OF assms(2) t]])
    have c: "c \<in> set (bufs b)" by (rule wf_nodesD(4) [OF assms(2) t])
    show "m_ptrs m' c = m_ptrs m c" by (rule keepsD(1) [OF assms(3) c])
    fix j q p r
    assume h: "m_ptrs m' j = Some q" "m_ptrs m' j \<noteq> m_ptrs m j" "m_ptrs m c = Some p" "p_raw p = Some r" "p_raw q = Some r"
    obtain w where "m_raws m r = Some w" using wf_ptr_raw [OF wf_flD(1) [OF assms(1)] h(3,4)] by blast
    then have "r < m_next m" by (rule wf_coreD(4) [OF wf_flD(1) [OF assms(1)]])
    then show "p_len q = 0 \<or> p_off q + p_len q \<le> p_off p + p_len p" using assms(4) h by (auto simp: old_windows_def)
  qed
  then show ?thesis using assms(2) has_raw_keeps [OF assms(3)] by (auto simp: wf_nodes_def)
qed

text \<open>
  What encoding and decoding have in common: a new object of \<open>n\<close> bytes, \<open>src\<close> in one piece, \<open>out\<close> written
  into the object, and the object moved to the end of \<open>dst\<close>.
\<close>

lemma transfer_ok:
  assumes src: "ready src m" "b_len src \<noteq> 0 \<or> length (bufs src) \<le> 1" and dst: "wf_nodes m dst"
    "b_len dst < 2 ^ 62" "length (bufs dst) < 2 ^ 62" and apart: "set (bufs src) \<inter> set (bufs dst) = {}"
    and out: "length out \<le> n" "n < 2 ^ 62"
  shows "\<exists>k m1 pos src' m2 m3 m4 dst' m5 m6. ptr_of_len n m = Inr (k, m1) \<and> c_str m1 k = Inr (m_next m, 0) \<and>
    ptr_length m1 k = Inr n \<and> blist_c_str src m1 = Inr (pos, src', m2) \<and> blist_c_str src' m2 = Inr (pos, src', m2) \<and>
    bytes_from pos (b_len src') m2 = Inr (bl_bytes m src) \<and> raw_write (m_next m) 0 out m2 = Inr m3 \<and>
    set_length k (length out) m3 = Inr m4 \<and> blist_push_back_move k dst m4 = Inr (dst', m5) \<and>
    ptr_destroy k m5 = Inr m6 \<and>
    wf_mem m6 \<and> wf_list m6 src' \<and> bl_bytes m6 src' = bl_bytes m src \<and>
    wf_nodes m6 dst' \<and> bl_bytes m6 dst' = bl_bytes m dst @ out \<and> b_len dst' = b_len dst + length out \<and>
    length (bufs dst') \<le> length (bufs dst) + 1 \<and> set (bufs src') \<inter> set (bufs dst') = {} \<and> keeps (others m src) m m6 \<and>
    dom (m_ptrs m6) = others m src \<union> set (bufs src') \<union> set (bufs dst') \<and>
    set (bufs dst') \<inter> others m src \<subseteq> set (bufs dst)"
proof -
  note r = readyD [OF src(1)]
  let ?k = "Suc (m_next m)" and ?r = "m_next m"
  have n: "n < 2 ^ 63" using out(2) by simp
  obtain data m1 where m1: "ptr_of_len n m = Inr (?k, m1)" "fresh_ptr 8 data m m1" "length data = n" "wf_mem m1" "quiet m m1"
    using ptr_of_len_ok [OF r(1,2) n] by blast
  let ?p = "\<lparr>p_raw = Some ?r, p_off = 0, p_len = n\<rparr>"
  have p1: "m_ptrs m1 ?k = Some ?p" and next1: "m_next m1 = Suc ?k" using m1(2,3) by (auto simp: fresh_ptr_def)
  have none: "m_ptrs m ?k = None" by (rule fresh_ptr_frees(1) [OF r(1) m1(2)])
  note f = fresh_ptr_ready [OF src(1) m1(2,4,5)]
  have al1: "alone m1 ?k ?r" by (rule fresh_ptr_alone [OF r(1) m1(2)])
  have src1: "set (bufs src) \<subseteq> dom (m_ptrs m)" "set (bufs dst) \<subseteq> dom (m_ptrs m)"
    using wf_nodesD(6) [OF r(3)] wf_nodesD(6) [OF dst(1)] by auto
  have kout: "?k \<notin> set (bufs src)" "?k \<notin> set (bufs dst)" using src1 none by auto
  have "m_ptrs m1 j = (if j = ?k then Some ?p else m_ptrs m j)" for j using m1(2,3) by (auto simp: fresh_ptr_def)
  then have dom1: "dom (m_ptrs m1) = insert ?k (dom (m_ptrs m))" by (auto simp: dom_def)
  have oth1: "others m1 src = insert ?k (others m src)" using kout dom1 by (auto simp: others_def)
  have dst1: "wf_nodes m1 dst"
    using dst(1) fresh_ptr_frees(3) [OF r(1) m1(2)] has_raw_keeps [OF f(2)] src1(2) unfolding wf_nodes_def by blast
  obtain pos src' m2 where m2: "blist_c_str src m1 = Inr (pos, src', m2)" "becomes src m1 (bl_bytes m1 src) src' m2"
    "old_windows m1 m2" "starts_at pos src' m2" "blist_c_str src' m2 = Inr (pos, src', m2)"
    using blist_c_str_ok [OF f(1) src(2)] by blast
  have t2: "wf_mem m2" "wf_nodes m2 src'" "bl_bytes m2 src' = bl_bytes m src" "keeps (others m1 src) m1 m2"
    "others m2 src' = others m1 src"
    using m2(2) f(3) by (auto simp: becomes_def turns_def)
  have wl2: "wf_list m2 src'" by (rule becomes_wf [OF m2(2)])
  have p2: "m_ptrs m2 ?k = Some ?p" using keepsD(1) [OF t2(4), of ?k] oth1 p1 by simp
  have "?r < m_next m1" by (simp add: next1)
  then have al2: "alone m2 ?k ?r" using m2(3) al1 unfolding alone_def old_windows_def by blast
  have in1: "set (bufs dst) \<subseteq> others m1 src" using src1(2) apart oth1 by (auto simp: others_def)
  have dst2: "wf_nodes m2 dst" "bl_bytes m2 dst = bl_bytes m dst"
    using wf_nodes_old [OF m1(4) dst1 keeps_mono [OF t2(4) in1] m2(3)] bl_bytes_keeps [OF t2(4) in1]
      bl_bytes_keeps [OF f(2) src1(2)] by simp_all
  have kin: "?k \<notin> set (bufs src')" using t2(5) oth1 by (auto simp: others_def)
  have sub2: "set (bufs src') \<subseteq> dom (m_ptrs m2) - {?k}" using wf_nodesD(6) [OF t2(2)] kin by auto
  have apart2: "set (bufs src') \<inter> set (bufs dst) = {}"
    using in1 t2(5) by (auto simp: others_def)
  have rawp: "p_raw ?p = Some ?r" "p_off ?p = 0" and fitp: "length out \<le> p_len ?p" using out(1) by simp_all
  obtain m3 m4 where m4: "raw_write ?r 0 out m2 = Inr m3" "set_length ?k (length out) m3 = Inr m4" "wf_mem m4"
    "m_ptrs m4 = (m_ptrs m2)(?k \<mapsto> ?p\<lparr>p_len := length out\<rparr>)" "node_bytes m4 ?k = out" "m_next m4 = m_next m2"
    "keeps (dom (m_ptrs m2) - {?k}) m2 m4"
    using fill_ok [OF t2(1) p2 rawp al2 fitp] by blast
  have others_raw: "m_ptrs m2 j = Some q" if "m_ptrs m4 j = Some q" "j \<noteq> ?k" for j q using that m4(4) by simp
  have frame4: "wf_nodes m4 b" "bl_bytes m4 b = bl_bytes m2 b" if "wf_nodes m2 b" "?k \<notin> set (bufs b)" for b
  proof -
    have sub: "set (bufs b) \<subseteq> dom (m_ptrs m2) - {?k}" using wf_nodesD(6) [OF that(1)] that(2) by auto
    have tail: "tail_free m4 c" if t: "tail_cache b = Some c" for c
    proof (rule tail_free_mono [OF wf_nodesD(5) [OF \<open>wf_nodes m2 b\<close> t]])
      have c: "c \<noteq> ?k" using wf_nodesD(4) [OF \<open>wf_nodes m2 b\<close> t] \<open>?k \<notin> set (bufs b)\<close> by auto
      show "m_ptrs m4 c = m_ptrs m2 c" using c by (simp add: m4(4))
      show "p_len q = 0 \<or> p_off q + p_len q \<le> p_off p + p_len p"
        if "m_ptrs m4 j = Some q" "j \<noteq> c" "m_ptrs m4 j \<noteq> m_ptrs m2 j" "m_ptrs m2 c = Some p" "p_raw p = Some s" "p_raw q = Some s"
        for j q p s
        using that al2 c m4(4) by (auto simp: alone_def split: if_splits)
    qed
    show "wf_nodes m4 b" using that(1) tail has_raw_keeps [OF m4(7)] sub unfolding wf_nodes_def by blast
    show "bl_bytes m4 b = bl_bytes m2 b" by (rule bl_bytes_keeps [OF m4(7) sub])
  qed
  have p4: "m_ptrs m4 ?k = Some (?p\<lparr>p_len := length out\<rparr>)" by (simp add: m4(4))
  have raw4: "p_raw (?p\<lparr>p_len := length out\<rparr>) = Some ?r" by simp
  have len4: "p_len (?p\<lparr>p_len := length out\<rparr>) < 2 ^ 62" using out by simp
  obtain dst' m5 m6 where m6: "blist_push_back_move ?k dst m4 = Inr (dst', m5)" "ptr_destroy ?k m5 = Inr m6" "wf_mem m6"
    "wf_nodes m6 dst'" "bl_bytes m6 dst' = bl_bytes m4 dst @ node_bytes m4 ?k"
    "b_len dst' = b_len dst + p_len (?p\<lparr>p_len := length out\<rparr>)"
    "length (bufs dst') \<le> length (bufs dst) + 1" "set (bufs dst') \<subseteq> insert (m_next m4) (set (bufs dst))" "keeps (dom (m_ptrs m4) - {?k}) m4 m6"
    "dom (m_ptrs m6) = dom (m_ptrs m4) - {?k} \<union> set (bufs dst')"
    and new6: "\<forall>j q. m_ptrs m6 j = Some q \<longrightarrow> p_raw q \<noteq> p_raw (?p\<lparr>p_len := length out\<rparr>) \<longrightarrow> m_ptrs m4 j = Some q"
    using hand_over_ok [OF m4(3) frame4(1) [OF dst2(1) kout(2)] p4 raw4 kout(2) dst(2,3) len4]
    by (elim exE conjE) (rule that)
  have dom4: "dom (m_ptrs m4) = dom (m_ptrs m2)" using p2 by (auto simp: m4(4))
  have k6: "keeps (dom (m_ptrs m2) - {?k}) m2 m6" using keeps_trans [OF m4(7)] m6(9) dom4 by simp
  have src6: "wf_nodes m6 src'"
  proof -
    have "tail_free m6 c" if t: "tail_cache src' = Some c" for c
    proof (rule tail_free_mono [OF wf_nodesD(5) [OF frame4(1) [OF t2(2) kin] t]])
      have c: "c \<in> set (bufs src')" by (rule wf_nodesD(4) [OF t2(2) t])
      then have "c \<in> dom (m_ptrs m4) - {?k}" using sub2 dom4 by auto
      then show c6: "m_ptrs m6 c = m_ptrs m4 c" by (rule keepsD(1) [OF m6(9)])
      have ck: "c \<noteq> ?k" using c kin by auto
      fix j q p s
      assume h: "m_ptrs m6 j = Some q" "m_ptrs m6 j \<noteq> m_ptrs m4 j" "m_ptrs m4 c = Some p" "p_raw p = Some s" "p_raw q = Some s"
      have "m_ptrs m2 c = Some p" using h(3) ck by (simp add: m4(4))
      then have "s \<noteq> ?r" using al2 h(4) ck by (auto simp: alone_def)
      then have "m_ptrs m4 j = Some q" using new6 h(1,5) by simp
      then show "p_len q = 0 \<or> p_off q + p_len q \<le> p_off p + p_len p" using h(1,2) by simp
    qed
    moreover have "has_raw m6 i" if "i \<in> set (bufs src')" for i
      using has_raw_keeps [OF k6 subsetD [OF sub2 that]] wf_nodesD(2) [OF t2(2) that] by simp
    ultimately show ?thesis using t2(2) by (simp add: wf_nodes_def)
  qed
  have bytes6: "bl_bytes m6 src' = bl_bytes m src" using bl_bytes_keeps [OF k6 sub2] t2(3) by simp
  have "wf_list m6 src'" using src6 bytes6 wl2 t2(3) by (simp add: wf_list_def)
  moreover have "set (bufs src') \<inter> set (bufs dst') = {}"
  proof -
    have "m_ptrs m4 (m_next m4) = None" by (rule wf_core_fresh [OF wf_flD(1) [OF m4(3)]])
    then have "m_next m4 \<notin> set (bufs src')" using sub2 dom4 by auto
    then show ?thesis using m6(8) apart2 by blast
  qed
  moreover have "keeps (others m src) m m6"
  proof (rule keeps_trans [OF keeps_trans])
    show "keeps (others m src) m m1" by (rule keeps_mono [OF f(2)]) (auto simp: others_def)
    show "keeps (others m src) m1 m2" by (rule keeps_mono [OF t2(4)]) (auto simp: oth1)
    have "others m src \<subseteq> others m2 src' - {?k}" using t2(5) oth1 none by (auto simp: others_def)
    then show "keeps (others m src) m2 m6" by (intro keeps_mono [OF k6]) (auto simp: others_def)
  qed
  moreover have "bytes_from pos (b_len src') m2 = Inr (bl_bytes m src)"
    using bytes_from_ok [OF t2(1) wl2 m2(4)] t2(3) by simp
  moreover have "c_str m1 ?k = Inr (?r, 0)" "ptr_length m1 ?k = Inr n"
    using p1 by (simp_all add: c_str_def ptr_raw_def ptr_at_def ptr_length_def)
  moreover have "bl_bytes m6 dst' = bl_bytes m dst @ out" using m6(5) m4(5) frame4(2) [OF dst2(1) kout(2)] dst2(2) by simp
  moreover have "b_len dst' = b_len dst + length out" using m6(6) by simp
  moreover have "set (bufs dst') \<inter> others m src \<subseteq> set (bufs dst)"
  proof -
    have "m_ptrs m4 (m_next m4) = None" by (rule wf_core_fresh [OF wf_flD(1) [OF m4(3)]])
    moreover have "others m src \<subseteq> dom (m_ptrs m4)" unfolding dom4 using t2(5) oth1 by (auto simp: others_def)
    ultimately show ?thesis using m6(8) by auto
  qed
  moreover have "dom (m_ptrs m6) = others m src \<union> set (bufs src') \<union> set (bufs dst')"
  proof -
    have "dom (m_ptrs m2) = others m2 src' \<union> set (bufs src')" using sub2 by (auto simp: others_def)
    then have "dom (m_ptrs m4) = insert ?k (others m src) \<union> set (bufs src')" unfolding dom4 t2(5) oth1 .
    moreover have "?k \<notin> others m src" by (simp add: others_def domIff none)
    ultimately show ?thesis unfolding m6(10) using kin by blast
  qed
  ultimately show ?thesis
    using m1(1) m2(1,5) m4(1,2) m6(1-4,7) bytes6 by blast
qed

subsection \<open>Both directions\<close>

lemma broken_0: "broken 0 k gs = concat gs"
  by (induction gs arbitrary: k) simp_all

lemma length_base64: "length (base64 0 bs) = 4 * ((length bs + 2) div 3)"
proof -
  have "length (concat gs) = 4 * length gs" if "\<And>g. g \<in> set gs \<Longrightarrow> length g = 4" for gs :: "bytes list"
    using that by (induction gs) simp_all
  then show ?thesis using groups_of_4 [of _ bs] length_groups [of bs] by (simp add: base64_def groups_per_line_def broken_0)
qed

lemma armor_fits:
  assumes "length bs < 2 ^ 58" "4 * ((length bs + 2) div 3) \<le> cap"
  shows "spec_armor cap bs = (length (base64 0 bs), base64 0 bs)"
  using armor_encodes [of 0 bs cap] assms by (simp add: spec_armor_def encoded_def length_base64)

lemma unarmor_fits:
  assumes "length bs \<le> cap"
  shows "spec_unarmor cap (base64 0 bs) = (int (length bs), bs)"
  using unarmor_loop_result [of "[]" cap 0 0 bs] assms
  by (simp add: spec_unarmor_def decoded_def base64_def groups_per_line_def)

text \<open>The sizes of the two raws are enough.\<close>

lemma room_enough:
  "4 * ((n + 2) div 3) \<le> n * 4 div 3 + (3 :: nat)"
  "n \<le> 4 + 4 * ((n + 2) div 3) * 3 div (4 :: nat)"
  by presburger+

definition held_apart :: "blist \<Rightarrow> blist \<Rightarrow> blist \<Rightarrow> mem \<Rightarrow> blist \<Rightarrow> blist \<Rightarrow> mem \<Rightarrow> bytes \<Rightarrow> bool" where
  "held_apart src dst b m src' dst' m' bs \<longleftrightarrow>
    wf_mem m' \<and> wf_list m' src' \<and> bl_bytes m' src' = bl_bytes m src \<and>
    wf_nodes m' dst' \<and> bl_bytes m' dst' = bl_bytes m dst @ bs \<and> b_len dst' = b_len dst + length bs \<and>
    length (bufs dst') \<le> length (bufs dst) + 1 \<and> set (bufs src') \<inter> set (bufs dst') = {} \<and> keeps (others m b) m m' \<and>
    dom (m_ptrs m') = others m b \<union> set (bufs src') \<union> set (bufs dst') \<and>
    set (bufs dst') \<inter> others m b \<subseteq> set (bufs dst)"

lemma encode_ok:
  assumes src: "ready b m" "b_len b \<noteq> 0 \<or> length (bufs b) \<le> 1" "b_len b < 2 ^ 58" and dst: "wf_nodes m w"
    "b_len w < 2 ^ 62" "length (bufs w) < 2 ^ 62" and apart: "set (bufs b) \<inter> set (bufs w) = {}"
  shows "\<exists>b' w' m'. encode_base64 b w m = Inr ((b', w'), m') \<and> held_apart b w b m b' w' m' (base64 0 (bl_bytes m b))"
proof -
  let ?bs = "bl_bytes m b" and ?n = "b_len b * 4 div 3 + 3"
  have len: "length ?bs = b_len b" using readyD(4) [OF src(1)] by simp
  have n: "add64 (mul64 (b_len b) 4 div 3) 3 = ?n" using src(3) by (simp add: arith64 two64_def)
  have fits: "length (base64 0 ?bs) \<le> ?n" "?n < 2 ^ 62"
    using room_enough(1) [of "b_len b"] src(3) by (simp_all add: length_base64 len)
  have conv: "spec_armor ?n ?bs = (length (base64 0 ?bs), base64 0 ?bs)"
    by (rule armor_fits) (use src(3) fits(1) in \<open>simp_all add: len length_base64\<close>)
  obtain k m1 pos b' m2 m3 m4 w' m5 m6 where t: "ptr_of_len ?n m = Inr (k, m1)" "c_str m1 k = Inr (m_next m, 0)"
    "ptr_length m1 k = Inr ?n" "blist_c_str b m1 = Inr (pos, b', m2)" "blist_c_str b' m2 = Inr (pos, b', m2)"
    "bytes_from pos (b_len b') m2 = Inr ?bs" "raw_write (m_next m) 0 (base64 0 ?bs) m2 = Inr m3"
    "set_length k (length (base64 0 ?bs)) m3 = Inr m4" "blist_push_back_move k w m4 = Inr (w', m5)" "ptr_destroy k m5 = Inr m6"
    and h: "held_apart b w b m b' w' m6 (base64 0 ?bs)"
    using transfer_ok [OF src(1,2) dst apart fits] unfolding held_apart_def by blast
  have "encode_base64 b w m = Inr ((b', w'), m6)"
    by (simp add: encode_base64_def n t conv)
  then show ?thesis using h by blast
qed

lemma decode_ok:
  assumes src: "ready e m" "b_len e \<noteq> 0 \<or> length (bufs e) \<le> 1" and dst: "wf_nodes m b"
    "b_len b < 2 ^ 62" "length (bufs b) < 2 ^ 62" and apart: "set (bufs e) \<inter> set (bufs b) = {}"
    and bs: "bl_bytes m e = base64 0 bs" "length bs < 2 ^ 58"
  shows "\<exists>b' e' m'. decode_base64 b e m = Inr ((b', e'), m') \<and> held_apart e b e m e' b' m' bs"
proof -
  let ?n = "4 + b_len e * 3 div 4"
  have len: "b_len e = 4 * ((length bs + 2) div 3)" using readyD(4) [OF src(1)] bs(1) by (simp add: length_base64)
  have le: "b_len e < 2 ^ 60" using len bs(2) by simp
  have n: "add64 4 (mul64 (b_len e) 3 div 4) = ?n" using le by (simp add: arith64 two64_def)
  have fits: "length bs \<le> ?n" "?n < 2 ^ 62" using room_enough(2) [of "length bs"] le by (simp_all add: len)
  note conv = unarmor_fits [OF fits(1)]
  obtain k m1 pos e' m2 m3 m4 b' m5 m6 where t: "ptr_of_len ?n m = Inr (k, m1)" "c_str m1 k = Inr (m_next m, 0)"
    "ptr_length m1 k = Inr ?n" "blist_c_str e m1 = Inr (pos, e', m2)" "blist_c_str e' m2 = Inr (pos, e', m2)"
    "bytes_from pos (b_len e') m2 = Inr (base64 0 bs)" "raw_write (m_next m) 0 bs m2 = Inr m3"
    "set_length k (length bs) m3 = Inr m4" "blist_push_back_move k b m4 = Inr (b', m5)" "ptr_destroy k m5 = Inr m6"
    and h: "held_apart e b e m e' b' m6 bs"
    using transfer_ok [OF src dst apart fits] unfolding held_apart_def bs(1) by blast
  have "decode_base64 b e m = Inr ((b', e'), m6)"
    using fits(1) by (simp add: decode_base64_def n t conv spec_assert_def)
  then show ?thesis using h by blast
qed

lemma blist_new_sel: "bufs blist_new = []" "b_len blist_new = 0"
  by (simp_all add: blist_new_def)

text \<open>
  C21 (roundtrip). Encoding a list into an empty one returns, gives the base64 form of its bytes and
  leaves them unchanged; decoding that into an empty list gives the bytes back, each call with room for
  all it writes. No object outside the lists changes or is left over. A list of several nodes that are
  all empty is excluded: its \<^verbatim>\<open>c_str\<close> reads the root as a node.
\<close>

theorem list_base64_roundtrip:
  assumes "ready b m" "b_len b \<noteq> 0 \<or> length (bufs b) \<le> 1" "b_len b < 2 ^ 58"
  shows "\<exists>b' e m1 d e' m2. encode_base64 b blist_new m = Inr ((b', e), m1) \<and>
    bl_bytes m1 e = base64 0 (bl_bytes m b) \<and> bl_bytes m1 b' = bl_bytes m b \<and>
    decode_base64 blist_new e m1 = Inr ((d, e'), m2) \<and>
    bl_bytes m2 d = bl_bytes m b \<and> bl_bytes m2 e' = bl_bytes m1 e \<and> bl_bytes m2 b' = bl_bytes m b \<and>
    wf_mem m2 \<and> keeps (others m b) m m2 \<and>
    dom (m_ptrs m2) = others m b \<union> set (bufs b') \<union> set (bufs e') \<union> set (bufs d)"
proof -
  let ?bs = "bl_bytes m b"
  note r = readyD [OF assms(1)]
  have new: "wf_nodes m blist_new" "b_len blist_new < 2 ^ 62" "length (bufs blist_new) < 2 ^ 62"
    "set (bufs x) \<inter> set (bufs blist_new) = {}" for m x
    by (simp_all add: wf_nodes_def blist_new_def)
  obtain b' e m1 where enc: "encode_base64 b blist_new m = Inr ((b', e), m1)"
    and h1: "held_apart b blist_new b m b' e m1 (base64 0 ?bs)"
    using encode_ok [OF assms new] by blast
  note h1 = h1 [unfolded held_apart_def bl_bytes_new append_Nil]
  have e: "bl_bytes m1 e = base64 0 ?bs" "length (bufs e) \<le> 1" using h1 by (simp_all add: blist_new_sel)
  have lb: "length ?bs < 2 ^ 58" using assms(3) r(4) by simp
  have env: "env_ok (m_env m1)" using h1 r(2) by (simp add: keeps_def)
  have le: "b_len e = length (base64 0 ?bs)" using h1 by (simp add: blist_new_sel)
  then have "wf_list m1 e" using h1 e(1) by (simp add: wf_list_def)
  moreover have "b_len e < 2 ^ 62" unfolding le length_base64 using lb by simp
  ultimately have re: "ready e m1" using h1 env e(2) by (simp add: ready_def)
  obtain d e' m2 where dec: "decode_base64 blist_new e m1 = Inr ((d, e'), m2)"
    and h2: "held_apart e blist_new e m1 e' d m2 ?bs"
    using decode_ok [OF re _ new e(1) lb] e(2) by blast
  note h2 = h2 [unfolded held_apart_def bl_bytes_new append_Nil]
  have o1: "others m1 e = others m b \<union> set (bufs b')" using h1 by (auto simp: others_def blist_new_sel)
  have "bl_bytes m2 b' = bl_bytes m b" using h1 h2 bl_bytes_keeps [of "others m1 e" m1 m2 b'] o1 by simp
  moreover have "keeps (others m b) m m2"
    by (rule keeps_trans [of _ _ m1]) (use h1 h2 keeps_mono [of "others m1 e" m1 m2 "others m b"] o1 in simp_all)
  moreover have "dom (m_ptrs m2) = others m b \<union> set (bufs b') \<union> set (bufs e') \<union> set (bufs d)"
    using h2 unfolding o1 by simp
  moreover have "bl_bytes m2 d = ?bs" "bl_bytes m2 e' = bl_bytes m1 e" "wf_mem m2" "bl_bytes m1 b' = ?bs"
    using h1 h2 by simp_all
  ultimately show ?thesis
    by (intro exI conjI) (rule enc, rule e(1), assumption, rule dec, assumption+)
qed

theorem list_base64_roundtrip_witness:
  "\<exists>m b b' e m1 d e' m2. length (bufs b) = 2 \<and> encode_base64 b blist_new m = Inr ((b', e), m1) \<and>
    bl_bytes m1 e = map of_char ''AQIDAQID'' \<and> decode_base64 blist_new e m1 = Inr ((d, e'), m2) \<and>
    bl_bytes m2 d = [1, 2, 3, 1, 2, 3]"
proof -
  obtain m b where r: "ready b m" and b: "bl_bytes m b = [1, 2, 3, 1, 2, 3]" "bufs b = [1, 2]" "b_len b = 6"
    using demo_list by blast
  obtain b' e m1 d e' m2 where x: "encode_base64 b blist_new m = Inr ((b', e), m1)"
    "bl_bytes m1 e = base64 0 (bl_bytes m b)" "decode_base64 blist_new e m1 = Inr ((d, e'), m2)"
    "bl_bytes m2 d = bl_bytes m b"
    using list_base64_roundtrip [OF r] b(3) by auto
  have w: "base64 0 [1, 2, 3, 1, 2, 3] = map of_char ''AQIDAQID''"
    by (simp add: base64_def groups_per_line_def armor_3_def encode_bits_def pem_key_def)
  show ?thesis
    by (rule exI [of _ m], rule exI [of _ b], rule exI [of _ b'], rule exI [of _ e], rule exI [of _ m1],
        rule exI [of _ d], rule exI [of _ e'], rule exI [of _ m2]) (simp add: x b w)
qed

end
