(* ===== verification/List_Hexdump.thy ===== *)
theory List_Hexdump
  imports Buffer_Cut_Props "HOL-Library.Char_ord"
begin

text \<open>
  The hexadecimal dump of a list (\<^verbatim>\<open>list::hexdump\<close>), as the text it puts into the stream: 16 bytes a row,
  and a star in place of rows that repeat one byte like the row before.
\<close>

subsection \<open>Numbers in hexadecimal\<close>

definition hex_digit :: "nat \<Rightarrow> char" where
  "hex_digit n = char_of (if n < 10 then 48 + n else 87 + n)"

fun hex_str :: "nat \<Rightarrow> string" where
  "hex_str n = (if n < 16 then [hex_digit n] else hex_str (n div 16) @ [hex_digit (n mod 16)])"

declare hex_str.simps [simp del]

text \<open>\<^verbatim>\<open>std::setw(w)\<close> with the fill character \<^verbatim>\<open>0\<close>.\<close>

definition hex_pad :: "nat \<Rightarrow> nat \<Rightarrow> string" where
  "hex_pad w n = replicate (w - length (hex_str n)) (CHR ''0'') @ hex_str n"

subsection \<open>One row\<close>

fun index_all :: "blist \<Rightarrow> mem \<Rightarrow> nat list \<Rightarrow> exn + bytes" where
  "index_all b m [] = Inr []"
| "index_all b m (i # is) = ebind (blist_index m b i) (\<lambda>c. ebind (index_all b m is) (\<lambda>cs. Inr (c # cs)))"

text \<open>The test for a row of one byte: \<^verbatim>\<open>row_is_same\<close>, \<^verbatim>\<open>last_row_char\<close>, \<^verbatim>\<open>was_same\<close> and \<^verbatim>\<open>did_star\<close>.\<close>

type_synonym scan = "bool \<times> u8 \<times> bool \<times> bool"

fun scan_char :: "nat \<times> u8 \<Rightarrow> scan \<Rightarrow> scan" where
  "scan_char (i, current_char) (row_is_same, last_row_char, was_same, did_star) =
    (if current_char \<noteq> last_row_char
     then if i = 0 then (row_is_same, current_char, False, False)
          else (False, last_row_char, was_same, did_star)
     else (row_is_same, last_row_char, was_same, did_star))"

definition scan_row :: "bytes \<Rightarrow> u8 \<Rightarrow> bool \<Rightarrow> bool \<Rightarrow> scan" where
  "scan_row cs last_row_char was_same did_star =
    fold scan_char (enumerate 0 cs) (True, last_row_char, was_same, did_star)"

text \<open>In the C locale the characters of the four classes and the blank are those from \<^verbatim>\<open>0x20\<close> to \<^verbatim>\<open>0x7e\<close>.\<close>

definition shown_char :: "u8 \<Rightarrow> char" where
  "shown_char c = (if 0x20 \<le> c \<and> c \<le> 0x7e then char_of (unat c) else CHR ''.'')"

definition hex_cell :: "bytes \<Rightarrow> nat \<Rightarrow> string" where
  "hex_cell cs i =
    (if i = 8 then '' '' else []) @ (if i < length cs then '' '' @ hex_pad 2 (unat (cs ! i)) else ''   '')"

definition row_text :: "nat \<Rightarrow> bytes \<Rightarrow> string" where
  "row_text off cs =
    (if off \<noteq> 0 then [char_of (10 :: nat)] else []) @ hex_pad 8 off @ '' '' @ concat (map (hex_cell cs) [0..<16]) @
    ''  |'' @ map shown_char cs @ ''|''"

text \<open>One round of the loop over the rows: what it writes, and the variables of the next round.\<close>

definition hexdump_round :: "blist \<Rightarrow> mem \<Rightarrow> nat \<Rightarrow> u8 \<Rightarrow> bool \<Rightarrow> bool \<Rightarrow> exn + string \<times> u8 \<times> bool \<times> bool" where
  "hexdump_round b m off last_row_char was_same did_star =
    ebind (if off = 0 then blist_index m b off else Inr last_row_char) (\<lambda>last_row_char.
    ebind (index_all b m [off ..< min (off + 16) (b_len b)]) (\<lambda>cs.
      if off + 16 < b_len b
      then
        case scan_row cs last_row_char was_same did_star of (row_is_same, last_row_char, was_same, did_star) \<Rightarrow>
          if row_is_same
          then
            if was_same
            then Inr (if did_star then [] else [char_of (10 :: nat), CHR ''*''], last_row_char, was_same, True)
            else Inr (row_text off cs, last_row_char, True, did_star)
          else Inr (row_text off cs, last_row_char, False, False)
      else Inr (row_text off cs, last_row_char, was_same, did_star)))"

function hexdump_rows :: "blist \<Rightarrow> mem \<Rightarrow> nat \<Rightarrow> u8 \<Rightarrow> bool \<Rightarrow> bool \<Rightarrow> exn + string" where
  "hexdump_rows b m off last_row_char was_same did_star =
    (if off < b_len b
     then
       ebind (hexdump_round b m off last_row_char was_same did_star) (\<lambda>(out, last_row_char, was_same, did_star).
       ebind (hexdump_rows b m (off + 16) last_row_char was_same did_star) (\<lambda>out'. Inr (out @ out')))
     else Inr [])"
  by pat_completeness auto
termination
  by (relation "measure (\<lambda>(b, m, off, _). b_len b - off)") auto

declare hexdump_rows.simps [simp del]

definition hexdump :: "blist \<Rightarrow> mem \<Rightarrow> bool \<Rightarrow> exn + string" where
  "hexdump b m trailing_newline =
    (if b_len b = 0 then Inr []
     else
       ebind (hexdump_rows b m 0 0 False False) (\<lambda>out.
         Inr (out @ (if trailing_newline
                     then [char_of (10 :: nat)] @ hex_pad 8 (b_len b) @ [char_of (10 :: nat)] else []))))"

subsection \<open>The reference\<close>

text \<open>Row \<open>k\<close> of the bytes; a row repeats when it is one byte 16 times, like the row before, and not the last.\<close>

definition row_of :: "bytes \<Rightarrow> nat \<Rightarrow> bytes" where
  "row_of bs k = seg (16 * k) 16 bs"

definition one_byte :: "bytes \<Rightarrow> nat \<Rightarrow> bool" where
  "one_byte bs k \<longleftrightarrow> row_of bs k = replicate 16 (bs ! (16 * k))"

definition repeats :: "bytes \<Rightarrow> nat \<Rightarrow> bool" where
  "repeats bs k \<longleftrightarrow> 0 < k \<and> 16 * Suc k < length bs \<and> one_byte bs k \<and> row_of bs (k - 1) = row_of bs k"

definition row_out :: "bytes \<Rightarrow> nat \<Rightarrow> string" where
  "row_out bs k =
    (if \<not> repeats bs k then row_text (16 * k) (row_of bs k)
     else if repeats bs (k - 1) then [] else [char_of (10 :: nat), CHR ''*''])"

definition dump_of :: "bytes \<Rightarrow> bool \<Rightarrow> string" where
  "dump_of bs trailing_newline =
    (if bs = [] then []
     else concat (map (row_out bs) [0 ..< (length bs + 15) div 16]) @
       (if trailing_newline then [char_of (10 :: nat)] @ hex_pad 8 (length bs) @ [char_of (10 :: nat)] else []))"

subsection \<open>The scan\<close>

lemma scan_rest:
  "fold scan_char (enumerate (Suc n) cs) (row_is_same, l, was_same, did_star) =
    (row_is_same \<and> (\<forall>c \<in> set cs. c = l), l, was_same, did_star)"
  by (induction cs arbitrary: n row_is_same) auto

lemma scan_row_result:
  "scan_row (c # cs) l was_same did_star =
    ((\<forall>d \<in> set cs. d = c), c, was_same \<and> c = l, did_star \<and> c = l)"
  by (simp add: scan_row_def scan_rest)

lemma row_first:
  assumes "16 * k < length bs"
  shows "row_of bs k = bs ! (16 * k) # seg (Suc (16 * k)) 15 bs"
  using assms Cons_nth_drop_Suc [of "16 * k" bs] by (simp add: row_of_def seg_def numeral_eq_Suc) (metis take_Suc_Cons)

lemma one_byte_iff:
  assumes "16 * Suc k \<le> length bs"
  shows "one_byte bs k \<longleftrightarrow> (\<forall>d \<in> set (seg (Suc (16 * k)) 15 bs). d = bs ! (16 * k))"
proof -
  have len: "length (seg (Suc (16 * k)) 15 bs) = 15" using assms by (simp add: seg_def)
  have "(replicate 16 (bs ! (16 * k)) :: bytes) = bs ! (16 * k) # replicate 15 (bs ! (16 * k))"
    by (simp add: numeral_eq_Suc)
  then show ?thesis
    using row_first [of k bs] assms len replicate_eqI [of "seg (Suc (16 * k)) 15 bs" 15 "bs ! (16 * k)"]
    unfolding one_byte_def by auto
qed

lemma repeats_iff:
  assumes "0 < k" "16 * Suc k < length bs"
  shows "repeats bs k \<longleftrightarrow> one_byte bs k \<and> one_byte bs (k - 1) \<and> bs ! (16 * k) = bs ! (16 * (k - 1))"
proof -
  have "hd (row_of bs (k - 1)) = bs ! (16 * (k - 1))" using row_first [of "k - 1" bs] assms by simp
  moreover have "hd (row_of bs k) = bs ! (16 * k)" using row_first [of k bs] assms by simp
  ultimately show ?thesis using assms unfolding repeats_def one_byte_def by metis
qed

subsection \<open>The rows\<close>

lemma index_all_bytes:
  assumes "ready b m" "j \<le> b_len b" "i \<le> j"
  shows "index_all b m [i ..< j] = Inr (seg i (j - i) (bl_bytes m b))"
  using assms(2,3)
proof (induction "j - i" arbitrary: i)
  case 0
  then show ?case by simp
next
  case (Suc n)
  then have lt: "i < j" by simp
  have len: "b_len b = length (bl_bytes m b)" using readyD(4) [OF assms(1)] .
  have "seg i (j - i) (bl_bytes m b) = bl_bytes m b ! i # seg (Suc i) (j - Suc i) (bl_bytes m b)"
  proof -
    have "j - i = Suc (j - Suc i)" using lt by simp
    moreover have "drop i (bl_bytes m b) = bl_bytes m b ! i # drop (Suc i) (bl_bytes m b)"
      by (rule Cons_nth_drop_Suc [symmetric]) (use lt Suc.prems(1) len in simp)
    ultimately show ?thesis by (simp add: seg_def)
  qed
  moreover have "blist_index m b i = Inr (bl_bytes m b ! i)"
    using index_in_bounds [OF assms(1)] lt Suc.prems(1) by simp
  moreover have "index_all b m [Suc i ..< j] = Inr (seg (Suc i) (j - Suc i) (bl_bytes m b))"
    using Suc.hyps(1) [of "Suc i"] Suc.hyps(2) Suc.prems lt by simp
  ultimately show ?case by (simp add: upt_conv_Cons [OF lt])
qed

definition entering :: "bytes \<Rightarrow> nat \<Rightarrow> u8 \<Rightarrow> bool \<Rightarrow> bool \<Rightarrow> bool" where
  "entering bs k last_row_char was_same did_star \<longleftrightarrow>
    (if k = 0 then \<not> was_same \<and> \<not> did_star
     else last_row_char = bs ! (16 * (k - 1)) \<and> was_same = one_byte bs (k - 1) \<and> did_star = repeats bs (k - 1))"

lemma hexdump_round_result:
  assumes b: "ready b m" and k: "16 * k < b_len b" and inv: "entering (bl_bytes m b) k l w d"
  shows "\<exists>l' w' d'. hexdump_round b m (16 * k) l w d = Inr (row_out (bl_bytes m b) k, l', w', d') \<and>
    (16 * Suc k < b_len b \<longrightarrow> entering (bl_bytes m b) (Suc k) l' w' d')"
proof -
  let ?bs = "bl_bytes m b" and ?c = "bl_bytes m b ! (16 * k)"
  have len: "b_len b = length ?bs" using readyD(4) [OF b] .
  let ?l = "if k = 0 then ?c else l"
  have first: "(if 16 * k = 0 then blist_index m b (16 * k) else Inr l) = Inr ?l"
    using index_in_bounds [OF b, of "16 * k"] k by auto
  have cs: "index_all b m [16 * k ..< min (16 * k + 16) (b_len b)] = Inr (row_of ?bs k)"
    using index_all_bytes [OF b, of "min (16 * k + 16) (b_len b)" "16 * k"] k
    by (auto simp: row_of_def seg_def len min_def)
  show ?thesis
  proof (cases "16 * Suc k < b_len b")
    case False
    then have "\<not> repeats ?bs k" by (simp add: repeats_def len)
    moreover have "hexdump_round b m (16 * k) l w d = Inr (row_text (16 * k) (row_of ?bs k), ?l, w, d)"
      unfolding hexdump_round_def first ebind_simps cs using False by simp
    ultimately show ?thesis using False by (simp add: row_out_def)
  next
    case True
    have row: "row_of ?bs k = ?c # seg (Suc (16 * k)) 15 ?bs" by (rule row_first) (use k len in simp)
    have one: "one_byte ?bs k \<longleftrightarrow> (\<forall>e \<in> set (seg (Suc (16 * k)) 15 ?bs). e = ?c)"
      by (rule one_byte_iff) (use True len in simp)
    have scan: "scan_row (row_of ?bs k) ?l w d = (one_byte ?bs k, ?c, w \<and> ?c = ?l, d \<and> ?c = ?l)"
      unfolding row scan_row_result one ..
    have rep: "repeats ?bs k \<longleftrightarrow> one_byte ?bs k \<and> w \<and> ?c = ?l"
    proof (cases "k = 0")
      case True
      then show ?thesis using inv by (simp add: repeats_def entering_def)
    next
      case False
      then show ?thesis using repeats_iff [of k ?bs] True inv len by (auto simp: entering_def)
    qed
    have dw: "d \<Longrightarrow> w" using inv True len by (auto simp: entering_def repeats_def one_byte_def split: if_splits)
    have d: "repeats ?bs k \<Longrightarrow> d = repeats ?bs (k - 1)" using inv by (auto simp: entering_def repeats_def)
    have "hexdump_round b m (16 * k) l w d =
      (if one_byte ?bs k
       then if w \<and> ?c = ?l then Inr (if d \<and> ?c = ?l then [] else [char_of (10 :: nat), CHR ''*''], ?c, w \<and> ?c = ?l, True)
            else Inr (row_text (16 * k) (row_of ?bs k), ?c, True, d \<and> ?c = ?l)
       else Inr (row_text (16 * k) (row_of ?bs k), ?c, False, False))"
      unfolding hexdump_round_def first ebind_simps cs using True by (simp add: scan)
    then have "hexdump_round b m (16 * k) l w d = Inr (row_out ?bs k, ?c, one_byte ?bs k, repeats ?bs k)"
    proof (cases "repeats ?bs k")
      case True
      then show ?thesis using \<open>hexdump_round b m (16 * k) l w d = _\<close> rep d by (simp only: row_out_def if_True if_False simp_thms)
    next
      case False
      then have "\<not> (one_byte ?bs k \<and> w \<and> ?c = ?l)" using rep by blast
      then show ?thesis using \<open>hexdump_round b m (16 * k) l w d = _\<close> False dw
        by (cases "one_byte ?bs k"; cases "d \<and> ?c = ?l") (simp_all only: row_out_def if_True if_False simp_thms)
    qed
    moreover have "entering ?bs (Suc k) ?c (one_byte ?bs k) (repeats ?bs k)" by (simp add: entering_def)
    ultimately show ?thesis by blast
  qed
qed

lemma hexdump_rows_result:
  assumes b: "ready b m" and inv: "entering (bl_bytes m b) k l w d"
  shows "hexdump_rows b m (16 * k) l w d =
    Inr (concat (map (row_out (bl_bytes m b)) [k ..< (b_len b + 15) div 16]))"
  using inv
proof (induction "(b_len b + 15) div 16 - k" arbitrary: k l w d)
  case 0
  then have "\<not> 16 * k < b_len b" by simp
  then show ?case using 0 by (simp add: hexdump_rows.simps)
next
  case (Suc n)
  have lt: "k < (b_len b + 15) div 16" using Suc.hyps(2) by simp
  then have k: "16 * k < b_len b" by simp
  obtain l' w' d' where r: "hexdump_round b m (16 * k) l w d = Inr (row_out (bl_bytes m b) k, l', w', d')"
    and next_ok: "16 * Suc k < b_len b \<longrightarrow> entering (bl_bytes m b) (Suc k) l' w' d'"
    using hexdump_round_result [OF b k Suc.prems] by blast
  have "hexdump_rows b m (16 * Suc k) l' w' d' =
    Inr (concat (map (row_out (bl_bytes m b)) [Suc k ..< (b_len b + 15) div 16]))"
  proof (cases "16 * Suc k < b_len b")
    case True
    then show ?thesis using Suc.hyps(1) [of "Suc k"] Suc.hyps(2) next_ok by simp
  next
    case False
    then have "[Suc k ..< (b_len b + 15) div 16] = []" using lt by simp
    then show ?thesis using False by (simp add: hexdump_rows.simps)
  qed
  then show ?case using k r upt_conv_Cons [OF lt] by (subst hexdump_rows.simps) (simp add: add.commute)
qed

text \<open>
  C38 (equivalence). The dump of a list is a function of its bytes: for each 16 of them one row with the
  offset, the bytes and their characters; a row that consists of one byte repeated, as did the row
  before it, is left out unless it is the last, with one star for each run of such rows. The loops end,
  and every index is inside the list.
\<close>

theorem hexdump_is_dump:
  assumes "ready b m"
  shows "hexdump b m trailing_newline = Inr (dump_of (bl_bytes m b) trailing_newline)"
proof -
  have len: "b_len b = length (bl_bytes m b)" using readyD(4) [OF assms] .
  have "entering (bl_bytes m b) 0 0 False False" by (simp add: entering_def)
  from hexdump_rows_result [OF assms this] show ?thesis by (simp add: hexdump_def dump_of_def len)
qed

theorem hexdump_is_dump_witness:
  "\<exists>m b. length (bufs b) = 2 \<and>
    hexdump b m False = Inr ''00000000  01 02 03 01 02 03                                 |......|''"
proof -
  obtain m b where r: "ready b m" and b: "bl_bytes m b = [1, 2, 3, 1, 2, 3]" "bufs b = [1, 2]"
    using demo_list by blast
  have "dump_of [1, 2, 3, 1, 2, 3] False = ''00000000  01 02 03 01 02 03                                 |......|''"
    by code_simp
  then show ?thesis using hexdump_is_dump [OF r, of False] b by (intro exI [of _ m] exI [of _ b]) simp
qed

end
