(* ===== verification/Std_Tree.thy ===== *)
theory Std_Tree
  imports Loops
begin

text \<open>
  The ordered containers of the standard library, as far as the compact containers use them: a tree is
  its elements in order, each in a node with a number of its own, so that an iterator stays on its
  node while others come and go. \<open>key\<close> is what the elements are ordered by.
\<close>

type_synonym 'e tree = "(nat \<times> 'e) list"

text \<open>An iterator of the tree: default-constructed, on a node, or behind the last.\<close>

datatype pos = Singular | Node nat | Past

subsection \<open>Positions\<close>

definition first_pos :: "'e tree \<Rightarrow> pos" where
  "first_pos t = (case t of [] \<Rightarrow> Past | x # _ \<Rightarrow> Node (fst x))"

definition tree_lower :: "('e \<Rightarrow> 'k :: linorder) \<Rightarrow> 'k \<Rightarrow> 'e tree \<Rightarrow> pos" where
  "tree_lower key k t = first_pos (dropWhile (\<lambda>x. key (snd x) < k) t)"

definition tree_upper :: "('e \<Rightarrow> 'k :: linorder) \<Rightarrow> 'k \<Rightarrow> 'e tree \<Rightarrow> pos" where
  "tree_upper key k t = first_pos (dropWhile (\<lambda>x. key (snd x) \<le> k) t)"

definition tree_find :: "('e \<Rightarrow> 'k :: linorder) \<Rightarrow> 'k \<Rightarrow> 'e tree \<Rightarrow> pos" where
  "tree_find key k t = first_pos (filter (\<lambda>x. key (snd x) = k) t)"

definition tree_count :: "('e \<Rightarrow> 'k :: linorder) \<Rightarrow> 'k \<Rightarrow> 'e tree \<Rightarrow> nat" where
  "tree_count key k t = length (filter (\<lambda>x. key (snd x) = k) t)"

definition tree_at :: "pos \<Rightarrow> 'e tree \<Rightarrow> exn + 'e" where
  "tree_at p t = (case p of Node n \<Rightarrow> (case map_of t n of None \<Rightarrow> Inl Undefined | Some e \<Rightarrow> Inr e) | _ \<Rightarrow> Inl Undefined)"

definition tree_next :: "pos \<Rightarrow> 'e tree \<Rightarrow> exn + pos" where
  "tree_next p t =
    (case p of
       Node n \<Rightarrow> (case dropWhile (\<lambda>x. fst x \<noteq> n) t of [] \<Rightarrow> Inl Undefined | _ # t' \<Rightarrow> Inr (first_pos t'))
     | _ \<Rightarrow> Inl Undefined)"

definition tree_prev :: "pos \<Rightarrow> 'e tree \<Rightarrow> exn + pos" where
  "tree_prev p t =
    (case p of
       Node n \<Rightarrow>
         if n \<in> fst ` set t \<and> takeWhile (\<lambda>x. fst x \<noteq> n) t \<noteq> []
         then Inr (Node (fst (last (takeWhile (\<lambda>x. fst x \<noteq> n) t)))) else Inl Undefined
     | Past \<Rightarrow> if t \<noteq> [] then Inr (Node (fst (last t))) else Inl Undefined
     | Singular \<Rightarrow> Inl Undefined)"

text \<open>
  A reverse iterator is held by its base, the position one behind its element: it moves on where the base
  moves back, and reads what stands before the base.
\<close>

definition rev_next :: "pos \<Rightarrow> 'e tree \<Rightarrow> exn + pos" where
  "rev_next p t = tree_prev p t"

definition rev_prev :: "pos \<Rightarrow> 'e tree \<Rightarrow> exn + pos" where
  "rev_prev p t = tree_next p t"

definition rev_at :: "pos \<Rightarrow> 'e tree \<Rightarrow> exn + 'e" where
  "rev_at p t = ebind (tree_prev p t) (\<lambda>q. tree_at q t)"

subsection \<open>Changes\<close>

text \<open>
  A new element goes behind the equal ones; where keys are unique, one that is there already stays.
\<close>

definition tree_insert_equal :: "('e \<Rightarrow> 'k :: linorder) \<Rightarrow> nat \<Rightarrow> 'e \<Rightarrow> 'e tree \<Rightarrow> 'e tree" where
  "tree_insert_equal key n e t =
    takeWhile (\<lambda>x. key (snd x) \<le> key e) t @ (n, e) # dropWhile (\<lambda>x. key (snd x) \<le> key e) t"

definition tree_insert_unique :: "('e \<Rightarrow> 'k :: linorder) \<Rightarrow> nat \<Rightarrow> 'e \<Rightarrow> 'e tree \<Rightarrow> 'e tree \<times> pos \<times> bool" where
  "tree_insert_unique key n e t =
    (case tree_find key (key e) t of
       Node i \<Rightarrow> (t, Node i, False)
     | _ \<Rightarrow> (tree_insert_equal key n e t, Node n, True))"

definition tree_erase :: "pos \<Rightarrow> 'e tree \<Rightarrow> exn + 'e tree \<times> pos" where
  "tree_erase p t =
    ebind (tree_next p t) (\<lambda>q. Inr (filter (\<lambda>x. Node (fst x) \<noteq> p) t, q))"

definition tree_erase_key :: "('e \<Rightarrow> 'k :: linorder) \<Rightarrow> 'k \<Rightarrow> 'e tree \<Rightarrow> 'e tree \<times> nat" where
  "tree_erase_key key k t = (filter (\<lambda>x. key (snd x) \<noteq> k) t, tree_count key k t)"

text \<open>The copy of a tree has nodes of its own, numbered from \<open>n\<close>.\<close>

definition tree_copy :: "nat \<Rightarrow> 'e tree \<Rightarrow> 'e tree" where
  "tree_copy n t = zip [n ..< n + length t] (map snd t)"

definition tree_equal :: "'e tree \<Rightarrow> 'e tree \<Rightarrow> bool" where
  "tree_equal t t' \<longleftrightarrow> map snd t = map snd t'"

subsection \<open>Trees with unique keys\<close>

definition tree_ok :: "('e \<Rightarrow> 'k :: linorder) \<Rightarrow> nat \<Rightarrow> 'e tree \<Rightarrow> bool" where
  "tree_ok key n t \<longleftrightarrow>
    sorted_wrt (\<lambda>x y. key (snd x) < key (snd y)) t \<and> distinct (map fst t) \<and> (\<forall>x \<in> set t. fst x < n)"

lemma tree_ok_Nil [simp]: "tree_ok key n []"
  by (simp add: tree_ok_def)

lemma tree_ok_more: "tree_ok key n t \<Longrightarrow> n \<le> n' \<Longrightarrow> tree_ok key n' t"
  by (auto simp: tree_ok_def)

lemma tree_ok_filter: "tree_ok key n t \<Longrightarrow> tree_ok key n (filter P t)"
  by (auto simp: tree_ok_def sorted_wrt_filter distinct_map_filter)

lemma unique_key:
  assumes "tree_ok key n t" "x \<in> set t" "y \<in> set t" "key (snd x) = key (snd y)"
  shows "x = y"
proof -
  have "sorted_wrt (\<lambda>x y. key (snd x) < key (snd y)) t" using assms(1) by (simp add: tree_ok_def)
  then show ?thesis using assms(2-4) by (induction t) auto
qed

lemma unique_node:
  assumes "tree_ok key n t" "x \<in> set t" "y \<in> set t" "fst x = fst y"
  shows "x = y"
  using assms by (metis eq_key_imp_eq_value prod.collapse tree_ok_def)

lemma tree_find_cases:
  assumes "tree_ok key n t"
  obtains (absent) "tree_find key k t = Past" "\<And>x. x \<in> set t \<Longrightarrow> key (snd x) \<noteq> k"
  | (present) i e where "tree_find key k t = Node i" "(i, e) \<in> set t" "key e = k"
proof (cases "filter (\<lambda>x. key (snd x) = k) t")
  case Nil
  then show ?thesis using absent by (auto simp: tree_find_def first_pos_def filter_empty_conv)
next
  case (Cons x xs)
  then have "x \<in> set (filter (\<lambda>x. key (snd x) = k) t)" by simp
  then have "x \<in> set t \<and> key (snd x) = k" by simp
  then show ?thesis using present [of "fst x" "snd x"] Cons by (simp add: tree_find_def first_pos_def)
qed

lemma set_insert_equal [simp]: "set (tree_insert_equal key n e t) = insert (n, e) (set t)"
proof -
  have "set t = set (takeWhile (\<lambda>x. key (snd x) \<le> key e) t) \<union> set (dropWhile (\<lambda>x. key (snd x) \<le> key e) t)"
    by (metis set_append takeWhile_dropWhile_id)
  then show ?thesis by (auto simp: tree_insert_equal_def)
qed

lemma insert_equal_sorted:
  assumes "sorted_wrt (\<lambda>x y. key (snd x) < key (snd y)) t" "\<And>x. x \<in> set t \<Longrightarrow> key (snd x) \<noteq> key e"
  shows "sorted_wrt (\<lambda>x y. key (snd x) < key (snd y)) (tree_insert_equal key n e t)"
  using assms
proof (induction t)
  case Nil
  then show ?case by (simp add: tree_insert_equal_def)
next
  case (Cons x t)
  show ?case
  proof (cases "key (snd x) \<le> key e")
    case True
    then have "tree_insert_equal key n e (x # t) = x # tree_insert_equal key n e t" by (simp add: tree_insert_equal_def)
    moreover have "key (snd x) < key e" using True Cons.prems(2) [of x] by simp
    ultimately show ?thesis using Cons by simp
  next
    case False
    then have "tree_insert_equal key n e (x # t) = (n, e) # x # t" by (simp add: tree_insert_equal_def)
    then show ?thesis using False Cons.prems(1) by auto
  qed
qed

lemma tree_ok_insert:
  assumes "tree_ok key n t" "\<And>x. x \<in> set t \<Longrightarrow> key (snd x) \<noteq> key e"
  shows "tree_ok key (Suc n) (tree_insert_equal key n e t)"
proof -
  have d: "distinct (map fst t)" "n \<notin> fst ` set t" using assms(1) by (auto simp: tree_ok_def)
  define t1 t2 where "t1 = takeWhile (\<lambda>x. key (snd x) \<le> key e) t" and "t2 = dropWhile (\<lambda>x. key (snd x) \<le> key e) t"
  then have t: "t = t1 @ t2" "tree_insert_equal key n e t = t1 @ (n, e) # t2" by (simp_all add: tree_insert_equal_def)
  have "distinct (map fst (tree_insert_equal key n e t))" unfolding t(2) using d unfolding t(1) by auto
  then show ?thesis
    using assms insert_equal_sorted [of key t e n] by (auto simp: tree_ok_def less_Suc_eq)
qed

lemma tree_ok_copy:
  assumes "tree_ok key n t"
  shows "tree_ok key (m + length t) (tree_copy m t)" "map snd (tree_copy m t) = map snd t"
proof -
  show snd: "map snd (tree_copy m t) = map snd t" by (simp add: tree_copy_def)
  have "sorted_wrt (\<lambda>x y. key x < key y) (map snd (tree_copy m t))"
    unfolding snd using assms by (simp add: tree_ok_def sorted_wrt_map)
  then have "sorted_wrt (\<lambda>x y. key (snd x) < key (snd y)) (tree_copy m t)" by (simp add: sorted_wrt_map)
  moreover have "distinct (map fst (tree_copy m t))" "\<forall>x \<in> set (tree_copy m t). fst x < m + length t"
    by (auto simp: tree_copy_def dest: set_zip_leftD)
  ultimately show "tree_ok key (m + length t) (tree_copy m t)" by (simp add: tree_ok_def)
qed

lemma tree_erase_node:
  assumes "tree_ok key n t" "(i, e) \<in> set t"
  shows "\<exists>q. tree_erase (Node i) t = Inr (filter (\<lambda>x. key (snd x) \<noteq> key e) t, q)"
proof -
  have "\<exists>x \<in> set t. \<not> fst x \<noteq> i" using assms(2) by force
  then have "dropWhile (\<lambda>x. fst x \<noteq> i) t \<noteq> []" by (simp add: dropWhile_eq_Nil_conv)
  then obtain y t' where "dropWhile (\<lambda>x. fst x \<noteq> i) t = y # t'" by (meson list.exhaust)
  then have "tree_next (Node i) t = Inr (first_pos t')" by (simp add: tree_next_def)
  moreover have "filter (\<lambda>x. Node (fst x) \<noteq> Node i) t = filter (\<lambda>x. key (snd x) \<noteq> key e) t"
    using unique_key [OF assms(1) _ assms(2)] unique_node [OF assms(1) _ assms(2)]
    by (intro filter_cong) (auto simp: prod_eq_iff)
  ultimately show ?thesis by (auto simp: tree_erase_def)
qed

lemma tree_at_node:
  assumes "tree_ok key n t" "(i, e) \<in> set t"
  shows "tree_at (Node i) t = Inr e"
  using assms by (simp add: tree_at_def tree_ok_def)

lemma tree_count_unique:
  assumes "tree_ok key n t"
  shows "tree_count key k t = (if k \<in> (key \<circ> snd) ` set t then 1 else 0)"
proof -
  have "sorted_wrt (\<lambda>x y. key (snd x) < key (snd y)) t" using assms by (simp add: tree_ok_def)
  then show ?thesis
  proof (induction t)
    case (Cons x t)
    then have "key (snd x) \<notin> (key \<circ> snd) ` set t" by auto
    then show ?case using Cons by (auto simp: tree_count_def)
  qed (simp add: tree_count_def)
qed

subsection \<open>Walks\<close>

lemma first_pos_proper [simp]: "first_pos t \<noteq> Singular"
  by (simp add: first_pos_def split: list.splits)

lemma first_pos_same:
  assumes "distinct (map fst (t1 @ t2))"
  shows "first_pos (t1 @ t2) = first_pos t2 \<longleftrightarrow> t1 = []"
  using assms by (cases t1; cases t2) (auto simp: first_pos_def)

lemma walk_node:
  assumes "distinct (map fst (t1 @ x # t2))"
  shows "tree_next (Node (fst x)) (t1 @ x # t2) = Inr (first_pos t2)"
    "tree_at (Node (fst x)) (t1 @ x # t2) = Inr (snd x)"
proof -
  have "fst x \<notin> fst ` set t1" using assms by simp
  then have "fst y \<noteq> fst x" if "y \<in> set t1" for y using that by (metis imageI)
  then have "dropWhile (\<lambda>y. fst y \<noteq> fst x) (t1 @ x # t2) = x # t2" by (simp add: dropWhile_append2)
  then show "tree_next (Node (fst x)) (t1 @ x # t2) = Inr (first_pos t2)" by (simp add: tree_next_def)
  have "map_of (t1 @ x # t2) (fst x) = Some (snd x)" by (rule map_of_is_SomeI) (use assms in simp_all)
  then show "tree_at (Node (fst x)) (t1 @ x # t2) = Inr (snd x)" by (simp add: tree_at_def del: map_of_append)
qed

lemma walk_back_node:
  assumes "distinct (map fst (t1 @ x # t2))"
  shows "rev_next (first_pos t2) (t1 @ x # t2) = Inr (Node (fst x))"
    "rev_at (first_pos t2) (t1 @ x # t2) = Inr (snd x)"
proof -
  show prev: "rev_next (first_pos t2) (t1 @ x # t2) = Inr (Node (fst x))"
  proof (cases t2)
    case Nil
    then show ?thesis by (simp add: rev_next_def tree_prev_def first_pos_def)
  next
    case (Cons y t3)
    have "fst y \<notin> fst ` set (t1 @ [x])" using assms unfolding Cons by auto
    then have "fst z \<noteq> fst y" if "z \<in> set (t1 @ [x])" for z using that by (metis imageI)
    then have "takeWhile (\<lambda>z. fst z \<noteq> fst y) ((t1 @ [x]) @ y # t3) = t1 @ [x]"
      by (subst takeWhile_append2) auto
    then show ?thesis using Cons by (simp add: rev_next_def tree_prev_def first_pos_def)
  qed
  show "rev_at (first_pos t2) (t1 @ x # t2) = Inr (snd x)"
    using prev walk_node(2) [OF assms] by (simp add: rev_at_def rev_next_def)
qed

text \<open>What a loop over a container sees, from what one round of it does: \<open>at\<close> makes its iterators.\<close>

lemma walk_run:
  assumes stop: "\<And>seen. round (at Past, seen) = Inr (Inl seen)"
    and step: "\<And>t1 x t2 seen. t = t1 @ x # t2 \<Longrightarrow> round (at (Node (fst x)), seen) = Inr (Inr (at (first_pos t2), seen @ [snd x]))"
    and split: "t = t1 @ t2"
  shows "run round (at (first_pos t2), seen) = Some (Inr (seen @ map snd t2))"
  using split
proof (induction t2 arbitrary: t1 seen)
  case Nil
  then show ?case using run_simps(2) [where step = round and s = "(at Past, seen)", OF stop] by (simp add: first_pos_def)
next
  case (Cons x t2)
  have "run round (at (first_pos (x # t2)), seen) = run round (at (first_pos t2), seen @ [snd x])"
    using run_simps(3) [where step = round, OF step [OF Cons.prems]] by (simp add: first_pos_def [of "x # t2"])
  also have "\<dots> = Some (Inr ((seen @ [snd x]) @ map snd t2))"
    by (rule Cons.IH [of "t1 @ [x]"]) (use Cons.prems in simp)
  finally show ?case by simp
qed

lemma walk_back_run:
  assumes stop: "\<And>seen. round (at (first_pos t), seen) = Inr (Inl seen)"
    and step: "\<And>t1 x t2 seen. t = t1 @ x # t2 \<Longrightarrow>
      round (at (first_pos t2), seen) = Inr (Inr (at (first_pos (x # t2)), seen @ [snd x]))"
    and split: "t = t1 @ t2"
  shows "run round (at (first_pos t2), seen) = Some (Inr (seen @ rev (map snd t1)))"
  using split
proof (induction t1 arbitrary: t2 seen rule: rev_induct)
  case Nil
  then show ?case using run_simps(2) [where step = round and s = "(at (first_pos t), seen)", OF stop] by simp
next
  case (snoc x t1)
  have "run round (at (first_pos t2), seen) = run round (at (first_pos (x # t2)), seen @ [snd x])"
    by (rule run_simps(3) [where step = round], rule step) (use snoc.prems in simp)
  also have "\<dots> = Some (Inr ((seen @ [snd x]) @ rev (map snd t1)))"
    by (rule snoc.IH) (use snoc.prems in simp)
  finally show ?case by simp
qed

lemma sorted_split:
  assumes "sorted_wrt R t" "\<And>x y. R x y \<Longrightarrow> P y \<Longrightarrow> P x"
  shows "takeWhile P t = filter P t" "dropWhile P t = filter (\<lambda>x. \<not> P x) t"
proof -
  have "takeWhile P t = filter P t \<and> dropWhile P t = filter (\<lambda>x. \<not> P x) t"
    using assms(1)
  proof (induction t)
    case (Cons x t)
    have "\<forall>y \<in> set t. \<not> P y" if "\<not> P x" using Cons.prems assms(2) that by auto
    then have "filter P t = [] \<and> filter (\<lambda>x. \<not> P x) t = t" if "\<not> P x"
      using that by (simp add: filter_False filter_True)
    then show ?case using Cons by auto
  qed simp
  then show "takeWhile P t = filter P t" "dropWhile P t = filter (\<lambda>x. \<not> P x) t" by simp_all
qed

lemma tree_bounds:
  assumes "tree_ok key n t"
  shows "tree_lower key k t = first_pos (filter (\<lambda>x. k \<le> key (snd x)) t)"
    "filter (\<lambda>x. key (snd x) < k) t @ filter (\<lambda>x. k \<le> key (snd x)) t = t"
    "tree_upper key k t = first_pos (filter (\<lambda>x. k < key (snd x)) t)"
    "filter (\<lambda>x. key (snd x) \<le> k) t @ filter (\<lambda>x. k < key (snd x)) t = t"
proof -
  have s: "sorted_wrt (\<lambda>x y. key (snd x) < key (snd y)) t" using assms by (simp add: tree_ok_def)
  note low = sorted_split [OF s, of "\<lambda>x. key (snd x) < k"]
  note up = sorted_split [OF s, of "\<lambda>x. key (snd x) \<le> k"]
  have l: "takeWhile (\<lambda>x. key (snd x) < k) t = filter (\<lambda>x. key (snd x) < k) t"
    "dropWhile (\<lambda>x. key (snd x) < k) t = filter (\<lambda>x. k \<le> key (snd x)) t"
    using low by (simp_all add: not_less)
  have u: "takeWhile (\<lambda>x. key (snd x) \<le> k) t = filter (\<lambda>x. key (snd x) \<le> k) t"
    "dropWhile (\<lambda>x. key (snd x) \<le> k) t = filter (\<lambda>x. k < key (snd x)) t"
    using up by (simp_all add: not_le)
  show "tree_lower key k t = first_pos (filter (\<lambda>x. k \<le> key (snd x)) t)" by (simp add: tree_lower_def l)
  show "filter (\<lambda>x. key (snd x) < k) t @ filter (\<lambda>x. k \<le> key (snd x)) t = t"
    unfolding l [symmetric] by (rule takeWhile_dropWhile_id)
  show "tree_upper key k t = first_pos (filter (\<lambda>x. k < key (snd x)) t)" by (simp add: tree_upper_def u)
  show "filter (\<lambda>x. key (snd x) \<le> k) t @ filter (\<lambda>x. k < key (snd x)) t = t"
    unfolding u [symmetric] by (rule takeWhile_dropWhile_id)
qed

end
