(* ===== verification/Compact_Map.thy ===== *)
theory Compact_Map
  imports Std_Tree
begin

text \<open>
  The compact maps of \<^verbatim>\<open>compact_map.h\<close>: a \<^verbatim>\<open>std::map\<close> or \<^verbatim>\<open>std::multimap\<close> behind a pointer, which is null while
  there is nothing in it. An iterator carries the address of its compact map beside the iterator of the
  tree; \<open>w\<close> gives the \<^verbatim>\<open>m_map\<close> of each address.
\<close>

type_synonym ('k, 'v) cmap = "('k \<times> 'v) tree option"

definition cmap_alloc :: "('k, 'v) cmap \<Rightarrow> ('k \<times> 'v) tree" where
  "cmap_alloc m_map = (case m_map of None \<Rightarrow> [] | Some t \<Rightarrow> t)"

subsection \<open>Iterators\<close>

record citer =
  it_map :: "nat option"
  it_pos :: pos

definition citer_new :: citer where
  "citer_new = \<lparr>it_map = None, it_pos = Singular\<rparr>"

definition citer_of :: "nat \<Rightarrow> citer" where
  "citer_of a = \<lparr>it_map = Some a, it_pos = Singular\<rparr>"

definition citer_at :: "nat \<Rightarrow> pos \<Rightarrow> citer" where
  "citer_at a it = \<lparr>it_map = Some a, it_pos = it\<rparr>"

definition citer_copy :: "citer \<Rightarrow> citer" where
  "citer_copy other = \<lparr>it_map = it_map other, it_pos = it_pos other\<rparr>"

definition citer_assign :: "citer \<Rightarrow> citer \<Rightarrow> citer" where
  "citer_assign i other = i\<lparr>it_map := it_map other, it_pos := it_pos other\<rparr>"

text \<open>What an \<open>iterator\<close> becomes where a \<open>const_iterator\<close> is asked for.\<close>

definition citer_const :: "citer \<Rightarrow> citer" where
  "citer_const i = \<lparr>it_map = it_map i, it_pos = it_pos i\<rparr>"

text \<open>A default-constructed iterator of the tree may be compared with its like only.\<close>

definition pos_equal :: "pos \<Rightarrow> pos \<Rightarrow> exn + bool" where
  "pos_equal p q = (if (p = Singular) \<noteq> (q = Singular) then Inl Undefined else Inr (p = q))"

definition citer_equal :: "(nat \<Rightarrow> ('k, 'v) cmap) \<Rightarrow> citer \<Rightarrow> citer \<Rightarrow> exn + bool" where
  "citer_equal w i j =
    (if it_map i \<noteq> it_map j then Inr False
     else
       case it_map i of None \<Rightarrow> Inl Undefined
       | Some a \<Rightarrow> if w a = None then Inr True else pos_equal (it_pos i) (it_pos j))"

definition citer_not_equal :: "(nat \<Rightarrow> ('k, 'v) cmap) \<Rightarrow> citer \<Rightarrow> citer \<Rightarrow> exn + bool" where
  "citer_not_equal w i j = ebind (citer_equal w i j) (\<lambda>e. Inr (\<not> e))"

text \<open>\<open>t\<close> is the tree whose node the iterator is on. The postfix form gives the old iterator and the new one.\<close>

definition citer_next :: "('k \<times> 'v) tree \<Rightarrow> citer \<Rightarrow> exn + citer" where
  "citer_next t i = ebind (tree_next (it_pos i) t) (\<lambda>p. Inr (i\<lparr>it_pos := p\<rparr>))"

definition citer_post_next :: "('k \<times> 'v) tree \<Rightarrow> citer \<Rightarrow> exn + citer \<times> citer" where
  "citer_post_next t i = ebind (citer_next t i) (\<lambda>j. Inr (citer_copy i, j))"

definition citer_prev :: "('k \<times> 'v) tree \<Rightarrow> citer \<Rightarrow> exn + citer" where
  "citer_prev t i = ebind (tree_prev (it_pos i) t) (\<lambda>p. Inr (i\<lparr>it_pos := p\<rparr>))"

definition citer_deref :: "('k \<times> 'v) tree \<Rightarrow> citer \<Rightarrow> exn + 'k \<times> 'v" where
  "citer_deref t i = tree_at (it_pos i) t"

text \<open>The same template over the reverse iterators of the tree.\<close>

definition criter_next :: "('k \<times> 'v) tree \<Rightarrow> citer \<Rightarrow> exn + citer" where
  "criter_next t i = ebind (rev_next (it_pos i) t) (\<lambda>p. Inr (i\<lparr>it_pos := p\<rparr>))"

definition criter_post_next :: "('k \<times> 'v) tree \<Rightarrow> citer \<Rightarrow> exn + citer \<times> citer" where
  "criter_post_next t i = ebind (criter_next t i) (\<lambda>j. Inr (citer_copy i, j))"

definition criter_prev :: "('k \<times> 'v) tree \<Rightarrow> citer \<Rightarrow> exn + citer" where
  "criter_prev t i = ebind (rev_prev (it_pos i) t) (\<lambda>p. Inr (i\<lparr>it_pos := p\<rparr>))"

definition criter_deref :: "('k \<times> 'v) tree \<Rightarrow> citer \<Rightarrow> exn + 'k \<times> 'v" where
  "criter_deref t i = rev_at (it_pos i) t"

subsection \<open>Operations\<close>

text \<open>The results are \<^verbatim>\<open>m_map\<close> and what is returned; \<open>this\<close> is the address; new nodes are numbered from \<open>n\<close>.\<close>

definition cmap_copy :: "nat \<Rightarrow> ('k, 'v) cmap \<Rightarrow> ('k, 'v) cmap" where
  "cmap_copy n other = (case other of None \<Rightarrow> None | Some t \<Rightarrow> Some (tree_copy n t))"

definition cmap_empty :: "('k, 'v) cmap \<Rightarrow> bool" where
  "cmap_empty m_map = (case m_map of None \<Rightarrow> True | Some t \<Rightarrow> t = [])"

definition cmap_size :: "('k, 'v) cmap \<Rightarrow> nat" where
  "cmap_size m_map = (case m_map of None \<Rightarrow> 0 | Some t \<Rightarrow> length t)"

definition cmap_equal :: "('k, 'v) cmap \<Rightarrow> ('k, 'v) cmap \<Rightarrow> bool" where
  "cmap_equal m_map other =
    (cmap_empty m_map \<and> cmap_empty other \<or>
     (case m_map of None \<Rightarrow> False | Some t \<Rightarrow> (case other of None \<Rightarrow> False | Some t' \<Rightarrow> tree_equal t t')))"

definition cmap_not_equal :: "('k, 'v) cmap \<Rightarrow> ('k, 'v) cmap \<Rightarrow> bool" where
  "cmap_not_equal m_map other = (\<not> cmap_equal m_map other)"

definition cmap_count :: "'k :: linorder \<Rightarrow> ('k, 'v) cmap \<Rightarrow> nat" where
  "cmap_count k m_map = (case m_map of None \<Rightarrow> 0 | Some t \<Rightarrow> tree_count fst k t)"

definition cmap_erase_at :: "nat \<Rightarrow> citer \<Rightarrow> ('k, 'v) cmap \<Rightarrow> exn + ('k, 'v) cmap \<times> citer" where
  "cmap_erase_at this p m_map =
    (case m_map of None \<Rightarrow> Inr (None, citer_of this)
     | Some t \<Rightarrow>
         ebind (spec_assert (it_map p = Some this)) (\<lambda>_.
         ebind (tree_erase (it_pos p) t) (\<lambda>(t, it).
           if t = [] then Inr (None, citer_of this) else Inr (Some t, citer_at this it))))"

definition cmap_erase :: "'k :: linorder \<Rightarrow> ('k, 'v) cmap \<Rightarrow> ('k, 'v) cmap \<times> nat" where
  "cmap_erase k m_map =
    (case m_map of None \<Rightarrow> (None, 0)
     | Some t \<Rightarrow> (case tree_erase_key fst k t of (t, r) \<Rightarrow> (if t = [] then None else Some t, r)))"

definition cmap_clear :: "('k, 'v) cmap \<Rightarrow> ('k, 'v) cmap" where
  "cmap_clear m_map = None"

definition cmap_swap :: "('k, 'v) cmap \<Rightarrow> ('k, 'v) cmap \<Rightarrow> ('k, 'v) cmap \<times> ('k, 'v) cmap" where
  "cmap_swap m_map other = (other, m_map)"

definition cmap_assign :: "nat \<Rightarrow> ('k, 'v) cmap \<Rightarrow> ('k, 'v) cmap \<Rightarrow> ('k, 'v) cmap" where
  "cmap_assign n m_map other = (case other of None \<Rightarrow> None | Some t \<Rightarrow> Some (tree_copy n t))"

text \<open>\<open>insert\<close> for \<^verbatim>\<open>compact_multimap\<close>, \<open>emplace\<close> for \<^verbatim>\<open>compact_map\<close>: only there the types fit.\<close>

definition cmap_insert :: "nat \<Rightarrow> nat \<Rightarrow> 'k :: linorder \<times> 'v \<Rightarrow> ('k, 'v) cmap \<Rightarrow> ('k, 'v) cmap \<times> citer" where
  "cmap_insert this n val m_map = (Some (tree_insert_equal fst n val (cmap_alloc m_map)), citer_at this (Node n))"

definition cmap_emplace ::
    "nat \<Rightarrow> nat \<Rightarrow> 'k :: linorder \<times> 'v \<Rightarrow> ('k, 'v) cmap \<Rightarrow> ('k, 'v) cmap \<times> citer \<times> bool" where
  "cmap_emplace this n val m_map =
    (case tree_insert_unique fst n val (cmap_alloc m_map) of (t, it, ok) \<Rightarrow> (Some t, citer_at this it, ok))"

definition cmap_begin :: "nat \<Rightarrow> ('k, 'v) cmap \<Rightarrow> citer" where
  "cmap_begin this m_map = (case m_map of None \<Rightarrow> citer_of this | Some t \<Rightarrow> citer_at this (first_pos t))"

definition cmap_end :: "nat \<Rightarrow> ('k, 'v) cmap \<Rightarrow> citer" where
  "cmap_end this m_map = (case m_map of None \<Rightarrow> citer_of this | Some t \<Rightarrow> citer_at this Past)"

definition cmap_find :: "nat \<Rightarrow> 'k :: linorder \<Rightarrow> ('k, 'v) cmap \<Rightarrow> citer" where
  "cmap_find this k m_map = (case m_map of None \<Rightarrow> citer_of this | Some t \<Rightarrow> citer_at this (tree_find fst k t))"

definition cmap_lower_bound :: "nat \<Rightarrow> 'k :: linorder \<Rightarrow> ('k, 'v) cmap \<Rightarrow> citer" where
  "cmap_lower_bound this k m_map =
    (case m_map of None \<Rightarrow> citer_of this | Some t \<Rightarrow> citer_at this (tree_lower fst k t))"

definition cmap_upper_bound :: "nat \<Rightarrow> 'k :: linorder \<Rightarrow> ('k, 'v) cmap \<Rightarrow> citer" where
  "cmap_upper_bound this k m_map =
    (case m_map of None \<Rightarrow> citer_of this | Some t \<Rightarrow> citer_at this (tree_upper fst k t))"

text \<open>The overloads for a constant map, which give constant iterators.\<close>

definition cmap_cbegin :: "nat \<Rightarrow> ('k, 'v) cmap \<Rightarrow> citer" where
  "cmap_cbegin this m_map = (case m_map of None \<Rightarrow> citer_of this | Some t \<Rightarrow> citer_at this (first_pos t))"

definition cmap_cend :: "nat \<Rightarrow> ('k, 'v) cmap \<Rightarrow> citer" where
  "cmap_cend this m_map = (case m_map of None \<Rightarrow> citer_of this | Some t \<Rightarrow> citer_at this Past)"

definition cmap_cfind :: "nat \<Rightarrow> 'k :: linorder \<Rightarrow> ('k, 'v) cmap \<Rightarrow> citer" where
  "cmap_cfind this k m_map = (case m_map of None \<Rightarrow> citer_of this | Some t \<Rightarrow> citer_at this (tree_find fst k t))"

definition cmap_clower_bound :: "nat \<Rightarrow> 'k :: linorder \<Rightarrow> ('k, 'v) cmap \<Rightarrow> citer" where
  "cmap_clower_bound this k m_map =
    (case m_map of None \<Rightarrow> citer_of this | Some t \<Rightarrow> citer_at this (tree_lower fst k t))"

definition cmap_cupper_bound :: "nat \<Rightarrow> 'k :: linorder \<Rightarrow> ('k, 'v) cmap \<Rightarrow> citer" where
  "cmap_cupper_bound this k m_map =
    (case m_map of None \<Rightarrow> citer_of this | Some t \<Rightarrow> citer_at this (tree_upper fst k t))"

text \<open>A reverse iterator is held by its base, one place behind its element.\<close>

definition cmap_rbegin :: "nat \<Rightarrow> ('k, 'v) cmap \<Rightarrow> citer" where
  "cmap_rbegin this m_map = (case m_map of None \<Rightarrow> citer_of this | Some t \<Rightarrow> citer_at this Past)"

definition cmap_rend :: "nat \<Rightarrow> ('k, 'v) cmap \<Rightarrow> citer" where
  "cmap_rend this m_map = (case m_map of None \<Rightarrow> citer_of this | Some t \<Rightarrow> citer_at this (first_pos t))"

definition cmap_crbegin :: "nat \<Rightarrow> ('k, 'v) cmap \<Rightarrow> citer" where
  "cmap_crbegin this m_map = (case m_map of None \<Rightarrow> citer_of this | Some t \<Rightarrow> citer_at this Past)"

definition cmap_crend :: "nat \<Rightarrow> ('k, 'v) cmap \<Rightarrow> citer" where
  "cmap_crend this m_map = (case m_map of None \<Rightarrow> citer_of this | Some t \<Rightarrow> citer_at this (first_pos t))"

subsection \<open>What client code does with them\<close>

text \<open>Looking a key up: \<^verbatim>\<open>auto it = m.find(k)\<close>, and \<^verbatim>\<open>it->second\<close> unless \<^verbatim>\<open>it == m.end()\<close>.\<close>

definition look_up :: "(nat \<Rightarrow> ('k :: linorder, 'v) cmap) \<Rightarrow> nat \<Rightarrow> 'k \<Rightarrow> exn + 'v option" where
  "look_up w a k =
    ebind (citer_equal w (cmap_find a k (w a)) (cmap_end a (w a))) (\<lambda>absent.
      if absent then Inr None
      else ebind (citer_deref (cmap_alloc (w a)) (cmap_find a k (w a))) (\<lambda>(_, v). Inr (Some v)))"

text \<open>
  Visiting what is left from an iterator: \<^verbatim>\<open>for (; it != m.end(); ++it)\<close>, and the same with reverse
  iterators and \<^verbatim>\<open>rend\<close>.
\<close>

definition visit_round ::
    "(nat \<Rightarrow> ('k, 'v) cmap) \<Rightarrow> nat \<Rightarrow> citer \<times> ('k \<times> 'v) list \<Rightarrow> exn + ('k \<times> 'v) list + citer \<times> ('k \<times> 'v) list" where
  "visit_round w a t =
    (case t of (it, seen) \<Rightarrow>
      ebind (citer_not_equal w it (cmap_end a (w a))) (\<lambda>go.
        if go
        then
          ebind (citer_deref (cmap_alloc (w a)) it) (\<lambda>e.
          ebind (citer_next (cmap_alloc (w a)) it) (\<lambda>it. Inr (Inr (it, seen @ [e]))))
        else Inr (Inl seen)))"

definition visit :: "(nat \<Rightarrow> ('k, 'v) cmap) \<Rightarrow> nat \<Rightarrow> citer \<Rightarrow> (exn + ('k \<times> 'v) list) option" where
  "visit w a it = run (visit_round w a) (it, [])"

definition visit_back_round ::
    "(nat \<Rightarrow> ('k, 'v) cmap) \<Rightarrow> nat \<Rightarrow> citer \<times> ('k \<times> 'v) list \<Rightarrow> exn + ('k \<times> 'v) list + citer \<times> ('k \<times> 'v) list" where
  "visit_back_round w a t =
    (case t of (it, seen) \<Rightarrow>
      ebind (citer_not_equal w it (cmap_rend a (w a))) (\<lambda>go.
        if go
        then
          ebind (criter_deref (cmap_alloc (w a)) it) (\<lambda>e.
          ebind (criter_next (cmap_alloc (w a)) it) (\<lambda>it. Inr (Inr (it, seen @ [e]))))
        else Inr (Inl seen)))"

definition visit_back :: "(nat \<Rightarrow> ('k, 'v) cmap) \<Rightarrow> nat \<Rightarrow> citer \<Rightarrow> (exn + ('k \<times> 'v) list) option" where
  "visit_back w a it = run (visit_back_round w a) (it, [])"

text \<open>Programs over the compact maps at all addresses; \<open>Erase_found\<close> erases what \<^verbatim>\<open>find\<close> found.\<close>

datatype ('k, 'v) mop =
    Emplace nat 'k 'v | Erase nat 'k | Erase_found nat 'k | Clear nat | Swap nat nat | Assign nat nat

definition mop_step ::
    "('k :: linorder, 'v) mop \<Rightarrow> (nat \<Rightarrow> ('k, 'v) cmap) \<times> nat \<Rightarrow> exn + (nat \<Rightarrow> ('k, 'v) cmap) \<times> nat" where
  "mop_step p s =
    (case s of (w, n) \<Rightarrow>
      case p of
        Emplace a k v \<Rightarrow> (case cmap_emplace a n (k, v) (w a) of (m, _) \<Rightarrow> Inr (w(a := m), Suc n))
      | Erase a k \<Rightarrow> Inr (w(a := fst (cmap_erase k (w a))), n)
      | Erase_found a k \<Rightarrow>
          ebind (citer_not_equal w (cmap_find a k (w a)) (cmap_end a (w a))) (\<lambda>found.
            if found then ebind (cmap_erase_at a (cmap_find a k (w a)) (w a)) (\<lambda>(m, _). Inr (w(a := m), n))
            else Inr (w, n))
      | Clear a \<Rightarrow> Inr (w(a := cmap_clear (w a)), n)
      | Swap a b \<Rightarrow> (case cmap_swap (w a) (w b) of (m, other) \<Rightarrow> Inr (w(a := m, b := other), n))
      | Assign a b \<Rightarrow>
          if a = b then Inr (w, n) else Inr (w(a := cmap_assign n (w a) (w b)), n + cmap_size (w b)))"

fun mops :: "('k :: linorder, 'v) mop list \<Rightarrow> (nat \<Rightarrow> ('k, 'v) cmap) \<times> nat \<Rightarrow> exn + (nat \<Rightarrow> ('k, 'v) cmap) \<times> nat" where
  "mops [] s = Inr s"
| "mops (p # ps) s = ebind (mop_step p s) (mops ps)"

subsection \<open>The maps they stand for\<close>

fun mop_map :: "('k, 'v) mop \<Rightarrow> (nat \<Rightarrow> 'k \<rightharpoonup> 'v) \<Rightarrow> nat \<Rightarrow> 'k \<rightharpoonup> 'v" where
  "mop_map (Emplace a k v) A = (if k \<in> dom (A a) then A else A(a := (A a)(k \<mapsto> v)))"
| "mop_map (Erase a k) A = A(a := (A a)(k := None))"
| "mop_map (Erase_found a k) A = A(a := (A a)(k := None))"
| "mop_map (Clear a) A = A(a := Map.empty)"
| "mop_map (Swap a b) A = A(a := A b, b := A a)"
| "mop_map (Assign a b) A = A(a := A b)"

definition cmap_map :: "('k, 'v) cmap \<Rightarrow> 'k \<rightharpoonup> 'v" where
  "cmap_map m_map = map_of (map snd (cmap_alloc m_map))"

definition cmap_ok :: "nat \<Rightarrow> ('k :: linorder, 'v) cmap \<Rightarrow> bool" where
  "cmap_ok n m_map \<longleftrightarrow> m_map \<noteq> Some [] \<and> tree_ok fst n (cmap_alloc m_map)"

lemma cmap_alloc_simps [simp]: "cmap_alloc None = []" "cmap_alloc (Some t) = t"
  by (simp_all add: cmap_alloc_def)

lemma cmap_ok_None [simp]: "cmap_ok n None"
  by (simp add: cmap_ok_def)

lemma distinct_keys:
  assumes "tree_ok fst n t"
  shows "distinct (map fst (map snd t))" "sorted_wrt (<) (map fst (map snd t))"
proof -
  show "sorted_wrt (<) (map fst (map snd t))" using assms by (simp add: tree_ok_def sorted_wrt_map)
  then show "distinct (map fst (map snd t))" by (simp only: strict_sorted_iff)
qed

lemma map_entry:
  assumes "tree_ok fst n t"
  shows "map_of (map snd t) k = Some v \<longleftrightarrow> (\<exists>i. (i, k, v) \<in> set t)"
  using distinct_keys(1) [OF assms] by (force simp: map_of_eq_Some_iff)

lemma map_ofI:
  assumes "tree_ok fst n t" "\<And>k v. (\<exists>i. (i, k, v) \<in> set t) \<longleftrightarrow> A k = Some v"
  shows "map_of (map snd t) = A"
  using map_entry [OF assms(1)] assms(2) by (intro ext) (metis not_None_eq)

lemma cmap_None_iff: "cmap_ok n m \<Longrightarrow> m = None \<longleftrightarrow> cmap_map m = Map.empty"
  by (cases m) (auto simp: cmap_ok_def cmap_map_def)

lemma cmap_map_Some: "cmap_map (Some t) = map_of (map snd t)"
  by (simp add: cmap_map_def)

lemma emplace_ok:
  assumes "cmap_ok n m"
  shows "cmap_ok (Suc n) (fst (cmap_emplace a n (k, v) m))"
    "cmap_map (fst (cmap_emplace a n (k, v) m)) = (if k \<in> dom (cmap_map m) then cmap_map m else (cmap_map m)(k \<mapsto> v))"
proof -
  let ?t = "cmap_alloc m"
  have ok: "tree_ok fst n ?t" using assms by (simp add: cmap_ok_def)
  note entry = map_entry [OF ok]
  show "cmap_ok (Suc n) (fst (cmap_emplace a n (k, v) m))"
    "cmap_map (fst (cmap_emplace a n (k, v) m)) = (if k \<in> dom (cmap_map m) then cmap_map m else (cmap_map m)(k \<mapsto> v))"
  proof (atomize (full), cases rule: tree_find_cases [OF ok, of k, case_names absent present])
    case absent
    let ?t' = "tree_insert_equal fst n (k, v) ?t"
    have eq: "fst (cmap_emplace a n (k, v) m) = Some ?t'"
      using absent(1) by (simp add: cmap_emplace_def tree_insert_unique_def)
    have ok': "tree_ok fst (Suc n) ?t'" by (rule tree_ok_insert [OF ok]) (use absent(2) in simp)
    have new: "k \<notin> dom (cmap_map m)" using entry [of k] absent(2) by (fastforce simp: cmap_map_def dom_def)
    have "map_of (map snd ?t') = (cmap_map m)(k \<mapsto> v)"
      by (rule map_ofI [OF ok']) (use entry new in \<open>auto simp: cmap_map_def\<close>)
    moreover have "?t' \<noteq> []" by (simp add: tree_insert_equal_def)
    ultimately show "cmap_ok (Suc n) (fst (cmap_emplace a n (k, v) m)) \<and>
      cmap_map (fst (cmap_emplace a n (k, v) m)) = (if k \<in> dom (cmap_map m) then cmap_map m else (cmap_map m)(k \<mapsto> v))"
      using ok' new unfolding eq by (simp add: cmap_ok_def cmap_map_Some)
  next
    case (present i e)
    then have eq: "fst (cmap_emplace a n (k, v) m) = m"
      by (cases m) (simp_all add: cmap_emplace_def tree_insert_unique_def)
    have "cmap_map m k = Some (snd e)" using entry [of k "snd e"] present(2,3) by (cases e) (auto simp: cmap_map_def)
    then show "cmap_ok (Suc n) (fst (cmap_emplace a n (k, v) m)) \<and>
      cmap_map (fst (cmap_emplace a n (k, v) m)) = (if k \<in> dom (cmap_map m) then cmap_map m else (cmap_map m)(k \<mapsto> v))"
      using assms tree_ok_more [OF ok, of "Suc n"] unfolding eq by (auto simp: cmap_ok_def)
  qed
qed

lemma filtered_ok:
  assumes "tree_ok fst n t"
  shows "cmap_ok n (if filter (\<lambda>x. fst (snd x) \<noteq> k) t = [] then None else Some (filter (\<lambda>x. fst (snd x) \<noteq> k) t))"
    "cmap_map (if filter (\<lambda>x. fst (snd x) \<noteq> k) t = [] then None else Some (filter (\<lambda>x. fst (snd x) \<noteq> k) t)) =
      (map_of (map snd t))(k := None)"
proof -
  let ?t = "filter (\<lambda>x. fst (snd x) \<noteq> k) t"
  have ok: "tree_ok fst n ?t" by (rule tree_ok_filter [OF assms])
  then show "cmap_ok n (if ?t = [] then None else Some ?t)" by (simp add: cmap_ok_def)
  have "map_of (map snd ?t) = (map_of (map snd t))(k := None)"
    by (rule map_ofI [OF ok]) (use map_entry [OF assms] in auto)
  then show "cmap_map (if ?t = [] then None else Some ?t) = (map_of (map snd t))(k := None)"
    by (cases "?t = []") (simp_all add: cmap_map_def)
qed

lemma erase_ok:
  assumes "cmap_ok n m"
  shows "cmap_ok n (fst (cmap_erase k m))" "cmap_map (fst (cmap_erase k m)) = (cmap_map m)(k := None)"
proof -
  have "tree_ok fst n (cmap_alloc m)" using assms by (simp add: cmap_ok_def)
  note f = filtered_ok [OF this, of k]
  have eq: "fst (cmap_erase k m) =
      (if filter (\<lambda>x. fst (snd x) \<noteq> k) (cmap_alloc m) = [] then None else Some (filter (\<lambda>x. fst (snd x) \<noteq> k) (cmap_alloc m)))"
    by (cases m) (simp_all add: cmap_erase_def tree_erase_key_def)
  show "cmap_ok n (fst (cmap_erase k m))" unfolding eq by (rule f(1))
  show "cmap_map (fst (cmap_erase k m)) = (cmap_map m)(k := None)" unfolding eq f(2) by (simp add: cmap_map_def)
qed

lemma copied_ok:
  assumes "cmap_ok n' other"
  shows "cmap_ok (n + cmap_size other) (cmap_assign n m other)" "cmap_map (cmap_assign n m other) = cmap_map other"
proof -
  have ok: "tree_ok fst n' (cmap_alloc other)" "other \<noteq> Some []" using assms by (simp_all add: cmap_ok_def)
  show "cmap_ok (n + cmap_size other) (cmap_assign n m other)" "cmap_map (cmap_assign n m other) = cmap_map other"
    using tree_ok_copy [OF ok(1), of n] ok(2)
    by (cases other; auto simp: cmap_assign_def cmap_ok_def cmap_map_def cmap_size_def tree_copy_def)+
qed

subsection \<open>Observations\<close>

lemma find_ok:
  assumes "cmap_ok n (w a)"
  shows "citer_equal w (cmap_find a k (w a)) (cmap_end a (w a)) = Inr (k \<notin> dom (cmap_map (w a)))"
    "cmap_map (w a) k = Some v \<Longrightarrow> \<exists>t i. w a = Some t \<and> cmap_find a k (w a) = citer_at a (Node i) \<and> (i, k, v) \<in> set t"
proof -
  have "citer_equal w (cmap_find a k (w a)) (cmap_end a (w a)) = Inr (k \<notin> dom (cmap_map (w a))) \<and>
    (cmap_map (w a) k = Some v \<longrightarrow> (\<exists>t i. w a = Some t \<and> cmap_find a k (w a) = citer_at a (Node i) \<and> (i, k, v) \<in> set t))"
  proof (cases "w a")
    case None
    then show ?thesis by (simp add: cmap_find_def cmap_end_def citer_equal_def citer_of_def cmap_map_def)
  next
    case (Some t)
    have ok: "tree_ok fst n t" using assms Some by (simp add: cmap_ok_def)
    show ?thesis
    proof (cases rule: tree_find_cases [OF ok, of k, case_names absent present])
      case absent
      then have "\<not> (\<exists>i. (i, k, v) \<in> set t)" for v by force
      then have "map_of (map snd t) k = None" using map_entry [OF ok, of k] by (metis not_None_eq)
      then show ?thesis using absent Some
        by (simp add: cmap_find_def cmap_end_def citer_equal_def citer_at_def pos_equal_def cmap_map_Some domIff)
    next
      case (present i e)
      have "map_of (map snd t) k = Some (snd e)" using map_entry [OF ok, of k "snd e"] present(2,3) by (cases e) auto
      then show ?thesis using present Some
        by (cases e) (auto simp: cmap_find_def cmap_end_def citer_equal_def citer_at_def pos_equal_def cmap_map_Some)
    qed
  qed
  then show "citer_equal w (cmap_find a k (w a)) (cmap_end a (w a)) = Inr (k \<notin> dom (cmap_map (w a)))"
    "cmap_map (w a) k = Some v \<Longrightarrow> \<exists>t i. w a = Some t \<and> cmap_find a k (w a) = citer_at a (Node i) \<and> (i, k, v) \<in> set t"
    by simp_all
qed

lemma look_up_ok:
  assumes "cmap_ok n (w a)"
  shows "look_up w a k = Inr (cmap_map (w a) k)"
proof (cases "cmap_map (w a) k")
  case None
  then show ?thesis using find_ok(1) [of n w a k] assms by (simp add: look_up_def domIff)
next
  case (Some v)
  then obtain t i where t: "w a = Some t" "cmap_find a k (w a) = citer_at a (Node i)" "(i, k, v) \<in> set t"
    using find_ok(2) [of n w a k v] assms by blast
  have "tree_at (Node i) t = Inr (k, v)" by (rule tree_at_node) (use assms t in \<open>auto simp: cmap_ok_def\<close>)
  then show ?thesis using find_ok(1) [of n w a k] assms Some t
    by (simp add: look_up_def citer_deref_def citer_at_def domI)
qed

lemma erase_found_ok:
  assumes "cmap_ok n (w a)" "k \<in> dom (cmap_map (w a))"
  shows "\<exists>m it. cmap_erase_at a (cmap_find a k (w a)) (w a) = Inr (m, it) \<and> cmap_ok n m \<and>
    cmap_map m = (cmap_map (w a))(k := None)"
proof -
  obtain v where v: "cmap_map (w a) k = Some v" using assms(2) by blast
  obtain t i where t: "w a = Some t" "cmap_find a k (w a) = citer_at a (Node i)" "(i, k, v) \<in> set t"
    using find_ok(2) [of n w a k v] assms(1) v by blast
  have ok: "tree_ok fst n t" using assms(1) t(1) by (simp add: cmap_ok_def)
  let ?f = "filter (\<lambda>x. fst (snd x) \<noteq> k) t"
  obtain q where q: "tree_erase (Node i) t = Inr (?f, q)" using tree_erase_node [OF ok t(3)] by auto
  have erased: "cmap_erase_at a (cmap_find a k (w a)) (w a) =
    Inr (if ?f = [] then None else Some ?f, if ?f = [] then citer_of a else citer_at a q)"
    unfolding t(2) using q by (simp add: cmap_erase_at_def citer_at_def spec_assert_def t(1))
  have "cmap_map (w a) = map_of (map snd t)" by (simp add: t(1) cmap_map_Some)
  then show ?thesis using erased filtered_ok [OF ok, of k] by metis
qed

lemma size_ok:
  assumes "cmap_ok n m"
  shows "cmap_size m = card (dom (cmap_map m))"
proof -
  have ok: "tree_ok fst n (cmap_alloc m)" using assms by (simp add: cmap_ok_def)
  have "dom (cmap_map m) = set (map fst (map snd (cmap_alloc m)))" by (simp add: cmap_map_def dom_map_of_conv_image_fst image_image)
  then have "card (dom (cmap_map m)) = length (cmap_alloc m)" using distinct_card [OF distinct_keys(1) [OF ok]] by simp
  then show ?thesis by (cases m) (simp_all add: cmap_size_def)
qed

lemma count_ok:
  assumes "cmap_ok n m"
  shows "cmap_count k m = (if k \<in> dom (cmap_map m) then 1 else 0)"
proof -
  have ok: "tree_ok fst n (cmap_alloc m)" using assms by (simp add: cmap_ok_def)
  have "dom (cmap_map m) = (fst \<circ> snd) ` set (cmap_alloc m)"
    by (simp add: cmap_map_def dom_map_of_conv_image_fst image_image)
  then show ?thesis using tree_count_unique [OF ok, of k]
    by (cases m) (simp_all add: cmap_count_def)
qed

text \<open>In order, a map has one list of entries only.\<close>

lemma entries_unique:
  assumes "tree_ok fst n t" "tree_ok fst n' t'" "map_of (map snd t) = map_of (map snd t')"
  shows "map snd t = map snd t'"
proof -
  have "set (map fst (map snd t)) = set (map fst (map snd t'))"
    using arg_cong [OF assms(3), of dom] by (simp only: dom_map_of_conv_image_fst set_map)
  then have keys: "map fst (map snd t) = map fst (map snd t')"
    using distinct_keys(2) [OF assms(1)] distinct_keys(2) [OF assms(2)] by (intro strict_sorted_equal)
  show ?thesis
  proof (rule nth_equalityI)
    show "length (map snd t) = length (map snd t')" using arg_cong [OF keys, of length] by simp
    fix i assume i: "i < length (map snd t)"
    then have i': "i < length (map snd t')" using arg_cong [OF keys, of length] by simp
    have k: "fst (map snd t ! i) = fst (map snd t' ! i)" using arg_cong [OF keys, of "\<lambda>l. l ! i"] i i' by simp
    have "map_of (map snd t) (fst (map snd t ! i)) = Some (snd (map snd t ! i))"
      using distinct_keys(1) [OF assms(1)] nth_mem [OF i] by (simp add: map_of_eq_Some_iff)
    moreover have "map_of (map snd t') (fst (map snd t' ! i)) = Some (snd (map snd t' ! i))"
      using distinct_keys(1) [OF assms(2)] nth_mem [OF i'] by (simp add: map_of_eq_Some_iff)
    ultimately show "map snd t ! i = map snd t' ! i" using k assms(3) by (simp add: prod_eq_iff)
  qed
qed

lemma equal_ok:
  assumes "cmap_ok n m" "cmap_ok n' m'"
  shows "cmap_equal m m' \<longleftrightarrow> cmap_map m = cmap_map m'"
proof -
  have ok: "tree_ok fst n (cmap_alloc m)" "tree_ok fst n' (cmap_alloc m')" using assms by (simp_all add: cmap_ok_def)
  have "cmap_equal m m' \<longleftrightarrow> map snd (cmap_alloc m) = map snd (cmap_alloc m')"
    using assms by (cases m; cases m') (auto simp: cmap_equal_def cmap_empty_def tree_equal_def cmap_ok_def)
  then show ?thesis using entries_unique [OF ok] by (auto simp: cmap_map_def)
qed

lemma visit_rest:
  assumes "w a = Some t" "distinct (map fst t)" "t = t1 @ t2"
  shows "visit w a (citer_at a (first_pos t2)) = Some (Inr (map snd t2))"
proof -
  have "visit_round w a (citer_at a Past, seen) = Inr (Inl seen)" for seen
    using assms(1)
    by (simp add: visit_round_def citer_not_equal_def citer_equal_def cmap_end_def citer_at_def pos_equal_def)
  moreover have "visit_round w a (citer_at a (Node (fst x)), seen) = Inr (Inr (citer_at a (first_pos t2), seen @ [snd x]))"
    if "t = t1 @ x # t2" for t1 x t2 seen
    using assms(1,2) that walk_node [of t1 x t2]
    by (simp add: visit_round_def citer_not_equal_def citer_equal_def cmap_end_def citer_at_def pos_equal_def
        citer_deref_def citer_next_def)
  ultimately have "run (visit_round w a) (citer_at a (first_pos t2), []) = Some (Inr ([] @ map snd t2))"
    by (rule walk_run [OF _ _ assms(3)])
  then show ?thesis by (simp add: visit_def)
qed

lemma visit_back_rest:
  assumes "w a = Some t" "distinct (map fst t)" "t = t1 @ t2"
  shows "visit_back w a (citer_at a (first_pos t2)) = Some (Inr (rev (map snd t1)))"
proof -
  have "visit_back_round w a (citer_at a (first_pos t), seen) = Inr (Inl seen)" for seen
    using assms(1)
    by (simp add: visit_back_round_def citer_not_equal_def citer_equal_def cmap_rend_def citer_at_def pos_equal_def)
  moreover have "visit_back_round w a (citer_at a (first_pos t2), seen) =
      Inr (Inr (citer_at a (first_pos (x # t2)), seen @ [snd x]))" if "t = t1 @ x # t2" for t1 x t2 seen
    using assms(1,2) that walk_back_node [of t1 x t2] first_pos_same [of "t1 @ [x]" t2]
    by (simp add: visit_back_round_def citer_not_equal_def citer_equal_def cmap_rend_def citer_at_def pos_equal_def
        first_pos_def [of "x # t2"] criter_deref_def criter_next_def)
  ultimately have "run (visit_back_round w a) (citer_at a (first_pos t2), []) = Some (Inr ([] @ rev (map snd t1)))"
    by (rule walk_back_run [OF _ _ assms(3)])
  then show ?thesis by (simp add: visit_back_def)
qed

lemma visit_None:
  assumes "w a = None"
  shows "visit w a (citer_of a) = Some (Inr [])" "visit_back w a (citer_of a) = Some (Inr [])"
proof -
  have "visit_round w a (citer_of a, []) = Inr (Inl [])"
    using assms by (simp add: visit_round_def citer_not_equal_def citer_equal_def cmap_end_def citer_of_def)
  then show "visit w a (citer_of a) = Some (Inr [])" unfolding visit_def by (rule run_simps(2))
  have "visit_back_round w a (citer_of a, []) = Inr (Inl [])"
    using assms by (simp add: visit_back_round_def citer_not_equal_def citer_equal_def cmap_rend_def citer_of_def)
  then show "visit_back w a (citer_of a) = Some (Inr [])" unfolding visit_back_def by (rule run_simps(2))
qed

lemma visit_ok:
  assumes "cmap_ok n (w a)" "es = map snd (cmap_alloc (w a))"
  shows "visit w a (cmap_begin a (w a)) = Some (Inr es)"
    "visit_back w a (cmap_rbegin a (w a)) = Some (Inr (rev es))"
    "visit w a (cmap_lower_bound a k (w a)) = Some (Inr (filter (\<lambda>e. k \<le> fst e) es))"
    "visit w a (cmap_upper_bound a k (w a)) = Some (Inr (filter (\<lambda>e. k < fst e) es))"
proof -
  have "visit w a (cmap_begin a (w a)) = Some (Inr es) \<and>
    visit_back w a (cmap_rbegin a (w a)) = Some (Inr (rev es)) \<and>
    visit w a (cmap_lower_bound a k (w a)) = Some (Inr (filter (\<lambda>e. k \<le> fst e) es)) \<and>
    visit w a (cmap_upper_bound a k (w a)) = Some (Inr (filter (\<lambda>e. k < fst e) es))"
  proof (cases "w a")
    case None
    then show ?thesis
      using visit_None [of w a] assms(2)
      by (simp add: cmap_begin_def cmap_rbegin_def cmap_lower_bound_def cmap_upper_bound_def)
  next
    case (Some t)
    have ok: "tree_ok fst n t" using assms(1) Some by (simp add: cmap_ok_def)
    then have d: "distinct (map fst t)" by (simp add: tree_ok_def)
    have from_split: "visit w a (citer_at a (first_pos t2)) = Some (Inr (map snd t2))" if "t1 @ t2 = t" for t1 t2
      by (rule visit_rest [where w = w, OF Some d that [symmetric]])
    have "visit_back w a (citer_at a Past) = Some (Inr (rev (map snd t)))"
      using visit_back_rest [of w a t t "[]"] d Some by (simp add: first_pos_def)
    then show ?thesis
      using from_split [of "[]" t] from_split [OF tree_bounds(2) [OF ok]] from_split [OF tree_bounds(4) [OF ok]]
        Some assms(2)
      by (simp add: cmap_begin_def cmap_rbegin_def cmap_lower_bound_def cmap_upper_bound_def
          tree_bounds(1) [OF ok] tree_bounds(3) [OF ok] filter_map comp_def)
  qed
  then show "visit w a (cmap_begin a (w a)) = Some (Inr es)"
    "visit_back w a (cmap_rbegin a (w a)) = Some (Inr (rev es))"
    "visit w a (cmap_lower_bound a k (w a)) = Some (Inr (filter (\<lambda>e. k \<le> fst e) es))"
    "visit w a (cmap_upper_bound a k (w a)) = Some (Inr (filter (\<lambda>e. k < fst e) es))"
    by simp_all
qed

text \<open>The overloads for a constant map stand at the same places.\<close>

lemma const_overloads:
  "cmap_cbegin this m = citer_const (cmap_begin this m)" "cmap_cend this m = citer_const (cmap_end this m)"
  "cmap_cfind this k m = citer_const (cmap_find this k m)"
  "cmap_clower_bound this k m = citer_const (cmap_lower_bound this k m)"
  "cmap_cupper_bound this k m = citer_const (cmap_upper_bound this k m)"
  "cmap_crbegin this m = cmap_rbegin this m" "cmap_crend this m = cmap_rend this m"
  by (simp_all add: citer_const_def cmap_cbegin_def cmap_begin_def cmap_cend_def cmap_end_def cmap_cfind_def cmap_find_def
      cmap_clower_bound_def cmap_lower_bound_def cmap_cupper_bound_def cmap_upper_bound_def
      cmap_crbegin_def cmap_rbegin_def cmap_crend_def cmap_rend_def)

subsection \<open>Properties\<close>

definition stands_for :: "(nat \<Rightarrow> ('k :: linorder, 'v) cmap) \<Rightarrow> nat \<Rightarrow> (nat \<Rightarrow> 'k \<rightharpoonup> 'v) \<Rightarrow> bool" where
  "stands_for w n A \<longleftrightarrow> (\<forall>a. cmap_ok n (w a) \<and> cmap_map (w a) = A a)"

lemma stands_forI:
  assumes "stands_for w n A" "n \<le> n'" "cmap_ok n' m" "cmap_map m = f"
  shows "stands_for (w(a := m)) n' (A(a := f))"
  using assms tree_ok_more by (fastforce simp: stands_for_def cmap_ok_def)

lemma mop_step_ok:
  assumes "stands_for w n A"
  shows "\<exists>w' n'. mop_step p (w, n) = Inr (w', n') \<and> stands_for w' n' (mop_map p A)"
proof -
  have ok: "cmap_ok n (w a)" "cmap_map (w a) = A a" for a using assms by (auto simp: stands_for_def)
  note set = stands_forI [OF assms]
  show ?thesis
  proof (cases p)
    case (Emplace a k v)
    obtain m it where m: "cmap_emplace a n (k, v) (w a) = (m, it)" by (rule prod.exhaust)
    have "stands_for (w(a := m)) (Suc n) (A(a := if k \<in> dom (A a) then A a else (A a)(k \<mapsto> v)))"
      by (rule set) (use emplace_ok [where k = k and v = v and a = a, OF ok(1) [of a]] m ok(2) in simp_all)
    moreover have "A(a := if k \<in> dom (A a) then A a else (A a)(k \<mapsto> v)) = mop_map p A" using Emplace by auto
    ultimately show ?thesis using m Emplace by (simp add: mop_step_def)
  next
    case (Erase a k)
    have "stands_for (w(a := fst (cmap_erase k (w a)))) n (A(a := (A a)(k := None)))"
      by (rule set) (use erase_ok [OF ok(1)] ok(2) in simp_all)
    then show ?thesis using Erase by (simp add: mop_step_def)
  next
    case (Erase_found a k)
    have f: "citer_equal w (cmap_find a k (w a)) (cmap_end a (w a)) = Inr (k \<notin> dom (A a))"
      using find_ok(1) [of n w a k] ok by simp
    show ?thesis
    proof (cases "k \<in> dom (A a)")
      case True
      then obtain m it where m: "cmap_erase_at a (cmap_find a k (w a)) (w a) = Inr (m, it)" "cmap_ok n m"
        "cmap_map m = (A a)(k := None)"
        using erase_found_ok [of n w a k] ok by auto
      have "stands_for (w(a := m)) n (A(a := (A a)(k := None)))" by (rule set) (use m in simp_all)
      then show ?thesis using Erase_found f m(1) True by (simp add: mop_step_def citer_not_equal_def)
    next
      case False
      then have "mop_map p A = A" using Erase_found by (auto simp: fun_eq_iff domIff)
      then show ?thesis using Erase_found f False assms by (simp add: mop_step_def citer_not_equal_def)
    qed
  next
    case (Clear a)
    have "stands_for (w(a := None)) n (A(a := Map.empty))" by (rule set) (simp_all add: cmap_map_def)
    then show ?thesis using Clear by (simp add: mop_step_def cmap_clear_def)
  next
    case (Swap a b)
    have "stands_for (w(a := w b, b := w a)) n (A(a := A b, b := A a))" using ok by (simp add: stands_for_def)
    then show ?thesis using Swap by (simp add: mop_step_def cmap_swap_def)
  next
    case (Assign a b)
    show ?thesis
    proof (cases "a = b")
      case True
      then show ?thesis using Assign assms by (simp add: mop_step_def)
    next
      case False
      have "stands_for (w(a := cmap_assign n (w a) (w b))) (n + cmap_size (w b)) (A(a := A b))"
        by (rule set) (use copied_ok [OF ok(1) [of b], of n "w a"] ok(2) [of b] in simp_all)
      then show ?thesis using Assign False by (simp add: mop_step_def)
    qed
  qed
qed

lemma mops_ok:
  assumes "stands_for w n A"
  shows "\<exists>w' n'. mops ps (w, n) = Inr (w', n') \<and> stands_for w' n' (fold mop_map ps A)"
  using assms
proof (induction ps arbitrary: w n A)
  case (Cons p ps)
  obtain w1 n1 where s: "mop_step p (w, n) = Inr (w1, n1)" "stands_for w1 n1 (mop_map p A)"
    using mop_step_ok [OF Cons.prems] by blast
  then show ?case using Cons.IH [OF s(2)] by simp
qed simp

text \<open>
  C16 (refinement). Programs cannot tell a compact map from the finite map it stands for: every program
  of insertions, erasures by key and by iterator, clearing, swapping and assignment runs without an
  error, and afterwards looking up, counting, size, comparison and a visit from \<^verbatim>\<open>begin\<close> to \<^verbatim>\<open>end\<close> in
  ascending order show the map that the same operations make of finite maps; a visit from \<^verbatim>\<open>rbegin\<close> to
  \<^verbatim>\<open>rend\<close> shows it in descending order, and one from \<^verbatim>\<open>lower_bound\<close> or \<^verbatim>\<open>upper_bound\<close> of a key shows the entries
  not below, or above, that key. The tree behind the pointer is there exactly when the map is not empty.
\<close>

theorem compact_map_is_map:
  "\<exists>w n. mops ps (\<lambda>_. None, 0) = Inr (w, n) \<and>
    (let A = fold mop_map ps (\<lambda>_. Map.empty) in
     \<forall>a. (w a = None \<longleftrightarrow> A a = Map.empty) \<and> cmap_size (w a) = card (dom (A a)) \<and>
       (\<forall>k. look_up w a k = Inr (A a k) \<and> cmap_count k (w a) = (if k \<in> dom (A a) then 1 else 0)) \<and>
       (\<forall>b. cmap_equal (w a) (w b) = (A a = A b)) \<and>
       (\<exists>es. map_of es = A a \<and> sorted_wrt (<) (map fst es) \<and>
         visit w a (cmap_begin a (w a)) = Some (Inr es) \<and>
         visit_back w a (cmap_rbegin a (w a)) = Some (Inr (rev es)) \<and>
         (\<forall>k. visit w a (cmap_lower_bound a k (w a)) = Some (Inr (filter (\<lambda>e. k \<le> fst e) es)) \<and>
           visit w a (cmap_upper_bound a k (w a)) = Some (Inr (filter (\<lambda>e. k < fst e) es)))))"
proof -
  have "stands_for (\<lambda>_. None) 0 (\<lambda>_. Map.empty)" by (simp add: stands_for_def cmap_map_def)
  then obtain w n where w: "mops ps (\<lambda>_. None, 0) = Inr (w, n)" "stands_for w n (fold mop_map ps (\<lambda>_. Map.empty))"
    using mops_ok by blast
  have ok: "cmap_ok n (w a)" "fold mop_map ps (\<lambda>_. Map.empty) a = cmap_map (w a)" for a
    using w(2) by (simp_all add: stands_for_def)
  have v: "\<exists>es. map_of es = cmap_map (w a) \<and> sorted_wrt (<) (map fst es) \<and>
      visit w a (cmap_begin a (w a)) = Some (Inr es) \<and> visit_back w a (cmap_rbegin a (w a)) = Some (Inr (rev es)) \<and>
      (\<forall>k. visit w a (cmap_lower_bound a k (w a)) = Some (Inr (filter (\<lambda>e. k \<le> fst e) es)) \<and>
        visit w a (cmap_upper_bound a k (w a)) = Some (Inr (filter (\<lambda>e. k < fst e) es)))" for a
    using ok(1) [of a] distinct_keys(2) [of n "cmap_alloc (w a)"] visit_ok [where n = n and w = w and a = a, OF ok(1) refl]
    by (intro exI [of _ "map snd (cmap_alloc (w a))"]) (simp add: cmap_map_def cmap_ok_def)
  show ?thesis
    using w(1) v cmap_None_iff [OF ok(1)] size_ok [OF ok(1)] look_up_ok [of n w] ok(1) count_ok [OF ok(1)]
      equal_ok [OF ok(1) ok(1)]
    unfolding Let_def ok(2) by auto
qed

text \<open>
  An end iterator taken while the map was empty is not one of the tree: once something has been inserted,
  comparing it is undefined, where the end iterator of a \<^verbatim>\<open>std::map\<close> stays what it is.
\<close>

lemma old_end_undefined:
  "citer_equal (\<lambda>_. fst (cmap_emplace 0 n e None)) (cmap_begin 0 (fst (cmap_emplace 0 n e None))) (cmap_end 0 None) =
    Inl Undefined"
  by (simp add: cmap_emplace_def tree_insert_unique_def tree_find_def tree_insert_equal_def first_pos_def
      cmap_begin_def cmap_end_def citer_equal_def citer_of_def citer_at_def pos_equal_def)

end
