(* ===== verification/Compact_Set.thy ===== *)
theory Compact_Set
  imports Std_Tree
begin

text \<open>
  The compact set of \<^verbatim>\<open>compact_set.h\<close>: a \<^verbatim>\<open>std::set\<close> behind a pointer, which is null while there is nothing
  in it. An iterator carries the address of its compact set beside the iterator of the tree; \<open>w\<close> gives the
  \<^verbatim>\<open>m_set\<close> of each address.
\<close>

type_synonym 'a cset = "'a tree option"

definition cset_alloc :: "'a cset \<Rightarrow> 'a tree" where
  "cset_alloc m_set = (case m_set of None \<Rightarrow> [] | Some t \<Rightarrow> t)"

subsection \<open>Iterators\<close>

record siter =
  si_set :: "nat option"
  si_pos :: pos

definition siter_new :: siter where
  "siter_new = \<lparr>si_set = None, si_pos = Singular\<rparr>"

definition siter_of :: "nat \<Rightarrow> siter" where
  "siter_of a = \<lparr>si_set = Some a, si_pos = Singular\<rparr>"

definition siter_at :: "nat \<Rightarrow> pos \<Rightarrow> siter" where
  "siter_at a it = \<lparr>si_set = Some a, si_pos = it\<rparr>"

definition siter_copy :: "siter \<Rightarrow> siter" where
  "siter_copy other = \<lparr>si_set = si_set other, si_pos = si_pos other\<rparr>"

text \<open>What an \<open>iterator\<close> becomes where a \<open>const_iterator\<close> is asked for.\<close>

definition siter_const :: "siter \<Rightarrow> siter" where
  "siter_const i = \<lparr>si_set = si_set i, si_pos = si_pos i\<rparr>"

definition siter_equal :: "(nat \<Rightarrow> 'a cset) \<Rightarrow> siter \<Rightarrow> siter \<Rightarrow> exn + bool" where
  "siter_equal w i j =
    (if si_set i \<noteq> si_set j then Inr False
     else
       case si_set i of None \<Rightarrow> Inl Undefined
       | Some a \<Rightarrow>
           if w a = None then Inr True
           else if (si_pos i = Singular) \<noteq> (si_pos j = Singular) then Inl Undefined
           else Inr (si_pos i = si_pos j))"

definition siter_not_equal :: "(nat \<Rightarrow> 'a cset) \<Rightarrow> siter \<Rightarrow> siter \<Rightarrow> exn + bool" where
  "siter_not_equal w i j = ebind (siter_equal w i j) (\<lambda>e. Inr (\<not> e))"

definition siter_next :: "'a tree \<Rightarrow> siter \<Rightarrow> exn + siter" where
  "siter_next t i = ebind (tree_next (si_pos i) t) (\<lambda>p. Inr (i\<lparr>si_pos := p\<rparr>))"

definition siter_post_next :: "'a tree \<Rightarrow> siter \<Rightarrow> exn + siter \<times> siter" where
  "siter_post_next t i = ebind (siter_next t i) (\<lambda>j. Inr (siter_copy i, j))"

definition siter_prev :: "'a tree \<Rightarrow> siter \<Rightarrow> exn + siter" where
  "siter_prev t i = ebind (tree_prev (si_pos i) t) (\<lambda>p. Inr (i\<lparr>si_pos := p\<rparr>))"

definition siter_deref :: "'a tree \<Rightarrow> siter \<Rightarrow> exn + 'a" where
  "siter_deref t i = tree_at (si_pos i) t"

text \<open>The same template over the reverse iterators of the tree.\<close>

definition sriter_next :: "'a tree \<Rightarrow> siter \<Rightarrow> exn + siter" where
  "sriter_next t i = ebind (rev_next (si_pos i) t) (\<lambda>p. Inr (i\<lparr>si_pos := p\<rparr>))"

definition sriter_post_next :: "'a tree \<Rightarrow> siter \<Rightarrow> exn + siter \<times> siter" where
  "sriter_post_next t i = ebind (sriter_next t i) (\<lambda>j. Inr (siter_copy i, j))"

definition sriter_prev :: "'a tree \<Rightarrow> siter \<Rightarrow> exn + siter" where
  "sriter_prev t i = ebind (rev_prev (si_pos i) t) (\<lambda>p. Inr (i\<lparr>si_pos := p\<rparr>))"

definition sriter_deref :: "'a tree \<Rightarrow> siter \<Rightarrow> exn + 'a" where
  "sriter_deref t i = rev_at (si_pos i) t"

subsection \<open>Operations\<close>

definition cset_copy :: "nat \<Rightarrow> 'a cset \<Rightarrow> 'a cset" where
  "cset_copy n other = (case other of None \<Rightarrow> None | Some t \<Rightarrow> Some (tree_copy n t))"

definition cset_empty :: "'a cset \<Rightarrow> bool" where
  "cset_empty m_set = (case m_set of None \<Rightarrow> True | Some t \<Rightarrow> t = [])"

definition cset_size :: "'a cset \<Rightarrow> nat" where
  "cset_size m_set = (case m_set of None \<Rightarrow> 0 | Some t \<Rightarrow> length t)"

definition cset_equal :: "'a cset \<Rightarrow> 'a cset \<Rightarrow> bool" where
  "cset_equal m_set other =
    (cset_empty m_set \<and> cset_empty other \<or>
     (case m_set of None \<Rightarrow> False | Some t \<Rightarrow> (case other of None \<Rightarrow> False | Some t' \<Rightarrow> tree_equal t t')))"

definition cset_not_equal :: "'a cset \<Rightarrow> 'a cset \<Rightarrow> bool" where
  "cset_not_equal m_set other = (\<not> cset_equal m_set other)"

definition cset_count :: "'a :: linorder \<Rightarrow> 'a cset \<Rightarrow> nat" where
  "cset_count x m_set = (case m_set of None \<Rightarrow> 0 | Some t \<Rightarrow> tree_count id x t)"

definition cset_erase_at :: "nat \<Rightarrow> siter \<Rightarrow> 'a cset \<Rightarrow> exn + 'a cset \<times> siter" where
  "cset_erase_at this p m_set =
    (case m_set of None \<Rightarrow> Inr (None, siter_of this)
     | Some t \<Rightarrow>
         ebind (spec_assert (si_set p = Some this)) (\<lambda>_.
         ebind (tree_erase (si_pos p) t) (\<lambda>(t, it).
           if t = [] then Inr (None, siter_of this) else Inr (Some t, siter_at this it))))"

definition cset_erase :: "'a :: linorder \<Rightarrow> 'a cset \<Rightarrow> 'a cset \<times> nat" where
  "cset_erase x m_set =
    (case m_set of None \<Rightarrow> (None, 0)
     | Some t \<Rightarrow> (case tree_erase_key id x t of (t, r) \<Rightarrow> (if t = [] then None else Some t, r)))"

definition cset_clear :: "'a cset \<Rightarrow> 'a cset" where
  "cset_clear m_set = None"

definition cset_swap :: "'a cset \<Rightarrow> 'a cset \<Rightarrow> 'a cset \<times> 'a cset" where
  "cset_swap m_set other = (other, m_set)"

definition cset_assign :: "nat \<Rightarrow> 'a cset \<Rightarrow> 'a cset \<Rightarrow> 'a cset" where
  "cset_assign n m_set other = (case other of None \<Rightarrow> None | Some t \<Rightarrow> Some (tree_copy n t))"

definition cset_insert :: "nat \<Rightarrow> nat \<Rightarrow> 'a :: linorder \<Rightarrow> 'a cset \<Rightarrow> 'a cset \<times> siter \<times> bool" where
  "cset_insert this n x m_set =
    (case tree_insert_unique id n x (cset_alloc m_set) of (t, it, ok) \<Rightarrow> (Some t, siter_at this it, ok))"

definition cset_emplace :: "nat \<Rightarrow> nat \<Rightarrow> 'a :: linorder \<Rightarrow> 'a cset \<Rightarrow> 'a cset \<times> siter \<times> bool" where
  "cset_emplace this n x m_set =
    (case tree_insert_unique id n x (cset_alloc m_set) of (t, it, ok) \<Rightarrow> (Some t, siter_at this it, ok))"

definition cset_begin :: "nat \<Rightarrow> 'a cset \<Rightarrow> siter" where
  "cset_begin this m_set = (case m_set of None \<Rightarrow> siter_of this | Some t \<Rightarrow> siter_at this (first_pos t))"

definition cset_end :: "nat \<Rightarrow> 'a cset \<Rightarrow> siter" where
  "cset_end this m_set = (case m_set of None \<Rightarrow> siter_of this | Some t \<Rightarrow> siter_at this Past)"

definition cset_find :: "nat \<Rightarrow> 'a :: linorder \<Rightarrow> 'a cset \<Rightarrow> siter" where
  "cset_find this x m_set = (case m_set of None \<Rightarrow> siter_of this | Some t \<Rightarrow> siter_at this (tree_find id x t))"

definition cset_lower_bound :: "nat \<Rightarrow> 'a :: linorder \<Rightarrow> 'a cset \<Rightarrow> siter" where
  "cset_lower_bound this x m_set =
    (case m_set of None \<Rightarrow> siter_of this | Some t \<Rightarrow> siter_at this (tree_lower id x t))"

definition cset_upper_bound :: "nat \<Rightarrow> 'a :: linorder \<Rightarrow> 'a cset \<Rightarrow> siter" where
  "cset_upper_bound this x m_set =
    (case m_set of None \<Rightarrow> siter_of this | Some t \<Rightarrow> siter_at this (tree_upper id x t))"

text \<open>The overloads for a constant set, which give constant iterators.\<close>

definition cset_cbegin :: "nat \<Rightarrow> 'a cset \<Rightarrow> siter" where
  "cset_cbegin this m_set = (case m_set of None \<Rightarrow> siter_of this | Some t \<Rightarrow> siter_at this (first_pos t))"

definition cset_cend :: "nat \<Rightarrow> 'a cset \<Rightarrow> siter" where
  "cset_cend this m_set = (case m_set of None \<Rightarrow> siter_of this | Some t \<Rightarrow> siter_at this Past)"

definition cset_cfind :: "nat \<Rightarrow> 'a :: linorder \<Rightarrow> 'a cset \<Rightarrow> siter" where
  "cset_cfind this x m_set = (case m_set of None \<Rightarrow> siter_of this | Some t \<Rightarrow> siter_at this (tree_find id x t))"

definition cset_clower_bound :: "nat \<Rightarrow> 'a :: linorder \<Rightarrow> 'a cset \<Rightarrow> siter" where
  "cset_clower_bound this x m_set =
    (case m_set of None \<Rightarrow> siter_of this | Some t \<Rightarrow> siter_at this (tree_lower id x t))"

definition cset_cupper_bound :: "nat \<Rightarrow> 'a :: linorder \<Rightarrow> 'a cset \<Rightarrow> siter" where
  "cset_cupper_bound this x m_set =
    (case m_set of None \<Rightarrow> siter_of this | Some t \<Rightarrow> siter_at this (tree_upper id x t))"

text \<open>A reverse iterator is held by its base, one place behind its element.\<close>

definition cset_rbegin :: "nat \<Rightarrow> 'a cset \<Rightarrow> siter" where
  "cset_rbegin this m_set = (case m_set of None \<Rightarrow> siter_of this | Some t \<Rightarrow> siter_at this Past)"

definition cset_rend :: "nat \<Rightarrow> 'a cset \<Rightarrow> siter" where
  "cset_rend this m_set = (case m_set of None \<Rightarrow> siter_of this | Some t \<Rightarrow> siter_at this (first_pos t))"

definition cset_crbegin :: "nat \<Rightarrow> 'a cset \<Rightarrow> siter" where
  "cset_crbegin this m_set = (case m_set of None \<Rightarrow> siter_of this | Some t \<Rightarrow> siter_at this Past)"

definition cset_crend :: "nat \<Rightarrow> 'a cset \<Rightarrow> siter" where
  "cset_crend this m_set = (case m_set of None \<Rightarrow> siter_of this | Some t \<Rightarrow> siter_at this (first_pos t))"

subsection \<open>What client code does with them\<close>

text \<open>
  Visiting what is left from an iterator: \<^verbatim>\<open>for (; it != s.end(); ++it)\<close>, and the same with reverse
  iterators and \<^verbatim>\<open>rend\<close>.
\<close>

definition sweep_round ::
    "(nat \<Rightarrow> 'a cset) \<Rightarrow> nat \<Rightarrow> siter \<times> 'a list \<Rightarrow> exn + 'a list + siter \<times> 'a list" where
  "sweep_round w a t =
    (case t of (it, seen) \<Rightarrow>
      ebind (siter_not_equal w it (cset_end a (w a))) (\<lambda>go.
        if go
        then
          ebind (siter_deref (cset_alloc (w a)) it) (\<lambda>e.
          ebind (siter_next (cset_alloc (w a)) it) (\<lambda>it. Inr (Inr (it, seen @ [e]))))
        else Inr (Inl seen)))"

definition sweep :: "(nat \<Rightarrow> 'a cset) \<Rightarrow> nat \<Rightarrow> siter \<Rightarrow> (exn + 'a list) option" where
  "sweep w a it = run (sweep_round w a) (it, [])"

definition sweep_back_round ::
    "(nat \<Rightarrow> 'a cset) \<Rightarrow> nat \<Rightarrow> siter \<times> 'a list \<Rightarrow> exn + 'a list + siter \<times> 'a list" where
  "sweep_back_round w a t =
    (case t of (it, seen) \<Rightarrow>
      ebind (siter_not_equal w it (cset_rend a (w a))) (\<lambda>go.
        if go
        then
          ebind (sriter_deref (cset_alloc (w a)) it) (\<lambda>e.
          ebind (sriter_next (cset_alloc (w a)) it) (\<lambda>it. Inr (Inr (it, seen @ [e]))))
        else Inr (Inl seen)))"

definition sweep_back :: "(nat \<Rightarrow> 'a cset) \<Rightarrow> nat \<Rightarrow> siter \<Rightarrow> (exn + 'a list) option" where
  "sweep_back w a it = run (sweep_back_round w a) (it, [])"

subsection \<open>The set it stands for\<close>

definition cset_set :: "'a cset \<Rightarrow> 'a set" where
  "cset_set m_set = snd ` set (cset_alloc m_set)"

definition cset_ok :: "nat \<Rightarrow> 'a :: linorder cset \<Rightarrow> bool" where
  "cset_ok n m_set \<longleftrightarrow> m_set \<noteq> Some [] \<and> tree_ok id n (cset_alloc m_set)"

lemma cset_alloc_simps [simp]: "cset_alloc None = []" "cset_alloc (Some t) = t"
  by (simp_all add: cset_alloc_def)

lemma cset_ok_None [simp]: "cset_ok n None"
  by (simp add: cset_ok_def tree_ok_def)

lemma cset_set_None [simp]: "cset_set None = {}"
  by (simp add: cset_set_def)

lemma cset_okD: "cset_ok n m \<Longrightarrow> tree_ok id n (cset_alloc m)"
  by (simp add: cset_ok_def)

lemma cset_insert_ok:
  assumes "cset_ok n m"
  shows "\<exists>m' it. cset_insert a n x m = (m', it, x \<notin> cset_set m) \<and> cset_ok (Suc n) m' \<and> cset_set m' = insert x (cset_set m)"
proof (cases rule: tree_find_cases [OF cset_okD [OF assms], of x, case_names absent present])
  case absent
  let ?t = "tree_insert_equal id n x (cset_alloc m)"
  have "tree_ok id (Suc n) ?t" by (rule tree_ok_insert [OF cset_okD [OF assms]]) (use absent(2) in simp)
  moreover have "?t \<noteq> []" by (simp add: tree_insert_equal_def)
  moreover have "x \<notin> cset_set m" using absent(2) by (auto simp: cset_set_def)
  ultimately show ?thesis using absent(1) by (simp add: cset_insert_def tree_insert_unique_def cset_ok_def cset_set_def)
next
  case (present i e)
  then have "x \<in> cset_set m" by (force simp: cset_set_def)
  moreover have "cset_insert a n x m = (m, siter_at a (Node i), False)"
    using present by (cases m) (simp_all add: cset_insert_def tree_insert_unique_def)
  ultimately show ?thesis using assms tree_ok_more [OF cset_okD [OF assms], of "Suc n"] by (auto simp: cset_ok_def)
qed

lemma kept_ok:
  assumes "cset_ok n m" "t = filter (\<lambda>y. id (snd y) \<noteq> x) (cset_alloc m)"
  shows "cset_ok n (if t = [] then None else Some t)" "cset_set (if t = [] then None else Some t) = cset_set m - {x}"
proof -
  have "tree_ok id n t" unfolding assms(2) by (rule tree_ok_filter [OF cset_okD [OF assms(1)]])
  then show "cset_ok n (if t = [] then None else Some t)" by (simp add: cset_ok_def)
  have "snd ` set t = cset_set m - {x}" unfolding assms(2) by (auto simp: cset_set_def)
  then show "cset_set (if t = [] then None else Some t) = cset_set m - {x}"
    by (cases "t = []") (simp_all add: cset_set_def)
qed

lemma cset_erase_ok:
  assumes "cset_ok n m"
  shows "\<exists>m'. cset_erase x m = (m', if x \<in> cset_set m then 1 else 0) \<and> cset_ok n m' \<and> cset_set m' = cset_set m - {x}"
proof (cases m)
  case None
  then show ?thesis by (simp add: cset_erase_def)
next
  case (Some t)
  have "tree_count id x t = (if x \<in> cset_set m then 1 else 0)"
    using tree_count_unique [OF cset_okD [OF assms], of x] Some by (simp add: cset_set_def)
  define f where "f = filter (\<lambda>y. id (snd y) \<noteq> x) t"
  then have "cset_erase x m = (if f = [] then None else Some f, if x \<in> cset_set m then 1 else 0)"
    using \<open>tree_count id x t = _\<close> by (simp add: cset_erase_def tree_erase_key_def Some)
  then show ?thesis using kept_ok [OF assms, of f x] Some f_def by (metis cset_alloc_simps(2))
qed

lemma cset_find_ok:
  assumes "cset_ok n (w a)"
  shows "siter_equal w (cset_find a x (w a)) (cset_end a (w a)) = Inr (x \<notin> cset_set (w a))"
    "x \<in> cset_set (w a) \<Longrightarrow> \<exists>t i. w a = Some t \<and> cset_find a x (w a) = siter_at a (Node i) \<and> (i, x) \<in> set t"
proof (atomize (full), cases "w a")
  case None
  then show "siter_equal w (cset_find a x (w a)) (cset_end a (w a)) = Inr (x \<notin> cset_set (w a)) \<and>
    (x \<in> cset_set (w a) \<longrightarrow> (\<exists>t i. w a = Some t \<and> cset_find a x (w a) = siter_at a (Node i) \<and> (i, x) \<in> set t))"
    by (simp add: cset_find_def cset_end_def siter_equal_def siter_of_def)
next
  case (Some t)
  have ok: "tree_ok id n t" using assms Some by (simp add: cset_ok_def)
  show "siter_equal w (cset_find a x (w a)) (cset_end a (w a)) = Inr (x \<notin> cset_set (w a)) \<and>
    (x \<in> cset_set (w a) \<longrightarrow> (\<exists>t i. w a = Some t \<and> cset_find a x (w a) = siter_at a (Node i) \<and> (i, x) \<in> set t))"
  proof (cases rule: tree_find_cases [OF ok, of x, case_names absent present])
    case absent
    then have "x \<notin> cset_set (w a)" by (auto simp: cset_set_def Some)
    then show ?thesis using absent Some by (simp add: cset_find_def cset_end_def siter_equal_def siter_at_def)
  next
    case (present i e)
    then have "x \<in> cset_set (w a)" by (force simp: cset_set_def Some)
    then show ?thesis using present Some by (auto simp: cset_find_def cset_end_def siter_equal_def siter_at_def)
  qed
qed

lemma cset_erase_found_ok:
  assumes "cset_ok n (w a)" "x \<in> cset_set (w a)"
  shows "\<exists>m it. cset_erase_at a (cset_find a x (w a)) (w a) = Inr (m, it) \<and> cset_ok n m \<and> cset_set m = cset_set (w a) - {x}"
proof -
  obtain t i where t: "w a = Some t" "cset_find a x (w a) = siter_at a (Node i)" "(i, x) \<in> set t"
    using cset_find_ok(2) [of n w a x] assms by blast
  let ?f = "filter (\<lambda>y. id (snd y) \<noteq> x) t"
  have ok: "tree_ok id n t" using assms(1) t(1) by (simp add: cset_ok_def)
  obtain q where q: "tree_erase (Node i) t = Inr (?f, q)" using tree_erase_node [OF ok t(3)] by auto
  have erased: "cset_erase_at a (cset_find a x (w a)) (w a) =
    Inr (if ?f = [] then None else Some ?f, if ?f = [] then siter_of a else siter_at a q)"
    unfolding t(2) using q by (simp add: cset_erase_at_def siter_at_def spec_assert_def t(1))
  show ?thesis using erased kept_ok [OF assms(1), of ?f x] t(1) by simp
qed

lemma cset_copied_ok:
  assumes "cset_ok n' other"
  shows "cset_ok (n + cset_size other) (cset_assign n m other)" "cset_set (cset_assign n m other) = cset_set other"
proof -
  have "snd ` set (tree_copy n (cset_alloc other)) = cset_set other"
    unfolding cset_set_def by (metis list.set_map tree_ok_copy(2) [OF cset_okD [OF assms]])
  then show "cset_ok (n + cset_size other) (cset_assign n m other)" "cset_set (cset_assign n m other) = cset_set other"
    using tree_ok_copy(1) [OF cset_okD [OF assms], of n] assms
    by (cases other; auto simp: cset_assign_def cset_ok_def cset_set_def cset_size_def tree_copy_def)+
qed

lemma cset_sorted:
  assumes "cset_ok n m"
  shows "sorted_wrt (<) (map snd (cset_alloc m))" "set (map snd (cset_alloc m)) = cset_set m"
  using cset_okD [OF assms] by (simp_all add: tree_ok_def sorted_wrt_map cset_set_def)

lemma cset_observe:
  assumes "cset_ok n m" "cset_ok n' m'"
  shows "m = None \<longleftrightarrow> cset_set m = {}" "cset_size m = card (cset_set m)"
    "cset_count x m = (if x \<in> cset_set m then 1 else 0)" "cset_equal m m' \<longleftrightarrow> cset_set m = cset_set m'"
proof -
  show "m = None \<longleftrightarrow> cset_set m = {}" using assms(1) by (cases m) (auto simp: cset_ok_def cset_set_def)
  have "distinct (map snd (cset_alloc m))" using cset_sorted(1) [OF assms(1)] by (simp only: strict_sorted_iff)
  from distinct_card [OF this] show "cset_size m = card (cset_set m)"
    unfolding cset_sorted(2) [OF assms(1)] by (cases m) (simp_all add: cset_size_def)
  show "cset_count x m = (if x \<in> cset_set m then 1 else 0)"
    using tree_count_unique [OF cset_okD [OF assms(1)], of x] by (cases m) (simp_all add: cset_count_def cset_set_def)
  have "cset_equal m m' \<longleftrightarrow> map snd (cset_alloc m) = map snd (cset_alloc m')"
    using assms by (cases m; cases m') (auto simp: cset_equal_def cset_empty_def tree_equal_def cset_ok_def)
  also have "\<dots> \<longleftrightarrow> cset_set m = cset_set m'"
    using strict_sorted_equal [OF cset_sorted(1) [OF assms(1)] cset_sorted(1) [OF assms(2)]]
    unfolding cset_sorted(2) [OF assms(1)] cset_sorted(2) [OF assms(2)] by (metis cset_sorted(2) [OF assms(1)] cset_sorted(2) [OF assms(2)])
  finally show "cset_equal m m' \<longleftrightarrow> cset_set m = cset_set m'" .
qed

lemma sweep_rest:
  assumes "w a = Some t" "distinct (map fst t)" "t = t1 @ t2"
  shows "sweep w a (siter_at a (first_pos t2)) = Some (Inr (map snd t2))"
proof -
  have "sweep_round w a (siter_at a Past, seen) = Inr (Inl seen)" for seen
    using assms(1) by (simp add: sweep_round_def siter_not_equal_def siter_equal_def cset_end_def siter_at_def)
  moreover have "sweep_round w a (siter_at a (Node (fst x)), seen) = Inr (Inr (siter_at a (first_pos t2), seen @ [snd x]))"
    if "t = t1 @ x # t2" for t1 x t2 seen
    using assms(1,2) that walk_node [of t1 x t2]
    by (simp add: sweep_round_def siter_not_equal_def siter_equal_def cset_end_def siter_at_def
        siter_deref_def siter_next_def)
  ultimately have "run (sweep_round w a) (siter_at a (first_pos t2), []) = Some (Inr ([] @ map snd t2))"
    by (rule walk_run [OF _ _ assms(3)])
  then show ?thesis by (simp add: sweep_def)
qed

lemma sweep_back_rest:
  assumes "w a = Some t" "distinct (map fst t)" "t = t1 @ t2"
  shows "sweep_back w a (siter_at a (first_pos t2)) = Some (Inr (rev (map snd t1)))"
proof -
  have "sweep_back_round w a (siter_at a (first_pos t), seen) = Inr (Inl seen)" for seen
    using assms(1) by (simp add: sweep_back_round_def siter_not_equal_def siter_equal_def cset_rend_def siter_at_def)
  moreover have "sweep_back_round w a (siter_at a (first_pos t2), seen) =
      Inr (Inr (siter_at a (first_pos (x # t2)), seen @ [snd x]))" if "t = t1 @ x # t2" for t1 x t2 seen
    using assms(1,2) that walk_back_node [of t1 x t2] first_pos_same [of "t1 @ [x]" t2]
    by (simp add: sweep_back_round_def siter_not_equal_def siter_equal_def cset_rend_def siter_at_def
        first_pos_def [of "x # t2"] sriter_deref_def sriter_next_def)
  ultimately have "run (sweep_back_round w a) (siter_at a (first_pos t2), []) = Some (Inr ([] @ rev (map snd t1)))"
    by (rule walk_back_run [OF _ _ assms(3)])
  then show ?thesis by (simp add: sweep_back_def)
qed

lemma sweep_None:
  assumes "w a = None"
  shows "sweep w a (siter_of a) = Some (Inr [])" "sweep_back w a (siter_of a) = Some (Inr [])"
proof -
  have "sweep_round w a (siter_of a, []) = Inr (Inl [])"
    using assms by (simp add: sweep_round_def siter_not_equal_def siter_equal_def cset_end_def siter_of_def)
  then show "sweep w a (siter_of a) = Some (Inr [])" unfolding sweep_def by (rule run_simps(2))
  have "sweep_back_round w a (siter_of a, []) = Inr (Inl [])"
    using assms by (simp add: sweep_back_round_def siter_not_equal_def siter_equal_def cset_rend_def siter_of_def)
  then show "sweep_back w a (siter_of a) = Some (Inr [])" unfolding sweep_back_def by (rule run_simps(2))
qed

lemma sweep_ok:
  assumes "cset_ok n (w a)" "es = map snd (cset_alloc (w a))"
  shows "sweep w a (cset_begin a (w a)) = Some (Inr es) \<and>
    sweep_back w a (cset_rbegin a (w a)) = Some (Inr (rev es)) \<and>
    sweep w a (cset_lower_bound a x (w a)) = Some (Inr (filter (\<lambda>e. x \<le> e) es)) \<and>
    sweep w a (cset_upper_bound a x (w a)) = Some (Inr (filter (\<lambda>e. x < e) es))"
proof (cases "w a")
  case None
  then show ?thesis using sweep_None [of w a] assms(2)
    by (simp add: cset_begin_def cset_rbegin_def cset_lower_bound_def cset_upper_bound_def)
next
  case (Some t)
  have ok: "tree_ok id n t" using assms(1) Some by (simp add: cset_ok_def)
  then have d: "distinct (map fst t)" by (simp add: tree_ok_def)
  have from_split: "sweep w a (siter_at a (first_pos t2)) = Some (Inr (map snd t2))" if "t1 @ t2 = t" for t1 t2
    by (rule sweep_rest [where w = w, OF Some d that [symmetric]])
  have "sweep_back w a (siter_at a Past) = Some (Inr (rev (map snd t)))"
    using sweep_back_rest [of w a t t "[]"] d Some by (simp add: first_pos_def)
  then show ?thesis
    using from_split [of "[]" t] from_split [OF tree_bounds(2) [OF ok]] from_split [OF tree_bounds(4) [OF ok]]
      Some assms(2)
    by (simp add: cset_begin_def cset_rbegin_def cset_lower_bound_def cset_upper_bound_def
        tree_bounds(1) [OF ok] tree_bounds(3) [OF ok] filter_map comp_def)
qed

text \<open>The overloads for a constant set stand at the same places.\<close>

lemma const_set_overloads:
  "cset_cbegin this m = siter_const (cset_begin this m)" "cset_cend this m = siter_const (cset_end this m)"
  "cset_cfind this x m = siter_const (cset_find this x m)"
  "cset_clower_bound this x m = siter_const (cset_lower_bound this x m)"
  "cset_cupper_bound this x m = siter_const (cset_upper_bound this x m)"
  "cset_crbegin this m = cset_rbegin this m" "cset_crend this m = cset_rend this m"
  by (simp_all add: siter_const_def cset_cbegin_def cset_begin_def cset_cend_def cset_end_def cset_cfind_def cset_find_def
      cset_clower_bound_def cset_lower_bound_def cset_cupper_bound_def cset_upper_bound_def
      cset_crbegin_def cset_rbegin_def cset_crend_def cset_rend_def)

subsection \<open>Programs\<close>

text \<open>Programs over the compact sets at all addresses; each operation also gives what its caller sees.\<close>

datatype 'a sop = Insert nat 'a | Erase nat 'a | Erase_found nat 'a | Clear nat | Swap nat nat | Assign nat nat

definition sop_step :: "'a :: linorder sop \<Rightarrow> (nat \<Rightarrow> 'a cset) \<times> nat \<Rightarrow> exn + (nat \<Rightarrow> 'a cset) \<times> nat" where
  "sop_step p s =
    (case s of (w, n) \<Rightarrow>
      case p of
        Insert a x \<Rightarrow> (case cset_insert a n x (w a) of (m, _) \<Rightarrow> Inr (w(a := m), Suc n))
      | Erase a x \<Rightarrow> Inr (w(a := fst (cset_erase x (w a))), n)
      | Erase_found a x \<Rightarrow>
          ebind (siter_not_equal w (cset_find a x (w a)) (cset_end a (w a))) (\<lambda>found.
            if found then ebind (cset_erase_at a (cset_find a x (w a)) (w a)) (\<lambda>(m, _). Inr (w(a := m), n))
            else Inr (w, n))
      | Clear a \<Rightarrow> Inr (w(a := cset_clear (w a)), n)
      | Swap a b \<Rightarrow> (case cset_swap (w a) (w b) of (m, other) \<Rightarrow> Inr (w(a := m, b := other), n))
      | Assign a b \<Rightarrow>
          if a = b then Inr (w, n) else Inr (w(a := cset_assign n (w a) (w b)), n + cset_size (w b)))"

fun sops :: "'a :: linorder sop list \<Rightarrow> (nat \<Rightarrow> 'a cset) \<times> nat \<Rightarrow> exn + (nat \<Rightarrow> 'a cset) \<times> nat" where
  "sops [] s = Inr s"
| "sops (p # ps) s = ebind (sop_step p s) (sops ps)"

fun sop_set :: "'a sop \<Rightarrow> (nat \<Rightarrow> 'a set) \<Rightarrow> nat \<Rightarrow> 'a set" where
  "sop_set (Insert a x) A = A(a := insert x (A a))"
| "sop_set (Erase a x) A = A(a := A a - {x})"
| "sop_set (Erase_found a x) A = A(a := A a - {x})"
| "sop_set (Clear a) A = A(a := {})"
| "sop_set (Swap a b) A = A(a := A b, b := A a)"
| "sop_set (Assign a b) A = A(a := A b)"

definition holds_sets :: "(nat \<Rightarrow> 'a :: linorder cset) \<Rightarrow> nat \<Rightarrow> (nat \<Rightarrow> 'a set) \<Rightarrow> bool" where
  "holds_sets w n A \<longleftrightarrow> (\<forall>a. cset_ok n (w a) \<and> cset_set (w a) = A a)"

lemma holds_setsI:
  assumes "holds_sets w n A" "n \<le> n'" "cset_ok n' m" "cset_set m = S"
  shows "holds_sets (w(a := m)) n' (A(a := S))"
  using assms tree_ok_more by (fastforce simp: holds_sets_def cset_ok_def)

lemma sop_step_ok:
  assumes "holds_sets w n A"
  shows "\<exists>w' n'. sop_step p (w, n) = Inr (w', n') \<and> holds_sets w' n' (sop_set p A)"
proof -
  have ok: "cset_ok n (w a)" "cset_set (w a) = A a" for a using assms by (auto simp: holds_sets_def)
  note set = holds_setsI [OF assms]
  show ?thesis
  proof (cases p)
    case (Insert a x)
    obtain m it where m: "cset_insert a n x (w a) = (m, it, x \<notin> A a)" "cset_ok (Suc n) m" "cset_set m = insert x (A a)"
      using cset_insert_ok [OF ok(1) [of a], where x = x and a = a] ok(2) by auto
    have "holds_sets (w(a := m)) (Suc n) (A(a := insert x (A a)))" by (rule set) (use m in simp_all)
    then show ?thesis using m(1) Insert by (simp add: sop_step_def)
  next
    case (Erase a x)
    obtain m r where m: "cset_erase x (w a) = (m, r)" "cset_ok n m" "cset_set m = A a - {x}"
      using cset_erase_ok [OF ok(1) [of a], of x] ok(2) by auto
    have "holds_sets (w(a := m)) n (A(a := A a - {x}))" by (rule set) (use m in simp_all)
    then show ?thesis using m(1) Erase by (simp add: sop_step_def)
  next
    case (Erase_found a x)
    have f: "siter_equal w (cset_find a x (w a)) (cset_end a (w a)) = Inr (x \<notin> A a)"
      using cset_find_ok(1) [of n w a x] ok by simp
    show ?thesis
    proof (cases "x \<in> A a")
      case True
      then obtain m it where m: "cset_erase_at a (cset_find a x (w a)) (w a) = Inr (m, it)" "cset_ok n m"
        "cset_set m = A a - {x}"
        using cset_erase_found_ok [of n w a x] ok by auto
      have "holds_sets (w(a := m)) n (A(a := A a - {x}))" by (rule set) (use m in simp_all)
      then show ?thesis using Erase_found f m(1) True by (simp add: sop_step_def siter_not_equal_def)
    next
      case False
      then have "sop_set p A = A" using Erase_found by auto
      then show ?thesis using Erase_found f False assms by (simp add: sop_step_def siter_not_equal_def)
    qed
  next
    case (Clear a)
    have "holds_sets (w(a := None)) n (A(a := {}))" by (rule set) simp_all
    then show ?thesis using Clear by (simp add: sop_step_def cset_clear_def)
  next
    case (Swap a b)
    have "holds_sets (w(a := w b, b := w a)) n (A(a := A b, b := A a))" using ok by (simp add: holds_sets_def)
    then show ?thesis using Swap by (simp add: sop_step_def cset_swap_def)
  next
    case (Assign a b)
    show ?thesis
    proof (cases "a = b")
      case True
      then show ?thesis using Assign assms by (simp add: sop_step_def)
    next
      case False
      have "holds_sets (w(a := cset_assign n (w a) (w b))) (n + cset_size (w b)) (A(a := A b))"
        by (rule set) (use cset_copied_ok [OF ok(1) [of b], of n "w a"] ok(2) [of b] in simp_all)
      then show ?thesis using Assign False by (simp add: sop_step_def)
    qed
  qed
qed

lemma sops_ok:
  assumes "holds_sets w n A"
  shows "\<exists>w' n'. sops ps (w, n) = Inr (w', n') \<and> holds_sets w' n' (fold sop_set ps A)"
  using assms
proof (induction ps arbitrary: w n A)
  case (Cons p ps)
  obtain w1 n1 where s: "sop_step p (w, n) = Inr (w1, n1)" "holds_sets w1 n1 (sop_set p A)"
    using sop_step_ok [OF Cons.prems] by blast
  then show ?case using Cons.IH [OF s(2)] by simp
qed simp

text \<open>
  C39 (refinement). A compact set behaves as the finite set it stands for: every program of insertions,
  erasures by element and by iterator, clearing, swapping and assignment runs without an error, and
  afterwards searching, counting, size and comparison answer as the set does that the same operations
  make of finite sets. A visit from \<^verbatim>\<open>begin\<close> to \<^verbatim>\<open>end\<close> shows its elements in ascending order, one from \<^verbatim>\<open>rbegin\<close>
  to \<^verbatim>\<open>rend\<close> in descending order, and one from \<^verbatim>\<open>lower_bound\<close> or \<^verbatim>\<open>upper_bound\<close> of an element those not below,
  or above, it. The tree behind the pointer is there exactly when the set is not empty.
\<close>

theorem compact_set_is_set:
  "\<exists>w n. sops ps (\<lambda>_. None, 0) = Inr (w, n) \<and>
    (let A = fold sop_set ps (\<lambda>_. {}) in
     \<forall>a. (w a = None \<longleftrightarrow> A a = {}) \<and> cset_size (w a) = card (A a) \<and>
       (\<forall>x. siter_equal w (cset_find a x (w a)) (cset_end a (w a)) = Inr (x \<notin> A a) \<and>
         cset_count x (w a) = (if x \<in> A a then 1 else 0)) \<and>
       (\<forall>b. cset_equal (w a) (w b) = (A a = A b)) \<and>
       (let es = sorted_list_of_set (A a) in
        finite (A a) \<and> sweep w a (cset_begin a (w a)) = Some (Inr es) \<and>
        sweep_back w a (cset_rbegin a (w a)) = Some (Inr (rev es)) \<and>
        (\<forall>x. sweep w a (cset_lower_bound a x (w a)) = Some (Inr (filter (\<lambda>e. x \<le> e) es)) \<and>
          sweep w a (cset_upper_bound a x (w a)) = Some (Inr (filter (\<lambda>e. x < e) es)))))"
proof -
  have "holds_sets (\<lambda>_. None) 0 (\<lambda>_. {})" by (simp add: holds_sets_def)
  then obtain w n where w: "sops ps (\<lambda>_. None, 0) = Inr (w, n)" "holds_sets w n (fold sop_set ps (\<lambda>_. {}))"
    using sops_ok by blast
  have ok: "cset_ok n (w a)" "fold sop_set ps (\<lambda>_. {}) a = cset_set (w a)" for a
    using w(2) by (simp_all add: holds_sets_def)
  have es: "map snd (cset_alloc (w a)) = sorted_list_of_set (cset_set (w a))" "finite (cset_set (w a))" for a
  proof -
    show fin: "finite (cset_set (w a))" by (simp add: cset_set_def)
    show "map snd (cset_alloc (w a)) = sorted_list_of_set (cset_set (w a))"
      using strict_sorted_equal [OF strict_sorted_list_of_set cset_sorted(1) [OF ok(1)]]
        cset_sorted(2) [OF ok(1)] set_sorted_list_of_set [OF fin] by metis
  qed
  note seen = sweep_ok [where n = n and w = w, OF ok(1) refl, unfolded es(1)]
  show ?thesis
    using w(1) seen es(2) cset_observe [OF ok(1) ok(1)] cset_find_ok(1) [of n w] ok(1)
    unfolding Let_def ok(2) by auto
qed

end
