(* ===== verification/Ptr_Iter.thy ===== *)
theory Ptr_Iter
  imports Ptr_Props
begin

text \<open>
  The iterators of \<^verbatim>\<open>buffer::ptr\<close> (\<^verbatim>\<open>ptr::iterator_impl\<close> in \<^verbatim>\<open>buffer_ptr.h\<close>), with which decoders walk over
  a window: they hand out pointers into it, or new \<^verbatim>\<open>ptr\<close> objects that share it or copy from it.
\<close>

subsection \<open>The iterator\<close>

text \<open>The three pointers are positions in the raw \<open>pi_raw\<close>, as \<^verbatim>\<open>c_str()\<close> gives them.\<close>

record ptr_iter =
  pi_ptr :: nat
  pi_raw :: nat
  pi_start :: nat
  pi_cur :: nat
  pi_end :: nat
  pi_deep :: bool

text \<open>
  Pointers are compared by their addresses, also beyond the block; the addition of a pointer and a length
  that leaves the address space is undefined.
\<close>

definition pointer_add :: "mem \<Rightarrow> nat \<Rightarrow> nat \<Rightarrow> nat \<Rightarrow> exn + nat" where
  "pointer_add m r pos len =
    ebind (raw_at m r) (\<lambda>w. if r_addr w + pos + len < two64 then Inr (pos + len) else Inl Undefined)"

definition piter_new :: "mem \<Rightarrow> nat \<Rightarrow> nat \<Rightarrow> bool \<Rightarrow> exn + ptr_iter" where
  "piter_new m p offset deep_copy =
    ebind (c_str m p) (\<lambda>(r, pos).
    ebind (pointer_add m r pos offset) (\<lambda>start.
    ebind (end_c_str m p) (\<lambda>(_, end_ptr).
      Inr \<lparr>pi_ptr = p, pi_raw = r, pi_start = start, pi_cur = start, pi_end = end_ptr, pi_deep = deep_copy\<rparr>)))"

definition ptr_begin :: "mem \<Rightarrow> nat \<Rightarrow> nat \<Rightarrow> exn + ptr_iter" where
  "ptr_begin m i offset = piter_new m i offset False"

definition ptr_begin_const :: "mem \<Rightarrow> nat \<Rightarrow> nat \<Rightarrow> exn + ptr_iter" where
  "ptr_begin_const m i offset = piter_new m i offset False"

definition ptr_cbegin :: "mem \<Rightarrow> nat \<Rightarrow> exn + ptr_iter" where
  "ptr_cbegin m i = ptr_begin_const m i 0"

definition ptr_begin_deep :: "mem \<Rightarrow> nat \<Rightarrow> nat \<Rightarrow> exn + ptr_iter" where
  "ptr_begin_deep m i offset = piter_new m i offset True"

text \<open>
  Moving changes the position before it throws, so the result is what is thrown or returned, and the
  iterator as the caller finds it in either case.
\<close>

definition piter_add :: "mem \<Rightarrow> nat \<Rightarrow> ptr_iter \<Rightarrow> exn + (exn + unit) \<times> ptr_iter" where
  "piter_add m len it =
    ebind (pointer_add m (pi_raw it) (pi_cur it) len) (\<lambda>cur_pos.
      Inr (if cur_pos > pi_end it then Inl End_of_buffer else Inr (), it\<lparr>pi_cur := cur_pos\<rparr>))"

definition get_pos_add :: "mem \<Rightarrow> nat \<Rightarrow> ptr_iter \<Rightarrow> exn + (exn + nat \<times> nat) \<times> ptr_iter" where
  "get_pos_add m len it =
    ebind (piter_add m len it) (\<lambda>(res, it'). Inr (map_sum id (\<lambda>_. (pi_raw it, pi_cur it)) res, it'))"

definition piter_get_pos :: "ptr_iter \<Rightarrow> nat \<times> nat" where
  "piter_get_pos it = (pi_raw it, pi_cur it)"

definition piter_get_end :: "ptr_iter \<Rightarrow> nat \<times> nat" where
  "piter_get_end it = (pi_raw it, pi_end it)"

definition piter_get_offset :: "ptr_iter \<Rightarrow> nat" where
  "piter_get_offset it = sub64 (pi_cur it) (pi_start it)"

definition piter_end :: "ptr_iter \<Rightarrow> bool" where
  "piter_end it \<longleftrightarrow> pi_cur it = pi_end it"

text \<open>
  \<^verbatim>\<open>get_ptr\<close>: a copy of the bytes, or a window of the same raw. The position is taken against what
  \<^verbatim>\<open>c_str()\<close> of the parent is now.
\<close>

definition piter_get_ptr :: "nat \<Rightarrow> ptr_iter \<Rightarrow> mem \<Rightarrow> exn + (exn + nat) \<times> ptr_iter \<times> mem" where
  "piter_get_ptr len it m =
    (if pi_deep it
     then
       ebind (get_pos_add m len it) (\<lambda>(res, it).
         case res of Inl e \<Rightarrow> Inr (Inl e, it, m)
         | Inr (r, pos) \<Rightarrow>
             ebind (raw_read m r pos len) (\<lambda>bs.
             ebind (copy_raw bs m) (\<lambda>(s, m).
             ebind (ptr_of_raw s m) (\<lambda>(j, m). Inr (Inr j, it, m)))))
     else
       ebind (c_str m (pi_ptr it)) (\<lambda>(_, pos).
       let off = sub64 (pi_cur it) pos in
       ebind (piter_add m len it) (\<lambda>(res, it).
         case res of Inl e \<Rightarrow> Inr (Inl e, it, m)
         | Inr _ \<Rightarrow> ebind (ptr_sub (pi_ptr it) off len m) (\<lambda>(j, m). Inr (Inr j, it, m)))))"

text \<open>A decoder that asks for pieces of the given lengths, until one throws.\<close>

fun get_ptrs :: "nat list \<Rightarrow> ptr_iter \<Rightarrow> mem \<Rightarrow> exn + (exn + nat list) \<times> ptr_iter \<times> mem" where
  "get_ptrs [] it m = Inr (Inr [], it, m)"
| "get_ptrs (len # lens) it m =
    ebind (piter_get_ptr len it m) (\<lambda>(res, it, m).
      case res of Inl e \<Rightarrow> Inr (Inl e, it, m)
      | Inr j \<Rightarrow> ebind (get_ptrs lens it m) (\<lambda>(res, it, m). Inr (map_sum id (Cons j) res, it, m)))"

subsection \<open>What it does\<close>

fun cut_at :: "nat list \<Rightarrow> 'a list \<Rightarrow> 'a list list" where
  "cut_at [] xs = []"
| "cut_at (n # ns) xs = take n xs # cut_at ns (drop n xs)"

text \<open>An iterator at \<open>k\<close> bytes into the window of \<open>i\<close>, whose raw does not reach the end of the address space.\<close>

definition piter_at :: "mem \<Rightarrow> nat \<Rightarrow> nat \<Rightarrow> ptr_iter \<Rightarrow> bool" where
  "piter_at m i k it \<longleftrightarrow>
    (\<exists>p r w. m_ptrs m i = Some p \<and> p_raw p = Some r \<and> m_raws m r = Some w \<and> r_addr w + r_len w < two64 \<and>
       k \<le> p_len p \<and> p_len p < 2 ^ 63 \<and>
       pi_ptr it = i \<and> pi_raw it = r \<and> pi_cur it = p_off p + k \<and> pi_end it = p_off p + p_len p)"

lemma piter_new_ok:
  assumes "wf_fl R m" "m_ptrs m i = Some p" "p_raw p = Some r" "m_raws m r = Some w" "r_addr w + r_len w < two64"
    and "offset \<le> p_len p" "p_len p < 2 ^ 63"
  shows "\<exists>it. piter_new m i offset deep = Inr it \<and> piter_at m i offset it \<and> pi_deep it = deep \<and>
    pi_start it = p_off p + offset"
proof -
  have b: "p_off p + p_len p \<le> r_len w"
    using wf_ptr_raw [OF wf_flD(1) [OF assms(1)] assms(2,3)] assms(4) by simp
  let ?it = "\<lparr>pi_ptr = i, pi_raw = r, pi_start = p_off p + offset, pi_cur = p_off p + offset,
    pi_end = p_off p + p_len p, pi_deep = deep\<rparr>"
  have "piter_new m i offset deep = Inr ?it"
    using assms b by (simp add: piter_new_def c_str_def end_c_str_def ptr_raw_def ptr_at_def raw_at_def pointer_add_def)
  moreover have "piter_at m i offset ?it" using assms by (simp add: piter_at_def)
  ultimately show ?thesis by simp
qed

lemma piter_add_ok:
  assumes "wf_fl R m" "piter_at m i k it" "m_ptrs m i = Some p" "k + len \<le> p_len p"
  shows "piter_add m len it = Inr (Inr (), it\<lparr>pi_cur := pi_cur it + len\<rparr>)"
    "piter_at m i (k + len) (it\<lparr>pi_cur := pi_cur it + len\<rparr>)"
proof -
  obtain r w where r: "p_raw p = Some r" "m_raws m r = Some w" "r_addr w + r_len w < two64"
    "pi_raw it = r" "pi_cur it = p_off p + k" "pi_end it = p_off p + p_len p" "pi_ptr it = i" "p_len p < 2 ^ 63"
    using assms(2,3) by (auto simp: piter_at_def)
  have b: "p_off p + p_len p \<le> r_len w"
    using wf_ptr_raw [OF wf_flD(1) [OF assms(1)] assms(3) r(1)] r(2) by simp
  show "piter_add m len it = Inr (Inr (), it\<lparr>pi_cur := pi_cur it + len\<rparr>)"
    using r b assms(4) by (simp add: piter_add_def pointer_add_def raw_at_def)
  show "piter_at m i (k + len) (it\<lparr>pi_cur := pi_cur it + len\<rparr>)"
    using r assms(3,4) by (simp add: piter_at_def)
qed

text \<open>The parent object and its raw stay where they are while other objects are made.\<close>

lemma piter_at_quiet:
  assumes "piter_at m i k it" "quiet m m'" "wf_fl R m" "wf_fl R' m'" "m_ptrs m' i = m_ptrs m i"
  shows "piter_at m' i k it"
proof -
  obtain p r w where r: "m_ptrs m i = Some p" "p_raw p = Some r" "m_raws m r = Some w" "r_addr w + r_len w < two64"
    "k \<le> p_len p" "p_len p < 2 ^ 63" "pi_ptr it = i" "pi_raw it = r" "pi_cur it = p_off p + k"
    "pi_end it = p_off p + p_len p"
    using assms(1) by (auto simp: piter_at_def)
  obtain w' where w': "m_raws m' r = Some w'"
    using wf_ptr_raw [OF wf_flD(1) [OF assms(4)], of i p r] assms(5) r(1,2) by auto
  have "r < m_next m" using wf_coreD(4) [OF wf_flD(1) [OF assms(3)] r(3)] .
  then have "same_raw w w'" using assms(2) w' r(3) unfolding quiet_def by (metis not_le option.inject)
  then have "r_addr w' + r_len w' < two64" using r(4) same_raw_sel by simp
  then show ?thesis using r w' assms(5) by (auto simp: piter_at_def)
qed

definition gives_piece :: "mem \<Rightarrow> nat \<Rightarrow> bool \<Rightarrow> bytes \<Rightarrow> mem \<Rightarrow> nat \<Rightarrow> bool" where
  "gives_piece m r deep bs m' j \<longleftrightarrow> wf_fl {} m' \<and> quiet m m' \<and> j \<notin> dom (m_ptrs m) \<and>
     (\<forall>x \<in> dom (m_ptrs m). m_ptrs m' x = m_ptrs m x) \<and> node_bytes m' j = bs \<and>
     (\<exists>q s. m_ptrs m' j = Some q \<and> p_raw q = Some s \<and> (if deep then m_next m \<le> s else s = r))"

lemma shallow_get_ptr:
  assumes "wf_fl {} m" "piter_at m i k it" "m_ptrs m i = Some p" "p_raw p = Some r" "k + len \<le> p_len p" "\<not> pi_deep it"
  shows "\<exists>j m'. piter_get_ptr len it m = Inr (Inr j, it\<lparr>pi_cur := pi_cur it + len\<rparr>, m') \<and>
    gives_piece m r False (seg k len (node_bytes m i)) m' j"
proof -
  have it: "pi_ptr it = i" "pi_cur it = p_off p + k" using assms(2,3) by (auto simp: piter_at_def)
  have b: "p_off p + p_len p < two64" by (rule wf_ptr_bound [OF assms(1,3,4)])
  obtain m' where m': "ptr_sub i k len m = Inr (m_next m, m')" "wf_fl {} m'" "quiet m m'"
    "m_ptrs m' = (m_ptrs m)(m_next m \<mapsto> \<lparr>p_raw = Some r, p_off = p_off p + k, p_len = len\<rparr>)"
    using ptr_sub_spec [OF assms(1,3,4,5)] by blast
  have off: "sub64 (pi_cur it) (p_off p) = k" using it(2) b assms(5) by (simp add: sub64_small)
  have "piter_get_ptr len it m = Inr (Inr (m_next m), it\<lparr>pi_cur := pi_cur it + len\<rparr>, m')"
    using assms it off m'(1) piter_add_ok(1) [OF assms(1,2,3,5)]
    by (simp add: piter_get_ptr_def c_str_def ptr_raw_def ptr_at_def Let_def)
  moreover have new: "m_next m \<notin> dom (m_ptrs m)" using wf_core_fresh(1) [OF wf_flD(1) [OF assms(1)]] by auto
  moreover have "node_bytes m' (m_next m) = seg k len (node_bytes m i)"
  proof -
    obtain w where w: "m_raws m r = Some w" using wf_ptr_raw [OF wf_flD(1) [OF assms(1)] assms(3,4)] by auto
    obtain w' where w': "m_raws m' r = Some w'"
      using wf_ptr_raw [OF wf_flD(1) [OF m'(2)], of "m_next m"] m'(4) by fastforce
    have "r < m_next m" using wf_coreD(4) [OF wf_flD(1) [OF assms(1)] w] .
    then have "same_raw w w'" using m'(3) w' w unfolding quiet_def by (metis not_le option.inject)
    then have "r_data w' = r_data w" by (rule same_raw_sel)
    then show ?thesis using m'(4) w w' assms(3,4,5)
      by (simp add: node_bytes_def ptr_bytes_def seg_seg)
  qed
  ultimately show ?thesis using m' by (auto simp: gives_piece_def intro!: exI)
qed

lemma deep_get_ptr:
  assumes "wf_fl {} m" "env_ok (m_env m)" "piter_at m i k it" "m_ptrs m i = Some p" "p_raw p = Some r"
    and "k + len \<le> p_len p" "pi_deep it"
  shows "\<exists>j m'. piter_get_ptr len it m = Inr (Inr j, it\<lparr>pi_cur := pi_cur it + len\<rparr>, m') \<and>
    gives_piece m r True (seg k len (node_bytes m i)) m' j"
proof -
  let ?bs = "seg k len (node_bytes m i)"
  have it: "pi_raw it = r" "pi_cur it = p_off p + k" "p_len p < 2 ^ 63"
    using assms(3,4,5) by (auto simp: piter_at_def)
  have bs: "raw_read m r (p_off p + k) len = Inr ?bs" by (rule raw_read_ok [OF assms(1,4,5,6)])
  have len: "length ?bs < 2 ^ 63" using it(3) length_node_bytes [OF assms(1,4)] assms(5) by (simp add: seg_def)
  obtain m1 where m1: "copy_raw ?bs m = Inr (m_next m, m1)" "created 8 ?bs m m1"
    using copy_raw_ok [OF assms(2) len] by blast
  have "length ?bs < two64" using len by (simp add: two64_def)
  then obtain m' where m': "ptr_of_raw (m_next m) m1 = Inr (Suc (m_next m), m')" "fresh_ptr 8 ?bs m m'"
    "wf_fl {} m'" "quiet m m'"
    using created_ptr_of_raw [OF m1(2) assms(1)] by blast
  have "piter_get_ptr len it m = Inr (Inr (Suc (m_next m)), it\<lparr>pi_cur := pi_cur it + len\<rparr>, m')"
    using assms(7) it piter_add_ok(1) [OF assms(1,3,4,6)] bs m1(1) m'(1)
    by (simp add: piter_get_ptr_def get_pos_add_def)
  moreover have "Suc (m_next m) \<notin> dom (m_ptrs m)"
    using wf_coreD(2) [OF wf_flD(1) [OF assms(1)]] by fastforce
  ultimately show ?thesis using m'(2-4) fresh_ptr_bytes [OF m'(2)]
    by (auto simp: gives_piece_def fresh_ptr_def intro!: exI)
qed

lemma get_ptr_ok:
  assumes "wf_fl {} m" "env_ok (m_env m)" "piter_at m i k it" "m_ptrs m i = Some p" "p_raw p = Some r" "k + len \<le> p_len p"
  shows "\<exists>j m'. piter_get_ptr len it m = Inr (Inr j, it\<lparr>pi_cur := pi_cur it + len\<rparr>, m') \<and>
    gives_piece m r (pi_deep it) (seg k len (node_bytes m i)) m' j"
  using shallow_get_ptr [OF assms(1,3,4,5,6)] deep_get_ptr [OF assms] by (cases "pi_deep it") auto

lemma get_ptrs_ok:
  assumes "wf_fl {} m" "env_ok (m_env m)" "piter_at m i k it" "m_ptrs m i = Some p" "p_raw p = Some r"
    and "k + sum_list lens \<le> p_len p"
  shows "\<exists>js m'. get_ptrs lens it m = Inr (Inr js, it\<lparr>pi_cur := pi_cur it + sum_list lens\<rparr>, m') \<and>
    wf_fl {} m' \<and> quiet m m' \<and> (\<forall>x \<in> dom (m_ptrs m). m_ptrs m' x = m_ptrs m x) \<and>
    map (node_bytes m') js = cut_at lens (drop k (node_bytes m i)) \<and> set js \<inter> dom (m_ptrs m) = {} \<and> distinct js \<and>
    (\<forall>j \<in> set js. \<exists>q s. m_ptrs m' j = Some q \<and> p_raw q = Some s \<and> (if pi_deep it then m_next m \<le> s else s = r))"
  using assms
proof (induction lens arbitrary: m k it)
  case Nil
  then show ?case by (auto intro!: exI [of _ m])
next
  case (Cons len lens)
  let ?it = "it\<lparr>pi_cur := pi_cur it + len\<rparr>" and ?bs = "seg k len (node_bytes m i)"
  have le: "k + len \<le> p_len p" "k + len + sum_list lens \<le> p_len p" using Cons.prems(6) by simp_all
  obtain j m1 where j: "piter_get_ptr len it m = Inr (Inr j, ?it, m1)" "gives_piece m r (pi_deep it) ?bs m1 j"
    using get_ptr_ok [OF Cons.prems(1-5) le(1)] by blast
  have wf1: "wf_fl {} m1" and q1: "quiet m m1" and same1: "\<forall>x \<in> dom (m_ptrs m). m_ptrs m1 x = m_ptrs m x"
    using j(2) by (simp_all add: gives_piece_def)
  have p1: "m_ptrs m1 i = Some p" using same1 Cons.prems(4) by (auto simp: dom_def)
  have at1: "piter_at m1 i (k + len) ?it"
    using piter_at_quiet [OF piter_add_ok(2) [OF Cons.prems(1,3,4) le(1)] q1 Cons.prems(1) wf1] p1 Cons.prems(4) by simp
  have env1: "env_ok (m_env m1)" using q1 Cons.prems(2) by (simp add: quiet_def)
  obtain js m2 where js: "get_ptrs lens ?it m1 = Inr (Inr js, ?it\<lparr>pi_cur := pi_cur ?it + sum_list lens\<rparr>, m2)"
    "wf_fl {} m2" "quiet m1 m2" "\<forall>x \<in> dom (m_ptrs m1). m_ptrs m2 x = m_ptrs m1 x"
    "map (node_bytes m2) js = cut_at lens (drop (k + len) (node_bytes m1 i))" "set js \<inter> dom (m_ptrs m1) = {}" "distinct js"
    "\<forall>j \<in> set js. \<exists>q s. m_ptrs m2 j = Some q \<and> p_raw q = Some s \<and> (if pi_deep it then m_next m1 \<le> s else s = r)"
    using Cons.IH [OF wf1 env1 at1 p1 Cons.prems(5) le(2)] by auto
  have k1: "keeps (dom (m_ptrs m)) m m1" by (rule keeps_wf_fl [OF q1 Cons.prems(1) wf1]) (use same1 in auto)
  have k2: "keeps (dom (m_ptrs m1)) m1 m2" by (rule keeps_wf_fl [OF js(3) wf1 js(2)]) (use js(4) in auto)
  have j1: "j \<in> dom (m_ptrs m1)" "node_bytes m1 j = ?bs" "j \<notin> dom (m_ptrs m)" using j(2) by (auto simp: gives_piece_def)
  have jb: "node_bytes m2 j = ?bs" using keepsD(2) [OF k2 j1(1)] j1(2) by simp
  have ib: "node_bytes m1 i = node_bytes m i" using keepsD(2) [OF k1] Cons.prems(4) by (auto simp: dom_def)
  have sub: "dom (m_ptrs m) \<subseteq> dom (m_ptrs m1)" using same1 by (auto simp: dom_def)
  have le_next: "m_next m \<le> m_next m1" using q1 by (simp add: quiet_def)
  show ?case
  proof (rule exI [of _ "j # js"], rule exI [of _ m2], intro conjI)
    show "get_ptrs (len # lens) it m =
        Inr (Inr (j # js), it\<lparr>pi_cur := pi_cur it + sum_list (len # lens)\<rparr>, m2)"
      using j(1) js(1) by (simp add: add.assoc)
    show "quiet m m2" by (rule quiet_trans [OF q1 js(3)])
    show "map (node_bytes m2) (j # js) = cut_at (len # lens) (drop k (node_bytes m i))"
      using js(5) jb ib by (simp add: seg_def add.commute)
    show "\<forall>x \<in> dom (m_ptrs m). m_ptrs m2 x = m_ptrs m x" using js(4) same1 sub by (metis subsetD)
    show "set (j # js) \<inter> dom (m_ptrs m) = {}" using js(6) j1(3) sub unfolding list.set by blast
    show "distinct (j # js)" using js(6,7) j1(1) by auto
    show "\<forall>x \<in> set (j # js). \<exists>q s. m_ptrs m2 x = Some q \<and> p_raw q = Some s \<and> (if pi_deep it then m_next m \<le> s else s = r)"
    proof
      fix x assume "x \<in> set (j # js)"
      then consider "x = j" | "x \<in> set js" by auto
      then show "\<exists>q s. m_ptrs m2 x = Some q \<and> p_raw q = Some s \<and> (if pi_deep it then m_next m \<le> s else s = r)"
      proof cases
        case 1
        then show ?thesis using j(2) js(4) by (force simp: gives_piece_def dom_def)
      next
        case 2
        then show ?thesis using js(8) le_next by (metis le_trans)
      qed
    qed
  qed (rule js(2))
qed

text \<open>Beyond the end: the exception, an iterator behind the end, and never an \<open>end()\<close> again.\<close>

lemma get_ptr_beyond:
  assumes "wf_fl {} m" "m_ptrs m i = Some p" "p_raw p = Some r" "m_raws m r = Some w"
    and "pi_ptr it = i" "pi_raw it = r" "pi_end it = p_off p + p_len p"
    and "pi_end it < pi_cur it + len" "r_addr w + pi_cur it + len < two64"
  shows "piter_get_ptr len it m = Inr (Inl End_of_buffer, it\<lparr>pi_cur := pi_cur it + len\<rparr>, m)"
proof -
  have "piter_add m len it = Inr (Inl End_of_buffer, it\<lparr>pi_cur := pi_cur it + len\<rparr>)"
    using assms by (simp add: piter_add_def pointer_add_def raw_at_def)
  then show ?thesis using assms
    by (simp add: piter_get_ptr_def get_pos_add_def c_str_def ptr_raw_def ptr_at_def Let_def)
qed

text \<open>
  C17 (functional). Walking over a window with an iterator gives the bytes in order: asking for pieces whose
  lengths fit gives one new object per piece, in order the pieces of what was left; from \<^verbatim>\<open>begin_deep\<close>
  each is a raw of its own, from \<^verbatim>\<open>begin\<close> each shares the window's raw. Existing objects keep their bytes,
  and the iterator is at its end exactly when all is read. One more piece that does not fit throws
  \<^verbatim>\<open>end_of_buffer\<close> and makes no object, but the iterator has moved: it stays behind the end, where \<^verbatim>\<open>end()\<close>
  is false, and throws on every further call.
\<close>

theorem ptr_iter_reads:
  assumes "wf_mem m" "env_ok (m_env m)" "m_ptrs m i = Some p" "p_raw p = Some r" "m_raws m r = Some w"
    and "r_addr w + r_len w < two64" "p_len p < 2 ^ 63" "offset + sum_list lens \<le> p_len p"
  shows "\<exists>it it' js m'. piter_new m i offset deep = Inr it \<and> get_ptrs lens it m = Inr (Inr js, it', m') \<and>
    wf_mem m' \<and> keeps (dom (m_ptrs m)) m m' \<and> set js \<inter> dom (m_ptrs m) = {} \<and> distinct js \<and>
    map (node_bytes m') js = cut_at lens (drop offset (node_bytes m i)) \<and>
    (\<forall>j \<in> set js. \<exists>q s. m_ptrs m' j = Some q \<and> p_raw q = Some s \<and> (if deep then m_next m \<le> s else s = r)) \<and>
    piter_get_offset it' = sum_list lens \<and> (piter_end it' \<longleftrightarrow> offset + sum_list lens = p_len p) \<and>
    (\<forall>len len'. p_len p < offset + sum_list lens + len \<longrightarrow>
      r_addr w + p_off p + offset + sum_list lens + len + len' < two64 \<longrightarrow>
      (\<exists>it''. piter_get_ptr len it' m' = Inr (Inl End_of_buffer, it'', m') \<and> \<not> piter_end it'' \<and>
        (\<exists>it3. piter_get_ptr len' it'' m' = Inr (Inl End_of_buffer, it3, m'))))"
proof -
  obtain it where it: "piter_new m i offset deep = Inr it" "piter_at m i offset it" "pi_deep it = deep"
    "pi_start it = p_off p + offset"
    using piter_new_ok [OF assms(1,3-6) _ assms(7), of offset deep] assms(8) by auto
  have at: "pi_ptr it = i" "pi_raw it = r" "pi_cur it = p_off p + offset" "pi_end it = p_off p + p_len p"
    using it(2) assms(3,4) by (auto simp: piter_at_def)
  let ?it' = "it\<lparr>pi_cur := pi_cur it + sum_list lens\<rparr>"
  obtain js m' where js: "get_ptrs lens it m = Inr (Inr js, ?it', m')" "wf_mem m'" "quiet m m'"
    "\<forall>x \<in> dom (m_ptrs m). m_ptrs m' x = m_ptrs m x"
    "map (node_bytes m') js = cut_at lens (drop offset (node_bytes m i))" "set js \<inter> dom (m_ptrs m) = {}" "distinct js"
    "\<forall>j \<in> set js. \<exists>q s. m_ptrs m' j = Some q \<and> p_raw q = Some s \<and> (if deep then m_next m \<le> s else s = r)"
    using get_ptrs_ok [OF assms(1,2) it(2) assms(3,4,8)] it(3) by auto
  have keep: "keeps (dom (m_ptrs m)) m m'" by (rule keeps_wf_fl [OF js(3) assms(1) js(2)]) (use js(4) in auto)
  have p': "m_ptrs m' i = Some p" using js(4) assms(3) by (auto simp: dom_def)
  obtain w' where w': "m_raws m' r = Some w'" using wf_ptr_raw [OF wf_flD(1) [OF js(2)] p' assms(4)] by auto
  have "r < m_next m" using wf_coreD(4) [OF wf_flD(1) [OF assms(1)] assms(5)] .
  then have "same_raw w w'" using js(3) w' assms(5) unfolding quiet_def by (metis not_le option.inject)
  then have addr: "r_addr w' = r_addr w" by (rule same_raw_sel)
  have b: "p_off p + p_len p < two64" by (rule wf_ptr_bound [OF assms(1,3,4)])
  have far: "\<exists>it''. piter_get_ptr len ?it' m' = Inr (Inl End_of_buffer, it'', m') \<and> \<not> piter_end it'' \<and>
        (\<exists>it3. piter_get_ptr len' it'' m' = Inr (Inl End_of_buffer, it3, m'))"
    if "p_len p < offset + sum_list lens + len" "r_addr w + p_off p + offset + sum_list lens + len + len' < two64" for len len'
  proof -
    let ?it2 = "?it'\<lparr>pi_cur := pi_cur ?it' + len\<rparr>"
    have "piter_get_ptr len ?it' m' = Inr (Inl End_of_buffer, ?it2, m')"
      by (rule get_ptr_beyond [OF js(2) p' assms(4) w']) (use at that addr in simp_all)
    moreover have "piter_get_ptr len' ?it2 m' = Inr (Inl End_of_buffer, ?it2\<lparr>pi_cur := pi_cur ?it2 + len'\<rparr>, m')"
      by (rule get_ptr_beyond [OF js(2) p' assms(4) w']) (use at that addr in simp_all)
    moreover have "\<not> piter_end ?it2" using at that(1) by (simp add: piter_end_def)
    ultimately show ?thesis by blast
  qed
  have "piter_get_offset ?it' = sum_list lens"
    using at(3) it(4) b assms(8) by (simp add: piter_get_offset_def sub64_small)
  moreover have "piter_end ?it' \<longleftrightarrow> offset + sum_list lens = p_len p"
    using at(3,4) by (simp add: piter_end_def add.assoc)
  ultimately show ?thesis using it(1) js(1,2,5-8) keep far
    by (intro exI [of _ it] exI [of _ ?it'] exI [of _ js] exI [of _ m'] conjI) simp_all
qed

definition demo_window :: mem where
  "demo_window = (empty_mem demo_env)\<lparr>
    m_raws := [0 \<mapsto> (new_raw Raw_malloc 16 [1, 2, 3, 4, 5, 6] Mempool_buffer_anon)\<lparr>r_nref := 1\<rparr>],
    m_ptrs := [1 \<mapsto> \<lparr>p_raw = Some 0, p_off = 0, p_len = 6\<rparr>], m_next := 2\<rparr>"

lemma demo_window_sel:
  "m_ptrs demo_window 1 = Some \<lparr>p_raw = Some 0, p_off = 0, p_len = 6\<rparr>"
  "m_raws demo_window 0 = Some ((new_raw Raw_malloc 16 [1, 2, 3, 4, 5, 6] Mempool_buffer_anon)\<lparr>r_nref := 1\<rparr>)"
  "env_ok (m_env demo_window)" "node_bytes demo_window 1 = [1, 2, 3, 4, 5, 6]"
  by (simp_all add: demo_window_def node_bytes_def ptr_bytes_def new_raw_def seg_def env_ok_demo)

lemma wf_demo_window: "wf_mem demo_window"
proof -
  have "refset demo_window 0 = {1}" by (auto simp: refset_def demo_window_def split: if_splits)
  then show ?thesis
    by (auto simp: wf_defs demo_window_def new_raw_def two64_def split: if_splits)
qed

theorem ptr_iter_reads_witness:
  "\<exists>it it' js m'. piter_new demo_window 1 1 True = Inr it \<and> get_ptrs [2, 3] it demo_window = Inr (Inr js, it', m') \<and>
    map (node_bytes m') js = [[2, 3], [4, 5, 6]] \<and> piter_end it'"
proof -
  have "cut_at [2, 3] (drop 1 (node_bytes demo_window 1)) = [[2, 3], [4, 5, 6]]"
    by (simp only: demo_window_sel(4)) (simp add: numeral_eq_Suc)
  then show ?thesis
    using ptr_iter_reads [OF wf_demo_window demo_window_sel(3) demo_window_sel(1) _ demo_window_sel(2), of 1 "[2, 3]" True]
    by (auto simp: new_raw_def two64_def)
qed

end
