(* ===== verification/Debug_Text.thy ===== *)
theory Debug_Text
  imports Buffer_List List_Hexdump Utime
begin

text \<open>
  The texts that the stream operators and messages write: numbers, times (\<^verbatim>\<open>utime.h\<close>), error codes
  (\<^verbatim>\<open>errno.cc\<close>), raws, windows and lists (\<^verbatim>\<open>buffer_ptr.cc\<close>, \<^verbatim>\<open>buffer_list.cc\<close>), names of types (\<^verbatim>\<open>demangle.h\<close>).
  The stream is in its initial state: decimal, no width.
\<close>

subsection \<open>Numbers\<close>

fun dec_str :: "nat \<Rightarrow> string" where
  "dec_str n = (if n < 10 then [char_of (48 + n)] else dec_str (n div 10) @ [char_of (48 + n mod 10)])"

declare dec_str.simps [simp del]

definition dec_int :: "int \<Rightarrow> string" where
  "dec_int i = (if i < 0 then CHR ''-'' # dec_str (nat (- i)) else dec_str (nat i))"

text \<open>\<^verbatim>\<open>std::setw(w)\<close> with the fill character \<^verbatim>\<open>0\<close>, to the right.\<close>

definition zero_fill :: "nat \<Rightarrow> string \<Rightarrow> string" where
  "zero_fill w s = replicate (w - length s) (CHR ''0'') @ s"

definition new_line :: string where
  "new_line = [CHR 0x0A]"

text \<open>A \<^verbatim>\<open>void *\<close> as the GNU library writes it.\<close>

definition pointer_text :: "nat \<Rightarrow> string" where
  "pointer_text a = (if a = 0 then ''0'' else ''0x'' @ hex_str a)"

text \<open>Reading decimal digits back.\<close>

definition digits_value :: "string \<Rightarrow> nat" where
  "digits_value s = foldl (\<lambda>n c. 10 * n + (of_char c - 48)) 0 s"

lemma digits_value_snoc: "digits_value (s @ [c]) = 10 * digits_value s + (of_char c - 48)"
  by (simp add: digits_value_def)

lemma of_char_digit: "n < 10 \<Longrightarrow> of_char (char_of (48 + n) :: char) = (48 + n :: nat)"
  by simp

lemma digits_value_dec [simp]: "digits_value (dec_str n) = n"
proof (induction n rule: dec_str.induct)
  case (1 n)
  show ?case
  proof (cases "n < 10")
    case True
    then show ?thesis by (subst dec_str.simps) (simp add: digits_value_def of_char_digit)
  next
    case False
    then show ?thesis using 1 by (subst dec_str.simps) (simp add: digits_value_snoc of_char_digit)
  qed
qed

lemma digits_value_zeros [simp]: "digits_value (replicate k (CHR ''0'') @ s) = digits_value s"
  by (induction k) (simp_all add: digits_value_def)

lemma length_dec_str: "n < 10 ^ Suc k \<Longrightarrow> length (dec_str n) \<le> Suc k"
proof (induction k arbitrary: n)
  case (Suc k)
  show ?case
  proof (cases "n < 10")
    case False
    have "n div 10 < 10 ^ Suc k" using Suc.prems by (simp add: less_mult_imp_div_less)
    then show ?thesis using Suc.IH False by (subst dec_str.simps) simp
  qed (subst dec_str.simps, simp)
qed (subst dec_str.simps, simp)

lemma length_zero_fill: "length s \<le> w \<Longrightarrow> length (zero_fill w s) = w"
  by (simp add: zero_fill_def)

lemma dec_str_digits: "set (dec_str n) \<subseteq> {c. 48 \<le> (of_char c :: nat) \<and> (of_char c :: nat) < 58}"
proof (induction n rule: dec_str.induct)
  case (1 n)
  show ?case
  proof (cases "n < 10")
    case False
    have "n mod 10 < 10" by simp
    then show ?thesis using 1 False of_char_digit [of "n mod 10"] by (subst dec_str.simps) simp
  qed (subst dec_str.simps, simp add: of_char_digit)
qed

subsection \<open>Times and error codes\<close>

text \<open>What \<^verbatim>\<open>localtime_r\<close> gives, and \<open>zone\<close>, what \<^verbatim>\<open>strftime\<close> writes for \<^verbatim>\<open>%z\<close>.\<close>

record broken_down =
  tm_year :: int
  tm_mon :: int
  tm_mday :: int
  tm_hour :: int
  tm_min :: int
  tm_sec :: int

definition utime_text :: "(int \<Rightarrow> broken_down) \<Rightarrow> (broken_down \<Rightarrow> string) \<Rightarrow> utime \<Rightarrow> string" where
  "utime_text localtime zone val =
    (if sec val < 60 * 60 * 24 * 365 * 10
     then dec_int (sec val) @ ''.'' @ zero_fill 6 (dec_str (unat (usec val)))
     else
       let bdt = localtime (sec val) in
         zero_fill 4 (dec_int (tm_year bdt + 1900)) @ ''-'' @ zero_fill 2 (dec_int (tm_mon bdt + 1)) @
         ''-'' @ zero_fill 2 (dec_int (tm_mday bdt)) @ ''T'' @ zero_fill 2 (dec_int (tm_hour bdt)) @
         '':'' @ zero_fill 2 (dec_int (tm_min bdt)) @ '':'' @ zero_fill 2 (dec_int (tm_sec bdt)) @
         ''.'' @ zero_fill 6 (dec_str (unat (usec val))) @ zone bdt)"

text \<open>\<^verbatim>\<open>strerror\<close> is the library's table of messages. The negation of the least \<^verbatim>\<open>int\<close> is undefined.\<close>

definition cpp_strerror :: "(int \<Rightarrow> string) \<Rightarrow> int \<Rightarrow> exn + string" where
  "cpp_strerror strerror err =
    ebind (if err < 0 then (if err = - (2 ^ 31) then Inl Undefined else Inr (- err)) else Inr err) (\<lambda>err.
      Inr (''('' @ dec_int err @ '') '' @ strerror err))"

text \<open>\<^verbatim>\<open>cxa_demangle\<close> is the ABI's function; \<open>None\<close> is a status other than 0.\<close>

definition spec_demangle :: "(string \<Rightarrow> string option) \<Rightarrow> string \<Rightarrow> string" where
  "spec_demangle cxa_demangle name = (case cxa_demangle name of None \<Rightarrow> name | Some res \<Rightarrow> res)"

subsection \<open>Buffers\<close>

definition raw_text :: "raw \<Rightarrow> string" where
  "raw_text w = ''buffer::raw('' @ pointer_text (r_addr w) @ '' len '' @ dec_str (r_len w) @
    '' nref '' @ dec_str (r_nref w) @ '')''"

definition ptr_text :: "mem \<Rightarrow> nat \<Rightarrow> exn + string" where
  "ptr_text m i =
    ebind (ptr_at m i) (\<lambda>p.
      if have_raw p
      then
        ebind (c_str_addr m i) (\<lambda>a.
        ebind (ptr_raw m i) (\<lambda>r.
        ebind (raw_at m r) (\<lambda>w.
        ebind (raw_length m i) (\<lambda>n.
        ebind (raw_nref m i) (\<lambda>k.
          Inr (''buffer::ptr('' @ dec_str (p_off p) @ ''~'' @ dec_str (p_len p) @ '' '' @ pointer_text a @
            '' in raw '' @ pointer_text (r_addr w) @ '' len '' @ dec_str n @ '' nref '' @ dec_str k @ '')''))))))
      else Inr (''buffer::ptr('' @ dec_str (p_off p) @ ''~'' @ dec_str (p_len p) @ '' no raw)''))"

fun nodes_text :: "mem \<Rightarrow> nat \<Rightarrow> nat list \<Rightarrow> exn + string" where
  "nodes_text m final [] = Inr []"
| "nodes_text m final (i # is) =
    ebind (ptr_text m i) (\<lambda>t.
    ebind (nodes_text m final is) (\<lambda>ts.
      Inr ([CHR 0x09] @ t @ (if i \<noteq> final then '','' @ new_line else []) @ ts)))"

definition blist_text :: "mem \<Rightarrow> blist \<Rightarrow> exn + string" where
  "blist_text m b =
    ebind (nodes_text m (last (bufs b)) (bufs b)) (\<lambda>ts.
      Inr (''buffer_list:(len='' @ dec_str (b_len b) @ '','' @ new_line @ ts @ new_line @ '')''))"

text \<open>
  The time of the first ten years is written with its microseconds in six digits, so the text gives the
  microseconds of the time back.
\<close>

lemma utime_text_reads_back:
  assumes "sec t < 315360000"
  shows "\<exists>s us. utime_text lt zone t = s @ ''.'' @ us \<and> CHR ''.'' \<notin> set s \<and> digits_value s = nat (sec t) \<and>
    digits_value us = unat (usec t) \<and> (unat (tv_nsec t) < 1000000000 \<longrightarrow> length us = 6)"
proof (rule exI [of _ "dec_int (sec t)"], rule exI [of _ "zero_fill 6 (dec_str (unat (usec t)))"], intro conjI impI)
  have pos: "0 \<le> sec t" by (simp add: sec_def)
  show "utime_text lt zone t = dec_int (sec t) @ ''.'' @ zero_fill 6 (dec_str (unat (usec t)))"
    using assms by (simp add: utime_text_def)
  show "CHR ''.'' \<notin> set (dec_int (sec t))"
    using dec_str_digits [of "nat (sec t)"] pos by (auto simp: dec_int_def)
  show "digits_value (dec_int (sec t)) = nat (sec t)" using pos by (simp add: dec_int_def)
  show "digits_value (zero_fill 6 (dec_str (unat (usec t)))) = unat (usec t)" by (simp add: zero_fill_def)
  assume "unat (tv_nsec t) < 1000000000"
  then have "unat (usec t) < 10 ^ Suc 5" by (simp add: usec_def unat_div less_mult_imp_div_less)
  then show "length (zero_fill 6 (dec_str (unat (usec t)))) = 6"
    using length_dec_str [of "unat (usec t)" 5] by (intro length_zero_fill) simp
qed

end
