(* ===== verification/Back_Trace.thy ===== *)
theory Back_Trace
  imports Debug_Text
begin

text \<open>
  Printing a back trace (\<^verbatim>\<open>spec_assert/BackTrace.h\<close>, \<^verbatim>\<open>BackTrace.cc\<close>): the function's name is cut out of each
  symbol, demangled if it is mangled, and put back. What the C library does is a parameter: which frames
  \<^verbatim>\<open>backtrace\<close> finds, their symbols, which sizes \<^verbatim>\<open>malloc\<close> grants, and what the demangler knows.
\<close>

record back_trace =
  bt_skip :: int
  bt_size :: nat
  bt_strings :: "string list option"

definition back_trace_new :: "nat list \<Rightarrow> (nat list \<Rightarrow> string list option) \<Rightarrow> int \<Rightarrow> back_trace" where
  "back_trace_new stack backtrace_symbols s =
    (let frames = take 100 stack in \<lparr>bt_skip = s, bt_size = length frames, bt_strings = backtrace_symbols frames\<rparr>)"

text \<open>The last opening parenthesis, one further, and the last plus.\<close>

fun scan_symbol :: "nat \<Rightarrow> string \<Rightarrow> nat option \<times> nat option \<Rightarrow> nat option \<times> nat option" where
  "scan_symbol j [] be = be"
| "scan_symbol j (c # cs) (b, e) =
    scan_symbol (Suc j) cs (if c = CHR ''('' then (Some (j + 1), e) else if c = CHR ''+'' then (b, Some j) else (b, e))"

definition cut_int :: "int \<Rightarrow> int" where
  "cut_int i = sint (word_of_int i :: u32)"

text \<open>
  One round of the loop: \<open>None\<close> is the return out of \<^verbatim>\<open>print\<close>. The buffer \<^verbatim>\<open>function\<close> has 1024 bytes; \<^verbatim>\<open>strncat\<close>
  on a name that does not leave it three of them writes behind it.
\<close>

definition print_frame :: "(nat \<Rightarrow> bool) \<Rightarrow> (string \<Rightarrow> string option) \<Rightarrow> nat \<Rightarrow> string \<Rightarrow> exn + string option" where
  "print_frame malloc cxa_demangle k s =
    (if \<not> malloc 1024 then Inr None
     else
       case scan_symbol 0 s (None, None) of
         (Some begin, Some end_pos) \<Rightarrow>
           let len = cut_int (int end_pos - int begin) in
             if \<not> malloc (nat ((len + 1) mod 2 ^ 64)) then Inr None
             else if len < 0 then Inl Undefined
             else
               let foo = take (nat len) (drop begin s) in
               ebind
                 (case if take 2 foo = ''_Z'' then cxa_demangle foo else None of
                    Some ret \<Rightarrow> Inr ret
                  | None \<Rightarrow> if length foo + 3 \<le> 1024 then Inr (foo @ ''()'') else Inl Undefined) (\<lambda>function.
                 Inr (Some ('' '' @ dec_str k @ '': '' @ ''('' @ function @ drop end_pos s @ new_line)))
       | _ \<Rightarrow> Inr (Some ('' '' @ dec_str k @ '': '' @ s @ new_line)))"

text \<open>The loop from frame \<open>i\<close> on; \<open>i\<close> is a \<^verbatim>\<open>size_t\<close> and \<^verbatim>\<open>skip\<close> an \<^verbatim>\<open>int\<close>.\<close>

fun print_frames :: "(nat \<Rightarrow> bool) \<Rightarrow> (string \<Rightarrow> string option) \<Rightarrow> int \<Rightarrow> nat \<Rightarrow> string list \<Rightarrow> exn + string" where
  "print_frames malloc cxa_demangle skip i [] = Inr []"
| "print_frames malloc cxa_demangle skip i (s # ss) =
    ebind (print_frame malloc cxa_demangle (nat ((int i - skip + 1) mod 2 ^ 64)) s) (\<lambda>res.
      case res of None \<Rightarrow> Inr []
      | Some t \<Rightarrow> ebind (print_frames malloc cxa_demangle skip (Suc i) ss) (\<lambda>ts. Inr (t @ ts)))"

definition back_trace_print :: "(nat \<Rightarrow> bool) \<Rightarrow> (string \<Rightarrow> string option) \<Rightarrow> back_trace \<Rightarrow> exn + string" where
  "back_trace_print malloc cxa_demangle bt =
    (let i = nat (bt_skip bt mod 2 ^ 64) in
       if i < bt_size bt
       then
         case bt_strings bt of
           None \<Rightarrow> if malloc 1024 then Inl Undefined else Inr []
         | Some strings \<Rightarrow> print_frames malloc cxa_demangle (bt_skip bt) i (drop i (take (bt_size bt) strings))
       else Inr [])"

subsection \<open>Where the marks are\<close>

lemma scan_symbol_append: "scan_symbol j (s @ t) be = scan_symbol (j + length s) t (scan_symbol j s be)"
  by (induction j s be rule: scan_symbol.induct) simp_all

lemma scan_symbol_none:
  "CHR ''('' \<notin> set s \<Longrightarrow> CHR ''+'' \<notin> set s \<Longrightarrow> scan_symbol j s be = be"
  by (induction j s be rule: scan_symbol.induct) auto

lemma scan_symbol_no_open: "CHR ''('' \<notin> set s \<Longrightarrow> fst (scan_symbol j s be) = fst be"
  by (induction j s be rule: scan_symbol.induct) auto

lemma scan_symbol_no_plus: "CHR ''+'' \<notin> set s \<Longrightarrow> snd (scan_symbol j s be) = snd be"
  by (induction j s be rule: scan_symbol.induct) auto

lemma scan_symbol_call:
  assumes "CHR ''('' \<notin> set f" "CHR ''('' \<notin> set rest" "CHR ''+'' \<notin> set rest"
  shows "scan_symbol 0 (a @ CHR ''('' # f @ CHR ''+'' # rest) (None, None)
    = (Some (Suc (length a)), Some (Suc (length a + length f)))"
proof -
  obtain b e where be: "scan_symbol 0 a (None, None) = (b, e)" by fastforce
  obtain b' e' where f: "scan_symbol (Suc (length a)) f (Some (Suc (length a)), e) = (b', e')" by fastforce
  have "b' = Some (Suc (length a))" using scan_symbol_no_open [OF assms(1)] f by (metis fst_conv)
  then show ?thesis using be f assms(2,3) by (simp add: scan_symbol_append scan_symbol_none)
qed

lemma scan_symbol_swapped:
  assumes "CHR ''+'' \<notin> set f" "CHR ''('' \<notin> set rest" "CHR ''+'' \<notin> set rest"
  shows "scan_symbol 0 (a @ CHR ''+'' # f @ CHR ''('' # rest) (None, None)
    = (Some (Suc (Suc (length a + length f))), Some (length a))"
proof -
  obtain b e where be: "scan_symbol 0 a (None, None) = (b, e)" by fastforce
  obtain b' e' where f: "scan_symbol (Suc (length a)) f (b, Some (length a)) = (b', e')" by fastforce
  have "e' = Some (length a)" using scan_symbol_no_plus [OF assms(1)] f by (metis snd_conv)
  then show ?thesis using be f assms(2,3) by (simp add: scan_symbol_append scan_symbol_none)
qed

lemma cut_int_id: "- (2 ^ 31) \<le> i \<Longrightarrow> i < 2 ^ 31 \<Longrightarrow> cut_int i = i"
  by (simp add: cut_int_def sint_sbintrunc' signed_take_bit_int_eq_self)

subsection \<open>The lines\<close>

inductive shows_as :: "(string \<Rightarrow> string option) \<Rightarrow> string \<Rightarrow> string \<Rightarrow> bool" for D where
  whole: "CHR ''('' \<notin> set s \<or> CHR ''+'' \<notin> set s \<Longrightarrow> shows_as D s s"
| demangled: "CHR ''('' \<notin> set f \<Longrightarrow> CHR ''('' \<notin> set rest \<Longrightarrow> CHR ''+'' \<notin> set rest \<Longrightarrow>
    take 2 f = ''_Z'' \<Longrightarrow> D f = Some g \<Longrightarrow>
    shows_as D (a @ CHR ''('' # f @ CHR ''+'' # rest) (CHR ''('' # g @ CHR ''+'' # rest)"
| plain: "CHR ''('' \<notin> set f \<Longrightarrow> CHR ''('' \<notin> set rest \<Longrightarrow> CHR ''+'' \<notin> set rest \<Longrightarrow>
    take 2 f \<noteq> ''_Z'' \<or> D f = None \<Longrightarrow> length f \<le> 1021 \<Longrightarrow>
    shows_as D (a @ CHR ''('' # f @ CHR ''+'' # rest) (CHR ''('' # f @ ''()+'' @ rest)"

definition trace_line :: "nat \<Rightarrow> string \<Rightarrow> string" where
  "trace_line k t = '' '' @ dec_str k @ '': '' @ t @ new_line"

text \<open>\<^verbatim>\<open>malloc\<close> never grants tail than half of the address space, and is taken to grant 2 GiB.\<close>

definition malloc_like :: "(nat \<Rightarrow> bool) \<Rightarrow> bool" where
  "malloc_like M \<longleftrightarrow> (\<forall>n \<le> 2 ^ 31. M n) \<and> (\<forall>n \<ge> 2 ^ 63. \<not> M n)"

lemma malloc_likeD:
  assumes "malloc_like M"
  shows "M 1024" "0 \<le> i \<Longrightarrow> i < 2 ^ 31 \<Longrightarrow> M (nat ((i + 1) mod 2 ^ 64))"
    "- (2 ^ 31) \<le> i \<Longrightarrow> i < -1 \<Longrightarrow> \<not> M (nat ((i + 1) mod 2 ^ 64))"
proof -
  show "M 1024" using assms by (simp add: malloc_like_def)
  show "M (nat ((i + 1) mod 2 ^ 64))" if "0 \<le> i" "i < 2 ^ 31"
    using assms that by (simp add: malloc_like_def)
  show "\<not> M (nat ((i + 1) mod 2 ^ 64))" if "- (2 ^ 31) \<le> i" "i < -1"
  proof -
    have "(i + 1) mod 2 ^ 64 = (i + 1 + 2 ^ 64) mod 2 ^ 64" by (rule mod_add_self2 [symmetric])
    also have "\<dots> = i + 1 + 2 ^ 64" using that by (intro mod_pos_pos_trivial) simp_all
    finally show ?thesis using assms that by (simp add: malloc_like_def)
  qed
qed

lemma frame_call:
  assumes "malloc_like M" "CHR ''('' \<notin> set f" "CHR ''('' \<notin> set rest" "CHR ''+'' \<notin> set rest" "length f < 2 ^ 31"
  shows "print_frame M D k (a @ CHR ''('' # f @ CHR ''+'' # rest) =
    ebind (case if take 2 f = ''_Z'' then D f else None of
             Some ret \<Rightarrow> Inr ret | None \<Rightarrow> if length f + 3 \<le> 1024 then Inr (f @ ''()'') else Inl Undefined)
      (\<lambda>function. Inr (Some (trace_line k (CHR ''('' # function @ CHR ''+'' # rest))))"
proof -
  have len: "cut_int (int (Suc (length a + length f)) - int (Suc (length a))) = int (length f)"
    using cut_int_id [of "int (length f)"] assms(5) by simp
  have "M (nat ((int (length f) + 1) mod 2 ^ 64))" using malloc_likeD(2) [OF assms(1), of "int (length f)"] assms(5) by simp
  then show ?thesis
    unfolding print_frame_def scan_symbol_call [OF assms(2-4)] prod.case option.case len Let_def
    using malloc_likeD(1) [OF assms(1)] by (auto simp: trace_line_def split: option.split)
qed

lemma frame_shown:
  assumes "shows_as D s t" "malloc_like M" "length s < 2 ^ 31"
  shows "print_frame M D k s = Inr (Some (trace_line k t))"
  using assms
proof cases
  case whole
  obtain b e where be: "scan_symbol 0 s (None, None) = (b, e)" by fastforce
  have "b = None \<or> e = None"
    using whole(2) scan_symbol_no_open [of s 0 "(None, None)"] scan_symbol_no_plus [of s 0 "(None, None)"] be by auto
  then show ?thesis using whole be malloc_likeD(1) [OF assms(2)]
    by (auto simp: print_frame_def trace_line_def split: option.split)
next
  case (demangled f rest g a)
  then show ?thesis using frame_call [OF assms(2) demangled(3-5)] assms(3) by simp
next
  case (plain f rest a)
  then show ?thesis using frame_call [OF assms(2) plain(3-5)] assms(3) by simp
qed

lemma frame_swapped:
  assumes "malloc_like M" "CHR ''+'' \<notin> set f" "CHR ''('' \<notin> set rest" "CHR ''+'' \<notin> set rest"
    and "length (a @ CHR ''+'' # f @ CHR ''('' # rest) < 2 ^ 31"
  shows "print_frame M D k (a @ CHR ''+'' # f @ CHR ''('' # rest) = Inr None"
proof -
  let ?i = "int (length a) - int (Suc (Suc (length a + length f)))"
  have i: "- (2 ^ 31) \<le> ?i" "?i < -1" using assms(5) by simp_all
  have "cut_int ?i = ?i" using i by (intro cut_int_id) simp_all
  moreover have "\<not> M (nat ((?i + 1) mod 2 ^ 64))" by (rule malloc_likeD(3) [OF assms(1) i])
  ultimately show ?thesis
    unfolding print_frame_def scan_symbol_swapped [OF assms(2-4)] prod.case option.case Let_def by simp
qed

lemma print_frames_shown:
  assumes "list_all2 (shows_as D) good texts" "malloc_like M" "\<forall>s \<in> set good. length s < 2 ^ 31"
    and "0 \<le> skip" "int i + int (length good) - skip < 2 ^ 63" "skip \<le> int i"
  shows "print_frames M D skip i (good @ tail) =
    ebind (print_frames M D skip (i + length good) tail) (\<lambda>ts.
      Inr (concat (map (\<lambda>(k, t). trace_line k t) (enumerate (nat (int i - skip + 1)) texts)) @ ts))"
  using assms(1,3,5,6)
proof (induction good arbitrary: i texts)
  case Nil
  then show ?case by (cases "print_frames M D skip i tail") simp_all
next
  case (Cons s good)
  obtain t texts' where t: "texts = t # texts'" "shows_as D s t" "list_all2 (shows_as D) good texts'"
    using Cons.prems(1) by (auto simp: list_all2_Cons1)
  have k: "(int i - skip + 1) mod 2 ^ 64 = int i - skip + 1" using Cons.prems(3,4) by (intro mod_pos_pos_trivial) simp_all
  have k': "nat (int (Suc i) - skip + 1) = Suc (nat (int i - skip + 1))" using Cons.prems(4) by simp
  have "print_frame M D (nat (int i - skip + 1)) s = Inr (Some (trace_line (nat (int i - skip + 1)) t))"
    using frame_shown [OF t(2) assms(2)] Cons.prems(2) by simp
  moreover have "print_frames M D skip (Suc i) (good @ tail) =
    ebind (print_frames M D skip (Suc i + length good) tail) (\<lambda>ts.
      Inr (concat (map (\<lambda>(k, t). trace_line k t) (enumerate (Suc (nat (int i - skip + 1))) texts')) @ ts))"
    using Cons.IH [OF t(3), of "Suc i"] Cons.prems(2-4) unfolding k' by simp
  ultimately show ?case unfolding t(1)
    by (cases "print_frames M D skip (Suc (i + length good)) tail") (simp_all add: k [simplified])
qed

lemma back_trace_print_drop:
  assumes "0 \<le> skip" "skip < 2 ^ 31" "length pre = nat skip"
  shows "back_trace_print M D \<lparr>bt_skip = skip, bt_size = length (pre @ ss), bt_strings = Some (pre @ ss)\<rparr>
    = print_frames M D skip (nat skip) ss"
proof -
  have "skip mod 2 ^ 64 = skip" using assms(1,2) by (intro mod_pos_pos_trivial) simp_all
  then show ?thesis using assms(3) by (cases ss) (simp_all add: back_trace_print_def Let_def)
qed

text \<open>
  C18 (error). A back trace shows a line per frame after those it skips: the name is demangled where it is
  mangled and gets a pair of parentheses where it is not, and a symbol without both marks is shown whole.
  But a symbol whose last plus stands before its last parenthesis, as the frames of a program called
  \<^verbatim>\<open>a+b\<close> have that name no function, ends the trace: that frame and all after it are left out, because the
  negative length makes \<^verbatim>\<open>malloc\<close> fail. And a name of 1022 characters or more that is not demangled
  overflows the buffer.
\<close>

theorem back_trace_shows:
  assumes "malloc_like M" "list_all2 (shows_as D) good texts" "\<forall>s \<in> set good. length s < 2 ^ 31"
    and "0 \<le> skip" "skip < 2 ^ 31" "length pre = nat skip" "length good < 2 ^ 31"
  defines "trace_of \<equiv> \<lambda>ss. back_trace_print M D \<lparr>bt_skip = skip, bt_size = length (pre @ ss), bt_strings = Some (pre @ ss)\<rparr>"
    and "shown \<equiv> concat (map (\<lambda>(k, t). trace_line k t) (enumerate 1 texts))"
  shows "trace_of good = Inr shown \<and>
    (\<forall>a f rest after.
      CHR ''+'' \<notin> set f \<longrightarrow> CHR ''('' \<notin> set rest \<longrightarrow> CHR ''+'' \<notin> set rest \<longrightarrow> length a + length f + length rest < 2 ^ 30 \<longrightarrow>
      trace_of (good @ (a @ CHR ''+'' # f @ CHR ''('' # rest) # after) = Inr shown) \<and>
    (\<forall>a f rest after.
      CHR ''('' \<notin> set f \<longrightarrow> CHR ''('' \<notin> set rest \<longrightarrow> CHR ''+'' \<notin> set rest \<longrightarrow> 1022 \<le> length f \<longrightarrow> length f < 2 ^ 31 \<longrightarrow>
      (take 2 f = ''_Z'' \<longrightarrow> D f = None) \<longrightarrow>
      trace_of (good @ (a @ CHR ''('' # f @ CHR ''+'' # rest) # after) = Inl Undefined)"
proof -
  have tr: "trace_of (good @ ss) = ebind (print_frames M D skip (nat skip + length good) ss) (\<lambda>ts. Inr (shown @ ts))" for ss
    using print_frames_shown [OF assms(2,1,3,4), of "nat skip" ss] assms(4,5,7)
    unfolding trace_of_def shown_def back_trace_print_drop [OF assms(4-6)] by simp
  have "trace_of good = Inr shown" using tr [of "[]"] by simp
  moreover have "trace_of (good @ (a @ CHR ''+'' # f @ CHR ''('' # rest) # after) = Inr shown"
    if "CHR ''+'' \<notin> set f" "CHR ''('' \<notin> set rest" "CHR ''+'' \<notin> set rest" "length a + length f + length rest < 2 ^ 30"
    for a f rest after
    using tr frame_swapped [OF assms(1) that(1-3), of a] that(4) by simp
  moreover have "trace_of (good @ (a @ CHR ''('' # f @ CHR ''+'' # rest) # after) = Inl Undefined"
    if "CHR ''('' \<notin> set f" "CHR ''('' \<notin> set rest" "CHR ''+'' \<notin> set rest" "1022 \<le> length f" "length f < 2 ^ 31"
      "take 2 f = ''_Z'' \<longrightarrow> D f = None"
    for a f rest after
    using tr frame_call [OF assms(1) that(1-3,5)] that(4,6) by simp
  ultimately show ?thesis by blast
qed

theorem back_trace_shows_witness:
  "back_trace_print (\<lambda>n. n < 2 ^ 63) (\<lambda>s. if s = ''_Z1fv'' then Some ''f()'' else None)
     \<lparr>bt_skip = 1, bt_size = 4, bt_strings = Some [''x'', ''./p(_Z1fv+0x1a) [0x40]'', ''./g++() [0x50]'', ''./p(main+0x2) [0x60]'']\<rparr>
   = Inr ('' 1: (f()+0x1a) [0x40]'' @ new_line)"
proof -
  let ?D = "\<lambda>s. if s = ''_Z1fv'' then Some ''f()'' else (None :: string option)"
  have "shows_as ?D (''./p'' @ CHR ''('' # ''_Z1fv'' @ CHR ''+'' # ''0x1a) [0x40]'')
      (CHR ''('' # ''f()'' @ CHR ''+'' # ''0x1a) [0x40]'')"
    by (rule demangled) simp_all
  then have "list_all2 (shows_as ?D) [''./p(_Z1fv+0x1a) [0x40]''] [''(f()+0x1a) [0x40]'']" by simp
  from back_trace_shows [OF _ this, of "\<lambda>n. n < 2 ^ 63" 1 "[''x'']"]
  have "\<forall>a f rest after.
      CHR ''+'' \<notin> set f \<longrightarrow> CHR ''('' \<notin> set rest \<longrightarrow> CHR ''+'' \<notin> set rest \<longrightarrow> length a + length f + length rest < 2 ^ 30 \<longrightarrow>
      back_trace_print (\<lambda>n. n < 2 ^ 63) ?D
       \<lparr>bt_skip = 1, bt_size = length ([''x''] @ [''./p(_Z1fv+0x1a) [0x40]''] @ (a @ CHR ''+'' # f @ CHR ''('' # rest) # after),
        bt_strings = Some ([''x''] @ [''./p(_Z1fv+0x1a) [0x40]''] @ (a @ CHR ''+'' # f @ CHR ''('' # rest) # after)\<rparr>
      = Inr (trace_line 1 ''(f()+0x1a) [0x40]'')"
    by (simp add: malloc_like_def)
  from this [rule_format, of "[]" "'') [0x50]''" "''./g+''" "[''./p(main+0x2) [0x60]'']"]
  moreover have "Suc (Suc (Suc (Suc 0))) = 4" "dec_str (Suc 0) = ''1''"
    by (simp, subst dec_str.simps, simp add: char_of_def bit_0)
  ultimately show ?thesis by (simp add: trace_line_def)
qed

end
