(* ===== verification/Assert_Text.thy ===== *)
theory Assert_Text
  imports Back_Trace
begin

text \<open>
  The reports of failed assertions and aborts (\<^verbatim>\<open>spec_assert.cc\<close>): what they write to the error stream before
  the program ends. The arguments of the formats are strings and numbers already; formatting never fails
  but for a text of 2 GiB or more.
\<close>

definition nul :: char where
  "nul = CHR 0x00"

text \<open>The C string at the start of a buffer.\<close>

definition c_string :: "string \<Rightarrow> string" where
  "c_string buf = takeWhile (\<lambda>c. c \<noteq> nul) buf"

text \<open>\<^verbatim>\<open>vsnprintf\<close> at \<open>pos\<close> of a buffer, told that there are \<open>avail\<close> bytes: the buffer, and the number returned.\<close>

definition vsnprintf :: "nat \<Rightarrow> nat \<Rightarrow> string \<Rightarrow> string \<Rightarrow> exn + string \<times> int" where
  "vsnprintf pos avail formatted buf =
    (let n = (if length formatted < 2 ^ 31 then int (length formatted) else -1);
         out = (if avail = 0 then [] else take (avail - 1) formatted @ [nul])
     in if pos + length out \<le> length buf then Inr (write_at pos out buf, n) else Inl Undefined)"

subsection \<open>The appender\<close>

record buf_appender =
  ba_buf :: string
  ba_pos :: nat
  ba_remaining :: int

definition ba_new :: "string \<Rightarrow> int \<Rightarrow> buf_appender" where
  "ba_new buf size_arg = \<lparr>ba_buf = buf, ba_pos = 0, ba_remaining = size_arg\<rparr>"

definition ba_vprintf :: "string \<Rightarrow> buf_appender \<Rightarrow> exn + buf_appender" where
  "ba_vprintf formatted ba =
    ebind (vsnprintf (ba_pos ba) (nat (ba_remaining ba mod 2 ^ 64)) formatted (ba_buf ba)) (\<lambda>(buf, n).
      let ba = ba\<lparr>ba_buf := buf\<rparr> in
        Inr (if n \<ge> 0
             then if n < ba_remaining ba
                  then ba\<lparr>ba_remaining := ba_remaining ba - n, ba_pos := ba_pos ba + nat n\<rparr>
                  else ba\<lparr>ba_remaining := 0\<rparr>
             else ba))"

definition ba_printf :: "string \<Rightarrow> buf_appender \<Rightarrow> exn + buf_appender" where
  "ba_printf formatted ba = ba_vprintf formatted ba"

subsection \<open>The reports\<close>

text \<open>What the report reads: the thread, the time as \<^verbatim>\<open>utime_t\<close> writes it, and the printed back trace.\<close>

record report_env =
  re_thread :: nat
  re_now :: string
  re_trace :: "exn + string"

definition report_head :: "report_env \<Rightarrow> string \<Rightarrow> int \<Rightarrow> string \<Rightarrow> string" where
  "report_head env file line func =
    ''file: '' @ file @ new_line @ ''func: '' @ func @ new_line @ ''thread: '' @ hex_str (re_thread env) @ new_line @
    ''time: '' @ re_now env @ new_line @ file @ '': '' @ dec_int line"

definition spec_assert_fail :: "report_env \<Rightarrow> string \<Rightarrow> string \<Rightarrow> int \<Rightarrow> string \<Rightarrow> exn + string" where
  "spec_assert_fail env assertion file line func =
    ebind (vsnprintf 0 2048
      (report_head env file line func @ '': FAILED spec_assert('' @ assertion @ '')'' @ new_line) (replicate 2048 nul)) (\<lambda>(assert_msg, _).
    ebind (re_trace env) (\<lambda>trace. Inr (c_string assert_msg @ trace)))"

definition spec_assertf_fail :: "report_env \<Rightarrow> string \<Rightarrow> string \<Rightarrow> int \<Rightarrow> string \<Rightarrow> string \<Rightarrow> exn + string" where
  "spec_assertf_fail env assertion file line func msg =
    ebind (ba_printf (report_head env file line func @ '': FAILED spec_assert('' @ assertion @ '')'' @ new_line)
      (ba_new (replicate 8096 nul) 8096)) (\<lambda>ba.
    ebind (ba_printf ''Assertion details: '' ba) (\<lambda>ba.
    ebind (ba_vprintf msg ba) (\<lambda>ba.
    ebind (ba_printf new_line ba) (\<lambda>ba.
    ebind (re_trace env) (\<lambda>trace. Inr (c_string (ba_buf ba) @ trace))))))"

definition spec_abort_report :: "report_env \<Rightarrow> string \<Rightarrow> int \<Rightarrow> string \<Rightarrow> string \<Rightarrow> exn + string" where
  "spec_abort_report env file line func msg =
    ebind (vsnprintf 0 4096
      (report_head env file line func @ '': spec_abort_msg('' @ [CHR 0x22] @ msg @ [CHR 0x22] @ '')'' @ new_line)
      (replicate 4096 nul)) (\<lambda>(assert_msg, _).
    ebind (re_trace env) (\<lambda>trace. Inr (c_string assert_msg @ trace)))"

definition spec_abortf_report :: "report_env \<Rightarrow> string \<Rightarrow> int \<Rightarrow> string \<Rightarrow> string \<Rightarrow> exn + string" where
  "spec_abortf_report env file line func msg =
    ebind (ba_printf (report_head env file line func @ '': abort()'' @ new_line) (ba_new (replicate 8096 nul) 8096)) (\<lambda>ba.
    ebind (ba_printf ''Abort details: '' ba) (\<lambda>ba.
    ebind (ba_vprintf msg ba) (\<lambda>ba.
    ebind (ba_printf new_line ba) (\<lambda>ba.
    ebind (re_trace env) (\<lambda>trace. Inr (c_string (ba_buf ba) @ trace))))))"

text \<open>The warning uses a buffer with what was on the stack in it, and returns.\<close>

definition spec_assert_warn :: "string \<Rightarrow> string \<Rightarrow> string \<Rightarrow> int \<Rightarrow> string \<Rightarrow> exn + string" where
  "spec_assert_warn stack assertion file line func =
    ebind (vsnprintf 0 8096
      (''WARNING: spec_assert('' @ assertion @ '') at: '' @ file @ '': '' @ dec_int line @ '': '' @ func @ ''()'' @ new_line)
      (take 8096 stack)) (\<lambda>(buf, _). Inr (c_string buf))"

subsection \<open>The buffers hold what fits\<close>

lemma c_string_stop: "nul \<notin> set s \<Longrightarrow> c_string (s @ nul # t) = s"
  unfolding c_string_def by (subst takeWhile_append2) auto

lemma vsnprintf_fits:
  assumes "0 < avail" "pos + avail \<le> length buf" "length formatted < 2 ^ 31"
  shows "vsnprintf pos avail formatted buf = Inr (write_at pos (take (avail - 1) formatted @ [nul]) buf, int (length formatted))"
  using assms by (simp add: vsnprintf_def Let_def)

lemma c_string_written:
  assumes "nul \<notin> set (take pos buf)" "nul \<notin> set s" "pos + length s < length buf"
  shows "c_string (write_at pos (s @ [nul]) buf) = take pos buf @ s"
  using c_string_stop [of "take pos buf @ s"] assms by (simp add: write_at_def)

definition ba_ok :: "nat \<Rightarrow> string \<Rightarrow> buf_appender \<Rightarrow> bool" where
  "ba_ok N full ba \<longleftrightarrow> length (ba_buf ba) = N \<and> N < 2 ^ 31 \<and> ba_pos ba \<le> N \<and> nul \<notin> set full \<and>
    (ba_remaining ba = 0 \<and> N \<le> Suc (length full) \<and> c_string (ba_buf ba) = take (N - 1) full \<or>
     0 < ba_remaining ba \<and> ba_pos ba = length full \<and> int (ba_pos ba) + ba_remaining ba = int N \<and>
       take (ba_pos ba) (ba_buf ba) = full \<and> c_string (ba_buf ba) = full)"

lemma ba_ok_new: "0 < N \<Longrightarrow> N < 2 ^ 31 \<Longrightarrow> ba_ok N [] (ba_new (replicate N nul) (int N))"
  by (simp add: ba_ok_def ba_new_def c_string_def)

lemma ba_vprintf_ok:
  assumes "ba_ok N full ba" "nul \<notin> set s" "length s < 2 ^ 31"
  shows "\<exists>ba'. ba_vprintf s ba = Inr ba' \<and> ba_ok N (full @ s) ba'"
proof (cases "ba_remaining ba = 0")
  case True
  then have "ba_vprintf s ba = Inr (ba\<lparr>ba_remaining := 0\<rparr>)" using assms
    by (auto simp: ba_vprintf_def vsnprintf_def ba_ok_def Let_def)
  then show ?thesis using assms True by (auto simp: ba_ok_def)
next
  case False
  let ?avail = "nat (ba_remaining ba)"
  have ok: "length (ba_buf ba) = N" "N < 2 ^ 31" "nul \<notin> set full" "0 < ?avail" "ba_pos ba = length full"
    "ba_pos ba + ?avail = N" "take (ba_pos ba) (ba_buf ba) = full" "int ?avail = ba_remaining ba"
    using assms(1) False by (auto simp: ba_ok_def)
  have avail: "nat (ba_remaining ba mod 2 ^ 64) = ?avail"
    using ok(2,4,6,8) by (subst mod_pos_pos_trivial) simp_all
  let ?buf = "write_at (ba_pos ba) (take (?avail - 1) s @ [nul]) (ba_buf ba)"
  have v: "vsnprintf (ba_pos ba) ?avail s (ba_buf ba) = Inr (?buf, int (length s))"
    by (rule vsnprintf_fits) (use ok assms(3) in simp_all)
  have fit: "ba_pos ba + length (take (?avail - 1) s @ [nul]) \<le> length (ba_buf ba)" using ok(1,4,6) by simp
  have cs: "c_string ?buf = full @ take (?avail - 1) s"
    using c_string_written [of "ba_pos ba" "ba_buf ba" "take (?avail - 1) s"] ok fit assms(2)
    by (auto dest: in_set_takeD)
  have len: "length ?buf = N" using fit ok(1) by simp
  show ?thesis
  proof (cases "int (length s) < ba_remaining ba")
    case True
    let ?ba = "ba\<lparr>ba_buf := ?buf, ba_remaining := ba_remaining ba - int (length s), ba_pos := ba_pos ba + length s\<rparr>"
    have "ba_vprintf s ba = Inr ?ba" using True unfolding ba_vprintf_def avail v by simp
    moreover have "take (ba_pos ba + length s) ?buf = full @ s"
      using True ok fit by (simp add: write_at_def)
    ultimately show ?thesis using True ok cs len assms(2) by (auto simp: ba_ok_def)
  next
    case False
    have "ba_vprintf s ba = Inr (ba\<lparr>ba_buf := ?buf, ba_remaining := 0\<rparr>)"
      using False unfolding ba_vprintf_def avail v by simp
    moreover have "N \<le> Suc (length (full @ s))" using False ok by simp
    moreover have "take (N - 1) (full @ s) = full @ take (?avail - 1) s"
    proof -
      have "N - 1 = length full + (?avail - 1)" using ok(4,5,6) by simp
      then show ?thesis by simp
    qed
    ultimately show ?thesis using ok cs len assms(2) by (auto simp: ba_ok_def)
  qed
qed

lemma ba_ok_text: "ba_ok N full ba \<Longrightarrow> c_string (ba_buf ba) = take (N - 1) full"
  by (auto simp: ba_ok_def)

lemma snprintf_text:
  assumes "0 < N" "nul \<notin> set s" "length s < 2 ^ 31" "length buf = N"
  shows "\<exists>out. vsnprintf 0 N s buf = Inr (out, int (length s)) \<and> c_string out = take (N - 1) s"
proof -
  have "vsnprintf 0 N s buf = Inr (write_at 0 (take (N - 1) s @ [nul]) buf, int (length s))"
    by (rule vsnprintf_fits) (use assms in simp_all)
  moreover have "c_string (write_at 0 (take (N - 1) s @ [nul]) buf) = take (N - 1) s"
  proof -
    have "nul \<notin> set (take (N - 1) s)" using assms(2) by (meson in_set_takeD)
    then show ?thesis using c_string_written [of 0 buf "take (N - 1) s"] assms(1,4) by simp
  qed
  ultimately show ?thesis by blast
qed

text \<open>Four pieces, as both formatted reports have them.\<close>

lemma ba_four:
  assumes "nul \<notin> set (s1 @ s2 @ s3 @ s4)" "length (s1 @ s2 @ s3 @ s4) < 2 ^ 31"
  shows "\<exists>b1 b2 b3 b4. ba_printf s1 (ba_new (replicate 8096 nul) 8096) = Inr b1 \<and> ba_printf s2 b1 = Inr b2 \<and>
    ba_vprintf s3 b2 = Inr b3 \<and> ba_printf s4 b3 = Inr b4 \<and> c_string (ba_buf b4) = take 8095 (s1 @ s2 @ s3 @ s4)"
proof -
  have n: "nul \<notin> set s1" "nul \<notin> set s2" "nul \<notin> set s3" "nul \<notin> set s4"
    "length s1 < 2 ^ 31" "length s2 < 2 ^ 31" "length s3 < 2 ^ 31" "length s4 < 2 ^ 31"
    using assms by simp_all
  have "ba_ok 8096 [] (ba_new (replicate 8096 nul) (int 8096))" by (rule ba_ok_new) simp_all
  then obtain b1 where b1: "ba_vprintf s1 (ba_new (replicate 8096 nul) 8096) = Inr b1" "ba_ok 8096 s1 b1"
    using ba_vprintf_ok [OF _ n(1,5)] by fastforce
  obtain b2 where b2: "ba_vprintf s2 b1 = Inr b2" "ba_ok 8096 (s1 @ s2) b2"
    using ba_vprintf_ok [OF b1(2) n(2,6)] by blast
  obtain b3 where b3: "ba_vprintf s3 b2 = Inr b3" "ba_ok 8096 ((s1 @ s2) @ s3) b3"
    using ba_vprintf_ok [OF b2(2) n(3,7)] by blast
  obtain b4 where b4: "ba_vprintf s4 b3 = Inr b4" "ba_ok 8096 (((s1 @ s2) @ s3) @ s4) b4"
    using ba_vprintf_ok [OF b3(2) n(4,8)] by blast
  show ?thesis using b1(1) b2(1) b3(1) b4(1) ba_ok_text [OF b4(2)] by (simp add: ba_printf_def)
qed

lemma nul_dec_str [simp]: "nul \<notin> set (dec_str n)"
  using dec_str_digits [of n] by (auto simp: nul_def)

lemma nul_hex_str [simp]: "nul \<notin> set (hex_str n)"
proof (induction n rule: hex_str.induct)
  case (1 n)
  have "nul \<noteq> hex_digit k" if "k < 16" for k
  proof
    assume "nul = hex_digit k"
    then have "(of_char nul :: nat) = of_char (hex_digit k)" by simp
    then show False using that by (simp add: nul_def hex_digit_def split: if_splits)
  qed
  then show ?case using 1 by (subst hex_str.simps) auto
qed

lemma length_hex_str: "n < 16 ^ Suc k \<Longrightarrow> length (hex_str n) \<le> Suc k"
proof (induction k arbitrary: n)
  case (Suc k)
  show ?case
  proof (cases "n < 16")
    case False
    have "n div 16 < 16 ^ Suc k" using Suc.prems by (simp add: less_mult_imp_div_less)
    then show ?thesis using Suc.IH False by (subst hex_str.simps) simp
  qed (subst hex_str.simps, simp)
qed (subst hex_str.simps, simp)

lemma nul_new_line: "nul \<notin> set new_line" and length_new_line: "length new_line = 1"
  by (simp_all add: nul_def new_line_def)

lemma dec_int_text: "0 \<le> i \<Longrightarrow> i < 2 ^ 31 \<Longrightarrow> nul \<notin> set (dec_int i) \<and> length (dec_int i) \<le> 10"
  using length_dec_str [of "nat i" 9] by (simp add: dec_int_def)

text \<open>
  C19 (bounds). No report writes outside its buffer, however long its parts are: the report of a failed
  assertion is the first 2047 characters of its message, that of an abort the first 4095, and the two with
  formatted messages give the first 8095 characters of the pieces joined together, nothing of a later
  piece once one has been cut; the back trace follows in full. So the end of a message that is too long
  is lost with its newline, and with it the assertion's text.
\<close>

theorem reports_bounded:
  assumes "nul \<notin> set (re_now env @ assertion @ file @ func @ msg)" "8096 \<le> length stack"
    and "length (re_now env @ assertion @ file @ file @ func @ msg) < 2 ^ 30"
    and "re_thread env < 2 ^ 64" "0 \<le> line" "line < 2 ^ 31"
  defines "head \<equiv> report_head env file line func"
    and "failed \<equiv> '': FAILED spec_assert('' @ assertion @ '')'' @ new_line"
  shows "spec_assert_fail env assertion file line func = ebind (re_trace env) (\<lambda>t. Inr (take 2047 (head @ failed) @ t)) \<and>
    spec_abort_report env file line func msg = ebind (re_trace env) (\<lambda>t.
      Inr (take 4095 (head @ '': spec_abort_msg('' @ [CHR 0x22] @ msg @ [CHR 0x22] @ '')'' @ new_line) @ t)) \<and>
    spec_assertf_fail env assertion file line func msg = ebind (re_trace env) (\<lambda>t.
      Inr (take 8095 ((head @ failed) @ ''Assertion details: '' @ msg @ new_line) @ t)) \<and>
    spec_abortf_report env file line func msg = ebind (re_trace env) (\<lambda>t.
      Inr (take 8095 ((head @ '': abort()'' @ new_line) @ ''Abort details: '' @ msg @ new_line) @ t)) \<and>
    spec_assert_warn stack assertion file line func = Inr (take 8095
      (''WARNING: spec_assert('' @ assertion @ '') at: '' @ file @ '': '' @ dec_int line @ '': '' @ func @ ''()'' @ new_line))"
proof (intro conjI)
  have d: "nul \<notin> set (dec_int line)" "length (dec_int line) \<le> 10" using dec_int_text assms(5,6) by simp_all
  have h: "nul \<notin> set (hex_str (re_thread env))" "length (hex_str (re_thread env)) \<le> 16"
    using nul_hex_str length_hex_str [of "re_thread env" 15] assms(4) by simp_all
  note free = assms(1) d(1) h(1) nul_new_line
  note short = assms(3) d(2) h(2) length_new_line
  have head: "nul \<notin> set head" "length head \<le> length (re_now env @ file @ file @ func) + 60"
    using free short by (simp_all add: head_def report_head_def nul_def)
  have failed: "nul \<notin> set failed" "length failed \<le> length assertion + 30"
    using free short by (simp_all add: failed_def nul_def)
  show "spec_assert_fail env assertion file line func = ebind (re_trace env) (\<lambda>t. Inr (take 2047 (head @ failed) @ t))"
    using snprintf_text [of 2048 "head @ failed" "replicate 2048 nul"] head failed short
    by (auto simp: spec_assert_fail_def head_def failed_def)
  let ?quoted = "'': spec_abort_msg('' @ [CHR 0x22] @ msg @ [CHR 0x22] @ '')'' @ new_line"
  have "nul \<notin> set (head @ ?quoted)" using head free by (simp add: nul_def)
  then show "spec_abort_report env file line func msg = ebind (re_trace env) (\<lambda>t. Inr (take 4095 (head @ ?quoted) @ t))"
    using snprintf_text [of 4096 "head @ ?quoted" "replicate 4096 nul"] head short
    by (auto simp: spec_abort_report_def head_def)
  have "nul \<notin> set ((head @ failed) @ ''Assertion details: '' @ msg @ new_line)" using head failed free by (simp add: nul_def)
  then show "spec_assertf_fail env assertion file line func msg = ebind (re_trace env) (\<lambda>t.
      Inr (take 8095 ((head @ failed) @ ''Assertion details: '' @ msg @ new_line) @ t))"
    using ba_four [of "head @ failed" "''Assertion details: ''" msg new_line] head failed short
    by (auto simp: spec_assertf_fail_def head_def failed_def)
  have "nul \<notin> set ((head @ '': abort()'' @ new_line) @ ''Abort details: '' @ msg @ new_line)" using head free by (simp add: nul_def)
  then show "spec_abortf_report env file line func msg = ebind (re_trace env) (\<lambda>t.
      Inr (take 8095 ((head @ '': abort()'' @ new_line) @ ''Abort details: '' @ msg @ new_line) @ t))"
    using ba_four [of "head @ '': abort()'' @ new_line" "''Abort details: ''" msg new_line] head short
    by (auto simp: spec_abortf_report_def head_def)
  let ?warning = "''WARNING: spec_assert('' @ assertion @ '') at: '' @ file @ '': '' @ dec_int line @ '': '' @ func @ ''()'' @ new_line"
  have "nul \<notin> set ?warning" using free by (simp add: nul_def)
  then show "spec_assert_warn stack assertion file line func = Inr (take 8095 ?warning)"
    using snprintf_text [of 8096 ?warning "take 8096 stack"] assms(2) short by (auto simp: spec_assert_warn_def)
qed

theorem reports_bounded_witness:
  "spec_assert_warn (replicate 8096 nul) ''x'' ''f.cc'' 7 ''g'' =
    Inr (take 8095 (''WARNING: spec_assert(x) at: f.cc: '' @ dec_int 7 @ '': g()'' @ new_line))"
  using reports_bounded [of "\<lparr>re_thread = 1, re_now = ''0'', re_trace = Inr []\<rparr>" "''x''" "''f.cc''" "''g''" "[]" "replicate 8096 nul" 7]
  by (simp add: nul_def)

end
