(* ===== verification/Context_Complete.thy ===== *)
theory Context_Complete
  imports Prelude
begin

text \<open>
  Callback contexts (\<^verbatim>\<open>Context.h\<close>): an object with a virtual \<^verbatim>\<open>finish\<close> that deletes itself when it is
  completed, or, made by \<^verbatim>\<open>create\<close>, lets go of the \<^verbatim>\<open>shared_ptr\<close> to itself. The virtual functions are
  parameters; they work on the state \<open>'u\<close> of the program around them and do not touch the context.
\<close>

subsection \<open>The object\<close>

text \<open>\<open>c_shared\<close> counts the \<^verbatim>\<open>shared_ptr\<close>s to the object other than its own; \<open>None\<close> is an object made by \<^verbatim>\<open>new\<close>.\<close>

record ctx =
  c_self :: bool
  c_shared :: "nat option"

type_synonym 'u ctx_state = "(nat \<rightharpoonup> ctx) \<times> nat \<times> 'u"

definition ctx_at :: "nat \<Rightarrow> 'u ctx_state \<Rightarrow> exn + ctx" where
  "ctx_at i s = (case s of (H, n, u) \<Rightarrow> of_option Undefined (H i))"

definition ctx_put :: "nat \<Rightarrow> ctx option \<Rightarrow> 'u ctx_state \<Rightarrow> 'u ctx_state" where
  "ctx_put i c s = (case s of (H, n, u) \<Rightarrow> (H(i := c), n, u))"

definition ctx_new :: "'u ctx_state \<Rightarrow> nat \<times> 'u ctx_state" where
  "ctx_new s = (case s of (H, n, u) \<Rightarrow> (n, (H(n \<mapsto> \<lparr>c_self = False, c_shared = None\<rparr>), Suc n, u)))"

text \<open>\<^verbatim>\<open>shared_from_this\<close> needs an owner.\<close>

definition ref_self :: "nat \<Rightarrow> 'u ctx_state \<Rightarrow> exn + 'u ctx_state" where
  "ref_self i s =
    ebind (ctx_at i s) (\<lambda>c.
    ebind (spec_assert (\<not> c_self c)) (\<lambda>_.
      if c_shared c = None \<or> c_shared c = Some 0 then Inl Undefined
      else Inr (ctx_put i (Some (c\<lparr>c_self := True\<rparr>)) s)))"

definition ctx_create :: "'u ctx_state \<Rightarrow> exn + nat \<times> 'u ctx_state" where
  "ctx_create s =
    (case s of (H, n, u) \<Rightarrow>
      ebind (ref_self n (H(n \<mapsto> \<lparr>c_self = False, c_shared = Some 1\<rparr>), Suc n, u)) (\<lambda>s. Inr (n, s)))"

text \<open>Copies of the \<^verbatim>\<open>shared_ptr\<close> and their end.\<close>

definition owner_copy :: "nat \<Rightarrow> 'u ctx_state \<Rightarrow> exn + 'u ctx_state" where
  "owner_copy i s =
    ebind (ctx_at i s) (\<lambda>c.
      case c_shared c of
        Some (Suc k) \<Rightarrow> Inr (ctx_put i (Some (c\<lparr>c_shared := Some (Suc (Suc k))\<rparr>)) s)
      | _ \<Rightarrow> Inl Undefined)"

definition owner_drop :: "nat \<Rightarrow> 'u ctx_state \<Rightarrow> exn + 'u ctx_state" where
  "owner_drop i s =
    ebind (ctx_at i s) (\<lambda>c.
      case c_shared c of
        Some (Suc k) \<Rightarrow> Inr (ctx_put i (if k = 0 \<and> \<not> c_self c then None else Some (c\<lparr>c_shared := Some k\<rparr>)) s)
      | _ \<Rightarrow> Inl Undefined)"

text \<open>
  What both completions do at the end: let the reference to itself go, which deletes the object if that was
  the last, or \<^verbatim>\<open>delete this\<close>, which is undefined for an object that lives in the block of a \<^verbatim>\<open>shared_ptr\<close>.
\<close>

definition ctx_release :: "nat \<Rightarrow> 'u ctx_state \<Rightarrow> exn + 'u ctx_state" where
  "ctx_release i s =
    ebind (ctx_at i s) (\<lambda>c.
      if c_self c
      then Inr (ctx_put i (if c_shared c = Some 0 then None else Some (c\<lparr>c_self := False\<rparr>)) s)
      else if c_shared c = None then Inr (ctx_put i None s) else Inl Undefined)"

definition ctx_complete :: "(nat \<Rightarrow> int \<Rightarrow> 'u \<Rightarrow> 'u) \<Rightarrow> nat \<Rightarrow> int \<Rightarrow> 'u ctx_state \<Rightarrow> exn + 'u ctx_state" where
  "ctx_complete finish i rst s =
    ebind (ctx_at i s) (\<lambda>_.
      case s of (H, n, u) \<Rightarrow> ctx_release i (H, n, finish i rst u))"

definition ctx_sync_complete ::
    "(nat \<Rightarrow> int \<Rightarrow> 'u \<Rightarrow> bool \<times> 'u) \<Rightarrow> nat \<Rightarrow> int \<Rightarrow> 'u ctx_state \<Rightarrow> exn + bool \<times> 'u ctx_state" where
  "ctx_sync_complete sync_finish i rst s =
    ebind (ctx_at i s) (\<lambda>_.
      case s of (H, n, u) \<Rightarrow>
        case sync_finish i rst u of (safe, u) \<Rightarrow>
          if safe then ebind (ctx_release i (H, n, u)) (\<lambda>s. Inr (True, s)) else Inr (False, (H, n, u)))"

text \<open>The \<^verbatim>\<open>sync_finish\<close> of the class itself.\<close>

definition default_sync_finish :: "nat \<Rightarrow> int \<Rightarrow> 'u \<Rightarrow> bool \<times> 'u" where
  "default_sync_finish i rst u = (False, u)"

subsection \<open>Programs\<close>

text \<open>\<open>finish\<close> records that it ran; what \<open>sync_finish\<close> answers is in the program.\<close>

datatype cop = New | Create | Copy nat | Drop nat | Complete nat int | Sync nat int bool

definition log_finish :: "nat \<Rightarrow> int \<Rightarrow> nat list \<Rightarrow> nat list" where
  "log_finish i rst u = u @ [i]"

definition log_sync :: "bool \<Rightarrow> nat \<Rightarrow> int \<Rightarrow> nat list \<Rightarrow> bool \<times> nat list" where
  "log_sync safe i rst u = (safe, if safe then u @ [i] else u)"

fun cop_step :: "cop \<Rightarrow> nat list ctx_state \<Rightarrow> exn + nat list ctx_state" where
  "cop_step New s = Inr (snd (ctx_new s))"
| "cop_step Create s = ebind (ctx_create s) (\<lambda>(_, s). Inr s)"
| "cop_step (Copy i) s = owner_copy i s"
| "cop_step (Drop i) s = owner_drop i s"
| "cop_step (Complete i rst) s = ctx_complete log_finish i rst s"
| "cop_step (Sync i rst safe) s = ebind (ctx_sync_complete (log_sync safe) i rst s) (\<lambda>(_, s). Inr s)"

fun cops :: "cop list \<Rightarrow> nat list ctx_state \<Rightarrow> exn + nat list ctx_state" where
  "cops [] s = Inr s"
| "cops (p # ps) s = ebind (cop_step p s) (cops ps)"

subsection \<open>When a context lives and when it has finished\<close>

definition ctx_ok :: "nat list \<Rightarrow> nat \<Rightarrow> ctx option \<Rightarrow> bool" where
  "ctx_ok u i c = (case c of
      None \<Rightarrow> count_list u i = 1
    | Some c \<Rightarrow> (case c_shared c of
        None \<Rightarrow> \<not> c_self c \<and> count_list u i = 0
      | Some k \<Rightarrow> (if c_self c then count_list u i = 0 else 0 < k \<and> count_list u i = 1)))"

definition ctxs_ok :: "nat list ctx_state \<Rightarrow> bool" where
  "ctxs_ok s = (case s of (H, n, u) \<Rightarrow>
     (\<forall>i < n. ctx_ok u i (H i)) \<and> (\<forall>i \<ge> n. H i = None \<and> i \<notin> set u))"

lemma count_list_snoc: "count_list (u @ [j]) i = count_list u i + (if i = j then 1 else 0)"
  by simp

lemma ctx_ok_snoc: "i \<noteq> j \<Longrightarrow> ctx_ok (u @ [j]) i c = ctx_ok u i c"
  by (simp add: ctx_ok_def split: option.split)

lemma ctxs_ok_live: "ctxs_ok (H, n, u) \<Longrightarrow> H i = Some c \<Longrightarrow> i < n"
  by (simp add: ctxs_ok_def) (metis not_le option.distinct(1))

lemma ctxs_ok_put:
  assumes "ctxs_ok (H, n, u)" "i < n" "ctx_ok u' i c" "u' = u \<or> u' = u @ [i]"
  shows "ctxs_ok (H(i := c), n, u')"
  using assms by (auto simp: ctxs_ok_def ctx_ok_snoc)

lemma ctxs_ok_fresh:
  assumes "ctxs_ok (H, n, u)" "ctx_ok u n (Some c)"
  shows "ctxs_ok (H(n \<mapsto> c), Suc n, u)"
  using assms by (auto simp: ctxs_ok_def less_Suc_eq)

lemma ctx_release_ok:
  assumes "ctxs_ok (H, n, u)" "ctx_release i (H, n, u @ [i]) = Inr s"
  shows "ctxs_ok s"
proof -
  obtain c where c: "H i = Some c" using assms(2) by (cases "H i") (auto simp: ctx_release_def ctx_at_def of_option_def)
  have i: "i < n" by (rule ctxs_ok_live [OF assms(1) c])
  have ok: "ctx_ok u i (Some c)" using assms(1) i c by (force simp: ctxs_ok_def)
  show ?thesis
    using assms(2) ok ctxs_ok_put [OF assms(1) i, of "u @ [i]"] c
    by (auto simp: ctx_release_def ctx_at_def of_option_def ctx_put_def ctx_ok_def split: if_splits option.splits)
qed

lemma owner_copy_cases:
  assumes "owner_copy i (H, n, u :: 'a) = Inr s'"
  obtains c k where "H i = Some c" "c_shared c = Some (Suc k)"
    "s' = (H(i \<mapsto> c\<lparr>c_shared := Some (Suc (Suc k))\<rparr>), n, u)"
proof -
  obtain c where c: "H i = Some c" using assms by (cases "H i") (simp_all add: owner_copy_def ctx_at_def of_option_def)
  obtain m where m: "c_shared c = Some m"
    using assms c by (cases "c_shared c") (simp_all add: owner_copy_def ctx_at_def of_option_def)
  obtain k where k: "m = Suc k" using assms c m by (cases m) (simp_all add: owner_copy_def ctx_at_def of_option_def)
  have "Inr s' = (Inr (H(i \<mapsto> c\<lparr>c_shared := Some (Suc (Suc k))\<rparr>), n, u) :: exn + 'a ctx_state)"
    unfolding assms [symmetric] using c m k by (simp add: owner_copy_def ctx_at_def of_option_def ctx_put_def)
  then show thesis using that [OF c] m k by simp
qed

lemma owner_drop_cases:
  assumes "owner_drop i (H, n, u :: 'a) = Inr s'"
  obtains c k where "H i = Some c" "c_shared c = Some (Suc k)"
    "s' = (H(i := if k = 0 \<and> \<not> c_self c then None else Some (c\<lparr>c_shared := Some k\<rparr>)), n, u)"
proof -
  obtain c where c: "H i = Some c" using assms by (cases "H i") (simp_all add: owner_drop_def ctx_at_def of_option_def)
  obtain m where m: "c_shared c = Some m"
    using assms c by (cases "c_shared c") (simp_all add: owner_drop_def ctx_at_def of_option_def)
  obtain k where k: "m = Suc k" using assms c m by (cases m) (simp_all add: owner_drop_def ctx_at_def of_option_def)
  have "Inr s' = (Inr (H(i := if k = 0 \<and> \<not> c_self c then None else Some (c\<lparr>c_shared := Some k\<rparr>)), n, u) :: exn + 'a ctx_state)"
    unfolding assms [symmetric] using c m k by (simp add: owner_drop_def ctx_at_def of_option_def ctx_put_def)
  then show thesis using that [OF c] m k by simp
qed

lemma cop_step_ok:
  assumes "ctxs_ok s" "cop_step p s = Inr s'"
  shows "ctxs_ok s'"
proof -
  obtain H n u where s: "s = (H, n, u)" by (cases s)
  have ok: "ctxs_ok (H, n, u)" using assms(1) s by simp
  have fresh: "count_list u n = 0" using ok by (simp add: ctxs_ok_def count_list_0_iff)
  have at: "i < n \<and> ctx_ok u i (Some c)" if "H i = Some c" for i c
    using that ok ctxs_ok_live [OF ok that] by (force simp: ctxs_ok_def)
  show ?thesis
  proof (cases p)
    case New
    then show ?thesis using assms(2) s fresh ctxs_ok_fresh [OF ok]
      by (auto simp: ctx_new_def ctx_ok_def)
  next
    case Create
    then show ?thesis using assms(2) s fresh ctxs_ok_fresh [OF ok]
      by (auto simp: ctx_create_def ref_self_def ctx_at_def ctx_put_def of_option_def spec_assert_def ctx_ok_def split: if_splits)
  next
    case (Copy i)
    obtain c k where c: "H i = Some c" "c_shared c = Some (Suc k)" "s' = (H(i \<mapsto> c\<lparr>c_shared := Some (Suc (Suc k))\<rparr>), n, u)"
      using assms(2) s Copy by (auto elim: owner_copy_cases)
    have "ctx_ok u i (Some (c\<lparr>c_shared := Some (Suc (Suc k))\<rparr>))" using at [OF c(1)] c(2) by (simp add: ctx_ok_def)
    then show ?thesis using ctxs_ok_put [OF ok] at [OF c(1)] c(3) by simp
  next
    case (Drop i)
    obtain c k where c: "H i = Some c" "c_shared c = Some (Suc k)"
      "s' = (H(i := if k = 0 \<and> \<not> c_self c then None else Some (c\<lparr>c_shared := Some k\<rparr>)), n, u)"
      using assms(2) s Drop by (auto elim: owner_drop_cases)
    have "ctx_ok u i (if k = 0 \<and> \<not> c_self c then None else Some (c\<lparr>c_shared := Some k\<rparr>))"
      using at [OF c(1)] c(2) by (auto simp: ctx_ok_def split: if_splits)
    then show ?thesis using ctxs_ok_put [OF ok] at [OF c(1)] c(3) by blast
  next
    case (Complete i r)
    then show ?thesis using assms(2) s ctx_release_ok [OF ok, of i s']
      by (auto simp: ctx_complete_def ebind_Inr_iff log_finish_def)
  next
    case (Sync i r safe)
    then show ?thesis using assms(2) s ok ctx_release_ok [OF ok, of i s']
      by (auto simp: ctx_sync_complete_def ebind_Inr_iff log_sync_def split: if_splits)
  qed
qed

lemma cops_ok: "ctxs_ok s \<Longrightarrow> cops ps s = Inr s' \<Longrightarrow> ctxs_ok s'"
  by (induction ps arbitrary: s) (auto simp: ebind_Inr_iff dest: cop_step_ok)

text \<open>
  C40 (invariant). In every program over contexts that runs without an error, a context has finished at most
  once; one that is gone has finished, whoever held it and let go; completing one that has not finished
  returns. But one that has finished must not be completed again, not even while a \<^verbatim>\<open>shared_ptr\<close> from
  \<^verbatim>\<open>create\<close> still keeps it: the second completion takes it for an object made by \<^verbatim>\<open>new\<close> and deletes what
  the \<^verbatim>\<open>shared_ptr\<close>s own.
\<close>

theorem context_finishes_once:
  assumes "cops ps (Map.empty, 0, []) = Inr (H, n, u)" "i < n"
  shows "count_list u i \<le> 1 \<and> (H i = None \<longrightarrow> count_list u i = 1) \<and>
    (count_list u i = 0 \<longrightarrow> (\<exists>s. cop_step (Complete i r) (H, n, u) = Inr s)) \<and>
    (count_list u i = 1 \<longrightarrow> cop_step (Complete i r) (H, n, u) = Inl Undefined \<and>
      cop_step (Sync i r True) (H, n, u) = Inl Undefined)"
proof -
  have "ctxs_ok (Map.empty, 0, [])" by (simp add: ctxs_ok_def)
  then have "ctxs_ok (H, n, u)" using assms(1) by (rule cops_ok)
  then have ok: "ctx_ok u i (H i)" using assms(2) by (simp add: ctxs_ok_def)
  show ?thesis
  proof (cases "H i")
    case None
    then show ?thesis using ok
      by (simp add: ctx_ok_def ctx_complete_def ctx_sync_complete_def ctx_at_def of_option_def)
  next
    case (Some c)
    then show ?thesis using ok
      by (cases "c_shared c")
        (auto simp: ctx_ok_def ctx_complete_def ctx_sync_complete_def ctx_release_def ctx_at_def of_option_def ctx_put_def
          log_sync_def log_finish_def split: if_splits)
  qed
qed

theorem context_finishes_once_witness:
  "\<exists>H n u. cops [Create, Copy 0, Complete 0 7, Drop 0] (Map.empty, 0, []) = Inr (H, n, u) \<and> H 0 \<noteq> None \<and>
    count_list u 0 = 1 \<and> cop_step (Complete 0 7) (H, n, u) = Inl Undefined"
proof -
  let ?ps = "[Create, Copy 0, Complete 0 7, Drop 0]"
  obtain H where H: "cops ?ps (Map.empty, 0, []) = Inr (H, 1, [0])" "H 0 \<noteq> None"
    by (simp add: ctx_create_def ref_self_def ctx_at_def of_option_def spec_assert_def ctx_put_def owner_copy_def
        owner_drop_def ctx_complete_def ctx_release_def log_finish_def)
  then show ?thesis using context_finishes_once [OF H(1), of 0 7] by auto
qed

end
