(* ===== verification/Buffer_Hash.thy ===== *)
theory Buffer_Hash
  imports List_Crc
begin

text \<open>The running hash over lists of \<^verbatim>\<open>buffer_hash.h\<close>: a register that each list's checksum continues.\<close>

type_synonym hash = u32

definition hash_new :: "u32 \<Rightarrow> hash" where
  "hash_new init = init"

definition hash_update :: "crc_func \<Rightarrow> blist \<Rightarrow> hash \<Rightarrow> crc_audit \<Rightarrow> mem \<Rightarrow> exn + hash \<times> crc_audit \<times> mem" where
  "hash_update func blist h a m = list_crc32c func blist h a m"

definition hash_digest :: "hash \<Rightarrow> u32" where
  "hash_digest h = h"

text \<open>\<^verbatim>\<open>h << a << b\<close> and so on.\<close>

definition hash_shift :: "crc_func \<Rightarrow> hash \<Rightarrow> blist \<Rightarrow> crc_audit \<Rightarrow> mem \<Rightarrow> exn + hash \<times> crc_audit \<times> mem" where
  "hash_shift func lhs rhs a m = hash_update func rhs lhs a m"

fun hash_all :: "crc_func \<Rightarrow> blist list \<Rightarrow> hash \<Rightarrow> crc_audit \<Rightarrow> mem \<Rightarrow> exn + hash \<times> crc_audit \<times> mem" where
  "hash_all func [] h a m = Inr (h, a, m)"
| "hash_all func (b # bs) h a m = ebind (hash_shift func h b a m) (\<lambda>(h, a, m). hash_all func bs h a m)"

text \<open>
  The digest is the checksum of all bytes of all lists one after the other, so it does not depend on how
  the bytes are divided into lists, nor on what the caches of the raws hold as long as they are sound.
\<close>

lemma hash_is_crc_of_all:
  assumes "wf_mem m" "crc_sound m" "\<forall>b \<in> set bs. wf_list m b \<and> b_len b < 2 ^ 32"
  shows "\<exists>a' m'. hash_all crc32c_sctp bs h a m = Inr (crc_ref h (concat (map (bl_bytes m) bs)), a', m') \<and> crc_quiet m m'"
  using assms
proof (induction bs arbitrary: h a m)
  case Nil
  then show ?case by (auto simp: crc_quiet_def crc_ref_def)
next
  case (Cons b bs)
  obtain k m1 where m1: "list_crc32c crc32c_sctp b h a m = Inr (crc_ref h (bl_bytes m b), audit k a, m1)" "crc_quiet m m1"
    using sctp.list_crc32c_ok [of m b h a] seen_bytes_small [of b m] nodes_small [of m b "2 ^ 32"] Cons.prems by auto
  have same: "m_ptrs m1 = m_ptrs m" "node_bytes m1 = node_bytes m" "wf_mem m1" "crc_sound m1"
    using m1(2) by (simp_all add: crc_quiet_def)
  have bytes: "bl_bytes m1 = bl_bytes m" by (intro ext) (simp add: bl_bytes_def same)
  have "\<forall>b \<in> set bs. wf_list m1 b \<and> b_len b < 2 ^ 32"
  proof -
    have "tail_free m1 = tail_free m" "has_raw m1 = has_raw m"
      by (simp_all add: tail_free_def [abs_def] has_raw_def [abs_def] same)
    then have "wf_list m1 b' = wf_list m b'" for b' by (simp add: wf_list_def wf_nodes_def bytes)
    then show ?thesis using Cons.prems(3) by simp
  qed
  from Cons.IH [OF same(3,4) this] obtain a' m' where
    "hash_all crc32c_sctp bs (crc_ref h (bl_bytes m b)) (audit k a) m1 =
      Inr (crc_ref (crc_ref h (bl_bytes m b)) (concat (map (bl_bytes m1) bs)), a', m')" "crc_quiet m1 m'" by blast
  then show ?case using m1 crc_quiet_trans [OF m1(2)]
    by (auto simp: hash_shift_def hash_update_def bytes crc_ref_append)
qed

end
