(* ===== verification/Tail_Care.thy ===== *)
theory Tail_Care
  imports Buffer_Splice
begin

text \<open>
  What an operation on one list may do to the free space behind the tails of all others.
  A list writes behind its cached tail only, so an operation is \<open>careful\<close> when every window
  it opens or widens on a raw that was there before either lies on the list's own tail raw
  or ends no later than some window that was there already. The facts here speak of results
  only: that the operations succeed is what the lemmas on \<open>becomes\<close> say.
\<close>

subsection \<open>The store's primitives\<close>

lemma raw_unref_ptrs:
  assumes "raw_unref r m = Inr m'"
  shows "m_ptrs m' = m_ptrs m" "m_next m' = m_next m"
  using assms by (auto simp: raw_unref_def raw_delete_def ebind_Inr_iff Let_def split: if_splits)

lemma ptr_destroy_ptrs:
  assumes "ptr_destroy i m = Inr m'"
  shows "m_ptrs m' = (m_ptrs m)(i := None)" "m_next m' = m_next m"
proof -
  obtain p m1 where m1: "(case p_raw p of None \<Rightarrow> Inr (obj_set i (p\<lparr>p_raw := None\<rparr>) m)
      | Some r \<Rightarrow> raw_unref r (obj_set i (p\<lparr>p_raw := None\<rparr>) m)) = Inr m1"
    "m' = m1\<lparr>m_ptrs := (m_ptrs m1)(i := None)\<rparr>"
    using assms by (auto simp: ptr_destroy_def ptr_release_def ebind_Inr_iff Let_def)
  have "m_ptrs m1 = (m_ptrs m)(i \<mapsto> p\<lparr>p_raw := None\<rparr>)" "m_next m1 = m_next m"
    using m1(1) raw_unref_ptrs [of _ "obj_set i (p\<lparr>p_raw := None\<rparr>) m" m1]
    by (auto split: option.splits)
  then show "m_ptrs m' = (m_ptrs m)(i := None)" "m_next m' = m_next m" using m1(2) by auto
qed

lemma clear_and_dispose_old:
  "clear_and_dispose is m = Inr m' \<Longrightarrow>
    m_next m' = m_next m \<and> (\<forall>j q. m_ptrs m' j = Some q \<longrightarrow> m_ptrs m j = Some q)"
proof (induction "is" arbitrary: m)
  case (Cons i js)
  then obtain m1 where m1: "ptr_destroy i m = Inr m1" "clear_and_dispose js m1 = Inr m'"
    by (auto simp: ebind_Inr_iff)
  have "m_ptrs m j = Some q" if "m_ptrs m1 j = Some q" for j q
    using ptr_destroy_ptrs(1) [OF m1(1)] that by (simp split: if_splits)
  then show ?case using Cons.IH [OF m1(2)] ptr_destroy_ptrs(2) [OF m1(1)] by metis
qed simp

lemma clear_and_dispose_tidy: "clear_and_dispose is m = Inr m' \<Longrightarrow> tidy R m m'"
  using clear_and_dispose_old [of "is" m m'] by (auto intro!: tidy_old)

lemma raw_ref_sel [simp]:
  "m_ptrs (raw_ref r m) = m_ptrs m" "m_next (raw_ref r m) = m_next m"
  by (simp_all add: raw_ref_def)

lemma ptr_copy_tidy:
  assumes "ptr_copy i m = Inr (k, m')"
  shows "tidy R m m'"
proof -
  obtain p where p: "m_ptrs m i = Some p" "m_ptrs m' = (m_ptrs m)(m_next m \<mapsto> p)" "m_next m' = Suc (m_next m)"
    using assms by (auto simp: ptr_copy_def ptr_at_def obj_new_def ebind_Inr_iff split: option.splits)
  show ?thesis by (rule tidy_old) (use p in \<open>auto split: if_splits\<close>)
qed

lemma clone_nodes_tidy: "clone_nodes is m = Inr (ks, m') \<Longrightarrow> tidy R m m'"
proof (induction "is" arbitrary: m ks)
  case (Cons i js)
  then obtain k m1 ks' where m1: "ptr_copy i m = Inr (k, m1)" "clone_nodes js m1 = Inr (ks', m')"
    by (auto simp: ebind_Inr_iff)
  then show ?case using ptr_copy_tidy [OF m1(1), of R] Cons.IH [OF m1(2)] by (auto intro: tidy_trans)
qed simp

lemma clone_nodes_length: "clone_nodes is m = Inr (ks, m') \<Longrightarrow> length ks = length is"
  by (induction "is" arbitrary: m ks) (auto simp: ebind_Inr_iff)

text \<open>An empty window may lie anywhere.\<close>

lemma ptr_sub_empty:
  assumes "ptr_sub i off 0 m = Inr (k, m')"
  shows "tidy R m m'" "k = m_next m"
    "\<exists>p q. m_ptrs m i = Some p \<and> m_ptrs m' k = Some q \<and> p_raw q = p_raw p"
proof -
  obtain p q where p: "m_ptrs m i = Some p" "m_ptrs m' = (m_ptrs m)(m_next m \<mapsto> q)" "p_raw q = p_raw p"
    "p_len q = 0" "k = m_next m" "m_next m' = Suc (m_next m)"
    using assms by (auto simp: ptr_sub_def ptr_at_def obj_new_def ebind_Inr_iff)
  show "tidy R m m'" by (rule tidy_set [OF _ p(2)]) (simp_all add: p)
  show "k = m_next m" by (rule p(5))
  show "\<exists>p q. m_ptrs m i = Some p \<and> m_ptrs m' k = Some q \<and> p_raw q = p_raw p"
    using p by auto
qed

lemma raw_write_ptrs:
  "raw_write r off bs m = Inr m' \<Longrightarrow> m_ptrs m' = m_ptrs m \<and> m_next m' = m_next m"
  by (auto simp: raw_write_def ebind_Inr_iff split: if_splits)

lemma raw_invalidate_sel [simp]:
  "m_ptrs (raw_invalidate_crc r m) = m_ptrs m" "m_next (raw_invalidate_crc r m) = m_next m"
  by (simp_all add: raw_invalidate_crc_def)

text \<open>Only the length of one object changed.\<close>

definition widened :: "nat \<Rightarrow> mem \<Rightarrow> mem \<Rightarrow> bool" where
  "widened c m m' \<longleftrightarrow> m_next m' = m_next m \<and>
     (\<exists>p n. m_ptrs m c = Some p \<and> m_ptrs m' = (m_ptrs m)(c \<mapsto> p\<lparr>p_len := n\<rparr>))"

lemma set_length_widened: "set_length c n m = Inr m' \<Longrightarrow> widened c m m'"
  by (auto simp: set_length_def ptr_at_def ebind_Inr_iff widened_def)

lemma ptr_append_widened: "ptr_append c bs m = Inr (e, m') \<Longrightarrow> widened c m m'"
  by (auto simp: ptr_append_def ptr_at_def ebind_Inr_iff widened_def Let_def dest!: raw_write_ptrs)

lemma ptr_zero_same:
  "ptr_zero k f m = Inr m' \<Longrightarrow> m_ptrs m' = m_ptrs m \<and> m_next m' = m_next m"
  by (auto simp: ptr_zero_def ebind_Inr_iff dest!: raw_write_ptrs split: if_splits)

text \<open>A new raw.\<close>

definition raw_made :: "(nat \<times> mem) \<Rightarrow> mem \<Rightarrow> bool" where
  "raw_made x m \<longleftrightarrow> fst x = m_next m \<and> m_ptrs (snd x) = m_ptrs m \<and> m_next (snd x) = Suc (m_next m)"

lemma raw_made_init [simp]: "raw_made (raw_init k a d n t m) m"
  by (simp add: raw_made_def raw_init_sel)

lemma raw_combined_made: "raw_combined_create n al t m = Inr x \<Longrightarrow> raw_made x m"
  by (auto simp: raw_combined_create_def ebind_Inr_iff Let_def split: if_splits)

lemma create_aligned_made: "create_aligned n al m = Inr x \<Longrightarrow> raw_made x m"
  by (auto simp: create_aligned_def create_aligned_in_mempool_def raw_posix_aligned_new_def
      ebind_Inr_iff dest: raw_combined_made split: if_splits)

lemma create_made:
  "create_raw n m = Inr x \<Longrightarrow> raw_made x m" "create_page_aligned n m = Inr x \<Longrightarrow> raw_made x m"
  by (simp_all add: create_raw_def create_page_aligned_def create_aligned_made)

lemma ptr_of_raw_new:
  assumes "raw_made (r, m1) m" "ptr_of_raw r m1 = Inr (k, m2)"
  shows "\<exists>n. m_ptrs m2 = (m_ptrs m)(k \<mapsto> \<lparr>p_raw = Some (m_next m), p_off = 0, p_len = n\<rparr>)"
    "m_next m \<le> m_next m2" "k = Suc (m_next m)"
  using assms by (auto simp: ptr_of_raw_def raw_at_def ebind_Inr_iff obj_new_def raw_made_def)

subsection \<open>Operations on a list\<close>

definition careful :: "blist \<Rightarrow> mem \<Rightarrow> blist \<Rightarrow> mem \<Rightarrow> bool" where
  "careful b m b' m' \<longleftrightarrow> tidy (tail_raws m b) m m' \<and>
     tail_raws m' b' \<subseteq> tail_raws m b \<union> {m_next m..}"

lemma careful_len [simp]:
  "careful (b\<lparr>b_len := n\<rparr>) m b' m' = careful b m b' m'"
  "careful b m (b'\<lparr>b_len := n\<rparr>) m' = careful b m b' m'"
  by (simp_all add: careful_def)

lemma careful_refl [simp]: "careful b m b m"
  by (simp add: careful_def)

lemma careful_trans:
  assumes "careful b m b1 m1" "careful b1 m1 b2 m2"
  shows "careful b m b2 m2"
  unfolding careful_def
proof
  have t: "tidy (tail_raws m b) m m1" "tidy (tail_raws m1 b1) m1 m2"
    and s: "tail_raws m1 b1 \<subseteq> tail_raws m b \<union> {m_next m..}"
      "tail_raws m2 b2 \<subseteq> tail_raws m1 b1 \<union> {m_next m1..}"
    using assms by (simp_all add: careful_def)
  have "x \<in> tail_raws m b" if "x \<in> tail_raws m1 b1" "x < m_next m" for x
    using subsetD [OF s(1) that(1)] that(2) by simp
  then show "tidy (tail_raws m b) m m2" by (rule tidy_trans [OF t])
  show "tail_raws m2 b2 \<subseteq> tail_raws m b \<union> {m_next m..}"
  proof
    fix x assume "x \<in> tail_raws m2 b2"
    then consider "x \<in> tail_raws m1 b1" | "m_next m1 \<le> x" using s(2) by auto
    then show "x \<in> tail_raws m b \<union> {m_next m..}"
      by cases (use s(1) tidy_next [OF t(1)] in auto)
  qed
qed

text \<open>An operation that leaves the list without a cached tail.\<close>

lemma tidy_careful: "tidy {} m m' \<Longrightarrow> tail_cache b' = None \<Longrightarrow> careful b m b' m'"
  unfolding careful_def by (auto simp: tail_raws_none intro: tidy_mono)

lemma widened_careful:
  assumes "widened c m m'" "tail_cache b = Some c"
  shows "careful b m b m'"
proof -
  obtain p n where p: "m_ptrs m c = Some p" "m_ptrs m' = (m_ptrs m)(c \<mapsto> p\<lparr>p_len := n\<rparr>)"
    "m_next m' = m_next m"
    using assms(1) by (auto simp: widened_def)
  have "tidy (tail_raws m b) m m'"
    by (rule tidy_set [OF _ p(2)]) (use p assms(2) in \<open>auto simp: tail_raws_def\<close>)
  moreover have "tail_raws m' b = tail_raws m b" using assms(2) p by (simp add: tail_raws_def)
  ultimately show ?thesis by (simp add: careful_def)
qed

lemma same_careful:
  "m_ptrs m' = m_ptrs m \<Longrightarrow> m_next m \<le> m_next m' \<Longrightarrow> tail_cache b' = tail_cache b \<Longrightarrow> careful b m b' m'"
  by (auto simp: careful_def tail_raws_def intro: tidy_same)

text \<open>A node on a raw of its own becomes the tail.\<close>

lemma new_node_careful:
  assumes "raw_made (r, m1) m" "ptr_of_raw r m1 = Inr (k, m2)" "tail_cache b' = Some k"
  shows "careful b m b' m2"
proof -
  obtain n where p: "m_ptrs m2 = (m_ptrs m)(k \<mapsto> \<lparr>p_raw = Some (m_next m), p_off = 0, p_len = n\<rparr>)"
    using ptr_of_raw_new(1) [OF assms(1,2)] by blast
  have "tidy (tail_raws m b) m m2"
    by (rule tidy_set [OF ptr_of_raw_new(2) [OF assms(1,2)] p]) simp
  moreover have "tail_raws m2 b' \<subseteq> {m_next m..}" using assms(3) p by (auto simp: tail_raws_def)
  ultimately show ?thesis by (auto simp: careful_def)
qed

lemma new_tail_careful:
  assumes "raw_made (r, m1) m" "ptr_of_raw r m1 = Inr (k, m2)" "set_length k n m2 = Inr m3"
  shows "careful b m (add_tail k b) m3"
  by (rule careful_trans [OF new_node_careful [OF assms(1,2), of "add_tail k b"]
        widened_careful [OF set_length_widened [OF assms(3)]]]) simp_all

lemma refill_careful:
  assumes "refill_append_space n b m = Inr (k, b', m')"
  shows "careful b m b' m'" "tail_cache b' = Some k" "length (bufs b') = length (bufs b) + 1"
proof -
  obtain a t r m1 m2 where *: "raw_combined_create a 0 t m = Inr (r, m1)" "ptr_of_raw r m1 = Inr (k, m2)"
    "set_length k 0 m2 = Inr m'" "b' = add_tail k b"
    using assms by (auto simp: refill_append_space_def new_append_raw_def ebind_Inr_iff Let_def)
  show "careful b m b' m'"
    unfolding *(4) by (rule new_tail_careful [OF raw_combined_made [OF *(1)] *(2,3)])
  show "tail_cache b' = Some k" "length (bufs b') = length (bufs b) + 1" using *(4) by simp_all
qed

lemma resync_careful:
  assumes "resync_tail b m = Inr (b', m')"
  shows "careful b m b' m'" "length (bufs b') \<le> length (bufs b) + 1"
proof -
  obtain c where c: "tail_cache b = Some c"
    using assms by (auto simp: resync_tail_def ebind_Inr_iff)
  have "careful b m b' m' \<and> length (bufs b') \<le> length (bufs b) + 1"
  proof (cases "is_back b c")
    case False
    then obtain n k where k: "ptr_sub c n 0 m = Inr (k, m')" "b' = add_tail k b"
      using assms c by (auto simp: resync_tail_def ebind_Inr_iff)
    have "tail_raws m' b' = tail_raws m b"
      using ptr_sub_empty(3) [OF k(1)] c k(2) by (auto simp: tail_raws_def)
    then show ?thesis using ptr_sub_empty(1) [OF k(1)] k(2) by (simp add: careful_def)
  qed (use assms c in \<open>simp add: resync_tail_def\<close>)
  then show "careful b m b' m'" "length (bufs b') \<le> length (bufs b) + 1" by auto
qed

lemma tail_append_careful: "tail_append bs b m = Inr m' \<Longrightarrow> careful b m b m'"
  by (auto simp: tail_append_def ebind_Inr_iff dest!: ptr_append_widened intro: widened_careful)

subsection \<open>The operations of the library\<close>

lemma blist_append_careful:
  assumes "blist_append data b m = Inr (b', m')"
  shows "careful b m b' m' \<and> length (bufs b') \<le> length (bufs b) + 2"
proof -
  let ?b = "b\<lparr>b_len := add64 (b_len b) (length data)\<rparr>"
  obtain u where u: "get_append_buffer_unused_tail_length m ?b = Inr u"
    using assms by (auto simp: blist_append_def Let_def ebind_Inr_iff)
  let ?first = "min (length data) u"
  obtain b1 m1 where 1: "(if ?first \<noteq> 0
        then ebind (resync_tail ?b m) (\<lambda>(b, m).
             ebind (tail_append (take ?first data) b m) (\<lambda>m. Inr (b, m)))
        else Inr (?b, m)) = Inr (b1, m1)"
    and 2: "(if length data - ?first \<noteq> 0
       then ebind (refill_append_space (length data - ?first) b1 m1) (\<lambda>(k, b, m).
            ebind (ptr_append k (drop ?first data) m) (\<lambda>(_, m). Inr (b, m)))
       else Inr (b1, m1)) = Inr (b', m')"
    using assms unfolding blist_append_def Let_def u ebind_Inr_iff by auto
  have f: "careful b m b1 m1" "length (bufs b1) \<le> length (bufs b) + 1"
  proof (atomize (full), cases "?first \<noteq> 0")
    case True
    then obtain m2 where "resync_tail ?b m = Inr (b1, m2)" "tail_append (take ?first data) b1 m2 = Inr m1"
      using 1 unfolding if_P [OF True] by (auto simp: ebind_Inr_iff)
    then show "careful b m b1 m1 \<and> length (bufs b1) \<le> length (bufs b) + 1"
      using resync_careful [of ?b m b1 m2] tail_append_careful [of _ b1 m2 m1] careful_trans by auto
  next
    case False
    then show "careful b m b1 m1 \<and> length (bufs b1) \<le> length (bufs b) + 1"
      using 1 unfolding if_not_P [OF False] by auto
  qed
  have g: "careful b1 m1 b' m'" "length (bufs b') \<le> length (bufs b1) + 1"
  proof (atomize (full), cases "length data - ?first \<noteq> 0")
    case True
    then obtain k m2 e where r: "refill_append_space (length data - ?first) b1 m1 = Inr (k, b', m2)"
      "ptr_append k (drop ?first data) m2 = Inr (e, m')"
      using 2 unfolding if_P [OF True] by (auto simp: ebind_Inr_iff)
    show "careful b1 m1 b' m' \<and> length (bufs b') \<le> length (bufs b1) + 1"
      using careful_trans [OF refill_careful(1) [OF r(1)]
          widened_careful [OF ptr_append_widened [OF r(2)] refill_careful(2) [OF r(1)]]]
        refill_careful(3) [OF r(1)] by simp
  next
    case False
    then show "careful b1 m1 b' m' \<and> length (bufs b') \<le> length (bufs b1) + 1"
      using 2 unfolding if_not_P [OF False] by auto
  qed
  show ?thesis using careful_trans [OF f(1) g(1)] f(2) g(2) by simp
qed

lemma blist_append_zero_careful:
  assumes "blist_append_zero n b m = Inr (b', m')"
  shows "careful b m b' m' \<and> length (bufs b') \<le> length (bufs b) + 2"
proof -
  let ?b = "b\<lparr>b_len := add64 (b_len b) n\<rparr>"
  obtain u where u: "get_append_buffer_unused_tail_length m ?b = Inr u"
    using assms by (auto simp: blist_append_zero_def Let_def ebind_Inr_iff)
  let ?first = "min n u"
  obtain b1 m1 where 1: "(if ?first \<noteq> 0
        then ebind (resync_tail ?b m) (\<lambda>(b, m).
             ebind (of_option Assert_failed (tail_cache b)) (\<lambda>c.
             ebind (append_zeros c ?first m) (\<lambda>(_, m). Inr (b, m))))
        else Inr (?b, m)) = Inr (b1, m1)"
    and 2: "(if n - ?first \<noteq> 0
       then ebind (refill_append_space (n - ?first) b1 m1) (\<lambda>(k, b, m).
            ebind (set_length k (n - ?first) m) (\<lambda>m.
            ebind (ptr_zero k False m) (\<lambda>m. Inr (b, m))))
       else Inr (b1, m1)) = Inr (b', m')"
    using assms unfolding blist_append_zero_def Let_def u ebind_Inr_iff by auto
  have f: "careful b m b1 m1" "length (bufs b1) \<le> length (bufs b) + 1"
  proof (atomize (full), cases "?first \<noteq> 0")
    case True
    then obtain m2 c e where "resync_tail ?b m = Inr (b1, m2)" "tail_cache b1 = Some c"
      "append_zeros c ?first m2 = Inr (e, m1)"
      using 1 unfolding if_P [OF True] by (auto simp: ebind_Inr_iff)
    then show "careful b m b1 m1 \<and> length (bufs b1) \<le> length (bufs b) + 1"
      using resync_careful [of ?b m b1 m2] careful_trans
        widened_careful [OF ptr_append_widened [of c _ m2 e m1], of _ b1]
      by (auto simp: append_zeros_def)
  next
    case False
    then show "careful b m b1 m1 \<and> length (bufs b1) \<le> length (bufs b) + 1"
      using 1 unfolding if_not_P [OF False] by auto
  qed
  have g: "careful b1 m1 b' m'" "length (bufs b') \<le> length (bufs b1) + 1"
  proof (atomize (full), cases "n - ?first \<noteq> 0")
    case True
    then obtain k m2 m3 where r: "refill_append_space (n - ?first) b1 m1 = Inr (k, b', m2)"
      "set_length k (n - ?first) m2 = Inr m3" "ptr_zero k False m3 = Inr m'"
      using 2 unfolding if_P [OF True] by (auto simp: ebind_Inr_iff)
    have "careful b' m3 b' m'" using ptr_zero_same [OF r(3)] by (intro same_careful) auto
    then show "careful b1 m1 b' m' \<and> length (bufs b') \<le> length (bufs b1) + 1"
      using careful_trans [OF refill_careful(1) [OF r(1)]
          widened_careful [OF set_length_widened [OF r(2)] refill_careful(2) [OF r(1)]]]
        refill_careful(3) [OF r(1)] careful_trans by auto
  next
    case False
    then show "careful b1 m1 b' m' \<and> length (bufs b') \<le> length (bufs b1) + 1"
      using 2 unfolding if_not_P [OF False] by auto
  qed
  show ?thesis using careful_trans [OF f(1) g(1)] f(2) g(2) by simp
qed

lemma blist_reserve_careful:
  assumes "blist_reserve n b m = Inr (b', m')"
  shows "careful b m b' m' \<and> length (bufs b') \<le> length (bufs b) + 1"
proof -
  obtain u where u: "get_append_buffer_unused_tail_length m b = Inr u"
    using assms by (auto simp: blist_reserve_def ebind_Inr_iff)
  show ?thesis
  proof (cases "u < n")
    case True
    then obtain r m1 k m2 where *: "create_page_aligned n m = Inr (r, m1)" "ptr_of_raw r m1 = Inr (k, m2)"
      "set_length k 0 m2 = Inr m'" "b' = add_tail k b"
      using assms u by (auto simp: blist_reserve_def ebind_Inr_iff)
    show ?thesis
      using new_tail_careful [OF create_made(2) [OF *(1)] *(2,3), of b] *(4) by simp
  qed (use assms u in \<open>simp add: blist_reserve_def\<close>)
qed

lemma blist_prepend_zero_careful:
  assumes "blist_prepend_zero n b m = Inr (b', m')"
  shows "careful b m b' m' \<and> length (bufs b') \<le> length (bufs b) + 1"
proof -
  obtain k m1 where *: "ptr_of_len n m = Inr (k, m1)" "ptr_zero k False m1 = Inr m'"
    "bufs b' = k # bufs b" "tail_cache b' = tail_cache b"
    using assms by (auto simp: blist_prepend_zero_def ebind_Inr_iff)
  obtain r m0 where r: "raw_made (r, m0) m"
    "m_ptrs m1 = (m_ptrs m0)(k \<mapsto> \<lparr>p_raw = Some r, p_off = 0, p_len = n\<rparr>)" "m_next m0 \<le> m_next m1"
    using *(1) by (auto simp: ptr_of_len_def ebind_Inr_iff obj_new_def dest!: create_made(1))
  have p: "m_ptrs m' = (m_ptrs m)(k \<mapsto> \<lparr>p_raw = Some (m_next m), p_off = 0, p_len = n\<rparr>)"
    "m_next m \<le> m_next m'"
    using r ptr_zero_same [OF *(2)] by (auto simp: raw_made_def)
  have "tidy (tail_raws m b) m m'" by (rule tidy_set [OF p(2,1)]) simp
  moreover have "tail_raws m' b' \<subseteq> tail_raws m b \<union> {m_next m..}"
    using p(1) *(4) by (auto simp: tail_raws_def split: if_splits)
  ultimately show ?thesis using *(3) by (simp add: careful_def)
qed

lemma copy_nodes_in_ptrs:
  "copy_nodes_in nb pos is m = Inr m' \<Longrightarrow> m_ptrs m' = m_ptrs m \<and> m_next m' = m_next m"
proof (induction "is" arbitrary: pos m)
  case (Cons i js)
  then obtain bs m1 where "ptr_copy_in nb pos bs False m = Inr m1"
    "copy_nodes_in nb (add64 pos (length bs)) js m1 = Inr m'"
    by (auto simp: ebind_Inr_iff)
  then show ?case using Cons.IH
    by (auto simp: ptr_copy_in_def ebind_Inr_iff dest!: raw_write_ptrs)
qed simp

lemma invalidate_crc_ptrs:
  "nodes_invalidate is m = Inr m' \<Longrightarrow> m_ptrs m' = m_ptrs m \<and> m_next m' = m_next m"
  by (induction "is" arbitrary: m) (auto simp: ebind_Inr_iff split: option.splits)

text \<open>Destroying objects cannot move a tail to another raw.\<close>

lemma clear_careful:
  assumes "clear_and_dispose is m = Inr m'"
  shows "careful b m b m'"
proof -
  have "tail_raws m' b \<subseteq> tail_raws m b"
    using clear_and_dispose_old [OF assms] unfolding tail_raws_def by blast
  then show ?thesis using clear_and_dispose_tidy [OF assms] by (auto simp: careful_def)
qed

lemma rebuild_with_careful:
  assumes "rebuild_with nb b m = Inr (b', m')" "tail_cache b = Some nb"
  shows "careful b m b' m' \<and> length (bufs b') \<le> 1"
proof -
  obtain m1 m2 n where 1: "copy_nodes_in nb 0 (bufs b) m = Inr m1" "clear_and_dispose (bufs b) m1 = Inr m2"
    "ptr_length m2 nb = Inr n"
    using assms(1) unfolding rebuild_with_def ebind_Inr_iff by auto
  have c: "careful b m b m2"
    using copy_nodes_in_ptrs [OF 1(1)] careful_trans [OF same_careful clear_careful [OF 1(2)], of m b]
    by simp
  show ?thesis
  proof (cases "n = 0")
    case True
    then have "ptr_destroy nb m2 = Inr m'" "bufs b' = []" "tail_cache b' = None"
      using assms(1) 1 by (auto simp: rebuild_with_def ebind_Inr_iff)
    moreover from this have "tidy {} m2 m'" using ptr_destroy_ptrs [of nb m2 m']
      by (auto intro!: tidy_old split: if_splits)
    ultimately show ?thesis using careful_trans [OF c tidy_careful] by simp
  next
    case False
    then have "nodes_invalidate [nb] m2 = Inr m'" "bufs b' = [nb]" "tail_cache b' = Some nb"
      using assms(1) 1 by (auto simp: rebuild_with_def ebind_Inr_iff invalidate_crc_def Let_def)
    then show ?thesis
      using invalidate_crc_ptrs [of "[nb]" m2 m'] careful_trans [OF c same_careful [of m' m2 b' b]] assms(2)
      by simp
  qed
qed

lemma blist_rebuild_careful:
  assumes "blist_rebuild b m = Inr (b', m')"
  shows "careful b m b' m' \<and> length (bufs b') \<le> 1"
proof (cases "b_len b = 0")
  case True
  then have "clear_and_dispose (bufs b) m = Inr m'" "bufs b' = []" "tail_cache b' = None"
    using assms by (auto simp: blist_rebuild_def ebind_Inr_iff)
  then show ?thesis using tidy_careful [OF clear_and_dispose_tidy] by simp
next
  case False
  then obtain r m1 k m2 where *: "(if b_len b AND (e_page (m_env m) - 1) = 0
      then create_page_aligned (b_len b) m else create_raw (b_len b) m) = Inr (r, m1)"
    "ptr_of_raw r m1 = Inr (k, m2)" "rebuild_with k b m2 = Inr (b', m')"
    using assms unfolding blist_rebuild_def if_not_P [OF False] ebind_Inr_iff
    by (auto simp: ebind_Inr_iff)
  let ?b = "b\<lparr>tail_cache := Some k\<rparr>"
  have made: "raw_made (r, m1) m" using *(1) create_made by (auto split: if_splits)
  have "careful b m ?b m2" by (rule new_node_careful [OF made *(2)]) simp
  moreover have "rebuild_with k ?b m2 = Inr (b', m')" using *(3) by (simp add: rebuild_with_def Let_def cong: if_cong)
  ultimately show ?thesis using rebuild_with_careful [of k ?b m2 b' m'] careful_trans by auto
qed

lemma blist_clear_careful: "blist_clear b m = Inr (b', m') \<Longrightarrow> careful b m b' m' \<and> bufs b' = []"
  by (auto simp: blist_clear_def ebind_Inr_iff blist_new_def
      dest!: clear_and_dispose_tidy [where R = "{}"] intro: tidy_careful)

lemma blist_assign_careful:
  assumes "blist_assign b other m = Inr (b', m')"
  shows "careful b m b' m' \<and> length (bufs b') = length (bufs other)"
proof -
  obtain m1 ks where *: "clear_and_dispose (bufs b) m = Inr m1" "clone_nodes (bufs other) m1 = Inr (ks, m')"
    "bufs b' = ks" "tail_cache b' = None"
    using assms by (auto simp: blist_assign_def blist_copy_def ebind_Inr_iff)
  have "tidy {} m m'"
    using tidy_trans [OF clear_and_dispose_tidy [OF *(1)] clone_nodes_tidy [OF *(2)], of "{}" "{}"] by simp
  then show ?thesis using tidy_careful *(3,4) clone_nodes_length [OF *(2)] by simp
qed

lemma blist_append_list_careful:
  assumes "blist_append_list other b m = Inr (b', m')" "wf_mem m" "wf_nodes m b" "wf_nodes m other"
  shows "careful b m b' m' \<and> length (bufs b') = length (bufs b) + length (bufs other)"
proof -
  obtain ks where *: "clone_nodes (bufs other) m = Inr (ks, m')" "bufs b' = bufs b @ ks"
    "tail_cache b' = tail_cache b"
    using assms(1) by (auto simp: blist_append_list_def ebind_Inr_iff)
  have "\<forall>j \<in> dom (m_ptrs m). m_ptrs m' j = m_ptrs m j"
    using clone_nodes_ok [OF assms(2) wf_nodes_raws [OF assms(4)]] *(1) by auto
  then have "m_ptrs m' c = m_ptrs m c" if "tail_cache b = Some c" for c
    using wf_nodesD(4,6) [OF assms(3)] that by blast
  then have "tail_raws m' b' = tail_raws m b" by (rule tail_raws_same [OF *(3)])
  then show ?thesis using *(2) clone_nodes_tidy [OF *(1)] clone_nodes_length [OF *(1)]
    by (simp add: careful_def)
qed

lemma substr_take_shape:
  "substr_take off len is b m = Inr (b', m') \<Longrightarrow>
    tail_cache b' = tail_cache b \<and> length (bufs b') \<le> length (bufs b) + length is"
proof (induction off len "is" b m rule: substr_take.induct)
  case (2 off len i js b m)
  then show ?case by (auto simp: ebind_Inr_iff Let_def split: if_splits)
qed simp

lemma substr_skip_shape: "substr_skip m off is = Inr (off', cur) \<Longrightarrow> length cur \<le> length is"
  by (induction m off "is" rule: substr_skip.induct) (auto simp: ebind_Inr_iff split: if_splits)

lemma substr_of_careful:
  assumes "substr_of other off len b m = Inr (b', m')" "shares m m'" "m_next m \<le> m_next m'"
  shows "careful b m b' m' \<and> length (bufs b') \<le> length (bufs other)"
proof -
  obtain b1 m1 off' cur where *: "blist_clear b m = Inr (b1, m1)"
    "substr_skip m1 off (bufs other) = Inr (off', cur)" "substr_take off' len cur b1 m1 = Inr (b', m')"
    using assms(1) by (auto simp: substr_of_def ebind_Inr_iff split: if_splits)
  have "tail_cache b1 = None" "bufs b1 = []"
    using *(1) by (auto simp: blist_clear_def ebind_Inr_iff blist_new_def)
  then show ?thesis
    using tidy_careful [OF shares_tidy [OF assms(2,3)]] substr_take_shape [OF *(3)]
      substr_skip_shape [OF *(2)] by simp
qed

text \<open>How many nodes a splice leaves, and how many it hands over.\<close>

definition claim_count :: "blist option \<Rightarrow> nat" where
  "claim_count cl = (case cl of None \<Rightarrow> 0 | Some c \<Rightarrow> length (bufs c))"

lemma claim_range_count:
  "claim_range i off len cl m = Inr (cl', m') \<Longrightarrow> claim_count cl' \<le> claim_count cl + 1"
  using append_range_nodes
  by (fastforce simp: claim_range_def claim_count_def ebind_Inr_iff split: option.splits)

lemma splice_cut_count:
  "splice_cut off len pre is sz cl m = Inr (ns, sz', cl', m') \<Longrightarrow>
    length ns \<le> length pre + length is \<and> claim_count cl' \<le> claim_count cl + length is"
proof (induction off len pre "is" sz cl m rule: splice_cut.induct)
  case (2 off len pre i js tot num cl m)
  consider "len = 0" | n where "len \<noteq> 0" "ptr_length m i = Inr n" "add64 off len < n"
    | n where "len \<noteq> 0" "ptr_length m i = Inr n" "\<not> add64 off len < n"
    using 2(2) by (cases "ptr_length m i") (auto split: if_splits)
  then show ?case
  proof cases
    case (3 n)
    then obtain cl1 m1 m2 where c: "claim_range i off (sub64 n off) cl m = Inr (cl1, m1)"
      "ptr_destroy i m1 = Inr m2"
      "splice_cut 0 (sub64 len (sub64 n off)) pre js (sub64 tot n, sub64 num 1) cl1 m2
        = Inr (ns, sz', cl', m')"
      using 2(2) by (auto simp: ebind_Inr_iff Let_def)
    show ?thesis
      using 2(1) [OF 3 refl c(1) refl c(2,3)] claim_range_count [OF c(1)] by simp
  qed (use 2(2) in \<open>auto simp: ebind_Inr_iff dest!: claim_range_count\<close>)
qed (simp split: if_splits)

lemma splice_skip_count:
  "splice_skip m off pre is = Inr (off', pre', cur) \<Longrightarrow> length pre' + length cur = length pre + length is"
  by (induction m off pre "is" rule: splice_skip.induct) (auto simp: ebind_Inr_iff split: if_splits)

lemma blist_splice_count:
  assumes "blist_splice off len cl b m = Inr (b', cl', m')"
  shows "length (bufs b') \<le> length (bufs b) + 1" "claim_count cl' \<le> claim_count cl + length (bufs b)"
proof -
  have "length (bufs b') \<le> length (bufs b) + 1 \<and> claim_count cl' \<le> claim_count cl + length (bufs b)"
  proof (cases "len = 0")
    case False
    then obtain off' pre cur pre' sz m1 sz' where *: "splice_skip m off [] (bufs b) = Inr (off', pre, cur)"
      "front_part off' pre cur (b_len b) (b_num b) m = Inr (pre', sz, m1)"
      "splice_cut off' len pre' cur sz cl m1 = Inr (bufs b', sz', cl', m')"
      using assms by (auto simp: blist_splice_def ebind_Inr_iff split: if_splits)
    have "length pre' \<le> length pre + 1"
      using *(2) by (auto simp: front_part_def ebind_Inr_iff split: if_splits list.splits)
    then show ?thesis using splice_cut_count [OF *(3)] splice_skip_count [OF *(1)] by simp
  qed (use assms in \<open>simp add: blist_splice_def\<close>)
  then show "length (bufs b') \<le> length (bufs b) + 1" "claim_count cl' \<le> claim_count cl + length (bufs b)"
    by auto
qed

end
