(* ===== verification/List_Failures.thy ===== *)
theory List_Failures
  imports Tail_Care Buffer_Cut_Props
begin

text \<open>
  What \<^verbatim>\<open>substr_of\<close> and \<^verbatim>\<open>splice\<close> do with a range that is not inside the list: they throw
  \<^verbatim>\<open>end_of_buffer\<close> where they check, and else run on to the root of the node list.
\<close>

subsection \<open>An empty range at the end\<close>

lemma substr_skip_all:
  assumes "wf_mem m" "\<forall>i \<in> set is. has_raw m i" "off = length (cat_bytes m is)" "off < two64"
  shows "\<exists>cur pre. substr_skip m off is = Inr (0, cur) \<and> is = pre @ cur \<and> cat_bytes m cur = []"
  using assms(2-)
proof (induction "is" arbitrary: off)
  case (Cons i js)
  let ?x = "node_bytes m i"
  have n: "ptr_length m i = Inr (length ?x)" using ptr_length_bytes [OF assms(1)] Cons.prems(1) by simp
  show ?case
  proof (cases "off = 0")
    case True
    then show ?thesis using Cons.prems(2) by (intro exI [of _ "i # js"] exI [of _ "[]"]) simp
  next
    case False
    have d: "sub64 off (length ?x) = off - length ?x" "length ?x \<le> off"
      using Cons.prems(2,3) by (simp_all add: arith64)
    obtain cur pre where "substr_skip m (off - length ?x) js = Inr (0, cur)" "js = pre @ cur"
      "cat_bytes m cur = []"
      using Cons.IH [of "off - length ?x"] Cons.prems by auto
    then show ?thesis using False n d by (intro exI [of _ cur] exI [of _ "i # pre"]) simp
  qed
qed simp

lemma substr_of_stuck:
  assumes wf: "wf_mem m" "wf_nodes m b" "wf_list m other" "apart b other"
    and lim: "off + len = b_len other" "b_len other < two64"
  shows "substr_of other off len b m = Inl Undefined"
proof (cases "len = 0")
  case False
  then show ?thesis using substr_of_end [OF wf lim(1) _ lim(2)] by blast
next
  case True
  obtain m1 where m1: "blist_clear b m = Inr (blist_new, m1)" "wf_mem m1" "wf_list m1 other"
    using clear_other [OF wf] by blast
  note raws = wf_listD(2) [OF m1(3)] and len = wf_listD(3) [OF m1(3)]
  obtain cur pre where s: "substr_skip m1 off (bufs other) = Inr (0, cur)" "bufs other = pre @ cur"
    "cat_bytes m1 cur = []"
    using substr_skip_all [OF m1(2) raws, of off] lim len True by auto
  have "substr_take 0 len cur blist_new m1 = Inl Undefined"
    by (rule substr_take_end [OF m1(2)]) (use raws s True in \<open>auto simp: two64_def\<close>)
  then show ?thesis using m1(1) s(1) True lim by (simp add: substr_of_def arith64)
qed

subsection \<open>A range that ends beyond the list\<close>

lemma splice_cut_beyond:
  assumes "wf_mem m" "env_ok (m_env m)" "distinct is" "\<forall>i \<in> set is. has_raw m i"
    and "length (cat_bytes m is) < off + len" "off + len < two64" "off < len + off"
    and "is \<noteq> [] \<Longrightarrow> off \<le> length (node_bytes m (hd is))"
    and "claim_ok m cl (length (cat_bytes m is) - off) (length is)" "claim_nodes cl \<inter> set is = {}"
  shows "splice_cut off len pre is sz cl m = Inl Undefined"
  using assms
proof (induction "is" arbitrary: off len sz cl m)
  case Nil
  then show ?case by (cases sz) simp
next
  case (Cons i js)
  let ?x = "node_bytes m i" and ?c = "length (node_bytes m i) - off"
  obtain tot num where sz: "sz = (tot, num)" by (cases sz)
  note wf = Cons.prems(1)
  have i: "has_raw m i" "i \<notin> set js" "distinct js" and oi: "off \<le> length ?x" and len: "len \<noteq> 0"
    and beyond: "length ?x + length (cat_bytes m js) < off + len"
    using Cons.prems(3,4,5,7,8) by auto
  note n = ptr_length_bytes [OF wf i(1)]
  have a: "add64 off len = off + len" "sub64 (length ?x) off = ?c" "sub64 len ?c = len - ?c"
    using oi n(2) beyond Cons.prems(6) by (simp_all add: arith64)
  have "length (cat_bytes m (i # js)) - off = ?c + length (cat_bytes m js)" using oi by simp
  then have ck: "claim_ok m cl (?c + length (cat_bytes m js)) (Suc (length js))" and fit: "off + ?c \<le> length ?x"
    using Cons.prems(9) oi by simp_all
  obtain cl1 m1 m2 where m2: "claim_range i off ?c cl m = Inr (cl1, m1)" "ptr_destroy i m1 = Inr m2"
    "wf_mem m2" "m_env m2 = m_env m" "claim_ok m2 cl1 (length (cat_bytes m js)) (length js)"
    "claim_nodes cl1 \<inter> set js = {}" "cat_bytes m2 js = cat_bytes m js" "\<forall>j \<in> set js. has_raw m2 j"
    using claim_destroy [OF wf Cons.prems(2) i(2) Cons.prems(4) ck Cons.prems(10) fit]
    by (elim exE conjE) (rule that)
  have "splice_cut 0 (len - ?c) pre js sz1 cl1 m2 = Inl Undefined" for sz1
    by (rule Cons.IH) (use Cons.prems(2,6) m2 i(3) beyond oi in simp_all)
  then show ?case using len n(1) a m2(1,2) beyond by (simp add: Let_def sz)
qed

lemma splice_refused:
  "len \<noteq> 0 \<Longrightarrow> b_len b \<le> off \<Longrightarrow> blist_splice off len cl b m = Inl End_of_buffer"
  by (simp add: blist_splice_def)

lemma splice_beyond:
  assumes rd: "ready b m" and lim: "off < b_len b" "b_len b < off + len" "off + len < two64"
    and cl: "claim_ok m cl (b_len b - off) (length (bufs b))" "claim_nodes cl \<inter> set (bufs b) = {}"
  shows "blist_splice off len cl b m = Inl Undefined"
proof -
  note r = readyD [OF rd]
  note raws = wf_nodes_raws [OF r(3)]
  have off: "off < length (cat_bytes m (bufs b))" "off < two64" "len \<noteq> 0"
    using lim r(4,5) by (simp_all add: bl_bytes_cat two64_def)
  obtain off' sk cur where s: "splice_skip m off [] (bufs b) = Inr (off', sk, cur)" "bufs b = sk @ cur"
    "cur \<noteq> []" "off = length (cat_bytes m sk) + off'" "off' \<le> length (node_bytes m (hd cur))"
    using splice_skip_ok [OF r(1) raws off(1,2), of "[]"] by auto
  have rc: "\<forall>i \<in> set cur. has_raw m i" using raws s(2) by simp
  have lims: "b_len b + off' < two64" "b_num b + 1 < two64" "b_len b - off = length (cat_bytes m cur) - off'"
    "length (cat_bytes m cur) < off' + len" "off' + len < two64"
    using lim r(4-6) s(2,4) wf_nodesD(3) [OF r(3)] by (simp_all add: bl_bytes_cat two64_def)
  obtain ks m1 where f: "front_part off' sk cur (b_len b) (b_num b) m =
      Inr (sk @ ks, (b_len b + off', b_num b + length ks), m1)" "extends m m1 ks"
    using front_part_ok [OF r(1) rc s(3,5) lims(1,2), of sk] by blast
  note cx = claim_extends [OF f(2) cl(1)] and ec = extends_cat [OF f(2) rc]
  have hd1: "off' \<le> length (node_bytes m1 (hd cur))"
    using s(3,5) extends_cat(1) [OF f(2), of "[hd cur]"] rc by simp
  have m1: "wf_mem m1" "env_ok (m_env m1)" using f(2) r(2) keepsD(3) unfolding extends_def by metis+
  have "claim_ok m1 cl (length (cat_bytes m1 cur) - off') (length cur)"
    using cx(1) s(2) lims(3) ec(1) by (auto simp: claim_ok_def split: option.splits)
  moreover have "distinct cur" "claim_nodes cl \<inter> set cur = {}"
    using wf_nodesD(1) [OF r(3)] cl(2) s(2) by auto
  ultimately have "splice_cut off' len pre cur sz cl m1 = Inl Undefined" for pre sz
    using splice_cut_beyond [OF m1 _ ec(2), of off' len cl pre sz] lims(4,5) ec(1) hd1 off(3) by simp
  then show ?thesis using off(3) lim(1) s(1) f(1) by (simp add: blist_splice_def)
qed

end
