(* ===== verification/List_Programs.thy ===== *)
theory List_Programs
  imports List_Failures Buffer_List_Props
begin

text \<open>
  Programs over many lists in one store. Lists share raws after a copy, an assignment, a
  \<^verbatim>\<open>substr_of\<close> or a \<^verbatim>\<open>splice\<close>, and each appends in place behind its own cached tail; still a
  program over them computes what the same program computes over independent sequences of
  bytes. The lists are numbered; a program is a list of operations on numbers.
\<close>

subsection \<open>Programs\<close>

type_synonym lists = "nat \<Rightarrow> blist"

text \<open>The first number is the list that is changed, the second the one that is read or taken.\<close>

datatype list_op =
    Append nat bytes
  | Append_zero nat nat
  | Append_list nat nat
  | Assign nat nat
  | Assign_move nat nat
  | Claim_append nat nat
  | Clear nat
  | Swap nat nat
  | Substr_of nat nat nat nat
  | Splice nat nat nat "nat option"
  | Reserve nat nat
  | Rebuild nat

definition put :: "nat \<Rightarrow> exn + blist \<times> mem \<Rightarrow> lists \<Rightarrow> exn + lists \<times> mem" where
  "put a r L = ebind r (\<lambda>(b, m). Inr (L(a := b), m))"

text \<open>
  A list copied onto itself is left alone. Moved onto itself it is emptied: the low level
  list guards against that case, but the \<^verbatim>\<open>clear\<close> of the moved-from list that follows does not.
\<close>

fun list_step :: "list_op \<Rightarrow> lists \<times> mem \<Rightarrow> exn + lists \<times> mem" where
  "list_step (Append a data) (L, m) = put a (blist_append data (L a) m) L"
| "list_step (Append_zero a n) (L, m) = put a (blist_append_zero n (L a) m) L"
| "list_step (Append_list a c) (L, m) = put a (blist_append_list (L c) (L a) m) L"
| "list_step (Assign a c) (L, m) =
     (if a = c then Inr (L, m) else put a (blist_assign (L a) (L c) m) L)"
| "list_step (Assign_move a c) (L, m) =
     (if a = c then put a (blist_assign_move_self (L a) m) L
      else ebind (blist_assign_move (L a) (L c) m) (\<lambda>((x, y), m). Inr (L(a := x, c := y), m)))"
| "list_step (Claim_append a c) (L, m) =
     (let (x, y) = claim_append (L c) (L a) in Inr (L(a := x, c := y), m))"
| "list_step (Clear a) (L, m) = put a (blist_clear (L a) m) L"
| "list_step (Swap a c) (L, m) =
     (let (x, y) = blist_swap (L a) (L c) in Inr (L(a := x, c := y), m))"
| "list_step (Substr_of a c off len) (L, m) = put a (substr_of (L c) off len (L a) m) L"
| "list_step (Splice a off len None) (L, m) =
     ebind (blist_splice off len None (L a) m) (\<lambda>(b, _, m). Inr (L(a := b), m))"
| "list_step (Splice a off len (Some c)) (L, m) =
     ebind (blist_splice off len (Some (L c)) (L a) m) (\<lambda>(b, cl, m).
     ebind (of_option Undefined cl) (\<lambda>x. Inr (L(a := b, c := x), m)))"
| "list_step (Reserve a n) (L, m) = put a (blist_reserve n (L a) m) L"
| "list_step (Rebuild a) (L, m) = put a (blist_rebuild (L a) m) L"

fun list_run :: "list_op list \<Rightarrow> lists \<times> mem \<Rightarrow> exn + lists \<times> mem" where
  "list_run [] s = Inr s"
| "list_run (p # ps) s = ebind (list_step p s) (list_run ps)"

subsection \<open>The same programs over sequences\<close>

text \<open>
  A sequence comes with a bound of its bytes and nodes together, which has to stay below
  \<open>2 ^ 61\<close>: that far, no length in the code wraps. \<open>seq_step\<close> is an operation that succeeds:
  a range has to end before the other list's end for \<^verbatim>\<open>substr_of\<close>, and not behind it for
  \<^verbatim>\<open>splice\<close>; appending or claiming needs two different lists.
\<close>

type_synonym seqs = "nat \<Rightarrow> bytes \<times> nat"

definition small :: "nat \<Rightarrow> bool" where
  "small n \<longleftrightarrow> n < 2 ^ 61"

definition set_seq :: "nat \<Rightarrow> bytes \<Rightarrow> nat \<Rightarrow> seqs \<Rightarrow> seqs option" where
  "set_seq a bs w A = (if small w then Some (A(a := (bs, w))) else None)"

fun seq_step :: "list_op \<Rightarrow> seqs \<Rightarrow> seqs option" where
  "seq_step (Append a data) A = set_seq a (fst (A a) @ data) (snd (A a) + length data + 2) A"
| "seq_step (Append_zero a n) A = set_seq a (fst (A a) @ replicate n 0) (snd (A a) + n + 2) A"
| "seq_step (Append_list a c) A =
     (if a = c then None else set_seq a (fst (A a) @ fst (A c)) (snd (A a) + snd (A c)) A)"
| "seq_step (Assign a c) A = Some (A(a := A c))"
| "seq_step (Assign_move a c) A = Some (A(a := A c, c := ([], 0)))"
| "seq_step (Claim_append a c) A =
     (if a = c then None
      else set_seq a (fst (A a) @ fst (A c)) (snd (A a) + snd (A c)) (A(c := ([], 0))))"
| "seq_step (Clear a) A = Some (A(a := ([], 0)))"
| "seq_step (Swap a c) A = Some (A(a := A c, c := A a))"
| "seq_step (Substr_of a c off len) A =
     (if a = c \<or> length (fst (A c)) \<le> off + len then None
      else Some (A(a := (take len (drop off (fst (A c))), snd (A c)))))"
| "seq_step (Splice a off len cl) A =
     (let bs = fst (A a); w = snd (A a) in
      if len = 0 then Some A
      else if length bs < off + len then None
      else case cl of
          None \<Rightarrow> set_seq a (take off bs @ drop (off + len) bs) (w + 1) A
        | Some c \<Rightarrow>
            if a = c then None
            else Option.bind (set_seq c (fst (A c) @ take len (drop off bs)) (snd (A c) + w) A)
                   (set_seq a (take off bs @ drop (off + len) bs) (w + 1)))"
| "seq_step (Reserve a n) A =
     (if small n then set_seq a (fst (A a)) (snd (A a) + 1) A else None)"
| "seq_step (Rebuild a) A = set_seq a (fst (A a)) (snd (A a) + 1) A"

text \<open>
  What an operation fails with. \<open>Undefined\<close> is a loop that runs on to the root of the node list:
  \<^verbatim>\<open>substr_of\<close> does so when the range ends with the list, \<^verbatim>\<open>splice\<close> when it starts in the list
  and ends behind it.
\<close>

fun seq_fail :: "list_op \<Rightarrow> seqs \<Rightarrow> exn option" where
  "seq_fail (Substr_of a c off len) A =
     (let n = length (fst (A c)) in
      if two64 \<le> off + len then None
      else if n < off + len then Some End_of_buffer
      else if n = off + len \<and> a \<noteq> c then Some Undefined
      else None)"
| "seq_fail (Splice a off len cl) A =
     (let n = length (fst (A a)) in
      if len = 0 then None
      else if n \<le> off then Some End_of_buffer
      else if n < off + len \<and> off + len < two64 then
        (case cl of
           None \<Rightarrow> Some Undefined
         | Some c \<Rightarrow> if a \<noteq> c \<and> small (snd (A c) + snd (A a)) then Some Undefined else None)
      else None)"
| "seq_fail _ A = None"

text \<open>
  A whole program: where it stops, with the exception, or the sequences it ends with. \<open>None\<close>
  is a program outside the range of this specification.
\<close>

fun seq_exec :: "list_op list \<Rightarrow> seqs \<Rightarrow> (exn + seqs) option" where
  "seq_exec [] A = Some (Inr A)"
| "seq_exec (p # ps) A =
     (case seq_fail p A of
        Some e \<Rightarrow> Some (Inl e)
      | None \<Rightarrow> Option.bind (seq_step p A) (seq_exec ps))"

subsection \<open>The invariant\<close>

definition shown :: "mem \<Rightarrow> blist \<Rightarrow> bytes \<times> nat \<Rightarrow> bool" where
  "shown m b s \<longleftrightarrow> wf_list m b \<and> bl_bytes m b = fst s \<and>
     length (fst s) + length (bufs b) \<le> snd s \<and> small (snd s)"

text \<open>Two lists share no node, and do not write behind the same raw's windows.\<close>

definition strangers :: "mem \<Rightarrow> blist \<Rightarrow> blist \<Rightarrow> bool" where
  "strangers m b c \<longleftrightarrow> apart b c \<and> tail_raws m b \<inter> tail_raws m c = {}"

definition family :: "seqs \<Rightarrow> lists \<Rightarrow> mem \<Rightarrow> bool" where
  "family A L m \<longleftrightarrow> wf_mem m \<and> env_ok (m_env m) \<and> (\<forall>a. shown m (L a) (A a)) \<and>
     (\<forall>a c. a \<noteq> c \<longrightarrow> strangers m (L a) (L c)) \<and>
     dom (m_ptrs m) = (\<Union>a. set (bufs (L a)))"

lemma familyD:
  assumes "family A L m"
  shows "wf_mem m" "env_ok (m_env m)" "shown m (L a) (A a)"
    "a \<noteq> c \<Longrightarrow> strangers m (L a) (L c)" "dom (m_ptrs m) = (\<Union>a. set (bufs (L a)))"
  using assms by (auto simp: family_def)

lemma shownD:
  assumes "shown m b s"
  shows "wf_list m b" "wf_nodes m b" "bl_bytes m b = fst s" "b_len b = length (fst s)"
    "length (fst s) + length (bufs b) \<le> snd s" "small (snd s)"
  using assms by (auto simp: shown_def wf_list_def)

lemma family_ready:
  assumes "family A L m"
  shows "ready (L a) m" "b_len (L a) < 2 ^ 62" "length (bufs (L a)) < 2 ^ 62"
  using familyD(1,2) [OF assms] shownD [OF familyD(3) [OF assms, of a]]
  by (auto simp: ready_def small_def)

lemma strangers_sym: "strangers m b c \<Longrightarrow> strangers m c b"
  unfolding strangers_def apart_def by blast

lemma blist_new_nodes [simp]: "bufs blist_new = []" "tail_cache blist_new = None"
  by (simp_all add: blist_new_def)

lemma family_new:
  assumes "env_ok e"
  shows "family (\<lambda>_. ([], 0)) (\<lambda>_. blist_new) (empty_mem e)"
  unfolding family_def
proof (intro conjI allI impI)
  show "env_ok (m_env (empty_mem e))" using assms by (simp add: empty_mem_def)
  show "shown (empty_mem e) blist_new ([], 0)"
    by (simp add: shown_def small_def)
  show "strangers (empty_mem e) blist_new blist_new"
    by (simp add: strangers_def apart_def tail_raws_def blist_new_def)
  show "dom (m_ptrs (empty_mem e)) = (\<Union>a :: nat. set (bufs blist_new))"
    by (simp add: empty_mem_def blist_new_def)
qed simp

subsection \<open>Lists that stand by\<close>

text \<open>An operation that keeps a list's nodes and does not reach behind its tail keeps the list.\<close>

lemma stands_by:
  assumes "wf_mem m" "shown m c s" "keeps (set (bufs c)) m m'" "tidy R m m'" "R \<inter> tail_raws m c = {}"
  shows "shown m' c s" "tail_raws m' c = tail_raws m c"
proof -
  note wf = shownD(2) [OF assms(2)]
  show t: "tail_raws m' c = tail_raws m c"
    by (rule tail_raws_same) (use keepsD(1) [OF assms(3)] wf_nodesD(4) [OF wf] in auto)
  have free: "tail_free m' k" if k: "tail_cache c = Some k" for k
  proof -
    have kin: "k \<in> set (bufs c)" by (rule wf_nodesD(4) [OF wf k])
    obtain p r where p: "m_ptrs m k = Some p" "p_raw p = Some r"
      using wf_nodesD(2) [OF wf kin] unfolding has_raw_def by blast
    have r: "r \<in> tail_raws m c" using k p by (auto simp: tail_raws_def)
    show ?thesis
      by (rule tidy_tail_free [OF assms(4) wf_nodesD(5) [OF wf k] keepsD(1) [OF assms(3) kin] p])
        (use r assms(5) tail_raws_below [OF assms(1), of c] in auto)
  qed
  have bs: "bl_bytes m' c = bl_bytes m c" by (rule bl_bytes_keeps [OF assms(3)]) simp
  have "wf_nodes m' c"
    using wf free has_raw_keeps [OF assms(3)] by (auto simp: wf_nodes_def)
  then show "shown m' c s" using shownD [OF assms(2)] bs by (simp add: shown_def wf_list_def)
qed

subsection \<open>One list changes\<close>

lemma disjoint_below: "X \<subseteq> D \<Longrightarrow> Y \<inter> X = {} \<Longrightarrow> X \<subseteq> D - Y"
  by auto

lemma disjoint_grown: "Y \<subseteq> X \<union> N \<Longrightarrow> X \<inter> Z = {} \<Longrightarrow> Z \<inter> N = {} \<Longrightarrow> Y \<inter> Z = {}"
  by auto

lemma nodes_upd:
  "(\<Union>x. set (bufs ((L(a := b)) x))) = set (bufs b) \<union> (\<Union>x \<in> - {a}. set (bufs (L x)))"
  by (auto split: if_splits)

lemma family_becomes:
  assumes fam: "family A L m" and b: "becomes (L a) m bs b m'" and c: "careful (L a) m b m'"
    and w: "length bs + length (bufs b) \<le> w" "small w"
  shows "family (A(a := (bs, w))) (L(a := b)) m'"
  unfolding family_def
proof (intro conjI allI impI)
  note f = familyD [OF fam]
  have t: "turns (L a) m bs b m'" using b by (simp add: becomes_def)
  note t = turnsD [OF t]
  have td: "tidy (tail_raws m (L a)) m m'" and tr: "tail_raws m' b \<subseteq> tail_raws m (L a) \<union> {m_next m..}"
    using c by (auto simp: careful_def)
  have st: "strangers m (L a) (L x)" if "x \<noteq> a" for x using f(4) that by metis
  have keep: "keeps (set (bufs (L x))) m m'" if "x \<noteq> a" for x
    by (rule keeps_apart [OF t(5)]) (use st [OF that] shownD(2) [OF f(3)] in \<open>auto simp: strangers_def\<close>)
  have side: "shown m' (L x) (A x)" "tail_raws m' (L x) = tail_raws m (L x)" if "x \<noteq> a" for x
    using stands_by [OF f(1) f(3) keep [OF that] td] st [OF that] by (auto simp: strangers_def)
  have own: "set (bufs (L x)) \<subseteq> others m' b" if "x \<noteq> a" for x
  proof -
    have "set (bufs (L x)) \<subseteq> dom (m_ptrs m)" by (rule wf_nodesD(6) [OF shownD(2) [OF f(3)]])
    moreover have "set (bufs (L a)) \<inter> set (bufs (L x)) = {}"
      using st [OF that] by (simp add: strangers_def apart_def)
    ultimately have "set (bufs (L x)) \<subseteq> dom (m_ptrs m) - set (bufs (L a))" by (rule disjoint_below)
    then show ?thesis unfolding t(6) unfolding others_def .
  qed
  show "wf_mem m'" by (rule t(1))
  show "env_ok (m_env m')" using f(2) t(4) by simp
  show "shown m' ((L(a := b)) x) ((A(a := (bs, w))) x)" for x
    using side b w t(2,3) by (cases "x = a") (auto simp: shown_def wf_list_def becomes_def)
  have new: "strangers m' b (L x)" if "x \<noteq> a" for x
  proof -
    have "tail_raws m (L x) \<inter> {m_next m..} = {}" using tail_raws_below [OF f(1), of "L x"] by auto
    moreover have "tail_raws m (L a) \<inter> tail_raws m (L x) = {}" using st [OF that] by (simp add: strangers_def)
    ultimately have "tail_raws m' b \<inter> tail_raws m' (L x) = {}"
      unfolding side(2) [OF that] by (intro disjoint_grown [OF tr])
    moreover have "set (bufs b) \<inter> set (bufs (L x)) = {}"
      using own [OF that] by (auto simp: others_def)
    ultimately show ?thesis by (simp add: strangers_def apart_def)
  qed
  show "strangers m' ((L(a := b)) x) ((L(a := b)) y)" if "x \<noteq> y" for x y
  proof (cases "x = a \<or> y = a")
    case True
    then show ?thesis using new that strangers_sym by auto
  next
    case False
    then show ?thesis using f(4) [OF that] side by (simp add: strangers_def)
  qed
  have "dom (m_ptrs m') = others m' b \<union> set (bufs b)"
    using wf_nodesD(6) [OF t(2)] by (auto simp: others_def)
  moreover have "others m' b \<subseteq> (\<Union>x \<in> - {a}. set (bufs (L x)))"
    unfolding t(6) unfolding others_def f(5) by auto
  then have "others m' b = (\<Union>x \<in> - {a}. set (bufs (L x)))" using own by auto
  ultimately show "dom (m_ptrs m') = (\<Union>x. set (bufs ((L(a := b)) x)))"
    unfolding nodes_upd by auto
qed

subsection \<open>Two lists change\<close>

lemma nodes_upd2:
  "a \<noteq> c \<Longrightarrow> (\<Union>x. set (bufs ((L(a := b, c := d)) x)))
    = set (bufs b) \<union> set (bufs d) \<union> (\<Union>x \<in> - {a, c}. set (bufs (L x)))"
  by (auto split: if_splits)

lemma family_two:
  assumes fam: "family A L m" and ac: "a \<noteq> c" and wf: "wf_mem m'" and env: "m_env m' = m_env m"
    and sh: "shown m' b s" "shown m' d t" and dis: "set (bufs b) \<inter> set (bufs d) = {}"
    and keep: "keeps (others m (L a) - set (bufs (L c))) m m'" and td: "tidy {} m m'"
    and oth: "others m' b - set (bufs d) = others m (L a) - set (bufs (L c))"
    and tr: "tail_raws m' b \<subseteq> tail_raws m (L a)" "tail_raws m' d \<subseteq> tail_raws m (L c)"
  shows "family (A(a := s, c := t)) (L(a := b, c := d)) m'"
  unfolding family_def
proof (intro conjI allI impI)
  note f = familyD [OF fam]
  let ?L = "L(a := b, c := d)"
  have st: "strangers m (L a) (L x)" "strangers m (L c) (L x)" if "x \<noteq> a" "x \<noteq> c" for x
    using f(4) that by metis+
  have out: "set (bufs (L x)) \<subseteq> others m (L a) - set (bufs (L c))" if "x \<noteq> a" "x \<noteq> c" for x
  proof -
    have "set (bufs (L x)) \<subseteq> dom (m_ptrs m)" by (rule wf_nodesD(6) [OF shownD(2) [OF f(3)]])
    moreover have "set (bufs (L a)) \<inter> set (bufs (L x)) = {}" "set (bufs (L c)) \<inter> set (bufs (L x)) = {}"
      using st [OF that] by (simp_all add: strangers_def apart_def)
    ultimately show ?thesis unfolding others_def by (intro disjoint_below)
  qed
  have side: "shown m' (L x) (A x)" "tail_raws m' (L x) = tail_raws m (L x)" if "x \<noteq> a" "x \<noteq> c" for x
    using stands_by [OF f(1) f(3) keeps_mono [OF keep out [OF that]] td] by auto
  show "wf_mem m'" by (rule wf)
  show "env_ok (m_env m')" using f(2) env by simp
  show "shown m' (?L x) ((A(a := s, c := t)) x)" for x
    using sh side by (cases "x = a"; cases "x = c") auto
  have new: "strangers m' b (L x)" "strangers m' d (L x)" if "x \<noteq> a" "x \<noteq> c" for x
  proof -
    have "set (bufs (L x)) \<subseteq> others m' b - set (bufs d)" using out [OF that] oth by simp
    then show "strangers m' b (L x)" "strangers m' d (L x)"
      using st [OF that] tr side(2) [OF that]
      by (auto simp: strangers_def apart_def others_def)
  qed
  have pair: "strangers m' b d"
    using f(4) [OF ac] tr dis by (auto simp: strangers_def apart_def)
  have rest: "strangers m' (L x) (L y)" if "x \<noteq> y" "x \<noteq> a" "x \<noteq> c" "y \<noteq> a" "y \<noteq> c" for x y
    using f(4) [OF that(1)] side(2) [OF that(2,3)] side(2) [OF that(4,5)] by (simp add: strangers_def)
  note all = rest new new [THEN strangers_sym] pair strangers_sym [OF pair]
  show "strangers m' (?L x) (?L y)" if "x \<noteq> y" for x y
    using that by (cases "x = a"; cases "x = c"; cases "y = a"; cases "y = c") (simp_all add: all)
  have "dom (m_ptrs m') = (others m' b - set (bufs d)) \<union> set (bufs b) \<union> set (bufs d)"
    using wf_nodesD(6) [OF shownD(2) [OF sh(1)]] wf_nodesD(6) [OF shownD(2) [OF sh(2)]]
    by (auto simp: others_def)
  moreover have "others m (L a) - set (bufs (L c)) \<subseteq> (\<Union>x \<in> - {a, c}. set (bufs (L x)))"
    unfolding others_def f(5) by auto
  then have "others m (L a) - set (bufs (L c)) = (\<Union>x \<in> - {a, c}. set (bufs (L x)))" using out by auto
  ultimately show "dom (m_ptrs m') = (\<Union>x. set (bufs (?L x)))"
    unfolding nodes_upd2 [OF ac] oth by auto
qed

lemma family_swap:
  assumes "family A L m"
  shows "family (A(a := A c, c := A a)) (L(a := L c, c := L a)) m"
proof -
  let ?p = "\<lambda>x. if x = a then c else if x = c then a else x"
  have inv: "?p (?p x) = x" for x by simp
  have p: "inj ?p" by (rule injI) (metis inv)
  have q: "range ?p = UNIV" by (rule surjI [of ?p ?p]) (rule inv)
  have "(\<Union>x. set (bufs (L (?p x)))) = (\<Union>x \<in> ?p ` UNIV. set (bufs (L x)))" by blast
  then have u: "(\<Union>x. set (bufs (L (?p x)))) = (\<Union>x. set (bufs (L x)))" unfolding q .
  have "family (\<lambda>x. A (?p x)) (\<lambda>x. L (?p x)) m"
    unfolding family_def u
  proof (intro conjI allI impI)
    show "strangers m (L (?p x)) (L (?p y))" if "x \<noteq> y" for x y
      by (rule familyD(4) [OF assms]) (use that injD [OF p, of x y] in blast)
  qed (rule familyD [OF assms])+
  moreover have "(\<lambda>x. A (?p x)) = A(a := A c, c := A a)" "(\<lambda>x. L (?p x)) = L(a := L c, c := L a)"
    by auto
  ultimately show ?thesis by simp
qed

subsection \<open>Every operation keeps the family\<close>

definition goes :: "exn + lists \<times> mem \<Rightarrow> seqs \<Rightarrow> bool" where
  "goes r A \<longleftrightarrow> (\<exists>L m. r = Inr (L, m) \<and> family A L m)"

lemma goesI: "r = Inr (L, m) \<Longrightarrow> family A L m \<Longrightarrow> goes r A"
  by (auto simp: goes_def)

lemma put_goes:
  assumes "family A L m" "r = Inr (b, m')" "becomes (L a) m bs b m'" "careful (L a) m b m'"
    "length bs + length (bufs b) \<le> w" "small w"
  shows "goes (put a r L) (A(a := (bs, w)))"
  by (rule goesI [OF _ family_becomes [OF assms(1,3-6)]]) (simp add: put_def assms(2))

lemma set_seqD: "set_seq a bs w A = Some A' \<Longrightarrow> small w \<and> A' = A(a := (bs, w))"
  by (simp add: set_seq_def split: if_splits)

lemma small_less: "small n \<Longrightarrow> k \<le> n \<Longrightarrow> k < 2 ^ 62"
  by (simp add: small_def)

lemma family_load: "family A L m \<Longrightarrow> length (fst (A a)) + length (bufs (L a)) \<le> snd (A a)"
  using familyD(3) shownD(5) by metis

lemma family_bytes: "family A L m \<Longrightarrow> bl_bytes m (L a) = fst (A a)"
  using familyD(3) shownD(3) by metis

lemma family_wf: "family A L m \<Longrightarrow> wf_list m (L a)" "family A L m \<Longrightarrow> wf_nodes m (L a)"
  using familyD(3) shownD(1,2) by metis+

lemma family_apart: "family A L m \<Longrightarrow> a \<noteq> c \<Longrightarrow> apart (L a) (L c)"
  using familyD(4) by (auto simp: strangers_def)

lemma append_goes:
  assumes fam: "family A L m" and w: "small (snd (A a) + length data + 2)"
  shows "goes (put a (blist_append data (L a) m) L) (A(a := (fst (A a) @ data, snd (A a) + length data + 2)))"
proof -
  obtain b m' where b: "blist_append data (L a) m = Inr (b, m')"
    "becomes (L a) m (bl_bytes m (L a) @ data) b m'"
    using blist_append_ok [OF family_ready(1) [OF fam, of a] small_less [OF w, of "length data"]] by auto
  show ?thesis
    by (rule put_goes [OF fam b [unfolded family_bytes [OF fam]] _ _ w])
      (use blist_append_careful [OF b(1)] family_load [OF fam, of a] in auto)
qed

lemma append_zero_goes:
  assumes fam: "family A L m" and w: "small (snd (A a) + n + 2)"
  shows "goes (put a (blist_append_zero n (L a) m) L)
    (A(a := (fst (A a) @ replicate n 0, snd (A a) + n + 2)))"
proof -
  obtain b m' where b: "blist_append_zero n (L a) m = Inr (b, m')"
    "becomes (L a) m (bl_bytes m (L a) @ replicate n 0) b m'"
    using blist_append_zero_ok [OF family_ready(1) [OF fam, of a] small_less [OF w, of n]] by auto
  show ?thesis
    by (rule put_goes [OF fam b [unfolded family_bytes [OF fam]] _ _ w])
      (use blist_append_zero_careful [OF b(1)] family_load [OF fam, of a] in auto)
qed

lemma append_list_goes:
  assumes fam: "family A L m" and ac: "a \<noteq> c" and w: "small (snd (A a) + snd (A c))"
  shows "goes (put a (blist_append_list (L c) (L a) m) L)
    (A(a := (fst (A a) @ fst (A c), snd (A a) + snd (A c))))"
proof -
  note r = family_ready [OF fam]
  obtain b m' where b: "blist_append_list (L c) (L a) m = Inr (b, m')"
    "becomes (L a) m (bl_bytes m (L a) @ bl_bytes m (L c)) b m'"
    using blist_append_list_ok [OF r(1) family_wf(1) [OF fam] family_apart [OF fam ac] r(2,3)] by blast
  show ?thesis
    by (rule put_goes [OF fam b [unfolded family_bytes [OF fam]] _ _ w])
      (use blist_append_list_careful [OF b(1) familyD(1) [OF fam] family_wf(2) [OF fam] family_wf(2) [OF fam]]
        family_load [OF fam, of a] family_load [OF fam, of c] in auto)
qed

lemma assign_goes:
  assumes fam: "family A L m" and ac: "a \<noteq> c"
  shows "goes (put a (blist_assign (L a) (L c) m) L) (A(a := A c))"
proof -
  obtain b m' where b: "blist_assign (L a) (L c) m = Inr (b, m')"
    "becomes (L a) m (bl_bytes m (L c)) b m'"
    using blist_assign_ok [OF familyD(1) [OF fam] family_wf(2) [OF fam] family_wf(1) [OF fam]
        family_apart [OF fam ac]] by blast
  have "goes (put a (blist_assign (L a) (L c) m) L) (A(a := (fst (A c), snd (A c))))"
    by (rule put_goes [OF fam b [unfolded family_bytes [OF fam]]])
      (use blist_assign_careful [OF b(1)] family_load [OF fam, of c] shownD(6) [OF familyD(3) [OF fam]] in auto)
  then show ?thesis by simp
qed

lemma clear_family:
  assumes fam: "family A L m"
  obtains m' where "clear_and_dispose (bufs (L a)) m = Inr m'" "blist_clear (L a) m = Inr (blist_new, m')"
    "family (A(a := ([], 0))) (L(a := blist_new)) m'"
proof -
  obtain m' where m': "blist_clear (L a) m = Inr (blist_new, m')" "becomes (L a) m [] blist_new m'"
    "clear_and_dispose (bufs (L a)) m = Inr m'"
    using blist_clear_ok [OF familyD(1) [OF fam] family_wf(2) [OF fam]] by blast
  have "family (A(a := ([], 0))) (L(a := blist_new)) m'"
    by (rule family_becomes [OF fam m'(2)])
      (use blist_clear_careful [OF m'(1)] in \<open>simp_all add: small_def\<close>)
  then show ?thesis using that m' by blast
qed

lemma clear_goes:
  assumes "family A L m"
  shows "goes (put a (blist_clear (L a) m) L) (A(a := ([], 0)))"
  by (rule clear_family [OF assms, of a]) (auto intro: goesI simp: put_def)

lemma swap_goes:
  assumes "family A L m"
  shows "goes (list_step (Swap a c) (L, m)) (A(a := A c, c := A a))"
  by (rule goesI [OF _ family_swap [OF assms]]) (simp add: blist_swap_def)

lemma assign_move_goes:
  assumes "family A L m"
  shows "goes (list_step (Assign_move a c) (L, m)) (A(a := A c, c := ([], 0)))"
proof (cases "a = c")
  case True
  then show ?thesis using clear_goes [OF assms] by (simp add: blist_assign_move_self_def)
next
  case False
  obtain m' where m': "clear_and_dispose (bufs (L a)) m = Inr m'"
    "family (A(a := ([], 0))) (L(a := blist_new)) m'"
    by (rule clear_family [OF assms, of a])
  have "list_step (Assign_move a c) (L, m) = Inr (L(a := L c, c := blist_new), m')"
    using False m'(1) by (simp add: blist_assign_move_def)
  moreover have "family (A(a := A c, c := ([], 0))) (L(a := L c, c := blist_new)) m'"
    using family_swap [OF m'(2), of a c] False by simp
  ultimately show ?thesis by (rule goesI)
qed

lemma claim_goes:
  assumes fam: "family A L m" and ac: "a \<noteq> c" and w: "small (snd (A a) + snd (A c))"
  shows "goes (list_step (Claim_append a c) (L, m))
    (A(a := (fst (A a) @ fst (A c), snd (A a) + snd (A c)), c := ([], 0)))"
proof -
  note r = family_ready [OF fam]
  let ?b = "fst (claim_append (L c) (L a))"
  note c = claim_append_ok [OF r(1) family_wf(1) [OF fam] family_apart [OF fam ac] r(2,3)]
  have b: "bufs ?b = bufs (L a) @ bufs (L c)" "tail_cache ?b = tail_cache (L a)"
    by (simp_all add: claim_append_def)
  have "tail_raws m ?b = tail_raws m (L a)" by (rule tail_raws_same) (simp_all add: b(2))
  then have "family (A(a := (fst (A a) @ fst (A c), snd (A a) + snd (A c)), c := ([], 0)))
      (L(a := ?b, c := blist_new)) m"
    using c w b(1) familyD(1) [OF fam] family_bytes [OF fam]
      family_load [OF fam, of a] family_load [OF fam, of c]
    by (intro family_two [OF fam ac])
      (auto simp: shown_def small_def tail_raws_none keeps_def others_def)
  moreover have "list_step (Claim_append a c) (L, m) = Inr (L(a := ?b, c := blist_new), m)"
    using c(3) by (simp add: prod.case_eq_if)
  ultimately show ?thesis by (rule goesI [rotated])
qed

lemma substr_goes:
  assumes fam: "family A L m" and ac: "a \<noteq> c" and lim: "off + len < length (fst (A c))"
  shows "goes (put a (substr_of (L c) off len (L a) m) L)
    (A(a := (take len (drop off (fst (A c))), snd (A c))))"
proof -
  have n: "b_len (L c) = length (fst (A c))" "b_len (L c) < two64" "length (bufs (L c)) < two64"
    using shownD(4) [OF familyD(3) [OF fam]] family_ready(2,3) [OF fam, of c] by (simp_all add: two64_def)
  have lim': "off + len < b_len (L c)" using lim n(1) by simp
  obtain b m' where b: "substr_of (L c) off len (L a) m = Inr (b, m')"
    "becomes (L a) m (seg off len (bl_bytes m (L c))) b m'" and sh: "shares m m'"
    using substr_of_ok [OF familyD(1) [OF fam] family_wf(2) [OF fam] family_wf(1) [OF fam]
        family_apart [OF fam ac] lim' n(2,3)] by blast
  have "m_next m \<le> m_next m'" using b(2) by (simp add: becomes_def turns_def keeps_def)
  note sc = substr_of_careful [OF b(1) sh this]
  show ?thesis
    by (rule put_goes [OF fam b(1) b(2) [unfolded family_bytes [OF fam] seg_def]])
      (use sc family_load [OF fam, of c] shownD(6) [OF familyD(3) [OF fam]] in auto)
qed

lemma reserve_goes:
  assumes fam: "family A L m" and n: "small n" and w: "small (snd (A a) + 1)"
  shows "goes (put a (blist_reserve n (L a) m) L) (A(a := (fst (A a), snd (A a) + 1)))"
proof -
  obtain b m' where b: "blist_reserve n (L a) m = Inr (b, m')" "becomes (L a) m (bl_bytes m (L a)) b m'"
    using blist_reserve_ok [OF family_ready(1) [OF fam, of a] small_less [OF n order_refl]] by blast
  show ?thesis
    by (rule put_goes [OF fam b [unfolded family_bytes [OF fam]] _ _ w])
      (use blist_reserve_careful [OF b(1)] family_load [OF fam, of a] in auto)
qed

lemma rebuild_goes:
  assumes fam: "family A L m" and w: "small (snd (A a) + 1)"
  shows "goes (put a (blist_rebuild (L a) m) L) (A(a := (fst (A a), snd (A a) + 1)))"
proof -
  obtain b m' where b: "blist_rebuild (L a) m = Inr (b, m')" "becomes (L a) m (bl_bytes m (L a)) b m'"
    using blist_rebuild_ok [OF family_ready(1) [OF fam, of a]] by blast
  show ?thesis
    by (rule put_goes [OF fam b [unfolded family_bytes [OF fam]] _ _ w])
      (use blist_rebuild_careful [OF b(1)] family_load [OF fam, of a] in auto)
qed

lemma splice_goes:
  assumes fam: "family A L m" and lim: "off + len \<le> length (fst (A a))" and w: "small (snd (A a) + 1)"
  shows "goes (list_step (Splice a off len None) (L, m))
    (A(a := (take off (fst (A a)) @ drop (off + len) (fst (A a)), snd (A a) + 1)))"
proof -
  have l: "off + len \<le> b_len (L a)" using lim shownD(4) [OF familyD(3) [OF fam]] by simp
  obtain b m' where s: "blist_splice off len None (L a) m = Inr (b, None, m')"
    "wf_mem m'" "wf_list m' b" "bl_bytes m' b = take off (fst (A a)) @ drop (off + len) (fst (A a))"
    "keeps (others m (L a)) m m'" "others m' b = others m (L a)" "tidy {} m m'"
    "tail_cache b = None \<or> b = L a \<and> m' = m"
    using blist_splice_ok [OF family_ready(1) [OF fam] l, of None] family_bytes [OF fam]
    by (auto simp: claim_ok_def claim_nodes_def gains_def)
  have b: "becomes (L a) m (take off (fst (A a)) @ drop (off + len) (fst (A a))) b m'"
    using s(2-6) by (simp add: becomes_def turns_def wf_list_def)
  have c: "careful (L a) m b m'" using s(7,8) tidy_careful by auto
  have "family (A(a := (take off (fst (A a)) @ drop (off + len) (fst (A a)), snd (A a) + 1))) (L(a := b)) m'"
    by (rule family_becomes [OF fam b c _ w])
      (use blist_splice_count(1) [OF s(1)] family_load [OF fam, of a] lim in auto)
  then show ?thesis by (rule goesI [rotated]) (simp add: s(1))
qed

lemma splice_claim_goes:
  assumes fam: "family A L m" and ac: "a \<noteq> c" and lim: "off + len \<le> length (fst (A a))"
    and w: "small (snd (A a) + 1)" "small (snd (A c) + snd (A a))"
  shows "goes (list_step (Splice a off len (Some c)) (L, m))
    (A(a := (take off (fst (A a)) @ drop (off + len) (fst (A a)), snd (A a) + 1),
       c := (fst (A c) @ take len (drop off (fst (A a))), snd (A c) + snd (A a))))"
proof -
  note ld = family_load [OF fam, of a] family_load [OF fam, of c]
  note ln = shownD(4) [OF familyD(3) [OF fam]]
  have l: "off + len \<le> b_len (L a)" using lim ln by simp
  have ck: "claim_ok m (Some (L c)) len (length (bufs (L a)))"
    using family_wf(1) [OF fam, of c] ln [of c] ld lim w(2) by (auto simp: claim_ok_def small_def)
  have dis: "claim_nodes (Some (L c)) \<inter> set (bufs (L a)) = {}"
    using family_apart [OF fam ac] by (auto simp: claim_nodes_def apart_def)
  obtain b cl m' where s: "blist_splice off len (Some (L c)) (L a) m = Inr (b, cl, m')"
    "wf_mem m'" "wf_list m' b" "bl_bytes m' b = take off (fst (A a)) @ drop (off + len) (fst (A a))"
    "gains (Some (L c)) m (seg off len (fst (A a))) cl m'"
    "keeps (others m (L a) - claim_nodes (Some (L c))) m m'"
    "others m' b - claim_nodes cl = others m (L a) - claim_nodes (Some (L c))"
    "claim_nodes cl \<inter> set (bufs b) = {}" "tidy {} m m'" "claim_tails m' cl = claim_tails m (Some (L c))"
    "tail_cache b = None \<or> b = L a \<and> m' = m"
    using blist_splice_ok [OF family_ready(1) [OF fam] l ck dis] unfolding family_bytes [OF fam]
    by (elim exE conjE) (rule that)
  obtain d where d: "cl = Some d" "wf_list m' d" "bl_bytes m' d = fst (A c) @ take len (drop off (fst (A a)))"
    using s(5) family_bytes [OF fam] by (auto simp: gains_def seg_def)
  note cnt = blist_splice_count [OF s(1)]
  have env: "m_env m' = m_env m" using s(6) by (simp add: keeps_def)
  have "family (A(a := (take off (fst (A a)) @ drop (off + len) (fst (A a)), snd (A a) + 1),
       c := (fst (A c) @ take len (drop off (fst (A a))), snd (A c) + snd (A a)))) (L(a := b, c := d)) m'"
  proof (rule family_two [OF fam ac s(2) env])
    show "shown m' b (take off (fst (A a)) @ drop (off + len) (fst (A a)), snd (A a) + 1)"
      using s(3,4) cnt(1) ld(1) lim w(1) by (simp add: shown_def)
    show "shown m' d (fst (A c) @ take len (drop off (fst (A a))), snd (A c) + snd (A a))"
      using d cnt(2) ld lim w(2) by (simp add: shown_def claim_count_def)
  qed (use s(6-11) d(1) in \<open>auto simp: claim_nodes_def claim_tails_def tail_raws_none\<close>)
  then show ?thesis by (rule goesI [rotated]) (simp add: s(1) d(1))
qed

subsection \<open>Programs refine programs\<close>

lemma list_step_goes:
  assumes "family A L m" "seq_step p A = Some A'"
  shows "goes (list_step p (L, m)) A'"
proof (cases p)
  case (Append a data)
  then show ?thesis using assms append_goes by (auto dest!: set_seqD)
next
  case (Append_zero a n)
  then show ?thesis using assms append_zero_goes by (auto dest!: set_seqD)
next
  case (Append_list a c)
  then show ?thesis using assms append_list_goes by (auto dest!: set_seqD split: if_splits)
next
  case (Assign a c)
  then show ?thesis using assms assign_goes by (auto intro: goesI)
next
  case (Assign_move a c)
  then have "A' = A(a := A c, c := ([], 0))" using assms(2) by simp
  then show ?thesis using Assign_move assign_move_goes [OF assms(1)] by (simp only:)
next
  case (Claim_append a c)
  then have "A' = A(c := ([], 0), a := (fst (A a) @ fst (A c), snd (A a) + snd (A c)))" "a \<noteq> c"
    "small (snd (A a) + snd (A c))"
    using assms(2) by (auto dest!: set_seqD split: if_splits)
  then show ?thesis using Claim_append claim_goes [OF assms(1), of a c] by (simp add: fun_upd_twist)
next
  case (Clear a)
  then show ?thesis using assms clear_goes by auto
next
  case (Swap a c)
  then have "A' = A(a := A c, c := A a)" using assms(2) by simp
  then show ?thesis using Swap swap_goes [OF assms(1)] by (simp only:)
next
  case (Substr_of a c off len)
  then show ?thesis using assms substr_goes by (auto split: if_splits)
next
  case (Splice a off len cl)
  show ?thesis
  proof (cases "len = 0")
    case True
    then have "A' = A" using Splice assms(2) by simp
    moreover have "list_step p (L, m) = Inr (L, m)"
      using Splice True by (cases cl) (simp_all add: blist_splice_def)
    ultimately show ?thesis using assms(1) by (auto intro: goesI)
  next
    case False
    note step = assms(2) [unfolded Splice] False
    show ?thesis
    proof (cases cl)
      case None
      then show ?thesis using Splice step splice_goes [OF assms(1)]
        by (auto simp: Let_def simp del: list_step.simps dest!: set_seqD split: if_splits)
    next
      case (Some c)
      then have "off + len \<le> length (fst (A a))" "a \<noteq> c" "small (snd (A a) + 1)" "small (snd (A c) + snd (A a))"
        "A' = A(c := (fst (A c) @ take len (drop off (fst (A a))), snd (A c) + snd (A a)),
           a := (take off (fst (A a)) @ drop (off + len) (fst (A a)), snd (A a) + 1))"
        using step by (auto simp: Let_def bind_eq_Some_conv dest!: set_seqD split: if_splits)
      then show ?thesis using Splice Some splice_claim_goes [OF assms(1), of a c]
        by (simp del: list_step.simps add: fun_upd_twist)
    qed
  qed
next
  case (Reserve a n)
  then show ?thesis using assms reserve_goes by (auto dest!: set_seqD split: if_splits)
next
  case (Rebuild a)
  then show ?thesis using assms rebuild_goes by (auto dest!: set_seqD)
qed

lemma list_step_fails:
  assumes fam: "family A L m" and "seq_fail p A = Some e"
  shows "list_step p (L, m) = Inl e"
proof (cases p)
  case (Substr_of a c off len)
  note n = shownD(4) [OF familyD(3) [OF fam], of c]
  have lim: "off + len < two64" and e: "e = (if length (fst (A c)) < off + len then End_of_buffer else Undefined)"
    and le: "length (fst (A c)) \<le> off + len" and ac: "length (fst (A c)) = off + len \<Longrightarrow> a \<noteq> c"
    using assms(2) Substr_of by (auto simp: Let_def split: if_splits)
  have "substr_of (L c) off len (L a) m = Inl e"
  proof (cases "length (fst (A c)) = off + len")
    case True
    have u: "e = Undefined" unfolding e True by simp
    have "off + len = b_len (L c)" "b_len (L c) < two64" using n lim unfolding True by simp_all
    then show ?thesis
      unfolding u
      by (rule substr_of_stuck [OF familyD(1) [OF fam] family_wf(2) [OF fam] family_wf(1) [OF fam]
          family_apart [OF fam ac [OF True]]])
  next
    case False
    then show ?thesis using substr_of_beyond [of "L c" off len "L a" m] n lim e le by simp
  qed
  then show ?thesis by (simp add: Substr_of put_def)
next
  case (Splice a off len cl)
  note n = shownD(4) [OF familyD(3) [OF fam]]
  have len: "len \<noteq> 0" using assms(2) Splice by (simp add: Let_def split: if_splits)
  have "blist_splice off len (map_option L cl) (L a) m = Inl e"
  proof (cases "length (fst (A a)) \<le> off")
    case True
    then show ?thesis using assms(2) Splice len splice_refused [of len "L a" off] n by simp
  next
    case False
    have s: "length (fst (A a)) < off + len" "off + len < two64" "e = Undefined"
      "\<And>c. cl = Some c \<Longrightarrow> a \<noteq> c \<and> small (snd (A c) + snd (A a))"
      using assms(2) Splice len False by (auto simp: Let_def split: if_splits option.splits)
    have ck: "claim_ok m (map_option L cl) (b_len (L a) - off) (length (bufs (L a))) \<and>
      claim_nodes (map_option L cl) \<inter> set (bufs (L a)) = {}"
    proof (cases cl)
      case (Some c)
      have c: "a \<noteq> c" "small (snd (A c) + snd (A a))" using s(4) [OF Some] by simp_all
      have "b_len (L c) + (b_len (L a) - off) < 2 ^ 62" "length (bufs (L c)) + length (bufs (L a)) < 2 ^ 62"
        using c(2) family_load [OF fam, of a] family_load [OF fam, of c] n [of a] n [of c]
        by (simp_all add: small_def)
      then show ?thesis using Some family_wf(1) [OF fam, of c] family_apart [OF fam c(1)]
        by (auto simp: claim_ok_def claim_nodes_def apart_def)
    qed (simp add: claim_ok_def claim_nodes_def)
    have "off < b_len (L a)" "b_len (L a) < off + len" using False s(1) n [of a] by simp_all
    then show ?thesis
      using splice_beyond [OF family_ready(1) [OF fam, of a] _ _ s(2)] ck s(3) by blast
  qed
  then show ?thesis using Splice by (cases cl) simp_all
qed (use assms(2) in simp_all)

lemma list_run_goes:
  "family A L m \<Longrightarrow> seq_exec ps A = Some r \<Longrightarrow>
   (case r of Inl e \<Rightarrow> list_run ps (L, m) = Inl e | Inr A' \<Rightarrow> goes (list_run ps (L, m)) A')"
proof (induction ps arbitrary: A L m)
  case Nil
  then show ?case by (auto intro: goesI)
next
  case (Cons p ps)
  show ?case
  proof (cases "seq_fail p A")
    case (Some e)
    then have "r = Inl e" using Cons.prems(2) by simp
    then show ?thesis using list_step_fails [OF Cons.prems(1) Some] by simp
  next
    case None
    then obtain A1 where A1: "seq_step p A = Some A1" "seq_exec ps A1 = Some r"
      using Cons.prems(2) by (auto simp: bind_eq_Some_conv)
    obtain L1 m1 where "list_step p (L, m) = Inr (L1, m1)" "family A1 L1 m1"
      using list_step_goes [OF Cons.prems(1) A1(1)] by (auto simp: goes_def)
    then show ?thesis using Cons.IH [OF _ A1(2), of L1 m1] by (cases r) simp_all
  qed
qed

text \<open>
  C1 (refinement). A program over any number of lists, which share memory through copies,
  assignments, \<^verbatim>\<open>substr_of\<close>, \<^verbatim>\<open>append\<close> of lists and \<^verbatim>\<open>splice\<close>, does what the same program does
  over independent sequences, as far as \<open>seq_exec\<close> gives it a meaning. Where the sequences have
  a range that is not served, the program stops there with the same exception: \<^verbatim>\<open>end_of_buffer\<close>
  for a range beyond the end, undefined behaviour for a \<^verbatim>\<open>substr_of\<close> whose range ends with the
  other list and for a \<^verbatim>\<open>splice\<close> that starts in the list and ends behind it. Otherwise it
  succeeds, every list then reads as its sequence and has its length, the reference counts are
  exact and every object of the store is a node of one of the lists. Behind it is that no list
  ever writes where another can see it. \<open>seq_exec\<close> leaves out a list appended, claimed or
  spliced into itself or cut out of itself, a list of \<open>2 ^ 61\<close> or more bytes and nodes, a
  \<^verbatim>\<open>reserve\<close> of as much, and a range whose end does not fit into 64 bits; allocation succeeds.
\<close>

theorem lists_refine_sequences:
  assumes "env_ok e" "seq_exec ps (\<lambda>_. ([], 0)) = Some r"
  shows "case r of
      Inl x \<Rightarrow> list_run ps (\<lambda>_. blist_new, empty_mem e) = Inl x
    | Inr A \<Rightarrow> \<exists>L m. list_run ps (\<lambda>_. blist_new, empty_mem e) = Inr (L, m) \<and>
        (\<forall>a. to_str m (L a) = Inr (fst (A a)) \<and> b_len (L a) = length (fst (A a))) \<and>
        wf_mem m \<and> dom (m_ptrs m) = (\<Union>a. set (bufs (L a)))"
proof (cases r)
  case (Inl x)
  then show ?thesis using list_run_goes [OF family_new [OF assms(1)] assms(2)] by simp
next
  case (Inr A)
  obtain L m where r: "list_run ps (\<lambda>_. blist_new, empty_mem e) = Inr (L, m)" and f: "family A L m"
    using list_run_goes [OF family_new [OF assms(1)] assms(2)] Inr by (auto simp: goes_def)
  have "to_str m (L a) = Inr (fst (A a)) \<and> b_len (L a) = length (fst (A a))" for a
    using to_str_bytes [OF familyD(1) [OF f] family_wf(1) [OF f]] family_bytes [OF f]
      shownD(4) [OF familyD(3) [OF f]] by simp
  then show ?thesis using r familyD(1,5) [OF f] Inr by simp
qed

theorem lists_refine_sequences_witness:
  "(\<exists>L m. list_run [Append 0 [1, 2, 3], Assign 1 0, Append 0 [4], Append 1 [5], Splice 0 1 2 (Some 2),
      Append 2 [9], Substr_of 3 1 0 2, Rebuild 1, Claim_append 3 2, Assign_move 2 2]
      (\<lambda>_. blist_new, empty_mem demo_env) = Inr (L, m) \<and>
    to_str m (L 0) = Inr [1, 4] \<and> to_str m (L 1) = Inr [1, 2, 3, 5] \<and>
    to_str m (L 2) = Inr [] \<and> to_str m (L 3) = Inr [1, 2, 2, 3, 9]) \<and>
   list_run [Append 0 [1, 2, 3], Splice 0 0 0 None, Substr_of 1 0 1 2, Clear 0]
     (\<lambda>_. blist_new, empty_mem demo_env) = Inl Undefined \<and>
   list_run [Append 0 [1, 2, 3], Splice 0 2 2 (Some 1)] (\<lambda>_. blist_new, empty_mem demo_env) = Inl Undefined \<and>
   list_run [Append 0 [1, 2, 3], Splice 0 3 1 None] (\<lambda>_. blist_new, empty_mem demo_env) = Inl End_of_buffer"
proof (intro conjI)
  obtain A where A: "seq_exec [Append 0 [1, 2, 3], Assign 1 0, Append 0 [4], Append 1 [5],
      Splice 0 1 2 (Some 2), Append 2 [9], Substr_of 3 1 0 2, Rebuild 1, Claim_append 3 2, Assign_move 2 2]
      (\<lambda>_. ([], 0)) = Some (Inr A)"
    "fst (A 0) = [1, 4]" "fst (A 1) = [1, 2, 3, 5]" "fst (A 2) = []" "fst (A 3) = [1, 2, 2, 3, 9]"
    by (simp add: set_seq_def small_def Let_def two64_def)
  show "\<exists>L m. list_run [Append 0 [1, 2, 3], Assign 1 0, Append 0 [4], Append 1 [5], Splice 0 1 2 (Some 2),
      Append 2 [9], Substr_of 3 1 0 2, Rebuild 1, Claim_append 3 2, Assign_move 2 2]
      (\<lambda>_. blist_new, empty_mem demo_env) = Inr (L, m) \<and>
    to_str m (L 0) = Inr [1, 4] \<and> to_str m (L 1) = Inr [1, 2, 3, 5] \<and>
    to_str m (L 2) = Inr [] \<and> to_str m (L 3) = Inr [1, 2, 2, 3, 9]"
    using lists_refine_sequences [OF env_ok_demo A(1)] A(2-5) unfolding sum.case by metis
  have "seq_exec [Append 0 [1, 2, 3], Splice 0 0 0 None, Substr_of 1 0 1 2, Clear 0] (\<lambda>_. ([], 0)) = Some (Inl Undefined)"
    by (simp add: set_seq_def small_def Let_def two64_def)
  then show "list_run [Append 0 [1, 2, 3], Splice 0 0 0 None, Substr_of 1 0 1 2, Clear 0]
     (\<lambda>_. blist_new, empty_mem demo_env) = Inl Undefined"
    using lists_refine_sequences [OF env_ok_demo] by fastforce
  have "seq_exec [Append 0 [1, 2, 3], Splice 0 2 2 (Some 1)] (\<lambda>_. ([], 0)) = Some (Inl Undefined)"
    by (simp add: set_seq_def small_def Let_def two64_def)
  then show "list_run [Append 0 [1, 2, 3], Splice 0 2 2 (Some 1)] (\<lambda>_. blist_new, empty_mem demo_env)
     = Inl Undefined"
    using lists_refine_sequences [OF env_ok_demo] by fastforce
  have "seq_exec [Append 0 [1, 2, 3], Splice 0 3 1 None] (\<lambda>_. ([], 0)) = Some (Inl End_of_buffer)"
    by (simp add: set_seq_def small_def Let_def two64_def)
  then show "list_run [Append 0 [1, 2, 3], Splice 0 3 1 None] (\<lambda>_. blist_new, empty_mem demo_env)
     = Inl End_of_buffer"
    using lists_refine_sequences [OF env_ok_demo] by fastforce
qed

text \<open>
  C5 (type). The invariant of a family of lists is a type in the sense of progress and
  preservation: in a family, an operation the specification allows succeeds, and what it
  leaves is a family again, of lists that are well formed, show what they should, share no
  node and do not write behind the same windows.
\<close>

theorem list_operations_type_safe:
  assumes "family A L m" "seq_step p A = Some A'"
  shows "\<exists>L' m'. list_step p (L, m) = Inr (L', m') \<and> family A' L' m'"
  using list_step_goes [OF assms] by (simp add: goes_def)

theorem list_operations_type_safe_witness:
  "\<exists>L m. list_step (Append 7 [1]) (\<lambda>_. blist_new, empty_mem demo_env) = Inr (L, m) \<and>
    family ((\<lambda>_. ([], 0))(7 := ([1], 3))) L m"
proof -
  have "seq_step (Append 7 [1]) (\<lambda>_. ([], 0)) = Some ((\<lambda>_. ([], 0))(7 := ([1], 3)))"
    by (simp add: set_seq_def small_def numeral_3_eq_3)
  then show ?thesis by (rule list_operations_type_safe [OF family_new [OF env_ok_demo]])
qed

end
