(* ===== verification/List_Overloads.thy ===== *)
theory List_Overloads
  imports Buffer_Io Buffer_Appender Buffer_Order Buffer_List_Props
begin

text \<open>
  The small functions of \<^verbatim>\<open>buffer_list.h\<close> that only hand on to others: the overloads of \<^verbatim>\<open>append\<close> for
  strings, the sizes, the constant iterators, the makers of appenders, the lists around foreign memory;
  and \<^verbatim>\<open>prepare_iov\<close>, which describes a list's memory to the system calls.
\<close>

subsection \<open>Strings\<close>

text \<open>
  A \<^verbatim>\<open>const char*\<close> is the memory from there on, as far as it may be read: \<^verbatim>\<open>strlen\<close> looks for the null
  byte. The array of \<^verbatim>\<open>append(const char(&s)[N])\<close> is taken whole, its null byte included.
\<close>

definition c_strlen :: "bytes \<Rightarrow> exn + nat" where
  "c_strlen s = (if 0 \<in> set s then Inr (length (takeWhile (\<lambda>c. c \<noteq> 0) s)) else Inl Undefined)"

definition blist_append_string :: "bytes \<Rightarrow> blist \<Rightarrow> mem \<Rightarrow> exn + blist \<times> mem" where
  "blist_append_string s b m = blist_append s b m"

definition blist_append_array :: "bytes \<Rightarrow> blist \<Rightarrow> mem \<Rightarrow> exn + blist \<times> mem" where
  "blist_append_array s b m = blist_append s b m"

definition blist_append_c_string :: "bytes \<Rightarrow> blist \<Rightarrow> mem \<Rightarrow> exn + blist \<times> mem" where
  "blist_append_c_string s b m = ebind (c_strlen s) (\<lambda>n. blist_append (take n s) b m)"

definition blist_append_view :: "bytes \<Rightarrow> blist \<Rightarrow> mem \<Rightarrow> exn + blist \<times> mem" where
  "blist_append_view s b m = blist_append s b m"

definition ptr_append_view :: "nat \<Rightarrow> bytes \<Rightarrow> mem \<Rightarrow> exn + nat \<times> mem" where
  "ptr_append_view i s m = ptr_append i s m"

definition static_from_cstring :: "nat \<Rightarrow> bytes \<Rightarrow> mem \<Rightarrow> exn + blist \<times> mem" where
  "static_from_cstring addr c m = ebind (c_strlen c) (\<lambda>n. static_from_mem addr (take n c) m)"

definition static_from_string :: "nat \<Rightarrow> bytes \<Rightarrow> mem \<Rightarrow> exn + blist \<times> mem" where
  "static_from_string addr s m = static_from_mem addr s m"

lemma c_strlen_stop: "0 \<notin> set s \<Longrightarrow> c_strlen (s @ 0 # rest) = Inr (length s)"
  unfolding c_strlen_def by (subst takeWhile_append2) auto

lemma append_c_string_appends:
  assumes "ready b m" "0 \<notin> set s" "length s < 2 ^ 62"
  shows "\<exists>b' m'. blist_append_c_string (s @ 0 # rest) b m = Inr (b', m') \<and> becomes b m (bl_bytes m b @ s) b' m'"
  using blist_append_ok [OF assms(1,3)] by (simp add: blist_append_c_string_def c_strlen_stop [OF assms(2)])

subsection \<open>Sizes and ends\<close>

definition blist_length :: "blist \<Rightarrow> nat" where
  "blist_length b = b_len b"

definition get_num_buffers :: "blist \<Rightarrow> nat" where
  "get_num_buffers b = b_num b"

definition claim_append_move :: "blist \<Rightarrow> blist \<Rightarrow> blist \<times> blist" where
  "claim_append_move rvalue b = claim_append rvalue b"

text \<open>A constant iterator made from another one, and the constant ends of a list.\<close>

definition iter_const :: "iter \<Rightarrow> iter" where
  "iter_const it = \<lparr>it_node = it_node it, it_r_off = it_r_off it, it_a_off = it_a_off it\<rparr>"

definition list_begin_const :: "mem \<Rightarrow> blist \<Rightarrow> nat \<Rightarrow> exn + iter" where
  "list_begin_const m b off = iter_new m b off"

definition list_cbegin :: "mem \<Rightarrow> blist \<Rightarrow> nat \<Rightarrow> exn + iter" where
  "list_cbegin m b off = list_begin_const m b off"

definition list_end_const :: "blist \<Rightarrow> iter" where
  "list_end_const b = \<lparr>it_node = None, it_r_off = 0, it_a_off = b_len b\<rparr>"

subsection \<open>Appenders\<close>

definition get_contiguous_appender :: "nat \<Rightarrow> bool \<Rightarrow> blist \<Rightarrow> mem \<Rightarrow> exn + appender \<times> blist \<times> mem" where
  "get_contiguous_appender len deep b m = appender_new len deep b m"

definition get_out_of_band_offset :: "appender \<Rightarrow> nat" where
  "get_out_of_band_offset a = ap_oob a"

definition filler_c_str :: "filler \<Rightarrow> nat \<times> nat" where
  "filler_c_str f = f"

definition get_page_aligned_appender :: "nat \<Rightarrow> mem \<Rightarrow> pappender \<times> mem" where
  "get_page_aligned_appender min_elements m = pappender_new min_elements m"

text \<open>The destructor flushes; then the members go, \<^verbatim>\<open>_buffer\<close> among them.\<close>

definition pappender_destroy :: "pappender \<Rightarrow> blist \<Rightarrow> mem \<Rightarrow> exn + blist \<times> mem" where
  "pappender_destroy a b m =
    ebind (pappender_flush a b m) (\<lambda>(b, m). ebind (ptr_destroy (pa_buffer a) m) (\<lambda>m. Inr (b, m)))"

subsection \<open>\<^verbatim>\<open>prepare_iov\<close>\<close>

text \<open>
  A segment is an \<^verbatim>\<open>iovec\<close>: where it starts, nowhere for \<^verbatim>\<open>nullptr\<close>, and its length. \<open>iov\<close> has as many
  segments as the list counts nodes; a node beyond them would be written past the array.
\<close>

type_synonym segment = "(nat \<times> nat) option \<times> nat"

fun fill_iov :: "mem \<Rightarrow> nat list \<Rightarrow> nat \<Rightarrow> segment list \<Rightarrow> exn + segment list" where
  "fill_iov m [] i iov = Inr iov"
| "fill_iov m (p # ps) i iov =
     ebind (c_str m p) (\<lambda>start.
     ebind (ptr_length m p) (\<lambda>n.
       if i < length iov then fill_iov m ps (Suc i) (iov[i := (Some start, n)]) else Inl Undefined))"

definition prepare_iov :: "mem \<Rightarrow> blist \<Rightarrow> exn + segment list" where
  "prepare_iov m b =
    ebind (spec_assert (b_num b \<le> iov_max)) (\<lambda>_. fill_iov m (bufs b) 0 (replicate (b_num b) (None, 0)))"

definition segment_bytes :: "mem \<Rightarrow> segment \<Rightarrow> bytes" where
  "segment_bytes m v =
    (case v of
       (Some (r, off), n) \<Rightarrow> (case m_raws m r of None \<Rightarrow> [] | Some w \<Rightarrow> seg off n (r_data w))
     | _ \<Rightarrow> [])"

lemma fill_iov_ok:
  assumes "\<And>p. p \<in> set ps \<Longrightarrow> has_raw m p" "length iov = i + length ps"
  shows "\<exists>vs. fill_iov m ps i iov = Inr (take i iov @ vs) \<and> map (segment_bytes m) vs = map (node_bytes m) ps"
  using assms
proof (induction ps arbitrary: i iov)
  case Nil
  then show ?case by simp
next
  case (Cons p ps)
  obtain q r where q: "m_ptrs m p = Some q" "p_raw q = Some r" using Cons.prems(1) [of p] by (auto simp: has_raw_def)
  let ?v = "(Some (r, p_off q), p_len q)"
  have i: "i < length iov" using Cons.prems(2) by simp
  have "length (iov[i := ?v]) = Suc i + length ps" using Cons.prems(2) by simp
  with Cons.IH [of "iov[i := ?v]" "Suc i"] Cons.prems(1) obtain vs where vs:
    "fill_iov m ps (Suc i) (iov[i := ?v]) = Inr (take (Suc i) (iov[i := ?v]) @ vs)"
    "map (segment_bytes m) vs = map (node_bytes m) ps" by auto
  have "fill_iov m (p # ps) i iov = Inr (take i iov @ ?v # vs)"
    using q i vs(1) by (simp add: c_str_def ptr_raw_def ptr_at_def ptr_length_def of_option_def take_Suc_conv_app_nth)
  moreover have "segment_bytes m ?v = node_bytes m p"
    using q by (simp add: segment_bytes_def node_bytes_def ptr_bytes_def)
  ultimately show ?case using vs(2) by (intro exI [of _ "?v # vs"]) simp
qed

text \<open>
  \<^verbatim>\<open>prepare_iov\<close> of a list with at most \<^verbatim>\<open>IOV_MAX\<close> nodes gives one segment per node, and the memory the
  segments describe holds the bytes of the list, in order; of a longer list it stops at its assertion.
\<close>

lemma prepare_iov_describes:
  assumes "ready b m"
  shows "length (bufs b) \<le> iov_max \<Longrightarrow>
      \<exists>iov. prepare_iov m b = Inr iov \<and> length iov = length (bufs b) \<and> concat (map (segment_bytes m) iov) = bl_bytes m b"
    "iov_max < length (bufs b) \<Longrightarrow> prepare_iov m b = Inl Assert_failed"
proof -
  note wf = readyD(3) [OF assms]
  assume few: "length (bufs b) \<le> iov_max"
  obtain vs where vs: "fill_iov m (bufs b) 0 (replicate (b_num b) (None, 0)) = Inr vs"
    "map (segment_bytes m) vs = map (node_bytes m) (bufs b)"
    using fill_iov_ok [of "bufs b" m "replicate (b_num b) (None, 0)" 0] wf_nodesD(2,3) [OF wf] by auto
  have "length vs = length (bufs b)" using arg_cong [OF vs(2), of length] by simp
  then show "\<exists>iov. prepare_iov m b = Inr iov \<and> length iov = length (bufs b) \<and>
      concat (map (segment_bytes m) iov) = bl_bytes m b"
    using few vs wf_nodesD(3) [OF wf] by (simp add: prepare_iov_def spec_assert_def bl_bytes_def)
next
  assume "iov_max < length (bufs b)"
  then show "prepare_iov m b = Inl Assert_failed"
    using wf_nodesD(3) [OF readyD(3) [OF assms]] by (simp add: prepare_iov_def spec_assert_def)
qed

end
