(* ===== verification/Spec2Isabelle.thy ===== *)
theory Spec2Isabelle
  imports Crc32c Intarith Buffer_Cut_Props Iter_Props Ptr_Props Armor Chain_Props Appender_Props Buffer_Order Safe_Io_Props Io_Props Utime Spinlock Arch_Intel Deleter_Props List_Base64 List_Hexdump Compact_Map Compact_Set Ptr_Iter Assert_Text Context_Complete Buffer_Hash List_Programs List_Overloads
begin

text \<open>
  A verification development of the buffer library of this repository (\<^verbatim>\<open>src/common\<close>, \<^verbatim>\<open>src/include\<close>).

  \<^bold>\<open>The program.\<close> A \<^verbatim>\<open>raw\<close> is a reference-counted block of memory. A \<^verbatim>\<open>ptr\<close> is a window of a raw and owns
  one reference; a \<^verbatim>\<open>ptr_node\<close> is a \<^verbatim>\<open>ptr\<close> with a \<^verbatim>\<open>next\<close> pointer. A \<^verbatim>\<open>buffer::list\<close> is an intrusive, singly
  linked ring of nodes (\<^verbatim>\<open>buffers_t\<close>) with its length, its node count and a cached tail into whose raw it
  may still append; lists share raws when they are copied, cut or appended to one another. Iterators,
  appenders, comparison, checksums, files, base64 and hexadecimal dumps are built on the list. Under it
  are the integer helpers, the memory pools that count what is allocated, the inlined copy, the CRC-32C
  routines with the CPU probe that chooses among them, and the retrying system calls. Beside it stand
  the \<^verbatim>\<open>deleter\<close>, the compact containers, the callback contexts, the spin lock, the
  time stamps and the reports of failed assertions.

  \<^bold>\<open>Conventions.\<close> Lengths, offsets and counters that the code keeps in \<^verbatim>\<open>uint64_t\<close> are natural numbers with
  the wrap-around written out (\<open>add64\<close>, \<open>sub64\<close> of \<open>Prelude\<close>); bytes, 32-bit registers and everything
  computed bit by bit are words. Exceptions, failed assertions (\<open>Assert_failed\<close>) and accesses that the
  language leaves undefined (\<open>Undefined\<close>) are the \<open>Inl\<close> values of a sum. A loop whose end is not plain
  from its recursion is \<open>run\<close> of \<open>Loops\<close>, a partial function whose value \<open>None\<close> is a loop that never
  ends, so no fuel is needed anywhere: that a loop ends is proved as \<open>run \<dots> = Some \<dots>\<close>, and that it does
  not as \<open>run \<dots> = None\<close>. All state is passed explicitly: the store \<open>mem\<close> of \<open>Buffer_Raw\<close> holds the raws
  and the table of \<^verbatim>\<open>ptr\<close> objects, so that sharing is sharing in the model.

  \<^bold>\<open>Theories.\<close>

  \<^item> \<open>Prelude\<close>, \<open>Loops\<close>: the vocabulary above, shared lemmas, the collections \<open>arith64\<close> and \<open>mem_simps\<close>;
    total and partial correctness of loops.
  \<^item> \<open>Intarith\<close> (\<^verbatim>\<open>intarith.h\<close>, \<^verbatim>\<open>page.cc\<close>): rounding, powers of two, bit counts.
  \<^item> \<open>Crc32c_Spec\<close>, \<open>Crc32c_Tables\<close>, \<open>Crc32c_Sctp\<close>, \<open>Crc32c\<close> (\<^verbatim>\<open>common/crc32\<close>, \<^verbatim>\<open>crc32c.h\<close>): the bit-serial
    register, the tables as they stand in the files, slicing by eight, the byte-wise and the accelerated
    routine, the zeros shortcut. The locale \<open>crc32c_routine\<close> is the contract of a routine; both software
    routines interpret it.
  \<^item> \<open>Arch_Intel\<close> (\<^verbatim>\<open>common/arch\<close>): the probe as a function of what \<^verbatim>\<open>cpuid\<close> and \<^verbatim>\<open>xgetbv\<close> answer.
  \<^item> \<open>Mempool\<close> (\<^verbatim>\<open>mempool.h\<close>, \<^verbatim>\<open>mempool.cc\<close>): shards, totals, the registry of types, the allocator.
  \<^item> \<open>Inline_Memory\<close> (\<^verbatim>\<open>inline_memory.h\<close>): the inlined copy and the word-wise zero test.
  \<^item> \<open>Buffer_Raw\<close> (\<^verbatim>\<open>buffer_raw*.h\<close>, \<^verbatim>\<open>buffer_create.cc\<close>): raws of every kind, their creation, their pool
    accounting and checksum cache. \<open>Buffer_Ptr\<close> (\<^verbatim>\<open>buffer_ptr.h\<close>, \<^verbatim>\<open>buffer_ptr.cc\<close>): every operation of \<^verbatim>\<open>ptr\<close>.
    \<open>Buffer_Mem\<close> states the invariant of the store (exact counters, no dangling object, every window
    inside its raw) and \<open>Ptr_Ops\<close>, \<open>Ptr_New\<close>, \<open>Ptr_Write\<close> show that every operation keeps it, when its
    caller stays inside the windows, and what it does to the bytes, its own and others'. \<open>Ptr_Narrow\<close> and
    \<open>Ptr_Props\<close> show that the counters are exact whatever offsets and lengths the guards of the code let pass. \<open>Ptr_Iter\<close>: the iterators over one window.
  \<^item> \<open>Buffers_Chain\<close> with \<open>Chain_Spec\<close>, \<open>Chain_Loops\<close>, \<open>Chain_Ops\<close>, \<open>Chain_Props\<close>: the intrusive ring on its
    pointers, and that it refines finite sequences; by this the other theories may take the nodes of a
    list as a sequence.
  \<^item> \<open>Buffer_List\<close> (building, copying, appending) and \<open>Buffer_List_Ops\<close> (reading, comparing, rebuilding,
    cutting): \<^verbatim>\<open>buffer::list\<close>. \<open>Buffer_List_Spec\<close> is its contract, a sequence of bytes; \<open>Buffer_Nodes\<close>,
    \<open>Buffer_Append\<close>, \<open>Buffer_Append_Ops\<close>, \<open>Buffer_Read\<close>, \<open>Buffer_Cut\<close>, \<open>Buffer_Substr\<close> and \<open>Buffer_Splice\<close>
    prove that the operations carry it out; \<open>Buffer_List_Props\<close> and \<open>Buffer_Cut_Props\<close> hold the
    properties, those where the code does not do it included. \<open>Windows\<close> and \<open>Tail_Care\<close> say what an
    operation on one list may do behind the tails of the others; with them \<open>List_Programs\<close> shows that
    any program over many lists that share memory refines the same program over byte sequences, the
    exceptions of \<open>List_Failures\<close> included, as long as bytes and nodes of each stay below \<open>2 ^ 61\<close>, where
    no length wraps.
  \<^item> \<open>Buffer_Iter\<close> with \<open>Iter_Spec\<close>, \<open>Iter_Write\<close>, \<open>Iter_Props\<close>: the iterators; the locale \<open>node_reader\<close> is
    what a copy out of a node promises. \<open>Buffer_Appender\<close>, \<open>Appender_Props\<close>: the appenders and the filler.
    \<open>Buffer_Order\<close>: the comparison operators. \<open>List_Crc\<close>: the checksum of a list through the caches of its
    raws. \<open>Buffer_Io\<close>, \<open>Io_Props\<close>: lists to and from descriptors and files. \<open>List_Overloads\<close>: the
    functions of \<^verbatim>\<open>buffer_list.h\<close> that hand on to others, and \<^verbatim>\<open>prepare_iov\<close>, whose segments hold the bytes
    of the list.
  \<^item> \<open>Safe_Io\<close>, \<open>Safe_Io_Props\<close> (\<^verbatim>\<open>safe_io.c\<close>): retried reads and writes; the system calls are functions of
    the operating system's state, with what their manual pages promise as hypotheses. The locale \<open>sink\<close> is
    what writing to a stream and to an offset have in common.
  \<^item> \<open>Armor\<close> (\<^verbatim>\<open>armor.c\<close>): base64, with its round trip; \<open>List_Base64\<close>: lists through it. \<open>List_Hexdump\<close>: the
    hexadecimal dump, as the text it writes. \<open>Buffer_Hash\<close> (\<^verbatim>\<open>buffer_hash.h\<close>): the checksum of several lists.
  \<^item> \<open>Debug_Text\<close>, \<open>Back_Trace\<close>, \<open>Assert_Text\<close> (\<^verbatim>\<open>spec_assert\<close>, \<^verbatim>\<open>errno.cc\<close>, the stream operators): the texts of
    numbers, times, raws, windows and lists; what a back trace prints; what fits in the buffers of the
    reports that end the program.
  \<^item> \<open>Context_Complete\<close> (\<^verbatim>\<open>Context.h\<close>): callbacks that delete themselves when they are completed.
  \<^item> \<open>Deleter\<close>, \<open>Deleter_Refs\<close>, \<open>Deleter_Append\<close>, \<open>Deleter_Props\<close> (\<^verbatim>\<open>deleter.h\<close>): chains of actions, exactness
    of the counters, and that every action runs once.
  \<^item> \<open>Std_Tree\<close>, \<open>Compact_Map\<close>, \<open>Compact_Set\<close> (\<^verbatim>\<open>compact_map.h\<close>, \<^verbatim>\<open>compact_set.h\<close>): the ordered tree of the standard
    library with its iterators in both directions, and the containers that keep one only while it is not
    empty; programs over them refine finite maps and finite sets, and loops over them see the entries in
    order, in reverse order, or from a bound on.
  \<^item> \<open>Spinlock\<close> (\<^verbatim>\<open>spinlock.h\<close>) and \<open>Utime\<close> (\<^verbatim>\<open>utime.h\<close>).

  \<^bold>\<open>Not modelled.\<close> The assembly routines of \<^verbatim>\<open>common/crc32\<close> (parameters of \<open>Crc32c\<close>, with the documented
  result as hypothesis, for the buffers of nine bytes or more that end on a word boundary); debugging output (\<^verbatim>\<open>dout\<close>); the tests; compiler and forwarding headers; the
  conversions of time stamps from and to floating point. An assertion that fails ends the
  program and is the value \<open>Assert_failed\<close>. Memory is taken to be sequentially consistent, and apart from
  the spin lock only one thread is modelled.
\<close>

end
